(* ===== verification/Prelude.thy ===== *)
theory Prelude
  imports Main "HOL-Library.Word" "HOL-Library.Multiset"
begin

text \<open>
  Shared vocabulary of the development: the machine types of the modelled code, the store of
  intrusive links, and the lemmas on chains of links that every pointer-based component uses.

  An object is identified by its address, a natural number; a pointer is an optional address with
  \<^term>\<open>None\<close> for the null pointer. An intrusive link (a \<open>next_\<close> member) is a function from
  addresses to pointers, so writing \<open>obj.next_ = p\<close> is a function update and aliasing between
  objects is what it is in the code.
\<close>

type_synonym addr = nat
type_synonym ptr = "addr option"
type_synonym links = "addr \<Rightarrow> ptr"
type_synonym size_t = "64 word"
type_synonym byte = "8 word"

text \<open>
  The collections below gather the facts that the component proofs hand to the simplifier:
  \<open>chain_simps\<close> for segments of links, \<open>size_arith\<close> for \<^typ>\<open>size_t\<close> arithmetic that does not wrap.
\<close>

named_theorems chain_simps
named_theorems size_arith

text \<open>
  Errors as values. \<open>AssertFailed\<close> is a \<open>COIO_ASSERT\<close> whose condition is false (an \<open>assert\<close>: the
  debug build aborts), \<open>Terminate\<close> a call of \<open>std::terminate\<close>, \<open>HeapOverflow\<close> a copy past the end of
  an allocation, \<open>NullDeref\<close> a read through the null pointer, \<open>DeadObject\<close> a use or destruction of an object
  outside its lifetime; the others are the exceptions that the
  modelled code throws, \<open>GenericError\<close> and \<open>GaiError\<close> a \<open>std::system_error\<close>
  of \<open>generic_category\<close> (where its numbers differ from those of \<open>system_category\<close>) and of \<open>gai_category\<close>.
\<close>

datatype error =
    AssertFailed
  | Terminate
  | HeapOverflow
  | NullDeref
  | DeadObject
  | LengthError
  | BadAlloc
  | OutOfRange
  | InvalidArgument
  | NotFound
  | EndOfFile
  | AlreadyOpen
  | SystemError int
  | GenericError int
  | GaiError int

section \<open>Segments of intrusive links\<close>

text \<open>
  \<open>seg nx p xs q\<close>: following \<open>nx\<close> from pointer \<open>p\<close> visits exactly the objects \<open>xs\<close> and arrives at
  \<open>q\<close>. A chain is a segment that ends with the null pointer.
\<close>

fun seg :: "links \<Rightarrow> ptr \<Rightarrow> addr list \<Rightarrow> ptr \<Rightarrow> bool" where
  "seg nx p [] q = (p = q)"
| "seg nx p (a # as) q = (p = Some a \<and> seg nx (nx a) as q)"

abbreviation chain :: "links \<Rightarrow> ptr \<Rightarrow> addr list \<Rightarrow> bool" where
  "chain nx p xs \<equiv> seg nx p xs None"

lemma seg_append [chain_simps]:
  "seg nx p (xs @ ys) q \<longleftrightarrow> (\<exists>r. seg nx p xs r \<and> seg nx r ys q)"
  by (induction xs arbitrary: p) auto

lemma seg_upd [simp]: "a \<notin> set xs \<Longrightarrow> seg (nx(a := r)) p xs q = seg nx p xs q"
  by (induction xs arbitrary: p) auto

lemma seg_cong: "(\<And>a. a \<in> set xs \<Longrightarrow> nx a = nx' a) \<Longrightarrow> seg nx p xs q = seg nx' p xs q"
  by (induction xs arbitrary: p) auto

lemma chain_None [simp]: "chain nx None xs \<longleftrightarrow> xs = []"
  by (cases xs) auto

lemma chain_Some: "chain nx (Some a) xs \<longleftrightarrow> (\<exists>as. xs = a # as \<and> chain nx (nx a) as)"
  by (cases xs) auto

lemma chain_Nil_iff: "chain nx p xs \<Longrightarrow> xs = [] \<longleftrightarrow> p = None"
  by (cases xs) auto

lemma chain_unique: "chain nx p xs \<Longrightarrow> chain nx p ys \<Longrightarrow> xs = ys"
proof (induction xs arbitrary: p ys)
  case Nil
  then show ?case by simp
next
  case (Cons a xs)
  then show ?case by (cases ys) auto
qed

lemma chain_notin_tail: "chain nx (nx a) as \<Longrightarrow> a \<notin> set as"
proof
  assume c: "chain nx (nx a) as" and "a \<in> set as"
  then obtain us vs where as: "as = us @ a # vs"
    by (auto simp: in_set_conv_decomp)
  with c have "chain nx (nx a) vs"
    by (auto simp: seg_append)
  then have "vs = as" using c by (rule chain_unique)
  with as show False by simp
qed

lemma chain_distinct: "chain nx p xs \<Longrightarrow> distinct xs"
proof (induction xs arbitrary: p)
  case Nil
  then show ?case by simp
next
  case (Cons a xs)
  then show ?case using chain_notin_tail by auto
qed

lemma chain_last_null: "chain nx p xs \<Longrightarrow> xs \<noteq> [] \<Longrightarrow> nx (last xs) = None"
  by (induction xs arbitrary: p) auto

text \<open>Re-aiming the last link of a chain appends what hangs behind the new target.\<close>

lemma chain_seg_last:
  "chain nx p xs \<Longrightarrow> xs \<noteq> [] \<Longrightarrow> seg (nx(last xs := q)) p xs q"
proof (induction xs arbitrary: p)
  case Nil
  then show ?case by simp
next
  case (Cons a xs)
  show ?case
  proof (cases "xs = []")
    case True
    with Cons.prems show ?thesis by simp
  next
    case False
    have "a \<notin> set xs" using Cons.prems by (auto dest: chain_notin_tail)
    then have "last xs \<noteq> a" using False by auto
    with Cons False show ?thesis by auto
  qed
qed

lemma chain_join:
  assumes "chain nx p xs" "chain nx q ys" "xs \<noteq> []" "set xs \<inter> set ys = {}"
  shows "chain (nx(last xs := q)) p (xs @ ys)"
proof -
  have "seg (nx(last xs := q)) p xs q"
    using assms by (intro chain_seg_last)
  moreover have "last xs \<notin> set ys"
    using assms by (meson disjoint_iff last_in_set)
  ultimately show ?thesis
    using assms by (auto simp: seg_append)
qed

section \<open>Reversal of a chain\<close>

text \<open>
  Several routines walk a chain and re-aim every link backwards. \<open>rev_links nx xs acc\<close> is the
  store after that walk over the objects \<open>xs\<close> with \<open>acc\<close> the pointer the first object receives.
\<close>

fun rev_links :: "links \<Rightarrow> addr list \<Rightarrow> ptr \<Rightarrow> links" where
  "rev_links nx [] acc = nx"
| "rev_links nx (a # as) acc = rev_links (nx(a := acc)) as (Some a)"

lemma rev_links_notin [simp]: "b \<notin> set xs \<Longrightarrow> rev_links nx xs acc b = nx b"
  by (induction xs arbitrary: nx acc) auto

lemma rev_links_seg_frame [simp]:
  "set xs \<inter> set ys = {} \<Longrightarrow> seg (rev_links nx xs acc) p ys q = seg nx p ys q"
  by (rule seg_cong) (auto simp: disjoint_iff intro!: rev_links_notin)

lemma rev_links_chain:
  "distinct (xs @ ys) \<Longrightarrow> chain nx acc ys \<Longrightarrow>
   chain (rev_links nx xs acc) (if xs = [] then acc else Some (last xs)) (rev xs @ ys)"
proof (induction xs arbitrary: nx acc ys)
  case Nil
  then show ?case by simp
next
  case (Cons a xs)
  have "chain (nx(a := acc)) (Some a) (a # ys)"
    using Cons.prems by simp
  moreover have "distinct (xs @ a # ys)"
    using Cons.prems by auto
  ultimately have "chain (rev_links (nx(a := acc)) xs (Some a))
      (if xs = [] then Some a else Some (last xs)) (rev xs @ a # ys)"
    by (intro Cons.IH)
  then show ?case by (cases "xs = []") (auto simp del: fun_upd_apply)
qed

section \<open>Arithmetic of sizes\<close>

text \<open>
  Sums and differences of \<^typ>\<open>size_t\<close> values read as natural numbers, under the bound that
  keeps them from wrapping.
\<close>

lemma unat_add_lt [size_arith]:
  "unat (a :: size_t) + unat b < 2 ^ 64 \<Longrightarrow> unat (a + b) = unat a + unat b"
  by (simp add: unat_word_ariths)

lemma unat_sub_le [size_arith]:
  "b \<le> (a :: size_t) \<Longrightarrow> unat (a - b) = unat a - unat b"
  by (simp add: unat_sub)

lemma size_t_bound: "unat (a :: size_t) < 2 ^ 64"
proof -
  have "unat a < 2 ^ LENGTH(64)" by (rule unsigned_less)
  then show ?thesis by simp
qed

lemma unat_of_nat_small [size_arith]: "n < 2 ^ 64 \<Longrightarrow> unat (of_nat n :: size_t) = n"
  by (simp add: unsigned_of_nat take_bit_nat_eq_self)

lemma unat_mod_small [size_arith]: "x < y \<Longrightarrow> (x :: nat) mod y = x"
  by simp

section \<open>Lists updated in the middle\<close>

text \<open>\<open>write_at i bs d\<close>: the block \<open>d\<close> after \<open>bs\<close> has been stored from index \<open>i\<close> on.\<close>

definition write_at :: "nat \<Rightarrow> 'a list \<Rightarrow> 'a list \<Rightarrow> 'a list" where
  "write_at i bs d = take i d @ bs @ drop (i + length bs) d"

lemma length_write_at [simp]: "i + length bs \<le> length d \<Longrightarrow> length (write_at i bs d) = length d"
  by (simp add: write_at_def)

lemma take_drop_write_at:
  "j \<le> i \<Longrightarrow> i + length bs \<le> length d \<Longrightarrow>
   take (i - j + length bs) (drop j (write_at i bs d)) = take (i - j) (drop j d) @ bs"
  by (simp add: write_at_def drop_take)

lemma take_write_at_prefix: "i \<le> length d \<Longrightarrow> take i (write_at i bs d) = take i d"
  by (simp add: write_at_def)

section \<open>Counting the elements of a list\<close>

text \<open>The number of elements with a property, and how an update at an index changes it.\<close>

definition among :: "('a \<Rightarrow> bool) \<Rightarrow> 'a list \<Rightarrow> nat" where
  "among P xs = length (filter P xs)"

lemma among_update:
  "i < length xs \<Longrightarrow> among P (xs[i := x]) + (if P (xs ! i) then 1 else 0) = among P xs + (if P x then 1 else 0)"
proof (induction xs arbitrary: i)
  case (Cons y ys)
  then show ?case by (cases i) (auto simp: among_def)
qed simp

lemma among_le: "among P xs \<le> length xs"
  by (simp add: among_def)

lemma among_all: "among P xs = length xs \<longleftrightarrow> (\<forall>x \<in> set xs. P x)"
  unfolding among_def by (metis filter_True length_filter_less less_irrefl)

lemma among_mono: "(\<And>x. P x \<Longrightarrow> Q x) \<Longrightarrow> among P xs \<le> among Q xs"
  by (induction xs) (auto simp: among_def)

lemma among_less: "i < length xs \<Longrightarrow> \<not> P (xs ! i) \<Longrightarrow> among P xs < length xs"
  using among_all [of P xs] among_le [of P xs] nth_mem [of i xs] by fastforce

lemma among_pos: "i < length xs \<Longrightarrow> P (xs ! i) \<Longrightarrow> 0 < among P xs"
  by (induction xs arbitrary: i) (auto simp: among_def nth_Cons split: nat.splits)

end
