(* ===== verification/Node_Queue.thy ===== *)
theory Node_Queue
  imports Prelude
begin

text \<open>
  The interface through which the event loop uses its queues of operation nodes: objects are pushed
  at the back and popped at the front, and a node that is pushed must have a null link
  (\<open>immediately_post\<close> asserts it). \<open>rep s xs\<close> says that state \<open>s\<close> holds exactly the nodes \<open>xs\<close>, front
  first; \<open>fresh s a\<close> that node \<open>a\<close> may be pushed. Two components implement it: the intrusive list
  that collects ready timers and the multi-producer operation queue.
\<close>

locale node_queue =
  fixes rep :: "'s \<Rightarrow> addr list \<Rightarrow> bool"
    and fresh :: "'s \<Rightarrow> addr \<Rightarrow> bool"
    and push :: "addr \<Rightarrow> 's \<Rightarrow> 's option"
    and pop :: "'s \<Rightarrow> (ptr \<times> 's) option"
  assumes rep_push: "rep s xs \<Longrightarrow> a \<notin> set xs \<Longrightarrow> fresh s a \<Longrightarrow>
      \<exists>s'. push a s = Some s' \<and> rep s' (xs @ [a]) \<and>
        (\<forall>b. b \<noteq> a \<longrightarrow> b \<notin> set xs \<longrightarrow> fresh s b \<longrightarrow> fresh s' b)"
    and rep_pop_Nil: "rep s [] \<Longrightarrow> \<exists>s'. pop s = Some (None, s') \<and> rep s' []"
    and rep_pop_Cons: "rep s (a # xs) \<Longrightarrow>
      \<exists>s'. pop s = Some (Some a, s') \<and> rep s' xs \<and> fresh s' a"

text \<open>
  Pushing a list of nodes one after the other, and popping until the queue is empty or \<open>n\<close> nodes
  have been taken.
\<close>

fun push_each :: "(addr \<Rightarrow> 's \<Rightarrow> 's option) \<Rightarrow> addr list \<Rightarrow> 's \<Rightarrow> 's option" where
  "push_each push [] s = Some s"
| "push_each push (a # as) s =
     (case push a s of None \<Rightarrow> None | Some s' \<Rightarrow> push_each push as s')"

fun pop_each :: "('s \<Rightarrow> (ptr \<times> 's) option) \<Rightarrow> nat \<Rightarrow> 's \<Rightarrow> (addr list \<times> 's) option" where
  "pop_each pop 0 s = Some ([], s)"
| "pop_each pop (Suc n) s =
     (case pop s of
        None \<Rightarrow> None
      | Some (None, s') \<Rightarrow> Some ([], s')
      | Some (Some a, s') \<Rightarrow>
          (case pop_each pop n s' of None \<Rightarrow> None | Some (as, t) \<Rightarrow> Some (a # as, t)))"

context node_queue
begin

lemma push_each_rep:
  "rep s xs \<Longrightarrow> distinct (xs @ as) \<Longrightarrow> (\<And>a. a \<in> set as \<Longrightarrow> fresh s a) \<Longrightarrow>
   \<exists>s'. push_each push as s = Some s' \<and> rep s' (xs @ as)"
proof (induction as arbitrary: s xs)
  case Nil
  then show ?case by simp
next
  case (Cons a as)
  have "a \<notin> set xs" using Cons.prems by auto
  then obtain s' where s': "push a s = Some s'" "rep s' (xs @ [a])"
    "\<And>b. b \<noteq> a \<Longrightarrow> b \<notin> set xs \<Longrightarrow> fresh s b \<Longrightarrow> fresh s' b"
    using rep_push [of s xs a] Cons.prems by auto
  have "fresh s' b" if "b \<in> set as" for b
    using that Cons.prems by (intro s'(3)) auto
  then show ?case
    using Cons.IH [of s' "xs @ [a]"] Cons.prems s' by auto
qed

lemma pop_each_rep:
  "rep s xs \<Longrightarrow> length xs < n \<Longrightarrow> \<exists>s'. pop_each pop n s = Some (xs, s') \<and> rep s' []"
proof (induction n arbitrary: s xs)
  case 0
  then show ?case by simp
next
  case (Suc n)
  show ?case
  proof (cases xs)
    case Nil
    then show ?thesis using rep_pop_Nil [of s] Suc.prems by auto
  next
    case (Cons a as)
    then obtain s' where s': "pop s = Some (Some a, s')" "rep s' as"
      using rep_pop_Cons [of s a as] Suc.prems by auto
    then show ?thesis using Suc.IH [of s' as] Suc.prems Cons by auto
  qed
qed

text \<open>First in, first out: what was pushed comes back in the same order, behind what was there.\<close>

lemma push_then_pop:
  assumes "rep s xs" "distinct (xs @ as)" "\<And>a. a \<in> set as \<Longrightarrow> fresh s a"
    and "length (xs @ as) < n"
  shows "\<exists>s' t. push_each push as s = Some s' \<and> pop_each pop n s' = Some (xs @ as, t) \<and> rep t []"
  using push_each_rep [OF assms(1-3)] pop_each_rep assms(4) by blast

end

end
