(* ===== verification/Intrusive_List.thy ===== *)
theory Intrusive_List
  imports Node_Queue
begin

text \<open>
  The intrusive singly linked list of \<open>include/coio/detail/intrusive_list.h\<close>: a head and a tail
  pointer, the links being a member of the objects themselves. The state of an operation is the
  store of links together with the two pointers, so an object that is reachable from elsewhere is
  changed for everyone.
\<close>

record intrusive_list =
  il_head :: ptr
  il_tail :: ptr

definition il_empty_list :: intrusive_list where
  "il_empty_list = \<lparr>il_head = None, il_tail = None\<rparr>"

definition il_empty :: "intrusive_list \<Rightarrow> bool" where
  "il_empty l \<longleftrightarrow> il_head l = None"

definition il_front :: "intrusive_list \<Rightarrow> ptr" where
  "il_front l = il_head l"

definition il_back :: "intrusive_list \<Rightarrow> ptr" where
  "il_back l = il_tail l"

definition il_push_back :: "addr \<Rightarrow> links \<times> intrusive_list \<Rightarrow> links \<times> intrusive_list" where
  "il_push_back obj = (\<lambda>(nx, l).
     let nx = nx(obj := None) in
     case il_tail l of
       Some t \<Rightarrow> (nx(t := Some obj), l\<lparr>il_tail := Some obj\<rparr>)
     | None \<Rightarrow> (nx, l\<lparr>il_head := Some obj, il_tail := Some obj\<rparr>))"

text \<open>
  \<open>append\<close> links a whole chain that starts at \<open>obj\<close> and walks to its end. The walk does not end
  on a cyclic chain, so it is a partial function: \<^term>\<open>None\<close> stands for not returning.
\<close>

partial_function (option) il_append_walk :: "links \<Rightarrow> addr \<Rightarrow> nat \<Rightarrow> (addr \<times> nat) option" where
  "il_append_walk nx t n =
     (case nx t of None \<Rightarrow> Some (t, n) | Some u \<Rightarrow> il_append_walk nx u (n + 1))"

definition il_append ::
  "addr \<Rightarrow> links \<times> intrusive_list \<Rightarrow> ((links \<times> intrusive_list) \<times> nat) option" where
  "il_append obj = (\<lambda>(nx, l).
     let (nx, l) = (case il_tail l of
         Some t \<Rightarrow> (nx(t := Some obj), l)
       | None \<Rightarrow> (nx, l\<lparr>il_head := Some obj\<rparr>))
     in case il_append_walk nx obj 1 of
          None \<Rightarrow> None
        | Some (t, n) \<Rightarrow> Some ((nx, l\<lparr>il_tail := Some t\<rparr>), n))"

definition il_pop_front :: "links \<times> intrusive_list \<Rightarrow> ptr \<times> (links \<times> intrusive_list)" where
  "il_pop_front = (\<lambda>(nx, l).
     case il_head l of
       None \<Rightarrow> (None, (nx, l))
     | Some obj \<Rightarrow>
         let l = l\<lparr>il_head := nx obj\<rparr>;
             l = (if il_head l = None then l\<lparr>il_tail := None\<rparr> else l)
         in (Some obj, (nx(obj := None), l)))"

definition il_release :: "intrusive_list \<Rightarrow> ptr \<times> intrusive_list" where
  "il_release l = (il_head l, l\<lparr>il_tail := None, il_head := None\<rparr>)"

definition il_clear :: "intrusive_list \<Rightarrow> intrusive_list" where
  "il_clear l = l\<lparr>il_head := None, il_tail := None\<rparr>"

section \<open>The list a state stands for\<close>

definition il_rep :: "links \<times> intrusive_list \<Rightarrow> addr list \<Rightarrow> bool" where
  "il_rep s xs \<longleftrightarrow> chain (fst s) (il_head (snd s)) xs \<and>
     il_tail (snd s) = (if xs = [] then None else Some (last xs))"

lemma il_rep_distinct: "il_rep s xs \<Longrightarrow> distinct xs"
  by (auto simp: il_rep_def dest: chain_distinct)

lemma il_rep_unique: "il_rep s xs \<Longrightarrow> il_rep s ys \<Longrightarrow> xs = ys"
  by (auto simp: il_rep_def dest: chain_unique)

lemma il_rep_empty: "il_rep (nx, il_empty_list) []"
  by (simp add: il_rep_def il_empty_list_def)

lemma il_rep_push_back:
  assumes "il_rep s xs" "a \<notin> set xs"
  shows "il_rep (il_push_back a s) (xs @ [a])"
proof (cases "xs = []")
  case True
  with assms show ?thesis
    by (cases s) (auto simp: il_rep_def il_push_back_def Let_def)
next
  case False
  obtain nx l where s: "s = (nx, l)" by (cases s)
  let ?nx = "nx(a := None)"
  have "chain ?nx (il_head l) xs" and tl: "il_tail l = Some (last xs)"
    using assms False by (auto simp: il_rep_def s)
  moreover have "chain ?nx (Some a) [a]" by simp
  ultimately have "chain (?nx(last xs := Some a)) (il_head l) (xs @ [a])"
    using assms(2) False by (intro chain_join) auto
  with tl show ?thesis
    by (simp add: il_rep_def il_push_back_def s Let_def)
qed

lemma il_rep_pop_front:
  assumes "il_rep s (a # xs)"
  shows "fst (il_pop_front s) = Some a" "il_rep (snd (il_pop_front s)) xs"
proof -
  obtain nx l where s: "s = (nx, l)" by (cases s)
  have hd: "il_head l = Some a" and ch: "chain nx (nx a) xs"
    and tl: "il_tail l = Some (last (a # xs))"
    using assms by (auto simp: il_rep_def s)
  have "a \<notin> set xs" using ch by (rule chain_notin_tail)
  then have "chain (nx(a := None)) (nx a) xs" using ch by simp
  with hd tl show "fst (il_pop_front s) = Some a" "il_rep (snd (il_pop_front s)) xs"
    using chain_Nil_iff [OF ch]
    by (auto simp: il_rep_def il_pop_front_def s Let_def)
qed

lemma il_rep_pop_front_empty:
  "il_rep s [] \<Longrightarrow> il_pop_front s = (None, s)"
  by (cases s) (auto simp: il_rep_def il_pop_front_def)

lemma il_append_walk_chain:
  "chain nx (Some a) (a # as) \<Longrightarrow>
   il_append_walk nx a n = Some (last (a # as), n + length as)"
proof (induction as arbitrary: a n)
  case Nil
  then show ?case by (simp add: il_append_walk.simps)
next
  case (Cons b as)
  then show ?case using Cons.IH [of b "n + 1"] by (simp add: il_append_walk.simps [of nx a])
qed

lemma il_rep_append:
  assumes rep: "il_rep (nx, l) xs" and ch: "chain nx (Some a) as" and disj: "set xs \<inter> set as = {}"
  shows "\<exists>s'. il_append a (nx, l) = Some (s', length as) \<and> il_rep s' (xs @ as)"
proof -
  obtain as' where as: "as = a # as'" using ch by (auto simp: chain_Some)
  let ?nx = "if xs = [] then nx else nx(last xs := Some a)"
  have "xs \<noteq> [] \<Longrightarrow> last xs \<notin> set as"
    using disj by (meson disjoint_iff last_in_set)
  then have ch': "chain ?nx (Some a) as"
    using ch by auto
  have walk: "il_append_walk ?nx a 1 = Some (last as, length as)"
    using il_append_walk_chain [of ?nx a as' 1] ch' by (simp add: as)
  show ?thesis
  proof (cases "xs = []")
    case True
    with rep walk ch' show ?thesis
      by (auto simp: il_rep_def il_append_def as)
  next
    case False
    have "chain ?nx (il_head l) (xs @ as)"
      using rep ch disj False chain_join [of nx "il_head l" xs "Some a" as] by (simp add: il_rep_def)
    with rep walk False show ?thesis
      by (auto simp: il_rep_def il_append_def as)
  qed
qed

section \<open>The list as a node queue\<close>

interpretation ilq: node_queue il_rep "\<lambda>s a. fst s a = None"
    "\<lambda>a s. Some (il_push_back a s)" "\<lambda>s. Some (il_pop_front s)"
proof
  fix s :: "links \<times> intrusive_list" and xs :: "addr list" and a :: addr
  assume a: "il_rep s xs" "a \<notin> set xs" "fst s a = None"
  then have "\<forall>b. b \<noteq> a \<longrightarrow> b \<notin> set xs \<longrightarrow> fst s b = None \<longrightarrow> fst (il_push_back a s) b = None"
    by (cases s) (auto simp: il_push_back_def il_rep_def Let_def split: option.splits if_splits)
  with il_rep_push_back [OF a(1,2)] show
    "\<exists>s'. Some (il_push_back a s) = Some s' \<and> il_rep s' (xs @ [a]) \<and>
        (\<forall>b. b \<noteq> a \<longrightarrow> b \<notin> set xs \<longrightarrow> fst s b = None \<longrightarrow> fst s' b = None)"
    by blast
next
  fix s :: "links \<times> intrusive_list"
  assume "il_rep s []"
  then show "\<exists>s'. Some (il_pop_front s) = Some (None, s') \<and> il_rep s' []"
    by (simp add: il_rep_pop_front_empty)
next
  fix s :: "links \<times> intrusive_list" and a :: addr and xs :: "addr list"
  assume "il_rep s (a # xs)"
  moreover from this have "fst (snd (il_pop_front s)) a = None"
    by (cases s) (auto simp: il_pop_front_def il_rep_def Let_def)
  ultimately show "\<exists>s'. Some (il_pop_front s) = Some (Some a, s') \<and> il_rep s' xs \<and> fst s' a = None"
    using il_rep_pop_front [of s a xs] by (metis prod.collapse)
qed

end
