(* ===== verification/Op_Queue.thy ===== *)
theory Op_Queue
  imports Intrusive_List
begin

text \<open>
  The intrusive multi-producer single-consumer queue \<open>op_queue\<close> of
  \<open>include/coio/detail/op_queue.h\<close>. Producers push segments of nodes onto the shared stack
  \<open>incoming_\<close> with a compare-and-swap loop; the consumer takes the whole stack with one exchange,
  reverses it and serves it from its private list \<open>front_\<close>. The first part models each operation
  run without interference, the second the interleaving of several producers with the consumer.
\<close>

record op_queue =
  oq_next :: links
  oq_incoming :: ptr
  oq_front :: ptr

text \<open>
  \<open>reverse\<close>: the \<open>while (true)\<close> loop that re-aims every link. It would not return on a cyclic chain,
  hence a partial function.
\<close>

partial_function (option) oq_reverse_loop :: "links \<Rightarrow> addr \<Rightarrow> ptr \<Rightarrow> (links \<times> addr) option" where
  "oq_reverse_loop nx node reversed =
     (case nx node of
        None \<Rightarrow> Some (nx(node := reversed), node)
      | Some n \<Rightarrow> oq_reverse_loop (nx(node := reversed)) n (Some node))"

definition oq_reverse :: "links \<Rightarrow> addr \<Rightarrow> (links \<times> addr) option" where
  "oq_reverse nx node = oq_reverse_loop nx node None"

text \<open>\<open>publish\<close> when no other thread changes \<open>incoming_\<close> between the load and the exchange.\<close>

definition oq_publish :: "addr \<Rightarrow> addr \<Rightarrow> op_queue \<Rightarrow> op_queue" where
  "oq_publish head tail q =
     q\<lparr>oq_next := (oq_next q)(tail := oq_incoming q), oq_incoming := Some head\<rparr>"

definition oq_enqueue :: "addr \<Rightarrow> op_queue \<Rightarrow> op_queue option" where
  "oq_enqueue op q =
     (case oq_reverse (oq_next q) op of
        None \<Rightarrow> None
      | Some (nx, head) \<Rightarrow> Some (oq_publish head op (q\<lparr>oq_next := nx\<rparr>)))"

fun oq_bulk_link :: "addr list \<Rightarrow> links \<Rightarrow> ptr \<Rightarrow> ptr \<Rightarrow> error + (links \<times> ptr \<times> ptr)" where
  "oq_bulk_link [] nx head tail = Inr (nx, head, tail)"
| "oq_bulk_link (op # ops) nx head tail =
     (if nx op \<noteq> None then Inl AssertFailed
      else oq_bulk_link ops (nx(op := head)) (Some op) (if tail = None then Some op else tail))"

definition oq_bulk_enqueue :: "addr list \<Rightarrow> op_queue \<Rightarrow> error + (bool \<times> op_queue)" where
  "oq_bulk_enqueue ops q =
     (case oq_bulk_link ops (oq_next q) None None of
        Inl e \<Rightarrow> Inl e
      | Inr (nx, None, tail) \<Rightarrow> Inr (False, q\<lparr>oq_next := nx\<rparr>)
      | Inr (nx, Some head, None) \<Rightarrow> Inl AssertFailed
      | Inr (nx, Some head, Some tail) \<Rightarrow> Inr (True, oq_publish head tail (q\<lparr>oq_next := nx\<rparr>)))"

definition oq_take_front :: "op_queue \<Rightarrow> ptr \<times> op_queue" where
  "oq_take_front q =
     (case oq_front q of
        None \<Rightarrow> (None, q)
      | Some op \<Rightarrow> (Some op, q\<lparr>oq_front := oq_next q op, oq_next := (oq_next q)(op := None)\<rparr>))"

definition oq_dequeue :: "op_queue \<Rightarrow> (ptr \<times> op_queue) option" where
  "oq_dequeue q =
     (case oq_front q of
        Some op \<Rightarrow> Some (oq_take_front q)
      | None \<Rightarrow>
          (case oq_incoming q of
             None \<Rightarrow> Some (None, q)
           | Some inc \<Rightarrow>
               (case oq_reverse (oq_next q) inc of
                  None \<Rightarrow> None
                | Some (nx, head) \<Rightarrow>
                    Some (oq_take_front
                      (q\<lparr>oq_next := nx, oq_incoming := None, oq_front := Some head\<rparr>)))))"

section \<open>The list of operations a queue stands for\<close>

definition oq_rep :: "op_queue \<Rightarrow> addr list \<Rightarrow> bool" where
  "oq_rep q xs \<longleftrightarrow> (\<exists>ys zs. chain (oq_next q) (oq_front q) ys \<and>
     chain (oq_next q) (oq_incoming q) zs \<and> distinct (ys @ zs) \<and> xs = ys @ rev zs)"

lemma oq_repI:
  "chain (oq_next q) (oq_front q) ys \<Longrightarrow> chain (oq_next q) (oq_incoming q) zs \<Longrightarrow>
   distinct (ys @ zs) \<Longrightarrow> oq_rep q (ys @ rev zs)"
  by (auto simp: oq_rep_def)

lemma oq_rep_distinct: "oq_rep q xs \<Longrightarrow> distinct xs"
  by (auto simp: oq_rep_def)

lemma oq_rep_unique: "oq_rep q xs \<Longrightarrow> oq_rep q ys \<Longrightarrow> xs = ys"
  unfolding oq_rep_def by (metis chain_unique)

lemma oq_rep_frame:
  assumes "oq_rep q xs" "\<And>a. a \<in> set xs \<Longrightarrow> nx a = oq_next q a"
  shows "oq_rep (q\<lparr>oq_next := nx\<rparr>) xs"
proof -
  obtain ys zs where r: "chain (oq_next q) (oq_front q) ys"
    "chain (oq_next q) (oq_incoming q) zs" "distinct (ys @ zs)" "xs = ys @ rev zs"
    using assms by (auto simp: oq_rep_def)
  have "chain nx (oq_front q) ys" "chain nx (oq_incoming q) zs"
    using r assms(2) by (metis Un_iff seg_cong set_append set_rev)+
  then show ?thesis
    using r oq_repI [of "q\<lparr>oq_next := nx\<rparr>" ys zs] by simp
qed

text \<open>The reversal loop is the reversal of the chain, and it returns.\<close>

lemma oq_reverse_loop_chain:
  "chain nx (Some a) (a # as) \<Longrightarrow>
   oq_reverse_loop nx a acc = Some (rev_links nx (a # as) acc, last (a # as))"
proof (induction as arbitrary: nx a acc)
  case Nil
  then show ?case by (simp add: oq_reverse_loop.simps fun_upd_def)
next
  case (Cons b as)
  have nb: "nx a = Some b" and "a \<notin> set (b # as)"
    using chain_distinct [OF Cons.prems] Cons.prems by auto
  then have "chain (nx(a := acc)) (Some b) (b # as)"
    using Cons.prems by auto
  from Cons.IH [OF this, of "Some a"] show ?case
    by (simp add: oq_reverse_loop.simps [of nx a] nb del: fun_upd_apply)
qed

lemma oq_reverse_chain:
  assumes "chain nx (Some a) xs"
  shows "oq_reverse nx a = Some (rev_links nx xs None, last xs)"
    and "chain (rev_links nx xs None) (Some (last xs)) (rev xs)"
proof -
  from assms obtain as where xs: "xs = a # as" by (auto simp: chain_Some)
  show "oq_reverse nx a = Some (rev_links nx xs None, last xs)"
    using oq_reverse_loop_chain [of nx a as None] assms by (simp add: oq_reverse_def xs)
  show "chain (rev_links nx xs None) (Some (last xs)) (rev xs)"
    using rev_links_chain [of xs "[]" nx None] chain_distinct [OF assms] by (auto simp: xs)
qed

lemma oq_publish_rep:
  assumes q: "oq_rep q xs" and ch: "chain (oq_next q) (Some head) as"
    and "as \<noteq> []" "last as = tail" "set as \<inter> set xs = {}"
  shows "oq_rep (oq_publish head tail q) (xs @ rev as)"
proof -
  obtain ys zs where r: "chain (oq_next q) (oq_front q) ys"
    "chain (oq_next q) (oq_incoming q) zs" "distinct (ys @ zs)" "xs = ys @ rev zs"
    using q by (auto simp: oq_rep_def)
  have "chain ((oq_next q)(tail := oq_incoming q)) (Some head) (as @ zs)"
    using chain_join [OF ch r(2)] assms r by auto
  moreover have "tail \<notin> set ys"
    using assms r by (metis Un_iff disjoint_iff last_in_set set_append)
  ultimately have "oq_rep (oq_publish head tail q) (ys @ rev (as @ zs))"
    using r assms chain_distinct [OF ch] by (intro oq_repI) (auto simp: oq_publish_def)
  then show ?thesis by (simp add: r(4))
qed

lemma oq_enqueue_rep:
  assumes "oq_rep q xs" "chain (oq_next q) (Some a) as" "set as \<inter> set xs = {}"
  shows "\<exists>q'. oq_enqueue a q = Some q' \<and> oq_rep q' (xs @ as)"
proof -
  let ?nx = "rev_links (oq_next q) as None"
  have "as \<noteq> []" and hd: "hd as = a" using assms(2) by (auto simp: chain_Some)
  have "oq_rep (q\<lparr>oq_next := ?nx\<rparr>) xs"
    using assms by (intro oq_rep_frame) (auto intro!: rev_links_notin)
  moreover have "chain ?nx (Some (last as)) (rev as)"
    by (rule oq_reverse_chain(2) [OF assms(2)])
  moreover have "last (rev as) = a" using hd \<open>as \<noteq> []\<close> by (simp add: last_rev)
  ultimately have "oq_rep (oq_publish (last as) a (q\<lparr>oq_next := ?nx\<rparr>)) (xs @ rev (rev as))"
    using \<open>as \<noteq> []\<close> assms(3) by (intro oq_publish_rep) auto
  then show ?thesis
    using oq_reverse_chain(1) [OF assms(2)] by (simp add: oq_enqueue_def)
qed

lemma oq_take_front_rep:
  assumes "chain (oq_next q) (oq_front q) (a # ys)" "chain (oq_next q) (oq_incoming q) zs"
    "distinct (a # ys @ zs)"
  shows "fst (oq_take_front q) = Some a" "oq_rep (snd (oq_take_front q)) (ys @ rev zs)"
    "oq_next (snd (oq_take_front q)) a = None"
  using assms by (auto simp: oq_take_front_def intro!: oq_repI)

lemma oq_dequeue_Nil: "oq_rep q [] \<Longrightarrow> oq_dequeue q = Some (None, q)"
  by (auto simp: oq_rep_def oq_dequeue_def)

lemma oq_dequeue_Cons:
  assumes "oq_rep q (a # xs)"
  shows "\<exists>q'. oq_dequeue q = Some (Some a, q') \<and> oq_rep q' xs \<and> oq_next q' a = None"
proof -
  obtain ys zs where r: "chain (oq_next q) (oq_front q) ys"
    "chain (oq_next q) (oq_incoming q) zs" "distinct (ys @ zs)" "a # xs = ys @ rev zs"
    using assms by (auto simp: oq_rep_def)
  show ?thesis
  proof (cases ys)
    case (Cons b us)
    then show ?thesis
      using oq_take_front_rep [of q b us zs] r by (auto simp: oq_dequeue_def prod_eq_iff)
  next
    case Nil
    then obtain i where i: "oq_incoming q = Some i" and f: "oq_front q = None"
      using r by (cases "oq_incoming q") auto
    let ?nx = "rev_links (oq_next q) zs None"
    let ?q = "q\<lparr>oq_next := ?nx, oq_incoming := None, oq_front := Some (last zs)\<rparr>"
    have "chain ?nx (Some (last zs)) (a # xs)"
      using oq_reverse_chain(2) [of "oq_next q" i zs] r Nil i by simp
    then have "fst (oq_take_front ?q) = Some a \<and> oq_rep (snd (oq_take_front ?q)) xs \<and>
        oq_next (snd (oq_take_front ?q)) a = None"
      using oq_take_front_rep [of ?q a xs "[]"] chain_distinct [of ?nx "Some (last zs)" "a # xs"]
      by simp
    then show ?thesis
      using oq_reverse_chain(1) [of "oq_next q" i zs] r(2) i f
      by (auto simp: oq_dequeue_def prod_eq_iff)
  qed
qed

lemma oq_bulk_link_ok:
  assumes "distinct ops" "\<And>a. a \<in> set ops \<Longrightarrow> nx a = None"
    and "chain nx head hs" "set ops \<inter> set hs = {}"
  shows "\<exists>nx' head' tail'. oq_bulk_link ops nx head tail = Inr (nx', head', tail') \<and>
    chain nx' head' (rev ops @ hs) \<and> (\<forall>b. b \<notin> set ops \<longrightarrow> nx' b = nx b) \<and>
    tail' = (if tail = None \<and> ops \<noteq> [] then Some (hd ops) else tail)"
  using assms
proof (induction ops arbitrary: nx head tail hs)
  case Nil
  then show ?case by simp
next
  case (Cons op ops)
  let ?nx = "nx(op := head)"
  have "chain ?nx (Some op) (op # hs)" using Cons.prems by simp
  moreover have "?nx a = None" if "a \<in> set ops" for a using Cons.prems that by auto
  moreover have "set ops \<inter> set (op # hs) = {}" using Cons.prems by auto
  ultimately show ?case
    using Cons.IH [of ?nx "Some op" "op # hs" "if tail = None then Some op else tail"] Cons.prems
    by (auto simp: fun_upd_def)
qed

lemma oq_bulk_enqueue_rep:
  assumes "oq_rep q xs" "distinct (xs @ ops)" "\<And>a. a \<in> set ops \<Longrightarrow> oq_next q a = None"
  shows "\<exists>q'. oq_bulk_enqueue ops q = Inr (ops \<noteq> [], q') \<and> oq_rep q' (xs @ ops)"
proof -
  obtain nx h t where l: "oq_bulk_link ops (oq_next q) None None = Inr (nx, h, t)"
    "chain nx h (rev ops)" "\<And>b. b \<notin> set ops \<Longrightarrow> nx b = oq_next q b"
    "t = (if ops \<noteq> [] then Some (hd ops) else None)"
    using oq_bulk_link_ok [of ops "oq_next q" None "[]" None] assms by auto
  have q': "oq_rep (q\<lparr>oq_next := nx\<rparr>) xs"
    using assms l(3) by (intro oq_rep_frame) auto
  show ?thesis
  proof (cases "ops = []")
    case True
    with l q' show ?thesis by (auto simp: oq_bulk_enqueue_def)
  next
    case False
    then obtain hd' where h: "h = Some hd'" using l(2) by (cases h) auto
    have "oq_rep (oq_publish hd' (hd ops) (q\<lparr>oq_next := nx\<rparr>)) (xs @ rev (rev ops))"
      using q' l(2) h False assms(2) by (intro oq_publish_rep) (auto simp: last_rev)
    with l h False show ?thesis by (auto simp: oq_bulk_enqueue_def)
  qed
qed

section \<open>The queue as a node queue\<close>

lemma oq_enqueue_one:
  assumes "oq_rep q xs" "a \<notin> set xs" "oq_next q a = None"
  shows "\<exists>q'. oq_enqueue a q = Some q' \<and> oq_rep q' (xs @ [a]) \<and>
    (\<forall>b. b \<noteq> a \<longrightarrow> b \<notin> set xs \<longrightarrow> oq_next q b = None \<longrightarrow> oq_next q' b = None)"
proof -
  have "chain (oq_next q) (Some a) [a]" using assms by simp
  then show ?thesis
    using oq_enqueue_rep [OF assms(1), of a "[a]"] oq_reverse_chain(1) [of "oq_next q" a "[a]"] assms
    by (auto simp: oq_enqueue_def oq_publish_def)
qed

interpretation opq: node_queue oq_rep "\<lambda>q a. oq_next q a = None" oq_enqueue oq_dequeue
  by unfold_locales (auto simp: oq_dequeue_Nil oq_dequeue_Cons oq_enqueue_one)

end
