(* ===== verification/Op_Queue_Mpsc.thy ===== *)
theory Op_Queue_Mpsc
  imports Op_Queue
begin

text \<open>
  The operation queue under interference: any number of producers, each at its own place in the
  compare-and-swap loop of \<open>publish\<close>, interleaved with the single consumer.

  The atomic actions are those of the code: the load of \<open>incoming_\<close>, the write of the tail's link, the
  compare-exchange (which may fail spuriously and then reloads \<open>incoming_\<close>) and, for the consumer, the
  exchange in \<open>dequeue\<close>; everything else \<open>dequeue\<close> does touches nodes that only the consumer can
  reach, so a whole \<^const>\<open>oq_dequeue\<close> is one step. Three ghost fields record the segment a producer is
  publishing, the nodes in the order of the successful exchanges, and the nodes in the order in which
  the consumer took them.
\<close>

datatype pub_pc =
    PIdle
  | PLoad addr addr
  | PLink addr addr ptr
  | PCas addr addr ptr

record mpsc =
  ms_q :: op_queue
  ms_pc :: "nat \<Rightarrow> pub_pc"
  ms_priv :: "nat \<Rightarrow> addr list"
  ms_pushed :: "addr list"
  ms_taken :: "addr list"

definition ms_content :: "mpsc \<Rightarrow> addr list" where
  "ms_content s = drop (length (ms_taken s)) (ms_pushed s)"

definition ms_init :: "links \<Rightarrow> mpsc" where
  "ms_init nx = \<lparr>ms_q = \<lparr>oq_next = nx, oq_incoming = None, oq_front = None\<rparr>,
     ms_pc = (\<lambda>_. PIdle), ms_priv = (\<lambda>_. []), ms_pushed = [], ms_taken = []\<rparr>"

definition ms_set_next :: "addr \<Rightarrow> ptr \<Rightarrow> op_queue \<Rightarrow> op_queue" where
  "ms_set_next a p q = q\<lparr>oq_next := (oq_next q)(a := p)\<rparr>"

text \<open>
  \<open>begin\<close> is the entry of \<open>publish\<close> with a segment from \<open>head\<close> to \<open>tail\<close> that \<open>enqueue\<close> or \<open>bulk_enqueue\<close>
  built from nodes that are neither queued nor being published.
\<close>

inductive mpsc_step :: "mpsc \<Rightarrow> mpsc \<Rightarrow> bool" where
  pub_begin: "ms_pc s i = PIdle \<Longrightarrow> chain (oq_next (ms_q s)) (Some h) zs \<Longrightarrow> last zs = t \<Longrightarrow>
    set zs \<inter> set (ms_content s) = {} \<Longrightarrow> (\<And>j. set zs \<inter> set (ms_priv s j) = {}) \<Longrightarrow>
    mpsc_step s (s\<lparr>ms_pc := (ms_pc s)(i := PLoad h t), ms_priv := (ms_priv s)(i := zs)\<rparr>)"
| pub_load: "ms_pc s i = PLoad h t \<Longrightarrow>
    mpsc_step s (s\<lparr>ms_pc := (ms_pc s)(i := PLink h t (oq_incoming (ms_q s)))\<rparr>)"
| pub_link: "ms_pc s i = PLink h t old \<Longrightarrow>
    mpsc_step s (s\<lparr>ms_q := ms_set_next t old (ms_q s), ms_pc := (ms_pc s)(i := PCas h t old)\<rparr>)"
| pub_cas: "ms_pc s i = PCas h t old \<Longrightarrow> oq_incoming (ms_q s) = old \<Longrightarrow>
    mpsc_step s (s\<lparr>ms_q := (ms_q s)\<lparr>oq_incoming := Some h\<rparr>, ms_pc := (ms_pc s)(i := PIdle),
      ms_pushed := ms_pushed s @ rev (ms_priv s i), ms_priv := (ms_priv s)(i := [])\<rparr>)"
| pub_cas_fail: "ms_pc s i = PCas h t old \<Longrightarrow>
    mpsc_step s (s\<lparr>ms_pc := (ms_pc s)(i := PLink h t (oq_incoming (ms_q s)))\<rparr>)"
| consume: "oq_dequeue (ms_q s) = Some (Some op, q) \<Longrightarrow>
    mpsc_step s (s\<lparr>ms_q := q, ms_taken := ms_taken s @ [op]\<rparr>)"
| consume_none: "oq_dequeue (ms_q s) = Some (None, q) \<Longrightarrow> mpsc_step s (s\<lparr>ms_q := q\<rparr>)"

inductive mpsc_reachable :: "mpsc \<Rightarrow> bool" where
  init: "mpsc_reachable (ms_init nx)"
| step: "mpsc_reachable s \<Longrightarrow> mpsc_step s t \<Longrightarrow> mpsc_reachable t"

section \<open>The invariant\<close>

definition seg_ok :: "links \<Rightarrow> addr list \<Rightarrow> addr \<Rightarrow> addr \<Rightarrow> bool" where
  "seg_ok nx zs h t \<longleftrightarrow> zs \<noteq> [] \<and> hd zs = h \<and> last zs = t \<and> distinct zs \<and>
     seg nx (Some h) (butlast zs) (Some t)"

fun pub_ok :: "links \<Rightarrow> addr list \<Rightarrow> pub_pc \<Rightarrow> bool" where
  "pub_ok nx zs PIdle \<longleftrightarrow> zs = []"
| "pub_ok nx zs (PLoad h t) \<longleftrightarrow> seg_ok nx zs h t"
| "pub_ok nx zs (PLink h t old) \<longleftrightarrow> seg_ok nx zs h t"
| "pub_ok nx zs (PCas h t old) \<longleftrightarrow> seg_ok nx zs h t \<and> nx t = old"

definition mpsc_inv :: "mpsc \<Rightarrow> bool" where
  "mpsc_inv s \<longleftrightarrow>
     ms_pushed s = ms_taken s @ ms_content s \<and> oq_rep (ms_q s) (ms_content s) \<and>
     (\<forall>i. pub_ok (oq_next (ms_q s)) (ms_priv s i) (ms_pc s i)) \<and>
     (\<forall>i. set (ms_priv s i) \<inter> set (ms_content s) = {}) \<and>
     (\<forall>i j. i \<noteq> j \<longrightarrow> set (ms_priv s i) \<inter> set (ms_priv s j) = {})"

lemma mpsc_invD:
  assumes "mpsc_inv s"
  shows "ms_pushed s = ms_taken s @ ms_content s" "oq_rep (ms_q s) (ms_content s)"
    "pub_ok (oq_next (ms_q s)) (ms_priv s i) (ms_pc s i)"
    "a \<in> set (ms_priv s i) \<Longrightarrow> a \<notin> set (ms_content s)"
    "a \<in> set (ms_priv s i) \<Longrightarrow> i \<noteq> j \<Longrightarrow> a \<notin> set (ms_priv s j)"
  using assms unfolding mpsc_inv_def by blast+

lemma mpsc_invI:
  assumes "ms_pushed s = ms_taken s @ xs" "oq_rep (ms_q s) xs"
    and "\<And>i. pub_ok (oq_next (ms_q s)) (ms_priv s i) (ms_pc s i)"
    and "\<And>i. set (ms_priv s i) \<inter> set xs = {}"
    and "\<And>i j. i \<noteq> j \<Longrightarrow> set (ms_priv s i) \<inter> set (ms_priv s j) = {}"
  shows "mpsc_inv s"
  using assms by (simp add: mpsc_inv_def ms_content_def)

lemma chain_seg_ok: "chain nx (Some h) zs \<Longrightarrow> seg_ok nx zs h (last zs)"
proof -
  assume c: "chain nx (Some h) zs"
  then have "zs \<noteq> []" "hd zs = h" by (auto simp: chain_Some)
  moreover have "seg nx (Some h) (butlast zs) (Some (last zs))"
    using c \<open>zs \<noteq> []\<close> seg_append [of nx "Some h" "butlast zs" "[last zs]" None] by auto
  ultimately show ?thesis using chain_distinct [OF c] by (simp add: seg_ok_def)
qed

lemma seg_ok_cong: "(\<And>a. a \<in> set (butlast zs) \<Longrightarrow> nx a = nx' a) \<Longrightarrow> seg_ok nx zs h t = seg_ok nx' zs h t"
  using seg_cong [of "butlast zs" nx nx' "Some h" "Some t"] by (auto simp: seg_ok_def)

lemma seg_ok_tail: "seg_ok nx zs h t \<Longrightarrow> t \<in> set zs \<and> t \<notin> set (butlast zs)"
proof -
  assume a: "seg_ok nx zs h t"
  then have "zs = butlast zs @ [t]" "distinct zs" by (auto simp: seg_ok_def)
  then show ?thesis by (metis distinct_append disjoint_iff in_set_conv_decomp list.set_intros(1) not_distinct_conv_prefix)
qed

lemma seg_ok_full: "seg_ok nx zs h t \<Longrightarrow> seg nx (Some h) zs (nx t)"
proof -
  assume a: "seg_ok nx zs h t"
  then have "zs = butlast zs @ [t]" by (auto simp: seg_ok_def)
  moreover have "seg nx (Some h) (butlast zs @ [t]) (nx t)"
    using a by (auto simp: seg_ok_def seg_append)
  ultimately show ?thesis by simp
qed

lemma pub_ok_cong:
  assumes "\<And>a. a \<in> set zs \<Longrightarrow> nx a = nx' a"
  shows "pub_ok nx zs pc = pub_ok nx' zs pc"
proof -
  have "seg_ok nx zs h t = seg_ok nx' zs h t" for h t
    using assms by (intro seg_ok_cong) (auto dest: in_set_butlastD)
  moreover have "seg_ok nx' zs h t \<Longrightarrow> nx t = nx' t" for h t
    using assms by (auto dest: seg_ok_tail)
  ultimately show ?thesis by (cases pc) auto
qed

text \<open>Dequeuing changes no link of a node that is not queued.\<close>

lemma oq_dequeue_frame:
  assumes "oq_rep q xs" "oq_dequeue q = Some (r, q')" "b \<notin> set xs"
  shows "oq_next q' b = oq_next q b"
proof -
  obtain ys zs where rep: "chain (oq_next q) (oq_front q) ys"
    "chain (oq_next q) (oq_incoming q) zs" "distinct (ys @ zs)" "xs = ys @ rev zs"
    using assms by (auto simp: oq_rep_def)
  show ?thesis
  proof (cases ys)
    case (Cons a us)
    then show ?thesis using rep assms by (auto simp: oq_dequeue_def oq_take_front_def)
  next
    case Nil
    then have f: "oq_front q = None" using rep by simp
    show ?thesis
    proof (cases "oq_incoming q")
      case None
      then show ?thesis using assms f by (auto simp: oq_dequeue_def)
    next
      case (Some i)
      then have "oq_reverse (oq_next q) i = Some (rev_links (oq_next q) zs None, last zs)"
        using rep by (intro oq_reverse_chain) simp
      moreover have "last zs \<in> set zs" using rep(2) Some by (cases zs) auto
      ultimately show ?thesis
        using assms f Some rep Nil by (auto simp: oq_dequeue_def oq_take_front_def)
    qed
  qed
qed

section \<open>Every step keeps the invariant\<close>

lemma mpsc_inv_init: "mpsc_inv (ms_init nx)"
  by (auto simp: mpsc_inv_def ms_init_def ms_content_def intro!: oq_repI [of _ "[]" "[]", simplified])

lemma mpsc_pc_inv:
  assumes "mpsc_inv s" "pub_ok (oq_next (ms_q s)) (ms_priv s i) pc"
  shows "mpsc_inv (s\<lparr>ms_pc := (ms_pc s)(i := pc)\<rparr>)"
  using assms by (simp add: mpsc_inv_def ms_content_def)

lemma mpsc_begin_inv:
  assumes inv: "mpsc_inv s" and "chain (oq_next (ms_q s)) (Some h) zs"
    and "set zs \<inter> set (ms_content s) = {}" "\<And>j. set zs \<inter> set (ms_priv s j) = {}"
  shows "mpsc_inv (s\<lparr>ms_pc := (ms_pc s)(i := PLoad h (last zs)), ms_priv := (ms_priv s)(i := zs)\<rparr>)"
  using assms chain_seg_ok [OF assms(2)] by (auto simp: mpsc_inv_def ms_content_def)

lemma mpsc_link_inv:
  assumes inv: "mpsc_inv s" and pc: "ms_pc s i = PLink h t old"
  shows "mpsc_inv (s\<lparr>ms_q := ms_set_next t old (ms_q s), ms_pc := (ms_pc s)(i := PCas h t old)\<rparr>)"
proof -
  let ?nx = "oq_next (ms_q s)"
  have ok: "seg_ok ?nx (ms_priv s i) h t" using inv pc by (metis mpsc_inv_def pub_ok.simps(3))
  have t: "t \<in> set (ms_priv s i)" "t \<notin> set (butlast (ms_priv s i))" using seg_ok_tail [OF ok] by auto
  then have tc: "t \<notin> set (ms_content s)" and tp: "\<And>j. j \<noteq> i \<Longrightarrow> t \<notin> set (ms_priv s j)"
    using mpsc_invD(4,5) [OF inv] by blast+
  have "seg_ok (?nx(t := old)) (ms_priv s i) h t"
    using ok t(2) by (subst seg_ok_cong [where nx' = ?nx]) auto
  moreover have "pub_ok (?nx(t := old)) (ms_priv s j) (ms_pc s j)" if "j \<noteq> i" for j
    using mpsc_invD(3) [OF inv, of j] tp [OF that] by (subst pub_ok_cong [where nx' = ?nx]) auto
  moreover have "oq_rep (ms_set_next t old (ms_q s)) (ms_content s)"
    unfolding ms_set_next_def using inv tc by (intro oq_rep_frame) (auto simp: mpsc_inv_def)
  ultimately show ?thesis
    using inv by (auto simp: mpsc_inv_def ms_content_def ms_set_next_def)
qed

lemma mpsc_cas_inv:
  assumes inv: "mpsc_inv s" and pc: "ms_pc s i = PCas h t (oq_incoming (ms_q s))"
  shows "mpsc_inv (s\<lparr>ms_q := (ms_q s)\<lparr>oq_incoming := Some h\<rparr>, ms_pc := (ms_pc s)(i := PIdle),
      ms_pushed := ms_pushed s @ rev (ms_priv s i), ms_priv := (ms_priv s)(i := [])\<rparr>)"
proof -
  let ?q = "ms_q s" and ?zs = "ms_priv s i" and ?rest = "ms_content s"
  have ok: "seg_ok (oq_next ?q) ?zs h t" "oq_next ?q t = oq_incoming ?q"
    using inv pc by (metis mpsc_inv_def pub_ok.simps(4))+
  obtain ys zs where r: "chain (oq_next ?q) (oq_front ?q) ys" "chain (oq_next ?q) (oq_incoming ?q) zs"
    "distinct (ys @ zs)" "?rest = ys @ rev zs"
    using inv by (auto simp: mpsc_inv_def oq_rep_def)
  have zs: "\<And>a. a \<in> set ?zs \<Longrightarrow> a \<notin> set ys \<and> a \<notin> set zs"
    using mpsc_invD(4) [OF inv] r(4) by auto
  have "chain (oq_next ?q) (Some h) (?zs @ zs)"
    using seg_ok_full [OF ok(1)] ok(2) r(2) seg_append by auto
  moreover have "distinct (ys @ ?zs @ zs)"
    using zs ok(1) r(3) by (auto simp: seg_ok_def)
  ultimately have "oq_rep (?q\<lparr>oq_incoming := Some h\<rparr>) (ys @ rev (?zs @ zs))"
    using r(1) by (intro oq_repI) simp_all
  then have rep: "oq_rep (?q\<lparr>oq_incoming := Some h\<rparr>) (?rest @ rev ?zs)"
    by (simp add: r(4))
  show ?thesis
  proof (rule mpsc_invI [where xs = "?rest @ rev ?zs"])
    fix j k :: nat
    assume "j \<noteq> k"
    then show "set (ms_priv (s\<lparr>ms_q := ?q\<lparr>oq_incoming := Some h\<rparr>, ms_pc := (ms_pc s)(i := PIdle),
        ms_pushed := ms_pushed s @ rev ?zs, ms_priv := (ms_priv s)(i := [])\<rparr>) j) \<inter>
      set (ms_priv (s\<lparr>ms_q := ?q\<lparr>oq_incoming := Some h\<rparr>, ms_pc := (ms_pc s)(i := PIdle),
        ms_pushed := ms_pushed s @ rev ?zs, ms_priv := (ms_priv s)(i := [])\<rparr>) k) = {}"
      using mpsc_invD(5) [OF inv] by auto
  qed (use rep mpsc_invD [OF inv] in auto)
qed

lemma mpsc_consume_inv:
  assumes inv: "mpsc_inv s" and deq: "oq_dequeue (ms_q s) = Some (Some op, q)"
  shows "mpsc_inv (s\<lparr>ms_q := q, ms_taken := ms_taken s @ [op]\<rparr>)"
proof -
  let ?rest = "ms_content s"
  have rep: "oq_rep (ms_q s) ?rest" using inv by (simp add: mpsc_inv_def)
  then obtain xs where xs: "?rest = op # xs" "oq_rep q xs"
    using deq oq_dequeue_Nil oq_dequeue_Cons by (cases ?rest) fastforce+
  have "pub_ok (oq_next q) (ms_priv s j) (ms_pc s j)" for j
  proof -
    have "oq_next (ms_q s) a = oq_next q a" if "a \<in> set (ms_priv s j)" for a
      using mpsc_invD(4) [OF inv that] oq_dequeue_frame [OF rep deq] by simp
    then show ?thesis
      using inv pub_ok_cong [of "ms_priv s j" "oq_next (ms_q s)" "oq_next q" "ms_pc s j"]
      by (auto simp: mpsc_inv_def)
  qed
  moreover have "drop (Suc (length (ms_taken s))) (ms_pushed s) = xs"
    using inv xs(1) by (auto simp: mpsc_inv_def)
  ultimately show ?thesis
    using inv xs by (auto simp: mpsc_inv_def ms_content_def)
qed

lemma mpsc_consume_none_inv:
  assumes "mpsc_inv s" "oq_dequeue (ms_q s) = Some (None, q)"
  shows "mpsc_inv (s\<lparr>ms_q := q\<rparr>)"
proof -
  have rep: "oq_rep (ms_q s) (ms_content s)" using assms by (simp add: mpsc_inv_def)
  then have "ms_content s = []"
    using assms(2) oq_dequeue_Cons by (cases "ms_content s") fastforce+
  then have "q = ms_q s" using rep assms(2) oq_dequeue_Nil by fastforce
  then show ?thesis using assms(1) by simp
qed

lemma mpsc_step_inv: "mpsc_step s t \<Longrightarrow> mpsc_inv s \<Longrightarrow> mpsc_inv t"
proof (induction rule: mpsc_step.induct)
  case (pub_load s i h t)
  then show ?case by (intro mpsc_pc_inv) (auto simp: mpsc_inv_def dest: spec [of _ i])
next
  case (pub_cas_fail s i h t old)
  then show ?case by (intro mpsc_pc_inv) (auto simp: mpsc_inv_def dest: spec [of _ i])
qed (auto intro: mpsc_begin_inv mpsc_link_inv mpsc_cas_inv mpsc_consume_inv mpsc_consume_none_inv)

lemma mpsc_reachable_inv: "mpsc_reachable s \<Longrightarrow> mpsc_inv s"
  by (induction rule: mpsc_reachable.induct) (auto intro: mpsc_inv_init mpsc_step_inv)

section \<open>Properties\<close>

text \<open>C1. In every interleaving of producers and consumer, the nodes taken so far are a prefix, in
  order, of the nodes in the order of the successful compare-and-swaps, and the rest is exactly what
  the queue still holds: nothing is lost, duplicated or reordered, whatever CAS attempts fail.\<close>

theorem mpsc_linearizable:
  assumes "mpsc_reachable s"
  shows "\<exists>rest. ms_pushed s = ms_taken s @ rest \<and> oq_rep (ms_q s) rest"
  using mpsc_invD(1,2) [OF mpsc_reachable_inv [OF assms]] by blast

definition mpsc_example :: mpsc where
  "mpsc_example = \<lparr>ms_q = \<lparr>oq_next = (\<lambda>_. None)(5 := None), oq_incoming = Some 5, oq_front = None\<rparr>,
     ms_pc = (\<lambda>_. PIdle)(0 := PIdle), ms_priv = (\<lambda>_. [])(0 := []), ms_pushed = [5], ms_taken = []\<rparr>"

lemma mpsc_example_reachable: "mpsc_reachable mpsc_example"
proof -
  let ?s0 = "ms_init (\<lambda>_. None)"
  let ?s1 = "?s0\<lparr>ms_pc := (ms_pc ?s0)(0 := PLoad 5 5), ms_priv := (ms_priv ?s0)(0 := [5])\<rparr>"
  let ?s2 = "?s1\<lparr>ms_pc := (ms_pc ?s1)(0 := PLink 5 5 None)\<rparr>"
  let ?s3 = "?s2\<lparr>ms_q := ms_set_next 5 None (ms_q ?s2), ms_pc := (ms_pc ?s2)(0 := PCas 5 5 None)\<rparr>"
  have "mpsc_reachable ?s1"
    by (rule mpsc_reachable.step [OF mpsc_reachable.init], rule mpsc_step.pub_begin)
      (auto simp: ms_init_def ms_content_def)
  moreover have "mpsc_step ?s1 ?s2"
    using mpsc_step.pub_load [of ?s1 0 5 5] by (simp add: ms_init_def)
  moreover have "mpsc_step ?s2 ?s3"
    by (rule mpsc_step.pub_link) simp
  moreover have "mpsc_step ?s3 mpsc_example"
    using mpsc_step.pub_cas [of ?s3 0 5 5 None]
    by (simp add: ms_init_def mpsc_example_def ms_set_next_def)
  ultimately show ?thesis by (blast intro: mpsc_reachable.step)
qed

theorem mpsc_linearizable_witness:
  "ms_pushed mpsc_example = [5] \<and>
   (\<exists>rest. ms_pushed mpsc_example = ms_taken mpsc_example @ rest \<and> oq_rep (ms_q mpsc_example) rest)"
  using mpsc_linearizable [OF mpsc_example_reachable] by (simp add: mpsc_example_def)

text \<open>Enqueuing nodes one by one and then dequeuing returns first what the queue already held and
  then the new nodes in the order in which they were enqueued; every call returns.\<close>

lemma op_queue_fifo:
  assumes "oq_rep q xs" "distinct (xs @ as)" "\<And>a. a \<in> set as \<Longrightarrow> oq_next q a = None"
    and "length (xs @ as) < n"
  shows "\<exists>q' t. push_each oq_enqueue as q = Some q' \<and>
    pop_each oq_dequeue n q' = Some (xs @ as, t) \<and> oq_rep t []"
  by (rule opq.push_then_pop [OF assms])

end
