(* ===== verification/Timer_Heap.thy ===== *)
theory Timer_Heap
  imports Prelude
begin

text \<open>
  The mathematical content of the timer queue: pairing heaps as trees whose nodes are operation
  addresses, ordered by a deadline function. These are the specifications that the pointer code of
  \<open>timer_queue\<close> refines; nothing here is code.
\<close>

datatype ph = Hp addr "ph list"

fun ph_nodes :: "ph \<Rightarrow> addr list" where
  "ph_nodes (Hp a cs) = a # concat (map ph_nodes cs)"

definition phs_nodes :: "ph list \<Rightarrow> addr list" where
  "phs_nodes ts = concat (map ph_nodes ts)"

fun ph_root :: "ph \<Rightarrow> addr" where
  "ph_root (Hp a cs) = a"

lemma phs_nodes_simps [simp]:
  "phs_nodes [] = []" "phs_nodes (t # ts) = ph_nodes t @ phs_nodes ts"
  "phs_nodes (ts @ us) = phs_nodes ts @ phs_nodes us"
  by (simp_all add: phs_nodes_def)

lemma ph_nodes_Hp [simp]: "ph_nodes (Hp a cs) = a # phs_nodes cs"
  by (simp add: phs_nodes_def)

lemma ph_root_in: "ph_root t \<in> set (ph_nodes t)"
  by (cases t) auto

declare ph_nodes.simps [simp del]

text \<open>A tree is heap ordered when no node is due before the root of its subtree.\<close>

fun ph_ord :: "(addr \<Rightarrow> int) \<Rightarrow> ph \<Rightarrow> bool" where
  "ph_ord dl (Hp a cs) \<longleftrightarrow>
     (\<forall>x \<in> set (phs_nodes cs). dl a \<le> dl x) \<and> (\<forall>t \<in> set cs. ph_ord dl t)"

lemma ph_ord_root: "ph_ord dl t \<Longrightarrow> x \<in> set (ph_nodes t) \<Longrightarrow> dl (ph_root t) \<le> dl x"
  by (cases t) auto

lemma phs_nodes_in: "t \<in> set ts \<Longrightarrow> x \<in> set (ph_nodes t) \<Longrightarrow> x \<in> set (phs_nodes ts)"
  by (auto simp: phs_nodes_def)

section \<open>Melding and the two-pass merge\<close>

fun ph_meld :: "(addr \<Rightarrow> int) \<Rightarrow> ph \<Rightarrow> ph \<Rightarrow> ph" where
  "ph_meld dl (Hp a as) (Hp b bs) =
     (if dl b < dl a then Hp b (Hp a as # bs) else Hp a (Hp b bs # as))"

fun ph_pairs :: "(addr \<Rightarrow> int) \<Rightarrow> ph list \<Rightarrow> ph list \<Rightarrow> ph list" where
  "ph_pairs dl [] acc = acc"
| "ph_pairs dl [t] acc = t # acc"
| "ph_pairs dl (t # u # ts) acc = ph_pairs dl ts (ph_meld dl t u # acc)"

fun ph_fold :: "(addr \<Rightarrow> int) \<Rightarrow> ph \<Rightarrow> ph list \<Rightarrow> ph" where
  "ph_fold dl r [] = r"
| "ph_fold dl r (m # ms) = ph_fold dl (ph_meld dl r m) ms"

definition ph_merge :: "(addr \<Rightarrow> int) \<Rightarrow> ph list \<Rightarrow> ph option" where
  "ph_merge dl ts = (case ph_pairs dl ts [] of [] \<Rightarrow> None | r # ms \<Rightarrow> Some (ph_fold dl r ms))"

lemma mset_ph_meld: "mset (ph_nodes (ph_meld dl t u)) = mset (ph_nodes t) + mset (ph_nodes u)"
  by (cases t; cases u) auto

lemma set_ph_meld: "set (ph_nodes (ph_meld dl t u)) = set (ph_nodes t) \<union> set (ph_nodes u)"
  using mset_ph_meld [of dl t u] by (metis set_mset_mset set_mset_union)

lemma ord_ph_meld:
  "ph_ord dl t \<Longrightarrow> ph_ord dl u \<Longrightarrow> ph_ord dl (ph_meld dl t u)"
proof (cases t; cases u)
  fix a as b bs
  assume "ph_ord dl t" "ph_ord dl u" and tu: "t = Hp a as" "u = Hp b bs"
  then have "\<forall>x \<in> set (phs_nodes as). dl a \<le> dl x" "\<forall>x \<in> set (phs_nodes bs). dl b \<le> dl x"
    "\<forall>t \<in> set as. ph_ord dl t" "\<forall>t \<in> set bs. ph_ord dl t"
    by simp_all
  then show "ph_ord dl (ph_meld dl t u)"
    unfolding tu by (cases "dl b < dl a") (auto dest: bspec)
qed

lemma root_ph_meld:
  "ph_root (ph_meld dl t u) = (if dl (ph_root u) < dl (ph_root t) then ph_root u else ph_root t)"
  by (cases t; cases u) auto

lemma mset_ph_pairs:
  "mset (phs_nodes (ph_pairs dl ts acc)) = mset (phs_nodes ts) + mset (phs_nodes acc)"
  by (induction dl ts acc rule: ph_pairs.induct) (auto simp: mset_ph_meld)

lemma ord_ph_pairs:
  "\<forall>t \<in> set ts \<union> set acc. ph_ord dl t \<Longrightarrow> t \<in> set (ph_pairs dl ts acc) \<Longrightarrow> ph_ord dl t"
  by (induction dl ts acc rule: ph_pairs.induct) (auto simp: ord_ph_meld)

lemma ph_pairs_nonempty: "ts \<noteq> [] \<or> acc \<noteq> [] \<Longrightarrow> ph_pairs dl ts acc \<noteq> []"
  by (induction dl ts acc rule: ph_pairs.induct) auto

lemma mset_ph_fold: "mset (ph_nodes (ph_fold dl r ms)) = mset (ph_nodes r) + mset (phs_nodes ms)"
  by (induction dl r ms rule: ph_fold.induct) (auto simp: mset_ph_meld)

lemma ord_ph_fold:
  "ph_ord dl r \<Longrightarrow> \<forall>m \<in> set ms. ph_ord dl m \<Longrightarrow> ph_ord dl (ph_fold dl r ms)"
  by (induction dl r ms rule: ph_fold.induct) (auto simp: ord_ph_meld)

lemma ph_merge_None: "ph_merge dl ts = None \<longleftrightarrow> ts = []"
  using ph_pairs_nonempty [of ts "[]" dl] by (auto simp: ph_merge_def split: list.splits)

lemma ph_merge_Some:
  assumes "ph_merge dl ts = Some t"
  shows "mset (ph_nodes t) = mset (phs_nodes ts)"
    and "(\<forall>u \<in> set ts. ph_ord dl u) \<Longrightarrow> ph_ord dl t"
proof -
  obtain r ms where p: "ph_pairs dl ts [] = r # ms" "t = ph_fold dl r ms"
    using assms by (auto simp: ph_merge_def split: list.splits)
  show "mset (ph_nodes t) = mset (phs_nodes ts)"
    using mset_ph_pairs [of dl ts "[]"] by (simp add: p mset_ph_fold)
  assume "\<forall>u \<in> set ts. ph_ord dl u"
  then have "\<forall>u \<in> set (r # ms). ph_ord dl u"
    using ord_ph_pairs [of ts "[]" dl] p(1) by auto
  then show "ph_ord dl t"
    by (simp add: p(2) ord_ph_fold)
qed

section \<open>Cutting a node out of a forest\<close>

fun ph_unlink :: "addr \<Rightarrow> ph list \<Rightarrow> ph list" where
  "ph_unlink x [] = []"
| "ph_unlink x (Hp a cs # ts) =
     (if a = x then ts else Hp a (ph_unlink x cs) # ph_unlink x ts)"

fun ph_kids :: "addr \<Rightarrow> ph list \<Rightarrow> ph list" where
  "ph_kids x [] = []"
| "ph_kids x (Hp a cs # ts) =
     (if a = x then cs else if x \<in> set (phs_nodes cs) then ph_kids x cs else ph_kids x ts)"

lemma ph_unlink_notin: "x \<notin> set (phs_nodes ts) \<Longrightarrow> ph_unlink x ts = ts"
  by (induction x ts rule: ph_unlink.induct) auto

lemma mset_ph_unlink:
  "x \<in> set (phs_nodes ts) \<Longrightarrow> distinct (phs_nodes ts) \<Longrightarrow>
   mset (phs_nodes ts) = add_mset x (mset (phs_nodes (ph_kids x ts)) + mset (phs_nodes (ph_unlink x ts)))"
proof (induction x ts rule: ph_unlink.induct)
  case (2 x a cs ts)
  have "x \<in> set (phs_nodes cs) \<Longrightarrow> ph_unlink x ts = ts"
    using "2.prems" by (intro ph_unlink_notin) auto
  with 2 show ?case by (auto simp: ph_unlink_notin)
qed simp

lemma ph_unlink_subset: "set (phs_nodes (ph_unlink x ts)) \<subseteq> set (phs_nodes ts)"
  by (induction x ts rule: ph_unlink.induct) auto

lemma ord_ph_unlink:
  "\<forall>t \<in> set ts. ph_ord dl t \<Longrightarrow> t \<in> set (ph_unlink x ts) \<Longrightarrow> ph_ord dl t"
proof (induction x ts arbitrary: t rule: ph_unlink.induct)
  case (2 x a cs ts)
  have kids: "\<forall>u \<in> set cs. ph_ord dl u" "\<forall>u \<in> set ts. ph_ord dl u"
    using "2.prems"(1) by simp_all
  show ?case
  proof (cases "a = x")
    case True
    then show ?thesis using "2.prems" by simp
  next
    case False
    then consider "t = Hp a (ph_unlink x cs)" | "t \<in> set (ph_unlink x ts)"
      using "2.prems"(2) by auto
    then show ?thesis
    proof cases
      case 1
      have "\<forall>y \<in> set (phs_nodes (ph_unlink x cs)). dl a \<le> dl y"
        using "2.prems" ph_unlink_subset [of x cs] by auto
      moreover have "\<forall>u \<in> set (ph_unlink x cs). ph_ord dl u"
        using "2.IH"(1) [OF False] kids(1) by blast
      ultimately show ?thesis by (simp add: 1)
    next
      case 2
      then show ?thesis using "2.IH"(2) [OF False] kids(2) by blast
    qed
  qed
qed simp

lemma ord_ph_kids:
  "\<forall>t \<in> set ts. ph_ord dl t \<Longrightarrow> t \<in> set (ph_kids x ts) \<Longrightarrow> ph_ord dl t"
  by (induction x ts arbitrary: t rule: ph_kids.induct) (auto split: if_splits)

end
