(* ===== verification/Timer_Queue.thy ===== *)
theory Timer_Queue
  imports Timer_Heap Intrusive_List
begin

text \<open>
  The intrusive pairing heap \<open>timer_queue\<close> of \<open>include/coio/detail/op_queue.h\<close>, at the level of its
  \<open>prev\<close> / \<open>child\<close> / \<open>sibling\<close> pointers, and its refinement of the trees of \<open>Timer_Heap\<close>.

  \<open>dl\<close> is the projection (the deadline of a node, a time point in clock ticks); it does not change
  while a node is linked. The mutex makes every public operation atomic, so the operations are
  functions on the state. The two merge loops are partial functions whose \<^term>\<open>None\<close> stands for not
  returning or for following a null pointer; that this never happens is part of the refinement.
\<close>

record timer_heap_links =
  tl_prev :: ptr
  tl_child :: ptr
  tl_sibling :: ptr

type_synonym heap_links = "addr \<Rightarrow> timer_heap_links"

definition null_links :: timer_heap_links where
  "null_links = \<lparr>tl_prev = None, tl_child = None, tl_sibling = None\<rparr>"

definition set_prev :: "addr \<Rightarrow> ptr \<Rightarrow> heap_links \<Rightarrow> heap_links" where
  "set_prev a p L = L(a := (L a)\<lparr>tl_prev := p\<rparr>)"

definition set_child :: "addr \<Rightarrow> ptr \<Rightarrow> heap_links \<Rightarrow> heap_links" where
  "set_child a p L = L(a := (L a)\<lparr>tl_child := p\<rparr>)"

definition set_sibling :: "addr \<Rightarrow> ptr \<Rightarrow> heap_links \<Rightarrow> heap_links" where
  "set_sibling a p L = L(a := (L a)\<lparr>tl_sibling := p\<rparr>)"

record timer_queue =
  tq_links :: heap_links
  tq_root :: ptr

definition tq_meld :: "(addr \<Rightarrow> int) \<Rightarrow> heap_links \<Rightarrow> addr \<Rightarrow> addr \<Rightarrow> heap_links \<times> addr" where
  "tq_meld dl L a b =
     (let (a, b) = (if dl b < dl a then (b, a) else (a, b));
          L = set_prev b (Some a) L;
          L = set_sibling b (tl_child (L a)) L;
          L = (case tl_child (L a) of None \<Rightarrow> L | Some c \<Rightarrow> set_prev c (Some b) L);
          L = set_child a (Some b) L
      in (L, a))"

partial_function (option) tq_pair_loop ::
  "(addr \<Rightarrow> int) \<Rightarrow> heap_links \<Rightarrow> ptr \<Rightarrow> ptr \<Rightarrow> (heap_links \<times> ptr) option" where
  "tq_pair_loop dl L first merged =
     (case first of
        None \<Rightarrow> Some (L, merged)
      | Some a \<Rightarrow>
          (case tl_sibling (L a) of
             None \<Rightarrow>
               tq_pair_loop dl (set_sibling a merged (set_sibling a None (set_prev a None L)))
                 None (Some a)
           | Some b \<Rightarrow>
               let m = tq_meld dl
                 (set_sibling b None (set_prev b None (set_sibling a None (set_prev a None L)))) a b
               in tq_pair_loop dl (set_sibling (snd m) merged (fst m)) (tl_sibling (L b))
                 (Some (snd m))))"

partial_function (option) tq_fold_loop ::
  "(addr \<Rightarrow> int) \<Rightarrow> heap_links \<Rightarrow> ptr \<Rightarrow> addr \<Rightarrow> (heap_links \<times> addr) option" where
  "tq_fold_loop dl L merged result =
     (case merged of
        None \<Rightarrow> Some (L, result)
      | Some m \<Rightarrow>
          let r = tq_meld dl (set_sibling m None L) result m
          in tq_fold_loop dl (fst r) (tl_sibling (L m)) (snd r))"

definition tq_merge_children ::
  "(addr \<Rightarrow> int) \<Rightarrow> heap_links \<Rightarrow> ptr \<Rightarrow> (heap_links \<times> ptr) option" where
  "tq_merge_children dl L first =
     (if first = None then Some (L, None)
      else case tq_pair_loop dl L first None of
             None \<Rightarrow> None
           | Some (L, None) \<Rightarrow> None
           | Some (L, Some result) \<Rightarrow>
               (case tq_fold_loop dl (set_sibling result None L) (tl_sibling (L result)) result of
                  None \<Rightarrow> None
                | Some (L, r) \<Rightarrow> Some (L, Some r)))"

definition tq_pop_root :: "(addr \<Rightarrow> int) \<Rightarrow> timer_queue \<Rightarrow> (addr \<times> timer_queue) option" where
  "tq_pop_root dl q =
     (case tq_root q of
        None \<Rightarrow> None
      | Some t \<Rightarrow>
          (case tq_merge_children dl (tq_links q) (tl_child (tq_links q t)) of
             None \<Rightarrow> None
           | Some (L, r) \<Rightarrow> Some (t, q\<lparr>tq_links := L(t := null_links), tq_root := r\<rparr>)))"

definition tq_unlink :: "addr \<Rightarrow> heap_links \<Rightarrow> heap_links option" where
  "tq_unlink op L =
     (case tl_prev (L op) of
        None \<Rightarrow> None
      | Some prev \<Rightarrow>
          let sib = tl_sibling (L op);
              L = (if tl_child (L prev) = Some op then set_child prev sib L else set_sibling prev sib L)
          in Some (case sib of None \<Rightarrow> L | Some s \<Rightarrow> set_prev s (Some prev) L))"

definition tq_add :: "(addr \<Rightarrow> int) \<Rightarrow> addr \<Rightarrow> timer_queue \<Rightarrow> bool \<times> timer_queue" where
  "tq_add dl op q =
     (let L = (tq_links q)(op := null_links);
          (L, root) = (case tq_root q of None \<Rightarrow> (L, op) | Some r \<Rightarrow> tq_meld dl L r op)
      in (root = op, q\<lparr>tq_links := L, tq_root := Some root\<rparr>))"

definition tq_remove :: "(addr \<Rightarrow> int) \<Rightarrow> addr \<Rightarrow> timer_queue \<Rightarrow> (bool \<times> timer_queue) option" where
  "tq_remove dl op q =
     (if tq_root q = Some op then
        (case tq_pop_root dl q of None \<Rightarrow> None | Some (t, q) \<Rightarrow> Some (True, q))
      else if tl_prev (tq_links q op) = None then Some (False, q)
      else
        (case tq_unlink op (tq_links q) of
           None \<Rightarrow> None
         | Some L \<Rightarrow>
             (case tq_merge_children dl L (tl_child (L op)) of
                None \<Rightarrow> None
              | Some (L, None) \<Rightarrow> Some (True, q\<lparr>tq_links := L(op := null_links)\<rparr>)
              | Some (L, Some subtree) \<Rightarrow>
                  (case tq_root q of
                     None \<Rightarrow> None
                   | Some root \<Rightarrow>
                       let (L, r) = tq_meld dl L root subtree
                       in Some (True, q\<lparr>tq_links := L(op := null_links), tq_root := Some r\<rparr>)))))"

text \<open>\<open>take_ready_timers\<close>; \<open>now\<close> is read once, under the lock.\<close>

partial_function (option) tq_take_ready_timers ::
  "(addr \<Rightarrow> int) \<Rightarrow> int \<Rightarrow> timer_queue \<Rightarrow> links \<times> intrusive_list \<Rightarrow>
   (timer_queue \<times> (links \<times> intrusive_list)) option" where
  "tq_take_ready_timers dl now q lst =
     (case tq_root q of
        None \<Rightarrow> Some (q, lst)
      | Some root \<Rightarrow>
          if dl root \<le> now then
            (case tq_pop_root dl q of
               None \<Rightarrow> None
             | Some (t, q) \<Rightarrow> tq_take_ready_timers dl now q (il_push_back t lst))
          else Some (q, lst))"

definition tq_earliest :: "(addr \<Rightarrow> int) \<Rightarrow> timer_queue \<Rightarrow> int option" where
  "tq_earliest dl q = map_option dl (tq_root q)"

definition tq_empty :: timer_queue where
  "tq_empty = \<lparr>tq_links = (\<lambda>_. null_links), tq_root = None\<rparr>"


section \<open>The forests a store of links stands for\<close>

text \<open>
  \<open>forest L pv p ts\<close>: pointer \<open>p\<close> is the first of a list of siblings that are the roots of the trees
  \<open>ts\<close>; its \<open>prev\<close> is \<open>pv\<close>, and every later sibling points back to the one before it. \<open>stack\<close> is the
  same for the stack of merged trees, whose members have a null \<open>prev\<close>.
\<close>

fun forest :: "heap_links \<Rightarrow> ptr \<Rightarrow> ptr \<Rightarrow> ph list \<Rightarrow> bool" where
  "forest L pv p [] \<longleftrightarrow> p = None"
| "forest L pv p (Hp a cs # ts) \<longleftrightarrow> p = Some a \<and> tl_prev (L a) = pv \<and>
     forest L (Some a) (tl_child (L a)) cs \<and> forest L (Some a) (tl_sibling (L a)) ts"

fun stack :: "heap_links \<Rightarrow> ptr \<Rightarrow> ph list \<Rightarrow> bool" where
  "stack L p [] \<longleftrightarrow> p = None"
| "stack L p (Hp a cs # ts) \<longleftrightarrow> p = Some a \<and> tl_prev (L a) = None \<and>
     forest L (Some a) (tl_child (L a)) cs \<and> stack L (tl_sibling (L a)) ts"

fun tree_at :: "heap_links \<Rightarrow> addr \<Rightarrow> ph \<Rightarrow> bool" where
  "tree_at L a (Hp b cs) \<longleftrightarrow> a = b \<and> tl_prev (L a) = None \<and> tl_sibling (L a) = None \<and>
     forest L (Some a) (tl_child (L a)) cs"

lemma forest_cong:
  "(\<And>x. x \<in> set (phs_nodes ts) \<Longrightarrow> L x = L' x) \<Longrightarrow> forest L pv p ts = forest L' pv p ts"
proof (induction L pv p ts rule: forest.induct)
  case (2 L pv p a cs ts)
  have "L a = L' a" using 2 by simp
  with 2 show ?case by simp
qed simp

lemma stack_cong:
  "(\<And>x. x \<in> set (phs_nodes ts) \<Longrightarrow> L x = L' x) \<Longrightarrow> stack L p ts = stack L' p ts"
proof (induction L p ts rule: stack.induct)
  case (2 L p a cs ts)
  have "L a = L' a" using 2 by simp
  moreover have "forest L (Some a) (tl_child (L a)) cs = forest L' (Some a) (tl_child (L a)) cs"
    using 2 by (intro forest_cong) simp
  ultimately show ?case using 2 by simp
qed simp

lemma tree_at_cong:
  assumes "\<And>x. x \<in> set (ph_nodes t) \<Longrightarrow> L x = L' x"
  shows "tree_at L a t = tree_at L' a t"
proof (cases t)
  case (Hp b cs)
  have "forest L (Some b) (tl_child (L b)) cs = forest L' (Some b) (tl_child (L b)) cs"
    using assms Hp by (intro forest_cong) simp
  with assms [of b] Hp show ?thesis by auto
qed

lemma tree_at_root: "tree_at L a t \<Longrightarrow> ph_root t = a"
  by (cases t) auto

lemma tree_at_stack: "tree_at L a t \<longleftrightarrow> stack L (Some a) [t]"
  by (cases t) auto

lemma forest_Null [simp]: "forest L pv None ts \<longleftrightarrow> ts = []"
proof (cases ts)
  case (Cons t us)
  then show ?thesis by (cases t) auto
qed simp

lemma forest_head:
  assumes "forest L pv (Some a) ts"
  shows "\<exists>cs us. ts = Hp a cs # us"
proof (cases ts)
  case (Cons t us)
  then show ?thesis using assms by (cases t) auto
qed (use assms in simp)

text \<open>The setters read back.\<close>

lemma set_links_simps [simp]:
  "set_prev a p L x = (if x = a then (L a)\<lparr>tl_prev := p\<rparr> else L x)"
  "set_child a p L x = (if x = a then (L a)\<lparr>tl_child := p\<rparr> else L x)"
  "set_sibling a p L x = (if x = a then (L a)\<lparr>tl_sibling := p\<rparr> else L x)"
  by (simp_all add: set_prev_def set_child_def set_sibling_def)

text \<open>Re-aiming the \<open>prev\<close> of the first sibling.\<close>

lemma forest_set_prev:
  assumes "forest L pv (Some c) ts" "distinct (phs_nodes ts)"
  shows "forest (set_prev c pv' L) pv' (Some c) ts"
proof -
  obtain cs us where ts: "ts = Hp c cs # us" using forest_head [OF assms(1)] by auto
  have "forest (set_prev c pv' L) (Some c) (tl_child (L c)) cs = forest L (Some c) (tl_child (L c)) cs"
    using assms ts by (intro forest_cong) auto
  moreover have "forest (set_prev c pv' L) (Some c) (tl_sibling (L c)) us
      = forest L (Some c) (tl_sibling (L c)) us"
    using assms ts by (intro forest_cong) auto
  ultimately show ?thesis using assms ts by simp
qed

section \<open>Meld refines the meld of trees\<close>

text \<open>The part of \<open>meld\<close> after the swap: \<open>b\<close> becomes the first child of \<open>a\<close>.\<close>

definition tq_link :: "heap_links \<Rightarrow> addr \<Rightarrow> addr \<Rightarrow> heap_links" where
  "tq_link L a b =
     (let L = set_prev b (Some a) L;
          L = set_sibling b (tl_child (L a)) L;
          L = (case tl_child (L a) of None \<Rightarrow> L | Some c \<Rightarrow> set_prev c (Some b) L)
      in set_child a (Some b) L)"

lemma tq_meld_link:
  "tq_meld dl L a b = (if dl b < dl a then (tq_link L b a, b) else (tq_link L a b, a))"
  by (simp add: tq_meld_def tq_link_def Let_def)

lemma tq_link_tree:
  assumes a: "tree_at L a (Hp a as)" and b: "tree_at L b (Hp b bs)"
    and d: "distinct (a # phs_nodes as @ b # phs_nodes bs)"
  shows "tree_at (tq_link L a b) a (Hp a (Hp b bs # as))"
    and "\<And>x. x \<notin> set (a # phs_nodes as @ b # phs_nodes bs) \<Longrightarrow> tq_link L a b x = L x"
proof -
  let ?L = "tq_link L a b"
  have ab: "a \<noteq> b" using d by auto
  have head: "x = a \<or> x = b \<or> (\<exists>cs us. as = Hp x cs # us)" if "?L x \<noteq> L x" for x
    using that a ab forest_head [of L "Some a" x as]
    by (auto simp: tq_link_def Let_def split: option.splits if_splits)
  then show "\<And>x. x \<notin> set (a # phs_nodes as @ b # phs_nodes bs) \<Longrightarrow> ?L x = L x"
    by fastforce
  have bs: "forest ?L (Some b) (tl_child (L b)) bs"
  proof -
    have "L x = ?L x" if "x \<in> set (phs_nodes bs)" for x
      using head [of x] that d by (metis Un_iff disjoint_iff distinct.simps(2) distinct_append
          list.set_intros(1) ph_nodes_Hp phs_nodes_simps(2) set_append list.set_intros(2))
    then show ?thesis using b forest_cong [of bs L ?L] by simp
  qed
  have "forest ?L (Some b) (tl_child (L a)) as"
  proof (cases "tl_child (L a)")
    case None
    then show ?thesis using a by simp
  next
    case (Some c)
    have fa: "forest L (Some a) (Some c) as" using a Some by simp
    then obtain cs us where as: "as = Hp c cs # us" using forest_head by blast
    have "forest (set_prev c (Some b) L) (Some b) (Some c) as"
      using forest_set_prev [OF fa] d by auto
    moreover have "set_prev c (Some b) L x = ?L x" if "x \<in> set (phs_nodes as)" for x
      using that d ab Some as by (auto simp: tq_link_def Let_def)
    ultimately show ?thesis using forest_cong [of as "set_prev c (Some b) L" ?L] Some by simp
  qed
  moreover have "c \<noteq> b \<and> c \<noteq> a" if "tl_child (L a) = Some c" for c
    using a d that forest_head [of L "Some a" c as] by auto
  ultimately show "tree_at ?L a (Hp a (Hp b bs # as))"
    using a b ab bs by (auto simp: tq_link_def Let_def split: option.splits)
qed

text \<open>
  \<open>frame L L' xs\<close>: the two stores differ at most at the nodes \<open>xs\<close>.
\<close>

definition frame :: "heap_links \<Rightarrow> heap_links \<Rightarrow> addr list \<Rightarrow> bool" where
  "frame L L' xs \<longleftrightarrow> (\<forall>x. x \<notin> set xs \<longrightarrow> L' x = L x)"

lemma frameD: "frame L L' xs \<Longrightarrow> x \<notin> set xs \<Longrightarrow> L' x = L x"
  by (simp add: frame_def)

lemma frame_refl [simp]: "frame L L xs"
  by (simp add: frame_def)

lemma frame_trans: "frame L L' xs \<Longrightarrow> frame L' L'' ys \<Longrightarrow> set xs \<union> set ys \<subseteq> set zs \<Longrightarrow> frame L L'' zs"
  unfolding frame_def by (metis Un_iff subsetD)

lemma frame_forest:
  "frame L L' xs \<Longrightarrow> set xs \<inter> set (phs_nodes ts) = {} \<Longrightarrow> forest L pv p ts \<Longrightarrow> forest L' pv p ts"
  using forest_cong [of ts L L' pv p] by (metis disjoint_iff frameD)

lemma frame_stack:
  "frame L L' xs \<Longrightarrow> set xs \<inter> set (phs_nodes ts) = {} \<Longrightarrow> stack L p ts \<Longrightarrow> stack L' p ts"
  using stack_cong [of ts L L' p] by (metis disjoint_iff frameD)

lemma frame_tree_at:
  "frame L L' xs \<Longrightarrow> set xs \<inter> set (ph_nodes t) = {} \<Longrightarrow> tree_at L a t \<Longrightarrow> tree_at L' a t"
  using tree_at_cong [of t L L' a] by (metis disjoint_iff frameD)

lemma tq_meld_tree:
  assumes "tree_at L a t" "tree_at L b u" "distinct (ph_nodes t @ ph_nodes u)"
    and "tq_meld dl L a b = (L', r)"
  shows "tree_at L' r (ph_meld dl t u)" and "frame L L' (ph_nodes t @ ph_nodes u)"
proof -
  obtain as where t: "t = Hp a as" using assms(1) by (cases t) auto
  obtain bs where u: "u = Hp b bs" using assms(2) by (cases u) auto
  have d: "distinct (a # phs_nodes as @ b # phs_nodes bs)" "distinct (b # phs_nodes bs @ a # phs_nodes as)"
    using assms(3) by (auto simp: t u)
  show "tree_at L' r (ph_meld dl t u)" "frame L L' (ph_nodes t @ ph_nodes u)"
    using tq_link_tree [OF _ _ d(1)] tq_link_tree [OF _ _ d(2)] assms
    by (auto simp: t u tq_meld_link frame_def split: if_splits)
qed

lemma stack_push:
  assumes "tree_at L r t" "stack L p ts" "distinct (phs_nodes (t # ts))"
  shows "stack (set_sibling r p L) (Some r) (t # ts)"
proof -
  obtain cs where t: "t = Hp r cs" using assms(1) by (cases t) auto
  have fr: "frame L (set_sibling r p L) [r]" by (simp add: frame_def)
  have "forest (set_sibling r p L) (Some r) (tl_child (L r)) cs"
    using assms t by (intro frame_forest [OF fr]) auto
  moreover have "stack (set_sibling r p L) p ts"
    using assms t by (intro frame_stack [OF fr]) auto
  ultimately show ?thesis using assms t by simp
qed

section \<open>The two merge loops refine the two passes\<close>

lemma tq_pair_loop_refines:
  assumes "forest L pv first ts" "stack L merged acc" "distinct (phs_nodes (ts @ acc))"
  shows "\<exists>L' p. tq_pair_loop dl L first merged = Some (L', p) \<and> stack L' p (ph_pairs dl ts acc) \<and>
    frame L L' (phs_nodes (ts @ acc))"
  using assms
proof (induction dl ts acc arbitrary: L pv first merged rule: ph_pairs.induct)
  case (1 dl acc)
  then show ?case by (simp add: tq_pair_loop.simps)
next
  case (2 dl t acc)
  obtain a cs where t: "t = Hp a cs" by (cases t)
  let ?L = "set_sibling a None (set_prev a None L)"
  have f: "first = Some a" "tl_sibling (L a) = None" "forest L (Some a) (tl_child (L a)) cs"
    using "2.prems"(1) t by auto
  have d: "distinct (phs_nodes (t # acc))" using "2.prems"(3) by simp
  have fr: "frame L ?L [a]" by (simp add: frame_def)
  have "tree_at ?L a t"
    using f(3) frame_forest [OF fr, of cs "Some a"] d by (simp add: t)
  moreover have "stack ?L merged acc"
    using "2.prems"(2) d by (intro frame_stack [OF fr]) (auto simp: t)
  ultimately have "stack (set_sibling a merged ?L) (Some a) (t # acc)"
    using d by (rule stack_push)
  moreover have "frame L (set_sibling a merged ?L) (phs_nodes ([t] @ acc))"
    by (simp add: frame_def t)
  ultimately show ?case
    using f by (simp add: tq_pair_loop.simps [of dl L] tq_pair_loop.simps [of _ _ None])
next
  case (3 dl t u ts acc)
  obtain a cs where t: "t = Hp a cs" by (cases t)
  obtain b ds where u: "u = Hp b ds" by (cases u)
  let ?La = "set_sibling a None (set_prev a None L)"
  let ?L = "set_sibling b None (set_prev b None ?La)"
  have f: "first = Some a" "tl_sibling (L a) = Some b" "forest L (Some a) (tl_child (L a)) cs"
    "forest L (Some b) (tl_child (L b)) ds" "forest L (Some b) (tl_sibling (L b)) ts"
    using "3.prems"(1) t u by auto
  have d: "distinct (ph_nodes t @ ph_nodes u @ phs_nodes ts @ phs_nodes acc)"
    using "3.prems"(3) by simp
  obtain L2 r where m: "tq_meld dl ?L a b = (L2, r)" by (cases "tq_meld dl ?L a b")
  have fr: "frame L ?L [a, b]" by (simp add: frame_def)
  have trees: "tree_at ?L a t" "tree_at ?L b u"
    using f(3,4) frame_forest [OF fr, of cs "Some a"] frame_forest [OF fr, of ds "Some b"] d
    by (auto simp: t u)
  have dd: "distinct (ph_nodes t @ ph_nodes u)" using d by auto
  note mm = tq_meld_tree [OF trees dd m]
  have fr2: "frame L L2 (ph_nodes t @ ph_nodes u)"
    by (rule frame_trans [OF fr mm(2)]) (auto simp: t u)
  have nodes: "mset (ph_nodes (ph_meld dl t u)) = mset (ph_nodes t @ ph_nodes u)"
    by (simp add: mset_ph_meld)
  have dmeld: "distinct (phs_nodes (ph_meld dl t u # acc))"
    using d mset_eq_imp_distinct_iff [OF nodes] by (auto simp: set_ph_meld)
  have "stack L2 merged acc"
    using "3.prems"(2) d by (intro frame_stack [OF fr2]) auto
  then have st: "stack (set_sibling r merged L2) (Some r) (ph_meld dl t u # acc)"
    using mm(1) dmeld by (intro stack_push)
  have rin: "r \<in> set (ph_nodes t @ ph_nodes u)"
    using tree_at_root [OF mm(1)] ph_root_in [of "ph_meld dl t u"] by (auto simp: set_ph_meld)
  then have fr3: "frame L (set_sibling r merged L2) (ph_nodes t @ ph_nodes u)"
    using fr2 by (auto simp: frame_def)
  have "forest (set_sibling r merged L2) (Some b) (tl_sibling (L b)) ts"
    using f(5) d by (intro frame_forest [OF fr3]) auto
  moreover have "distinct (phs_nodes (ts @ ph_meld dl t u # acc))"
    using d dmeld by (auto simp: set_ph_meld)
  moreover have "tq_pair_loop dl L first merged =
      tq_pair_loop dl (set_sibling r merged L2) (tl_sibling (L b)) (Some r)"
    using f m d by (simp add: tq_pair_loop.simps [of dl L] t u)
  ultimately obtain L' p where res:
    "tq_pair_loop dl L first merged = Some (L', p)" "stack L' p (ph_pairs dl ts (ph_meld dl t u # acc))"
    "frame (set_sibling r merged L2) L' (phs_nodes (ts @ ph_meld dl t u # acc))"
    using "3.IH" [OF _ st] by metis
  have "frame L L' (phs_nodes ((t # u # ts) @ acc))"
    by (rule frame_trans [OF fr3 res(3)]) (auto simp: set_ph_meld)
  with res(1,2) show ?case by simp
qed

lemma tq_fold_loop_refines:
  assumes "tree_at L result r" "stack L merged ms" "distinct (phs_nodes (r # ms))"
  shows "\<exists>L' p. tq_fold_loop dl L merged result = Some (L', p) \<and> tree_at L' p (ph_fold dl r ms) \<and>
    frame L L' (phs_nodes (r # ms))"
  using assms
proof (induction dl r ms arbitrary: L merged result rule: ph_fold.induct)
  case (1 dl r)
  then show ?case by (simp add: tq_fold_loop.simps)
next
  case (2 dl r m ms)
  obtain a cs where m: "m = Hp a cs" by (cases m)
  let ?L = "set_sibling a None L"
  have f: "merged = Some a" "tl_prev (L a) = None" "forest L (Some a) (tl_child (L a)) cs"
    "stack L (tl_sibling (L a)) ms"
    using "2.prems"(2) m by auto
  have d: "distinct (ph_nodes r @ ph_nodes m @ phs_nodes ms)" using "2.prems"(3) by simp
  have fr: "frame L ?L [a]" by (simp add: frame_def)
  have trees: "tree_at ?L result r" "tree_at ?L a m"
    using "2.prems"(1) f frame_tree_at [OF fr] frame_forest [OF fr, of cs "Some a"] d by (auto simp: m)
  obtain L2 p where mm: "tq_meld dl ?L result a = (L2, p)" by (cases "tq_meld dl ?L result a")
  have dd: "distinct (ph_nodes r @ ph_nodes m)" using d by auto
  note mt = tq_meld_tree [OF trees dd mm]
  have fr2: "frame L L2 (ph_nodes r @ ph_nodes m)"
    by (rule frame_trans [OF fr mt(2)]) (auto simp: m)
  have st: "stack L2 (tl_sibling (L a)) ms"
    using f(4) d by (intro frame_stack [OF fr2]) auto
  have nodes: "mset (ph_nodes (ph_meld dl r m)) = mset (ph_nodes r @ ph_nodes m)"
    by (simp add: mset_ph_meld)
  have "distinct (phs_nodes (ph_meld dl r m # ms))"
    using d mset_eq_imp_distinct_iff [OF nodes] by (auto simp: set_ph_meld)
  then obtain L' q where res:
    "tq_fold_loop dl L2 (tl_sibling (L a)) p = Some (L', q)"
    "tree_at L' q (ph_fold dl (ph_meld dl r m) ms)" "frame L2 L' (phs_nodes (ph_meld dl r m # ms))"
    using "2.IH" [OF mt(1) st] by metis
  have "frame L L' (phs_nodes (r # m # ms))"
    by (rule frame_trans [OF fr2 res(3)]) (auto simp: set_ph_meld)
  with res(1,2) f mm show ?case by (simp add: tq_fold_loop.simps [of dl L] Let_def)
qed

text \<open>The merge returns, and its result is the merge of the trees.\<close>

lemma tq_merge_children_refines:
  assumes "forest L pv first ts" "distinct (phs_nodes ts)"
  shows "\<exists>L' p. tq_merge_children dl L first = Some (L', p) \<and> frame L L' (phs_nodes ts) \<and>
    (case ph_merge dl ts of None \<Rightarrow> p = None | Some t \<Rightarrow> \<exists>a. p = Some a \<and> tree_at L' a t)"
proof (cases first)
  case None
  with assms(1) show ?thesis
    by (simp add: tq_merge_children_def ph_merge_def)
next
  case (Some c)
  then have "ts \<noteq> []" using assms(1) by auto
  then obtain r ms where pr: "ph_pairs dl ts [] = r # ms"
    using ph_pairs_nonempty [of ts "[]" dl] by (cases "ph_pairs dl ts []") auto
  obtain a cs where r: "r = Hp a cs" by (cases r)
  obtain L1 p where l1: "tq_pair_loop dl L first None = Some (L1, p)" "stack L1 p (r # ms)"
    "frame L L1 (phs_nodes ts)"
    using tq_pair_loop_refines [of L pv first ts None "[]" dl] assms pr by auto
  have nodes: "mset (phs_nodes (r # ms)) = mset (phs_nodes ts)"
    using mset_ph_pairs [of dl ts "[]"] pr by simp
  then have d: "distinct (phs_nodes (r # ms))"
    using assms(2) by (metis mset_eq_imp_distinct_iff)
  let ?L = "set_sibling a None L1"
  have fr: "frame L1 ?L [a]" by (simp add: frame_def)
  have p: "p = Some a" "tl_prev (L1 a) = None" "forest L1 (Some a) (tl_child (L1 a)) cs"
    "stack L1 (tl_sibling (L1 a)) ms"
    using l1(2) r by auto
  have "tree_at ?L a r"
    using p d frame_forest [OF fr, of cs "Some a"] by (auto simp: r)
  moreover have "stack ?L (tl_sibling (L1 a)) ms"
    using p(4) d by (intro frame_stack [OF fr]) (auto simp: r)
  ultimately obtain L2 b where l2: "tq_fold_loop dl ?L (tl_sibling (L1 a)) a = Some (L2, b)"
    "tree_at L2 b (ph_fold dl r ms)" "frame ?L L2 (phs_nodes (r # ms))"
    using tq_fold_loop_refines d by blast
  have setn: "set (phs_nodes (r # ms)) = set (phs_nodes ts)"
    using nodes by (metis set_mset_mset)
  then have "frame L L2 (phs_nodes ts)"
    using frame_trans [OF frame_trans [OF l1(3) fr, of "phs_nodes ts"] l2(3)] by (auto simp: r)
  then show ?thesis
    using l1(1) l2 p(1) Some pr by (auto simp: tq_merge_children_def ph_merge_def)
qed

section \<open>Unlinking refines cutting a subtree out\<close>

lemma tq_unlink_eq:
  "tl_prev (L op) = Some prev \<Longrightarrow> tq_unlink op L = Some
     (case tl_sibling (L op) of
        None \<Rightarrow> (if tl_child (L prev) = Some op then set_child prev None L else set_sibling prev None L)
      | Some s \<Rightarrow> set_prev s (Some prev)
          (if tl_child (L prev) = Some op then set_child prev (Some s) L else set_sibling prev (Some s) L))"
  by (auto simp: tq_unlink_def Let_def split: option.splits)

text \<open>
  What unlinking \<open>op\<close> from a list of siblings \<open>ts\<close> must achieve: the list without \<open>op\<close>'s subtree, the
  children of \<open>op\<close> untouched, and no change outside \<open>ts\<close>.
\<close>

definition cut_ok :: "heap_links \<Rightarrow> heap_links \<Rightarrow> addr \<Rightarrow> ptr \<Rightarrow> ptr \<Rightarrow> ph list \<Rightarrow> bool" where
  "cut_ok L L' op pv p ts \<longleftrightarrow> forest L' pv p (ph_unlink op ts) \<and>
     forest L' (Some op) (tl_child (L' op)) (ph_kids op ts) \<and> frame L L' (phs_nodes ts)"

text \<open>The list starting at \<open>op\<close> itself, seen from the node \<open>a\<close> that points at it.\<close>

lemma cut_head:
  assumes f: "forest L (Some a) (Some op) (Hp op ks # us)"
    and d: "distinct (a # phs_nodes (Hp op ks # us))" and af: "tl_sibling (L op) = s"
    and L': "L' = (case s of None \<Rightarrow> L1 | Some n \<Rightarrow> set_prev n (Some a) L1)" and L1: "frame L L1 [a]"
  shows "forest L' (Some a) s us" "forest L' (Some op) (tl_child (L' op)) ks"
    and "frame L1 L' (phs_nodes us)"
proof -
  have us: "forest L (Some op) s us" "forest L (Some op) (tl_child (L op)) ks" using f af by auto
  have s: "\<exists>cs vs. us = Hp n cs # vs" if "s = Some n" for n
    using that us(1) forest_head by blast
  then show fr: "frame L1 L' (phs_nodes us)"
    unfolding frame_def L' by (fastforce split: option.splits)
  have "forest L1 (Some op) s us" "forest L1 (Some op) (tl_child (L op)) ks" "L1 op = L op"
    using us d by (auto intro: frame_forest [OF L1] frameD [OF L1])
  moreover from this have "L' op = L op" using frameD [OF fr, of op] d by auto
  ultimately show "forest L' (Some op) (tl_child (L' op)) ks"
    using d by (auto intro!: frame_forest [OF fr])
  show "forest L' (Some a) s us"
  proof (cases s)
    case None
    then show ?thesis using us by simp
  next
    case (Some n)
    then show ?thesis
      using forest_set_prev [of L1 "Some op" n us] \<open>forest L1 (Some op) s us\<close> d by (simp add: L')
  qed
qed

lemma tq_unlink_refines:
  assumes "forest L pv (Some h) ts" "distinct (phs_nodes ts)" "op \<in> set (phs_nodes ts)" "op \<noteq> h"
  shows "\<exists>L'. tq_unlink op L = Some L' \<and> cut_ok L L' op pv (Some h) ts"
  using assms
proof (induction op ts arbitrary: pv h rule: ph_unlink.induct)
  case (1 op)
  then show ?case by simp
next
  case (2 op a cs ts)
  have h: "h = a" and pv: "tl_prev (L a) = pv"
    and fc: "forest L (Some a) (tl_child (L a)) cs" and ft: "forest L (Some a) (tl_sibling (L a)) ts"
    using "2.prems"(1) by auto
  have ne: "a \<noteq> op" using "2.prems"(4) h by simp
  have d: "distinct (a # phs_nodes cs)" "distinct (a # phs_nodes ts)" "distinct (phs_nodes cs)"
    "distinct (phs_nodes ts)" "set (phs_nodes cs) \<inter> set (phs_nodes ts) = {}"
    using "2.prems"(2) by auto
  show ?case
  proof (cases "op \<in> set (phs_nodes cs)")
    case True
    then have opt: "op \<notin> set (phs_nodes ts)" using d(5) by auto
    then have keep: "ph_unlink op ts = ts" by (rule ph_unlink_notin)
    obtain c where c: "tl_child (L a) = Some c" using True fc by (cases "tl_child (L a)") auto
    have "\<exists>L'. tq_unlink op L = Some L' \<and> forest L' (Some a) (tl_child (L' a)) (ph_unlink op cs) \<and>
      forest L' (Some op) (tl_child (L' op)) (ph_kids op cs) \<and> frame L L' (a # phs_nodes cs) \<and>
      tl_prev (L' a) = tl_prev (L a) \<and> tl_sibling (L' a) = tl_sibling (L a)"
    proof (cases "c = op")
      case eq: True
      have "forest L (Some a) (Some op) cs" using fc c eq by simp
      then obtain ks us where cs: "cs = Hp op ks # us" using forest_head by blast
      let ?L1 = "set_child a (tl_sibling (L op)) L"
      let ?L' = "case tl_sibling (L op) of None \<Rightarrow> ?L1 | Some n \<Rightarrow> set_prev n (Some a) ?L1"
      have fr1: "frame L ?L1 [a]" by (simp add: frame_def)
      have "forest L (Some a) (Some op) (Hp op ks # us)" using fc c eq cs by simp
      note cut = cut_head [OF this _ refl refl fr1]
      have prev: "tl_prev (L op) = Some a" using fc cs by simp
      have un: "tq_unlink op L = Some ?L'"
        using c eq by (auto simp: tq_unlink_eq [of L op a, OF prev] split: option.splits)
      have a': "?L' a = ?L1 a" using frameD [OF cut(3), of a] d(1) cs by auto
      have "frame L ?L' (a # phs_nodes cs)"
        using frame_trans [OF fr1 cut(3), of "a # phs_nodes cs"] d(1) cs by auto
      then show ?thesis
        using un cut(1,2) a' d(1) cs by auto
    next
      case False
      then obtain L' where L': "tq_unlink op L = Some L'" "cut_ok L L' op (Some a) (Some c) cs"
        using "2.IH"(1) [OF ne, of "Some a" c] fc c d True by auto
      then have "L' a = L a" using d(1) by (auto simp: cut_ok_def frame_def)
      then show ?thesis using L' c by (auto simp: cut_ok_def frame_def)
    qed
    then obtain L' where L': "tq_unlink op L = Some L'"
      "forest L' (Some a) (tl_child (L' a)) (ph_unlink op cs)"
      "forest L' (Some op) (tl_child (L' op)) (ph_kids op cs)" "frame L L' (a # phs_nodes cs)"
      "tl_prev (L' a) = tl_prev (L a)" "tl_sibling (L' a) = tl_sibling (L a)"
      by blast
    have "forest L' (Some a) (tl_sibling (L a)) ts"
      using d ft by (intro frame_forest [OF L'(4)]) auto
    then show ?thesis
      using L' True ne h pv keep by (auto simp: cut_ok_def frame_def)
  next
    case opc: False
    then have opt: "op \<in> set (phs_nodes ts)" using "2.prems"(3) ne by auto
    have keep: "ph_unlink op cs = cs" using opc by (rule ph_unlink_notin)
    obtain s where s: "tl_sibling (L a) = Some s" using opt ft by (cases "tl_sibling (L a)") auto
    have "\<exists>L'. tq_unlink op L = Some L' \<and> forest L' (Some a) (tl_sibling (L' a)) (ph_unlink op ts) \<and>
      forest L' (Some op) (tl_child (L' op)) (ph_kids op ts) \<and> frame L L' (a # phs_nodes ts) \<and>
      tl_prev (L' a) = tl_prev (L a) \<and> tl_child (L' a) = tl_child (L a)"
    proof (cases "s = op")
      case eq: True
      have "forest L (Some a) (Some op) ts" using ft s eq by simp
      then obtain ks us where ts: "ts = Hp op ks # us" using forest_head by blast
      have "tl_child (L a) \<noteq> Some op"
        using fc opc forest_head [of L "Some a" op cs] by auto
      let ?L1 = "set_sibling a (tl_sibling (L op)) L"
      let ?L' = "case tl_sibling (L op) of None \<Rightarrow> ?L1 | Some n \<Rightarrow> set_prev n (Some a) ?L1"
      have fr1: "frame L ?L1 [a]" by (simp add: frame_def)
      have "forest L (Some a) (Some op) (Hp op ks # us)" using ft s eq ts by simp
      note cut = cut_head [OF this _ refl refl fr1]
      have prev: "tl_prev (L op) = Some a" using ft ts by simp
      have un: "tq_unlink op L = Some ?L'"
        using \<open>tl_child (L a) \<noteq> Some op\<close>
        by (auto simp: tq_unlink_eq [of L op a, OF prev] split: option.splits)
      have a': "?L' a = ?L1 a" using frameD [OF cut(3), of a] d(2) ts by auto
      have "frame L ?L' (a # phs_nodes ts)"
        using frame_trans [OF fr1 cut(3), of "a # phs_nodes ts"] d(2) ts by auto
      then show ?thesis
        using un cut(1,2) a' d(2) ts by auto
    next
      case False
      then obtain L' where L': "tq_unlink op L = Some L'" "cut_ok L L' op (Some a) (Some s) ts"
        using "2.IH"(2) [OF ne, of "Some a" s] ft s d opt by auto
      then have "L' a = L a" using d(2) by (auto simp: cut_ok_def frame_def)
      then show ?thesis using L' s by (auto simp: cut_ok_def frame_def)
    qed
    then obtain L' where L': "tq_unlink op L = Some L'"
      "forest L' (Some a) (tl_sibling (L' a)) (ph_unlink op ts)"
      "forest L' (Some op) (tl_child (L' op)) (ph_kids op ts)" "frame L L' (a # phs_nodes ts)"
      "tl_prev (L' a) = tl_prev (L a)" "tl_child (L' a) = tl_child (L a)"
      by blast
    have "forest L' (Some a) (tl_child (L a)) cs"
      using d fc by (intro frame_forest [OF L'(4)]) auto
    then show ?thesis
      using L' opc ne h pv keep by (auto simp: cut_ok_def frame_def)
  qed
qed

section \<open>The set of timers a queue stands for\<close>

definition tq_rep :: "(addr \<Rightarrow> int) \<Rightarrow> timer_queue \<Rightarrow> addr set \<Rightarrow> bool" where
  "tq_rep dl q S \<longleftrightarrow> (\<forall>x. x \<notin> S \<longrightarrow> tl_prev (tq_links q x) = None) \<and>
     (case tq_root q of
        None \<Rightarrow> S = {}
      | Some r \<Rightarrow> \<exists>t. tree_at (tq_links q) r t \<and> distinct (ph_nodes t) \<and> ph_ord dl t \<and>
          S = set (ph_nodes t))"

lemma tq_rep_unlinked: "tq_rep dl q S \<Longrightarrow> x \<notin> S \<Longrightarrow> tl_prev (tq_links q x) = None"
  by (simp add: tq_rep_def)

lemma tq_rep_finite: "tq_rep dl q S \<Longrightarrow> finite S"
  by (auto simp: tq_rep_def split: option.splits)

lemma tq_rep_empty: "tq_rep dl tq_empty {}"
  by (simp add: tq_rep_def tq_empty_def null_links_def)

lemma tq_rep_rootE:
  assumes "tq_rep dl q S" "S \<noteq> {}"
  obtains r t where "tq_root q = Some r" "tree_at (tq_links q) r t" "distinct (ph_nodes t)"
    "ph_ord dl t" "S = set (ph_nodes t)"
  using assms by (auto simp: tq_rep_def split: option.splits)

lemma tq_rep_root_Some:
  assumes "tq_rep dl q S" "tq_root q = Some r"
  shows "r \<in> S" "y \<in> S \<Longrightarrow> dl r \<le> dl y"
proof -
  obtain t where t: "tree_at (tq_links q) r t" "ph_ord dl t" "S = set (ph_nodes t)"
    using assms by (auto simp: tq_rep_def)
  show "r \<in> S" "y \<in> S \<Longrightarrow> dl r \<le> dl y"
    using t tree_at_root [OF t(1)] ph_root_in [of t] ph_ord_root [OF t(2), of y] by auto
qed

lemma tq_rep_Nil: "tq_rep dl q {} \<Longrightarrow> tq_root q = None"
  by (metis empty_iff not_None_eq tq_rep_root_Some(1))

lemma tq_repI_tree:
  assumes "\<And>x. x \<notin> S \<Longrightarrow> tl_prev (tq_links q x) = None" "tq_root q = Some r"
    and "tree_at (tq_links q) r t" "distinct (ph_nodes t)" "ph_ord dl t" "S = set (ph_nodes t)"
  shows "tq_rep dl q S"
  using assms by (auto simp: tq_rep_def)

lemma tq_earliest_rep:
  assumes "tq_rep dl q S"
  shows "tq_earliest dl q = (if S = {} then None else Some (Min (dl ` S)))"
proof (cases "tq_root q")
  case None
  then show ?thesis using assms by (simp add: tq_rep_def tq_earliest_def)
next
  case (Some r)
  have "Min (dl ` S) = dl r"
    using tq_rep_root_Some [OF assms Some] tq_rep_finite [OF assms] by (intro Min_eqI) auto
  moreover have "S \<noteq> {}" using tq_rep_root_Some(1) [OF assms Some] by auto
  ultimately show ?thesis by (simp add: tq_earliest_def Some)
qed

lemma forest_prev_linked:
  "forest L (Some a) p ts \<Longrightarrow> x \<in> set (phs_nodes ts) \<Longrightarrow> tl_prev (L x) \<noteq> None"
  by (induction L "Some a" p ts arbitrary: a rule: forest.induct) auto

lemma tree_upd_null:
  "tree_at L a t \<Longrightarrow> x \<notin> set (ph_nodes t) \<Longrightarrow> tree_at (L(x := v)) a t"
  by (rule frame_tree_at [of L _ "[x]"]) (auto simp: frame_def)

lemma tq_pop_root_rep:
  assumes rep: "tq_rep dl q S" and rt: "tq_root q = Some r"
  shows "\<exists>q'. tq_pop_root dl q = Some (r, q') \<and> tq_rep dl q' (S - {r})"
proof -
  obtain t where t: "tree_at (tq_links q) r t" "distinct (ph_nodes t)" "ph_ord dl t" "S = set (ph_nodes t)"
    using rep rt by (auto simp: tq_rep_def)
  then obtain cs where cs: "t = Hp r cs" by (cases t) auto
  let ?L = "tq_links q"
  have f: "forest ?L (Some r) (tl_child (?L r)) cs" "distinct (phs_nodes cs)" "r \<notin> set (phs_nodes cs)"
    using t cs by auto
  obtain L' p where m: "tq_merge_children dl ?L (tl_child (?L r)) = Some (L', p)"
    "frame ?L L' (phs_nodes cs)"
    "case ph_merge dl cs of None \<Rightarrow> p = None | Some u \<Rightarrow> \<exists>a. p = Some a \<and> tree_at L' a u"
    using tq_merge_children_refines [OF f(1,2)] by blast
  let ?q = "q\<lparr>tq_links := L'(r := null_links), tq_root := p\<rparr>"
  have prev: "tl_prev (tq_links ?q x) = None" if "x \<notin> set (phs_nodes cs)" for x
    using that frameD [OF m(2), of x] tq_rep_unlinked [OF rep, of x] t(4) cs
    by (auto simp: null_links_def)
  have "tq_rep dl ?q (set (phs_nodes cs))"
  proof (cases "ph_merge dl cs")
    case None
    then have "p = None" using m(3) by simp
    moreover have "cs = []" using None by (simp add: ph_merge_None)
    ultimately show ?thesis using prev by (simp add: tq_rep_def)
  next
    case (Some u)
    note pm = ph_merge_Some [OF Some]
    have nodes: "distinct (ph_nodes u)" "set (ph_nodes u) = set (phs_nodes cs)"
      using pm(1) f(2) mset_eq_imp_distinct_iff mset_eq_setD by blast+
    obtain a where a: "p = Some a" "tree_at L' a u" using m(3) Some by auto
    show ?thesis
    proof (rule tq_repI_tree [where r = a and t = u])
      show "tree_at (tq_links ?q) a u"
        using tree_upd_null [OF a(2), of r] f(3) nodes by simp
      show "ph_ord dl u" using pm(2) t(3) cs by simp
    qed (use prev a nodes in auto)
  qed
  moreover have "set (phs_nodes cs) = S - {r}" using t(4) cs f(3) by auto
  ultimately show ?thesis using m(1) rt by (auto simp: tq_pop_root_def)
qed

lemma tq_add_rep:
  assumes rep: "tq_rep dl q S" and x: "x \<notin> S"
  shows "tq_rep dl (snd (tq_add dl x q)) (insert x S)"
    and "fst (tq_add dl x q) = (\<forall>y \<in> S. dl x < dl y)"
proof -
  let ?L = "(tq_links q)(x := null_links)"
  have tx: "tree_at ?L x (Hp x [])" by (simp add: null_links_def)
  have "tq_rep dl (snd (tq_add dl x q)) (insert x S) \<and> fst (tq_add dl x q) = (\<forall>y \<in> S. dl x < dl y)"
  proof (cases "tq_root q")
    case None
    then have "S = {}" using rep by (simp add: tq_rep_def)
    moreover have "tl_prev (?L y) = None" for y
      using tq_rep_unlinked [OF rep, of y] \<open>S = {}\<close> by (simp add: null_links_def)
    ultimately show ?thesis
      using None tx by (auto simp: tq_add_def simp del: fun_upd_apply intro!: tq_repI_tree [where t = "Hp x []"])
  next
    case (Some r)
    obtain t where t: "tree_at (tq_links q) r t" "distinct (ph_nodes t)" "ph_ord dl t" "S = set (ph_nodes t)"
      using rep Some by (auto simp: tq_rep_def)
    have tr: "tree_at ?L r t" using t x by (intro tree_upd_null) auto
    obtain L' a where m: "tq_meld dl ?L r x = (L', a)" by (cases "tq_meld dl ?L r x")
    have d: "distinct (ph_nodes t @ ph_nodes (Hp x []))" using t x by auto
    note mt = tq_meld_tree [OF tr tx d m]
    have root: "a = (if dl x < dl r then x else r)"
      using m by (auto simp: tq_meld_link split: if_splits)
    have nodes: "mset (ph_nodes (ph_meld dl t (Hp x []))) = mset (ph_nodes t @ ph_nodes (Hp x []))"
      by (simp add: mset_ph_meld)
    have "tq_rep dl (q\<lparr>tq_links := L', tq_root := Some a\<rparr>) (insert x S)"
    proof (rule tq_repI_tree [where t = "ph_meld dl t (Hp x [])"])
      show "distinct (ph_nodes (ph_meld dl t (Hp x [])))"
        using mset_eq_imp_distinct_iff [OF nodes] d by blast
      fix y assume "y \<notin> insert x S"
      then show "tl_prev (tq_links (q\<lparr>tq_links := L', tq_root := Some a\<rparr>) y) = None"
        using frameD [OF mt(2), of y] tq_rep_unlinked [OF rep, of y] t(4) by auto
    qed (use mt(1) t in \<open>auto simp: set_ph_meld ord_ph_meld\<close>)
    moreover have "x \<noteq> r" using tq_rep_root_Some(1) [OF rep Some] x by auto
    then have "(a = x) = (\<forall>y \<in> S. dl x < dl y)"
      using root tq_rep_root_Some [OF rep Some] by (auto split: if_splits) (meson less_le_trans)
    ultimately show ?thesis using Some m by (simp add: tq_add_def Let_def)
  qed
  then show "tq_rep dl (snd (tq_add dl x q)) (insert x S)"
    "fst (tq_add dl x q) = (\<forall>y \<in> S. dl x < dl y)" by blast+
qed

text \<open>Cutting a node that is not the root out of the tree of a queue.\<close>

lemma tq_unlink_tree:
  assumes "tree_at L r t" "distinct (ph_nodes t)" "ph_ord dl t" "x \<in> set (ph_nodes t)" "x \<noteq> r"
  obtains L' u ks where "tq_unlink x L = Some L'" "tree_at L' r u" "frame L L' (ph_nodes t)"
    "forest L' (Some x) (tl_child (L' x)) ks" "ph_ord dl u" "\<forall>k \<in> set ks. ph_ord dl k"
    "mset (ph_nodes t) = add_mset x (mset (phs_nodes ks) + mset (ph_nodes u))"
proof -
  obtain cs where t: "t = Hp r cs" using assms(1) by (cases t) auto
  let ?u = "Hp r (ph_unlink x cs)" and ?ks = "ph_kids x [t]"
  have one: "ph_unlink x [t] = [?u]" using assms(5) t by simp
  have "forest L None (Some r) [t]" using assms(1) t by simp
  then obtain L' where L': "tq_unlink x L = Some L'" "cut_ok L L' x None (Some r) [t]"
    using tq_unlink_refines [of L None r "[t]" x] assms by auto
  show ?thesis
  proof (rule that)
    show "tree_at L' r ?u" using L'(2) by (simp add: cut_ok_def one)
    show "ph_ord dl ?u" using ord_ph_unlink [of "[t]" dl ?u x] assms(3) one by simp
    show "\<forall>k \<in> set ?ks. ph_ord dl k" using ord_ph_kids [of "[t]" dl _ x] assms(3) by simp
    show "mset (ph_nodes t) = add_mset x (mset (phs_nodes ?ks) + mset (ph_nodes ?u))"
      using mset_ph_unlink [of x "[t]"] assms(2,4) by (simp only: one) simp
  qed (use L' in \<open>simp_all add: cut_ok_def\<close>)
qed

lemma tq_remove_inner:
  assumes rep: "tq_rep dl q S" and x: "x \<in> S" and rt: "tq_root q = Some r" and ne: "x \<noteq> r"
  shows "\<exists>q'. tq_remove dl x q = Some (True, q') \<and> tq_rep dl q' (S - {x})"
proof -
  obtain t where t: "tree_at (tq_links q) r t" "distinct (ph_nodes t)" "ph_ord dl t" "S = set (ph_nodes t)"
    using rep rt by (auto simp: tq_rep_def)
  obtain L' u ks where c: "tq_unlink x (tq_links q) = Some L'" "tree_at L' r u"
    "frame (tq_links q) L' (ph_nodes t)" "forest L' (Some x) (tl_child (L' x)) ks" "ph_ord dl u"
    "\<forall>k \<in> set ks. ph_ord dl k" "mset (ph_nodes t) = add_mset x (mset (phs_nodes ks) + mset (ph_nodes u))"
    using tq_unlink_tree [OF t(1-3) _ ne] x t(4) by blast
  have "mset (ph_nodes t) = mset (x # phs_nodes ks @ ph_nodes u)" using c(7) by simp
  then have d: "distinct (x # phs_nodes ks @ ph_nodes u)" and S: "S = set (x # phs_nodes ks @ ph_nodes u)"
    using t(2,4) mset_eq_imp_distinct_iff mset_eq_setD by blast+
  have prev: "tl_prev (tq_links q x) \<noteq> None"
    using c(1) by (auto simp: tq_unlink_def split: option.splits)
  obtain L2 p where m: "tq_merge_children dl L' (tl_child (L' x)) = Some (L2, p)"
    "frame L' L2 (phs_nodes ks)"
    "case ph_merge dl ks of None \<Rightarrow> p = None | Some w \<Rightarrow> \<exists>a. p = Some a \<and> tree_at L2 a w"
    using tq_merge_children_refines [OF c(4), of dl] d by fastforce
  have tu: "tree_at L2 r u" using d c(2) by (intro frame_tree_at [OF m(2)]) auto
  have fr: "frame (tq_links q) L2 (ph_nodes t)"
    using S t(4) by (intro frame_trans [OF c(3) m(2)]) auto
  have unlinked: "tl_prev ((L3(x := null_links)) y) = None"
    if "frame L2 L3 (ph_nodes t)" "y \<notin> S - {x}" for L3 y
    using that frameD [OF fr, of y] frameD [of L2 L3 "ph_nodes t" y] tq_rep_unlinked [OF rep, of y] t(4)
    by (auto simp: null_links_def)
  show ?thesis
  proof (cases "ph_merge dl ks")
    case None
    then have p: "p = None" using m(3) by simp
    have "ks = []" using None by (simp add: ph_merge_None)
    then have "tq_rep dl (q\<lparr>tq_links := L2(x := null_links)\<rparr>) (S - {x})"
      using tree_upd_null [OF tu, of x] d c(5) S rt unlinked [OF frame_refl]
      by (intro tq_repI_tree [where r = r and t = u]) (auto simp del: fun_upd_apply)
    then show ?thesis
      using c(1) m(1) p prev rt ne by (simp add: tq_remove_def)
  next
    case (Some w)
    note pm = ph_merge_Some [OF Some]
    obtain a where a: "p = Some a" "tree_at L2 a w" using m(3) Some by auto
    have w: "distinct (ph_nodes w)" "set (ph_nodes w) = set (phs_nodes ks)"
      using pm(1) d mset_eq_imp_distinct_iff [OF pm(1)] mset_eq_setD [OF pm(1)] by auto
    have duw: "distinct (ph_nodes u @ ph_nodes w)" using d w by auto
    obtain L3 b where mm: "tq_meld dl L2 r a = (L3, b)" by (cases "tq_meld dl L2 r a")
    note mt = tq_meld_tree [OF tu a(2) duw mm]
    have nodes: "mset (ph_nodes (ph_meld dl u w)) = mset (ph_nodes u @ ph_nodes w)"
      by (simp add: mset_ph_meld)
    have S': "S - {x} = set (ph_nodes (ph_meld dl u w))" using S d w by (auto simp: set_ph_meld)
    have "frame L2 L3 (ph_nodes t)"
      using S t(4) w by (intro frame_trans [OF frame_refl mt(2)]) auto
    then have "tq_rep dl (q\<lparr>tq_links := L3(x := null_links), tq_root := Some b\<rparr>) (S - {x})"
      using tree_upd_null [OF mt(1), of x] mset_eq_imp_distinct_iff [OF nodes] duw c(5,6) pm(2) S'
        unlinked [of L3]
      by (intro tq_repI_tree [where t = "ph_meld dl u w"]) (auto simp: ord_ph_meld simp del: fun_upd_apply)
    then show ?thesis
      using c(1) m(1) a(1) prev rt ne mm by (simp add: tq_remove_def)
  qed
qed

lemma tq_remove_rep:
  assumes rep: "tq_rep dl q S"
  shows "\<exists>q'. tq_remove dl x q = Some (x \<in> S, q') \<and> tq_rep dl q' (S - {x})"
proof (cases "x \<in> S")
  case True
  then obtain r where r: "tq_root q = Some r" using rep by (auto simp: tq_rep_def split: option.splits)
  show ?thesis
  proof (cases "x = r")
    case eq: True
    then show ?thesis using tq_pop_root_rep [OF rep r] r True by (auto simp: tq_remove_def)
  next
    case False
    then show ?thesis using tq_remove_inner [OF rep True r] True by auto
  qed
next
  case False
  then have "tq_root q \<noteq> Some x" using tq_rep_root_Some(1) [OF rep] by blast
  then show ?thesis
    using False rep tq_rep_unlinked [OF rep False] by (simp add: tq_remove_def)
qed

lemma tq_take_ready_timers_rep:
  assumes "tq_rep dl q S" "il_rep lst xs" "set xs \<inter> S = {}"
  shows "\<exists>q' lst' ys. tq_take_ready_timers dl now q lst = Some (q', lst') \<and>
    tq_rep dl q' {x \<in> S. now < dl x} \<and> il_rep lst' (xs @ ys) \<and>
    set ys = {x \<in> S. dl x \<le> now} \<and> distinct ys \<and> sorted (map dl ys)"
  using tq_rep_finite [OF assms(1)] assms
proof (induction S arbitrary: q lst xs rule: finite_remove_induct)
  case empty
  then show ?case using tq_rep_Nil by (auto simp: tq_take_ready_timers.simps [of dl now q])
next
  case (remove S)
  obtain r where r: "tq_root q = Some r"
    using remove.prems(1) remove.hyps by (auto simp: tq_rep_def split: option.splits)
  note rr = tq_rep_root_Some [OF remove.prems(1) r]
  show ?case
  proof (cases "dl r \<le> now")
    case False
    then have "{x \<in> S. now < dl x} = S" "{x \<in> S. dl x \<le> now} = {}" using rr(2) by fastforce+
    then show ?thesis
      using False remove.prems r
      by (auto simp: tq_take_ready_timers.simps [of dl now q] intro!: exI [of _ "[]"])
  next
    case True
    obtain q1 where q1: "tq_pop_root dl q = Some (r, q1)" "tq_rep dl q1 (S - {r})"
      using tq_pop_root_rep [OF remove.prems(1) r] by blast
    have "il_rep (il_push_back r lst) (xs @ [r])"
      using remove.prems rr(1) by (intro il_rep_push_back) auto
    moreover have "set (xs @ [r]) \<inter> (S - {r}) = {}" using remove.prems(3) by auto
    ultimately obtain q' lst' ys where
      ih: "tq_take_ready_timers dl now q1 (il_push_back r lst) = Some (q', lst')"
      "tq_rep dl q' {x \<in> S - {r}. now < dl x}" "il_rep lst' ((xs @ [r]) @ ys)"
      "set ys = {x \<in> S - {r}. dl x \<le> now}" "distinct ys" "sorted (map dl ys)"
      using remove.IH [OF rr(1) q1(2)] by blast
    have "{x \<in> S - {r}. now < dl x} = {x \<in> S. now < dl x}" using True by auto
    moreover have "set (r # ys) = {x \<in> S. dl x \<le> now}" using ih(4) True rr(1) by auto
    moreover have "sorted (map dl (r # ys))" using ih(4,6) rr(2) by auto
    moreover have "distinct (r # ys)" using ih(4,5) by auto
    ultimately show ?thesis
      using ih(1-3) q1(1) r True
      by (auto simp: tq_take_ready_timers.simps [of dl now q] intro!: exI [of _ "r # ys"])
  qed
qed

section \<open>The interface of the event loop to its timers\<close>

text \<open>
  What the event loop relies on: adding tells whether the new timer is now the earliest (only then
  is the consumer woken), removing tells whether the timer was still there (only then does the
  canceller complete the operation), and \<open>earliest\<close> bounds the wait.
\<close>

locale timer_set =
  fixes dl :: "addr \<Rightarrow> int"
    and rep :: "'q \<Rightarrow> addr set \<Rightarrow> bool"
    and add :: "addr \<Rightarrow> 'q \<Rightarrow> bool \<times> 'q"
    and remove :: "addr \<Rightarrow> 'q \<Rightarrow> (bool \<times> 'q) option"
    and earliest :: "'q \<Rightarrow> int option"
  assumes add_rep: "rep q S \<Longrightarrow> x \<notin> S \<Longrightarrow> rep (snd (add x q)) (insert x S)"
    and add_first: "rep q S \<Longrightarrow> x \<notin> S \<Longrightarrow> fst (add x q) = (\<forall>y \<in> S. dl x < dl y)"
    and remove_rep: "rep q S \<Longrightarrow> \<exists>q'. remove x q = Some (x \<in> S, q') \<and> rep q' (S - {x})"
    and earliest_rep: "rep q S \<Longrightarrow> earliest q = (if S = {} then None else Some (Min (dl ` S)))"
    and rep_finite: "rep q S \<Longrightarrow> finite S"
begin

lemma add_wakes:
  assumes "rep q S" "x \<notin> S"
  shows "earliest (snd (add x q)) = (if fst (add x q) then Some (dl x) else earliest q)"
proof -
  have fin: "finite (dl ` S)" using rep_finite [OF assms(1)] by simp
  have e: "earliest (snd (add x q)) = Some (Min (dl ` insert x S))"
    using earliest_rep [OF add_rep [OF assms]] by simp
  show ?thesis
  proof (cases "fst (add x q)")
    case True
    then have "\<forall>y \<in> S. dl x < dl y" using add_first [OF assms] by simp
    then have "Min (dl ` insert x S) = dl x"
      using fin by (intro Min_eqI) (auto intro: less_imp_le)
    then show ?thesis using e True by simp
  next
    case False
    then obtain y where y: "y \<in> S" "dl y \<le> dl x" using add_first [OF assms] not_less by blast
    then have "Min (dl ` S) \<le> dl x" using fin by (meson Min_le imageI order_trans)
    then have "Min (dl ` insert x S) = Min (dl ` S)"
      using fin y(1) by (subst image_insert, subst Min_insert) (auto simp: min_def)
    then show ?thesis using e False earliest_rep [OF assms(1)] y(1) by auto
  qed
qed

lemma add_remove:
  assumes "rep q S" "x \<notin> S"
  shows "\<exists>q'. remove x (snd (add x q)) = Some (True, q') \<and> rep q' S"
  using remove_rep [OF add_rep [OF assms], of x] assms(2) by auto

text \<open>Of two removals of the same timer at most one succeeds.\<close>

lemma remove_once:
  assumes "rep q S" "remove x q = Some (b, q')"
  shows "\<exists>q''. remove x q' = Some (False, q'')"
  using remove_rep [OF assms(1), of x] remove_rep [of q' "S - {x}" x] assms(2) by auto

end

interpretation tms: timer_set dl "tq_rep dl" "tq_add dl" "tq_remove dl" "tq_earliest dl"
  for dl :: "addr \<Rightarrow> int"
  by unfold_locales
    (auto intro: tq_add_rep(1) tq_rep_finite simp: tq_add_rep(2) tq_remove_rep tq_earliest_rep)

section \<open>Properties\<close>

text \<open>C2. Collecting the due timers returns, for every well-formed pairing heap; it appends to the
  given list exactly the timers whose deadline is not after now, each once and in deadline order,
  and leaves exactly the others in the heap.\<close>

theorem take_ready_timers_correct:
  assumes "tq_rep dl q S" "il_rep lst xs" "set xs \<inter> S = {}"
  shows "\<exists>q' lst' ys. tq_take_ready_timers dl now q lst = Some (q', lst') \<and>
    tq_rep dl q' {x \<in> S. now < dl x} \<and> il_rep lst' (xs @ ys) \<and>
    set ys = {x \<in> S. dl x \<le> now} \<and> distinct ys \<and> sorted (map dl ys)"
  by (rule tq_take_ready_timers_rep [OF assms])

lemma tq_two_timers:
  "tq_rep int (snd (tq_add int 4 (snd (tq_add int 9 tq_empty)))) {4, 9}"
  using tq_add_rep(1) [OF tq_add_rep(1) [OF tq_rep_empty, of 9 int], of 4] by simp

theorem take_ready_timers_correct_witness:
  "\<exists>q' lst' ys. tq_take_ready_timers int 5 (snd (tq_add int 4 (snd (tq_add int 9 tq_empty))))
      (\<lambda>_. None, il_empty_list) = Some (q', lst') \<and>
    tq_rep int q' {x \<in> {4, 9}. 5 < int x} \<and> il_rep lst' ([] @ ys) \<and>
    set ys = {x \<in> {4, 9}. int x \<le> 5} \<and> distinct ys \<and> sorted (map int ys)"
  by (rule take_ready_timers_correct [OF tq_two_timers il_rep_empty]) simp

text \<open>Removing a timer returns true exactly when the timer is still in the heap, whatever its
  position; afterwards it is out, every other timer is still in, and the heap is well formed.\<close>

lemma timer_remove_correct:
  assumes "tq_rep dl q S"
  shows "\<exists>q'. tq_remove dl x q = Some (x \<in> S, q') \<and> tq_rep dl q' (S - {x})"
  by (rule tq_remove_rep [OF assms])

text \<open>\<open>add\<close> asks for a wake-up exactly when the earliest deadline changes: if it returns true the
  earliest deadline is now the new one, otherwise it is the one from before.\<close>

lemma timer_add_earliest:
  assumes "tq_rep dl q S" "x \<notin> S"
  shows "tq_rep dl (snd (tq_add dl x q)) (insert x S) \<and>
    tq_earliest dl (snd (tq_add dl x q)) =
      (if fst (tq_add dl x q) then Some (dl x) else tq_earliest dl q)"
  using tms.add_rep [OF assms] tms.add_wakes [OF assms] by blast+

end
