(* ===== verification/Op_Phase.thy ===== *)
theory Op_Phase
  imports Prelude
begin

text \<open>
  The life of one asynchronous operation: \<open>operation_state\<close> of \<open>include/coio/execution_context.h\<close>.
  Three threads meet in it: the starter (in \<open>start\<close>), a canceller (in \<open>request_cancel\<close>, run by the stop
  callback) and the event loop (the backend), which takes a registered operation when it is ready.
  They agree on who posts the operation to the queue through the atomic \<open>phase_\<close>.

  The backend and \<open>do_cancel\<close> compete for the operation in a structure protected by a lock (the timer
  heap, or the slot of a file descriptor): whoever removes it there publishes it. \<open>os_registered\<close>
  stands for that structure; that a removal succeeds at most once is proved for the timer heap in
  \<open>Timer_Queue\<close>. Each transition below is one atomic action.
\<close>

datatype operation_phase = Starting | Armed | CancelDeferred | Completed

datatype start_result = ResCompleted | ResPending

text \<open>Where the starter is: the labels name the action it performs next.\<close>

datatype start_pc =
    SNew | SDoStart | SPublish | SPost | SArm | SDoCancel | SCancelPublish | SRearm | SDone

datatype cancel_pc = CIdle | CLoad | CCas operation_phase | CDoCancel | CPublish | CPost | CDone

datatype backend_pc = BIdle | BPublish | BPost | BDone

record op_state =
  os_phase :: operation_phase
  os_start :: start_pc
  os_cancel :: cancel_pc
  os_backend :: backend_pc
  os_registered :: bool
  os_posts :: nat
  os_assert_failed :: bool
  os_finished :: bool

definition op_new :: op_state where
  "op_new = \<lparr>os_phase = Starting, os_start = SNew, os_cancel = CIdle, os_backend = BIdle,
     os_registered = False, os_posts = 0, os_assert_failed = False, os_finished = False\<rparr>"

text \<open>
  \<open>publish\<close>: exchange the phase; the caller must post when the previous phase was \<open>armed\<close>.
\<close>

definition op_publish :: "op_state \<Rightarrow> bool \<times> op_state" where
  "op_publish s = (os_phase s = Armed,
     s\<lparr>os_phase := Completed, os_assert_failed := os_assert_failed s \<or> os_phase s = Completed\<rparr>)"

text \<open>\<open>immediately_post\<close>.\<close>

definition op_post :: "op_state \<Rightarrow> op_state" where
  "op_post s = s\<lparr>os_posts := os_posts s + 1\<rparr>"

text \<open>\<open>do_start\<close>, seen from the protocol: complete at once, or register and stay pending.\<close>

definition op_do_start :: "start_result \<Rightarrow> op_state \<Rightarrow> op_state" where
  "op_do_start r s =
     (case r of
        ResCompleted \<Rightarrow> s\<lparr>os_start := SPublish\<rparr>
      | ResPending \<Rightarrow> s\<lparr>os_registered := True, os_start := SArm\<rparr>)"

text \<open>The first compare-exchange of \<open>start\<close> and what follows its outcome.\<close>

definition op_arm :: "op_state \<Rightarrow> op_state" where
  "op_arm s =
     (if os_phase s = Starting then s\<lparr>os_phase := Armed, os_start := SDone\<rparr>
      else if os_phase s = CancelDeferred then s\<lparr>os_start := SDoCancel\<rparr>
      else s\<lparr>os_assert_failed := os_assert_failed s \<or> os_phase s \<noteq> Completed, os_start := SPost\<rparr>)"

text \<open>The second compare-exchange, after the deferred cancellation has been carried out.\<close>

definition op_rearm :: "op_state \<Rightarrow> op_state" where
  "op_rearm s =
     (if os_phase s = CancelDeferred then s\<lparr>os_phase := Armed, os_start := SDone\<rparr>
      else s\<lparr>os_assert_failed := os_assert_failed s \<or> os_phase s \<noteq> Completed, os_start := SPost\<rparr>)"

text \<open>
  \<open>request_cancel\<close> after the load: the loop condition and the branch behind the loop, for the value
  \<open>ph\<close> last seen; \<open>spurious\<close> says whether the weak compare-exchange fails although it could succeed.
\<close>

definition op_cancel_cas :: "bool \<Rightarrow> operation_phase \<Rightarrow> op_state \<Rightarrow> op_state" where
  "op_cancel_cas spurious ph s =
     (if ph = Starting then
        (if os_phase s = Starting \<and> \<not> spurious
         then s\<lparr>os_phase := CancelDeferred, os_cancel := CDone\<rparr>
         else s\<lparr>os_cancel := CCas (os_phase s)\<rparr>)
      else if ph = Armed then s\<lparr>os_cancel := CDoCancel\<rparr>
      else s\<lparr>os_cancel := CDone\<rparr>)"

inductive op_step :: "op_state \<Rightarrow> op_state \<Rightarrow> bool" where
  start: "os_start s = SNew \<Longrightarrow> op_step s (s\<lparr>os_start := SDoStart\<rparr>)"
| do_start: "os_start s = SDoStart \<Longrightarrow> op_step s (op_do_start r s)"
| start_publish: "os_start s = SPublish \<Longrightarrow> op_publish s = (post, t) \<Longrightarrow>
    op_step s ((if post then op_post t else t)\<lparr>os_start := SPost\<rparr>)"
| start_post: "os_start s = SPost \<Longrightarrow> op_step s ((op_post s)\<lparr>os_start := SDone\<rparr>)"
| arm: "os_start s = SArm \<Longrightarrow> op_step s (op_arm s)"
| start_do_cancel: "os_start s = SDoCancel \<Longrightarrow>
    op_step s (if os_registered s then s\<lparr>os_registered := False, os_start := SCancelPublish\<rparr>
      else s\<lparr>os_start := SRearm\<rparr>)"
| start_cancel_publish: "os_start s = SCancelPublish \<Longrightarrow> op_publish s = (post, t) \<Longrightarrow>
    op_step s ((if post then op_post t else t)\<lparr>os_start := SRearm\<rparr>)"
| rearm: "os_start s = SRearm \<Longrightarrow> op_step s (op_rearm s)"
| cancel_begin: "os_cancel s = CIdle \<Longrightarrow> os_start s \<noteq> SNew \<Longrightarrow> \<not> os_finished s \<Longrightarrow>
    op_step s (s\<lparr>os_cancel := CLoad\<rparr>)"
| cancel_load: "os_cancel s = CLoad \<Longrightarrow> op_step s (s\<lparr>os_cancel := CCas (os_phase s)\<rparr>)"
| cancel_cas: "os_cancel s = CCas ph \<Longrightarrow> op_step s (op_cancel_cas spurious ph s)"
| do_cancel: "os_cancel s = CDoCancel \<Longrightarrow>
    op_step s (if os_registered s then s\<lparr>os_registered := False, os_cancel := CPublish\<rparr>
      else s\<lparr>os_cancel := CDone\<rparr>)"
| cancel_publish: "os_cancel s = CPublish \<Longrightarrow> op_publish s = (post, t) \<Longrightarrow>
    op_step s (t\<lparr>os_cancel := (if post then CPost else CDone)\<rparr>)"
| cancel_post: "os_cancel s = CPost \<Longrightarrow> op_step s ((op_post s)\<lparr>os_cancel := CDone\<rparr>)"
| backend_take: "os_registered s \<Longrightarrow> os_backend s = BIdle \<Longrightarrow>
    op_step s (s\<lparr>os_registered := False, os_backend := BPublish\<rparr>)"
| backend_publish: "os_backend s = BPublish \<Longrightarrow> op_publish s = (post, t) \<Longrightarrow>
    op_step s (t\<lparr>os_backend := (if post then BPost else BDone)\<rparr>)"
| backend_post: "os_backend s = BPost \<Longrightarrow> op_step s ((op_post s)\<lparr>os_backend := BDone\<rparr>)"
| finish: "os_posts s > 0 \<Longrightarrow> \<not> os_finished s \<Longrightarrow> os_cancel s \<in> {CIdle, CDone} \<Longrightarrow>
    op_step s (s\<lparr>os_finished := True\<rparr>)"

inductive op_reachable :: "op_state \<Rightarrow> bool" where
  new: "op_reachable op_new"
| step: "op_reachable s \<Longrightarrow> op_step s t \<Longrightarrow> op_reachable t"

section \<open>The invariant\<close>

text \<open>
  \<open>tokens\<close> counts the places where the duty to publish can be; once \<open>do_start\<close> has run there is
  exactly one. \<open>post_duty\<close> counts the posts done and owed; there is one exactly when the phase is
  \<open>completed\<close>.
\<close>

definition tokens :: "op_state \<Rightarrow> nat" where
  "tokens s = of_bool (os_registered s) + of_bool (os_start s = SPublish) +
     of_bool (os_start s = SCancelPublish) + of_bool (os_cancel s = CPublish) +
     of_bool (os_backend s = BPublish) + of_bool (os_phase s = Completed)"

definition post_duty :: "op_state \<Rightarrow> nat" where
  "post_duty s = os_posts s + of_bool (os_start s = SPost) + of_bool (os_cancel s = CPost) +
     of_bool (os_backend s = BPost) +
     of_bool (os_phase s = Completed \<and> os_start s \<in> {SArm, SDoCancel, SRearm})"

definition phase_ok :: "op_state \<Rightarrow> bool" where
  "phase_ok s \<longleftrightarrow>
     (case os_start s of
        SNew \<Rightarrow> os_phase s = Starting \<and> os_cancel s = CIdle
      | SDoStart \<Rightarrow> os_phase s \<in> {Starting, CancelDeferred}
      | SPublish \<Rightarrow> os_phase s \<in> {Starting, CancelDeferred}
      | SPost \<Rightarrow> os_phase s = Completed
      | SArm \<Rightarrow> os_phase s \<noteq> Armed
      | SDoCancel \<Rightarrow> os_phase s \<in> {CancelDeferred, Completed}
      | SCancelPublish \<Rightarrow> os_phase s = CancelDeferred
      | SRearm \<Rightarrow> os_phase s \<in> {CancelDeferred, Completed} \<and> \<not> os_registered s
      | SDone \<Rightarrow> os_phase s \<in> {Armed, Completed})"

text \<open>A thread past the point where it saw \<open>armed\<close> knows that the starter has returned.\<close>

definition returned_ok :: "op_state \<Rightarrow> bool" where
  "returned_ok s \<longleftrightarrow>
     (os_cancel s \<in> {CCas Armed, CDoCancel, CPublish, CPost} \<or> os_backend s = BPost \<or> os_posts s > 0 \<longrightarrow>
        os_start s = SDone)"

text \<open>
  What is left for a cancellation that has been carried out, and what a second look at the phase
  can show the canceller.
\<close>

definition cancel_ok :: "op_state \<Rightarrow> bool" where
  "cancel_ok s \<longleftrightarrow>
     (os_cancel s = CDone \<longrightarrow> os_phase s \<noteq> Starting \<and> (os_phase s = Armed \<longrightarrow> \<not> os_registered s)) \<and>
     (os_phase s = CancelDeferred \<longrightarrow> os_cancel s = CDone) \<and>
     os_cancel s \<noteq> CCas CancelDeferred \<and>
     (os_cancel s = CCas Completed \<longrightarrow> os_phase s = Completed) \<and>
     (os_finished s \<longrightarrow> os_posts s > 0 \<and> os_cancel s \<in> {CIdle, CDone})"

definition op_inv :: "op_state \<Rightarrow> bool" where
  "op_inv s \<longleftrightarrow> \<not> os_assert_failed s \<and>
     tokens s = of_bool (os_start s \<notin> {SNew, SDoStart}) \<and>
     post_duty s = of_bool (os_phase s = Completed) \<and> phase_ok s \<and> returned_ok s \<and> cancel_ok s"

lemmas op_inv_defs = op_inv_def tokens_def post_duty_def phase_ok_def returned_ok_def cancel_ok_def

lemmas op_action_defs = op_publish_def op_post_def op_do_start_def op_arm_def op_rearm_def
  op_cancel_cas_def

lemma op_inv_new: "op_inv op_new"
  by (simp add: op_inv_defs op_new_def)

text \<open>One lemma per thread, each a case distinction over what the other threads can be doing.\<close>

lemma op_inv_cases:
  assumes "op_inv s"
  shows "\<not> os_assert_failed s" "tokens s = of_bool (os_start s \<notin> {SNew, SDoStart})"
    "post_duty s = of_bool (os_phase s = Completed)" "phase_ok s" "returned_ok s" "cancel_ok s"
  using assms by (simp_all add: op_inv_def)

lemma of_bool_eq_Suc_0 [simp]: "(of_bool P :: nat) = Suc 0 \<longleftrightarrow> P"
  by simp

lemma inv_start: "op_inv s \<Longrightarrow> os_start s = SNew \<Longrightarrow> op_inv (s\<lparr>os_start := SDoStart\<rparr>)"
  by (auto simp: op_inv_defs op_action_defs)

lemma inv_do_start: "op_inv s \<Longrightarrow> os_start s = SDoStart \<Longrightarrow> op_inv (op_do_start r s)"
  by (cases r; auto simp: op_inv_defs op_action_defs)

lemma inv_arm: "op_inv s \<Longrightarrow> os_start s = SArm \<Longrightarrow> op_inv (op_arm s)"
  by (cases "os_phase s"; auto simp: op_inv_defs op_action_defs)

lemma inv_rearm: "op_inv s \<Longrightarrow> os_start s = SRearm \<Longrightarrow> op_inv (op_rearm s)"
  by (cases "os_phase s"; auto simp: op_inv_defs op_action_defs)

lemma inv_start_post: "op_inv s \<Longrightarrow> os_start s = SPost \<Longrightarrow> op_inv ((op_post s)\<lparr>os_start := SDone\<rparr>)"
  by (auto simp: op_inv_defs op_action_defs)

lemma inv_start_publish: "op_inv s \<Longrightarrow> os_start s = SPublish \<Longrightarrow> op_publish s = (post, t) \<Longrightarrow>
  op_inv ((if post then op_post t else t)\<lparr>os_start := SPost\<rparr>)"
  by (cases "os_phase s"; auto simp: op_inv_defs op_action_defs)

lemma inv_start_do_cancel: "op_inv s \<Longrightarrow> os_start s = SDoCancel \<Longrightarrow> op_inv (if os_registered s then s\<lparr>os_registered := False, os_start := SCancelPublish\<rparr>
      else s\<lparr>os_start := SRearm\<rparr>)"
  by (cases "os_phase s"; cases "os_registered s"; auto simp: op_inv_defs op_action_defs)

lemma inv_start_cancel_publish: "op_inv s \<Longrightarrow> os_start s = SCancelPublish \<Longrightarrow> op_publish s = (post, t) \<Longrightarrow>
  op_inv ((if post then op_post t else t)\<lparr>os_start := SRearm\<rparr>)"
  by (cases "os_phase s"; auto simp: op_inv_defs op_action_defs)

lemma inv_cancel_begin: "op_inv s \<Longrightarrow> os_cancel s = CIdle \<Longrightarrow> os_start s \<noteq> SNew \<Longrightarrow> \<not> os_finished s \<Longrightarrow> op_inv (s\<lparr>os_cancel := CLoad\<rparr>)"
  by (cases "os_start s"; auto simp: op_inv_defs op_action_defs)

lemma inv_cancel_load: "op_inv s \<Longrightarrow> os_cancel s = CLoad \<Longrightarrow> op_inv (s\<lparr>os_cancel := CCas (os_phase s)\<rparr>)"
  by (cases "os_start s"; cases "os_phase s"; auto simp: op_inv_defs op_action_defs)

lemma inv_cancel_cas: "op_inv s \<Longrightarrow> os_cancel s = CCas ph \<Longrightarrow> op_inv (op_cancel_cas spurious ph s)"
  by (cases ph; cases "os_phase s"; cases spurious; auto simp: op_inv_defs op_action_defs split: start_pc.splits)

lemma inv_do_cancel: "op_inv s \<Longrightarrow> os_cancel s = CDoCancel \<Longrightarrow> op_inv (if os_registered s then s\<lparr>os_registered := False, os_cancel := CPublish\<rparr>
      else s\<lparr>os_cancel := CDone\<rparr>)"
  by (cases "os_phase s"; cases "os_registered s"; auto simp: op_inv_defs op_action_defs)

lemma inv_cancel_publish: "op_inv s \<Longrightarrow> os_cancel s = CPublish \<Longrightarrow> op_publish s = (post, t) \<Longrightarrow>
  op_inv (t\<lparr>os_cancel := (if post then CPost else CDone)\<rparr>)"
  by (cases "os_phase s"; auto simp: op_inv_defs op_action_defs)

lemma inv_cancel_post: "op_inv s \<Longrightarrow> os_cancel s = CPost \<Longrightarrow> op_inv ((op_post s)\<lparr>os_cancel := CDone\<rparr>)"
  by (auto simp: op_inv_defs op_action_defs)

lemma inv_backend_take: "op_inv s \<Longrightarrow> os_registered s \<Longrightarrow> os_backend s = BIdle \<Longrightarrow> op_inv (s\<lparr>os_registered := False, os_backend := BPublish\<rparr>)"
  by (cases "os_start s"; auto simp: op_inv_defs op_action_defs)

lemma backend_publish_alone: "op_inv s \<Longrightarrow> os_backend s = BPublish \<Longrightarrow>
  \<not> os_registered s \<and> os_cancel s \<noteq> CPublish \<and> os_phase s \<noteq> Completed \<and>
  os_start s \<in> {SArm, SDoCancel, SRearm, SDone} \<and> os_posts s = 0 \<and> os_cancel s \<noteq> CPost"
  by (cases "os_start s"; cases "os_phase s"; simp add: op_inv_def tokens_def post_duty_def phase_ok_def)

lemma inv_backend_publish: assumes "op_inv s" "os_backend s = BPublish" "op_publish s = (post, t)" shows
  "op_inv (t\<lparr>os_backend := (if post then BPost else BDone)\<rparr>)"
proof -
  have t: "post = (os_phase s = Armed)" "t = s\<lparr>os_phase := Completed, os_assert_failed := os_assert_failed s \<or> os_phase s = Completed\<rparr>"
    using assms(3) by (simp_all add: op_publish_def)
  note f = backend_publish_alone [OF assms(1,2)]
  show ?thesis
    using assms(1,2) f unfolding t
    by (cases "os_start s"; cases "os_phase s"; simp add: op_inv_def tokens_def post_duty_def phase_ok_def; auto simp: returned_ok_def cancel_ok_def)
qed

lemma inv_backend_post: "op_inv s \<Longrightarrow> os_backend s = BPost \<Longrightarrow> op_inv ((op_post s)\<lparr>os_backend := BDone\<rparr>)"
  by (cases "os_start s"; auto simp: op_inv_defs op_action_defs)

lemma inv_finish: "op_inv s \<Longrightarrow> os_posts s > 0 \<Longrightarrow> \<not> os_finished s \<Longrightarrow> os_cancel s \<in> {CIdle, CDone} \<Longrightarrow> op_inv (s\<lparr>os_finished := True\<rparr>)"
  by (cases "os_phase s"; auto simp: op_inv_defs op_action_defs)

lemma op_step_inv:
  assumes "op_step s t" and "op_inv s"
  shows "op_inv t"
  using assms(1)
proof cases
  case start
  then show ?thesis using inv_start [OF assms(2)] by metis
next
  case do_start
  then show ?thesis using inv_do_start [OF assms(2)] by metis
next
  case start_publish
  then show ?thesis using inv_start_publish [OF assms(2)] by metis
next
  case start_post
  then show ?thesis using inv_start_post [OF assms(2)] by metis
next
  case arm
  then show ?thesis using inv_arm [OF assms(2)] by metis
next
  case start_do_cancel
  then show ?thesis using inv_start_do_cancel [OF assms(2)] by metis
next
  case start_cancel_publish
  then show ?thesis using inv_start_cancel_publish [OF assms(2)] by metis
next
  case rearm
  then show ?thesis using inv_rearm [OF assms(2)] by metis
next
  case cancel_begin
  then show ?thesis using inv_cancel_begin [OF assms(2)] by metis
next
  case cancel_load
  then show ?thesis using inv_cancel_load [OF assms(2)] by metis
next
  case cancel_cas
  then show ?thesis using inv_cancel_cas [OF assms(2)] by metis
next
  case do_cancel
  then show ?thesis using inv_do_cancel [OF assms(2)] by metis
next
  case cancel_publish
  then show ?thesis using inv_cancel_publish [OF assms(2)] by metis
next
  case cancel_post
  then show ?thesis using inv_cancel_post [OF assms(2)] by metis
next
  case backend_take
  then show ?thesis using inv_backend_take [OF assms(2)] by metis
next
  case backend_publish
  then show ?thesis using inv_backend_publish [OF assms(2)] by metis
next
  case backend_post
  then show ?thesis using inv_backend_post [OF assms(2)] by metis
next
  case finish
  then show ?thesis using inv_finish [OF assms(2)] by metis
qed

lemma op_reachable_inv: "op_reachable s \<Longrightarrow> op_inv s"
  by (induction rule: op_reachable.induct) (auto intro: op_inv_new op_step_inv)

section \<open>Properties\<close>

lemma op_posted_facts:
  assumes inv: "op_inv s" and pos: "os_posts s > 0"
  shows "os_posts s = 1 \<and> os_start s = SDone \<and> os_phase s = Completed \<and> \<not> os_registered s \<and>
    os_backend s \<in> {BIdle, BDone} \<and> os_cancel s \<notin> {CPublish, CPost}"
proof -
  note f = op_inv_cases [OF inv]
  have start: "os_start s = SDone" using f(5) pos by (simp add: returned_ok_def)
  have phase: "os_phase s = Completed"
    using f(3) pos by (cases "os_phase s = Completed") (auto simp: post_duty_def)
  have post: "os_posts s = 1" "os_cancel s \<noteq> CPost" "os_backend s \<noteq> BPost"
    using f(3) pos start phase by (auto simp: post_duty_def)
  have "\<not> os_registered s" "os_cancel s \<noteq> CPublish" "os_backend s \<noteq> BPublish"
    using f(2) start phase by (auto simp: tokens_def)
  then show ?thesis using start phase post by (cases "os_backend s") auto
qed

lemma op_quiet_posted:
  assumes inv: "op_inv s" and "os_start s = SDone" and "os_cancel s \<in> {CIdle, CDone}"
    and "os_backend s \<in> {BIdle, BDone}" and "\<not> os_registered s"
  shows "os_posts s = 1"
  using op_inv_cases [OF inv] assms by (auto simp: tokens_def post_duty_def)

lemma op_cancelled:
  assumes inv: "op_inv s" and "os_start s = SDone" and "os_cancel s = CDone"
  shows "\<not> os_registered s"
proof
  assume reg: "os_registered s"
  note f = op_inv_cases [OF inv]
  have "os_phase s \<noteq> Completed" using f(2) reg assms(2) by (auto simp: tokens_def)
  moreover have "os_phase s \<in> {Armed, Completed}" using f(4) assms(2) by (simp add: phase_ok_def)
  ultimately show False using f(6) assms(3) reg by (simp add: cancel_ok_def)
qed

text \<open>A deferred cancellation: the canceller arrives before the starter has armed the operation.\<close>

definition op_deferred_run :: "op_state list" where
  "op_deferred_run =
    (let s1 = op_new\<lparr>os_start := SDoStart\<rparr>; s2 = op_do_start ResPending s1;
         s3 = s2\<lparr>os_cancel := CLoad\<rparr>; s4 = s3\<lparr>os_cancel := CCas (os_phase s3)\<rparr>;
         s5 = op_cancel_cas False Starting s4; s6 = op_arm s5;
         s7 = s6\<lparr>os_registered := False, os_start := SCancelPublish\<rparr>;
         s8 = (snd (op_publish s7))\<lparr>os_start := SRearm\<rparr>; s9 = op_rearm s8;
         s10 = (op_post s9)\<lparr>os_start := SDone\<rparr>
     in [s1, s2, s3, s4, s5, s6, s7, s8, s9, s10])"

lemma op_deferred_run_reachable: "op_reachable (last op_deferred_run)"
proof -
  define s1 where "s1 = op_new\<lparr>os_start := SDoStart\<rparr>"
  define s2 where "s2 = op_do_start ResPending s1"
  define s3 where "s3 = s2\<lparr>os_cancel := CLoad\<rparr>"
  define s4 where "s4 = s3\<lparr>os_cancel := CCas (os_phase s3)\<rparr>"
  define s5 where "s5 = op_cancel_cas False Starting s4"
  define s6 where "s6 = op_arm s5"
  define s7 where "s7 = s6\<lparr>os_registered := False, os_start := SCancelPublish\<rparr>"
  define s8 where "s8 = (snd (op_publish s7))\<lparr>os_start := SRearm\<rparr>"
  define s9 where "s9 = op_rearm s8"
  note d = s9_def s8_def s7_def s6_def s5_def s4_def s3_def s2_def s1_def op_new_def op_action_defs
  have "op_step op_new s1" unfolding s1_def by (rule op_step.start) (simp add: op_new_def)
  moreover have "op_step s1 s2" unfolding s2_def by (rule op_step.do_start) (simp add: s1_def)
  moreover have "op_step s2 s3" unfolding s3_def by (rule op_step.cancel_begin) (simp_all add: d)
  moreover have "op_step s3 s4" unfolding s4_def by (rule op_step.cancel_load) (simp add: d)
  moreover have "op_step s4 s5" unfolding s5_def by (rule op_step.cancel_cas) (simp add: d)
  moreover have "op_step s5 s6" unfolding s6_def by (rule op_step.arm) (simp add: d)
  moreover have "op_step s6 s7" using op_step.start_do_cancel [of s6] by (simp add: d)
  moreover have "op_step s7 s8"
    using op_step.start_cancel_publish [of s7 False "snd (op_publish s7)"] by (simp add: d)
  moreover have "op_step s8 s9" unfolding s9_def by (rule op_step.rearm) (simp add: d)
  moreover have "op_step s9 ((op_post s9)\<lparr>os_start := SDone\<rparr>)"
    by (rule op_step.start_post) (simp add: d)
  ultimately have "op_reachable ((op_post s9)\<lparr>os_start := SDone\<rparr>)"
    by (meson op_reachable.intros)
  then show ?thesis
    by (simp add: op_deferred_run_def d Let_def)
qed

section \<open>Properties\<close>

text \<open>C3. In every interleaving of the starter, a canceller and the event loop an operation is posted at
  most once and no assertion of the protocol fails; once it is posted, the starter has returned, the
  phase is \<open>completed\<close>, and neither the event loop nor the canceller is about to publish or post it.\<close>

theorem op_posted_at_most_once:
  assumes "op_reachable s"
  shows "os_posts s \<le> 1 \<and> \<not> os_assert_failed s \<and>
    (os_posts s = 1 \<longrightarrow> os_start s = SDone \<and> os_phase s = Completed \<and> \<not> os_registered s \<and>
       os_backend s \<in> {BIdle, BDone} \<and> os_cancel s \<notin> {CPublish, CPost})"
  using op_posted_facts [OF op_reachable_inv [OF assms]] op_inv_cases(1) [OF op_reachable_inv [OF assms]]
  by (cases "os_posts s = 0") auto

theorem op_posted_at_most_once_witness:
  "os_posts (last op_deferred_run) = 1 \<and> os_phase (last op_deferred_run) = Completed"
proof -
  have "os_posts (last op_deferred_run) = 1"
    by (simp add: op_deferred_run_def op_new_def op_action_defs Let_def)
  then show ?thesis
    using op_posted_at_most_once [OF op_deferred_run_reachable] by simp
qed

text \<open>C4. No completion is lost: when the starter has returned, nobody is in the middle of a transition
  and the operation is no longer registered with the event loop, it has been posted exactly once.
  And a cancellation that has been carried out takes the operation out of the event loop: once the
  starter and the canceller have returned, the operation is not registered any more, whichever of
  them arrived first.\<close>

theorem op_no_lost_completion:
  assumes "op_reachable s" and "os_start s = SDone" and "os_cancel s \<in> {CIdle, CDone}"
    and "os_backend s \<in> {BIdle, BDone}"
  shows "(\<not> os_registered s \<longrightarrow> os_posts s = 1) \<and> (os_cancel s = CDone \<longrightarrow> os_posts s = 1)"
  using op_quiet_posted [OF op_reachable_inv [OF assms(1)] assms(2-4)]
    op_cancelled [OF op_reachable_inv [OF assms(1)] assms(2)] by blast

theorem op_no_lost_completion_witness: "os_posts (last op_deferred_run) = 1"
proof -
  have "os_start (last op_deferred_run) = SDone" "os_cancel (last op_deferred_run) = CDone"
    "os_backend (last op_deferred_run) = BIdle"
    by (simp_all add: op_deferred_run_def op_new_def op_action_defs Let_def)
  then show ?thesis
    using op_no_lost_completion [OF op_deferred_run_reachable] by simp
qed

end
