(* ===== verification/Event_Loop.thy ===== *)
theory Event_Loop
  imports Op_Queue Timer_Queue Op_Phase
begin

text \<open>
  The event loop of \<open>include/coio/execution_context.h\<close>: \<open>loop_base\<close>, its schedule and sleep
  operations, \<open>work_guard\<close>, and the context \<open>time_loop\<close> that is nothing but a loop with timers. The
  operation queue and the timer heap are the pointer structures of \<open>Op_Queue\<close> and \<open>Timer_Queue\<close>;
  both run over the same objects, whose \<open>next_\<close> member is \<^term>\<open>oq_next\<close>.

  The operations are functions on the state of the loop, for the thread that calls them; the races
  between threads are in \<open>Op_Queue_Mpsc\<close> (the queue), \<open>Op_Phase\<close> (an operation) and \<open>Loop_Wakeup\<close>
  (sleeping and waking). A result \<^term>\<open>None\<close> stands for a failed assertion, or for a call that only
  another thread can make return. Completing a receiver is recorded in \<open>lp_log\<close>.
\<close>

datatype completion = SetValue | SetStopped

datatype node_kind = ScheduleNode | TimerNode

record loop =
  lp_ops :: op_queue
  lp_timers :: timer_queue
  lp_work :: size_t
  lp_consumer :: "nat option"
  lp_stop :: bool
  lp_callbacks :: "addr list"
  lp_sema :: nat
  lp_phase :: "addr \<Rightarrow> operation_phase"
  lp_canceled :: "addr \<Rightarrow> bool"
  lp_log :: "(addr \<times> completion) list"
  lp_now :: int

text \<open>What the loop knows of its operations: deadlines, kinds, and the receivers' stop tokens.\<close>

record loop_env =
  le_deadline :: "addr \<Rightarrow> int"
  le_kind :: "addr \<Rightarrow> node_kind"
  le_stop :: "addr \<Rightarrow> bool"

section \<open>Waking the consumer, counting work\<close>

definition loop_interrupt :: "loop \<Rightarrow> loop" where
  "loop_interrupt l = l\<lparr>lp_sema := lp_sema l + 1\<rparr>"

definition loop_wakeup_consumer :: "nat \<Rightarrow> loop \<Rightarrow> loop" where
  "loop_wakeup_consumer tid l = (if lp_consumer l = Some tid then l else loop_interrupt l)"

definition loop_shutdown :: "nat \<Rightarrow> loop \<Rightarrow> loop" where
  "loop_shutdown tid l = loop_wakeup_consumer tid l"

definition loop_work_started :: "loop \<Rightarrow> loop" where
  "loop_work_started l = l\<lparr>lp_work := lp_work l + 1\<rparr>"

definition loop_work_finished :: "nat \<Rightarrow> loop \<Rightarrow> loop" where
  "loop_work_finished tid l =
     (let l = l\<lparr>lp_work := lp_work l - 1\<rparr>
      in if lp_work l = 0 then loop_shutdown tid l else l)"

text \<open>The destructor: \<open>std::terminate\<close> while there is work.\<close>

definition loop_destroy :: "loop \<Rightarrow> error + unit" where
  "loop_destroy l = (if lp_work l \<noteq> 0 then Inl Terminate else Inr ())"

section \<open>Posting and publishing\<close>

definition loop_immediately_post :: "nat \<Rightarrow> addr \<Rightarrow> loop \<Rightarrow> loop option" where
  "loop_immediately_post tid a l =
     (if oq_next (lp_ops l) a \<noteq> None then None
      else
        (case oq_enqueue a (lp_ops l) of
           None \<Rightarrow> None
         | Some q \<Rightarrow> Some (loop_wakeup_consumer tid (l\<lparr>lp_ops := q\<rparr>))))"

definition loop_publish :: "nat \<Rightarrow> addr \<Rightarrow> loop \<Rightarrow> loop option" where
  "loop_publish tid a l =
     (let previous = lp_phase l a; l = l\<lparr>lp_phase := (lp_phase l)(a := Completed)\<rparr>
      in if previous = Completed then None
         else if previous = Armed then loop_immediately_post tid a l
         else Some l)"

text \<open>\<open>publish_pending\<close>: unlink each node of a released list before publishing it.\<close>

definition loop_clear_next :: "addr \<Rightarrow> loop \<Rightarrow> loop" where
  "loop_clear_next a l =
     l\<lparr>lp_ops := (lp_ops l)\<lparr>oq_next := (oq_next (lp_ops l))(a := None)\<rparr>\<rparr>"

partial_function (option) loop_publish_pending :: "nat \<Rightarrow> loop \<Rightarrow> ptr \<Rightarrow> loop option" where
  "loop_publish_pending tid l op =
     (case op of
        None \<Rightarrow> Some l
      | Some a \<Rightarrow>
          (case loop_publish tid a (loop_clear_next a l) of
             None \<Rightarrow> None
           | Some l' \<Rightarrow> loop_publish_pending tid l' (oq_next (lp_ops l) a)))"

section \<open>The schedule and sleep operations\<close>

definition schedule_start :: "nat \<Rightarrow> addr \<Rightarrow> loop \<Rightarrow> loop option" where
  "schedule_start tid a l = loop_immediately_post tid a (loop_work_started l)"

definition schedule_finish :: "loop_env \<Rightarrow> nat \<Rightarrow> addr \<Rightarrow> loop \<Rightarrow> loop" where
  "schedule_finish e tid a l =
     (let l = loop_work_finished tid l
      in l\<lparr>lp_log := lp_log l @ [(a, if le_stop e a then SetStopped else SetValue)]\<rparr>)"

definition sleep_do_start :: "loop_env \<Rightarrow> nat \<Rightarrow> addr \<Rightarrow> loop \<Rightarrow> start_result \<times> loop" where
  "sleep_do_start e tid a l =
     (let (first, q) = tq_add (le_deadline e) a (lp_timers l);
          l = l\<lparr>lp_timers := q\<rparr>
      in (ResPending, if first then loop_wakeup_consumer tid l else l))"

definition sleep_do_cancel :: "loop_env \<Rightarrow> nat \<Rightarrow> addr \<Rightarrow> loop \<Rightarrow> loop option" where
  "sleep_do_cancel e tid a l =
     (case tq_remove (le_deadline e) a (lp_timers l) of
        None \<Rightarrow> None
      | Some (found, q) \<Rightarrow>
          let l = l\<lparr>lp_timers := q\<rparr>
          in if found then loop_publish tid a (l\<lparr>lp_canceled := (lp_canceled l)(a := True)\<rparr>)
             else Some l)"

definition sleep_request_cancel :: "loop_env \<Rightarrow> nat \<Rightarrow> addr \<Rightarrow> loop \<Rightarrow> loop option" where
  "sleep_request_cancel e tid a l =
     (case lp_phase l a of
        Starting \<Rightarrow> Some (l\<lparr>lp_phase := (lp_phase l)(a := CancelDeferred)\<rparr>)
      | Armed \<Rightarrow> sleep_do_cancel e tid a l
      | _ \<Rightarrow> Some l)"

text \<open>
  \<open>start\<close>: registering the stop callback runs it at once when stop has been requested; then the
  timer is added and armed, unless a cancellation has been deferred.
\<close>

definition sleep_register :: "loop_env \<Rightarrow> nat \<Rightarrow> addr \<Rightarrow> loop \<Rightarrow> loop option" where
  "sleep_register e tid a l =
     (if lp_stop l then sleep_request_cancel e tid a l
      else Some (l\<lparr>lp_callbacks := lp_callbacks l @ [a]\<rparr>))"

definition sleep_arm :: "loop_env \<Rightarrow> nat \<Rightarrow> addr \<Rightarrow> loop \<Rightarrow> loop option" where
  "sleep_arm e tid a l =
     (case lp_phase l a of
        Starting \<Rightarrow> Some (l\<lparr>lp_phase := (lp_phase l)(a := Armed)\<rparr>)
      | CancelDeferred \<Rightarrow>
          (case sleep_do_cancel e tid a l of
             None \<Rightarrow> None
           | Some l \<Rightarrow>
               if lp_phase l a = CancelDeferred then Some (l\<lparr>lp_phase := (lp_phase l)(a := Armed)\<rparr>)
               else if lp_phase l a = Completed then loop_immediately_post tid a l
               else None)
      | Completed \<Rightarrow> loop_immediately_post tid a l
      | Armed \<Rightarrow> None)"

definition sleep_start :: "loop_env \<Rightarrow> nat \<Rightarrow> addr \<Rightarrow> loop \<Rightarrow> loop option" where
  "sleep_start e tid a l =
     (case sleep_register e tid a (loop_work_started l) of
        None \<Rightarrow> None
      | Some l \<Rightarrow>
          (case sleep_do_start e tid a l of
             (ResPending, l) \<Rightarrow> sleep_arm e tid a l
           | (ResCompleted, l) \<Rightarrow>
               (case loop_publish tid a l of None \<Rightarrow> None | Some l \<Rightarrow> loop_immediately_post tid a l)))"

definition sleep_finish :: "nat \<Rightarrow> addr \<Rightarrow> loop \<Rightarrow> loop" where
  "sleep_finish tid a l =
     (let l = loop_work_finished tid l;
          l = l\<lparr>lp_callbacks := filter (\<lambda>b. b \<noteq> a) (lp_callbacks l)\<rparr>
      in l\<lparr>lp_log := lp_log l @ [(a, if lp_canceled l a then SetStopped else SetValue)]\<rparr>)"

definition node_finish :: "loop_env \<Rightarrow> nat \<Rightarrow> addr \<Rightarrow> loop \<Rightarrow> loop" where
  "node_finish e tid a l =
     (case le_kind e a of
        ScheduleNode \<Rightarrow> schedule_finish e tid a l
      | TimerNode \<Rightarrow> sleep_finish tid a l)"

text \<open>\<open>request_stop\<close>: the first request runs the registered callbacks, then wakes the consumer.\<close>

fun loop_run_callbacks :: "loop_env \<Rightarrow> nat \<Rightarrow> addr list \<Rightarrow> loop \<Rightarrow> loop option" where
  "loop_run_callbacks e tid [] l = Some l"
| "loop_run_callbacks e tid (a # as) l =
     (case sleep_request_cancel e tid a l of
        None \<Rightarrow> None
      | Some l' \<Rightarrow> loop_run_callbacks e tid as l')"

definition loop_request_stop :: "loop_env \<Rightarrow> nat \<Rightarrow> loop \<Rightarrow> loop option" where
  "loop_request_stop e tid l =
     (if lp_stop l then Some l
      else map_option (loop_shutdown tid)
        (loop_run_callbacks e tid (lp_callbacks l) (l\<lparr>lp_stop := True, lp_callbacks := []\<rparr>)))"

section \<open>Running the loop\<close>

definition loop_consume :: "loop_env \<Rightarrow> nat \<Rightarrow> loop \<Rightarrow> (bool \<times> loop) option" where
  "loop_consume e tid l =
     (case oq_dequeue (lp_ops l) of
        None \<Rightarrow> None
      | Some (None, q) \<Rightarrow> Some (False, l\<lparr>lp_ops := q\<rparr>)
      | Some (Some a, q) \<Rightarrow> Some (True, node_finish e tid a (l\<lparr>lp_ops := q\<rparr>)))"

text \<open>
  The wait of \<open>do_one\<close>: a token of the semaphore is taken when there is one; otherwise the thread
  sleeps, until the earliest deadline if there is a timer.
\<close>

definition time_loop_wait :: "loop_env \<Rightarrow> loop \<Rightarrow> loop option" where
  "time_loop_wait e l =
     (if lp_sema l > 0 then Some (l\<lparr>lp_sema := lp_sema l - 1\<rparr>)
      else
        (case tq_earliest (le_deadline e) (lp_timers l) of
           Some t \<Rightarrow> Some (l\<lparr>lp_now := max (lp_now l) t\<rparr>)
         | None \<Rightarrow> None))"

definition time_loop_take :: "loop_env \<Rightarrow> nat \<Rightarrow> loop \<Rightarrow> loop option" where
  "time_loop_take e tid l =
     (case tq_take_ready_timers (le_deadline e) (lp_now l) (lp_timers l)
             (oq_next (lp_ops l), il_empty_list) of
        None \<Rightarrow> None
      | Some (q, (nx, ready)) \<Rightarrow>
          loop_publish_pending tid
            (l\<lparr>lp_timers := q, lp_ops := (lp_ops l)\<lparr>oq_next := nx\<rparr>\<rparr>) (fst (il_release ready)))"

partial_function (option) time_loop_do_one_loop ::
  "loop_env \<Rightarrow> nat \<Rightarrow> bool \<Rightarrow> loop \<Rightarrow> (bool \<times> loop) option" where
  "time_loop_do_one_loop e tid block l =
     (if lp_work l > 0 then
        (case loop_consume e tid l of
           None \<Rightarrow> None
         | Some r \<Rightarrow>
             if fst r then Some r
             else
               (case (if block then time_loop_wait e (snd r) else Some (snd r)) of
                  None \<Rightarrow> None
                | Some l2 \<Rightarrow>
                    (case time_loop_take e tid l2 of
                       None \<Rightarrow> None
                     | Some l3 \<Rightarrow>
                         if block then time_loop_do_one_loop e tid block l3
                         else loop_consume e tid l3)))
      else Some (False, l))"

definition time_loop_do_one :: "loop_env \<Rightarrow> nat \<Rightarrow> bool \<Rightarrow> loop \<Rightarrow> (bool \<times> loop) option" where
  "time_loop_do_one e tid block l =
     (if lp_work l = 0 then Some (False, l) else time_loop_do_one_loop e tid block l)"

text \<open>The counting loop that \<open>poll\<close> and \<open>run\<close> share; the count saturates.\<close>

partial_function (option) loop_drain ::
  "loop_env \<Rightarrow> nat \<Rightarrow> bool \<Rightarrow> loop \<Rightarrow> size_t \<Rightarrow> (size_t \<times> loop) option" where
  "loop_drain e tid block l n =
     (case time_loop_do_one e tid block l of
        None \<Rightarrow> None
      | Some r \<Rightarrow>
          if fst r then loop_drain e tid block (snd r) (if n < - 1 then n + 1 else n)
          else Some (n, snd r))"

definition loop_enter :: "nat \<Rightarrow> loop \<Rightarrow> loop" where
  "loop_enter tid l = l\<lparr>lp_consumer := Some tid\<rparr>"

definition loop_leave :: "loop \<Rightarrow> loop" where
  "loop_leave l = l\<lparr>lp_consumer := None\<rparr>"

definition loop_poll_one :: "loop_env \<Rightarrow> nat \<Rightarrow> loop \<Rightarrow> (bool \<times> loop) option" where
  "loop_poll_one e tid l =
     map_option (apsnd loop_leave) (time_loop_do_one e tid False (loop_enter tid l))"

definition loop_run_one :: "loop_env \<Rightarrow> nat \<Rightarrow> loop \<Rightarrow> (bool \<times> loop) option" where
  "loop_run_one e tid l =
     map_option (apsnd loop_leave) (time_loop_do_one e tid True (loop_enter tid l))"

definition loop_poll :: "loop_env \<Rightarrow> nat \<Rightarrow> loop \<Rightarrow> (size_t \<times> loop) option" where
  "loop_poll e tid l = map_option (apsnd loop_leave) (loop_drain e tid False (loop_enter tid l) 0)"

definition loop_run :: "loop_env \<Rightarrow> nat \<Rightarrow> loop \<Rightarrow> (size_t \<times> loop) option" where
  "loop_run e tid l = map_option (apsnd loop_leave) (loop_drain e tid True (loop_enter tid l) 0)"

section \<open>Work guards\<close>

text \<open>A guard is its \<open>context_\<close> pointer: whether it holds the context.\<close>

definition guard_new :: "loop \<Rightarrow> bool \<times> loop" where
  "guard_new l = (True, loop_work_started l)"

definition guard_copy :: "bool \<Rightarrow> loop \<Rightarrow> bool \<times> loop" where
  "guard_copy g l = (g, if g then loop_work_started l else l)"

definition guard_move :: "bool \<Rightarrow> bool \<times> bool" where
  "guard_move g = (g, False)"

definition guard_destroy :: "nat \<Rightarrow> bool \<Rightarrow> loop \<Rightarrow> loop" where
  "guard_destroy tid g l = (if g then loop_work_finished tid l else l)"

text \<open>Assignment swaps with the argument, which is then destroyed.\<close>

definition guard_assign :: "nat \<Rightarrow> bool \<Rightarrow> bool \<Rightarrow> loop \<Rightarrow> bool \<times> loop" where
  "guard_assign tid g other l = (other, guard_destroy tid g l)"

section \<open>The operations a loop stands for\<close>

text \<open>\<open>loop_rep e l xs S\<close>: the operations \<open>xs\<close> are queued, the timers \<open>S\<close> are armed, and the work count
  is their number. \<open>signal_of\<close> is the signal an operation completes with.\<close>

definition loop_rep :: "loop_env \<Rightarrow> loop \<Rightarrow> addr list \<Rightarrow> addr set \<Rightarrow> bool" where
  "loop_rep e l xs S \<longleftrightarrow> oq_rep (lp_ops l) xs \<and> tq_rep (le_deadline e) (lp_timers l) S \<and>
     set xs \<inter> S = {} \<and> (\<forall>a\<in>S. lp_phase l a = Armed) \<and> unat (lp_work l) = length xs + card S"

definition signal_of :: "loop_env \<Rightarrow> loop \<Rightarrow> addr \<Rightarrow> completion" where
  "signal_of e l a =
     (if (case le_kind e a of ScheduleNode \<Rightarrow> le_stop e a | TimerNode \<Rightarrow> lp_canceled l a)
      then SetStopped else SetValue)"

lemma loop_rep_finite: "loop_rep e l xs S \<Longrightarrow> finite S"
  by (auto simp: loop_rep_def dest: tq_rep_finite)

lemma node_finish_fields:
  assumes "lp_consumer l = Some tid"
  shows "lp_ops (node_finish e tid a l) = lp_ops l" "lp_timers (node_finish e tid a l) = lp_timers l"
    "lp_work (node_finish e tid a l) = lp_work l - 1" "lp_phase (node_finish e tid a l) = lp_phase l"
    "lp_canceled (node_finish e tid a l) = lp_canceled l" "lp_now (node_finish e tid a l) = lp_now l"
    "lp_sema (node_finish e tid a l) = lp_sema l" "lp_consumer (node_finish e tid a l) = Some tid"
    "lp_log (node_finish e tid a l) = lp_log l @ [(a, signal_of e l a)]"
  using assms
  by (auto simp: node_finish_def schedule_finish_def sleep_finish_def loop_work_finished_def Let_def
      loop_shutdown_def loop_wakeup_consumer_def signal_of_def split: node_kind.split)

lemma loop_consume_Nil:
  "loop_rep e l [] S \<Longrightarrow> loop_consume e tid l = Some (False, l)"
  by (simp add: loop_rep_def loop_consume_def oq_dequeue_Nil)

lemma signal_of_cong: "lp_canceled l' = lp_canceled l \<Longrightarrow> signal_of e l' = signal_of e l"
  by (auto simp: signal_of_def fun_eq_iff split: node_kind.split)

lemma loop_consume_Cons:
  assumes rep: "loop_rep e l (a # xs) S" and c: "lp_consumer l = Some tid"
  shows "\<exists>l'. loop_consume e tid l = Some (True, l') \<and> loop_rep e l' xs S \<and>
    lp_consumer l' = Some tid \<and> lp_log l' = lp_log l @ [(a, signal_of e l a)] \<and>
    signal_of e l' = signal_of e l \<and> lp_now l' = lp_now l \<and> lp_sema l' = lp_sema l"
proof -
  obtain q where q: "oq_dequeue (lp_ops l) = Some (Some a, q)" "oq_rep q xs"
    using oq_dequeue_Cons [of "lp_ops l" a xs] rep by (auto simp: loop_rep_def)
  let ?l = "l\<lparr>lp_ops := q\<rparr>"
  let ?l' = "node_finish e tid a ?l"
  have "unat (lp_work l) = Suc (length xs + card S)" using rep by (simp add: loop_rep_def)
  then have w: "unat (lp_work l - 1) = length xs + card S"
    by (metis add_diff_cancel_left' plus_1_eq_Suc unat_1 unat_sub_le nat.simps(3) unat_eq_0
        unat_gt_0 word_le_nat_alt le_add1)
  have "loop_rep e ?l' xs S"
    using rep q(2) w c by (auto simp: loop_rep_def node_finish_fields)
  then show ?thesis
    using q(1) c signal_of_cong [of ?l' l e] signal_of_cong [of ?l l e]
    by (simp add: loop_consume_def node_finish_fields)
qed

lemma loop_publish_armed:
  assumes "oq_rep (lp_ops l) xs" "a \<notin> set xs" "oq_next (lp_ops l) a = None" "lp_phase l a = Armed"
    and c: "lp_consumer l = Some tid"
  shows "\<exists>q. loop_publish tid a l = Some (l\<lparr>lp_phase := (lp_phase l)(a := Completed), lp_ops := q\<rparr>) \<and>
    oq_rep q (xs @ [a]) \<and> (\<forall>b. b \<notin> set (xs @ [a]) \<longrightarrow> oq_next q b = oq_next (lp_ops l) b)"
proof -
  have "oq_enqueue a (lp_ops l) =
      Some (oq_publish a a (lp_ops l\<lparr>oq_next := (oq_next (lp_ops l))(a := None)\<rparr>))"
    using assms oq_reverse_chain(1) [of "oq_next (lp_ops l)" a "[a]"] by (simp add: oq_enqueue_def)
  moreover obtain q where q: "oq_enqueue a (lp_ops l) = Some q" "oq_rep q (xs @ [a])"
    using oq_enqueue_one [OF assms(1-3)] by blast
  ultimately have "\<forall>b. b \<notin> set (xs @ [a]) \<longrightarrow> oq_next q b = oq_next (lp_ops l) b"
    by (auto simp: oq_publish_def)
  then show ?thesis
    using q assms by (auto simp: loop_publish_def loop_immediately_post_def loop_wakeup_consumer_def)
qed

lemma loop_publish_pending_rep:
  "chain (oq_next (lp_ops l)) p ys \<Longrightarrow> oq_rep (lp_ops l) xs \<Longrightarrow> set xs \<inter> set ys = {} \<Longrightarrow>
   \<forall>a\<in>set ys. lp_phase l a = Armed \<Longrightarrow> lp_consumer l = Some tid \<Longrightarrow>
   \<exists>q ph. loop_publish_pending tid l p = Some (l\<lparr>lp_phase := ph, lp_ops := q\<rparr>) \<and>
     oq_rep q (xs @ ys) \<and> (\<forall>b. b \<notin> set ys \<longrightarrow> ph b = lp_phase l b) \<and>
     (\<forall>b. b \<notin> set (xs @ ys) \<longrightarrow> oq_next q b = oq_next (lp_ops l) b)"
proof (induction ys arbitrary: l p xs)
  case Nil
  then show ?case
    by (auto simp: loop_publish_pending.simps intro!: exI [of _ "lp_ops l"] exI [of _ "lp_phase l"])
next
  case (Cons a ys)
  let ?l = "loop_clear_next a l"
  have p: "p = Some a" and ch: "chain (oq_next (lp_ops l)) (oq_next (lp_ops l) a) ys"
    using Cons.prems(1) by auto
  have nin: "a \<notin> set ys" "a \<notin> set xs"
    using chain_distinct [OF Cons.prems(1)] Cons.prems(3) by auto
  have "oq_rep (lp_ops ?l) xs"
    using Cons.prems(2) nin by (auto simp: loop_clear_next_def intro!: oq_rep_frame)
  then obtain q where q: "loop_publish tid a ?l =
      Some (?l\<lparr>lp_phase := (lp_phase ?l)(a := Completed), lp_ops := q\<rparr>)" "oq_rep q (xs @ [a])"
    "\<And>b. b \<notin> set (xs @ [a]) \<Longrightarrow> oq_next q b = oq_next (lp_ops ?l) b"
    using loop_publish_armed [of ?l xs a tid] Cons.prems nin by (auto simp: loop_clear_next_def)
  let ?l1 = "?l\<lparr>lp_phase := (lp_phase ?l)(a := Completed), lp_ops := q\<rparr>"
  have same: "oq_next q b = oq_next (lp_ops l) b" if "b \<in> set ys" for b
    using that Cons.prems(3) nin q(3) [of b] by (auto simp: loop_clear_next_def)
  have ch1: "chain (oq_next (lp_ops ?l1)) (oq_next (lp_ops l) a) ys"
    using ch seg_cong [of ys "oq_next (lp_ops l)" "oq_next q"] same by simp
  have ar: "\<forall>b\<in>set ys. lp_phase ?l1 b = Armed"
    using Cons.prems(4) nin by (auto simp: loop_clear_next_def)
  have "\<exists>q' ph. loop_publish_pending tid ?l1 (oq_next (lp_ops l) a) = Some (?l1\<lparr>lp_phase := ph, lp_ops := q'\<rparr>) \<and>
     oq_rep q' ((xs @ [a]) @ ys) \<and> (\<forall>b. b \<notin> set ys \<longrightarrow> ph b = lp_phase ?l1 b) \<and>
     (\<forall>b. b \<notin> set ((xs @ [a]) @ ys) \<longrightarrow> oq_next q' b = oq_next (lp_ops ?l1) b)"
    using q(2) Cons.prems nin ar by (intro Cons.IH ch1) (auto simp: loop_clear_next_def)
  then obtain q' ph where r: "loop_publish_pending tid ?l1 (oq_next (lp_ops l) a) =
      Some (?l1\<lparr>lp_phase := ph, lp_ops := q'\<rparr>)" "oq_rep q' ((xs @ [a]) @ ys)"
    "\<forall>b. b \<notin> set ys \<longrightarrow> ph b = lp_phase ?l1 b"
    "\<forall>b. b \<notin> set ((xs @ [a]) @ ys) \<longrightarrow> oq_next q' b = oq_next (lp_ops ?l1) b"
    by blast
  have "loop_publish_pending tid l p = Some (l\<lparr>lp_phase := ph, lp_ops := q'\<rparr>)"
    using q(1) p r(1) by (simp add: loop_publish_pending.simps [of tid l "Some a"] loop_clear_next_def)
  moreover have "oq_next q' b = oq_next (lp_ops l) b" if "b \<notin> set (xs @ a # ys)" for b
    using that r(4) q(3) [of b] by (auto simp: loop_clear_next_def)
  ultimately show ?case using r(2,3) by (intro exI [of _ q'] exI [of _ ph]) (auto simp: loop_clear_next_def)
qed

lemma time_loop_take_rep:
  assumes rep: "loop_rep e l [] S" and c: "lp_consumer l = Some tid"
  shows "\<exists>l' ys. time_loop_take e tid l = Some l' \<and>
    loop_rep e l' ys {a \<in> S. lp_now l < le_deadline e a} \<and> lp_consumer l' = Some tid \<and>
    lp_log l' = lp_log l \<and> signal_of e l' = signal_of e l \<and> lp_now l' = lp_now l \<and>
    lp_sema l' = lp_sema l \<and> set ys = {a \<in> S. le_deadline e a \<le> lp_now l} \<and> distinct ys \<and>
    sorted (map (le_deadline e) ys)"
proof -
  let ?dl = "le_deadline e"
  let ?R = "{a \<in> S. lp_now l < ?dl a}"
  have r: "oq_rep (lp_ops l) []" "tq_rep ?dl (lp_timers l) S" "\<forall>a\<in>S. lp_phase l a = Armed"
    "unat (lp_work l) = card S"
    using rep by (auto simp: loop_rep_def)
  obtain q nx lst ys where t: "tq_take_ready_timers ?dl (lp_now l) (lp_timers l)
      (oq_next (lp_ops l), il_empty_list) = Some (q, (nx, lst))"
    "tq_rep ?dl q ?R" "il_rep (nx, lst) ys" "set ys = {a \<in> S. ?dl a \<le> lp_now l}"
    "distinct ys" "sorted (map ?dl ys)"
    using tq_take_ready_timers_rep [OF r(2) il_rep_empty, of "lp_now l" "oq_next (lp_ops l)"] by auto
  let ?l = "l\<lparr>lp_timers := q, lp_ops := (lp_ops l)\<lparr>oq_next := nx\<rparr>\<rparr>"
  have rel: "fst (il_release lst) = il_head lst" by (simp add: il_release_def)
  have ch: "chain (oq_next (lp_ops ?l)) (il_head lst) ys"
    using t(3) by (simp add: il_rep_def)
  have "oq_rep (lp_ops ?l) []" using r(1) by (auto simp: oq_rep_def)
  then obtain q' ph where p: "loop_publish_pending tid ?l (il_head lst) =
      Some (?l\<lparr>lp_phase := ph, lp_ops := q'\<rparr>)" "oq_rep q' ys"
    "\<And>b. b \<notin> set ys \<Longrightarrow> ph b = lp_phase ?l b"
    using loop_publish_pending_rep [OF ch, of "[]" tid] r(3) t(4) c by auto
  have fin: "finite S" using rep by (rule loop_rep_finite)
  have "card (set ys \<union> ?R) = card (set ys) + card ?R"
    by (rule card_Un_disjoint) (use t(4) fin in auto)
  then have "length ys + card ?R = card (set ys \<union> ?R)"
    by (simp only: distinct_card [OF t(5)])
  also have "set ys \<union> ?R = S" unfolding t(4) by (rule set_eqI) (simp, linarith)
  finally have card: "length ys + card ?R = card S" .
  define l' where "l' = ?l\<lparr>lp_phase := ph, lp_ops := q'\<rparr>"
  have "loop_rep e l' ys ?R"
    unfolding loop_rep_def
  proof (intro conjI)
    show "oq_rep (lp_ops l') ys" "tq_rep ?dl (lp_timers l') ?R" "unat (lp_work l') = length ys + card ?R"
      using p(2) t(2) r(4) card by (simp_all add: l'_def)
    have out: "a \<notin> set ys" if "a \<in> ?R" for a using that unfolding t(4) by simp
    then show "set ys \<inter> ?R = {}" by blast
    show "\<forall>a\<in>?R. lp_phase l' a = Armed"
      using p(3) [OF out] r(3) by (simp add: l'_def)
  qed
  moreover have "time_loop_take e tid l = Some l'"
    using t(1) p(1) rel by (simp add: time_loop_take_def l'_def)
  moreover have "signal_of e l' = signal_of e l"
    by (rule signal_of_cong) (simp add: l'_def)
  moreover have "lp_consumer l' = Some tid" "lp_log l' = lp_log l" "lp_now l' = lp_now l"
    "lp_sema l' = lp_sema l"
    using c by (simp_all add: l'_def)
  ultimately show ?thesis using t(4-6) by blast
qed

lemma loop_rep_work:
  "loop_rep e l xs S \<Longrightarrow> lp_work l = 0 \<longleftrightarrow> xs = [] \<and> S = {}"
  using loop_rep_finite [of e l xs S] by (auto simp: loop_rep_def unat_eq_0 [symmetric])

lemma time_loop_wait_rep:
  assumes rep: "loop_rep e l [] S" and ne: "S \<noteq> {}"
  shows "\<exists>l'. time_loop_wait e l = Some l' \<and> loop_rep e l' [] S \<and> lp_consumer l' = lp_consumer l \<and>
    lp_log l' = lp_log l \<and> signal_of e l' = signal_of e l \<and>
    (if lp_sema l > 0 then lp_sema l' = lp_sema l - 1
     else \<exists>a\<in>S. le_deadline e a \<le> lp_now l')"
proof (cases "lp_sema l > 0")
  case True
  then show ?thesis
    using rep signal_of_cong [of "l\<lparr>lp_sema := lp_sema l - 1\<rparr>" l e]
    by (auto simp: time_loop_wait_def loop_rep_def)
next
  case False
  let ?t = "Min (le_deadline e ` S)"
  have fin: "finite S" using rep by (rule loop_rep_finite)
  have "tq_earliest (le_deadline e) (lp_timers l) = Some ?t"
    using rep ne tq_earliest_rep [of "le_deadline e" "lp_timers l" S] by (simp add: loop_rep_def)
  moreover have "\<exists>a\<in>S. le_deadline e a \<le> max (lp_now l) ?t"
    using Min_in [of "le_deadline e ` S"] fin ne by fastforce
  ultimately show ?thesis
    using rep False signal_of_cong [of "l\<lparr>lp_now := max (lp_now l) ?t\<rparr>" l e]
    by (auto simp: time_loop_wait_def loop_rep_def)
qed

text \<open>The due timers \<open>ys\<close> come before the timers \<open>R\<close> that stay.\<close>

definition later_batch :: "(addr \<Rightarrow> int) \<Rightarrow> addr list \<Rightarrow> addr set \<Rightarrow> addr set \<Rightarrow> bool" where
  "later_batch dl ys R S \<longleftrightarrow> set ys \<union> R = S \<and> set ys \<inter> R = {} \<and> distinct ys \<and> sorted (map dl ys) \<and>
     (\<forall>y\<in>set ys. \<forall>r\<in>R. dl y \<le> dl r)"

lemma time_loop_blocks_until_ready:
  "loop_rep e l [] S \<Longrightarrow> S \<noteq> {} \<Longrightarrow> lp_consumer l = Some tid \<Longrightarrow>
   \<exists>l' ys R. time_loop_do_one_loop e tid True l = time_loop_do_one_loop e tid True l' \<and>
     loop_rep e l' ys R \<and> ys \<noteq> [] \<and> lp_consumer l' = Some tid \<and> lp_log l' = lp_log l \<and>
     signal_of e l' = signal_of e l \<and> later_batch (le_deadline e) ys R S"
proof (induction "lp_sema l" arbitrary: l rule: less_induct)
  case less
  have w: "lp_work l > 0"
    using loop_rep_work [OF less.prems(1)] less.prems(2) word_neq_0_conv by blast
  obtain l2 where l2: "time_loop_wait e l = Some l2" "loop_rep e l2 [] S"
    "lp_consumer l2 = Some tid" "lp_log l2 = lp_log l" "signal_of e l2 = signal_of e l"
    "if lp_sema l > 0 then lp_sema l2 = lp_sema l - 1 else \<exists>a\<in>S. le_deadline e a \<le> lp_now l2"
    using time_loop_wait_rep [OF less.prems(1,2)] less.prems(3) by auto
  let ?R = "{a \<in> S. lp_now l2 < le_deadline e a}"
  obtain l3 ys where l3: "time_loop_take e tid l2 = Some l3" "loop_rep e l3 ys ?R"
    "lp_consumer l3 = Some tid" "lp_log l3 = lp_log l2" "signal_of e l3 = signal_of e l2"
    "lp_sema l3 = lp_sema l2" "set ys = {a \<in> S. le_deadline e a \<le> lp_now l2}" "distinct ys"
    "sorted (map (le_deadline e) ys)"
    using time_loop_take_rep [OF l2(2,3)] by blast
  have step: "time_loop_do_one_loop e tid True l = time_loop_do_one_loop e tid True l3"
    using w l2(1) l3(1) loop_consume_Nil [OF less.prems(1)]
    by (simp add: time_loop_do_one_loop.simps [of e tid True l])
  show ?case
  proof (cases "ys = []")
    case True
    then have R: "?R = S" using l3(7) by auto
    have "\<not> (\<exists>a\<in>S. le_deadline e a \<le> lp_now l2)" using True l3(7) by auto
    then have "lp_sema l3 < lp_sema l" using l2(6) l3(6) by (auto split: if_splits)
    moreover have "loop_rep e l3 [] S" using l3(2) R True by simp
    ultimately obtain l' ys R where l': "time_loop_do_one_loop e tid True l3 = time_loop_do_one_loop e tid True l'"
      "loop_rep e l' ys R" "ys \<noteq> []" "lp_consumer l' = Some tid" "lp_log l' = lp_log l3"
      "signal_of e l' = signal_of e l3" "later_batch (le_deadline e) ys R S"
      using less.hyps [of l3] less.prems(2) l3(3) by blast
    then show ?thesis
      using l3(4,5) l2(4,5) step by (intro exI [of _ l'] exI [of _ ys] exI [of _ R]) simp
  next
    case False
    have "later_batch (le_deadline e) ys ?R S"
      unfolding later_batch_def
    proof (intro conjI ballI)
      show "set ys \<union> ?R = S" unfolding l3(7) by (rule set_eqI) (simp, linarith)
      show "set ys \<inter> ?R = {}" unfolding l3(7) by (rule set_eqI) simp
    next
      fix y r assume "y \<in> set ys" "r \<in> ?R"
      then show "le_deadline e y \<le> le_deadline e r" unfolding l3(7) by simp
    qed (rule l3(8,9))+
    moreover have "lp_log l3 = lp_log l" "signal_of e l3 = signal_of e l"
      using l3(4,5) l2(4,5) by simp_all
    ultimately show ?thesis
      using False l3(2,3) step by blast
  qed
qed

lemma time_loop_do_one_rep:
  assumes rep: "loop_rep e l xs S" and c: "lp_consumer l = Some tid" and ne: "xs \<noteq> [] \<or> S \<noteq> {}"
  shows "\<exists>l' ys R. time_loop_do_one e tid True l = Some (True, l') \<and> ys \<noteq> [] \<and>
     loop_rep e l' (tl ys) R \<and> lp_consumer l' = Some tid \<and>
     lp_log l' = lp_log l @ [(hd ys, signal_of e l (hd ys))] \<and> signal_of e l' = signal_of e l \<and>
     (if xs = [] then later_batch (le_deadline e) ys R S else ys = xs \<and> R = S)"
proof -
  have take: "\<exists>l'. time_loop_do_one_loop e tid True l = Some (True, l') \<and> loop_rep e l' (tl ys) R \<and>
      lp_consumer l' = Some tid \<and> lp_log l' = lp_log l @ [(hd ys, signal_of e l (hd ys))] \<and>
      signal_of e l' = signal_of e l"
    if l: "loop_rep e l ys R" "ys \<noteq> []" "lp_consumer l = Some tid" for l ys R
  proof -
    obtain a zs where ys: "ys = a # zs" using l(2) by (cases ys) auto
    have "lp_work l > 0" using loop_rep_work [OF l(1)] l(2) word_neq_0_conv by blast
    then show ?thesis
      using loop_consume_Cons [of e l a zs R tid] l ys
      by (auto simp: time_loop_do_one_loop.simps [of e tid True l])
  qed
  have start: "time_loop_do_one e tid True l = time_loop_do_one_loop e tid True l"
    using loop_rep_work [OF rep] ne by (auto simp: time_loop_do_one_def)
  show ?thesis
  proof (cases "xs = []")
    case False
    then obtain l' where "time_loop_do_one e tid True l = Some (True, l')" "loop_rep e l' (tl xs) S"
      "lp_consumer l' = Some tid" "lp_log l' = lp_log l @ [(hd xs, signal_of e l (hd xs))]"
      "signal_of e l' = signal_of e l"
      using take [OF rep False c] start by auto
    then show ?thesis using False by (intro exI [of _ l'] exI [of _ xs] exI [of _ S]) simp
  next
    case True
    then obtain l1 ys R where l1: "time_loop_do_one_loop e tid True l = time_loop_do_one_loop e tid True l1"
      "loop_rep e l1 ys R" "ys \<noteq> []" "lp_consumer l1 = Some tid" "lp_log l1 = lp_log l"
      "signal_of e l1 = signal_of e l" "later_batch (le_deadline e) ys R S"
      using time_loop_blocks_until_ready [of e l S tid] rep c ne by auto
    obtain l' where "time_loop_do_one e tid True l = Some (True, l')" "loop_rep e l' (tl ys) R"
      "lp_consumer l' = Some tid" "lp_log l' = lp_log l @ [(hd ys, signal_of e l (hd ys))]"
      "signal_of e l' = signal_of e l"
      using take [OF l1(2-4)] start l1(1,5,6) by auto
    then show ?thesis
      using l1(3,7) True by (intro exI [of _ l'] exI [of _ ys] exI [of _ R]) simp
  qed
qed

lemma later_batch_sorted:
  assumes "later_batch dl ys R S" "set zs = R" "distinct zs" "sorted (map dl zs)"
  shows "set (ys @ zs) = S" "distinct (ys @ zs)" "sorted (map dl (ys @ zs))"
  using assms by (auto simp: later_batch_def sorted_append)

lemma later_batch_card:
  assumes "later_batch dl ys R S" "finite R"
  shows "card S = length ys + card R"
  using assms card_Un_disjoint [of "set ys" R] distinct_card [of ys] by (auto simp: later_batch_def)

lemma loop_drain_rep:
  "loop_rep e l xs S \<Longrightarrow> lp_consumer l = Some tid \<Longrightarrow> unat n + (length xs + card S) < 2 ^ 64 \<Longrightarrow>
   \<exists>n' l' zs. loop_drain e tid True l n = Some (n', l') \<and> unat n' = unat n + (length xs + card S) \<and>
     loop_rep e l' [] {} \<and> set zs = S \<and> distinct zs \<and> sorted (map (le_deadline e) zs) \<and>
     lp_log l' = lp_log l @ map (\<lambda>a. (a, signal_of e l a)) (xs @ zs)"
proof (induction "length xs + card S" arbitrary: l xs S n rule: less_induct)
  case less
  show ?case
  proof (cases "xs = [] \<and> S = {}")
    case True
    then have "lp_work l = 0" using loop_rep_work [OF less.prems(1)] by simp
    then show ?thesis
      using True less.prems(1) by (auto simp: loop_drain.simps [of e tid True l] time_loop_do_one_def)
  next
    case False
    obtain l1 ys R where l1: "time_loop_do_one e tid True l = Some (True, l1)" "ys \<noteq> []"
      "loop_rep e l1 (tl ys) R" "lp_consumer l1 = Some tid"
      "lp_log l1 = lp_log l @ [(hd ys, signal_of e l (hd ys))]" "signal_of e l1 = signal_of e l"
      "if xs = [] then later_batch (le_deadline e) ys R S else ys = xs \<and> R = S"
      using time_loop_do_one_rep [OF less.prems(1,2)] False by blast
    have size: "length xs + card S = Suc (length (tl ys) + card R)"
      using l1(2,7) later_batch_card [of "le_deadline e" ys R S] loop_rep_finite [OF l1(3)]
      by (cases ys) (auto split: if_splits)
    have lt: "n < - 1"
      using less.prems(3) size by (simp add: word_less_nat_alt unsigned_minus_1_eq_mask mask_eq_exp_minus_1)
    then have n1: "unat (n + 1) = Suc (unat n)"
      using less.prems(3) size unat_add_lt [of n 1] by simp
    obtain n' l' zs where ih: "loop_drain e tid True l1 (n + 1) = Some (n', l')"
      "unat n' = unat (n + 1) + (length (tl ys) + card R)" "loop_rep e l' [] {}" "set zs = R"
      "distinct zs" "sorted (map (le_deadline e) zs)"
      "lp_log l' = lp_log l1 @ map (\<lambda>a. (a, signal_of e l1 a)) (tl ys @ zs)"
      using less.hyps [OF _ l1(3,4), of "n + 1"] less.prems(3) size n1 by auto
    have "loop_drain e tid True l n = Some (n', l')"
      using l1(1) ih(1) lt by (simp add: loop_drain.simps [of e tid True l])
    moreover have "unat n' = unat n + (length xs + card S)" using ih(2) size n1 by simp
    moreover have log: "lp_log l' = lp_log l @ map (\<lambda>a. (a, signal_of e l a)) (ys @ zs)"
      using ih(7) l1(2,5,6) by (cases ys) auto
    moreover obtain vs where vs: "set vs = S" "distinct vs" "sorted (map (le_deadline e) vs)"
      "ys @ zs = xs @ vs"
    proof -
      have "\<exists>vs. set vs = S \<and> distinct vs \<and> sorted (map (le_deadline e) vs) \<and> ys @ zs = xs @ vs"
      proof (cases "xs = []")
        case True
        then show ?thesis
          using later_batch_sorted [OF _ ih(4-6), of ys S] l1(7) by (intro exI [of _ "ys @ zs"]) simp
      next
        case False
        then show ?thesis using ih(4-6) l1(7) by (intro exI [of _ zs]) simp
      qed
      then show ?thesis using that by blast
    qed
    ultimately show ?thesis
      using ih(3) by (intro exI [of _ n'] exI [of _ l'] exI [of _ vs]) simp
  qed
qed

section \<open>Starting and cancelling\<close>

definition loop_init :: loop where
  "loop_init = \<lparr>lp_ops = \<lparr>oq_next = (\<lambda>_. None), oq_incoming = None, oq_front = None\<rparr>,
     lp_timers = tq_empty, lp_work = 0, lp_consumer = None, lp_stop = False, lp_callbacks = [],
     lp_sema = 0, lp_phase = (\<lambda>_. Starting), lp_canceled = (\<lambda>_. False), lp_log = [], lp_now = 0\<rparr>"

lemma loop_init_rep: "loop_rep e loop_init [] {}"
  by (simp add: loop_rep_def loop_init_def tq_rep_empty oq_rep_def)

lemma loop_wakeup_consumer_same [simp]:
  "loop_rep e (loop_wakeup_consumer tid l) xs S = loop_rep e l xs S"
  "lp_log (loop_wakeup_consumer tid l) = lp_log l"
  "lp_canceled (loop_wakeup_consumer tid l) = lp_canceled l"
  "lp_phase (loop_wakeup_consumer tid l) = lp_phase l"
  "lp_ops (loop_wakeup_consumer tid l) = lp_ops l"
  "lp_timers (loop_wakeup_consumer tid l) = lp_timers l"
  "lp_work (loop_wakeup_consumer tid l) = lp_work l"
  "lp_stop (loop_wakeup_consumer tid l) = lp_stop l"
  by (simp_all add: loop_wakeup_consumer_def loop_interrupt_def loop_rep_def)

lemma schedule_start_rep:
  assumes "loop_rep e l xs S" "a \<notin> set xs" "a \<notin> S" "oq_next (lp_ops l) a = None"
    and "unat (lp_work l) + 1 < 2 ^ 64"
  shows "\<exists>l'. schedule_start tid a l = Some l' \<and> loop_rep e l' (xs @ [a]) S \<and> lp_log l' = lp_log l"
proof -
  obtain q where q: "oq_enqueue a (lp_ops l) = Some q" "oq_rep q (xs @ [a])"
    using oq_enqueue_one [of "lp_ops l" xs a] assms by (auto simp: loop_rep_def)
  have "loop_rep e (loop_work_started l\<lparr>lp_ops := q\<rparr>) (xs @ [a]) S"
    using q(2) assms unat_add_lt [of "lp_work l" 1] by (auto simp: loop_rep_def loop_work_started_def)
  then show ?thesis
    using q(1) assms(4)
    by (simp add: schedule_start_def loop_immediately_post_def loop_work_started_def)
qed

lemma sleep_start_rep:
  assumes rep: "loop_rep e l xs S" and a: "a \<notin> set xs" "a \<notin> S"
    and "lp_phase l a = Starting" "\<not> lp_stop l" "unat (lp_work l) + 1 < 2 ^ 64"
  shows "\<exists>l'. sleep_start e tid a l = Some l' \<and> loop_rep e l' xs (insert a S) \<and>
    lp_log l' = lp_log l \<and> lp_canceled l' = lp_canceled l \<and> lp_ops l' = lp_ops l"
proof -
  let ?q = "snd (tq_add (le_deadline e) a (lp_timers l))"
  let ?l = "loop_work_started l\<lparr>lp_callbacks := lp_callbacks l @ [a]\<rparr>\<lparr>lp_timers := ?q\<rparr>"
  have q: "tq_rep (le_deadline e) ?q (insert a S)"
    using tms.add_rep rep a(2) by (simp add: loop_rep_def)
  have "finite S" using rep by (rule loop_rep_finite)
  then have "loop_rep e (?l\<lparr>lp_phase := (lp_phase l)(a := Armed)\<rparr>) xs (insert a S)"
    using rep a q assms(6) unat_add_lt [of "lp_work l" 1]
    by (simp add: loop_rep_def loop_work_started_def)
  then show ?thesis
    using assms(4,5)
    by (simp add: sleep_start_def sleep_register_def sleep_do_start_def sleep_arm_def Let_def
        case_prod_beta loop_work_started_def loop_wakeup_consumer_def loop_interrupt_def
        loop_rep_def)
qed

lemma sleep_cancel_rep:
  assumes rep: "loop_rep e l xs S" and a: "a \<in> S" and nx: "oq_next (lp_ops l) a = None"
  shows "\<exists>l'. sleep_request_cancel e tid a l = Some l' \<and> loop_rep e l' (xs @ [a]) (S - {a}) \<and>
    lp_canceled l' = (lp_canceled l)(a := True) \<and> lp_log l' = lp_log l"
proof -
  have ph: "lp_phase l a = Armed" using rep a by (simp add: loop_rep_def)
  obtain q where q: "tq_remove (le_deadline e) a (lp_timers l) = Some (True, q)"
    "tq_rep (le_deadline e) q (S - {a})"
    using tms.remove_rep [of "le_deadline e" "lp_timers l" S a] rep a by (auto simp: loop_rep_def)
  have nin: "a \<notin> set xs" using rep a by (auto simp: loop_rep_def)
  obtain p where p: "oq_enqueue a (lp_ops l) = Some p" "oq_rep p (xs @ [a])"
    using oq_enqueue_one [OF _ nin nx] rep by (auto simp: loop_rep_def)
  let ?l = "l\<lparr>lp_timers := q, lp_canceled := (lp_canceled l)(a := True),
      lp_phase := (lp_phase l)(a := Completed), lp_ops := p\<rparr>"
  have "card S = Suc (card (S - {a}))" using a loop_rep_finite [OF rep] by (rule card.remove [rotated])
  then have "loop_rep e ?l (xs @ [a]) (S - {a})"
    using rep p(2) q(2) by (auto simp: loop_rep_def)
  then show ?thesis
    using ph q(1) p(1) nx
    by (simp add: sleep_request_cancel_def sleep_do_cancel_def loop_publish_def
        loop_immediately_post_def)
qed

section \<open>Properties\<close>

text \<open>C5. \<open>time_loop::run\<close> returns and completes everything: on a loop with the operations \<open>xs\<close> queued
  and the timers \<open>S\<close> pending, with as much work counted, it first completes \<open>xs\<close> in order, then the
  timers in the order of their deadlines, each exactly once and with the right signal, and stops
  with no work left; the result is the number of completions.\<close>

theorem time_loop_run_completes_all:
  assumes "loop_rep e l xs S"
  shows "\<exists>n l' zs. loop_run e tid l = Some (n, l') \<and> unat n = length xs + card S \<and>
    lp_log l' = lp_log l @ map (\<lambda>a. (a, signal_of e l a)) (xs @ zs) \<and>
    set zs = S \<and> distinct zs \<and> sorted (map (le_deadline e) zs) \<and>
    loop_rep e l' [] {} \<and> lp_consumer l' = None"
proof -
  have "loop_rep e (loop_enter tid l) xs S" "lp_consumer (loop_enter tid l) = Some tid"
    using assms by (simp_all add: loop_enter_def loop_rep_def)
  moreover have "unat (0 :: size_t) + (length xs + card S) < 2 ^ 64"
    using assms size_t_bound [of "lp_work l"] by (simp add: loop_rep_def)
  ultimately obtain n l' zs where r: "loop_drain e tid True (loop_enter tid l) 0 = Some (n, l')"
    "unat n = unat (0 :: size_t) + (length xs + card S)" "loop_rep e l' [] {}" "set zs = S"
    "distinct zs" "sorted (map (le_deadline e) zs)"
    "lp_log l' = lp_log (loop_enter tid l) @ map (\<lambda>a. (a, signal_of e (loop_enter tid l) a)) (xs @ zs)"
    using loop_drain_rep by blast
  have "signal_of e (loop_enter tid l) = signal_of e l"
    by (rule signal_of_cong) (simp add: loop_enter_def)
  then show ?thesis
    using r by (intro exI [of _ n] exI [of _ "loop_leave l'"] exI [of _ zs])
      (simp add: loop_run_def loop_enter_def loop_leave_def loop_rep_def)
qed

definition demo_env :: loop_env where
  "demo_env = \<lparr>le_deadline = int, le_kind = (\<lambda>a. if a < 4 then ScheduleNode else TimerNode),
     le_stop = (\<lambda>_. False)\<rparr>"

lemma demo_loop:
  "\<exists>l. schedule_start 1 3 loop_init = Some l \<and>
    (\<exists>l'. sleep_start demo_env 1 7 l = Some l' \<and> loop_rep demo_env l' [3] {7} \<and> lp_log l' = [] \<and>
      lp_canceled l' 7 = False \<and> oq_next (lp_ops l') 7 = None)"
proof -
  have s: "schedule_start 1 3 loop_init = Some (loop_wakeup_consumer 1 (loop_work_started loop_init
      \<lparr>lp_ops := oq_publish 3 3 (lp_ops loop_init\<lparr>oq_next := (\<lambda>_. None)(3 := None)\<rparr>)\<rparr>))"
    using oq_reverse_chain(1) [of "\<lambda>_. None" 3 "[3]"]
    by (simp add: schedule_start_def loop_immediately_post_def loop_work_started_def loop_init_def
        oq_enqueue_def)
  let ?l = "loop_wakeup_consumer 1 (loop_work_started loop_init
      \<lparr>lp_ops := oq_publish 3 3 (lp_ops loop_init\<lparr>oq_next := (\<lambda>_. None)(3 := None)\<rparr>)\<rparr>)"
  have "loop_rep demo_env ?l [3] {}"
    using schedule_start_rep [OF loop_init_rep, of 3 1 demo_env] s by (simp add: loop_init_def)
  moreover have "lp_phase ?l 7 = Starting" "\<not> lp_stop ?l" "lp_work ?l = 1" "lp_log ?l = []"
    "lp_canceled ?l 7 = False" "oq_next (lp_ops ?l) 7 = None"
    by (simp_all add: loop_init_def loop_work_started_def oq_publish_def)
  ultimately show ?thesis
    using sleep_start_rep [of demo_env ?l "[3]" "{}" 7 1] s by auto
qed

theorem time_loop_run_completes_all_witness:
  "\<exists>l l' n l''. schedule_start 1 3 loop_init = Some l \<and> sleep_start demo_env 1 7 l = Some l' \<and>
    loop_run demo_env 1 l' = Some (n, l'') \<and> unat n = 2 \<and> lp_log l'' = [(3, SetValue), (7, SetValue)]"
proof -
  obtain l l' where l: "schedule_start 1 3 loop_init = Some l" "sleep_start demo_env 1 7 l = Some l'"
    "loop_rep demo_env l' [3] {7}" "lp_log l' = []" "lp_canceled l' 7 = False"
    using demo_loop by blast
  obtain n l'' zs where r: "loop_run demo_env 1 l' = Some (n, l'')" "unat n = length [3::nat] + card {7::nat}"
    "lp_log l'' = lp_log l' @ map (\<lambda>a. (a, signal_of demo_env l' a)) ([3] @ zs)" "set zs = {7}"
    "distinct zs"
    using time_loop_run_completes_all [OF l(3), of 1] by blast
  have "zs = [7]" using r(4,5) by (cases zs) (auto, metis distinct.simps(2) list.set_intros(1) neq_Nil_conv singletonD subsetD insert_subset)
  then have "lp_log l'' = [(3, SetValue), (7, SetValue)]"
    using r(3) l(4,5) by (simp add: signal_of_def demo_env_def)
  then show ?thesis using l r by auto
qed

text \<open>Stopping a pending sleep takes its timer out of the heap, marks it as cancelled and queues it,
  so that the loop completes it once, with \<open>set_stopped\<close>; the other timers and the queue are as before.\<close>

lemma sleep_cancel_completes_stopped:
  assumes "loop_rep e l xs S" "a \<in> S" "oq_next (lp_ops l) a = None" "le_kind e a = TimerNode"
  shows "\<exists>l'. sleep_request_cancel e tid a l = Some l' \<and> loop_rep e l' (xs @ [a]) (S - {a}) \<and>
    signal_of e l' a = SetStopped \<and> (\<forall>b. b \<noteq> a \<longrightarrow> signal_of e l' b = signal_of e l b)"
  using sleep_cancel_rep [OF assms(1-3), of tid] assms(4)
  by (fastforce simp: signal_of_def split: node_kind.split)


end
