(* ===== verification/Epoll_Entry.thy ===== *)
theory Epoll_Entry
  imports Event_Loop
begin

text \<open>
  The bookkeeping of \<open>epoll_context\<close> (\<open>include/coio/asyncio/epoll_context.h\<close> and
  \<open>src/linux/asyncio/epoll_context.cpp\<close>): the pool of \<open>per_fd_data\<close> entries, \<open>register_event\<close>, the
  handling of an event by \<open>do_one\<close>, \<open>cancel_op\<close>, and \<open>close\<close> and \<open>cancel\<close> of an \<open>io_object\<close>. Each of
  them holds \<open>fd_lock\<close> from its first access to the entry to its last, so it is one atomic step; how the steps of different threads interleave
  is in \<open>Epoll_Reactor\<close>.

  An event mask is the set of its flags: \<open>|\<close> is union, \<open>&\<close> intersection and \<open>& ~\<close> difference. The kernel
  is a state \<open>'k\<close> with the system calls as parameters; \<open>errno\<close> values are integers.
\<close>

datatype ep_flag = EPOLLIN | EPOLLOUT | EPOLLERR | EPOLLHUP | EPOLLET

datatype ctl_op = EPOLL_CTL_ADD | EPOLL_CTL_MOD

record per_fd_data =
  fd_events :: "ep_flag set"
  fd_ready :: "ep_flag set"
  fd_in_op :: ptr
  fd_out_op :: ptr

text \<open>The flags that concern an operation in the direction \<open>d\<close>.\<close>

definition ep_interest :: "ep_flag \<Rightarrow> ep_flag set" where
  "ep_interest d = {d, EPOLLERR, EPOLLHUP}"

definition fd_op :: "ep_flag \<Rightarrow> per_fd_data \<Rightarrow> ptr" where
  "fd_op d p = (if d = EPOLLIN then fd_in_op p else fd_out_op p)"

definition fd_set_op :: "ep_flag \<Rightarrow> ptr \<Rightarrow> per_fd_data \<Rightarrow> per_fd_data" where
  "fd_set_op d q p = (if d = EPOLLIN then p\<lparr>fd_in_op := q\<rparr> else p\<lparr>fd_out_op := q\<rparr>)"

section \<open>Registering an operation\<close>

datatype register_result = RegArmed | RegReady | RegFailure int

type_synonym 'k epoll_ctl = "ctl_op \<Rightarrow> ep_flag set \<Rightarrow> 'k \<Rightarrow> int option \<times> 'k"

definition ep_wanted :: "ep_flag \<Rightarrow> per_fd_data \<Rightarrow> ep_flag set" where
  "ep_wanted d p = {d, EPOLLET} \<union> (if fd_in_op p \<noteq> None then {EPOLLIN} else {}) \<union>
     (if fd_out_op p \<noteq> None then {EPOLLOUT} else {})"

definition ep_ctl_op :: "per_fd_data \<Rightarrow> ctl_op" where
  "ep_ctl_op p =
     (if fd_in_op p \<noteq> None \<or> fd_out_op p \<noteq> None then EPOLL_CTL_MOD
      else if fd_events p = {} then EPOLL_CTL_ADD else EPOLL_CTL_MOD)"

definition register_event ::
  "'k epoll_ctl \<Rightarrow> ep_flag \<Rightarrow> addr \<Rightarrow> per_fd_data \<times> 'k \<Rightarrow> error + (register_result \<times> per_fd_data \<times> 'k)" where
  "register_event ctl d op s =
     (let p = fst s; k = snd s
      in if d \<noteq> EPOLLIN \<and> d \<noteq> EPOLLOUT then Inl Terminate
         else if fd_op d p \<noteq> None then Inl AssertFailed
         else if fd_ready p \<inter> ep_interest d \<noteq> {} then
           Inr (RegReady, p\<lparr>fd_ready := fd_ready p - ep_interest d\<rparr>, k)
         else
           let ev = ep_wanted d p;
               r = (if ev = fd_events p then (None, k) else ctl (ep_ctl_op p) ev k)
           in case fst r of
                None \<Rightarrow> Inr (RegArmed, fd_set_op d (Some op) (p\<lparr>fd_events := ev\<rparr>), snd r)
              | Some e \<Rightarrow> Inr (RegFailure e, p, snd r))"

section \<open>Handling an event\<close>

text \<open>
  One direction of an event in \<open>do_one\<close>: without an operation the edge is recorded, otherwise the
  operation performs its system call and leaves the slot unless it would block. \<open>perform\<close> is the virtual
  function of the operation; the third component collects the operations that are ready.
\<close>

definition ep_handle_dir ::
  "(addr \<Rightarrow> 'k \<Rightarrow> bool \<times> 'k) \<Rightarrow> ep_flag \<Rightarrow> ep_flag set \<Rightarrow> per_fd_data \<times> 'k \<times> addr list \<Rightarrow>
   per_fd_data \<times> 'k \<times> addr list" where
  "ep_handle_dir perform d event s =
     (case s of (p, k, done) \<Rightarrow>
        if event \<inter> ep_interest d \<noteq> {} then
          (case fd_op d p of
             None \<Rightarrow> (p\<lparr>fd_ready := fd_ready p \<union> (event \<inter> ep_interest d)\<rparr>, k, done)
           | Some op \<Rightarrow>
               (case perform op k of
                  (finished, k) \<Rightarrow>
                    if finished then (fd_set_op d None p, k, done @ [op]) else (p, k, done)))
        else s)"

definition ep_handle ::
  "(addr \<Rightarrow> 'k \<Rightarrow> bool \<times> 'k) \<Rightarrow> ep_flag set \<Rightarrow> per_fd_data \<times> 'k \<Rightarrow> per_fd_data \<times> 'k \<times> addr list" where
  "ep_handle perform event s =
     ep_handle_dir perform EPOLLOUT event (ep_handle_dir perform EPOLLIN event (fst s, snd s, []))"

section \<open>Cancelling and closing\<close>

text \<open>\<open>cancel_op\<close>: the slot is cleared only when it still holds the operation; the result says whether the
  operation is to be published.\<close>

definition ep_cancel_op :: "ep_flag \<Rightarrow> addr \<Rightarrow> per_fd_data \<Rightarrow> bool \<times> per_fd_data" where
  "ep_cancel_op d op p = (if fd_op d p = Some op then (True, fd_set_op d None p) else (False, p))"

text \<open>\<open>io_object::cancel\<close>: both slots are emptied, their operations published.\<close>

definition io_cancel :: "per_fd_data \<Rightarrow> addr list \<times> per_fd_data" where
  "io_cancel p =
     ((case fd_in_op p of None \<Rightarrow> [] | Some a \<Rightarrow> [a]) @
        (case fd_out_op p of None \<Rightarrow> [] | Some a \<Rightarrow> [a]),
      p\<lparr>fd_in_op := None, fd_out_op := None\<rparr>)"

end
