(* ===== verification/Epoll_Reactor.thy ===== *)
theory Epoll_Reactor
  imports Epoll_Entry
begin

text \<open>
  The reactor of \<open>epoll_context\<close> under interleaving, for one \<open>io_object\<close>: the thread that starts an
  operation (at most one at a time, as initiations on an object are serialized), the consumer thread in
  \<open>do_one\<close>, threads that cancel, and the kernel. The entry is accessed under \<open>fd_lock\<close>, so
  \<open>register_event\<close>, the handling of an event and \<open>cancel_op\<close> are one step each; the system call that would
  block and the registration that follows it are two, and in between the kernel may report an edge and
  the loop may handle it.

  The kernel is not a function here: its steps are all those that the documentation of edge-triggered
  epoll allows. \<open>ek_ready\<close> are the conditions that hold of the descriptor now, \<open>ek_mask\<close> the registered
  mask, \<open>ek_queued\<close> the flags that have become true since the last report.
\<close>

record ep_kernel =
  ek_ready :: "ep_flag set"
  ek_mask :: "ep_flag set"
  ek_queued :: "ep_flag set"

text \<open>\<open>EPOLLERR\<close> and \<open>EPOLLHUP\<close> are always reported.\<close>

definition ek_reported :: "ep_flag set \<Rightarrow> ep_flag set" where
  "ek_reported m = (if m = {} then {} else m \<union> {EPOLLERR, EPOLLHUP})"

text \<open>\<open>epoll_ctl\<close>: it fails and changes nothing, or it sets the mask and queues what holds already.\<close>

definition ek_ctl_allowed :: "ep_flag set \<Rightarrow> ep_kernel \<Rightarrow> int option \<Rightarrow> ep_kernel \<Rightarrow> bool" where
  "ek_ctl_allowed ev k r k' \<longleftrightarrow>
     (case r of
        Some e \<Rightarrow> k' = k
      | None \<Rightarrow> ek_ready k' = ek_ready k \<and> ek_mask k' = ev \<and>
          ek_queued k \<union> (ek_ready k \<inter> ek_reported ev) \<subseteq> ek_queued k')"

text \<open>A condition becomes true: an edge is queued if the mask asks for it.\<close>

definition ek_raise_allowed :: "ep_flag set \<Rightarrow> ep_kernel \<Rightarrow> ep_kernel \<Rightarrow> bool" where
  "ek_raise_allowed F k k' \<longleftrightarrow> ek_ready k' = ek_ready k \<union> F \<and> ek_mask k' = ek_mask k \<and>
     ek_queued k \<union> (F \<inter> ek_reported (ek_mask k)) \<subseteq> ek_queued k'"

text \<open>\<open>epoll_wait\<close> reports at least the queued flags that still hold.\<close>

definition ek_wait_allowed :: "ep_kernel \<Rightarrow> ep_flag set \<Rightarrow> ep_kernel \<Rightarrow> bool" where
  "ek_wait_allowed k E k' \<longleftrightarrow> ek_queued k \<inter> ek_ready k \<subseteq> E \<and> k' = k\<lparr>ek_queued := {}\<rparr>"

text \<open>A system call in the direction \<open>d\<close>: it would block only if no condition that concerns it holds;
  otherwise it may use up what it reads, or room to write, or a pending error.\<close>

definition ek_io_allowed :: "ep_flag \<Rightarrow> ep_kernel \<Rightarrow> bool \<times> ep_kernel \<Rightarrow> bool" where
  "ek_io_allowed d k r \<longleftrightarrow>
     (if fst r then ek_ready (snd r) \<subseteq> ek_ready k \<and> ek_mask (snd r) = ek_mask k \<and> ek_queued (snd r) = ek_queued k
      else ek_ready k \<inter> ep_interest d = {} \<and> snd r = k)"

datatype ep_pc = EIdle | ETry ep_flag addr | EReg ep_flag addr

record ep_sys =
  es_data :: per_fd_data
  es_kernel :: ep_kernel
  es_batch :: "ep_flag set option"
  es_pc :: ep_pc
  es_used :: "addr set"
  es_done :: "addr list"
  es_failed :: bool

definition ep_start :: ep_sys where
  "ep_start = \<lparr>es_data = \<lparr>fd_events = {}, fd_ready = {}, fd_in_op = None, fd_out_op = None\<rparr>,
     es_kernel = \<lparr>ek_ready = {}, ek_mask = {}, ek_queued = {}\<rparr>, es_batch = None, es_pc = EIdle, es_used = {},
     es_done = [], es_failed = False\<rparr>"

text \<open>What the starter does after \<open>register_event\<close>.\<close>

definition ep_after_register ::
  "ep_flag \<Rightarrow> addr \<Rightarrow> error + (register_result \<times> per_fd_data \<times> ep_kernel) \<Rightarrow> ep_sys \<Rightarrow> ep_sys" where
  "ep_after_register d a r s =
     (case r of
        Inl e \<Rightarrow> s\<lparr>es_failed := True\<rparr>
      | Inr (res, p, k) \<Rightarrow>
          (case res of
             RegArmed \<Rightarrow> s\<lparr>es_data := p, es_kernel := k, es_pc := EIdle\<rparr>
           | RegReady \<Rightarrow> s\<lparr>es_data := p, es_kernel := k, es_pc := ETry d a\<rparr>
           | RegFailure e \<Rightarrow> s\<lparr>es_data := p, es_kernel := k, es_pc := EIdle, es_done := es_done s @ [a]\<rparr>))"

text \<open>What \<open>do_one\<close> makes of an event.\<close>

definition ep_after_handle :: "per_fd_data \<times> ep_kernel \<times> addr list \<Rightarrow> ep_sys \<Rightarrow> ep_sys" where
  "ep_after_handle r s =
     s\<lparr>es_data := fst r, es_kernel := fst (snd r), es_batch := None, es_done := es_done s @ snd (snd r)\<rparr>"

inductive ep_step :: "ep_sys \<Rightarrow> ep_sys \<Rightarrow> bool" where
  raise: "ek_raise_allowed F (es_kernel s) k \<Longrightarrow> ep_step s (s\<lparr>es_kernel := k\<rparr>)"
| fetch: "es_batch s = None \<Longrightarrow> ek_wait_allowed (es_kernel s) E k \<Longrightarrow>
    ep_step s (s\<lparr>es_kernel := k, es_batch := Some E\<rparr>)"
| handle: "es_batch s = Some E \<Longrightarrow>
    (\<And>a k. fd_in_op (es_data s) = Some a \<Longrightarrow> ek_io_allowed EPOLLIN k (perform a k)) \<Longrightarrow>
    (\<And>a k. fd_out_op (es_data s) = Some a \<Longrightarrow> ek_io_allowed EPOLLOUT k (perform a k)) \<Longrightarrow>
    ep_step s (ep_after_handle (ep_handle perform E (es_data s, es_kernel s)) s)"
| start: "es_pc s = EIdle \<Longrightarrow> d \<in> {EPOLLIN, EPOLLOUT} \<Longrightarrow> fd_op d (es_data s) = None \<Longrightarrow> a \<notin> es_used s \<Longrightarrow>
    ep_step s (s\<lparr>es_pc := ETry d a, es_used := insert a (es_used s)\<rparr>)"
| try_done: "es_pc s = ETry d a \<Longrightarrow> ek_io_allowed d (es_kernel s) (True, k) \<Longrightarrow>
    ep_step s (s\<lparr>es_kernel := k, es_pc := EIdle, es_done := es_done s @ [a]\<rparr>)"
| try_block: "es_pc s = ETry d a \<Longrightarrow> ek_io_allowed d (es_kernel s) (False, k) \<Longrightarrow>
    ep_step s (s\<lparr>es_kernel := k, es_pc := EReg d a\<rparr>)"
| register: "es_pc s = EReg d a \<Longrightarrow>
    ek_ctl_allowed (ep_wanted d (es_data s)) (es_kernel s) r k \<Longrightarrow>
    ep_step s (ep_after_register d a (register_event (\<lambda>_ _ _. (r, k)) d a (es_data s, es_kernel s)) s)"
| cancel: "d \<in> {EPOLLIN, EPOLLOUT} \<Longrightarrow> ep_cancel_op d a (es_data s) = (True, p) \<Longrightarrow>
    ep_step s (s\<lparr>es_data := p, es_done := es_done s @ [a]\<rparr>)"
| cancel_all: "io_cancel (es_data s) = (as, p) \<Longrightarrow>
    ep_step s (s\<lparr>es_data := p, es_done := es_done s @ as\<rparr>)"

inductive ep_reachable :: "ep_sys \<Rightarrow> bool" where
  start: "ep_reachable ep_start"
| step: "ep_reachable s \<Longrightarrow> ep_step s t \<Longrightarrow> ep_reachable t"

section \<open>The invariant\<close>

text \<open>\<open>ep_coming s\<close>: the flags on their way to the handler.\<close>

definition ep_coming :: "ep_sys \<Rightarrow> ep_flag set" where
  "ep_coming s = ek_queued (es_kernel s) \<union> (case es_batch s of None \<Rightarrow> {} | Some E \<Rightarrow> E)"

text \<open>An armed operation: its direction is in the mask, and what holds for it is coming.\<close>

definition ep_armed_ok :: "ep_flag \<Rightarrow> ep_sys \<Rightarrow> bool" where
  "ep_armed_ok d s \<longleftrightarrow> (fd_op d (es_data s) \<noteq> None \<longrightarrow>
     d \<in> fd_events (es_data s) \<and> ek_ready (es_kernel s) \<inter> ep_interest d \<subseteq> ep_coming s)"

text \<open>The starter between the blocked call and the registration: what holds is coming or recorded, unless the
  mask lacks the direction, in which case \<open>epoll_ctl\<close> will be called.\<close>

definition ep_starter_ok :: "ep_sys \<Rightarrow> bool" where
  "ep_starter_ok s \<longleftrightarrow>
     (case es_pc s of
        EIdle \<Rightarrow> True
      | ETry d a \<Rightarrow> d \<in> {EPOLLIN, EPOLLOUT} \<and> fd_op d (es_data s) = None
      | EReg d a \<Rightarrow> d \<in> {EPOLLIN, EPOLLOUT} \<and> fd_op d (es_data s) = None \<and>
          (d \<in> fd_events (es_data s) \<longrightarrow>
             ek_ready (es_kernel s) \<inter> ep_interest d \<subseteq> ep_coming s \<union> fd_ready (es_data s)))"

text \<open>Every operation is in at most one place.\<close>

definition ep_places :: "ep_sys \<Rightarrow> addr list" where
  "ep_places s = es_done s @
     (case fd_in_op (es_data s) of None \<Rightarrow> [] | Some a \<Rightarrow> [a]) @
     (case fd_out_op (es_data s) of None \<Rightarrow> [] | Some a \<Rightarrow> [a]) @
     (case es_pc s of EIdle \<Rightarrow> [] | ETry d a \<Rightarrow> [a] | EReg d a \<Rightarrow> [a])"

definition ep_inv :: "ep_sys \<Rightarrow> bool" where
  "ep_inv s \<longleftrightarrow> ek_mask (es_kernel s) = fd_events (es_data s) \<and> ep_armed_ok EPOLLIN s \<and> ep_armed_ok EPOLLOUT s \<and>
     ep_starter_ok s \<and> mset (ep_places s) = mset_set (es_used s) \<and> finite (es_used s) \<and> \<not> es_failed s"

lemmas ep_inv_defs = ep_inv_def ep_armed_ok_def ep_starter_ok_def ep_places_def ep_coming_def

lemma ep_inv_start: "ep_inv ep_start"
  by (simp add: ep_inv_defs ep_start_def fd_op_def)

lemma fd_op_simps [simp]:
  "fd_op EPOLLIN p = fd_in_op p" "fd_op EPOLLOUT p = fd_out_op p"
  "fd_set_op EPOLLIN q p = p\<lparr>fd_in_op := q\<rparr>" "fd_set_op EPOLLOUT q p = p\<lparr>fd_out_op := q\<rparr>"
  by (simp_all add: fd_op_def fd_set_op_def)

lemma ek_reported_mem: "d \<in> m \<Longrightarrow> ep_interest d \<subseteq> ek_reported m"
  by (auto simp: ek_reported_def ep_interest_def)

text \<open>What a step has to show of the flags: what holds afterwards either held before or is coming.\<close>

lemma ep_armed_okI:
  assumes "ep_armed_ok d s" "fd_op d (es_data t) = fd_op d (es_data s)"
    and "fd_op d (es_data s) \<noteq> None \<Longrightarrow> d \<in> fd_events (es_data s) \<Longrightarrow> d \<in> fd_events (es_data t)"
    and "\<And>f. fd_op d (es_data s) \<noteq> None \<Longrightarrow> d \<in> fd_events (es_data s) \<Longrightarrow> f \<in> ep_interest d \<Longrightarrow>
      f \<in> ek_ready (es_kernel t) \<Longrightarrow> f \<in> ek_ready (es_kernel s) \<and> f \<notin> ep_coming s \<or> f \<in> ep_coming t"
  shows "ep_armed_ok d t"
  unfolding ep_armed_ok_def
proof (intro impI conjI subsetI)
  assume op: "fd_op d (es_data t) \<noteq> None"
  then have o: "fd_op d (es_data s) \<noteq> None" using assms(2) by simp
  then have d: "d \<in> fd_events (es_data s)" "ek_ready (es_kernel s) \<inter> ep_interest d \<subseteq> ep_coming s"
    using assms(1) by (simp_all add: ep_armed_ok_def)
  show "d \<in> fd_events (es_data t)" using assms(3) o d by blast
  fix f assume "f \<in> ek_ready (es_kernel t) \<inter> ep_interest d"
  then show "f \<in> ep_coming t" using assms(4) [of f] o d by blast
qed

lemma ep_starter_okI:
  assumes "ep_starter_ok s" "es_pc t = es_pc s"
    and "\<And>d a. es_pc s \<in> {ETry d a, EReg d a} \<Longrightarrow> fd_op d (es_data s) = None \<Longrightarrow> fd_op d (es_data t) = None"
    and "fd_events (es_data t) = fd_events (es_data s)"
    and "\<And>d a f. es_pc s = EReg d a \<Longrightarrow> fd_op d (es_data s) = None \<Longrightarrow> d \<in> fd_events (es_data s) \<Longrightarrow>
      f \<in> ep_interest d \<Longrightarrow> f \<in> ek_ready (es_kernel t) \<Longrightarrow>
      f \<in> ek_ready (es_kernel s) \<and> f \<notin> ep_coming s \<union> fd_ready (es_data s) \<or> f \<in> ep_coming t \<union> fd_ready (es_data t)"
  shows "ep_starter_ok t"
proof (cases "es_pc s")
  case EIdle
  then show ?thesis using assms(2) by (simp add: ep_starter_ok_def)
next
  case (ETry d a)
  then show ?thesis using assms(1,2) assms(3) [of d a] by (simp add: ep_starter_ok_def)
next
  case (EReg d a)
  then have h: "d \<in> {EPOLLIN, EPOLLOUT}" "fd_op d (es_data s) = None"
    "d \<in> fd_events (es_data s) \<longrightarrow> ek_ready (es_kernel s) \<inter> ep_interest d \<subseteq> ep_coming s \<union> fd_ready (es_data s)"
    using assms(1) by (simp_all add: ep_starter_ok_def)
  have "ek_ready (es_kernel t) \<inter> ep_interest d \<subseteq> ep_coming t \<union> fd_ready (es_data t)"
    if "d \<in> fd_events (es_data s)"
  proof
    fix f assume "f \<in> ek_ready (es_kernel t) \<inter> ep_interest d"
    then show "f \<in> ep_coming t \<union> fd_ready (es_data t)" using assms(5) [OF EReg h(2) that, of f] h(3) that by blast
  qed
  then show ?thesis using EReg h assms(2,4) assms(3) [of d a] by (simp add: ep_starter_ok_def)
qed

lemma ep_inv_raise:
  assumes i: "ep_inv s" and r: "ek_raise_allowed F (es_kernel s) k"
  shows "ep_inv (s\<lparr>es_kernel := k\<rparr>)"
proof -
  let ?t = "s\<lparr>es_kernel := k\<rparr>"
  have k: "ek_ready k = ek_ready (es_kernel s) \<union> F" "ek_mask k = ek_mask (es_kernel s)"
    "ek_queued (es_kernel s) \<union> (F \<inter> ek_reported (fd_events (es_data s))) \<subseteq> ek_queued k"
    using i r by (simp_all add: ep_inv_def ek_raise_allowed_def)
  have coming: "f \<in> ep_coming ?t"
    if "f \<in> ep_coming s \<or> f \<in> F \<and> f \<in> ep_interest d \<and> d \<in> fd_events (es_data s)" for f d
    using that k(3) ek_reported_mem [of d "fd_events (es_data s)"] by (auto simp: ep_coming_def)
  have "ep_armed_ok d ?t" if "ep_armed_ok d s" for d
    by (rule ep_armed_okI [OF that]) (use coming k(1) in auto)
  moreover have "ep_starter_ok ?t"
    by (rule ep_starter_okI [of s]) (use i coming k(1) in \<open>auto simp: ep_inv_def\<close>)
  ultimately show ?thesis using i k(2) by (simp add: ep_inv_def ep_places_def)
qed

lemma ep_inv_fetch:
  assumes i: "ep_inv s" and b: "es_batch s = None" and r: "ek_wait_allowed (es_kernel s) E k"
  shows "ep_inv (s\<lparr>es_kernel := k, es_batch := Some E\<rparr>)"
proof -
  let ?t = "s\<lparr>es_kernel := k, es_batch := Some E\<rparr>"
  have k: "k = (es_kernel s)\<lparr>ek_queued := {}\<rparr>" "ek_queued (es_kernel s) \<inter> ek_ready (es_kernel s) \<subseteq> E"
    using r by (simp_all add: ek_wait_allowed_def)
  have coming: "f \<in> ep_coming ?t" if "f \<in> ep_coming s" "f \<in> ek_ready (es_kernel s)" for f
    using that k b by (auto simp: ep_coming_def)
  have "ep_armed_ok d ?t" if "ep_armed_ok d s" for d
    by (rule ep_armed_okI [OF that]) (use coming k(1) in auto)
  moreover have "ep_starter_ok ?t"
    by (rule ep_starter_okI [of s]) (use i coming k(1) in \<open>auto simp: ep_inv_def\<close>)
  ultimately show ?thesis using i k(1) by (simp add: ep_inv_def ep_places_def)
qed

lemma ep_inv_cancel:
  assumes i: "ep_inv s" and d: "d \<in> {EPOLLIN, EPOLLOUT}" and c: "ep_cancel_op d a (es_data s) = (True, p)"
  shows "ep_inv (s\<lparr>es_data := p, es_done := es_done s @ [a]\<rparr>)"
proof -
  let ?t = "s\<lparr>es_data := p, es_done := es_done s @ [a]\<rparr>"
  have p: "fd_op d (es_data s) = Some a" "p = fd_set_op d None (es_data s)"
    using c by (simp_all add: ep_cancel_op_def split: if_splits)
  have "ep_armed_ok d' ?t" if "ep_armed_ok d' s" "d' \<in> {EPOLLIN, EPOLLOUT}" for d'
  proof (cases "d' = d")
    case True
    then show ?thesis using p d by (auto simp: ep_armed_ok_def)
  next
    case False
    then have "fd_op d' p = fd_op d' (es_data s)" using p(2) d that(2) by auto
    then show ?thesis by (intro ep_armed_okI [OF that(1)]) (use p(2) d in \<open>auto simp: ep_coming_def\<close>)
  qed
  moreover have "ep_starter_ok ?t"
  proof (rule ep_starter_okI [of s])
    show "ep_starter_ok s" using i by (simp add: ep_inv_def)
    show "fd_op d' (es_data ?t) = None" if "fd_op d' (es_data s) = None" for d'
      using that p(2) d by (auto simp: fd_op_def)
    show "fd_events (es_data ?t) = fd_events (es_data s)" using p(2) d by auto
    have "ep_coming ?t = ep_coming s" "fd_ready p = fd_ready (es_data s)" using p(2) d by (auto simp: ep_coming_def)
    then show "f \<in> ek_ready (es_kernel s) \<and> f \<notin> ep_coming s \<union> fd_ready (es_data s) \<or>
        f \<in> ep_coming ?t \<union> fd_ready (es_data ?t)" if "f \<in> ek_ready (es_kernel ?t)" for f
      using that by auto
  qed simp
  moreover have "mset (ep_places ?t) = mset (ep_places s)" using d p by (auto simp: ep_places_def)
  ultimately show ?thesis using i p(2) d by (auto simp: ep_inv_def)
qed

lemma ep_inv_cancel_all:
  assumes i: "ep_inv s" and c: "io_cancel (es_data s) = (as, p)"
  shows "ep_inv (s\<lparr>es_data := p, es_done := es_done s @ as\<rparr>)"
proof -
  let ?t = "s\<lparr>es_data := p, es_done := es_done s @ as\<rparr>"
  have p: "p = (es_data s)\<lparr>fd_in_op := None, fd_out_op := None\<rparr>" using c by (simp add: io_cancel_def)
  have "ep_armed_ok d ?t" for d using p by (simp add: ep_armed_ok_def fd_op_def)
  moreover have "ep_starter_ok ?t"
  proof (rule ep_starter_okI [of s])
    show "ep_starter_ok s" using i by (simp add: ep_inv_def)
    have "ep_coming ?t = ep_coming s" by (simp add: ep_coming_def)
    then show "f \<in> ek_ready (es_kernel s) \<and> f \<notin> ep_coming s \<union> fd_ready (es_data s) \<or>
        f \<in> ep_coming ?t \<union> fd_ready (es_data ?t)" if "f \<in> ek_ready (es_kernel ?t)" for f
      using that p by auto
  qed (simp_all add: p fd_op_def)
  moreover have "mset (ep_places ?t) = mset (ep_places s)"
    using c by (auto simp: ep_places_def io_cancel_def)
  ultimately show ?thesis using i p by (simp add: ep_inv_def)
qed

text \<open>One direction of an event, whatever the operation's system call does within what is allowed.\<close>

lemma ep_handle_dir_cases:
  assumes d: "d \<in> {EPOLLIN, EPOLLOUT}"
    and io: "\<And>a k. fd_op d p = Some a \<Longrightarrow> ek_io_allowed d k (perform a k)"
    and h: "ep_handle_dir perform d E (p, k, dn) = (p', k', dn')"
  shows "fd_events p' = fd_events p" "fd_ready p \<subseteq> fd_ready p'" "d' \<noteq> d \<Longrightarrow> d' \<in> {EPOLLIN, EPOLLOUT} \<Longrightarrow> fd_op d' p' = fd_op d' p"
    "ek_mask k' = ek_mask k" "ek_queued k' = ek_queued k" "ek_ready k' \<subseteq> ek_ready k"
    "fd_op d p = None \<Longrightarrow> fd_op d p' = None \<and> dn' = dn \<and> E \<inter> ep_interest d \<subseteq> fd_ready p'"
    "fd_op d p = Some a \<Longrightarrow> fd_op d p' = None \<and> dn' = dn @ [a] \<or>
      fd_op d p' = Some a \<and> dn' = dn \<and> (E \<inter> ep_interest d = {} \<or> ek_ready k' \<inter> ep_interest d = {})"
proof -
  obtain fin k1 where r: "\<And>a. fd_op d p = Some a \<Longrightarrow> perform a k = (fin, k1)"
    by (cases "fd_op d p") (auto intro: prod.collapse [symmetric])
  have io': "ek_io_allowed d k (fin, k1)" if "fd_op d p = Some a" for a using io [OF that, of k] r [OF that] by simp
  note facts = d h io' r
  show "fd_events p' = fd_events p" "fd_ready p \<subseteq> fd_ready p'"
    using d h r by (cases "fd_op d p"; auto simp: ep_handle_dir_def split: if_splits)+
  show "d' \<noteq> d \<Longrightarrow> d' \<in> {EPOLLIN, EPOLLOUT} \<Longrightarrow> fd_op d' p' = fd_op d' p"
    using d h r by (cases "fd_op d p") (auto simp: ep_handle_dir_def split: if_splits)
  show "ek_mask k' = ek_mask k" "ek_queued k' = ek_queued k" "ek_ready k' \<subseteq> ek_ready k"
    using d h r io' by (cases "fd_op d p"; auto simp: ep_handle_dir_def ek_io_allowed_def split: if_splits)+
  show "fd_op d p = None \<Longrightarrow> fd_op d p' = None \<and> dn' = dn \<and> E \<inter> ep_interest d \<subseteq> fd_ready p'"
    using d h by (auto simp: ep_handle_dir_def split: if_splits)
  show "fd_op d p = Some a \<Longrightarrow> fd_op d p' = None \<and> dn' = dn @ [a] \<or>
      fd_op d p' = Some a \<and> dn' = dn \<and> (E \<inter> ep_interest d = {} \<or> ek_ready k' \<inter> ep_interest d = {})"
    using d h r io' by (auto simp: ep_handle_dir_def ek_io_allowed_def split: if_splits)
qed

lemma ep_inv_handle:
  assumes i: "ep_inv s" and b: "es_batch s = Some E"
    and io1: "\<And>a k. fd_in_op (es_data s) = Some a \<Longrightarrow> ek_io_allowed EPOLLIN k (perform a k)"
    and io2: "\<And>a k. fd_out_op (es_data s) = Some a \<Longrightarrow> ek_io_allowed EPOLLOUT k (perform a k)"
  shows "ep_inv (ep_after_handle (ep_handle perform E (es_data s, es_kernel s)) s)"
proof -
  let ?p = "es_data s" and ?k = "es_kernel s"
  obtain p1 k1 dn1 where h1: "ep_handle_dir perform EPOLLIN E (?p, ?k, []) = (p1, k1, dn1)" by (metis prod_cases3)
  obtain p2 k2 dn2 where h2: "ep_handle_dir perform EPOLLOUT E (p1, k1, dn1) = (p2, k2, dn2)" by (metis prod_cases3)
  let ?t = "s\<lparr>es_data := p2, es_kernel := k2, es_batch := None, es_done := es_done s @ dn2\<rparr>"
  have t: "ep_after_handle (ep_handle perform E (?p, ?k)) s = ?t"
    using h1 h2 by (simp add: ep_after_handle_def ep_handle_def)
  have dirs: "EPOLLIN \<in> {EPOLLIN, EPOLLOUT}" "EPOLLOUT \<in> {EPOLLIN, EPOLLOUT}" by simp_all
  have io1': "\<And>a k. fd_op EPOLLIN ?p = Some a \<Longrightarrow> ek_io_allowed EPOLLIN k (perform a k)" using io1 by simp
  note c1 = ep_handle_dir_cases [OF dirs(1) io1' h1, simplified]
  have out1: "fd_out_op p1 = fd_out_op ?p" using c1(3) [of EPOLLOUT] by simp
  have io2': "\<And>a k. fd_op EPOLLOUT p1 = Some a \<Longrightarrow> ek_io_allowed EPOLLOUT k (perform a k)" using io2 out1 by simp
  note c2 = ep_handle_dir_cases [OF dirs(2) io2' h2, simplified]
  have in2: "fd_in_op p2 = fd_in_op p1" using c2(3) [of EPOLLIN] by simp
  have cs: "ep_coming s = ek_queued ?k \<union> E" "ep_coming ?t = ek_queued ?k"
    using b c1(5) c2(5) by (simp_all add: ep_coming_def)
  have sub: "ek_ready k2 \<subseteq> ek_ready k1" "ek_ready k1 \<subseteq> ek_ready ?k" "fd_ready p1 \<subseteq> fd_ready p2" "fd_ready ?p \<subseteq> fd_ready p1"
    using c1 c2 by simp_all
  have armed: "ep_armed_ok EPOLLIN s" "ep_armed_ok EPOLLOUT s" "ep_starter_ok s" using i by (simp_all add: ep_inv_def)
  have quiet_in: "fd_in_op p2 \<noteq> None \<Longrightarrow> E \<inter> ep_interest EPOLLIN = {} \<or> ek_ready k2 \<inter> ep_interest EPOLLIN = {}"
    using c1(7,8) sub(1) in2 by (cases "fd_in_op ?p") auto
  have quiet_out: "fd_out_op p2 \<noteq> None \<Longrightarrow> E \<inter> ep_interest EPOLLOUT = {} \<or> ek_ready k2 \<inter> ep_interest EPOLLOUT = {}"
    using c2(7,8) by (cases "fd_out_op p1") auto
  have live: "fd_in_op p2 \<noteq> None \<Longrightarrow> fd_in_op ?p \<noteq> None" "fd_out_op p2 \<noteq> None \<Longrightarrow> fd_out_op ?p \<noteq> None"
    using c1(7) c2(7) in2 out1 by metis+
  have a_in: "ep_armed_ok EPOLLIN ?t"
    using armed(1) quiet_in live(1) sub cs c1(1) c2(1) unfolding ep_armed_ok_def by (simp, blast)
  have a_out: "ep_armed_ok EPOLLOUT ?t"
    using armed(2) quiet_out live(2) sub cs c1(1) c2(1) unfolding ep_armed_ok_def by (simp, blast)
  have none_in: "fd_in_op ?p = None \<Longrightarrow> fd_in_op p2 = None \<and> E \<inter> ep_interest EPOLLIN \<subseteq> fd_ready p2"
    using c1(7) in2 sub(3) by (metis subset_trans)
  have none_out: "fd_out_op ?p = None \<Longrightarrow> fd_out_op p2 = None \<and> E \<inter> ep_interest EPOLLOUT \<subseteq> fd_ready p2"
    using c2(7) out1 by metis
  have "ep_starter_ok ?t"
  proof (rule ep_starter_okI [OF armed(3)])
    have none: "fd_op d p2 = None \<and> E \<inter> ep_interest d \<subseteq> fd_ready p2" if "d \<in> {EPOLLIN, EPOLLOUT}" "fd_op d ?p = None" for d
      using that none_in none_out by auto
    have dir: "d \<in> {EPOLLIN, EPOLLOUT}" if "es_pc s \<in> {ETry d a, EReg d a}" for d a
      using armed(3) that by (auto simp: ep_starter_ok_def)
    show "fd_op d (es_data ?t) = None" if "es_pc s \<in> {ETry d a, EReg d a}" "fd_op d ?p = None" for d a
      using none [of d] dir [OF that(1)] that(2) by simp
    show "f \<in> ek_ready ?k \<and> f \<notin> ep_coming s \<union> fd_ready ?p \<or> f \<in> ep_coming ?t \<union> fd_ready (es_data ?t)"
      if "es_pc s = EReg d a" "fd_op d ?p = None" "f \<in> ep_interest d" "f \<in> ek_ready (es_kernel ?t)" for d a f
      using none [of d] dir [of d a] that sub cs by auto
  qed (use c1(1) c2(1) in simp_all)
  moreover have "mset (ep_places ?t) = mset (ep_places s)"
    using c1(7,8) c2(7,8) in2 out1 by (cases "fd_in_op ?p"; cases "fd_out_op ?p") (auto simp: ep_places_def)
  ultimately show ?thesis unfolding t using i a_in a_out c1(1,4) c2(1,4) by (simp add: ep_inv_def)
qed

lemma ep_inv_begin:
  assumes i: "ep_inv s" and pc: "es_pc s = EIdle" "d \<in> {EPOLLIN, EPOLLOUT}" "fd_op d (es_data s) = None"
    and a: "a \<notin> es_used s"
  shows "ep_inv (s\<lparr>es_pc := ETry d a, es_used := insert a (es_used s)\<rparr>)"
  using assms by (simp add: ep_inv_defs)

lemma ep_inv_try:
  assumes i: "ep_inv s" and pc: "es_pc s = ETry d a" and io: "ek_io_allowed d (es_kernel s) (fin, k)"
  shows "ep_inv (if fin then s\<lparr>es_kernel := k, es_pc := EIdle, es_done := es_done s @ [a]\<rparr>
    else s\<lparr>es_kernel := k, es_pc := EReg d a\<rparr>)"
proof (cases fin)
  case True
  let ?t = "s\<lparr>es_kernel := k, es_pc := EIdle, es_done := es_done s @ [a]\<rparr>"
  have k: "ek_ready k \<subseteq> ek_ready (es_kernel s)" "ek_mask k = ek_mask (es_kernel s)" "ek_queued k = ek_queued (es_kernel s)"
    using io True by (simp_all add: ek_io_allowed_def)
  have "ep_armed_ok d' ?t" if "ep_armed_ok d' s" for d'
    by (rule ep_armed_okI [OF that]) (use k in \<open>auto simp: ep_coming_def\<close>)
  then show ?thesis using True i k(2) pc by (simp add: ep_inv_def ep_starter_ok_def ep_places_def)
next
  case False
  then have "k = es_kernel s" "ek_ready k \<inter> ep_interest d = {}" using io by (simp_all add: ek_io_allowed_def)
  then show ?thesis using False i pc by (simp add: ep_inv_defs)
qed

text \<open>\<open>register_event\<close>: if no edge is recorded, either the mask does not change and what holds is coming, or
  \<open>epoll_ctl\<close> queues what holds.\<close>

lemma ep_inv_register:
  assumes i: "ep_inv s" and pc: "es_pc s = EReg d a"
    and ctl: "ek_ctl_allowed (ep_wanted d (es_data s)) (es_kernel s) r k"
  shows "ep_inv (ep_after_register d a (register_event (\<lambda>_ _ _. (r, k)) d a (es_data s, es_kernel s)) s)"
proof -
  let ?p = "es_data s" and ?k = "es_kernel s"
  have d: "d \<in> {EPOLLIN, EPOLLOUT}" "fd_op d ?p = None"
    and reg: "d \<in> fd_events ?p \<longrightarrow> ek_ready ?k \<inter> ep_interest d \<subseteq> ep_coming s \<union> fd_ready ?p"
    using i pc by (simp_all add: ep_inv_def ep_starter_ok_def)
  let ?ev = "ep_wanted d ?p"
  show ?thesis
  proof (cases "fd_ready ?p \<inter> ep_interest d = {}")
    case False
    then have "register_event (\<lambda>_ _ _. (r, k)) d a (?p, ?k) =
        Inr (RegReady, ?p\<lparr>fd_ready := fd_ready ?p - ep_interest d\<rparr>, ?k)"
      using d unfolding register_event_def Let_def by auto
    then show ?thesis using i pc d by (auto simp: ep_after_register_def ep_inv_defs fd_op_def)
  next
    case True
    define r' where "r' = (if ?ev = fd_events ?p then (None, ?k) else (r, k))"
    have reg_eq: "register_event (\<lambda>_ _ _. (r, k)) d a (?p, ?k) =
        (case fst r' of None \<Rightarrow> Inr (RegArmed, fd_set_op d (Some a) (?p\<lparr>fd_events := ?ev\<rparr>), snd r')
         | Some e \<Rightarrow> Inr (RegFailure e, ?p, snd r'))"
    proof -
      have "\<not> (d \<noteq> EPOLLIN \<and> d \<noteq> EPOLLOUT)" using d(1) by simp
      then show ?thesis using d(2) True by (simp add: register_event_def r'_def Let_def split: option.split)
    qed
    show ?thesis
    proof (cases "fst r'")
      case (Some e)
      then have "snd r' = ?k" using ctl by (auto simp: r'_def ek_ctl_allowed_def split: if_splits)
      then show ?thesis using Some i pc by (simp add: reg_eq ep_after_register_def ep_inv_defs)
    next
      case None
      let ?q = "fd_set_op d (Some a) (?p\<lparr>fd_events := ?ev\<rparr>)"
      let ?t = "s\<lparr>es_data := ?q, es_kernel := snd r', es_pc := EIdle\<rparr>"
      have t: "ep_after_register d a (register_event (\<lambda>_ _ _. (r, k)) d a (?p, ?k)) s = ?t"
        using None by (simp add: reg_eq ep_after_register_def)
      have ev: "d \<in> ?ev" "\<And>d'. d' \<in> {EPOLLIN, EPOLLOUT} \<Longrightarrow> fd_op d' ?p \<noteq> None \<Longrightarrow> d' \<in> ?ev"
        by (auto simp: ep_wanted_def)
      have k: "ek_ready (snd r') = ek_ready ?k" "ek_mask (snd r') = ?ev" "ek_queued ?k \<subseteq> ek_queued (snd r')"
        using i None ctl by (auto simp: r'_def ek_ctl_allowed_def ep_inv_def split: if_splits)
      have now: "ek_ready ?k \<inter> ep_interest d \<subseteq> ep_coming ?t"
      proof (cases "?ev = fd_events ?p")
        case True
        then show ?thesis using reg ev(1) \<open>fd_ready ?p \<inter> ep_interest d = {}\<close>
          by (auto simp: r'_def ep_coming_def)
      next
        case False
        then have "ek_ready ?k \<inter> ek_reported ?ev \<subseteq> ek_queued (snd r')"
          using None ctl by (simp add: r'_def ek_ctl_allowed_def)
        then show ?thesis using ek_reported_mem [OF ev(1)] by (auto simp: ep_coming_def)
      qed
      have fields: "fd_events ?q = ?ev" "fd_op d ?q = Some a"
        "\<And>d'. d' \<noteq> d \<Longrightarrow> d' \<in> {EPOLLIN, EPOLLOUT} \<Longrightarrow> fd_op d' ?q = fd_op d' ?p"
        using d(1) by auto
      have "ep_armed_ok d' ?t" if "d' \<in> {EPOLLIN, EPOLLOUT}" "ep_armed_ok d' s" for d'
      proof (cases "d' = d")
        case True
        then show ?thesis using now ev(1) fields k(1) by (simp add: ep_armed_ok_def)
      next
        case False
        show ?thesis
          by (rule ep_armed_okI [OF that(2)])
            (use False that(1) fields ev(2) k in \<open>auto simp: ep_coming_def split: option.splits\<close>)
      qed
      moreover have "mset (ep_places ?t) = mset (ep_places s)" using d pc by (auto simp: ep_places_def)
      ultimately show ?thesis unfolding t using i k(2) fields(1) by (simp add: ep_inv_def ep_starter_ok_def)
    qed
  qed
qed

lemma ep_step_inv: "ep_step s t \<Longrightarrow> ep_inv s \<Longrightarrow> ep_inv t"
proof (induction rule: ep_step.induct)
  case (try_done s d a k)
  then show ?case using ep_inv_try [of s d a True k] by simp
next
  case (try_block s d a k)
  then show ?case using ep_inv_try [of s d a False k] by simp
next
  case (start s d a)
  then show ?case by (intro ep_inv_begin)
qed (simp_all only: ep_inv_raise ep_inv_fetch ep_inv_handle ep_inv_begin ep_inv_register ep_inv_cancel
    ep_inv_cancel_all)

lemma ep_reachable_inv: "ep_reachable s \<Longrightarrow> ep_inv s"
  by (induction rule: ep_reachable.induct) (simp_all add: ep_inv_start ep_step_inv)

section \<open>Properties\<close>

lemma ep_places_distinct:
  assumes "ep_inv s"
  shows "distinct (ep_places s)" "set (ep_places s) = es_used s"
proof -
  have m: "mset (ep_places s) = mset_set (es_used s)" "finite (es_used s)" using assms by (simp_all add: ep_inv_def)
  show "set (ep_places s) = es_used s" using m by (metis finite_set_mset_mset_set set_mset_mset)
  have "size (mset (ep_places s)) = card (es_used s)" using m by (simp only: size_mset_set)
  then show "distinct (ep_places s)" using \<open>set (ep_places s) = es_used s\<close> by (simp add: card_distinct)
qed

text \<open>A run: a read that would block is registered, then data arrives.\<close>

definition ep_demo_armed :: ep_sys where
  "ep_demo_armed = ep_start\<lparr>es_data := \<lparr>fd_events = {EPOLLIN, EPOLLET}, fd_ready = {}, fd_in_op = Some 7,
     fd_out_op = None\<rparr>, es_kernel := \<lparr>ek_ready = {}, ek_mask = {EPOLLIN, EPOLLET}, ek_queued = {}\<rparr>, es_used := {7}\<rparr>"

definition ep_demo_ready :: ep_sys where
  "ep_demo_ready = ep_demo_armed\<lparr>es_kernel := \<lparr>ek_ready = {EPOLLIN}, ek_mask = {EPOLLIN, EPOLLET},
     ek_queued = {EPOLLIN}\<rparr>\<rparr>"

lemma ep_demo_reachable: "ep_reachable ep_demo_ready"
proof -
  let ?trying = "ep_start\<lparr>es_pc := ETry EPOLLIN 7, es_used := insert 7 (es_used ep_start)\<rparr>"
  let ?reg = "?trying\<lparr>es_kernel := es_kernel ep_start, es_pc := EReg EPOLLIN 7\<rparr>"
  have "ep_step ep_start ?trying" by (rule ep_step.start) (simp_all add: ep_start_def)
  moreover have "ep_step ?trying ?reg"
    by (rule ep_step.try_block) (simp_all add: ep_start_def ek_io_allowed_def)
  moreover have "ep_step ?reg ep_demo_armed"
  proof -
    have "ek_ctl_allowed (ep_wanted EPOLLIN (es_data ?reg)) (es_kernel ?reg) None
        \<lparr>ek_ready = {}, ek_mask = {EPOLLIN, EPOLLET}, ek_queued = {}\<rparr>"
      by (auto simp: ek_ctl_allowed_def ep_start_def ep_wanted_def)
    from ep_step.register [of ?reg EPOLLIN 7, OF _ this] show ?thesis
      by (simp add: ep_demo_armed_def ep_after_register_def register_event_def ep_start_def ep_wanted_def Let_def)
  qed
  moreover have "ep_step ep_demo_armed ep_demo_ready"
    unfolding ep_demo_ready_def
    by (rule ep_step.raise [of "{EPOLLIN}"]) (simp add: ek_raise_allowed_def ep_demo_armed_def ek_reported_def)
  ultimately show ?thesis using ep_reachable.intros by blast
qed

text \<open>C15. No readiness is lost: whatever the interleaving of starting, waiting, handling and cancelling, a
  condition that holds for an armed operation is queued in the kernel or in the hands of the loop, so the
  loop will let the operation try again. If neither has anything for it, the operation really would
  block. The delicate case is an edge handled between the call that would block and its registration.\<close>

theorem epoll_no_lost_readiness:
  assumes "ep_reachable s" "d \<in> {EPOLLIN, EPOLLOUT}" "fd_op d (es_data s) = Some a"
  shows "ek_ready (es_kernel s) \<inter> ep_interest d \<subseteq>
      ek_queued (es_kernel s) \<union> (case es_batch s of None \<Rightarrow> {} | Some E \<Rightarrow> E) \<and>
    (ek_queued (es_kernel s) = {} \<and> es_batch s = None \<longrightarrow> ek_ready (es_kernel s) \<inter> ep_interest d = {})"
  using ep_reachable_inv [OF assms(1)] assms(2,3) by (auto simp: ep_inv_def ep_armed_ok_def ep_coming_def)

theorem epoll_no_lost_readiness_witness:
  "fd_op EPOLLIN (es_data ep_demo_ready) = Some 7 \<and> EPOLLIN \<in> ek_queued (es_kernel ep_demo_ready)"
proof -
  have "fd_op EPOLLIN (es_data ep_demo_ready) = Some 7" by (simp add: ep_demo_ready_def ep_demo_armed_def)
  moreover from epoll_no_lost_readiness [OF ep_demo_reachable _ this]
  have "ek_ready (es_kernel ep_demo_ready) \<inter> ep_interest EPOLLIN \<subseteq> ek_queued (es_kernel ep_demo_ready)"
    by (simp add: ep_demo_ready_def ep_demo_armed_def ep_start_def)
  ultimately show ?thesis by (simp add: ep_demo_ready_def ep_interest_def)
qed

text \<open>C16. An operation completes at most once: at any time an operation that has been started is at exactly one
  place, in the hands of its starter, in a slot of the entry, or completed (by the starter, the loop or a
  canceller), and the assertions of \<open>register_event\<close> hold.\<close>

theorem epoll_completes_at_most_once:
  assumes "ep_reachable s"
  shows "distinct (ep_places s) \<and> set (ep_places s) = es_used s \<and> \<not> es_failed s"
  using ep_reachable_inv [OF assms] ep_places_distinct by (simp add: ep_inv_def)

theorem epoll_completes_at_most_once_witness: "ep_places ep_demo_ready = [7] \<and> es_used ep_demo_ready = {7}"
  using epoll_completes_at_most_once [OF ep_demo_reachable]
  by (simp add: ep_places_def ep_demo_ready_def ep_demo_armed_def ep_start_def)

end
