(* ===== verification/Object_Pool.thy ===== *)
theory Object_Pool
  imports Prelude
begin

text \<open>
  The recycling pool of \<open>include/coio/detail/object_pool.h\<close>: a free list through the member that
  \<open>NextAccessor\<close> names. Objects are created by the allocator when the list is empty and destroyed with the
  pool. \<open>lock_\<close> is held throughout each operation.
\<close>

record object_pool =
  pool_next :: links
  pool_free :: ptr

definition pool_new :: object_pool where
  "pool_new = \<lparr>pool_next = (\<lambda>_. None), pool_free = None\<rparr>"

text \<open>\<open>fresh\<close>: what the allocator returns if it is asked.\<close>

definition pool_acquire :: "ptr \<Rightarrow> object_pool \<Rightarrow> error + (addr \<times> object_pool)" where
  "pool_acquire fresh p =
     (case pool_free p of
        Some a \<Rightarrow> Inr (a, p\<lparr>pool_free := pool_next p a\<rparr>)
      | None \<Rightarrow> (case fresh of None \<Rightarrow> Inl BadAlloc | Some a \<Rightarrow> Inr (a, p\<lparr>pool_next := (pool_next p)(a := None)\<rparr>)))"

definition pool_release :: "addr \<Rightarrow> object_pool \<Rightarrow> object_pool" where
  "pool_release a p = p\<lparr>pool_next := (pool_next p)(a := pool_free p), pool_free := Some a\<rparr>"

text \<open>The destructor: the objects it deletes, in order.\<close>

partial_function (option) pool_destroy :: "links \<Rightarrow> addr list \<Rightarrow> ptr \<Rightarrow> addr list option" where
  "pool_destroy nx deleted free =
     (case free of None \<Rightarrow> Some deleted | Some a \<Rightarrow> pool_destroy nx (deleted @ [a]) (nx a))"

section \<open>The free list\<close>

definition pool_rep :: "object_pool \<Rightarrow> addr list \<Rightarrow> bool" where
  "pool_rep p xs \<longleftrightarrow> chain (pool_next p) (pool_free p) xs"

lemma pool_rep_new: "pool_rep pool_new []"
  by (simp add: pool_rep_def pool_new_def)

lemma pool_acquire_rep:
  assumes "pool_rep p xs" "fresh = Some b \<longrightarrow> b \<notin> set xs" "pool_acquire fresh p = Inr (a, q)"
  shows "pool_rep q (tl xs)" "xs \<noteq> [] \<longrightarrow> a = hd xs" "xs = [] \<longrightarrow> fresh = Some a" "a \<notin> set (tl xs)"
  using assms chain_distinct [of "pool_next p" "pool_free p" xs]
  by (auto simp: pool_rep_def pool_acquire_def chain_Some split: option.splits)

lemma pool_acquire_fails:
  assumes "pool_rep p xs" "pool_acquire fresh p = Inl e"
  shows "xs = [] \<and> fresh = None \<and> e = BadAlloc"
  using assms by (auto simp: pool_rep_def pool_acquire_def split: option.splits)

lemma pool_release_rep: "pool_rep p xs \<Longrightarrow> a \<notin> set xs \<Longrightarrow> pool_rep (pool_release a p) (a # xs)"
  by (simp add: pool_rep_def pool_release_def)

text \<open>The destructor deletes every free object exactly once.\<close>

lemma pool_destroy_loop: "chain nx free xs \<Longrightarrow> pool_destroy nx ys free = Some (ys @ xs)"
  by (induction xs arbitrary: free ys) (simp_all add: pool_destroy.simps)

lemma pool_destroy_rep: "pool_rep p xs \<Longrightarrow> pool_destroy (pool_next p) [] (pool_free p) = Some xs \<and> distinct xs"
  using pool_destroy_loop [of _ _ xs "[]"] by (auto simp: pool_rep_def dest: chain_distinct)

end
