(* ===== verification/Linux_Common.thy ===== *)
theory Linux_Common
  imports Prelude
begin

text \<open>
  What the Linux backends share (\<open>src/linux/common.h\<close>): turning \<open>errno\<close> into an exception and waiting for a
  descriptor; and the loop that the blocking operations of \<open>src/linux/net/socket.cpp\<close> and
  \<open>src/linux/asyncio/file.cpp\<close> share.

  A system call is a function of the state \<open>'w\<close> of the world: a call that returns \<open>-1\<close> yields its \<open>errno\<close>.
  The \<open>errno\<close> values are those of Linux.
\<close>

type_synonym ('a, 'w) sys_call = "'w \<Rightarrow> (int + 'a) \<times> 'w"

definition EPERM :: int where "EPERM = 1"
definition EINTR :: int where "EINTR = 4"
definition EBADF :: int where "EBADF = 9"
definition EAGAIN :: int where "EAGAIN = 11"
definition EINVAL :: int where "EINVAL = 22"
definition EOVERFLOW :: int where "EOVERFLOW = 75"
definition EISCONN :: int where "EISCONN = 106"
definition EALREADY :: int where "EALREADY = 114"
definition EINPROGRESS :: int where "EINPROGRESS = 115"
definition ECANCELED :: int where "ECANCELED = 125"

lemmas errno_defs = EPERM_def EINTR_def EBADF_def EAGAIN_def EOVERFLOW_def EISCONN_def EALREADY_def EINPROGRESS_def

text \<open>\<open>EWOULDBLOCK\<close> and \<open>EAGAIN\<close> are the same number.\<close>

definition is_blocking_errno :: "int \<Rightarrow> bool" where
  "is_blocking_errno e \<longleftrightarrow> e = EAGAIN"

text \<open>\<open>throw_last_error\<close>: an exception for \<open>-1\<close>; \<open>no_errno_here\<close>: \<open>std::terminate\<close> for \<open>-1\<close>.\<close>

definition throw_last_error :: "int + 'a \<Rightarrow> error + 'a" where
  "throw_last_error r = (case r of Inl e \<Rightarrow> Inl (SystemError e) | Inr v \<Rightarrow> Inr v)"

definition no_errno_here :: "int + 'a \<Rightarrow> error + 'a" where
  "no_errno_here r = (case r of Inl e \<Rightarrow> Inl Terminate | Inr v \<Rightarrow> Inr v)"

lemma throw_last_error_simps [simp]:
  "throw_last_error (Inl e) = Inl (SystemError e)" "throw_last_error (Inr v) = Inr v"
  by (simp_all add: throw_last_error_def)

text \<open>Waiting without a timeout; a signal only repeats the call.\<close>

partial_function (option) poll_file :: "(nat, 'w) sys_call \<Rightarrow> 'w \<Rightarrow> ((error + unit) \<times> 'w) option" where
  "poll_file poll w =
     (case fst (poll w) of
        Inl e \<Rightarrow> if e = EINTR then poll_file poll (snd (poll w)) else Some (Inl (SystemError e), snd (poll w))
      | Inr n \<Rightarrow> Some (Inr (), snd (poll w)))"

text \<open>The loop of a blocking operation on a descriptor that may be non-blocking: while the call would block,
  wait for the descriptor and try again.\<close>

partial_function (option) io_retry ::
  "('a, 'w) sys_call \<Rightarrow> (nat, 'w) sys_call \<Rightarrow> 'w \<Rightarrow> ((error + 'a) \<times> 'w) option" where
  "io_retry call poll w =
     (case fst (call w) of
        Inl e \<Rightarrow>
          if is_blocking_errno e then
            (case poll_file poll (snd (call w)) of
               None \<Rightarrow> None
             | Some r \<Rightarrow>
                 (case fst r of
                    Inl err \<Rightarrow> Some (Inl err, snd r)
                  | Inr _ \<Rightarrow> io_retry call poll (snd r)))
          else Some (Inl (SystemError e), snd (call w))
      | Inr v \<Rightarrow> Some (Inr v, snd (call w)))"

section \<open>When the loops return\<close>

text \<open>\<open>poll_returns poll w r w'\<close>: after finitely many interruptions \<open>poll\<close> answers \<open>r\<close>.\<close>

inductive poll_returns :: "(nat, 'w) sys_call \<Rightarrow> 'w \<Rightarrow> int + nat \<Rightarrow> 'w \<Rightarrow> bool" for poll where
  answer: "poll w = (r, w') \<Longrightarrow> r \<noteq> Inl EINTR \<Longrightarrow> poll_returns poll w r w'"
| interrupted: "poll w = (Inl EINTR, w1) \<Longrightarrow> poll_returns poll w1 r w' \<Longrightarrow> poll_returns poll w r w'"

lemma poll_file_returns:
  "poll_returns poll w r w' \<Longrightarrow> poll_file poll w = Some (map_sum SystemError (\<lambda>_. ()) r, w')"
  by (induction rule: poll_returns.induct) (subst poll_file.simps; auto split: sum.splits)+

text \<open>
  \<open>retries call poll w r w'\<close>: the call that is repeated whenever \<open>poll\<close> returns answers \<open>r\<close>, the first answer
  that is not \<open>EAGAIN\<close>, or \<open>poll\<close> fails with \<open>r\<close>.
\<close>

inductive retries :: "('a, 'w) sys_call \<Rightarrow> (nat, 'w) sys_call \<Rightarrow> 'w \<Rightarrow> int + 'a \<Rightarrow> 'w \<Rightarrow> bool" for call poll where
  final: "call w = (r, w') \<Longrightarrow> r \<noteq> Inl EAGAIN \<Longrightarrow> retries call poll w r w'"
| poll_error: "call w = (Inl EAGAIN, w1) \<Longrightarrow> poll_returns poll w1 (Inl e) w' \<Longrightarrow> retries call poll w (Inl e) w'"
| again: "call w = (Inl EAGAIN, w1) \<Longrightarrow> poll_returns poll w1 (Inr n) w2 \<Longrightarrow> retries call poll w2 r w' \<Longrightarrow>
    retries call poll w r w'"

lemma io_retry_returns: "retries call poll w r w' \<Longrightarrow> io_retry call poll w = Some (throw_last_error r, w')"
proof (induction rule: retries.induct)
  case (final w r w')
  then show ?case by (subst io_retry.simps) (auto simp: is_blocking_errno_def split: sum.splits)
next
  case (poll_error w w1 e w')
  then show ?case by (subst io_retry.simps) (simp add: is_blocking_errno_def poll_file_returns)
next
  case (again w w1 n w2 r w')
  then show ?case by (subst io_retry.simps) (simp add: is_blocking_errno_def poll_file_returns)
qed

text \<open>Conversely, what the loop returns is such an answer.\<close>

lemma poll_file_result:
  "poll_file poll w = Some y \<Longrightarrow>
     \<exists>r. poll_returns poll w r (snd y) \<and> fst y = map_sum SystemError (\<lambda>_. ()) r"
proof (induction rule: poll_file.raw_induct [rotated, consumes 1, case_names 1])
  case (1 self poll w y)
  obtain r w1 where c: "poll w = (r, w1)" by fastforce
  show ?case
  proof (cases "r = Inl EINTR")
    case True
    with 1(2) c have "self poll w1 = Some y" by simp
    from 1(1) [OF this] show ?thesis using c True by (blast intro: poll_returns.interrupted)
  next
    case False
    with 1(2) c have "y = (map_sum SystemError (\<lambda>_. ()) r, w1)" by (auto split: sum.splits if_splits)
    then show ?thesis using poll_returns.answer [of poll w r w1, OF c False] by auto
  qed
qed

lemma io_retry_result:
  "io_retry call poll w = Some y \<Longrightarrow> \<exists>r. retries call poll w r (snd y) \<and> fst y = throw_last_error r"
proof (induction rule: io_retry.raw_induct [rotated, consumes 1, case_names 1])
  case (1 self call poll w y)
  obtain r w1 where c: "call w = (r, w1)" by fastforce
  show ?case
  proof (cases "r = Inl EAGAIN")
    case True
    with 1(2) c obtain p where p: "poll_file poll w1 = Some p"
      by (auto simp: is_blocking_errno_def split: option.splits)
    from poll_file_result [OF p] obtain q where
      q: "poll_returns poll w1 q (snd p)" "fst p = map_sum SystemError (\<lambda>_. ()) q" by blast
    show ?thesis
    proof (cases q)
      case (Inl e)
      then have "y = (Inl (SystemError e), snd p)" using 1(2) c True p q by (simp add: is_blocking_errno_def)
      then show ?thesis using retries.poll_error [of call w w1 poll e "snd p"] c True q Inl by auto
    next
      case (Inr n)
      then have "self call poll (snd p) = Some y" using 1(2) c True p q by (simp add: is_blocking_errno_def)
      from 1(1) [OF this] show ?thesis using c True q Inr by (blast intro: retries.again)
    qed
  next
    case False
    with 1(2) c have "y = (throw_last_error r, w1)"
      by (auto simp: is_blocking_errno_def split: sum.splits if_splits)
    then show ?thesis using retries.final [of call w r w1 poll, OF c False] by auto
  qed
qed

lemma io_retry_iff: "io_retry call poll w = Some (x, w') \<longleftrightarrow> (\<exists>r. retries call poll w r w' \<and> x = throw_last_error r)"
  using io_retry_result [of call poll w "(x, w')"] io_retry_returns [of call poll w _ w'] by auto

end
