(* ===== verification/Net_Basic.thy ===== *)
theory Net_Basic
  imports Prelude "HOL-Library.List_Lexorder"
begin

text \<open>
  Addresses and endpoints: \<open>include/coio/net/basic.h\<close> and \<open>src/linux/net/basic.cpp\<close>. An
  \<open>ipv4_address\<close> keeps its number in network byte order, so what its member is as a number depends on
  the byte order of the machine: \<open>le\<close> says whether it is little-endian. \<open>mem32\<close> is the object
  representation of a \<open>std::uint32_t\<close>. The conversions from and to text are \<open>inet_pton\<close> and \<open>inet_ntop\<close>,
  parameters here.
\<close>

unbundle bit_operations_syntax

section \<open>Byte order\<close>

definition mem32_le :: "32 word \<Rightarrow> byte list" where
  "mem32_le w = [ucast w, ucast (drop_bit 8 w), ucast (drop_bit 16 w), ucast (drop_bit 24 w)]"

definition unmem32_le :: "byte list \<Rightarrow> 32 word" where
  "unmem32_le bs = ucast (bs ! 0) OR push_bit 8 (ucast (bs ! 1)) OR push_bit 16 (ucast (bs ! 2)) OR
     push_bit 24 (ucast (bs ! 3))"

definition mem32 :: "bool \<Rightarrow> 32 word \<Rightarrow> byte list" where
  "mem32 le w = (if le then mem32_le w else rev (mem32_le w))"

definition unmem32 :: "bool \<Rightarrow> byte list \<Rightarrow> 32 word" where
  "unmem32 le bs = unmem32_le (if le then bs else rev bs)"

text \<open>\<open>htonl\<close>, \<open>ntohl\<close>, \<open>htons\<close> and \<open>ntohs\<close>: the identity on a big-endian machine.\<close>

definition htonl :: "bool \<Rightarrow> 32 word \<Rightarrow> 32 word" where
  "htonl le w = (if le then unmem32_le (rev (mem32_le w)) else w)"

definition ntohl :: "bool \<Rightarrow> 32 word \<Rightarrow> 32 word" where
  "ntohl le w = htonl le w"

definition htons :: "bool \<Rightarrow> 16 word \<Rightarrow> 16 word" where
  "htons le w = (if le then push_bit 8 w OR drop_bit 8 w else w)"

definition ntohs :: "bool \<Rightarrow> 16 word \<Rightarrow> 16 word" where
  "ntohs le w = htons le w"

text \<open>\<open>reverse_bytes\<close>: swapping from both ends towards the middle.\<close>

function reverse_bytes_loop :: "nat \<Rightarrow> nat \<Rightarrow> 'a list \<Rightarrow> 'a list" where
  "reverse_bytes_loop i j bs =
     (if i < j then reverse_bytes_loop (i + 1) (j - 1) (bs[i := bs ! j, j := bs ! i]) else bs)"
  by pat_completeness auto

termination by (relation "measure (\<lambda>(i, j, bs). j - i)") auto

declare reverse_bytes_loop.simps [simp del]

definition reverse_bytes :: "'a list \<Rightarrow> 'a list" where
  "reverse_bytes bs = (if bs = [] then bs else reverse_bytes_loop 0 (length bs - 1) bs)"

text \<open>\<open>host_to_net\<close> and \<open>net_to_host\<close> on the object representation of any trivially copyable value.\<close>

definition host_to_net :: "bool \<Rightarrow> byte list \<Rightarrow> byte list" where
  "host_to_net le bs = (if le then reverse_bytes bs else bs)"

definition net_to_host :: "bool \<Rightarrow> byte list \<Rightarrow> byte list" where
  "net_to_host le bs = (if le then reverse_bytes bs else bs)"

section \<open>Addresses\<close>

datatype ipv4_address = Ipv4 (net_u32: "32 word")

definition ipv4_of_host :: "bool \<Rightarrow> 32 word \<Rightarrow> ipv4_address" where
  "ipv4_of_host le host_u32 = Ipv4 (htonl le host_u32)"

definition ipv4_of_octets :: "bool \<Rightarrow> byte \<Rightarrow> byte \<Rightarrow> byte \<Rightarrow> byte \<Rightarrow> ipv4_address" where
  "ipv4_of_octets le a b c d =
     ipv4_of_host le (push_bit 24 (ucast a) OR push_bit 16 (ucast b) OR push_bit 8 (ucast c) OR ucast d)"

text \<open>\<open>pton\<close> is \<open>inet_pton\<close>: the object representation it stores, or nothing if it does not return 1.\<close>

definition ipv4_of_string :: "bool \<Rightarrow> (string \<Rightarrow> byte list option) \<Rightarrow> string \<Rightarrow> error + ipv4_address" where
  "ipv4_of_string le pton s =
     (case pton s of None \<Rightarrow> Inl InvalidArgument | Some bs \<Rightarrow> Inr (Ipv4 (unmem32 le bs)))"

definition ipv4_to_string :: "bool \<Rightarrow> (byte list \<Rightarrow> string) \<Rightarrow> ipv4_address \<Rightarrow> string" where
  "ipv4_to_string le ntop a = ntop (mem32 le (net_u32 a))"

definition ipv4_loopback :: "bool \<Rightarrow> ipv4_address" where
  "ipv4_loopback le = ipv4_of_host le 0x7f000001"

definition ipv4_any :: ipv4_address where
  "ipv4_any = Ipv4 0"

definition ipv4_eq :: "bool \<Rightarrow> ipv4_address \<Rightarrow> ipv4_address \<Rightarrow> bool" where
  "ipv4_eq le a b \<longleftrightarrow> ntohl le (net_u32 a) = ntohl le (net_u32 b)"

datatype ipv6_address = Ipv6 (v6_val: "byte list")

definition ipv6_any :: ipv6_address where
  "ipv6_any = Ipv6 (replicate 16 0)"

definition ipv6_of_string :: "(string \<Rightarrow> byte list option) \<Rightarrow> string \<Rightarrow> error + ipv6_address" where
  "ipv6_of_string pton s = (case pton s of None \<Rightarrow> Inl InvalidArgument | Some bs \<Rightarrow> Inr (Ipv6 bs))"

definition ipv6_to_string :: "(byte list \<Rightarrow> string) \<Rightarrow> ipv6_address \<Rightarrow> string" where
  "ipv6_to_string ntop a = ntop (v6_val a)"

definition ipv6_loopback :: ipv6_address where
  "ipv6_loopback = Ipv6 ((v6_val ipv6_any)[15 := 1])"

definition ipv6_v4_mapped :: "bool \<Rightarrow> ipv4_address \<Rightarrow> ipv6_address" where
  "ipv6_v4_mapped le ipv4 =
     (let val = (v6_val ipv6_any)[11 := 0xff, 10 := 0xff]
      in Ipv6 (fold (\<lambda>i v. v[12 + i := mem32 le (net_u32 ipv4) ! i]) [0..<4] val))"

text \<open>The tagged union \<open>ip_address\<close>, whose tag is the version.\<close>

datatype ip_address = V4 (ip_v4: ipv4_address) | V6 (ip_v6: ipv6_address)

definition ip_version :: "ip_address \<Rightarrow> nat" where
  "ip_version a = (case a of V4 _ \<Rightarrow> 4 | V6 _ \<Rightarrow> 6)"

definition ip_to_string :: "bool \<Rightarrow> (byte list \<Rightarrow> string) \<Rightarrow> (byte list \<Rightarrow> string) \<Rightarrow> ip_address \<Rightarrow> string" where
  "ip_to_string le ntop4 ntop6 a =
     (case a of V4 x \<Rightarrow> ipv4_to_string le ntop4 x | V6 x \<Rightarrow> ipv6_to_string ntop6 x)"

definition ip_eq :: "bool \<Rightarrow> ip_address \<Rightarrow> ip_address \<Rightarrow> bool" where
  "ip_eq le a b =
     (if ip_version a \<noteq> ip_version b then False
      else (case (a, b) of (V4 x, V4 y) \<Rightarrow> ipv4_eq le x y | (V6 x, V6 y) \<Rightarrow> x = y | _ \<Rightarrow> False))"

datatype endpoint = Endpoint (ep_ip: ip_address) (ep_port: "16 word")

definition endpoint_eq :: "bool \<Rightarrow> endpoint \<Rightarrow> endpoint \<Rightarrow> bool" where
  "endpoint_eq le a b \<longleftrightarrow> ip_eq le (ep_ip a) (ep_ip b) \<and> ep_port a = ep_port b"

text \<open>The three-way comparisons: negative, zero or positive.\<close>

definition cmp :: "'a::linorder \<Rightarrow> 'a \<Rightarrow> int" where
  "cmp x y = (if x < y then - 1 else if x = y then 0 else 1)"

definition ipv4_cmp :: "bool \<Rightarrow> ipv4_address \<Rightarrow> ipv4_address \<Rightarrow> int" where
  "ipv4_cmp le a b = cmp (ntohl le (net_u32 a)) (ntohl le (net_u32 b))"

definition ipv6_cmp :: "ipv6_address \<Rightarrow> ipv6_address \<Rightarrow> int" where
  "ipv6_cmp a b = cmp (v6_val a) (v6_val b)"

definition ip_cmp :: "bool \<Rightarrow> ip_address \<Rightarrow> ip_address \<Rightarrow> int" where
  "ip_cmp le a b =
     (if ip_version a \<noteq> ip_version b then cmp (ip_version a) (ip_version b)
      else (case (a, b) of (V4 x, V4 y) \<Rightarrow> ipv4_cmp le x y | (V6 x, V6 y) \<Rightarrow> ipv6_cmp x y | _ \<Rightarrow> 0))"

definition endpoint_cmp :: "bool \<Rightarrow> endpoint \<Rightarrow> endpoint \<Rightarrow> int" where
  "endpoint_cmp le a b =
     (let c = ip_cmp le (ep_ip a) (ep_ip b) in if c \<noteq> 0 then c else cmp (ep_port a) (ep_port b))"

section \<open>Socket addresses\<close>

text \<open>A \<open>sockaddr\<close> with its family; \<open>SockOther\<close> stands for the families the code does not know.\<close>

datatype sockaddr =
    SockIn (sin_port: "16 word") (sin_addr: "32 word")
  | SockIn6 (sin6_port: "16 word") (sin6_flowinfo: "32 word") (sin6_addr: "byte list") (sin6_scope: "32 word")
  | SockOther int

definition endpoint_to_sockaddr_in :: "bool \<Rightarrow> endpoint \<Rightarrow> sockaddr" where
  "endpoint_to_sockaddr_in le addr =
     (case ep_ip addr of
        V4 a \<Rightarrow> SockIn (htons le (ep_port addr)) (net_u32 a)
      | V6 a \<Rightarrow> SockIn6 (htons le (ep_port addr)) 0 (v6_val a) 0)"

text \<open>An unknown family is \<open>unreachable()\<close>.\<close>

definition sockaddr_to_endpoint :: "bool \<Rightarrow> sockaddr \<Rightarrow> error + endpoint" where
  "sockaddr_to_endpoint le sa =
     (case sa of
        SockIn p a \<Rightarrow> Inr (Endpoint (V4 (Ipv4 a)) (ntohs le p))
      | SockIn6 p f a s \<Rightarrow> Inr (Endpoint (V6 (Ipv6 a)) (ntohs le p))
      | SockOther f \<Rightarrow> Inl Terminate)"

definition sockaddr_storage_to_endpoint :: "bool \<Rightarrow> sockaddr \<Rightarrow> error + endpoint" where
  "sockaddr_storage_to_endpoint le sa = sockaddr_to_endpoint le sa"

text \<open>\<open>to_sockaddr\<close>: the address with its length in bytes.\<close>

definition to_sockaddr :: "sockaddr \<Rightarrow> sockaddr \<times> nat" where
  "to_sockaddr sa = (sa, case sa of SockIn _ _ \<Rightarrow> 16 | SockIn6 _ _ _ _ \<Rightarrow> 28 | SockOther _ \<Rightarrow> 0)"

section \<open>Facts about byte order\<close>

lemma mem32_le_inverse: "unmem32_le (mem32_le w) = w"
proof (rule bit_word_eqI)
  fix n assume "n < LENGTH(32)"
  consider "n < 8" | "8 \<le> n" "n < 16" | "16 \<le> n" "n < 24" | "24 \<le> n" "n < 32"
    using \<open>n < LENGTH(32)\<close> by fastforce
  then show "bit (unmem32_le (mem32_le w)) n = bit w n"
    by cases (auto simp: unmem32_le_def mem32_le_def bit_simps)
qed

lemma unmem32_le_inverse: "mem32_le (unmem32_le [a, b, c, d]) = [a, b, c, d]"
proof -
  have "bit x m \<Longrightarrow> m < 8" for x :: byte and m using bit_imp_le_length [of x m] by simp
  then show ?thesis
    by (fastforce simp: unmem32_le_def mem32_le_def bit_simps intro!: bit_word_eqI)
qed

lemma mem32_le_octets:
  "mem32_le (push_bit 24 (ucast a) OR push_bit 16 (ucast b) OR push_bit 8 (ucast c) OR ucast d) = [d, c, b, a]"
proof -
  have "push_bit 24 (ucast a) OR push_bit 16 (ucast b) OR push_bit 8 (ucast c) OR ucast d =
      unmem32_le [d, c, b, a]" by (simp add: unmem32_le_def ac_simps)
  then show ?thesis by (simp only: unmem32_le_inverse)
qed

lemma mem32_le_list: obtains a b c d where "mem32_le w = [a, b, c, d]"
  by (simp add: mem32_le_def)

lemma mem32_le_htonl: "mem32_le (htonl True w) = rev (mem32_le w)"
proof -
  obtain a b c d where "mem32_le w = [a, b, c, d]" by (rule mem32_le_list)
  then show ?thesis using unmem32_le_inverse [of d c b a] by (simp add: htonl_def)
qed

lemma mem32_inj: "mem32_le w = mem32_le v \<Longrightarrow> w = v"
  using mem32_le_inverse by metis

lemma htonl_involution [simp]: "htonl le (htonl le w) = w"
proof (cases le)
  case True
  then have "mem32_le (htonl le (htonl le w)) = mem32_le w" by (simp add: mem32_le_htonl)
  then show ?thesis by (rule mem32_inj)
qed (simp add: htonl_def)

lemma htons_involution [simp]: "htons le (htons le w) = w"
proof (cases le)
  case True
  then have h: "htons le v = push_bit 8 v OR drop_bit 8 v" for v by (simp add: htons_def)
  show ?thesis
  proof (rule bit_word_eqI)
    fix n assume n: "n < LENGTH(16)"
    have "bit w m \<Longrightarrow> m < 16" for m using bit_imp_le_length [of w m] by simp
    then show "bit (htons le (htons le w)) n = bit w n"
      using n unfolding h by (cases "n < 8") (auto simp: bit_simps)
  qed
qed (simp add: htons_def)

text \<open>The network representation is big-endian on every machine.\<close>

lemma mem32_htonl: "mem32 le (htonl le w) = rev (mem32_le w)"
  by (simp add: mem32_def mem32_le_htonl) (simp add: htonl_def)

lemma ntohl_host [simp]: "ntohl le (net_u32 (ipv4_of_host le u)) = u"
  by (simp add: ntohl_def ipv4_of_host_def)

lemma ntohl_inj: "ntohl le (net_u32 a) = ntohl le (net_u32 b) \<longleftrightarrow> a = b"
  unfolding ntohl_def by (metis htonl_involution ipv4_address.expand)

lemma reverse_bytes_loop_nth:
  "j < length bs \<Longrightarrow> length (reverse_bytes_loop i j bs) = length bs \<and>
   (\<forall>k < length bs. reverse_bytes_loop i j bs ! k = (if i \<le> k \<and> k \<le> j then bs ! (i + j - k) else bs ! k))"
proof (induction i j bs rule: reverse_bytes_loop.induct)
  case (1 i j bs)
  show ?case
  proof (cases "i < j")
    case True
    let ?bs = "bs[i := bs ! j, j := bs ! i]"
    have ih: "length (reverse_bytes_loop (i + 1) (j - 1) ?bs) = length ?bs"
      "\<forall>k < length ?bs. reverse_bytes_loop (i + 1) (j - 1) ?bs ! k =
        (if i + 1 \<le> k \<and> k \<le> j - 1 then ?bs ! (i + 1 + (j - 1) - k) else ?bs ! k)"
      using 1 True by simp_all
    show ?thesis
      using ih True 1(2) by (auto simp: reverse_bytes_loop.simps [of i j bs] nth_list_update)
  next
    case False
    then have "i + j - k = k" if "i \<le> k" "k \<le> j" for k using that by linarith
    then show ?thesis using False by (auto simp: reverse_bytes_loop.simps [of i j bs])
  qed
qed

lemma reverse_bytes_rev: "reverse_bytes bs = rev bs"
proof (cases "bs = []")
  case False
  then have "length bs - 1 < length bs" by simp
  note r = reverse_bytes_loop_nth [OF this, of 0]
  have "reverse_bytes_loop 0 (length bs - 1) bs = rev bs"
    by (rule nth_equalityI) (use r in \<open>auto simp: rev_nth\<close>)
  then show ?thesis using False by (simp add: reverse_bytes_def)
qed (simp add: reverse_bytes_def)

section \<open>The order of endpoints\<close>

lemma cmp_simps:
  "cmp x y = 0 \<longleftrightarrow> x = y" "cmp x y < 0 \<longleftrightarrow> x < y" "cmp x y \<le> 0 \<longleftrightarrow> x \<le> y"
  by (auto simp: cmp_def)

text \<open>What the comparisons order by: the version, then the number or the bytes, then the port.\<close>

definition ip_key :: "bool \<Rightarrow> ip_address \<Rightarrow> nat \<times> 32 word \<times> byte list" where
  "ip_key le a = (case a of V4 x \<Rightarrow> (4, ntohl le (net_u32 x), []) | V6 x \<Rightarrow> (6, 0, v6_val x))"

lemma ip_key_inj: "ip_key le a = ip_key le b \<longleftrightarrow> a = b"
  by (cases a; cases b) (auto simp: ip_key_def ntohl_inj ipv6_address.expand)

text \<open>The order of a little-endian machine, as an instance of the library's class.\<close>

definition endpoint_le :: "bool \<Rightarrow> endpoint \<Rightarrow> endpoint \<Rightarrow> bool" where
  "endpoint_le le a b \<longleftrightarrow> endpoint_cmp le a b \<le> 0"

lemma ip_cmp_key:
  "ip_cmp le a b = 0 \<longleftrightarrow> ip_key le a = ip_key le b"
  "ip_cmp le a b < 0 \<longleftrightarrow> (case (ip_key le a, ip_key le b) of ((v, x, y), (v', x', y')) \<Rightarrow>
     v < v' \<or> v = v' \<and> (x < x' \<or> x = x' \<and> y < y'))"
  by (cases a; cases b; simp add: ip_cmp_def ip_version_def ip_key_def ipv4_cmp_def ipv6_cmp_def cmp_simps cmp_def)+

lemma endpoint_le_iff:
  "endpoint_le le a b \<longleftrightarrow> ip_cmp le (ep_ip a) (ep_ip b) < 0 \<or>
     ep_ip a = ep_ip b \<and> ep_port a \<le> ep_port b"
  using ip_cmp_key(1) [of le "ep_ip a" "ep_ip b"]
  by (auto simp: endpoint_le_def endpoint_cmp_def Let_def cmp_simps ip_key_inj)

lemma ip_cmp_order:
  "\<not> ip_cmp le a a < 0" "ip_cmp le a b < 0 \<Longrightarrow> ip_cmp le b c < 0 \<Longrightarrow> ip_cmp le a c < 0"
  "ip_cmp le a b < 0 \<or> a = b \<or> ip_cmp le b a < 0"
proof -
  show "\<not> ip_cmp le a a < 0" using ip_cmp_key(1) [of le a a] by simp
  show "ip_cmp le a b < 0 \<Longrightarrow> ip_cmp le b c < 0 \<Longrightarrow> ip_cmp le a c < 0"
    unfolding ip_cmp_key(2) by (auto split: prod.splits)
  show "ip_cmp le a b < 0 \<or> a = b \<or> ip_cmp le b a < 0"
    using ip_key_inj [of le a b] unfolding ip_cmp_key(2) by (auto split: prod.splits)
qed

lemma ip_cmp_asym: "ip_cmp le a b < 0 \<Longrightarrow> \<not> ip_cmp le b a < 0"
  using ip_cmp_order(1) [of le a] ip_cmp_order(2) [of le a b a] by blast

instantiation endpoint :: linorder
begin

definition less_eq_endpoint :: "endpoint \<Rightarrow> endpoint \<Rightarrow> bool" where
  "less_eq_endpoint a b \<longleftrightarrow> endpoint_le True a b"

definition less_endpoint :: "endpoint \<Rightarrow> endpoint \<Rightarrow> bool" where
  "less_endpoint a b \<longleftrightarrow> endpoint_le True a b \<and> \<not> endpoint_le True b a"

instance
proof
  fix a b c :: endpoint
  note o = ip_cmp_order [of True]
  show "a < b \<longleftrightarrow> a \<le> b \<and> \<not> b \<le> a" by (simp add: less_endpoint_def less_eq_endpoint_def)
  show "a \<le> a" by (simp add: less_eq_endpoint_def endpoint_le_iff)
  show "a \<le> b \<Longrightarrow> b \<le> c \<Longrightarrow> a \<le> c"
    using o(2) [of "ep_ip a" "ep_ip b" "ep_ip c"] by (auto simp: less_eq_endpoint_def endpoint_le_iff)
  show "a \<le> b \<Longrightarrow> b \<le> a \<Longrightarrow> a = b"
    using ip_cmp_asym [of True "ep_ip a" "ep_ip b"] o(1) [of "ep_ip a"]
    by (cases a; cases b) (auto simp: less_eq_endpoint_def endpoint_le_iff)
  show "a \<le> b \<or> b \<le> a"
    using o(3) [of "ep_ip a" "ep_ip b"] by (auto simp: less_eq_endpoint_def endpoint_le_iff)
qed

end

text \<open>The comparison of endpoints is a total order that agrees with their equality: by version, then by the
  address (an IPv4 address as the number it denotes, not as it is stored), then by the port.\<close>

lemma endpoint_total_order:
  "(endpoint_cmp le a b = 0 \<longleftrightarrow> endpoint_eq le a b) \<and> (endpoint_eq le a b \<longleftrightarrow> a = b) \<and>
   (endpoint_cmp le a b < 0 \<longleftrightarrow> \<not> endpoint_cmp le b a \<le> 0) \<and>
   (endpoint_cmp le a b < 0 \<and> endpoint_cmp le b c < 0 \<longrightarrow> endpoint_cmp le a c < 0) \<and>
   (endpoint_cmp le (Endpoint (V4 (ipv4_of_host le u)) p) (Endpoint (V4 (ipv4_of_host le v)) q) < 0 \<longleftrightarrow>
      u < v \<or> u = v \<and> p < q)"
proof -
  have eq: "endpoint_eq le a b \<longleftrightarrow> a = b"
    by (cases a; cases b; cases "ep_ip a"; cases "ep_ip b")
      (auto simp: endpoint_eq_def ip_eq_def ip_version_def ipv4_eq_def ntohl_inj)
  have zero: "endpoint_cmp le x y = 0 \<longleftrightarrow> x = y" for x y
    using ip_cmp_key(1) [of le "ep_ip x" "ep_ip y"]
    by (auto simp: endpoint_cmp_def Let_def cmp_simps ip_key_inj intro: endpoint.expand)
  have neg: "endpoint_cmp le x y < 0 \<longleftrightarrow> ip_cmp le (ep_ip x) (ep_ip y) < 0 \<or> ep_ip x = ep_ip y \<and> ep_port x < ep_port y"
    for x y
    using ip_cmp_key(1) [of le "ep_ip x" "ep_ip y"]
    by (auto simp: endpoint_cmp_def Let_def cmp_simps ip_key_inj)
  note o = ip_cmp_order [of le]
  have "endpoint_cmp le b a \<le> 0 \<longleftrightarrow> ip_cmp le (ep_ip b) (ep_ip a) < 0 \<or> ep_ip b = ep_ip a \<and> ep_port b \<le> ep_port a"
    using endpoint_le_iff [of le b a] by (simp only: endpoint_le_def)
  moreover have "\<not> ip_cmp le (ep_ip a) (ep_ip b) < 0 \<and> \<not> ip_cmp le (ep_ip b) (ep_ip a) < 0"
    if "ep_ip a = ep_ip b" using o(1) that by metis
  ultimately have anti: "endpoint_cmp le a b < 0 \<longleftrightarrow> \<not> endpoint_cmp le b a \<le> 0"
    unfolding neg using ip_cmp_asym [of le "ep_ip a" "ep_ip b"] o(3) [of "ep_ip a" "ep_ip b"] not_le by metis
  have trans: "endpoint_cmp le a b < 0 \<and> endpoint_cmp le b c < 0 \<longrightarrow> endpoint_cmp le a c < 0"
    using o(2) [of "ep_ip a" "ep_ip b" "ep_ip c"] by (auto simp: neg)
  have inj: "ipv4_of_host le u = ipv4_of_host le v \<longleftrightarrow> u = v" by (metis ntohl_host)
  have "endpoint_cmp le (Endpoint (V4 (ipv4_of_host le u)) p) (Endpoint (V4 (ipv4_of_host le v)) q) < 0 \<longleftrightarrow>
      u < v \<or> u = v \<and> p < q"
    by (simp add: neg ip_cmp_def ip_version_def ipv4_cmp_def cmp_simps inj)
  then show ?thesis using eq zero anti trans by simp
qed

section \<open>Properties\<close>

text \<open>Converting an endpoint to a socket address and back gives the same endpoint, on machines of either
  byte order, and the address carries the length of its family and the port in network byte order.\<close>

lemma sockaddr_roundtrip:
  "sockaddr_to_endpoint le (fst (to_sockaddr (endpoint_to_sockaddr_in le a))) = Inr a \<and>
   snd (to_sockaddr (endpoint_to_sockaddr_in le a)) = (if ip_version (ep_ip a) = 4 then 16 else 28)"
  by (cases a; cases "ep_ip a")
    (auto simp: sockaddr_to_endpoint_def endpoint_to_sockaddr_in_def to_sockaddr_def ntohs_def ip_version_def)

text \<open>Byte order: \<open>host_to_net\<close> and \<open>net_to_host\<close>, which reverse the bytes of any value in place, agree with
  \<open>htonl\<close> on numbers and are inverse to each other; an address made of four octets is stored as these octets,
  in this order, on every machine, also inside an IPv4-mapped IPv6 address.\<close>

lemma byte_order_agrees:
  "host_to_net le (mem32 le w) = mem32 le (htonl le w) \<and> net_to_host le (host_to_net le bs) = bs \<and>
   mem32 le (net_u32 (ipv4_of_octets le a b c d)) = [a, b, c, d] \<and>
   v6_val (ipv6_v4_mapped le (ipv4_of_octets le a b c d)) = replicate 10 0 @ [0xff, 0xff, a, b, c, d]"
proof -
  have m: "mem32 le (net_u32 (ipv4_of_octets le a b c d)) = [a, b, c, d]"
    by (simp add: ipv4_of_octets_def ipv4_of_host_def mem32_htonl mem32_le_octets)
  have "host_to_net le (mem32 le w) = mem32 le (htonl le w)"
    by (simp add: mem32_htonl host_to_net_def reverse_bytes_rev) (simp add: mem32_def)
  moreover have "net_to_host le (host_to_net le bs) = bs"
    by (simp add: host_to_net_def net_to_host_def reverse_bytes_rev)
  moreover have "v6_val (ipv6_v4_mapped le (ipv4_of_octets le a b c d)) = replicate 10 0 @ [0xff, 0xff, a, b, c, d]"
    by (simp add: ipv6_v4_mapped_def m ipv6_any_def Let_def numeral_eq_Suc upt_rec)
  ultimately show ?thesis using m by simp
qed

end
