(* ===== verification/Linux_Io.thy ===== *)
theory Linux_Io
  imports Linux_Common Net_Basic
begin

text \<open>
  The blocking operations of the Linux backends: \<open>src/linux/net/socket.cpp\<close>, \<open>src/linux/asyncio/file.cpp\<close> and
  \<open>src/linux/asyncio/pipe.cpp\<close>. The system calls are the fields of \<open>sys_calls\<close>. A call that fills a buffer
  yields the bytes it has stored; the length of that list is the \<open>n\<close> of the code.
\<close>

unbundle bit_operations_syntax

section \<open>System calls\<close>

datatype poll_event = POLLIN | POLLOUT
datatype file_kind = KRegular | KDirectory | KSocket | KOther
datatype shut_how = SHUT_RD | SHUT_WR | SHUT_RDWR
datatype shutdown_type = ShutdownReceive | ShutdownSend | ShutdownBoth
datatype seek_whence = SeekSet | SeekCur | SeekEnd
datatype native_whence = SEEK_SET | SEEK_CUR | SEEK_END
datatype so_level = SOL_SOCKET | IPPROTO_IPV6 | IPPROTO_TCP
datatype so_name = SO_DEBUG | SO_DONTROUTE | SO_BROADCAST | SO_KEEPALIVE | SO_LINGER | SO_OOBINLINE | SO_RCVBUF |
  SO_RCVLOWAT | SO_REUSEADDR | SO_SNDBUF | SO_SNDLOWAT | IPV6_V6ONLY | TCP_NODELAY

text \<open>
  \<open>recv\<close>, \<open>send\<close>, \<open>recvfrom\<close> and \<open>sendto\<close> take whether \<open>MSG_DONTWAIT\<close> is given, \<open>accept4\<close> whether
  \<open>SOCK_NONBLOCK\<close> is; sending always gives \<open>MSG_NOSIGNAL\<close>. \<open>F_GETFL\<close> tells whether \<open>O_NONBLOCK\<close> is set, and
  \<open>SO_TYPE\<close> whether the socket is a \<open>SOCK_STREAM\<close>.
\<close>

record 'w sys_calls =
  sc_read :: "int \<Rightarrow> nat \<Rightarrow> (byte list, 'w) sys_call"
  sc_write :: "int \<Rightarrow> byte list \<Rightarrow> (nat, 'w) sys_call"
  sc_pread :: "int \<Rightarrow> nat \<Rightarrow> nat \<Rightarrow> (byte list, 'w) sys_call"
  sc_pwrite :: "int \<Rightarrow> byte list \<Rightarrow> nat \<Rightarrow> (nat, 'w) sys_call"
  sc_lseek :: "int \<Rightarrow> nat \<Rightarrow> native_whence \<Rightarrow> (nat, 'w) sys_call"
  sc_fstat_size :: "int \<Rightarrow> (nat, 'w) sys_call"
  sc_fstat_kind :: "int \<Rightarrow> (file_kind, 'w) sys_call"
  sc_so_stream :: "int \<Rightarrow> (bool, 'w) sys_call"
  sc_ftruncate :: "int \<Rightarrow> nat \<Rightarrow> (unit, 'w) sys_call"
  sc_fsync :: "int \<Rightarrow> (unit, 'w) sys_call"
  sc_fdatasync :: "int \<Rightarrow> (unit, 'w) sys_call"
  sc_open :: "string \<Rightarrow> 32 word \<Rightarrow> (int, 'w) sys_call"
  sc_fadvise_random :: "int \<Rightarrow> 'w \<Rightarrow> 'w"
  sc_pipe2 :: "(int \<times> int, 'w) sys_call"
  sc_recv :: "int \<Rightarrow> nat \<Rightarrow> bool \<Rightarrow> (byte list, 'w) sys_call"
  sc_send :: "int \<Rightarrow> byte list \<Rightarrow> bool \<Rightarrow> (nat, 'w) sys_call"
  sc_recvfrom :: "int \<Rightarrow> nat \<Rightarrow> bool \<Rightarrow> (sockaddr \<times> byte list, 'w) sys_call"
  sc_sendto :: "int \<Rightarrow> byte list \<Rightarrow> bool \<Rightarrow> sockaddr \<times> nat \<Rightarrow> (nat, 'w) sys_call"
  sc_accept4 :: "int \<Rightarrow> bool \<Rightarrow> (int, 'w) sys_call"
  sc_connect :: "int \<Rightarrow> sockaddr \<times> nat \<Rightarrow> (unit, 'w) sys_call"
  sc_poll :: "int \<Rightarrow> poll_event \<Rightarrow> int \<Rightarrow> (nat, 'w) sys_call"
  sc_so_error :: "int \<Rightarrow> (int, 'w) sys_call"
  sc_getfl :: "int \<Rightarrow> (bool, 'w) sys_call"
  sc_setfl :: "int \<Rightarrow> bool \<Rightarrow> (unit, 'w) sys_call"
  sc_getsockname :: "int \<Rightarrow> (sockaddr, 'w) sys_call"
  sc_getpeername :: "int \<Rightarrow> (sockaddr, 'w) sys_call"
  sc_shutdown :: "int \<Rightarrow> shut_how \<Rightarrow> (unit, 'w) sys_call"
  sc_bind :: "int \<Rightarrow> sockaddr \<times> nat \<Rightarrow> (unit, 'w) sys_call"
  sc_setsockopt :: "int \<Rightarrow> so_level \<Rightarrow> so_name \<Rightarrow> byte list \<Rightarrow> (unit, 'w) sys_call"
  sc_getsockopt :: "int \<Rightarrow> so_level \<Rightarrow> so_name \<Rightarrow> nat \<Rightarrow> (byte list, 'w) sys_call"
  sc_socket :: "int \<Rightarrow> int \<Rightarrow> int \<Rightarrow> (int, 'w) sys_call"
  sc_listen :: "int \<Rightarrow> int \<Rightarrow> (unit, 'w) sys_call"
  sc_close :: "int \<Rightarrow> (unit, 'w) sys_call"

type_synonym ('a, 'w) io = "'w \<Rightarrow> ((error + 'a) \<times> 'w) option"

text \<open>A single call whose failure is an exception.\<close>

definition io_call :: "('a, 'w) sys_call \<Rightarrow> ('a, 'w) io" where
  "io_call call w = Some (throw_last_error (fst (call w)), snd (call w))"

text \<open>What an operation makes of the value of its call; exceptions pass.\<close>

definition io_post :: "('a \<Rightarrow> error + 'b) \<Rightarrow> ((error + 'a) \<times> 'w) option \<Rightarrow> ((error + 'b) \<times> 'w) option" where
  "io_post f r = map_option (\<lambda>(x, w). (case x of Inl e \<Rightarrow> Inl e | Inr v \<Rightarrow> f v, w)) r"

section \<open>Sockets\<close>

definition check_fd :: "int \<Rightarrow> error + unit" where
  "check_fd handle = (if handle = - 1 then Inl (SystemError EBADF) else Inr ())"

text \<open>The operations below begin with \<open>check_fd\<close>.\<close>

definition with_fd :: "int \<Rightarrow> ('a, 'w) io \<Rightarrow> ('a, 'w) io" where
  "with_fd handle m w = (case check_fd handle of Inl e \<Rightarrow> Some (Inl e, w) | Inr _ \<Rightarrow> m w)"

definition socket_local_endpoint :: "'w sys_calls \<Rightarrow> bool \<Rightarrow> int \<Rightarrow> (endpoint, 'w) io" where
  "socket_local_endpoint c le handle =
     with_fd handle (\<lambda>w. io_post (sockaddr_storage_to_endpoint le) (io_call (sc_getsockname c handle) w))"

definition socket_remote_endpoint :: "'w sys_calls \<Rightarrow> bool \<Rightarrow> int \<Rightarrow> (endpoint, 'w) io" where
  "socket_remote_endpoint c le handle =
     with_fd handle (\<lambda>w. io_post (sockaddr_storage_to_endpoint le) (io_call (sc_getpeername c handle) w))"

definition socket_shutdown :: "'w sys_calls \<Rightarrow> int \<Rightarrow> shutdown_type \<Rightarrow> (unit, 'w) io" where
  "socket_shutdown c handle how = with_fd handle (\<lambda>w.
     io_call (sc_shutdown c handle
       (case how of ShutdownReceive \<Rightarrow> SHUT_RD | ShutdownSend \<Rightarrow> SHUT_WR | ShutdownBoth \<Rightarrow> SHUT_RDWR)) w)"

definition socket_bind :: "'w sys_calls \<Rightarrow> bool \<Rightarrow> int \<Rightarrow> endpoint \<Rightarrow> (unit, 'w) io" where
  "socket_bind c le handle ep = with_fd handle (\<lambda>w.
     io_call (sc_bind c handle (to_sockaddr (endpoint_to_sockaddr_in le ep))) w)"

definition socket_set_sockopt :: "'w sys_calls \<Rightarrow> int \<Rightarrow> so_level \<Rightarrow> so_name \<Rightarrow> byte list \<Rightarrow> (unit, 'w) io" where
  "socket_set_sockopt c handle lvl nm val = with_fd handle (\<lambda>w. io_call (sc_setsockopt c handle lvl nm val) w)"

text \<open>The kernel must store exactly as many bytes as the option has.\<close>

definition socket_get_sockopt :: "'w sys_calls \<Rightarrow> int \<Rightarrow> so_level \<Rightarrow> so_name \<Rightarrow> nat \<Rightarrow> (byte list, 'w) io" where
  "socket_get_sockopt c handle lvl nm n = with_fd handle (\<lambda>w.
     io_post (\<lambda>bs. if length bs = n then Inr bs else Inl AssertFailed) (io_call (sc_getsockopt c handle lvl nm n) w))"

text \<open>The options with their level and name.\<close>

datatype sock_option = Debug | DoNotRoute | Broadcast | KeepAlive | Linger | OutOfBandInline | ReceiveBufferSize |
  ReceiveLowWatermark | ReuseAddress | SendBufferSize | SendLowWatermark | V6Only | NoDelay

definition option_level :: "sock_option \<Rightarrow> so_level" where
  "option_level opt = (case opt of V6Only \<Rightarrow> IPPROTO_IPV6 | NoDelay \<Rightarrow> IPPROTO_TCP | _ \<Rightarrow> SOL_SOCKET)"

definition option_name :: "sock_option \<Rightarrow> so_name" where
  "option_name opt =
     (case opt of Debug \<Rightarrow> SO_DEBUG | DoNotRoute \<Rightarrow> SO_DONTROUTE | Broadcast \<Rightarrow> SO_BROADCAST
      | KeepAlive \<Rightarrow> SO_KEEPALIVE | Linger \<Rightarrow> SO_LINGER | OutOfBandInline \<Rightarrow> SO_OOBINLINE
      | ReceiveBufferSize \<Rightarrow> SO_RCVBUF | ReceiveLowWatermark \<Rightarrow> SO_RCVLOWAT | ReuseAddress \<Rightarrow> SO_REUSEADDR
      | SendBufferSize \<Rightarrow> SO_SNDBUF | SendLowWatermark \<Rightarrow> SO_SNDLOWAT | V6Only \<Rightarrow> IPV6_V6ONLY
      | NoDelay \<Rightarrow> TCP_NODELAY)"

definition socket_open :: "'w sys_calls \<Rightarrow> int \<Rightarrow> int \<Rightarrow> int \<Rightarrow> (int, 'w) io" where
  "socket_open c family type protocol_id = io_call (sc_socket c family type protocol_id)"

text \<open>The backlog, a \<open>size_t\<close>, is converted to \<open>int\<close>.\<close>

definition socket_listen :: "'w sys_calls \<Rightarrow> int \<Rightarrow> size_t \<Rightarrow> (unit, 'w) io" where
  "socket_listen c handle backlog =
     with_fd handle (\<lambda>w. io_call (sc_listen c handle (sint (ucast backlog :: 32 word))) w)"

definition socket_connect :: "'w sys_calls \<Rightarrow> bool \<Rightarrow> int \<Rightarrow> endpoint \<Rightarrow> (unit, 'w) io" where
  "socket_connect c le handle peer = with_fd handle (\<lambda>w.
     case sc_connect c handle (to_sockaddr (endpoint_to_sockaddr_in le peer)) w of
       (Inr _, w) \<Rightarrow> Some (Inr (), w)
     | (Inl ec, w) \<Rightarrow>
         if ec \<noteq> EINPROGRESS then Some (Inl (SystemError ec), w)
         else
           (case poll_file (sc_poll c handle POLLOUT (- 1)) w of
              None \<Rightarrow> None
            | Some (Inl err, w) \<Rightarrow> Some (Inl err, w)
            | Some (Inr _, w) \<Rightarrow>
                io_post (\<lambda>so_error. if so_error \<noteq> 0 then Inl (SystemError so_error) else Inr ())
                  (io_call (sc_so_error c handle) w)))"

definition socket_accept :: "'w sys_calls \<Rightarrow> int \<Rightarrow> (int, 'w) io" where
  "socket_accept c handle = with_fd handle (io_retry (sc_accept4 c handle False) (sc_poll c handle POLLIN (- 1)))"

definition socket_receive :: "'w sys_calls \<Rightarrow> int \<Rightarrow> nat \<Rightarrow> bool \<Rightarrow> (byte list, 'w) io" where
  "socket_receive c handle n stream_oriented = with_fd handle (\<lambda>w.
     if stream_oriented \<and> n = 0 then Some (Inr [], w)
     else
       io_post (\<lambda>bs. if stream_oriented \<and> bs = [] \<and> n \<noteq> 0 then Inl EndOfFile else Inr bs)
         (io_retry (sc_recv c handle n False) (sc_poll c handle POLLIN (- 1)) w))"

definition socket_send :: "'w sys_calls \<Rightarrow> int \<Rightarrow> byte list \<Rightarrow> (nat, 'w) io" where
  "socket_send c handle bs = with_fd handle (io_retry (sc_send c handle bs False) (sc_poll c handle POLLOUT (- 1)))"

definition socket_receive_from :: "'w sys_calls \<Rightarrow> bool \<Rightarrow> int \<Rightarrow> nat \<Rightarrow> (endpoint \<times> byte list, 'w) io" where
  "socket_receive_from c le handle n = with_fd handle (\<lambda>w.
     io_post (\<lambda>(addr, bs). case sockaddr_storage_to_endpoint le addr of Inl e \<Rightarrow> Inl e | Inr ep \<Rightarrow> Inr (ep, bs))
       (io_retry (sc_recvfrom c handle n False) (sc_poll c handle POLLIN (- 1)) w))"

definition socket_send_to :: "'w sys_calls \<Rightarrow> bool \<Rightarrow> int \<Rightarrow> byte list \<Rightarrow> endpoint \<Rightarrow> (nat, 'w) io" where
  "socket_send_to c le handle bs dest = with_fd handle
     (io_retry (sc_sendto c handle bs False (to_sockaddr (endpoint_to_sockaddr_in le dest)))
       (sc_poll c handle POLLOUT (- 1)))"

section \<open>Files\<close>

text \<open>The flags of \<open>open_mode\<close> are \<open>1, 2, 4\<close> and so on; those of \<open>open\<close> are the numbers of Linux.\<close>

definition to_native_openmode :: "32 word \<Rightarrow> 32 word" where
  "to_native_openmode mode =
     (let result = 0;
          result = (if mode AND 1 \<noteq> 0 then result OR 0 else result);
          result = (if mode AND 2 \<noteq> 0 then result OR 1 else result);
          result = (if mode AND 4 \<noteq> 0 then result OR 2 else result);
          result = (if mode AND 8 \<noteq> 0 then result OR 0x400 else result);
          result = (if mode AND 16 \<noteq> 0 then result OR 0x40 else result);
          result = (if mode AND 32 \<noteq> 0 then result OR 0x80 else result);
          result = (if mode AND 64 \<noteq> 0 then result OR 0x200 else result);
          result = (if mode AND 128 \<noteq> 0 then result OR 0x101000 else result)
      in result)"

definition open_file :: "'w sys_calls \<Rightarrow> string \<Rightarrow> 32 word \<Rightarrow> bool \<Rightarrow> (int, 'w) io" where
  "open_file c path mode random_access w =
     (case io_call (sc_open c path (to_native_openmode mode)) w of
        Some (Inr fd, w) \<Rightarrow> Some (Inr fd, if random_access then sc_fadvise_random c fd w else w)
      | r \<Rightarrow> r)"

definition file_read :: "'w sys_calls \<Rightarrow> int \<Rightarrow> nat \<Rightarrow> (byte list, 'w) io" where
  "file_read c handle n w =
     io_post (\<lambda>bs. if n \<noteq> 0 \<and> bs = [] then Inl EndOfFile else Inr bs)
       (io_retry (sc_read c handle n) (sc_poll c handle POLLIN (- 1)) w)"

definition file_write :: "'w sys_calls \<Rightarrow> int \<Rightarrow> byte list \<Rightarrow> (nat, 'w) io" where
  "file_write c handle bs = io_retry (sc_write c handle bs) (sc_poll c handle POLLOUT (- 1))"

text \<open>An offset that does not fit into \<open>off_t\<close> is rejected before any call.\<close>

definition off_t_max :: size_t where "off_t_max = 0x7fffffffffffffff"

definition file_read_at :: "'w sys_calls \<Rightarrow> int \<Rightarrow> size_t \<Rightarrow> nat \<Rightarrow> (byte list, 'w) io" where
  "file_read_at c handle offset n w =
     (if offset > off_t_max then Some (Inl (SystemError EOVERFLOW), w)
      else
        io_post (\<lambda>bs. if n \<noteq> 0 \<and> bs = [] then Inl EndOfFile else Inr bs)
          (io_retry (sc_pread c handle n (unat offset)) (sc_poll c handle POLLIN (- 1)) w))"

definition file_write_at :: "'w sys_calls \<Rightarrow> int \<Rightarrow> size_t \<Rightarrow> byte list \<Rightarrow> (nat, 'w) io" where
  "file_write_at c handle offset bs w =
     (if offset > off_t_max then Some (Inl (SystemError EOVERFLOW), w)
      else io_retry (sc_pwrite c handle bs (unat offset)) (sc_poll c handle POLLOUT (- 1)) w)"

definition file_seek :: "'w sys_calls \<Rightarrow> int \<Rightarrow> size_t \<Rightarrow> seek_whence \<Rightarrow> (nat, 'w) io" where
  "file_seek c handle offset whence w =
     (if offset > off_t_max then Some (Inl (SystemError EOVERFLOW), w)
      else
        io_call (sc_lseek c handle (unat offset)
          (case whence of SeekSet \<Rightarrow> SEEK_SET | SeekCur \<Rightarrow> SEEK_CUR | SeekEnd \<Rightarrow> SEEK_END)) w)"

definition file_size :: "'w sys_calls \<Rightarrow> int \<Rightarrow> (nat, 'w) io" where
  "file_size c handle = io_call (sc_fstat_size c handle)"

definition file_resize :: "'w sys_calls \<Rightarrow> int \<Rightarrow> size_t \<Rightarrow> (unit, 'w) io" where
  "file_resize c handle new_size w =
     (if new_size > off_t_max then Some (Inl (SystemError EOVERFLOW), w)
      else io_call (sc_ftruncate c handle (unat new_size)) w)"

definition file_sync_all :: "'w sys_calls \<Rightarrow> int \<Rightarrow> (unit, 'w) io" where
  "file_sync_all c handle = io_call (sc_fsync c handle)"

definition file_sync_data :: "'w sys_calls \<Rightarrow> int \<Rightarrow> (unit, 'w) io" where
  "file_sync_data c handle = io_call (sc_fdatasync c handle)"

text \<open>The reading and the writing end.\<close>

definition make_native_pipe :: "'w sys_calls \<Rightarrow> (int \<times> int, 'w) io" where
  "make_native_pipe c = io_call (sc_pipe2 c)"

text \<open>A system in which every call fails with \<open>EBADF\<close>.\<close>

definition sys_none :: "'w sys_calls" where
  "sys_none =
     \<lparr>sc_read = (\<lambda>_ _ w. (Inl EBADF, w)), sc_write = (\<lambda>_ _ w. (Inl EBADF, w)), sc_pread = (\<lambda>_ _ _ w. (Inl EBADF, w)),
       sc_pwrite = (\<lambda>_ _ _ w. (Inl EBADF, w)), sc_lseek = (\<lambda>_ _ _ w. (Inl EBADF, w)),
       sc_fstat_size = (\<lambda>_ w. (Inl EBADF, w)), sc_fstat_kind = (\<lambda>_ w. (Inl EBADF, w)),
       sc_so_stream = (\<lambda>_ w. (Inl EBADF, w)), sc_ftruncate = (\<lambda>_ _ w. (Inl EBADF, w)),
       sc_fsync = (\<lambda>_ w. (Inl EBADF, w)), sc_fdatasync = (\<lambda>_ w. (Inl EBADF, w)), sc_open = (\<lambda>_ _ w. (Inl EBADF, w)),
       sc_fadvise_random = (\<lambda>_ w. w), sc_pipe2 = (\<lambda>w. (Inl EBADF, w)), sc_recv = (\<lambda>_ _ _ w. (Inl EBADF, w)),
       sc_send = (\<lambda>_ _ _ w. (Inl EBADF, w)), sc_recvfrom = (\<lambda>_ _ _ w. (Inl EBADF, w)),
       sc_sendto = (\<lambda>_ _ _ _ w. (Inl EBADF, w)), sc_accept4 = (\<lambda>_ _ w. (Inl EBADF, w)),
       sc_connect = (\<lambda>_ _ w. (Inl EBADF, w)), sc_poll = (\<lambda>_ _ _ w. (Inl EBADF, w)), sc_so_error = (\<lambda>_ w. (Inl EBADF, w)),
       sc_getfl = (\<lambda>_ w. (Inl EBADF, w)), sc_setfl = (\<lambda>_ _ w. (Inl EBADF, w)), sc_getsockname = (\<lambda>_ w. (Inl EBADF, w)),
       sc_getpeername = (\<lambda>_ w. (Inl EBADF, w)), sc_shutdown = (\<lambda>_ _ w. (Inl EBADF, w)), sc_bind = (\<lambda>_ _ w. (Inl EBADF, w)),
       sc_setsockopt = (\<lambda>_ _ _ _ w. (Inl EBADF, w)), sc_getsockopt = (\<lambda>_ _ _ _ w. (Inl EBADF, w)),
       sc_socket = (\<lambda>_ _ _ w. (Inl EBADF, w)), sc_listen = (\<lambda>_ _ w. (Inl EBADF, w)), sc_close = (\<lambda>_ w. (Inl EBADF, w))\<rparr>"

end
