(* ===== verification/Epoll_Context.thy ===== *)
theory Epoll_Context
  imports Epoll_Entry Object_Pool Linux_Io
begin

text \<open>
  The context around the entries: \<open>io_object\<close> with its construction, \<open>close\<close> and \<open>cancel\<close>, the
  \<open>reactor_interrupter\<close>, and \<open>do_one\<close>, which waits for events and timers and publishes the operations that
  are ready (\<open>include/coio/asyncio/epoll_context.h\<close>, \<open>src/linux/asyncio/epoll_context.cpp\<close>).

  System calls are parameters; a call that returns \<open>-1\<close> yields its \<open>errno\<close>. An operation is the address of
  its \<open>node\<close>; the loop it publishes to is the one of \<open>Event_Loop\<close>.
\<close>

section \<open>Waking the reactor\<close>

text \<open>
  \<open>reset\<close> with an eventfd: one successful read clears the counter; with a pipe it reads until less than a
  full buffer arrives. \<open>rd\<close> is the \<open>read\<close> call, \<open>Inl\<close> its \<open>errno\<close>.
\<close>

partial_function (option) interrupter_reset_eventfd :: "('k \<Rightarrow> (int + nat) \<times> 'k) \<Rightarrow> 'k \<Rightarrow> (bool \<times> 'k) option" where
  "interrupter_reset_eventfd rd k =
     (case fst (rd k) of
        Inl e \<Rightarrow> if e = EINTR then interrupter_reset_eventfd rd (snd (rd k)) else Some (False, snd (rd k))
      | Inr n \<Rightarrow> Some (True, snd (rd k)))"

partial_function (option) interrupter_reset_pipe :: "('k \<Rightarrow> (int + nat) \<times> 'k) \<Rightarrow> 'k \<Rightarrow> (bool \<times> 'k) option" where
  "interrupter_reset_pipe rd k =
     (case fst (rd k) of
        Inr n \<Rightarrow>
          if n = 1024 then interrupter_reset_pipe rd (snd (rd k))
          else Some (n > 0, snd (rd k))
      | Inl e \<Rightarrow>
          if e = EINTR then interrupter_reset_pipe rd (snd (rd k))
          else Some (is_blocking_errno e, snd (rd k)))"

text \<open>The constructor: an eventfd, or a pipe if there is none. The result is the reader and the writer.\<close>

definition interrupter_new :: "int option \<Rightarrow> int + (int \<times> int) \<Rightarrow> error + (int \<times> int)" where
  "interrupter_new eventfd pipe2 =
     (case eventfd of Some fd \<Rightarrow> Inr (fd, fd) | None \<Rightarrow> throw_last_error pipe2)"

section \<open>I/O objects\<close>

text \<open>\<open>is_stream_oriented_\<close>: a descriptor that is not a socket is a stream.\<close>

definition is_stream_oriented :: "'k sys_calls \<Rightarrow> int \<Rightarrow> 'k \<Rightarrow> (error + bool) \<times> 'k" where
  "is_stream_oriented s fd k =
     (if fd = - 1 then (Inr False, k)
      else
        (case sc_fstat_kind s fd k of
           (Inl e, k) \<Rightarrow> (Inl (SystemError e), k)
         | (Inr kind, k) \<Rightarrow>
             if kind \<noteq> KSocket then (Inr True, k)
             else (case sc_so_stream s fd k of (r, k) \<Rightarrow> (throw_last_error r, k))))"

text \<open>The checks of the constructor behind the member initialisers, for a descriptor that is not \<open>-1\<close>.\<close>

definition io_object_check :: "'k sys_calls \<Rightarrow> int \<Rightarrow> 'k \<Rightarrow> (error + unit) \<times> 'k" where
  "io_object_check s fd k =
     (case sc_fstat_kind s fd k of
        (Inl e, k) \<Rightarrow> (Inl (SystemError e), k)
      | (Inr kind, k) \<Rightarrow>
          if kind = KRegular \<or> kind = KDirectory then (Inl (SystemError EPERM), k)
          else
            (case sc_getfl s fd k of
               (Inl e, k) \<Rightarrow> (Inl (SystemError e), k)
             | (Inr nonblocking, k) \<Rightarrow>
                 if \<not> nonblocking then (case sc_setfl s fd True k of (r, k) \<Rightarrow> (throw_last_error r, k))
                 else (Inr (), k)))"

record io_object =
  ob_fd :: int
  ob_stream :: bool
  ob_data :: ptr

record 'k epoll_context =
  ec_loop :: loop
  ec_pool :: object_pool
  ec_data :: "addr \<Rightarrow> per_fd_data"
  ec_kernel :: 'k

definition fd_clean :: per_fd_data where
  "fd_clean = \<lparr>fd_events = {}, fd_ready = {}, fd_in_op = None, fd_out_op = None\<rparr>"

definition ec_new_epoll_data :: "ptr \<Rightarrow> 'k epoll_context \<Rightarrow> error + (addr \<times> 'k epoll_context)" where
  "ec_new_epoll_data fresh c =
     (case pool_acquire fresh (ec_pool c) of
        Inl e \<Rightarrow> Inl e
      | Inr (a, p) \<Rightarrow> Inr (a, c\<lparr>ec_pool := p, ec_data := (ec_data c)(a := fd_clean)\<rparr>))"

definition ec_reclaim_epoll_data :: "ptr \<Rightarrow> 'k epoll_context \<Rightarrow> 'k epoll_context" where
  "ec_reclaim_epoll_data p c =
     (case p of None \<Rightarrow> c | Some a \<Rightarrow> c\<lparr>ec_pool := pool_release a (ec_pool c)\<rparr>)"

text \<open>The constructor. An exception closes the descriptor.\<close>

definition ec_close :: "'k sys_calls \<Rightarrow> int \<Rightarrow> 'k epoll_context \<Rightarrow> 'k epoll_context" where
  "ec_close s fd c = c\<lparr>ec_kernel := snd (sc_close s fd (ec_kernel c))\<rparr>"

definition io_object_new ::
  "'k sys_calls \<Rightarrow> ptr \<Rightarrow> int \<Rightarrow> 'k epoll_context \<Rightarrow> (error + io_object) \<times> 'k epoll_context" where
  "io_object_new s fresh fd c =
     (case is_stream_oriented s fd (ec_kernel c) of
        (Inl e, k) \<Rightarrow> (Inl e, ec_close s fd (c\<lparr>ec_kernel := k\<rparr>))
      | (Inr stream, k) \<Rightarrow>
          if fd = - 1 then (Inr \<lparr>ob_fd = fd, ob_stream = stream, ob_data = None\<rparr>, c\<lparr>ec_kernel := k\<rparr>)
          else
            (case io_object_check s fd k of
               (Inl e, k) \<Rightarrow> (Inl e, ec_close s fd (c\<lparr>ec_kernel := k\<rparr>))
             | (Inr _, k) \<Rightarrow>
                 (case ec_new_epoll_data fresh (c\<lparr>ec_kernel := k\<rparr>) of
                    Inl e \<Rightarrow> (Inl e, ec_close s fd (c\<lparr>ec_kernel := k\<rparr>))
                  | Inr (a, c) \<Rightarrow> (Inr \<lparr>ob_fd = fd, ob_stream = stream, ob_data = Some a\<rparr>, c))))"

definition io_object_move :: "io_object \<Rightarrow> io_object \<times> io_object" where
  "io_object_move other = (other, \<lparr>ob_fd = - 1, ob_stream = False, ob_data = None\<rparr>)"

definition io_object_swap :: "io_object \<Rightarrow> io_object \<Rightarrow> io_object \<times> io_object" where
  "io_object_swap a b = (b, a)"

text \<open>\<open>close\<close>: \<open>del\<close> is \<open>EPOLL_CTL_DEL\<close>, whose result is ignored.\<close>

definition io_object_close ::
  "(int \<Rightarrow> 'k \<Rightarrow> 'k) \<Rightarrow> 'k sys_calls \<Rightarrow> io_object \<Rightarrow> 'k epoll_context \<Rightarrow>
   (error + unit) \<times> io_object \<times> 'k epoll_context" where
  "io_object_close del s ob c =
     (if ob_fd ob = - 1 then (Inr (), ob, c)
      else
        (case ob_data ob of
           None \<Rightarrow> (Inl AssertFailed, ob, c)
         | Some a \<Rightarrow>
             let c = (if fd_events (ec_data c a) \<noteq> {}
                      then c\<lparr>ec_kernel := del (ob_fd ob) (ec_kernel c),
                             ec_data := (ec_data c)(a := (ec_data c a)\<lparr>fd_events := {}\<rparr>)\<rparr>
                      else c);
                 c = ec_reclaim_epoll_data (Some a) c;
                 r = sc_close s (ob_fd ob) (ec_kernel c)
             in (throw_last_error (fst r), ob\<lparr>ob_fd := - 1, ob_data := None\<rparr>, c\<lparr>ec_kernel := snd r\<rparr>)))"

text \<open>Publishing a few operations one after the other.\<close>

fun loop_publish_all :: "nat \<Rightarrow> addr list \<Rightarrow> loop \<Rightarrow> loop option" where
  "loop_publish_all tid [] l = Some l"
| "loop_publish_all tid (a # as) l =
     (case loop_publish tid a l of None \<Rightarrow> None | Some l \<Rightarrow> loop_publish_all tid as l)"

definition io_object_cancel :: "nat \<Rightarrow> io_object \<Rightarrow> 'k epoll_context \<Rightarrow> 'k epoll_context option" where
  "io_object_cancel tid ob c =
     (if ob_fd ob = - 1 then Some c
      else
        (case ob_data ob of
           None \<Rightarrow> None
         | Some a \<Rightarrow>
             (case io_cancel (ec_data c a) of
                (ops, p) \<Rightarrow>
                  map_option (\<lambda>l. c\<lparr>ec_data := (ec_data c)(a := p), ec_loop := l\<rparr>)
                    (loop_publish_all tid ops (ec_loop c)))))"

text \<open>\<open>cancel_op\<close> of the operation \<open>op\<close>, whose member \<open>data\<close> is \<open>p\<close>.\<close>

definition ec_cancel_op :: "nat \<Rightarrow> ep_flag \<Rightarrow> addr \<Rightarrow> ptr \<Rightarrow> 'k epoll_context \<Rightarrow> 'k epoll_context option" where
  "ec_cancel_op tid d op p c =
     (case p of
        None \<Rightarrow> None
      | Some a \<Rightarrow>
          (case ep_cancel_op d op (ec_data c a) of
             (found, q) \<Rightarrow>
               let c = c\<lparr>ec_data := (ec_data c)(a := q)\<rparr>
               in if found then map_option (\<lambda>l. c\<lparr>ec_loop := l\<rparr>) (loop_publish tid op (ec_loop c)) else Some c))"

section \<open>Waiting and dispatching\<close>

text \<open>
  The timeout of \<open>epoll_wait\<close> in milliseconds: none, zero when polling, otherwise the time to the earliest
  deadline, rounded up and clamped to \<open>int\<close>. Times are in nanoseconds.
\<close>

definition ep_ceil_ms :: "int \<Rightarrow> int" where
  "ep_ceil_ms ns = - ((- ns) div 1000000)"

definition ep_timeout :: "bool \<Rightarrow> int option \<Rightarrow> int \<Rightarrow> int" where
  "ep_timeout block earliest now =
     (if block then
        (case earliest of None \<Rightarrow> - 1 | Some t \<Rightarrow> min (max (ep_ceil_ms (t - now)) 0) 2147483647)
      else 0)"

datatype ep_source = Interrupter | Entry addr

text \<open>The loop over the events; the operations that are ready are collected in a list through their links.\<close>

fun ep_push_all :: "addr list \<Rightarrow> links \<times> intrusive_list \<Rightarrow> links \<times> intrusive_list" where
  "ep_push_all [] s = s"
| "ep_push_all (a # as) s = ep_push_all as (il_push_back a s)"

fun ep_events ::
  "(addr \<Rightarrow> 'k \<Rightarrow> bool \<times> 'k) \<Rightarrow> ('k \<Rightarrow> 'k) \<Rightarrow> (ep_flag set \<times> ep_source) list \<Rightarrow>
   (addr \<Rightarrow> per_fd_data) \<times> 'k \<times> (links \<times> intrusive_list) \<Rightarrow>
   (addr \<Rightarrow> per_fd_data) \<times> 'k \<times> (links \<times> intrusive_list)" where
  "ep_events perform reset [] s = s"
| "ep_events perform reset ((event, Interrupter) # evs) (data, k, lst) =
     ep_events perform reset evs (data, reset k, lst)"
| "ep_events perform reset ((event, Entry a) # evs) (data, k, lst) =
     (case ep_handle perform event (data a, k) of
        (p, k, ops) \<Rightarrow> ep_events perform reset evs (data(a := p), k, ep_push_all ops lst))"

text \<open>The part of \<open>do_one\<close> behind \<open>epoll_wait\<close>: timers, events, then both lists are published.\<close>

definition ep_round ::
  "loop_env \<Rightarrow> nat \<Rightarrow> (addr \<Rightarrow> 'k \<Rightarrow> bool \<times> 'k) \<Rightarrow> ('k \<Rightarrow> 'k) \<Rightarrow> (ep_flag set \<times> ep_source) list \<Rightarrow>
   'k epoll_context \<Rightarrow> 'k epoll_context option" where
  "ep_round e tid perform reset evs c =
     (let l = ec_loop c
      in case tq_take_ready_timers (le_deadline e) (lp_now l) (lp_timers l) (oq_next (lp_ops l), il_empty_list) of
           None \<Rightarrow> None
         | Some (q, (nx, timers)) \<Rightarrow>
             (case ep_events perform reset evs (ec_data c, ec_kernel c, (nx, il_empty_list)) of
                (data, k, (nx, ios)) \<Rightarrow>
                  (case loop_publish_pending tid
                          (l\<lparr>lp_timers := q, lp_ops := (lp_ops l)\<lparr>oq_next := nx\<rparr>\<rparr>) (fst (il_release timers)) of
                     None \<Rightarrow> None
                   | Some l \<Rightarrow>
                       map_option (\<lambda>l. c\<lparr>ec_loop := l, ec_data := data, ec_kernel := k\<rparr>)
                         (loop_publish_pending tid l (fst (il_release ios))))))"

text \<open>
  \<open>wait timeout k\<close> is \<open>epoll_wait\<close>: its \<open>errno\<close> or the events, the time when it returns, and the kernel.
\<close>

type_synonym 'k epoll_wait = "int \<Rightarrow> 'k \<Rightarrow> (int + (ep_flag set \<times> ep_source) list) \<times> int \<times> 'k"

definition ep_waited :: "(int + (ep_flag set \<times> ep_source) list) \<times> int \<times> 'k \<Rightarrow> 'k epoll_context \<Rightarrow> 'k epoll_context" where
  "ep_waited w c = c\<lparr>ec_loop := (ec_loop c)\<lparr>lp_now := fst (snd w)\<rparr>, ec_kernel := snd (snd w)\<rparr>"

partial_function (option) ep_do_one_loop ::
  "loop_env \<Rightarrow> nat \<Rightarrow> 'k epoll_wait \<Rightarrow> (addr \<Rightarrow> 'k \<Rightarrow> bool \<times> 'k) \<Rightarrow> ('k \<Rightarrow> 'k) \<Rightarrow> bool \<Rightarrow> 'k epoll_context \<Rightarrow>
   (error + (bool \<times> 'k epoll_context)) option" where
  "ep_do_one_loop e tid wait perform reset block c =
     (if lp_work (ec_loop c) > 0 then
        (case loop_consume e tid (ec_loop c) of
           None \<Rightarrow> None
         | Some r \<Rightarrow>
             let c = c\<lparr>ec_loop := snd r\<rparr>
             in if fst r then Some (Inr (True, c))
                else if lp_work (ec_loop c) = 0 then Some (Inr (False, c))
                else
                  let w = wait (ep_timeout block (tq_earliest (le_deadline e) (lp_timers (ec_loop c)))
                        (lp_now (ec_loop c))) (ec_kernel c);
                      c = ep_waited w c
                  in case fst w of
                       Inl err \<Rightarrow>
                         if err = EINTR then ep_do_one_loop e tid wait perform reset block c
                         else Some (Inl (SystemError err))
                     | Inr evs \<Rightarrow>
                         (case ep_round e tid perform reset evs c of
                            None \<Rightarrow> None
                          | Some c \<Rightarrow>
                              if block then ep_do_one_loop e tid wait perform reset block c
                              else map_option (\<lambda>r. Inr (fst r, c\<lparr>ec_loop := snd r\<rparr>))
                                (loop_consume e tid (ec_loop c))))
      else Some (Inr (False, c)))"

definition ep_do_one ::
  "loop_env \<Rightarrow> nat \<Rightarrow> 'k epoll_wait \<Rightarrow> (addr \<Rightarrow> 'k \<Rightarrow> bool \<times> 'k) \<Rightarrow> ('k \<Rightarrow> 'k) \<Rightarrow> bool \<Rightarrow> 'k epoll_context \<Rightarrow>
   (error + (bool \<times> 'k epoll_context)) option" where
  "ep_do_one e tid wait perform reset block c =
     (if lp_work (ec_loop c) = 0 then Some (Inr (False, c))
      else ep_do_one_loop e tid wait perform reset block c)"

section \<open>What a round does\<close>

text \<open>The entries, the kernel and the operations that are ready after a list of events.\<close>

fun ep_ready_ops ::
  "(addr \<Rightarrow> 'k \<Rightarrow> bool \<times> 'k) \<Rightarrow> ('k \<Rightarrow> 'k) \<Rightarrow> (ep_flag set \<times> ep_source) list \<Rightarrow>
   (addr \<Rightarrow> per_fd_data) \<Rightarrow> 'k \<Rightarrow> (addr \<Rightarrow> per_fd_data) \<times> 'k \<times> addr list" where
  "ep_ready_ops perform reset [] data k = (data, k, [])"
| "ep_ready_ops perform reset ((event, Interrupter) # evs) data k = ep_ready_ops perform reset evs data (reset k)"
| "ep_ready_ops perform reset ((event, Entry a) # evs) data k =
     (case ep_handle perform event (data a, k) of
        (p, k, ops) \<Rightarrow>
          (case ep_ready_ops perform reset evs (data(a := p)) k of (data, k, rest) \<Rightarrow> (data, k, ops @ rest)))"

lemma ep_push_all_append: "ep_push_all (as @ bs) s = ep_push_all bs (ep_push_all as s)"
  by (induction as arbitrary: s) simp_all

lemma ep_events_ready:
  "ep_events perform reset evs (data, k, lst) =
     (case ep_ready_ops perform reset evs data k of (data, k, ops) \<Rightarrow> (data, k, ep_push_all ops lst))"
  by (induction perform reset evs data k arbitrary: lst rule: ep_ready_ops.induct)
    (auto simp: ep_push_all_append split: prod.splits)

lemma il_push_back_frame: "b \<noteq> a \<Longrightarrow> il_tail (snd s) \<noteq> Some b \<Longrightarrow> fst (il_push_back a s) b = fst s b"
  by (cases s) (auto simp: il_push_back_def Let_def split: option.splits)

lemma ep_push_all_rep:
  "il_rep s xs \<Longrightarrow> distinct (xs @ as) \<Longrightarrow>
   il_rep (ep_push_all as s) (xs @ as) \<and> (\<forall>b. b \<notin> set (xs @ as) \<longrightarrow> fst (ep_push_all as s) b = fst s b)"
proof (induction as arbitrary: s xs)
  case (Cons a as)
  have r: "il_rep (il_push_back a s) (xs @ [a])" using Cons.prems by (intro il_rep_push_back) auto
  have f: "fst (il_push_back a s) b = fst s b" if "b \<notin> set (xs @ [a])" for b
  proof (rule il_push_back_frame)
    show "b \<noteq> a" using that by simp
    show "il_tail (snd s) \<noteq> Some b" using Cons.prems(1) that by (auto simp: il_rep_def split: if_splits)
  qed
  have "il_rep (ep_push_all as (il_push_back a s)) ((xs @ [a]) @ as) \<and>
      (\<forall>b. b \<notin> set ((xs @ [a]) @ as) \<longrightarrow> fst (ep_push_all as (il_push_back a s)) b = fst (il_push_back a s) b)"
    using Cons.prems(2) by (intro Cons.IH r) simp
  then show ?case using f by simp
qed simp

text \<open>What the rounds of the backends share: the due timers are published, in the order of their deadlines, and then
  the operations that were collected, in the order in which they were pushed.\<close>

lemma publish_round_rep:
  assumes q: "oq_rep (lp_ops l) []" and t: "tq_rep (le_deadline e) (lp_timers l) S"
    and tid: "lp_consumer l = Some tid"
    and zs: "distinct zs" "set zs \<inter> S = {}" and armed: "\<forall>a\<in>S \<union> set zs. lp_phase l a = Armed"
  obtains tq nx tms nx2 ios l1 l2 ys where
    "tq_take_ready_timers (le_deadline e) (lp_now l) (lp_timers l) (oq_next (lp_ops l), il_empty_list) = Some (tq, (nx, tms))"
    "ep_push_all zs (nx, il_empty_list) = (nx2, ios)"
    "loop_publish_pending tid (l\<lparr>lp_timers := tq, lp_ops := (lp_ops l)\<lparr>oq_next := nx2\<rparr>\<rparr>) (il_head tms) = Some l1"
    "loop_publish_pending tid l1 (il_head ios) = Some l2"
    "oq_rep (lp_ops l2) (ys @ zs)"
    "tq_rep (le_deadline e) (lp_timers l2) {a \<in> S. lp_now l < le_deadline e a}"
    "set ys = {a \<in> S. le_deadline e a \<le> lp_now l}" "distinct ys" "sorted (map (le_deadline e) ys)"
    "\<forall>b. b \<notin> set ys \<union> set zs \<longrightarrow> lp_phase l2 b = lp_phase l b"
proof -
  obtain tq nx tms ys where t1: "tq_take_ready_timers (le_deadline e) (lp_now l) (lp_timers l)
      (oq_next (lp_ops l), il_empty_list) = Some (tq, (nx, tms))"
    "tq_rep (le_deadline e) tq {a \<in> S. lp_now l < le_deadline e a}" "il_rep (nx, tms) ys"
    "set ys = {a \<in> S. le_deadline e a \<le> lp_now l}" "distinct ys" "sorted (map (le_deadline e) ys)"
    using tq_take_ready_timers_rep [OF t il_rep_empty, of "lp_now l" "oq_next (lp_ops l)"] by auto
  obtain nx2 ios where e1: "ep_push_all zs (nx, il_empty_list) = (nx2, ios)" by fastforce
  have io: "il_rep (nx2, ios) zs" "\<And>b. b \<notin> set zs \<Longrightarrow> nx2 b = nx b"
    using ep_push_all_rep [OF il_rep_empty, of zs nx] zs(1) e1 by simp_all
  have dis: "set ys \<inter> set zs = {}" using t1(4) zs(2) by auto
  let ?l1 = "l\<lparr>lp_timers := tq, lp_ops := (lp_ops l)\<lparr>oq_next := nx2\<rparr>\<rparr>"
  have "chain nx2 (il_head tms) ys"
    using t1(3) io(2) dis seg_cong [of ys nx2 nx] by (auto simp: il_rep_def disjoint_iff)
  then have ch1: "chain (oq_next (lp_ops ?l1)) (il_head tms) ys" by simp
  have "oq_rep (lp_ops ?l1) []" using q by (auto simp: oq_rep_def)
  moreover have "\<forall>a\<in>set ys. lp_phase ?l1 a = Armed" using armed t1(4) by auto
  ultimately obtain q1 ph1 where p1: "loop_publish_pending tid ?l1 (il_head tms) =
      Some (?l1\<lparr>lp_phase := ph1, lp_ops := q1\<rparr>)" "oq_rep q1 ys" "\<forall>b. b \<notin> set ys \<longrightarrow> ph1 b = lp_phase ?l1 b"
    "\<forall>b. b \<notin> set ys \<longrightarrow> oq_next q1 b = oq_next (lp_ops ?l1) b"
    using loop_publish_pending_rep [OF ch1, of "[]" tid] tid by auto
  let ?l2 = "?l1\<lparr>lp_phase := ph1, lp_ops := q1\<rparr>"
  have same: "oq_next q1 b = nx2 b" if "b \<in> set zs" for b using p1(4) dis that by (auto simp: disjoint_iff)
  have "chain (oq_next q1) (il_head ios) zs"
    using io(1) seg_cong [of zs "oq_next q1" nx2, OF same] by (simp add: il_rep_def)
  then have ch2: "chain (oq_next (lp_ops ?l2)) (il_head ios) zs" by simp
  have ar2: "\<forall>a\<in>set zs. lp_phase ?l2 a = Armed" using armed p1(3) dis by auto
  obtain q2 ph2 where p2: "loop_publish_pending tid ?l2 (il_head ios) =
      Some (?l2\<lparr>lp_phase := ph2, lp_ops := q2\<rparr>)" "oq_rep q2 (ys @ zs)" "\<forall>b. b \<notin> set zs \<longrightarrow> ph2 b = lp_phase ?l2 b"
    using loop_publish_pending_rep [OF ch2, of ys tid] p1(2) dis ar2 tid by auto
  show thesis
  proof (rule that [OF t1(1) e1 p1(1) p2(1)])
    show "oq_rep (lp_ops (?l2\<lparr>lp_phase := ph2, lp_ops := q2\<rparr>)) (ys @ zs)" using p2(2) by simp
    show "tq_rep (le_deadline e) (lp_timers (?l2\<lparr>lp_phase := ph2, lp_ops := q2\<rparr>)) {a \<in> S. lp_now l < le_deadline e a}"
      using t1(2) by simp
    show "\<forall>b. b \<notin> set ys \<union> set zs \<longrightarrow> lp_phase (?l2\<lparr>lp_phase := ph2, lp_ops := q2\<rparr>) b = lp_phase l b"
      using p1(3) p2(3) by simp
  qed (use t1(4-6) in simp_all)
qed

text \<open>A round queues the due timers in the order of their deadlines and then the ready operations in the order
  in which their events were handled.\<close>

lemma ep_round_rep:
  assumes q: "oq_rep (lp_ops (ec_loop c)) []" and t: "tq_rep (le_deadline e) (lp_timers (ec_loop c)) S"
    and tid: "lp_consumer (ec_loop c) = Some tid"
    and ops: "ep_ready_ops perform reset evs (ec_data c) (ec_kernel c) = (data, k, zs)"
    and zs: "distinct zs" "set zs \<inter> S = {}"
    and armed: "\<forall>a\<in>S \<union> set zs. lp_phase (ec_loop c) a = Armed"
  shows "\<exists>c' ys. ep_round e tid perform reset evs c = Some c' \<and> oq_rep (lp_ops (ec_loop c')) (ys @ zs) \<and>
    tq_rep (le_deadline e) (lp_timers (ec_loop c')) {a \<in> S. lp_now (ec_loop c) < le_deadline e a} \<and>
    set ys = {a \<in> S. le_deadline e a \<le> lp_now (ec_loop c)} \<and> distinct ys \<and> sorted (map (le_deadline e) ys) \<and>
    ec_data c' = data \<and> ec_kernel c' = k \<and> (\<forall>b. b \<notin> set ys \<union> set zs \<longrightarrow> lp_phase (ec_loop c') b = lp_phase (ec_loop c) b)"
proof -
  obtain tq nx tms nx2 ios l1 l2 ys where p:
    "tq_take_ready_timers (le_deadline e) (lp_now (ec_loop c)) (lp_timers (ec_loop c))
       (oq_next (lp_ops (ec_loop c)), il_empty_list) = Some (tq, (nx, tms))"
    "ep_push_all zs (nx, il_empty_list) = (nx2, ios)"
    "loop_publish_pending tid ((ec_loop c)\<lparr>lp_timers := tq, lp_ops := (lp_ops (ec_loop c))\<lparr>oq_next := nx2\<rparr>\<rparr>) (il_head tms) = Some l1"
    "loop_publish_pending tid l1 (il_head ios) = Some l2"
    and r: "oq_rep (lp_ops l2) (ys @ zs)"
    "tq_rep (le_deadline e) (lp_timers l2) {a \<in> S. lp_now (ec_loop c) < le_deadline e a}"
    "set ys = {a \<in> S. le_deadline e a \<le> lp_now (ec_loop c)}" "distinct ys" "sorted (map (le_deadline e) ys)"
    "\<forall>b. b \<notin> set ys \<union> set zs \<longrightarrow> lp_phase l2 b = lp_phase (ec_loop c) b"
    by (rule publish_round_rep [OF q t tid zs armed])
  have "ep_round e tid perform reset evs c = Some (c\<lparr>ec_loop := l2, ec_data := data, ec_kernel := k\<rparr>)"
    using p ops by (simp add: ep_round_def ep_events_ready il_release_def Let_def)
  then show ?thesis using r by (intro exI [of _ "c\<lparr>ec_loop := l2, ec_data := data, ec_kernel := k\<rparr>"] exI [of _ ys]) simp
qed

text \<open>Rounding up.\<close>

lemma ep_ceil_ms_bounds: "ns \<le> ep_ceil_ms ns * 1000000" "(ep_ceil_ms ns - 1) * 1000000 < ns"
  by (simp_all add: ep_ceil_ms_def)

lemma io_object_check_ok:
  assumes "io_object_check s fd k = (Inr (), k')"
  shows "\<exists>k1 k2 k3. fst (sc_fstat_kind s fd k1) \<in> {Inr KSocket, Inr KOther} \<and>
    (fst (sc_getfl s fd k2) = Inr True \<or> fst (sc_setfl s fd True k3) = Inr ())"
proof -
  obtain kind k1 where f: "sc_fstat_kind s fd k = (Inr kind, k1)" "kind \<noteq> KRegular" "kind \<noteq> KDirectory"
    using assms by (auto simp: io_object_check_def split: prod.splits sum.splits if_splits)
  obtain nb k2 where g: "sc_getfl s fd k1 = (Inr nb, k2)" "nb \<or> fst (sc_setfl s fd True k2) = Inr ()"
    using assms f by (auto simp: io_object_check_def throw_last_error_def split: prod.splits sum.splits if_splits)
  have "fst (sc_fstat_kind s fd k) \<in> {Inr KSocket, Inr KOther}" using f by (cases kind) simp_all
  moreover have "fst (sc_getfl s fd k1) = Inr True \<or> fst (sc_setfl s fd True k2) = Inr ()" using g by auto
  ultimately show ?thesis by blast
qed

section \<open>Properties\<close>

text \<open>Two timers due at time 5 and 9 and one descriptor whose read is ready.\<close>

definition epc_env :: loop_env where
  "epc_env = \<lparr>le_deadline = (\<lambda>a. if a = 1 then 5 else 9), le_kind = (\<lambda>_. TimerNode), le_stop = (\<lambda>_. False)\<rparr>"

definition epc_loop :: loop where
  "epc_loop = loop_init\<lparr>lp_consumer := Some 0, lp_phase := (\<lambda>_. Armed), lp_work := 1\<rparr>"

definition epc_demo :: "unit epoll_context" where
  "epc_demo = \<lparr>ec_loop = epc_loop, ec_pool = pool_new, ec_data = (\<lambda>_. fd_clean\<lparr>fd_in_op := Some 3\<rparr>), ec_kernel = ()\<rparr>"

text \<open>One round of \<open>do_one\<close>: from an empty queue, the due timers are queued in the order of their deadlines,
  then the operations whose events arrived and which did not block, in the order of the events, each once;
  their slots are empty, and timers that are not due stay in the heap.\<close>

lemma epoll_round_publishes_ready:
  assumes "oq_rep (lp_ops (ec_loop c)) []" "tq_rep (le_deadline e) (lp_timers (ec_loop c)) S"
    and "lp_consumer (ec_loop c) = Some tid"
    and "ep_ready_ops perform reset evs (ec_data c) (ec_kernel c) = (data, k, zs)"
    and "distinct zs" "set zs \<inter> S = {}" "\<forall>a\<in>S \<union> set zs. lp_phase (ec_loop c) a = Armed"
  shows "\<exists>c' ys. ep_round e tid perform reset evs c = Some c' \<and> oq_rep (lp_ops (ec_loop c')) (ys @ zs) \<and>
    set ys = {a \<in> S. le_deadline e a \<le> lp_now (ec_loop c)} \<and> distinct ys \<and> sorted (map (le_deadline e) ys) \<and>
    tq_rep (le_deadline e) (lp_timers (ec_loop c')) {a \<in> S. lp_now (ec_loop c) < le_deadline e a} \<and>
    ec_data c' = data"
  using ep_round_rep [OF assms] by blast

text \<open>The wait of \<open>do_one\<close> is neither too long nor too short: with a timer the timeout is not negative, never
  reaches past the deadline by a millisecond or more, and unless it is clamped to the largest \<open>int\<close> the deadline
  has passed when it expires, so the loop does not spin on a timer that is almost due. Without a timer the
  wait is unbounded, and polling does not wait.\<close>

lemma epoll_timeout_bounds:
  "ep_timeout block (Some t) now \<ge> 0 \<and> ep_timeout block (Some t) now < 2 ^ 31 \<and>
   (ep_timeout block (Some t) now = 0 \<or> (ep_timeout block (Some t) now - 1) * 1000000 < t - now) \<and>
   (block = False \<or> ep_timeout block (Some t) now = 2 ^ 31 - 1 \<or> t \<le> now + ep_timeout block (Some t) now * 1000000) \<and>
   ep_timeout True None now = - 1 \<and> ep_timeout False None now = 0"
proof -
  let ?m = "ep_ceil_ms (t - now)"
  note b = ep_ceil_ms_bounds [of "t - now"]
  show ?thesis
  proof (cases block)
    case True
    consider "?m < 0" | "0 \<le> ?m" "?m \<le> 2147483647" | "2147483647 < ?m" by linarith
    then show ?thesis using b True by cases (simp_all add: ep_timeout_def)
  qed (simp add: ep_timeout_def)
qed

text \<open>C17. Construction of an \<open>io_object\<close> does not leak: when it fails, closing the descriptor is the last thing
  that happens and nothing else of the context has changed; when it succeeds on a real descriptor, that is no
  regular file or directory, it was or has been made non-blocking, and its entry is clean and no longer in the
  pool.\<close>

theorem io_object_new_no_leak:
  assumes "pool_rep (ec_pool c) free" "fresh = Some b \<longrightarrow> b \<notin> set free" "io_object_new s fresh fd c = (r, c')"
  shows "case r of
      Inl e \<Rightarrow> \<exists>k. c' = c\<lparr>ec_kernel := snd (sc_close s fd k)\<rparr>
    | Inr ob \<Rightarrow> ob_fd ob = fd \<and>
        (if fd = - 1 then ob_data ob = None \<and> c' = c
         else
           (\<exists>a free'. ob_data ob = Some a \<and> ec_data c' a = fd_clean \<and> pool_rep (ec_pool c') free' \<and>
             a \<notin> set free' \<and> set free' \<subseteq> set free) \<and>
           (\<exists>k1 k2 k3. fst (sc_fstat_kind s fd k1) \<in> {Inr KSocket, Inr KOther} \<and>
             (fst (sc_getfl s fd k2) = Inr True \<or> fst (sc_setfl s fd True k3) = Inr ())))"
proof -
  obtain st k where st: "is_stream_oriented s fd (ec_kernel c) = (st, k)" by fastforce
  show ?thesis
  proof (cases "\<exists>stream. st = Inr stream \<and> fd \<noteq> - 1")
    case False
    then show ?thesis using st assms(3)
      by (auto simp: io_object_new_def ec_close_def is_stream_oriented_def split: sum.splits if_splits)
  next
    case True
    then obtain stream where stream: "st = Inr stream" "fd \<noteq> - 1" by blast
    obtain ch k1 where ch: "io_object_check s fd k = (ch, k1)" by fastforce
    show ?thesis
    proof (cases ch)
      case (Inl e)
      then show ?thesis using st stream ch assms(3) by (auto simp: io_object_new_def ec_close_def)
    next
      case (Inr u)
      then have "io_object_check s fd k = (Inr (), k1)" using ch by simp
      note fl = io_object_check_ok [OF this]
      show ?thesis
      proof (cases "pool_acquire fresh (ec_pool c)")
        case (Inl e)
        then show ?thesis using st stream ch \<open>ch = Inr u\<close> assms(3)
          by (auto simp: io_object_new_def ec_close_def ec_new_epoll_data_def)
      next
        case acq: (Inr x)
        then obtain a p where ap: "pool_acquire fresh (ec_pool c) = Inr (a, p)" by (cases x) auto
        note q = pool_acquire_rep [OF assms(1,2) ap]
        have sub: "set (tl free) \<subseteq> set free" by (cases free) auto
        have "r = Inr \<lparr>ob_fd = fd, ob_stream = stream, ob_data = Some a\<rparr>"
          "c' = c\<lparr>ec_kernel := k1, ec_pool := p, ec_data := (ec_data c)(a := fd_clean)\<rparr>"
          using st stream ch Inr ap assms(3) by (auto simp: io_object_new_def ec_new_epoll_data_def)
        then show ?thesis using stream(2) q sub fl by auto
      qed
    qed
  qed
qed

theorem io_object_new_no_leak_witness:
  "\<exists>k. io_object_new (sys_none\<lparr>sc_fstat_kind := (\<lambda>_ w. (Inr KRegular, w))\<rparr>) (Some 4) 5 epc_demo =
     (Inl (SystemError EPERM), epc_demo\<lparr>ec_kernel := k\<rparr>)"
proof -
  let ?s = "sys_none\<lparr>sc_fstat_kind := (\<lambda>_ w. (Inr KRegular, w))\<rparr>"
  obtain c' where e: "io_object_new ?s (Some 4) 5 epc_demo = (Inl (SystemError EPERM), c')"
    by (simp add: io_object_new_def is_stream_oriented_def io_object_check_def)
  have "pool_rep (ec_pool epc_demo) []" by (simp add: epc_demo_def pool_rep_new)
  from io_object_new_no_leak [OF this _ e] show ?thesis using e by auto
qed

end
