(* ===== verification/Async_Result.thy ===== *)
theory Async_Result
  imports Prelude
begin

text \<open>
  \<open>async_result\<close> of \<open>include/coio/utils/async_result.h\<close>: the variant in which an operation keeps its result
  until its receiver is called. Index 0 is the state before a result, and also the stopped result.
\<close>

datatype 'v async_result = ResultNone | ResultValue 'v | ResultError error

datatype 'v receiver_call = SetValue 'v | SetError error | SetStopped

definition result_index :: "'v async_result \<Rightarrow> nat" where
  "result_index r = (case r of ResultNone \<Rightarrow> 0 | ResultValue _ \<Rightarrow> 1 | ResultError _ \<Rightarrow> 2)"

definition result_set_value :: "'v \<Rightarrow> 'v async_result \<Rightarrow> error + 'v async_result" where
  "result_set_value v r = (if result_index r = 0 then Inr (ResultValue v) else Inl AssertFailed)"

definition result_set_error :: "error \<Rightarrow> 'v async_result \<Rightarrow> error + 'v async_result" where
  "result_set_error e r = (if result_index r = 0 then Inr (ResultError e) else Inl AssertFailed)"

definition result_set_stopped :: "'v async_result \<Rightarrow> error + 'v async_result" where
  "result_set_stopped r = (if result_index r = 0 then Inr ResultNone else Inl AssertFailed)"

definition result_forward_to :: "'v async_result \<Rightarrow> 'v receiver_call" where
  "result_forward_to r =
     (case r of ResultNone \<Rightarrow> SetStopped | ResultValue v \<Rightarrow> SetValue v | ResultError e \<Rightarrow> SetError e)"

lemma result_set_simps [simp]:
  "result_set_value v ResultNone = Inr (ResultValue v)" "result_set_error e ResultNone = Inr (ResultError e)"
  "result_set_stopped ResultNone = Inr ResultNone"
  by (simp_all add: result_set_value_def result_set_error_def result_set_stopped_def result_index_def)

lemma result_forward_simps [simp]:
  "result_forward_to ResultNone = SetStopped" "result_forward_to (ResultValue v) = SetValue v"
  "result_forward_to (ResultError e) = SetError e"
  by (simp_all add: result_forward_to_def)

text \<open>A result is set at most once: a second one is a failed assertion, whatever it is.\<close>

lemma result_set_twice:
  "r \<noteq> ResultNone \<Longrightarrow> result_set_value v r = Inl AssertFailed \<and> result_set_error e r = Inl AssertFailed"
  by (cases r) (simp_all add: result_set_value_def result_set_error_def result_index_def)

end
