(* ===== verification/Epoll_Io.thy ===== *)
theory Epoll_Io
  imports Epoll_Context Async_Result Op_Phase
begin

text \<open>
  The asynchronous operations of the epoll backend: \<open>do_start\<close>, \<open>perform\<close> and \<open>do_cancel\<close> of every
  \<open>epoll_state_base_for\<close> (\<open>include/coio/asyncio/epoll_context.h\<close>, \<open>src/linux/asyncio/epoll_context.cpp\<close>), and the
  blocking members of \<open>io_object\<close>.

  \<open>do_start\<close> tries the call; if it would block, the operation registers itself, and when \<open>register_event\<close>
  reports an edge that nobody consumed it tries again. \<open>reg\<close> is \<open>register_event\<close> of the operation; between the
  calls the world \<open>'w\<close> may change by whatever \<open>reg\<close> does. The values of all operations share one type; where
  the code counts bytes that it has stored, the value is these bytes.
\<close>

datatype io_value = VBytes "byte list" | VCount nat | VDatagram endpoint "byte list" | VHandle int | VUnit

type_synonym io_result = "io_value async_result"
type_synonym 'w ep_register = "'w \<Rightarrow> (error + register_result) \<times> 'w"
type_synonym 'w ep_started = "((error + (start_result \<times> io_result)) \<times> 'w) option"

definition ep_completed :: "error + io_result \<Rightarrow> error + (start_result \<times> io_result)" where
  "ep_completed x = map_sum (\<lambda>e. e) (Pair ResCompleted) x"

text \<open>The loop of \<open>do_start\<close>; \<open>conv\<close> turns the value of the call into the result.\<close>

partial_function (option) ep_start_loop ::
  "('a, 'w) sys_call \<Rightarrow> 'w ep_register \<Rightarrow> ('a \<Rightarrow> io_result \<Rightarrow> error + io_result) \<Rightarrow> io_result \<Rightarrow> 'w \<Rightarrow> 'w ep_started" where
  "ep_start_loop call reg conv r w =
     (case fst (call w) of
        Inr v \<Rightarrow> Some (ep_completed (conv v r), snd (call w))
      | Inl e \<Rightarrow>
          if is_blocking_errno e then
            (case fst (reg (snd (call w))) of
               Inl err \<Rightarrow> Some (Inl err, snd (reg (snd (call w))))
             | Inr res \<Rightarrow>
                 (case res of
                    RegArmed \<Rightarrow> Some (Inr (ResPending, r), snd (reg (snd (call w))))
                  | RegReady \<Rightarrow> ep_start_loop call reg conv r (snd (reg (snd (call w))))
                  | RegFailure e \<Rightarrow>
                      Some (ep_completed (result_set_error (SystemError e) r), snd (reg (snd (call w))))))
          else Some (ep_completed (result_set_error (SystemError e) r), snd (call w)))"

text \<open>\<open>perform\<close>: whether the operation is finished.\<close>

definition ep_perform ::
  "('a, 'w) sys_call \<Rightarrow> ('a \<Rightarrow> io_result \<Rightarrow> error + io_result) \<Rightarrow> io_result \<Rightarrow> 'w \<Rightarrow> (error + (bool \<times> io_result)) \<times> 'w" where
  "ep_perform call conv r w =
     (case call w of
        (Inr v, w) \<Rightarrow> (map_sum (\<lambda>e. e) (Pair True) (conv v r), w)
      | (Inl e, w) \<Rightarrow>
          (if is_blocking_errno e then Inr (False, r)
           else map_sum (\<lambda>e. e) (Pair True) (result_set_error (SystemError e) r), w))"

text \<open>The first test of every \<open>do_start\<close>.\<close>

definition ep_with_fd :: "int \<Rightarrow> io_result \<Rightarrow> ('w \<Rightarrow> 'w ep_started) \<Rightarrow> 'w \<Rightarrow> 'w ep_started" where
  "ep_with_fd fd r m w =
     (if fd = - 1 then Some (ep_completed (result_set_error (SystemError EBADF) r), w) else m w)"

section \<open>The operations\<close>

definition ep_read_conv :: "bool \<Rightarrow> nat \<Rightarrow> byte list \<Rightarrow> io_result \<Rightarrow> error + io_result" where
  "ep_read_conv stream n bs r =
     (if stream \<and> bs = [] \<and> n \<noteq> 0 then result_set_error EndOfFile r else result_set_value (VBytes bs) r)"

definition ep_count_conv :: "nat \<Rightarrow> io_result \<Rightarrow> error + io_result" where
  "ep_count_conv n r = result_set_value (VCount n) r"

definition read_some_do_start :: "'w sys_calls \<Rightarrow> 'w ep_register \<Rightarrow> int \<Rightarrow> nat \<Rightarrow> io_result \<Rightarrow> 'w \<Rightarrow> 'w ep_started" where
  "read_some_do_start c reg fd n r = ep_with_fd fd r (\<lambda>w.
     if n = 0 then Some (ep_completed (result_set_value (VBytes []) r), w)
     else ep_start_loop (sc_read c fd n) reg (ep_read_conv True n) r w)"

definition read_some_perform :: "'w sys_calls \<Rightarrow> int \<Rightarrow> nat \<Rightarrow> io_result \<Rightarrow> 'w \<Rightarrow> (error + (bool \<times> io_result)) \<times> 'w" where
  "read_some_perform c fd n = ep_perform (sc_read c fd n) (ep_read_conv True n)"

definition write_some_do_start ::
  "'w sys_calls \<Rightarrow> 'w ep_register \<Rightarrow> int \<Rightarrow> byte list \<Rightarrow> io_result \<Rightarrow> 'w \<Rightarrow> 'w ep_started" where
  "write_some_do_start c reg fd bs r = ep_with_fd fd r (\<lambda>w.
     if bs = [] then Some (ep_completed (result_set_value (VCount 0) r), w)
     else ep_start_loop (sc_write c fd bs) reg ep_count_conv r w)"

definition write_some_perform ::
  "'w sys_calls \<Rightarrow> int \<Rightarrow> byte list \<Rightarrow> io_result \<Rightarrow> 'w \<Rightarrow> (error + (bool \<times> io_result)) \<times> 'w" where
  "write_some_perform c fd bs = ep_perform (sc_write c fd bs) ep_count_conv"

definition receive_do_start ::
  "'w sys_calls \<Rightarrow> 'w ep_register \<Rightarrow> int \<Rightarrow> nat \<Rightarrow> bool \<Rightarrow> io_result \<Rightarrow> 'w \<Rightarrow> 'w ep_started" where
  "receive_do_start c reg fd n stream_oriented r = ep_with_fd fd r (\<lambda>w.
     if stream_oriented \<and> n = 0 then Some (ep_completed (result_set_value (VBytes []) r), w)
     else ep_start_loop (sc_recv c fd n True) reg (ep_read_conv stream_oriented n) r w)"

definition receive_perform ::
  "'w sys_calls \<Rightarrow> int \<Rightarrow> nat \<Rightarrow> bool \<Rightarrow> io_result \<Rightarrow> 'w \<Rightarrow> (error + (bool \<times> io_result)) \<times> 'w" where
  "receive_perform c fd n stream_oriented r w =
     (if stream_oriented \<and> n = 0 then (map_sum (\<lambda>e. e) (Pair True) (result_set_value (VBytes []) r), w)
      else ep_perform (sc_recv c fd n True) (ep_read_conv stream_oriented n) r w)"

definition send_do_start ::
  "'w sys_calls \<Rightarrow> 'w ep_register \<Rightarrow> int \<Rightarrow> byte list \<Rightarrow> io_result \<Rightarrow> 'w \<Rightarrow> 'w ep_started" where
  "send_do_start c reg fd bs r = ep_with_fd fd r (ep_start_loop (sc_send c fd bs True) reg ep_count_conv r)"

definition send_perform ::
  "'w sys_calls \<Rightarrow> int \<Rightarrow> byte list \<Rightarrow> io_result \<Rightarrow> 'w \<Rightarrow> (error + (bool \<times> io_result)) \<times> 'w" where
  "send_perform c fd bs = ep_perform (sc_send c fd bs True) ep_count_conv"

definition ep_datagram_conv :: "bool \<Rightarrow> sockaddr \<times> byte list \<Rightarrow> io_result \<Rightarrow> error + io_result" where
  "ep_datagram_conv le x r =
     (case sockaddr_storage_to_endpoint le (fst x) of
        Inl e \<Rightarrow> Inl e
      | Inr ep \<Rightarrow> result_set_value (VDatagram ep (snd x)) r)"

definition receive_from_do_start ::
  "'w sys_calls \<Rightarrow> bool \<Rightarrow> 'w ep_register \<Rightarrow> int \<Rightarrow> nat \<Rightarrow> io_result \<Rightarrow> 'w \<Rightarrow> 'w ep_started" where
  "receive_from_do_start c le reg fd n r =
     ep_with_fd fd r (ep_start_loop (sc_recvfrom c fd n True) reg (ep_datagram_conv le) r)"

definition receive_from_perform ::
  "'w sys_calls \<Rightarrow> bool \<Rightarrow> int \<Rightarrow> nat \<Rightarrow> io_result \<Rightarrow> 'w \<Rightarrow> (error + (bool \<times> io_result)) \<times> 'w" where
  "receive_from_perform c le fd n = ep_perform (sc_recvfrom c fd n True) (ep_datagram_conv le)"

definition send_to_do_start ::
  "'w sys_calls \<Rightarrow> bool \<Rightarrow> 'w ep_register \<Rightarrow> int \<Rightarrow> byte list \<Rightarrow> endpoint \<Rightarrow> io_result \<Rightarrow> 'w \<Rightarrow> 'w ep_started" where
  "send_to_do_start c le reg fd bs peer r = ep_with_fd fd r
     (ep_start_loop (sc_sendto c fd bs True (to_sockaddr (endpoint_to_sockaddr_in le peer))) reg ep_count_conv r)"

definition send_to_perform ::
  "'w sys_calls \<Rightarrow> bool \<Rightarrow> int \<Rightarrow> byte list \<Rightarrow> endpoint \<Rightarrow> io_result \<Rightarrow> 'w \<Rightarrow> (error + (bool \<times> io_result)) \<times> 'w" where
  "send_to_perform c le fd bs peer =
     ep_perform (sc_sendto c fd bs True (to_sockaddr (endpoint_to_sockaddr_in le peer))) ep_count_conv"

definition ep_handle_conv :: "int \<Rightarrow> io_result \<Rightarrow> error + io_result" where
  "ep_handle_conv h r = result_set_value (VHandle h) r"

definition accept_do_start :: "'w sys_calls \<Rightarrow> 'w ep_register \<Rightarrow> int \<Rightarrow> io_result \<Rightarrow> 'w \<Rightarrow> 'w ep_started" where
  "accept_do_start c reg fd r = ep_with_fd fd r (ep_start_loop (sc_accept4 c fd True) reg ep_handle_conv r)"

definition accept_perform :: "'w sys_calls \<Rightarrow> int \<Rightarrow> io_result \<Rightarrow> 'w \<Rightarrow> (error + (bool \<times> io_result)) \<times> 'w" where
  "accept_perform c fd = ep_perform (sc_accept4 c fd True) ep_handle_conv"

text \<open>
  One attempt to connect: the socket is made non-blocking for the call and set back. \<open>Inl\<close> is the \<open>errno\<close> of
  an \<open>fcntl\<close>, \<open>Inr\<close> that of \<open>connect\<close>, or zero.
\<close>

definition connect_restore :: "'w sys_calls \<Rightarrow> int \<Rightarrow> bool \<Rightarrow> (unit, 'w) sys_call" where
  "connect_restore c fd nonblock w = (if \<not> nonblock then sc_setfl c fd False w else (Inr (), w))"

definition connect_try :: "'w sys_calls \<Rightarrow> int \<Rightarrow> sockaddr \<times> nat \<Rightarrow> (int, 'w) sys_call" where
  "connect_try c fd sa w =
     (case sc_getfl c fd w of
        (Inl e, w) \<Rightarrow> (Inl e, w)
      | (Inr nonblock, w) \<Rightarrow>
          (case (if \<not> nonblock then sc_setfl c fd True w else (Inr (), w)) of
             (Inl e, w) \<Rightarrow> (Inl e, w)
           | (Inr _, w) \<Rightarrow>
               (case sc_connect c fd sa w of
                  (res, w) \<Rightarrow>
                    (case connect_restore c fd nonblock w of
                       (Inl e, w) \<Rightarrow> (Inl e, w)
                     | (Inr _, w) \<Rightarrow> (Inr (case res of Inl ec \<Rightarrow> ec | Inr _ \<Rightarrow> 0), w)))))"

partial_function (option) connect_start_loop ::
  "(int, 'w) sys_call \<Rightarrow> 'w ep_register \<Rightarrow> io_result \<Rightarrow> bool \<Rightarrow> 'w \<Rightarrow> 'w ep_started" where
  "connect_start_loop attempt reg r in_progress w =
     (case fst (attempt w) of
        Inl e \<Rightarrow> Some (ep_completed (result_set_error (SystemError e) r), snd (attempt w))
      | Inr ec \<Rightarrow>
          if ec \<noteq> 0 then
            if ec = EISCONN \<and> in_progress then Some (ep_completed (result_set_value VUnit r), snd (attempt w))
            else if ec = EINPROGRESS \<or> ec = EALREADY then
              (case fst (reg (snd (attempt w))) of
                 Inl err \<Rightarrow> Some (Inl err, snd (reg (snd (attempt w))))
               | Inr res \<Rightarrow>
                   (case res of
                      RegArmed \<Rightarrow> Some (Inr (ResPending, r), snd (reg (snd (attempt w))))
                    | RegReady \<Rightarrow> connect_start_loop attempt reg r True (snd (reg (snd (attempt w))))
                    | RegFailure e \<Rightarrow>
                        Some (ep_completed (result_set_error (SystemError e) r), snd (reg (snd (attempt w))))))
            else Some (ep_completed (result_set_error (SystemError ec) r), snd (attempt w))
          else Some (ep_completed (result_set_value VUnit r), snd (attempt w)))"

definition connect_do_start ::
  "'w sys_calls \<Rightarrow> bool \<Rightarrow> 'w ep_register \<Rightarrow> int \<Rightarrow> endpoint \<Rightarrow> io_result \<Rightarrow> 'w \<Rightarrow> 'w ep_started" where
  "connect_do_start c le reg fd peer r = ep_with_fd fd r
     (connect_start_loop (connect_try c fd (to_sockaddr (endpoint_to_sockaddr_in le peer))) reg r False)"

definition connect_perform :: "'w sys_calls \<Rightarrow> int \<Rightarrow> io_result \<Rightarrow> 'w \<Rightarrow> (error + (bool \<times> io_result)) \<times> 'w" where
  "connect_perform c fd r w =
     (case sc_poll c fd POLLOUT 0 w of
        (polled, w) \<Rightarrow>
          if polled = Inr 0 then (Inr (False, r), w)
          else
            (case sc_so_error c fd w of
               (Inl e, w) \<Rightarrow> (map_sum (\<lambda>e. e) (Pair True) (result_set_error (SystemError e) r), w)
             | (Inr ec, w) \<Rightarrow>
                 (map_sum (\<lambda>e. e) (Pair True)
                    (if ec \<noteq> 0 then result_set_error (SystemError ec) r else result_set_value VUnit r), w)))"

section \<open>All operations\<close>

datatype io_request =
    ReadSome nat
  | WriteSome "byte list"
  | Receive nat bool
  | Send "byte list"
  | ReceiveFrom nat
  | SendTo "byte list" endpoint
  | Accept
  | Connect endpoint

definition io_direction :: "io_request \<Rightarrow> ep_flag" where
  "io_direction q =
     (case q of ReadSome _ \<Rightarrow> EPOLLIN | WriteSome _ \<Rightarrow> EPOLLOUT | Receive _ _ \<Rightarrow> EPOLLIN | Send _ \<Rightarrow> EPOLLOUT
      | ReceiveFrom _ \<Rightarrow> EPOLLIN | SendTo _ _ \<Rightarrow> EPOLLOUT | Accept \<Rightarrow> EPOLLIN | Connect _ \<Rightarrow> EPOLLOUT)"

definition io_do_start ::
  "'w sys_calls \<Rightarrow> bool \<Rightarrow> (ep_flag \<Rightarrow> 'w ep_register) \<Rightarrow> int \<Rightarrow> io_request \<Rightarrow> io_result \<Rightarrow> 'w \<Rightarrow> 'w ep_started" where
  "io_do_start c le reg fd q r =
     (case q of
        ReadSome n \<Rightarrow> read_some_do_start c (reg EPOLLIN) fd n r
      | WriteSome bs \<Rightarrow> write_some_do_start c (reg EPOLLOUT) fd bs r
      | Receive n stream \<Rightarrow> receive_do_start c (reg EPOLLIN) fd n stream r
      | Send bs \<Rightarrow> send_do_start c (reg EPOLLOUT) fd bs r
      | ReceiveFrom n \<Rightarrow> receive_from_do_start c le (reg EPOLLIN) fd n r
      | SendTo bs peer \<Rightarrow> send_to_do_start c le (reg EPOLLOUT) fd bs peer r
      | Accept \<Rightarrow> accept_do_start c (reg EPOLLIN) fd r
      | Connect peer \<Rightarrow> connect_do_start c le (reg EPOLLOUT) fd peer r)"

definition io_perform ::
  "'w sys_calls \<Rightarrow> bool \<Rightarrow> int \<Rightarrow> io_request \<Rightarrow> io_result \<Rightarrow> 'w \<Rightarrow> (error + (bool \<times> io_result)) \<times> 'w" where
  "io_perform c le fd q =
     (case q of
        ReadSome n \<Rightarrow> read_some_perform c fd n
      | WriteSome bs \<Rightarrow> write_some_perform c fd bs
      | Receive n stream \<Rightarrow> receive_perform c fd n stream
      | Send bs \<Rightarrow> send_perform c fd bs
      | ReceiveFrom n \<Rightarrow> receive_from_perform c le fd n
      | SendTo bs peer \<Rightarrow> send_to_perform c le fd bs peer
      | Accept \<Rightarrow> accept_perform c fd
      | Connect peer \<Rightarrow> connect_perform c fd)"

definition io_do_cancel :: "nat \<Rightarrow> io_request \<Rightarrow> addr \<Rightarrow> ptr \<Rightarrow> 'k epoll_context \<Rightarrow> 'k epoll_context option" where
  "io_do_cancel tid q op data c = ec_cancel_op tid (io_direction q) op data c"

text \<open>The blocking members of \<open>io_object\<close>.\<close>

definition io_blocking :: "'w sys_calls \<Rightarrow> bool \<Rightarrow> int \<Rightarrow> io_request \<Rightarrow> (io_value, 'w) io" where
  "io_blocking c le fd q w =
     (case q of
        ReadSome n \<Rightarrow> io_post (\<lambda>bs. Inr (VBytes bs)) (file_read c fd n w)
      | WriteSome bs \<Rightarrow> io_post (\<lambda>n. Inr (VCount n)) (file_write c fd bs w)
      | Receive n stream \<Rightarrow> io_post (\<lambda>bs. Inr (VBytes bs)) (socket_receive c fd n stream w)
      | Send bs \<Rightarrow> io_post (\<lambda>n. Inr (VCount n)) (socket_send c fd bs w)
      | ReceiveFrom n \<Rightarrow> io_post (\<lambda>(ep, bs). Inr (VDatagram ep bs)) (socket_receive_from c le fd n w)
      | SendTo bs peer \<Rightarrow> io_post (\<lambda>n. Inr (VCount n)) (socket_send_to c le fd bs peer w)
      | Accept \<Rightarrow> io_post (\<lambda>h. Inr (VHandle h)) (socket_accept c fd w)
      | Connect peer \<Rightarrow> io_post (\<lambda>_. Inr VUnit) (socket_connect c le fd peer w))"


section \<open>What an operation should report\<close>

text \<open>The system call of a request; \<open>nowait\<close> is how the asynchronous operations call it.\<close>

definition io_mapped :: "('a \<Rightarrow> 'b) \<Rightarrow> (int + 'a) \<times> 'w \<Rightarrow> (int + 'b) \<times> 'w" where
  "io_mapped f r = (map_sum (\<lambda>e. e) f (fst r), snd r)"

definition io_answer :: "'w sys_calls \<Rightarrow> bool \<Rightarrow> bool \<Rightarrow> int \<Rightarrow> io_request \<Rightarrow> (io_value, 'w) sys_call" where
  "io_answer c le nowait fd q w =
     (case q of
        ReadSome n \<Rightarrow> io_mapped VBytes (sc_read c fd n w)
      | WriteSome bs \<Rightarrow> io_mapped VCount (sc_write c fd bs w)
      | Receive n stream \<Rightarrow> io_mapped VBytes (sc_recv c fd n nowait w)
      | Send bs \<Rightarrow> io_mapped VCount (sc_send c fd bs nowait w)
      | ReceiveFrom n \<Rightarrow>
          io_mapped (\<lambda>(a, bs). VDatagram (projr (sockaddr_to_endpoint le a)) bs) (sc_recvfrom c fd n nowait w)
      | SendTo bs peer \<Rightarrow>
          io_mapped VCount (sc_sendto c fd bs nowait (to_sockaddr (endpoint_to_sockaddr_in le peer)) w)
      | Accept \<Rightarrow> io_mapped VHandle (sc_accept4 c fd nowait w)
      | Connect peer \<Rightarrow> io_mapped (\<lambda>_. VUnit) (sc_connect c fd (to_sockaddr (endpoint_to_sockaddr_in le peer)) w))"

text \<open>Reading nothing although something was asked for is the end of the file.\<close>

definition io_eof :: "io_request \<Rightarrow> io_value \<Rightarrow> bool" where
  "io_eof q v \<longleftrightarrow> v = VBytes [] \<and> (case q of ReadSome n \<Rightarrow> n \<noteq> 0 | Receive n stream \<Rightarrow> stream \<and> n \<noteq> 0 | _ \<Rightarrow> False)"

definition io_spec :: "io_request \<Rightarrow> int + io_value \<Rightarrow> error + io_value" where
  "io_spec q ans =
     (case ans of Inl e \<Rightarrow> Inl (SystemError e) | Inr v \<Rightarrow> if io_eof q v then Inl EndOfFile else Inr v)"

definition io_as_result :: "error + io_value \<Rightarrow> io_result" where
  "io_as_result x = (case x of Inl e \<Rightarrow> ResultError e | Inr v \<Rightarrow> ResultValue v)"

text \<open>Requests that do no system call.\<close>

definition io_empty :: "io_request \<Rightarrow> bool" where
  "io_empty q \<longleftrightarrow> (case q of ReadSome n \<Rightarrow> n = 0 | WriteSome bs \<Rightarrow> bs = [] | Receive n stream \<Rightarrow> stream \<and> n = 0 | _ \<Rightarrow> False)"

text \<open>Datagrams come from IP peers only.\<close>

definition io_ip_peers :: "'w sys_calls \<Rightarrow> int \<Rightarrow> bool" where
  "io_ip_peers c fd \<longleftrightarrow> (\<forall>n nowait w f bs w'. sc_recvfrom c fd n nowait w \<noteq> (Inr (SockOther f, bs), w'))"

lemmas io_do_start_defs = io_do_start_def read_some_do_start_def write_some_do_start_def receive_do_start_def
  send_do_start_def receive_from_do_start_def send_to_do_start_def accept_do_start_def connect_do_start_def ep_with_fd_def

lemmas io_perform_defs = io_perform_def read_some_perform_def write_some_perform_def receive_perform_def
  send_perform_def receive_from_perform_def send_to_perform_def accept_perform_def

lemmas io_blocking_defs = io_blocking_def file_read_def file_write_def socket_receive_def socket_send_def
  socket_receive_from_def socket_send_to_def socket_accept_def with_fd_def check_fd_def

lemmas ep_conv_defs = ep_read_conv_def ep_count_conv_def ep_datagram_conv_def ep_handle_conv_def

text \<open>A call that does not block decides all three forms at once.\<close>

lemma io_mapped_eq: "io_mapped f x = (ans, w') \<longleftrightarrow> (\<exists>r. x = (r, w') \<and> ans = map_sum (\<lambda>e. e) f r)"
  by (cases x) (auto simp: io_mapped_def)

lemma io_post_post [simp]: "io_post f (io_post g r) = io_post (\<lambda>v. case g v of Inl e \<Rightarrow> Inl e | Inr x \<Rightarrow> f x) r"
  by (cases r) (auto simp: io_post_def split: sum.splits)

lemma ep_start_loop_spec:
  assumes "io_mapped f (call w) = (ans, w')" "ans \<noteq> Inl EAGAIN"
    and "\<And>v. call w = (Inr v, w') \<Longrightarrow> conv v ResultNone = Inr (io_as_result (io_spec q (Inr (f v))))"
  shows "ep_start_loop call reg conv ResultNone w = Some (Inr (ResCompleted, io_as_result (io_spec q ans)), w')"
proof -
  obtain r where r: "call w = (r, w')" "ans = map_sum (\<lambda>e. e) f r" using assms(1) unfolding io_mapped_eq by blast
  show ?thesis
    using r assms(2,3) by (subst ep_start_loop.simps, cases r)
      (simp_all add: is_blocking_errno_def ep_completed_def io_spec_def io_as_result_def)
qed

lemma ep_perform_spec:
  assumes "io_mapped f (call w) = (ans, w')" "ans \<noteq> Inl EAGAIN"
    and "\<And>v. call w = (Inr v, w') \<Longrightarrow> conv v ResultNone = Inr (io_as_result (io_spec q (Inr (f v))))"
  shows "ep_perform call conv ResultNone w = (Inr (True, io_as_result (io_spec q ans)), w')"
proof -
  obtain r where r: "call w = (r, w')" "ans = map_sum (\<lambda>e. e) f r" using assms(1) unfolding io_mapped_eq by blast
  show ?thesis
    using r assms(2,3) by (cases r) (simp_all add: ep_perform_def is_blocking_errno_def io_spec_def io_as_result_def)
qed

lemma sockaddr_ip: "(\<forall>f. a \<noteq> SockOther f) \<Longrightarrow> \<exists>ep. sockaddr_to_endpoint le a = Inr ep"
  by (cases a) (simp_all add: sockaddr_to_endpoint_def)

lemma io_peer_known:
  "io_ip_peers c fd \<Longrightarrow> sc_recvfrom c fd n nowait w = (Inr (a, bs), w') \<Longrightarrow>
     sockaddr_to_endpoint le a = Inr (projr (sockaddr_to_endpoint le a))"
  unfolding io_ip_peers_def using sockaddr_ip [of a le] by fastforce

lemma io_conv_spec:
  "ep_read_conv True n bs ResultNone = Inr (io_as_result (io_spec (ReadSome n) (Inr (VBytes bs))))"
  "ep_read_conv stream n bs ResultNone = Inr (io_as_result (io_spec (Receive n stream) (Inr (VBytes bs))))"
  "ep_count_conv m ResultNone = Inr (io_as_result (io_spec q (Inr (VCount m))))"
  "ep_handle_conv h ResultNone = Inr (io_as_result (io_spec q (Inr (VHandle h))))"
  by (simp_all add: ep_conv_defs io_as_result_def io_spec_def io_eof_def)

lemma io_datagram_spec:
  assumes "io_ip_peers c fd" "sc_recvfrom c fd n nowait w = (Inr v, w')"
  shows "ep_datagram_conv le v ResultNone = Inr (io_as_result (io_spec q
      (Inr (case v of (a, bs) \<Rightarrow> VDatagram (projr (sockaddr_to_endpoint le a)) bs))))"
  using assms io_peer_known [OF assms(1), of n nowait w "fst v" "snd v" w' le]
  by (cases v) (auto simp: ep_conv_defs io_as_result_def io_spec_def io_eof_def sockaddr_storage_to_endpoint_def
      split: sum.splits)

lemma io_post_spec:
  "(case if stream \<and> bs = [] \<and> 0 < n then Inl EndOfFile else Inr bs of Inl e \<Rightarrow> Inl e | Inr x \<Rightarrow> Inr (VBytes x)) =
     io_spec (Receive n stream) (Inr (VBytes bs))"
  "Inr (VCount m) = io_spec q (Inr (VCount m))"
  "Inr (VHandle h) = io_spec q (Inr (VHandle h))"
  by (simp_all add: io_spec_def io_eof_def)

lemma io_forms_agree:
  assumes "fd \<noteq> - 1" "\<not> io_empty q" "\<forall>peer. q \<noteq> Connect peer" "io_ip_peers c fd"
    and t: "io_answer c le True fd q w = (ans, w')" and ans: "ans \<noteq> Inl EAGAIN"
  shows "io_do_start c le reg fd q ResultNone w = Some (Inr (ResCompleted, io_as_result (io_spec q ans)), w')"
    and "io_perform c le fd q ResultNone w = (Inr (True, io_as_result (io_spec q ans)), w')"
proof -
  note prems = assms(1-4)
  show "io_do_start c le reg fd q ResultNone w = Some (Inr (ResCompleted, io_as_result (io_spec q ans)), w')"
    using prems t by (cases q) (auto simp: io_do_start_defs io_answer_def io_empty_def
      intro!: ep_start_loop_spec [OF _ ans] io_conv_spec io_datagram_spec [OF assms(4)])
  show "io_perform c le fd q ResultNone w = (Inr (True, io_as_result (io_spec q ans)), w')"
    using prems t by (cases q) (auto simp: io_perform_defs io_answer_def io_empty_def
      intro!: ep_perform_spec [OF _ ans] io_conv_spec io_datagram_spec [OF assms(4)])
qed

section \<open>Starting an operation\<close>

text \<open>\<open>register_event\<close> of the operation \<open>op\<close>, on its entry and the kernel.\<close>

definition ep_reg :: "'k epoll_ctl \<Rightarrow> addr \<Rightarrow> ep_flag \<Rightarrow> (per_fd_data \<times> 'k) ep_register" where
  "ep_reg ctl op d s =
     (case register_event ctl d op s of
        Inl e \<Rightarrow> (Inl e, s)
      | Inr (res, p, k) \<Rightarrow> (Inr res, (p, k)))"

definition ep_other :: "ep_flag \<Rightarrow> ep_flag" where
  "ep_other d = (if d = EPOLLIN then EPOLLOUT else EPOLLIN)"

text \<open>The outcome of \<open>do_start\<close> in the direction \<open>d\<close>, from the entry \<open>p\<close>: the operation has its result and is
  not registered, or it has none, is registered, and no edge is left that it could have consumed.\<close>

definition ep_start_ok :: "ep_flag \<Rightarrow> addr \<Rightarrow> per_fd_data \<Rightarrow> (per_fd_data \<times> 'k) ep_started \<Rightarrow> bool" where
  "ep_start_ok d op p res \<longleftrightarrow>
     (\<exists>st r p' k'. res = Some (Inr (st, r), (p', k')) \<and>
        (if st = ResPending then r = ResultNone \<and> fd_op d p' = Some op \<and> fd_ready p' \<inter> ep_interest d = {}
         else r \<noteq> ResultNone \<and> fd_op d p' = None) \<and>
        fd_op (ep_other d) p' = fd_op (ep_other d) p)"

definition io_keeps_entry :: "(per_fd_data \<times> 'k) sys_calls \<Rightarrow> bool \<Rightarrow> int \<Rightarrow> io_request \<Rightarrow> bool" where
  "io_keeps_entry c le fd q \<longleftrightarrow>
     (\<forall>w. fst (snd (io_answer c le True fd q w)) = fst w) \<and> (\<forall>sa w. fst (snd (connect_try c fd sa w)) = fst w)"

lemma ep_reg_cases:
  assumes "d = EPOLLIN \<or> d = EPOLLOUT" "fd_op d p = None"
  obtains (armed) p' k' where "ep_reg ctl op d (p, k) = (Inr RegArmed, (p', k'))" "fd_op d p' = Some op"
      "fd_ready p' \<inter> ep_interest d = {}" "fd_ready p \<inter> ep_interest d = {}"
      "fd_op (ep_other d) p' = fd_op (ep_other d) p"
  | (ready) p' where "ep_reg ctl op d (p, k) = (Inr RegReady, (p', k))" "fd_op d p' = None"
      "fd_ready p' \<inter> ep_interest d = {}" "fd_ready p \<inter> ep_interest d \<noteq> {}"
      "fd_op (ep_other d) p' = fd_op (ep_other d) p"
  | (failure) e k' where "ep_reg ctl op d (p, k) = (Inr (RegFailure e), (p, k'))"
proof (cases "fd_ready p \<inter> ep_interest d = {}")
  case False
  let ?p = "p\<lparr>fd_ready := fd_ready p - ep_interest d\<rparr>"
  have "ep_reg ctl op d (p, k) = (Inr RegReady, (?p, k))" using assms False by (auto simp: ep_reg_def register_event_def)
  moreover have "fd_op d ?p = None" "fd_ready ?p \<inter> ep_interest d = {}"
    "fd_op (ep_other d) ?p = fd_op (ep_other d) p"
    using assms(2) by (auto simp: fd_op_def)
  ultimately show ?thesis using False by (rule_tac ready)
next
  case True
  let ?ev = "ep_wanted d p"
  let ?r = "if ?ev = fd_events p then (None, k) else ctl (ep_ctl_op p) ?ev k"
  show ?thesis
  proof (cases "fst ?r")
    case None
    let ?p = "fd_set_op d (Some op) (p\<lparr>fd_events := ?ev\<rparr>)"
    have "ep_reg ctl op d (p, k) = (Inr RegArmed, (?p, snd ?r))"
      using assms True None by (auto simp: ep_reg_def register_event_def Let_def)
    moreover have "fd_op d ?p = Some op" "fd_ready ?p \<inter> ep_interest d = {}"
      "fd_op (ep_other d) ?p = fd_op (ep_other d) p"
      using assms(1) True by (auto simp: fd_op_def fd_set_op_def ep_other_def)
    ultimately show ?thesis using True by (rule_tac armed)
  next
    case (Some e)
    then have "ep_reg ctl op d (p, k) = (Inr (RegFailure e), (p, snd ?r))"
      using assms True by (auto simp: ep_reg_def register_event_def Let_def)
    then show ?thesis by (rule failure)
  qed
qed

text \<open>One attempt: it is finished, or it has registered the operation, or it is repeated with a clean entry. The
  loops of \<open>do_start\<close> and of \<open>async_connect\<close> both have this shape.\<close>

definition ep_attempt_ok :: "ep_flag \<Rightarrow> addr \<Rightarrow> (per_fd_data \<times> 'k \<Rightarrow> (per_fd_data \<times> 'k) ep_started) \<Rightarrow>
    (per_fd_data \<times> 'k \<Rightarrow> (per_fd_data \<times> 'k) ep_started) \<Rightarrow> bool" where
  "ep_attempt_ok d op loop again \<longleftrightarrow>
     (\<forall>p k. fd_op d p = None \<longrightarrow> ep_start_ok d op p (loop (p, k)) \<or>
        (fd_ready p \<inter> ep_interest d \<noteq> {} \<and>
         (\<exists>p' k'. loop (p, k) = again (p', k') \<and> fd_op d p' = None \<and> fd_ready p' \<inter> ep_interest d = {} \<and>
           fd_op (ep_other d) p' = fd_op (ep_other d) p)))"

lemma ep_attempts:
  assumes "ep_attempt_ok d op loop again" "ep_attempt_ok d op again again'" "fd_op d p = None"
  shows "ep_start_ok d op p (loop (p, k))"
proof (cases "ep_start_ok d op p (loop (p, k))")
  case False
  then obtain p' k' where a: "loop (p, k) = again (p', k')" "fd_op d p' = None" "fd_ready p' \<inter> ep_interest d = {}"
    "fd_op (ep_other d) p' = fd_op (ep_other d) p"
    using assms(1,3) unfolding ep_attempt_ok_def by blast
  then have "ep_start_ok d op p' (again (p', k'))" using assms(2) unfolding ep_attempt_ok_def by blast
  then show ?thesis using a(1,4) by (simp add: ep_start_ok_def)
qed

lemma ep_start_okI:
  assumes "d = EPOLLIN \<or> d = EPOLLOUT" "fd_op d p = None" "r \<noteq> ResultNone"
  shows "ep_start_ok d op p (Some (Inr (ResCompleted, r), (p, k')))"
  using assms by (simp add: ep_start_ok_def)

lemma ep_completed_Inr [simp]: "ep_completed (Inr r) = Inr (ResCompleted, r)"
  by (simp add: ep_completed_def)

lemma ep_start_loop_attempt:
  assumes d: "d = EPOLLIN \<or> d = EPOLLOUT" and keep: "\<And>w. fst (snd (call w)) = fst w"
    and conv: "\<And>w v w'. call w = (Inr v, w') \<Longrightarrow> \<exists>x. conv v ResultNone = Inr x \<and> x \<noteq> ResultNone"
  shows "ep_attempt_ok d op (ep_start_loop call (ep_reg ctl op d) conv ResultNone)
    (ep_start_loop call (ep_reg ctl op d) conv ResultNone)"
  unfolding ep_attempt_ok_def
proof (intro allI impI)
  fix p k
  let ?loop = "ep_start_loop call (ep_reg ctl op d) conv ResultNone"
  assume none: "fd_op d p = None"
  obtain x k1 where c: "call (p, k) = (x, (p, k1))" using keep [of "(p, k)"] by (cases "call (p, k)") auto
  show "ep_start_ok d op p (?loop (p, k)) \<or> fd_ready p \<inter> ep_interest d \<noteq> {} \<and>
      (\<exists>p' k'. ?loop (p, k) = ?loop (p', k') \<and> fd_op d p' = None \<and> fd_ready p' \<inter> ep_interest d = {} \<and>
        fd_op (ep_other d) p' = fd_op (ep_other d) p)"
  proof (cases "x = Inl EAGAIN")
    case True
    from d none show ?thesis
    proof (cases rule: ep_reg_cases [where ctl = ctl and op = op and k = k1])
      case (armed p' k')
      have "?loop (p, k) = Some (Inr (ResPending, ResultNone), (p', k'))"
        using c True armed(1) by (subst ep_start_loop.simps) (simp add: is_blocking_errno_def)
      then show ?thesis using armed by (simp add: ep_start_ok_def)
    next
      case (ready p')
      have "?loop (p, k) = ?loop (p', k1)"
        using c True ready(1) by (subst ep_start_loop.simps) (simp add: is_blocking_errno_def)
      then show ?thesis using ready by blast
    next
      case (failure e k')
      have "?loop (p, k) = Some (Inr (ResCompleted, ResultError (SystemError e)), (p, k'))"
        using c True failure by (subst ep_start_loop.simps) (simp add: is_blocking_errno_def)
      then show ?thesis using ep_start_okI [OF d none, of "ResultError (SystemError e)" op k'] by simp
    qed
  next
    case False
    obtain y where "?loop (p, k) = Some (Inr (ResCompleted, y), (p, k1))" "y \<noteq> ResultNone"
    proof (cases x)
      case (Inl e)
      then have "?loop (p, k) = Some (Inr (ResCompleted, ResultError (SystemError e)), (p, k1))"
        using c False by (subst ep_start_loop.simps) (simp add: is_blocking_errno_def)
      then show ?thesis using that by blast
    next
      case (Inr v)
      then obtain y where y: "conv v ResultNone = Inr y" "y \<noteq> ResultNone" using conv c by blast
      then have "?loop (p, k) = Some (Inr (ResCompleted, y), (p, k1))"
        using c Inr by (subst ep_start_loop.simps) simp
      then show ?thesis using that y by blast
    qed
    then show ?thesis using ep_start_okI [OF d none, of y op k1] by simp
  qed
qed

lemma connect_start_loop_attempt:
  assumes keep: "\<And>w. fst (snd (attempt w)) = fst w"
  shows "ep_attempt_ok EPOLLOUT op (connect_start_loop attempt (ep_reg ctl op EPOLLOUT) ResultNone prog)
    (connect_start_loop attempt (ep_reg ctl op EPOLLOUT) ResultNone True)"
  unfolding ep_attempt_ok_def
proof (intro allI impI)
  fix p k
  let ?loop = "connect_start_loop attempt (ep_reg ctl op EPOLLOUT) ResultNone"
  assume none: "fd_op EPOLLOUT p = None"
  obtain x k1 where c: "attempt (p, k) = (x, (p, k1))" using keep [of "(p, k)"] by (cases "attempt (p, k)") auto
  have okI: "ep_start_ok EPOLLOUT op p (Some (Inr (ResCompleted, r), (p, k')))" if "r \<noteq> ResultNone" for r k'
    using ep_start_okI [of EPOLLOUT p r op k'] none that by simp
  show "ep_start_ok EPOLLOUT op p (?loop prog (p, k)) \<or> fd_ready p \<inter> ep_interest EPOLLOUT \<noteq> {} \<and>
      (\<exists>p' k'. ?loop prog (p, k) = ?loop True (p', k') \<and> fd_op EPOLLOUT p' = None \<and>
        fd_ready p' \<inter> ep_interest EPOLLOUT = {} \<and> fd_op (ep_other EPOLLOUT) p' = fd_op (ep_other EPOLLOUT) p)"
  proof (cases "x = Inr EINPROGRESS \<or> x = Inr EALREADY")
    case True
    have "EPOLLOUT = EPOLLIN \<or> EPOLLOUT = EPOLLOUT" by simp
    from this none show ?thesis
    proof (cases rule: ep_reg_cases [where ctl = ctl and op = op and k = k1])
      case (armed p' k')
      have "?loop prog (p, k) = Some (Inr (ResPending, ResultNone), (p', k'))"
        using c True armed(1) by (subst connect_start_loop.simps) (auto simp: errno_defs)
      then show ?thesis using armed by (simp add: ep_start_ok_def)
    next
      case (ready p')
      have "?loop prog (p, k) = ?loop True (p', k1)"
        using c True ready(1) by (subst connect_start_loop.simps) (auto simp: errno_defs)
      then show ?thesis using ready by auto
    next
      case (failure e k')
      have "?loop prog (p, k) = Some (Inr (ResCompleted, ResultError (SystemError e)), (p, k'))"
        using c True failure by (subst connect_start_loop.simps) (auto simp: errno_defs)
      then show ?thesis using okI [of "ResultError (SystemError e)" k'] by simp
    qed
  next
    case False
    have "\<exists>y. ?loop prog (p, k) = Some (Inr (ResCompleted, y), (p, k1)) \<and> y \<noteq> ResultNone"
      using c False by (subst connect_start_loop.simps) (cases x; auto simp: errno_defs)
    then obtain y where "?loop prog (p, k) = Some (Inr (ResCompleted, y), (p, k1))" "y \<noteq> ResultNone" by blast
    then show ?thesis using okI [of y k1] by simp
  qed
qed

lemma io_direction_cases: "io_direction q = EPOLLIN \<or> io_direction q = EPOLLOUT"
  by (cases q) (simp_all add: io_direction_def)

lemma io_do_start_outcome:
  assumes "io_keeps_entry c le fd q" "io_ip_peers c fd" "fd_op (io_direction q) p = None"
  shows "ep_start_ok (io_direction q) op p (io_do_start c le (ep_reg ctl op) fd q ResultNone (p, k))"
proof (cases "fd = - 1")
  case True
  then have "io_do_start c le (ep_reg ctl op) fd q ResultNone (p, k) =
      Some (Inr (ResCompleted, ResultError (SystemError EBADF)), (p, k))"
    by (cases q) (simp_all add: io_do_start_defs)
  then show ?thesis using ep_start_okI [OF io_direction_cases assms(3), of "ResultError (SystemError EBADF)" op k] by simp
next
  case False
  note [simp] = False
  note one = ep_attempts [OF ep_start_loop_attempt ep_start_loop_attempt]
  have keep: "fst (snd (io_answer c le True fd q w)) = fst w" for w using assms(1) unfolding io_keeps_entry_def by blast
  have conn: "fst (snd (connect_try c fd sa w)) = fst w" for sa w using assms(1) unfolding io_keeps_entry_def by blast
  have datagram: "\<exists>x. ep_datagram_conv le v ResultNone = Inr x \<and> x \<noteq> ResultNone"
    if "sc_recvfrom c fd n True w = (Inr v, w')" for n v w w'
    using io_datagram_spec [OF assms(2) that, of le q] by (simp add: io_as_result_def split: sum.splits)
  note keep1 = keep [unfolded io_answer_def]
  show ?thesis
  proof (cases q)
    case (Connect peer)
    have "ep_start_ok EPOLLOUT op p (connect_start_loop (connect_try c fd (to_sockaddr (endpoint_to_sockaddr_in le peer)))
        (ep_reg ctl op EPOLLOUT) ResultNone False (p, k))"
      using assms(3) Connect
      by (intro ep_attempts [OF connect_start_loop_attempt connect_start_loop_attempt] conn)
        (simp add: io_direction_def)
    then show ?thesis by (simp add: Connect io_do_start_defs io_direction_def)
  next
    case (ReceiveFrom n)
    then show ?thesis using assms(3) keep1 datagram
      by (auto simp: io_do_start_defs io_direction_def io_mapped_def intro!: one)
  qed (use assms(3) keep1 in \<open>auto simp: io_do_start_defs io_direction_def io_mapped_def ep_conv_defs intro!: one ep_start_okI\<close>)
qed

section \<open>Waiting\<close>

lemma retries_mapped1: "retries call poll w r w' \<Longrightarrow> retries (\<lambda>w. io_mapped f (call w)) poll w (map_sum (\<lambda>e. e) f r) w'"
proof (induction rule: retries.induct)
  case (final w r w')
  then show ?case by (intro retries.final) (auto simp: io_mapped_def, cases r, auto)
next
  case (poll_error w w1 e w')
  then show ?case using retries.poll_error [of "\<lambda>w. io_mapped f (call w)" w w1 poll e w'] by (simp add: io_mapped_def)
next
  case (again w w1 n w2 r w')
  then show ?case using retries.again [of "\<lambda>w. io_mapped f (call w)" w w1 poll n w2 "map_sum (\<lambda>e. e) f r" w']
    by (simp add: io_mapped_def)
qed

lemma retries_mapped2:
  "retries (\<lambda>w. io_mapped f (call w)) poll w ans w' \<Longrightarrow> \<exists>r. retries call poll w r w' \<and> ans = map_sum (\<lambda>e. e) f r"
proof (induction rule: retries.induct)
  case (final w r w')
  then obtain x where x: "call w = (x, w')" "r = map_sum (\<lambda>e. e) f x" by (auto simp: io_mapped_eq)
  then have "retries call poll w x w'" using final(2) by (intro retries.final) auto
  then show ?case using x(2) by blast
next
  case (poll_error w w1 e w')
  then obtain x where "call w = (x, w1)" "Inl EAGAIN = map_sum (\<lambda>e. e) f x" by (auto simp: io_mapped_eq)
  then have "call w = (Inl EAGAIN, w1)" by (cases x) simp_all
  then have "retries call poll w (Inl e) w'" using poll_error(2) by (rule retries.poll_error)
  then show ?case by force
next
  case (again w w1 n w2 r w')
  then obtain x where "call w = (x, w1)" "Inl EAGAIN = map_sum (\<lambda>e. e) f x" by (auto simp: io_mapped_eq)
  then have "call w = (Inl EAGAIN, w1)" by (cases x) simp_all
  then show ?case using again(2,4) retries.again [of call w w1 poll n w2 _ w'] by blast
qed

lemma io_retry_waits:
  assumes "\<And>v w1 w2. call w1 = (Inr v, w2) \<Longrightarrow> g v = io_spec q (Inr (f v))"
  shows "io_post g (io_retry call poll w) = Some (x, w') \<longleftrightarrow>
    (\<exists>ans. retries (\<lambda>w. io_mapped f (call w)) poll w ans w' \<and> x = io_spec q ans)"
proof -
  have val: "r = Inr v \<Longrightarrow> g v = io_spec q (Inr (f v))" if "retries call poll w r w'" for r v
    using that by (induction rule: retries.induct) (use assms in blast)+
  have post: "io_post g (Some (throw_last_error r, w')) = Some (io_spec q (map_sum (\<lambda>e. e) f r), w')"
    if "retries call poll w r w'" for r
    using val [OF that] by (cases r) (simp_all add: io_post_def io_spec_def)
  show ?thesis
  proof
    assume a: "io_post g (io_retry call poll w) = Some (x, w')"
    then obtain y where y: "io_retry call poll w = Some (y, w')" by (auto simp: io_post_def)
    then obtain r where "retries call poll w r w'" "y = throw_last_error r" by (auto simp: io_retry_iff)
    then show "\<exists>ans. retries (\<lambda>w. io_mapped f (call w)) poll w ans w' \<and> x = io_spec q ans"
      using a y post retries_mapped1 by fastforce
  next
    assume "\<exists>ans. retries (\<lambda>w. io_mapped f (call w)) poll w ans w' \<and> x = io_spec q ans"
    then obtain ans where a: "retries (\<lambda>w. io_mapped f (call w)) poll w ans w'" "x = io_spec q ans" by blast
    from retries_mapped2 [OF a(1)] obtain r where "retries call poll w r w'" "x = io_spec q (map_sum (\<lambda>e. e) f r)"
      using a(2) by auto
    then show "io_post g (io_retry call poll w) = Some (x, w')" using post by (simp add: io_retry_returns)
  qed
qed

definition io_poll_event :: "io_request \<Rightarrow> poll_event" where
  "io_poll_event q = (if io_direction q = EPOLLIN then POLLIN else POLLOUT)"

lemma io_blocking_waits_by:
  assumes "io_blocking c le fd q w = io_post g (io_retry call (sc_poll c fd (io_poll_event q) (- 1)) w)"
    and "\<And>w. io_answer c le False fd q w = io_mapped f (call w)"
    and "\<And>v w1 w2. call w1 = (Inr v, w2) \<Longrightarrow> g v = io_spec q (Inr (f v))"
  shows "io_blocking c le fd q w = Some (x, w') \<longleftrightarrow>
    (\<exists>ans. retries (io_answer c le False fd q) (sc_poll c fd (io_poll_event q) (- 1)) w ans w' \<and> x = io_spec q ans)"
proof -
  have "io_answer c le False fd q = (\<lambda>w. io_mapped f (call w))" using assms(2) by blast
  then show ?thesis unfolding assms(1) by (simp only:) (rule io_retry_waits [OF assms(3)])
qed

lemmas io_waits_simps = io_blocking_defs io_answer_def io_empty_def io_poll_event_def io_direction_def

lemma io_blocking_waits:
  assumes "fd \<noteq> - 1" "\<not> io_empty q" "\<forall>peer. q \<noteq> Connect peer" "io_ip_peers c fd"
  shows "io_blocking c le fd q w = Some (x, w') \<longleftrightarrow>
    (\<exists>ans. retries (io_answer c le False fd q) (sc_poll c fd (io_poll_event q) (- 1)) w ans w' \<and> x = io_spec q ans)"
proof (cases q)
  case (ReadSome n)
  show ?thesis
    by (rule io_blocking_waits_by [where call = "sc_read c fd n" and f = VBytes
          and g = "\<lambda>v. case if n \<noteq> 0 \<and> v = [] then Inl EndOfFile else Inr v of Inl e \<Rightarrow> Inl e | Inr x \<Rightarrow> Inr (VBytes x)"])
      (use assms ReadSome in \<open>simp_all add: io_waits_simps io_spec_def io_eof_def\<close>)
next
  case (WriteSome bs)
  show ?thesis
    by (rule io_blocking_waits_by [where call = "sc_write c fd bs" and f = VCount and g = "\<lambda>n. Inr (VCount n)"])
      (use assms WriteSome in \<open>simp_all add: io_waits_simps io_spec_def io_eof_def\<close>)
next
  case (Receive n stream)
  show ?thesis
    by (rule io_blocking_waits_by [where call = "sc_recv c fd n False" and f = VBytes
          and g = "\<lambda>v. case if stream \<and> v = [] \<and> n \<noteq> 0 then Inl EndOfFile else Inr v of Inl e \<Rightarrow> Inl e | Inr x \<Rightarrow> Inr (VBytes x)"])
      (use assms Receive in \<open>auto simp add: io_waits_simps io_spec_def io_eof_def\<close>)
next
  case (Send bs)
  show ?thesis
    by (rule io_blocking_waits_by [where call = "sc_send c fd bs False" and f = VCount and g = "\<lambda>n. Inr (VCount n)"])
      (use assms Send in \<open>simp_all add: io_waits_simps io_spec_def io_eof_def\<close>)
next
  case (ReceiveFrom n)
  let ?f = "\<lambda>(a, bs). VDatagram (projr (sockaddr_to_endpoint le a)) bs"
  let ?g = "\<lambda>v. case (case v of (addr, bs) \<Rightarrow>
      (case sockaddr_storage_to_endpoint le addr of Inl e \<Rightarrow> Inl e | Inr ep \<Rightarrow> Inr (ep, bs))) of
    Inl e \<Rightarrow> Inl e | Inr x \<Rightarrow> (case x of (ep, bs) \<Rightarrow> Inr (VDatagram ep bs))"
  have g: "?g v = io_spec q (Inr (?f v))" if "sc_recvfrom c fd n False w1 = (Inr v, w2)" for v w1 w2
    using that io_peer_known [OF assms(4), of n False w1 "fst v" "snd v" w2 le]
    by (cases v) (auto simp: io_spec_def io_eof_def sockaddr_storage_to_endpoint_def split: sum.splits)
  show ?thesis
    by (rule io_blocking_waits_by [where call = "sc_recvfrom c fd n False" and f = ?f and g = ?g])
      (use assms(1-3) ReceiveFrom g in \<open>simp_all add: io_waits_simps\<close>)
next
  case (SendTo bs peer)
  show ?thesis
    by (rule io_blocking_waits_by [where call = "sc_sendto c fd bs False (to_sockaddr (endpoint_to_sockaddr_in le peer))"
          and f = VCount and g = "\<lambda>n. Inr (VCount n)"])
      (use assms SendTo in \<open>simp_all add: io_waits_simps io_spec_def io_eof_def\<close>)
next
  case Accept
  show ?thesis
    by (rule io_blocking_waits_by [where call = "sc_accept4 c fd False" and f = VHandle and g = "\<lambda>n. Inr (VHandle n)"])
      (use assms Accept in \<open>simp_all add: io_waits_simps io_spec_def io_eof_def\<close>)
qed (use assms in simp)

section \<open>Properties\<close>

text \<open>A system in which descriptor 5 is a stream from which two bytes
  can be read after a signal has interrupted the waiting; the world counts what happened.\<close>

definition sys_demo :: "nat sys_calls" where
  "sys_demo = sys_none\<lparr>sc_read := (\<lambda>_ _ w. if w = 2 then (Inr [1, 2], 3) else (Inl EAGAIN, w)),
     sc_poll := (\<lambda>_ _ _ w. if w = 0 then (Inl EINTR, 1) else (Inr 1, 2))\<rparr>"

lemma sys_demo_ip: "io_ip_peers sys_demo 5"
  by (simp add: io_ip_peers_def sys_demo_def sys_none_def)

text \<open>C18. Starting an asynchronous operation of the epoll backend terminates, whatever the kernel answers and whether or
  not an edge was recorded before. It ends in one of two ways: with a result, and the operation is not
  registered; or pending without a result, and the operation is registered and no recorded edge that it could
  have consumed is left. The operation of the other direction is never touched.\<close>

theorem epoll_start_registers_or_completes:
  assumes "io_keeps_entry c le fd q" "io_ip_peers c fd" "fd_op (io_direction q) p = None"
  shows "\<exists>st r p' k'. io_do_start c le (ep_reg ctl op) fd q ResultNone (p, k) = Some (Inr (st, r), (p', k')) \<and>
    (if st = ResPending
     then r = ResultNone \<and> fd_op (io_direction q) p' = Some op \<and> fd_ready p' \<inter> ep_interest (io_direction q) = {}
     else r \<noteq> ResultNone \<and> fd_op (io_direction q) p' = None) \<and>
    fd_op (ep_other (io_direction q)) p' = fd_op (ep_other (io_direction q)) p"
  using io_do_start_outcome [OF assms, of op ctl k] by (simp add: ep_start_ok_def)

definition entry_demo :: per_fd_data where
  "entry_demo = \<lparr>fd_events = {}, fd_ready = {EPOLLIN}, fd_in_op = None, fd_out_op = Some 3\<rparr>"

definition sys_blocked :: "(per_fd_data \<times> unit) sys_calls" where
  "sys_blocked = sys_none\<lparr>sc_read := (\<lambda>_ _ w. (Inl EAGAIN, w))\<rparr>"

theorem epoll_start_registers_or_completes_witness:
  "\<exists>p'. io_do_start sys_blocked True (ep_reg (\<lambda>_ _ k. (None, k)) 7) 5 (ReadSome 4) ResultNone (entry_demo, ()) =
     Some (Inr (ResPending, ResultNone), (p', ())) \<and> fd_in_op p' = Some 7 \<and> fd_out_op p' = Some 3"
proof -
  have keep: "io_keeps_entry sys_blocked True 5 (ReadSome 4)" "io_ip_peers sys_blocked 5"
    by (simp_all add: io_keeps_entry_def io_ip_peers_def io_answer_def io_mapped_def connect_try_def sys_blocked_def
        sys_none_def)
  have empty: "fd_op (io_direction (ReadSome 4)) entry_demo = None"
    by (simp add: fd_op_def io_direction_def entry_demo_def)
  have dir: "io_direction (ReadSome 4) = EPOLLIN" by (simp add: io_direction_def)
  obtain st r p' where o: "io_do_start sys_blocked True (ep_reg (\<lambda>_ _ k. (None, k)) 7) 5 (ReadSome 4) ResultNone (entry_demo, ()) =
      Some (Inr (st, r), (p', ()))"
    "if st = ResPending then r = ResultNone \<and> fd_op EPOLLIN p' = Some 7 \<and> fd_ready p' \<inter> ep_interest EPOLLIN = {}
     else r \<noteq> ResultNone \<and> fd_op EPOLLIN p' = None" "fd_op (ep_other EPOLLIN) p' = fd_op (ep_other EPOLLIN) entry_demo"
    using epoll_start_registers_or_completes [OF keep empty, of "\<lambda>_ _ k. (None, k)" 7 "()"] unfolding dir by auto
  have "st = ResPending"
    using o(1) unfolding io_do_start_def read_some_do_start_def ep_with_fd_def
    by (simp add: sys_blocked_def entry_demo_def, subst (asm) ep_start_loop.simps, simp add: is_blocking_errno_def ep_reg_def
        register_event_def fd_op_def ep_interest_def, subst (asm) ep_start_loop.simps,
        simp add: is_blocking_errno_def ep_reg_def register_event_def fd_op_def ep_interest_def Let_def)
  then show ?thesis using o by (auto simp: fd_op_def ep_other_def entry_demo_def)
qed

text \<open>C19. The forms of an operation agree. When its system call has an answer that is not \<open>EAGAIN\<close>, the blocking member
  of \<open>io_object\<close>, the start of the asynchronous operation and its \<open>perform\<close> on an event all do the call once
  and report the same: the errno, the end of the file, or the value. While the call would block, the blocking
  member waits for the descriptor and reports the first other answer.\<close>

theorem io_forms_report_the_same:
  assumes "fd \<noteq> - 1" "\<not> io_empty q" "\<forall>peer. q \<noteq> Connect peer" "io_ip_peers c fd"
    and "io_answer c le True fd q w = (ans, w')" "io_answer c le False fd q w = (ans, w')" "ans \<noteq> Inl EAGAIN"
  shows "io_blocking c le fd q w = Some (io_spec q ans, w') \<and>
    io_do_start c le reg fd q ResultNone w = Some (Inr (ResCompleted, io_as_result (io_spec q ans)), w') \<and>
    io_perform c le fd q ResultNone w = (Inr (True, io_as_result (io_spec q ans)), w') \<and>
    (\<forall>v x v'. io_blocking c le fd q v = Some (x, v') \<longleftrightarrow>
      (\<exists>a. retries (io_answer c le False fd q) (sc_poll c fd (io_poll_event q) (- 1)) v a v' \<and> x = io_spec q a))"
proof -
  have "retries (io_answer c le False fd q) (sc_poll c fd (io_poll_event q) (- 1)) w ans w'"
    using assms(6,7) by (rule retries.final)
  then show ?thesis
    using io_forms_agree [OF assms(1-5,7)] io_blocking_waits [OF assms(1-4), of le] by blast
qed

theorem io_forms_report_the_same_witness:
  "io_blocking sys_demo True 5 (ReadSome 4) 0 = Some (Inr (VBytes [1, 2]), 3) \<and>
   io_perform sys_demo True 5 (ReadSome 4) ResultNone 2 = (Inr (True, ResultValue (VBytes [1, 2])), 3)"
proof -
  have ans: "io_answer sys_demo True nowait 5 (ReadSome 4) 2 = (Inr (VBytes [1, 2]), 3)" for nowait
    by (simp add: io_answer_def io_mapped_def sys_demo_def)
  have "\<not> io_empty (ReadSome 4)" "\<forall>peer. ReadSome 4 \<noteq> Connect peer" "(5::int) \<noteq> - 1" "Inr (VBytes [1, 2]) \<noteq> Inl EAGAIN"
    by (simp_all add: io_empty_def)
  note forms = io_forms_report_the_same [OF this(3,1,2) sys_demo_ip ans ans this(4), of "\<lambda>_ w. (Inr RegArmed, w)"]
  have spec: "io_spec (ReadSome 4) (Inr (VBytes [1, 2])) = Inr (VBytes [1, 2])" by (simp add: io_spec_def io_eof_def)
  have p1: "poll_returns (sc_poll sys_demo 5 (io_poll_event (ReadSome 4)) (- 1)) 1 (Inr 1) 2"
    by (rule poll_returns.answer) (simp_all add: sys_demo_def)
  have p0: "poll_returns (sc_poll sys_demo 5 (io_poll_event (ReadSome 4)) (- 1)) 0 (Inr 1) 2"
    by (rule poll_returns.interrupted [OF _ p1]) (simp add: sys_demo_def)
  have "retries (io_answer sys_demo True False 5 (ReadSome 4)) (sc_poll sys_demo 5 (io_poll_event (ReadSome 4)) (- 1)) 0
      (Inr (VBytes [1, 2])) 3"
    by (rule retries.again [OF _ p0 retries.final]) (simp_all add: io_answer_def io_mapped_def sys_demo_def)
  then have "io_blocking sys_demo True 5 (ReadSome 4) 0 = Some (Inr (VBytes [1, 2]), 3)"
    using forms spec by metis
  then show ?thesis using forms spec by (simp add: io_as_result_def)
qed

end
