(* ===== verification/Io_Frontend.thy ===== *)
theory Io_Frontend
  imports Epoll_Io
begin

text \<open>
  The objects that a program uses, over the epoll scheduler: \<open>basic_socket\<close>, \<open>basic_socket_acceptor\<close>,
  \<open>basic_stream_socket\<close> and \<open>basic_datagram_socket\<close> of \<open>include/coio/net/socket.h\<close>, the protocols \<open>tcp\<close> and
  \<open>udp\<close>, the files of \<open>include/coio/asyncio/file.h\<close> and the pipes of \<open>include/coio/asyncio/pipe.h\<close>.

  Each of them is its member \<open>impl_\<close>, an \<open>io_object\<close>. An operation acts on that object and its context; an
  exception leaves the changes made so far. \<open>None\<close> is a loop that does not end.
\<close>

section \<open>Operations on an object\<close>

type_synonym ('a, 'k) object_op =
  "io_object \<times> 'k epoll_context \<Rightarrow> ((error + 'a) \<times> (io_object \<times> 'k epoll_context)) option"

definition ob_return :: "'a \<Rightarrow> ('a, 'k) object_op" where
  "ob_return x s = Some (Inr x, s)"

definition ob_throw :: "error \<Rightarrow> ('a, 'k) object_op" where
  "ob_throw e s = Some (Inl e, s)"

definition ob_bind :: "('a, 'k) object_op \<Rightarrow> ('a \<Rightarrow> ('b, 'k) object_op) \<Rightarrow> ('b, 'k) object_op" where
  "ob_bind m f s =
     (case m s of
        None \<Rightarrow> None
      | Some (Inl e, s) \<Rightarrow> Some (Inl e, s)
      | Some (Inr x, s) \<Rightarrow> f x s)"

text \<open>A function of the native handle.\<close>

definition ob_native :: "(int \<Rightarrow> ('a, 'k) io) \<Rightarrow> ('a, 'k) object_op" where
  "ob_native m s =
     (case s of (ob, c) \<Rightarrow>
        map_option (\<lambda>(x, k). (x, (ob, c\<lparr>ec_kernel := k\<rparr>))) (m (ob_fd ob) (ec_kernel c)))"

text \<open>The destructor of \<open>io_object\<close>: an exception of \<open>close\<close> in a destructor is \<open>std::terminate\<close>.\<close>

definition io_object_destroy ::
  "(int \<Rightarrow> 'k \<Rightarrow> 'k) \<Rightarrow> 'k sys_calls \<Rightarrow> io_object \<Rightarrow> 'k epoll_context \<Rightarrow> (error + unit) \<times> 'k epoll_context" where
  "io_object_destroy del s ob c =
     (case io_object_close del s ob c of
        (Inl e, ob, c) \<Rightarrow> (Inl Terminate, c)
      | (Inr _, ob, c) \<Rightarrow> (Inr (), c))"

text \<open>\<open>impl_ = make_io_object(fd)\<close>: the old object is destroyed with the temporary it was swapped into.\<close>

definition ob_replace ::
  "(int \<Rightarrow> 'k \<Rightarrow> 'k) \<Rightarrow> 'k sys_calls \<Rightarrow> ptr \<Rightarrow> int \<Rightarrow> (unit, 'k) object_op" where
  "ob_replace del s fresh fd st =
     (case st of (ob, c) \<Rightarrow>
        (case io_object_new s fresh fd c of
           (Inl e, c) \<Rightarrow> Some (Inl e, (ob, c))
         | (Inr new, c) \<Rightarrow>
             (case io_object_swap ob new of
                (ob, tmp) \<Rightarrow> (case io_object_destroy del s tmp c of (r, c) \<Rightarrow> Some (r, (ob, c))))))"

definition ob_is_open :: "io_object \<Rightarrow> bool" where
  "ob_is_open ob \<longleftrightarrow> ob_fd ob \<noteq> - 1"

definition ob_close :: "(int \<Rightarrow> 'k \<Rightarrow> 'k) \<Rightarrow> 'k sys_calls \<Rightarrow> (unit, 'k) object_op" where
  "ob_close del s st = (case st of (ob, c) \<Rightarrow> Some (io_object_close del s ob c))"

definition ob_cancel :: "nat \<Rightarrow> (unit, 'k) object_op" where
  "ob_cancel tid st = (case st of (ob, c) \<Rightarrow> map_option (\<lambda>c. (Inr (), (ob, c))) (io_object_cancel tid ob c))"

section \<open>Protocols\<close>

text \<open>The numbers are those of Linux: \<open>AF_INET\<close> 2, \<open>AF_INET6\<close> 10, \<open>SOCK_STREAM\<close> 1, \<open>SOCK_DGRAM\<close> 2.\<close>

datatype protocol = Tcp (tcp_family: int) | Udp (udp_family: int)

definition tcp_v4 :: protocol where "tcp_v4 = Tcp 2"
definition tcp_v6 :: protocol where "tcp_v6 = Tcp 10"
definition udp_v4 :: protocol where "udp_v4 = Udp 2"
definition udp_v6 :: protocol where "udp_v6 = Udp 10"

definition protocol_family :: "protocol \<Rightarrow> int" where
  "protocol_family p = (case p of Tcp f \<Rightarrow> f | Udp f \<Rightarrow> f)"

definition protocol_type :: "protocol \<Rightarrow> int" where
  "protocol_type p = (case p of Tcp _ \<Rightarrow> 1 | Udp _ \<Rightarrow> 2)"

definition protocol_id :: "protocol \<Rightarrow> int" where
  "protocol_id p = (case p of Tcp _ \<Rightarrow> 6 | Udp _ \<Rightarrow> 17)"

text \<open>\<open>Protocol::v4()\<close> or \<open>Protocol::v6()\<close> by the address; \<open>stream\<close> tells which protocol it is.\<close>

definition protocol_for :: "bool \<Rightarrow> endpoint \<Rightarrow> protocol" where
  "protocol_for stream ep =
     (if ip_version (ep_ip ep) = 4 then if stream then tcp_v4 else udp_v4 else if stream then tcp_v6 else udp_v6)"

section \<open>Socket options\<close>

text \<open>An \<open>int\<close> as the kernel stores it on a little-endian machine, and a \<open>bool\<close> as an \<open>int\<close>.\<close>

definition sockopt_from_int :: "32 word \<Rightarrow> byte list" where
  "sockopt_from_int v = mem32_le v"

definition sockopt_to_int :: "byte list \<Rightarrow> 32 word" where
  "sockopt_to_int bs = unmem32_le bs"

definition sockopt_from_bool :: "bool \<Rightarrow> byte list" where
  "sockopt_from_bool b = sockopt_from_int (if b then 1 else 0)"

definition sockopt_to_bool :: "byte list \<Rightarrow> bool" where
  "sockopt_to_bool bs \<longleftrightarrow> sockopt_to_int bs \<noteq> 0"

section \<open>Sockets\<close>

text \<open>\<open>basic_socket(scheduler)\<close> is the object with no descriptor.\<close>

definition basic_socket_new :: "'k sys_calls \<Rightarrow> 'k epoll_context \<Rightarrow> (error + io_object) \<times> 'k epoll_context" where
  "basic_socket_new s c = io_object_new s None (- 1) c"

definition basic_socket_open ::
  "(int \<Rightarrow> 'k \<Rightarrow> 'k) \<Rightarrow> 'k sys_calls \<Rightarrow> ptr \<Rightarrow> protocol \<Rightarrow> (unit, 'k) object_op" where
  "basic_socket_open del s fresh p st =
     (if ob_is_open (fst st) then ob_throw AlreadyOpen st
      else
        ob_bind (ob_native (\<lambda>_. socket_open s (protocol_family p) (protocol_type p) (protocol_id p)))
          (ob_replace del s fresh) st)"

definition basic_socket_shutdown :: "'k sys_calls \<Rightarrow> shutdown_type \<Rightarrow> (unit, 'k) object_op" where
  "basic_socket_shutdown s how = ob_native (\<lambda>h. socket_shutdown s h how)"

definition basic_socket_local_endpoint :: "'k sys_calls \<Rightarrow> bool \<Rightarrow> (endpoint, 'k) object_op" where
  "basic_socket_local_endpoint s le = ob_native (socket_local_endpoint s le)"

definition basic_socket_remote_endpoint :: "'k sys_calls \<Rightarrow> bool \<Rightarrow> (endpoint, 'k) object_op" where
  "basic_socket_remote_endpoint s le = ob_native (socket_remote_endpoint s le)"

definition basic_socket_set_option :: "'k sys_calls \<Rightarrow> sock_option \<Rightarrow> byte list \<Rightarrow> (unit, 'k) object_op" where
  "basic_socket_set_option s opt data =
     ob_native (\<lambda>h. socket_set_sockopt s h (option_level opt) (option_name opt) data)"

definition basic_socket_get_option :: "'k sys_calls \<Rightarrow> sock_option \<Rightarrow> nat \<Rightarrow> (byte list, 'k) object_op" where
  "basic_socket_get_option s opt n =
     ob_native (\<lambda>h. socket_get_sockopt s h (option_level opt) (option_name opt) n)"

definition basic_socket_bind :: "'k sys_calls \<Rightarrow> bool \<Rightarrow> endpoint \<Rightarrow> (unit, 'k) object_op" where
  "basic_socket_bind s le ep = ob_native (\<lambda>h. socket_bind s le h ep)"

definition basic_socket_ensure_open ::
  "(int \<Rightarrow> 'k \<Rightarrow> 'k) \<Rightarrow> 'k sys_calls \<Rightarrow> ptr \<Rightarrow> bool \<Rightarrow> endpoint \<Rightarrow> (unit, 'k) object_op" where
  "basic_socket_ensure_open del s fresh stream peer st =
     (if \<not> ob_is_open (fst st) then basic_socket_open del s fresh (protocol_for stream peer) st else ob_return () st)"

definition basic_socket_connect ::
  "(int \<Rightarrow> 'k \<Rightarrow> 'k) \<Rightarrow> 'k sys_calls \<Rightarrow> bool \<Rightarrow> ptr \<Rightarrow> bool \<Rightarrow> endpoint \<Rightarrow> (unit, 'k) object_op" where
  "basic_socket_connect del s le fresh stream peer =
     ob_bind (basic_socket_ensure_open del s fresh stream peer) (\<lambda>_. ob_native (\<lambda>h. socket_connect s le h peer))"

definition acceptor_listen :: "'k sys_calls \<Rightarrow> size_t \<Rightarrow> (unit, 'k) object_op" where
  "acceptor_listen s backlog = ob_native (\<lambda>h. socket_listen s h backlog)"

text \<open>The constructor of an acceptor. When an exception leaves its body the object, whose delegated constructor has
  returned, is destroyed.\<close>

definition acceptor_setup ::
  "(int \<Rightarrow> 'k \<Rightarrow> 'k) \<Rightarrow> 'k sys_calls \<Rightarrow> bool \<Rightarrow> ptr \<Rightarrow> endpoint \<Rightarrow> size_t \<Rightarrow> bool \<Rightarrow> (unit, 'k) object_op" where
  "acceptor_setup del s le fresh ep backlog reuse_addr =
     ob_bind (basic_socket_open del s fresh (protocol_for True ep)) (\<lambda>_.
     ob_bind (basic_socket_set_option s ReuseAddress (sockopt_from_bool reuse_addr)) (\<lambda>_.
     ob_bind (basic_socket_bind s le ep) (\<lambda>_.
       acceptor_listen s backlog)))"

definition acceptor_new ::
  "(int \<Rightarrow> 'k \<Rightarrow> 'k) \<Rightarrow> 'k sys_calls \<Rightarrow> bool \<Rightarrow> ptr \<Rightarrow> endpoint \<Rightarrow> size_t \<Rightarrow> bool \<Rightarrow> 'k epoll_context \<Rightarrow>
   ((error + io_object) \<times> 'k epoll_context) option" where
  "acceptor_new del s le fresh ep backlog reuse_addr c =
     (case basic_socket_new s c of
        (Inl e, c) \<Rightarrow> Some (Inl e, c)
      | (Inr ob, c) \<Rightarrow>
          (case acceptor_setup del s le fresh ep backlog reuse_addr (ob, c) of
             None \<Rightarrow> None
           | Some (Inr _, (ob, c)) \<Rightarrow> Some (Inr ob, c)
           | Some (Inl e, (ob, c)) \<Rightarrow>
               (case io_object_destroy del s ob c of
                  (Inl t, c) \<Rightarrow> Some (Inl t, c)
                | (Inr _, c) \<Rightarrow> Some (Inl e, c))))"

text \<open>\<open>accept\<close> with a scheduler returns a new socket.\<close>

definition acceptor_accept :: "'k sys_calls \<Rightarrow> ptr \<Rightarrow> (io_object, 'k) object_op" where
  "acceptor_accept s fresh =
     ob_bind (ob_native (\<lambda>h. socket_accept s h))
       (\<lambda>fd (ob, c). case io_object_new s fresh fd c of (r, c) \<Rightarrow> Some (r, (ob, c)))"

definition stream_socket_read_some :: "'k sys_calls \<Rightarrow> nat \<Rightarrow> (byte list, 'k) object_op" where
  "stream_socket_read_some s n st = ob_native (\<lambda>h. socket_receive s h n (ob_stream (fst st))) st"

definition stream_socket_write_some :: "'k sys_calls \<Rightarrow> byte list \<Rightarrow> (nat, 'k) object_op" where
  "stream_socket_write_some s bs = ob_native (\<lambda>h. socket_send s h bs)"

definition datagram_receive :: "'k sys_calls \<Rightarrow> nat \<Rightarrow> (byte list, 'k) object_op" where
  "datagram_receive s n st = ob_native (\<lambda>h. socket_receive s h n (ob_stream (fst st))) st"

definition datagram_send :: "'k sys_calls \<Rightarrow> byte list \<Rightarrow> (nat, 'k) object_op" where
  "datagram_send s bs = ob_native (\<lambda>h. socket_send s h bs)"

definition datagram_receive_from :: "'k sys_calls \<Rightarrow> bool \<Rightarrow> nat \<Rightarrow> (endpoint \<times> byte list, 'k) object_op" where
  "datagram_receive_from s le n = ob_native (\<lambda>h. socket_receive_from s le h n)"

definition datagram_send_to :: "'k sys_calls \<Rightarrow> bool \<Rightarrow> byte list \<Rightarrow> endpoint \<Rightarrow> (nat, 'k) object_op" where
  "datagram_send_to s le bs peer = ob_native (\<lambda>h. socket_send_to s le h bs peer)"

section \<open>Files and pipes\<close>

definition file_open_as ::
  "(int \<Rightarrow> 'k \<Rightarrow> 'k) \<Rightarrow> 'k sys_calls \<Rightarrow> bool \<Rightarrow> ptr \<Rightarrow> string \<Rightarrow> 32 word \<Rightarrow> (unit, 'k) object_op" where
  "file_open_as del s random_access fresh path mode st =
     (if ob_is_open (fst st) then ob_throw AlreadyOpen st
      else ob_bind (ob_native (\<lambda>_. open_file s path mode random_access)) (ob_replace del s fresh) st)"

definition stream_file_open ::
  "(int \<Rightarrow> 'k \<Rightarrow> 'k) \<Rightarrow> 'k sys_calls \<Rightarrow> ptr \<Rightarrow> string \<Rightarrow> 32 word \<Rightarrow> (unit, 'k) object_op" where
  "stream_file_open del s = file_open_as del s False"

definition random_access_file_open ::
  "(int \<Rightarrow> 'k \<Rightarrow> 'k) \<Rightarrow> 'k sys_calls \<Rightarrow> ptr \<Rightarrow> string \<Rightarrow> 32 word \<Rightarrow> (unit, 'k) object_op" where
  "random_access_file_open del s = file_open_as del s True"

definition stream_file_read_some :: "'k sys_calls \<Rightarrow> nat \<Rightarrow> (byte list, 'k) object_op" where
  "stream_file_read_some s n = ob_native (\<lambda>h. file_read s h n)"

definition stream_file_write_some :: "'k sys_calls \<Rightarrow> byte list \<Rightarrow> (nat, 'k) object_op" where
  "stream_file_write_some s bs = ob_native (\<lambda>h. file_write s h bs)"

definition random_access_file_read_some_at :: "'k sys_calls \<Rightarrow> size_t \<Rightarrow> nat \<Rightarrow> (byte list, 'k) object_op" where
  "random_access_file_read_some_at s offset n = ob_native (\<lambda>h. file_read_at s h offset n)"

definition random_access_file_write_some_at :: "'k sys_calls \<Rightarrow> size_t \<Rightarrow> byte list \<Rightarrow> (nat, 'k) object_op" where
  "random_access_file_write_some_at s offset bs = ob_native (\<lambda>h. file_write_at s h offset bs)"

definition stream_file_seek :: "'k sys_calls \<Rightarrow> size_t \<Rightarrow> seek_whence \<Rightarrow> (nat, 'k) object_op" where
  "stream_file_seek s offset whence = ob_native (\<lambda>h. file_seek s h offset whence)"

definition stream_file_size :: "'k sys_calls \<Rightarrow> (nat, 'k) object_op" where
  "stream_file_size s = ob_native (file_size s)"

definition stream_file_resize :: "'k sys_calls \<Rightarrow> size_t \<Rightarrow> (unit, 'k) object_op" where
  "stream_file_resize s n = ob_native (\<lambda>h. file_resize s h n)"

definition stream_file_sync_all :: "'k sys_calls \<Rightarrow> (unit, 'k) object_op" where
  "stream_file_sync_all s = ob_native (file_sync_all s)"

definition stream_file_sync_data :: "'k sys_calls \<Rightarrow> (unit, 'k) object_op" where
  "stream_file_sync_data s = ob_native (file_sync_data s)"

text \<open>\<open>make_pipe\<close> with two handles constructs the reader, then the writer; an exception of the second destroys the
  first.\<close>

definition make_pipe_from ::
  "(int \<Rightarrow> 'k \<Rightarrow> 'k) \<Rightarrow> 'k sys_calls \<Rightarrow> ptr \<Rightarrow> ptr \<Rightarrow> int \<Rightarrow> int \<Rightarrow> 'k epoll_context \<Rightarrow>
   (error + (io_object \<times> io_object)) \<times> 'k epoll_context" where
  "make_pipe_from del s fresh1 fresh2 reader_handle writer_handle c =
     (case io_object_new s fresh1 reader_handle c of
        (Inl e, c) \<Rightarrow> (Inl e, c)
      | (Inr reader, c) \<Rightarrow>
          (case io_object_new s fresh2 writer_handle c of
             (Inr writer, c) \<Rightarrow> (Inr (reader, writer), c)
           | (Inl e, c) \<Rightarrow>
               (case io_object_destroy del s reader c of
                  (Inl t, c) \<Rightarrow> (Inl t, c)
                | (Inr _, c) \<Rightarrow> (Inl e, c))))"

definition make_pipe ::
  "(int \<Rightarrow> 'k \<Rightarrow> 'k) \<Rightarrow> 'k sys_calls \<Rightarrow> ptr \<Rightarrow> ptr \<Rightarrow> 'k epoll_context \<Rightarrow>
   ((error + (io_object \<times> io_object)) \<times> 'k epoll_context) option" where
  "make_pipe del s fresh1 fresh2 c =
     (case make_native_pipe s (ec_kernel c) of
        None \<Rightarrow> None
      | Some (Inl e, k) \<Rightarrow> Some (Inl e, c\<lparr>ec_kernel := k\<rparr>)
      | Some (Inr (reader_handle, writer_handle), k) \<Rightarrow>
          Some (make_pipe_from del s fresh1 fresh2 reader_handle writer_handle (c\<lparr>ec_kernel := k\<rparr>)))"

section \<open>Ownership of descriptors\<close>

lemma io_object_new_failed:
  "io_object_new s fresh fd c = (Inl e, c') \<Longrightarrow> \<exists>k. ec_kernel c' = snd (sc_close s fd k)"
  by (auto simp: io_object_new_def ec_close_def split: prod.splits sum.splits if_splits)

lemma io_object_new_opened:
  "io_object_new s fresh fd c = (Inr ob, c') \<Longrightarrow> ob_fd ob = fd \<and> (fd = - 1 \<or> (\<exists>a. ob_data ob = Some a))"
  by (auto simp: io_object_new_def split: prod.splits sum.splits if_splits)

lemma io_object_destroy_closes:
  "ob_fd ob \<noteq> - 1 \<Longrightarrow> ob_data ob = Some a \<Longrightarrow>
     \<exists>r c' k. io_object_destroy del s ob c = (r, c') \<and> ec_kernel c' = snd (sc_close s (ob_fd ob) k)"
  by (auto simp: io_object_destroy_def io_object_close_def Let_def split: prod.splits sum.splits)

lemma io_object_destroy_none: "ob_fd ob = - 1 \<Longrightarrow> io_object_destroy del s ob c = (Inr (), c)"
  by (simp add: io_object_destroy_def io_object_close_def)

lemma ob_replace_closed:
  assumes "ob_fd ob = - 1" "ob_replace del s fresh fd (ob, c) = Some (r, (ob', c'))"
  shows "case r of Inl e \<Rightarrow> ob' = ob \<and> (\<exists>k. ec_kernel c' = snd (sc_close s fd k))
    | Inr _ \<Rightarrow> ob_fd ob' = fd \<and> (fd = - 1 \<or> (\<exists>a. ob_data ob' = Some a))"
proof -
  obtain x c1 where x: "io_object_new s fresh fd c = (x, c1)" by fastforce
  show ?thesis
  proof (cases x)
    case (Inl e)
    then have "r = Inl e" "ob' = ob" "c' = c1" using assms(2) x by (simp_all add: ob_replace_def)
    then show ?thesis using io_object_new_failed [of s fresh fd c e c1] x Inl by simp
  next
    case (Inr new)
    then have "r = Inr ()" "ob' = new" using assms x
      by (simp_all add: ob_replace_def io_object_swap_def io_object_destroy_none)
    then show ?thesis using io_object_new_opened [of s fresh fd c new c1] x Inr by simp
  qed
qed

text \<open>A call on the native handle keeps the object, and its last effect on the kernel is that of the call.\<close>

lemma ob_native_call:
  "ob_native (\<lambda>h. with_fd h (\<lambda>w. io_call (call h) w)) (ob, c) =
     Some (if ob_fd ob = - 1 then Inl (SystemError EBADF) else throw_last_error (fst (call (ob_fd ob) (ec_kernel c))),
       (ob, if ob_fd ob = - 1 then c else c\<lparr>ec_kernel := snd (call (ob_fd ob) (ec_kernel c))\<rparr>))"
  by (simp add: ob_native_def with_fd_def check_fd_def io_call_def)

definition acceptor_owned :: "'k sys_calls \<Rightarrow> int \<Rightarrow> io_object \<times> 'k epoll_context \<Rightarrow> bool" where
  "acceptor_owned s fd st \<longleftrightarrow>
     (ob_fd (fst st) = - 1 \<and> (\<exists>k. ec_kernel (snd st) = snd (sc_close s fd k))) \<or>
     (ob_fd (fst st) = fd \<and> (\<exists>a. ob_data (fst st) = Some a))"

lemma ob_bind_owned:
  assumes "\<exists>r st. m st0 = Some (r, st) \<and> acceptor_owned s fd st \<and> (\<forall>x. r = Inr x \<longrightarrow> ob_fd (fst st) = fd)"
    and "\<And>x st. acceptor_owned s fd st \<Longrightarrow> ob_fd (fst st) = fd \<Longrightarrow>
      \<exists>r st'. f x st = Some (r, st') \<and> acceptor_owned s fd st' \<and> (\<forall>y. r = Inr y \<longrightarrow> ob_fd (fst st') = fd \<and> P y st')"
  shows "\<exists>r st. ob_bind m f st0 = Some (r, st) \<and> acceptor_owned s fd st \<and> (\<forall>y. r = Inr y \<longrightarrow> ob_fd (fst st) = fd \<and> P y st)"
proof -
  obtain r st where m: "m st0 = Some (r, st)" "acceptor_owned s fd st" "\<forall>x. r = Inr x \<longrightarrow> ob_fd (fst st) = fd"
    using assms(1) by blast
  show ?thesis
  proof (cases r)
    case (Inl e)
    then show ?thesis using m by (simp add: ob_bind_def)
  next
    case (Inr x)
    then show ?thesis using m assms(2) [of st x] by (simp add: ob_bind_def)
  qed
qed

lemma ob_native_owned:
  assumes "acceptor_owned s fd st" "ob_fd (fst st) = fd" "fd \<noteq> - 1"
  shows "\<exists>r st'. ob_native (\<lambda>h. with_fd h (\<lambda>w. io_call (call h) w)) st = Some (r, st') \<and> acceptor_owned s fd st' \<and>
    (\<forall>y. r = Inr y \<longrightarrow> ob_fd (fst st') = fd \<and> (\<exists>k. call fd k = (Inr y, ec_kernel (snd st'))))"
proof -
  obtain ob c where st: "st = (ob, c)" by fastforce
  obtain x k where x: "call fd (ec_kernel c) = (x, k)" by fastforce
  have "ob_native (\<lambda>h. with_fd h (\<lambda>w. io_call (call h) w)) st = Some (throw_last_error x, (ob, c\<lparr>ec_kernel := k\<rparr>))"
    using assms(2,3) x by (simp add: st ob_native_call)
  moreover have "acceptor_owned s fd (ob, c\<lparr>ec_kernel := k\<rparr>)"
    using assms by (auto simp: st acceptor_owned_def)
  moreover have "\<forall>y. throw_last_error x = Inr y \<longrightarrow> call fd (ec_kernel c) = (Inr y, k)"
    using x by (cases x) simp_all
  ultimately show ?thesis using assms(2) by (force simp: st)
qed

lemma basic_socket_open_owned:
  assumes "sc_socket s (protocol_family p) (protocol_type p) (protocol_id p) (ec_kernel c) = (Inr fd, k)"
    "fd \<noteq> - 1" "ob_fd ob = - 1"
  shows "\<exists>r st. basic_socket_open del s fresh p (ob, c) = Some (r, st) \<and> acceptor_owned s fd st \<and>
    (\<forall>x. r = Inr x \<longrightarrow> ob_fd (fst st) = fd)"
proof -
  have "basic_socket_open del s fresh p (ob, c) = ob_replace del s fresh fd (ob, c\<lparr>ec_kernel := k\<rparr>)"
    using assms by (simp add: basic_socket_open_def ob_is_open_def ob_bind_def ob_native_def socket_open_def io_call_def)
  moreover obtain r ob' c' where r: "ob_replace del s fresh fd (ob, c\<lparr>ec_kernel := k\<rparr>) = Some (r, (ob', c'))"
    by (cases "ob_replace del s fresh fd (ob, c\<lparr>ec_kernel := k\<rparr>)")
      (auto simp: ob_replace_def split: prod.splits sum.splits)
  ultimately show ?thesis
    using ob_replace_closed [OF assms(3) r] assms(2,3) by (cases r) (auto simp: acceptor_owned_def)
qed

lemma acceptor_setup_owned:
  assumes "sc_socket s (protocol_family (protocol_for True ep)) (protocol_type (protocol_for True ep))
      (protocol_id (protocol_for True ep)) (ec_kernel c) = (Inr fd, k)" "fd \<noteq> - 1" "ob_fd ob = - 1"
  shows "\<exists>r st. acceptor_setup del s le fresh ep backlog reuse_addr (ob, c) = Some (r, st) \<and> acceptor_owned s fd st \<and>
    (\<forall>y. r = Inr y \<longrightarrow> ob_fd (fst st) = fd \<and>
      (\<exists>k. sc_listen s fd (sint (ucast backlog :: 32 word)) k = (Inr y, ec_kernel (snd st))))"
  unfolding acceptor_setup_def
proof (rule ob_bind_owned, rule basic_socket_open_owned [OF assms], rule ob_bind_owned)
  fix x st assume st: "acceptor_owned s fd st" "ob_fd (fst st) = fd"
  show "\<exists>r st'. basic_socket_set_option s ReuseAddress (sockopt_from_bool reuse_addr) st = Some (r, st') \<and>
      acceptor_owned s fd st' \<and> (\<forall>x. r = Inr x \<longrightarrow> ob_fd (fst st') = fd)"
    using ob_native_owned [OF st assms(2), of "\<lambda>h. sc_setsockopt s h (option_level ReuseAddress) (option_name ReuseAddress)
        (sockopt_from_bool reuse_addr)"]
    unfolding basic_socket_set_option_def socket_set_sockopt_def by blast
next
  fix x y and st0 st :: "io_object \<times> 'a epoll_context"
  assume st: "acceptor_owned s fd st" "ob_fd (fst st) = fd"
  show "\<exists>r st'. ob_bind (basic_socket_bind s le ep) (\<lambda>_. acceptor_listen s backlog) st = Some (r, st') \<and>
      acceptor_owned s fd st' \<and> (\<forall>y. r = Inr y \<longrightarrow> ob_fd (fst st') = fd \<and>
        (\<exists>k. sc_listen s fd (sint (ucast backlog :: 32 word)) k = (Inr y, ec_kernel (snd st'))))"
  proof (rule ob_bind_owned)
    show "\<exists>r st'. basic_socket_bind s le ep st = Some (r, st') \<and>
        acceptor_owned s fd st' \<and> (\<forall>x. r = Inr x \<longrightarrow> ob_fd (fst st') = fd)"
      using ob_native_owned [OF st assms(2), of "\<lambda>h. sc_bind s h (to_sockaddr (endpoint_to_sockaddr_in le ep))"]
      unfolding basic_socket_bind_def socket_bind_def by blast
  next
    fix st :: "io_object \<times> 'a epoll_context"
    assume st: "acceptor_owned s fd st" "ob_fd (fst st) = fd"
    show "\<exists>r st'. acceptor_listen s backlog st = Some (r, st') \<and> acceptor_owned s fd st' \<and>
        (\<forall>y. r = Inr y \<longrightarrow> ob_fd (fst st') = fd \<and>
          (\<exists>k. sc_listen s fd (sint (ucast backlog :: 32 word)) k = (Inr y, ec_kernel (snd st'))))"
      using ob_native_owned [OF st assms(2), of "\<lambda>h. sc_listen s h (sint (ucast backlog :: 32 word))"]
      unfolding acceptor_listen_def socket_listen_def by blast
  qed
qed

section \<open>Properties\<close>

text \<open>A kernel whose state is the set of open descriptors: \<open>socket\<close> opens 3, \<open>pipe2\<close> opens 3 and 4, everything is a
  non-blocking socket, and \<open>bind\<close> fails because the address is in use.\<close>

definition sys_fds :: "int set sys_calls" where
  "sys_fds = sys_none\<lparr>sc_socket := (\<lambda>_ _ _ w. (Inr 3, insert 3 w)), sc_pipe2 := (\<lambda>w. (Inr (3, 4), w \<union> {3, 4})),
     sc_fstat_kind := (\<lambda>_ w. (Inr KSocket, w)), sc_so_stream := (\<lambda>_ w. (Inr True, w)), sc_getfl := (\<lambda>_ w. (Inr True, w)),
     sc_setsockopt := (\<lambda>_ _ _ _ w. (Inr (), w)), sc_bind := (\<lambda>_ _ w. (Inl 98, w)), sc_close := (\<lambda>fd w. (Inr (), w - {fd}))\<rparr>"

definition ctx_fds :: "int set epoll_context" where
  "ctx_fds = \<lparr>ec_loop = loop_init, ec_pool = pool_new, ec_data = (\<lambda>_. fd_clean), ec_kernel = {}\<rparr>"

text \<open>Constructing an acceptor returns, and does not leak its socket: if opening, configuring, binding or listening
  fails, closing the socket is the last thing the kernel is asked; otherwise the acceptor owns the socket and
  the last thing was a successful \<open>listen\<close> with the backlog that was asked for.\<close>

lemma acceptor_new_no_leak:
  assumes "sc_socket s (protocol_family (protocol_for True ep)) (protocol_type (protocol_for True ep))
      (protocol_id (protocol_for True ep)) (ec_kernel c) = (Inr fd, k)" "fd \<noteq> - 1"
  shows "\<exists>r c'. acceptor_new del s le fresh ep backlog reuse_addr c = Some (r, c') \<and>
    (case r of
       Inl e \<Rightarrow> \<exists>k. ec_kernel c' = snd (sc_close s fd k)
     | Inr ob \<Rightarrow> ob_fd ob = fd \<and> (\<exists>k. sc_listen s fd (sint (ucast backlog :: 32 word)) k = (Inr (), ec_kernel c')))"
proof -
  let ?ob = "\<lparr>ob_fd = - 1, ob_stream = False, ob_data = None\<rparr>"
  have new: "basic_socket_new s c = (Inr ?ob, c)"
    by (simp add: basic_socket_new_def io_object_new_def is_stream_oriented_def)
  obtain r ob c1 where st: "acceptor_setup del s le fresh ep backlog reuse_addr (?ob, c) = Some (r, (ob, c1))"
    "acceptor_owned s fd (ob, c1)" "\<forall>y. r = Inr y \<longrightarrow> ob_fd ob = fd \<and>
      (\<exists>k. sc_listen s fd (sint (ucast backlog :: 32 word)) k = (Inr y, ec_kernel c1))"
    using acceptor_setup_owned [OF assms, of ?ob del le fresh backlog reuse_addr] by auto
  show ?thesis
  proof (cases r)
    case (Inr u)
    then show ?thesis using st new by (auto simp: acceptor_new_def)
  next
    case (Inl e)
    show ?thesis
    proof (cases "ob_fd ob = - 1")
      case True
      then show ?thesis using st Inl new assms(2)
        by (auto simp: acceptor_new_def io_object_destroy_none acceptor_owned_def)
    next
      case False
      then obtain a where ob: "ob_fd ob = fd" "ob_data ob = Some a" using st(2) by (auto simp: acceptor_owned_def)
      obtain r' c' k' where d: "io_object_destroy del s ob c1 = (r', c')" "ec_kernel c' = snd (sc_close s fd k')"
        using io_object_destroy_closes [of ob a del s c1] False ob by auto
      then show ?thesis using st(1) Inl new by (cases r') (auto simp: acceptor_new_def)
    qed
  qed
qed

text \<open>A pipe whose second end cannot be made has both descriptors closed, the writer by its constructor and then the
  reader by its destructor. But when the reader cannot be made, nothing is done behind its constructor: its own
  descriptor is closed, and the descriptor of the writer is never closed.\<close>

lemma make_pipe_leaks_writer:
  assumes "sc_pipe2 s (ec_kernel c) = (Inr (rd, wr), k)" "rd \<noteq> - 1"
    and "io_object_new s fresh1 rd (c\<lparr>ec_kernel := k\<rparr>) = (r1, c1)"
  shows "case r1 of
      Inl e \<Rightarrow> make_pipe del s fresh1 fresh2 c = Some (Inl e, c1) \<and> (\<exists>k'. ec_kernel c1 = snd (sc_close s rd k'))
    | Inr reader \<Rightarrow>
        (case io_object_new s fresh2 wr c1 of
           (Inr writer, c2) \<Rightarrow> make_pipe del s fresh1 fresh2 c = Some (Inr (reader, writer), c2)
         | (Inl e, c2) \<Rightarrow> (\<exists>k'. ec_kernel c2 = snd (sc_close s wr k')) \<and>
             (\<exists>t c3 k''. make_pipe del s fresh1 fresh2 c = Some (Inl t, c3) \<and> ec_kernel c3 = snd (sc_close s rd k'')))"
proof -
  have p: "make_pipe del s fresh1 fresh2 c = Some (make_pipe_from del s fresh1 fresh2 rd wr (c\<lparr>ec_kernel := k\<rparr>))"
    using assms(1) by (simp add: make_pipe_def make_native_pipe_def io_call_def)
  show ?thesis
  proof (cases r1)
    case (Inl e)
    then show ?thesis using assms(3) io_object_new_failed [of s fresh1 rd "c\<lparr>ec_kernel := k\<rparr>" e c1]
      by (simp add: p make_pipe_from_def)
  next
    case (Inr reader)
    obtain r2 c2 where n2: "io_object_new s fresh2 wr c1 = (r2, c2)" by fastforce
    obtain a where ob: "ob_fd reader = rd" "ob_data reader = Some a"
      using io_object_new_opened [of s fresh1 rd "c\<lparr>ec_kernel := k\<rparr>" reader c1] assms(2,3) Inr by auto
    show ?thesis
    proof (cases r2)
      case inl: (Inl e)
      obtain r' c' k' where "io_object_destroy del s reader c2 = (r', c')" "ec_kernel c' = snd (sc_close s rd k')"
        using io_object_destroy_closes [of reader a del s c2] assms(2) ob by auto
      then show ?thesis using Inr inl assms(3) n2 io_object_new_failed [of s fresh2 wr c1 e c2]
        by (cases r') (auto simp: p make_pipe_from_def)
    next
      case (Inr writer)
      then show ?thesis using \<open>r1 = Inr reader\<close> assms(3) n2 by (simp add: p make_pipe_from_def)
    qed
  qed
qed

text \<open>Here the pool has no memory for the first end; descriptor 4 stays open.\<close>

end
