(* ===== verification/Uring_Context.thy ===== *)
theory Uring_Context
  imports Epoll_Io
begin

text \<open>
  The io_uring backend: \<open>include/coio/asyncio/uring_context.h\<close> and \<open>src/linux/asyncio/uring_context.cpp\<close>. Operations
  are written into submission entries under \<open>uring_mtx_\<close> and submitted in batches; \<open>do_one\<close> waits for
  completion entries and publishes the operations together with the timers that are due.

  liburing is a parameter, the record \<open>uring_lib\<close>: \<open>ul_get_sqe\<close> tells whether an entry was free, \<open>ul_prep\<close> fills it
  and sets its user data, \<open>ul_submit\<close> is \<open>io_uring_submit\<close>, \<open>ul_wait\<close> waits for one completion (its \<open>errno\<close> or 0,
  the completion, the time when it returns) and \<open>ul_peek\<close> takes a batch of at most eight. \<open>ul_stored\<close> is what
  the kernel has written for an operation: the peer's address and the buffer.
\<close>

section \<open>State\<close>

datatype uring_request =
    Plain io_request
  | ReadSomeAt size_t nat
  | WriteSomeAt size_t "byte list"

datatype uring_sqe =
    SqeRead int nat size_t
  | SqeWrite int "byte list" size_t
  | SqeRecv int nat
  | SqeSend int "byte list"
  | SqeRecvMsg int nat
  | SqeSendMsg int "byte list" "sockaddr \<times> nat"
  | SqeAccept int
  | SqeConnect int "sockaddr \<times> nat"
  | SqeCancel addr
  | SqeCancelFd int
  | SqeNop

datatype uring_user = UserNone | UserContext | UserOp addr

type_synonym uring_cqe = "uring_user \<times> int"

record 'k uring_lib =
  ul_get_sqe :: "'k \<Rightarrow> bool \<times> 'k"
  ul_prep :: "uring_sqe \<Rightarrow> uring_user \<Rightarrow> 'k \<Rightarrow> 'k"
  ul_submit :: "'k \<Rightarrow> int \<times> 'k"
  ul_wait :: "(int \<times> int) option \<Rightarrow> 'k \<Rightarrow> (int \<times> uring_cqe option) \<times> int \<times> 'k"
  ul_peek :: "'k \<Rightarrow> uring_cqe list \<times> 'k"
  ul_stored :: "'k \<Rightarrow> addr \<Rightarrow> sockaddr \<times> byte list"

record 'k uring_context =
  uc_loop :: loop
  uc_pulling :: bool
  uc_pending :: nat
  uc_kernel :: 'k
  uc_request :: "addr \<Rightarrow> uring_request"
  uc_result :: "addr \<Rightarrow> io_result"

section \<open>Submission\<close>

definition submit_batch_size :: nat where "submit_batch_size = 32"

definition uring_submit_sqes :: "'k uring_lib \<Rightarrow> 'k uring_context \<Rightarrow> error + 'k uring_context" where
  "uring_submit_sqes L c =
     (if uc_pending c = 0 then Inr c
      else
        (case ul_submit L (uc_kernel c) of
           (n, k) \<Rightarrow>
             if n < 0 then Inl Terminate
             else if uc_pending c < nat n then Inl AssertFailed
             else Inr (c\<lparr>uc_kernel := k, uc_pending := uc_pending c - nat n\<rparr>)))"

fun uring_alloc_retry :: "'k uring_lib \<Rightarrow> nat \<Rightarrow> bool \<Rightarrow> 'k uring_context \<Rightarrow> error + (bool \<times> 'k uring_context)" where
  "uring_alloc_retry L 0 found c = Inr (found, c)"
| "uring_alloc_retry L (Suc n) found c =
     (if found then Inr (True, c)
      else
        (case uring_submit_sqes L c of
           Inl e \<Rightarrow> Inl e
         | Inr c \<Rightarrow>
             (case ul_get_sqe L (uc_kernel c) of
                (found, k) \<Rightarrow> uring_alloc_retry L n found (c\<lparr>uc_kernel := k\<rparr>))))"

definition uring_allocate_sqe :: "'k uring_lib \<Rightarrow> 'k uring_context \<Rightarrow> error + (bool \<times> 'k uring_context)" where
  "uring_allocate_sqe L c =
     (case ul_get_sqe L (uc_kernel c) of
        (found, k) \<Rightarrow>
          (case uring_alloc_retry L 3 found (c\<lparr>uc_kernel := k\<rparr>) of
             Inl e \<Rightarrow> Inl e
           | Inr (found, c) \<Rightarrow> Inr (found, if found then c\<lparr>uc_pending := uc_pending c + 1\<rparr> else c)))"

definition uring_post_submit_sqes :: "'k uring_lib \<Rightarrow> 'k uring_context \<Rightarrow> error + 'k uring_context" where
  "uring_post_submit_sqes L c =
     (if \<not> uc_pulling c then
        if uc_pending c < submit_batch_size then Inr c else uring_submit_sqes L c
      else uring_submit_sqes L c)"

text \<open>\<open>do_cancel\<close>, \<open>io_object::cancel\<close> and \<open>interrupt\<close> are one entry that is submitted at once; without an entry the
  program terminates.\<close>

definition uring_urgent :: "'k uring_lib \<Rightarrow> uring_sqe \<Rightarrow> uring_user \<Rightarrow> 'k uring_context \<Rightarrow> error + 'k uring_context" where
  "uring_urgent L sqe user c =
     (case uring_allocate_sqe L c of
        Inl e \<Rightarrow> Inl e
      | Inr (found, c) \<Rightarrow>
          if \<not> found then Inl Terminate
          else uring_submit_sqes L (c\<lparr>uc_kernel := ul_prep L sqe user (uc_kernel c)\<rparr>))"

definition uring_do_cancel :: "'k uring_lib \<Rightarrow> addr \<Rightarrow> 'k uring_context \<Rightarrow> error + 'k uring_context" where
  "uring_do_cancel L op = uring_urgent L (SqeCancel op) UserNone"

definition uring_object_cancel :: "'k uring_lib \<Rightarrow> int \<Rightarrow> 'k uring_context \<Rightarrow> error + 'k uring_context" where
  "uring_object_cancel L fd c = (if fd = - 1 then Inr c else uring_urgent L (SqeCancelFd fd) UserNone c)"

definition uring_interrupt :: "'k uring_lib \<Rightarrow> 'k uring_context \<Rightarrow> error + 'k uring_context" where
  "uring_interrupt L = uring_urgent L SqeNop UserContext"

section \<open>Operations\<close>

text \<open>\<open>prepare\<close> of each tag; a file offset of \<open>-1\<close> is the current position.\<close>

definition uring_read_some_prepare :: "int \<Rightarrow> nat \<Rightarrow> uring_sqe" where
  "uring_read_some_prepare fd n = SqeRead fd n (- 1)"

definition uring_write_some_prepare :: "int \<Rightarrow> byte list \<Rightarrow> uring_sqe" where
  "uring_write_some_prepare fd bs = SqeWrite fd bs (- 1)"

definition uring_read_some_at_prepare :: "int \<Rightarrow> size_t \<Rightarrow> nat \<Rightarrow> uring_sqe" where
  "uring_read_some_at_prepare fd offset n = SqeRead fd n offset"

definition uring_write_some_at_prepare :: "int \<Rightarrow> size_t \<Rightarrow> byte list \<Rightarrow> uring_sqe" where
  "uring_write_some_at_prepare fd offset bs = SqeWrite fd bs offset"

definition uring_receive_prepare :: "int \<Rightarrow> nat \<Rightarrow> uring_sqe" where
  "uring_receive_prepare fd n = SqeRecv fd n"

definition uring_send_prepare :: "int \<Rightarrow> byte list \<Rightarrow> uring_sqe" where
  "uring_send_prepare fd bs = SqeSend fd bs"

definition uring_receive_from_prepare :: "int \<Rightarrow> nat \<Rightarrow> uring_sqe" where
  "uring_receive_from_prepare fd n = SqeRecvMsg fd n"

definition uring_send_to_prepare :: "bool \<Rightarrow> int \<Rightarrow> byte list \<Rightarrow> endpoint \<Rightarrow> uring_sqe" where
  "uring_send_to_prepare le fd bs peer = SqeSendMsg fd bs (to_sockaddr (endpoint_to_sockaddr_in le peer))"

definition uring_accept_prepare :: "int \<Rightarrow> uring_sqe" where
  "uring_accept_prepare fd = SqeAccept fd"

definition uring_connect_prepare :: "bool \<Rightarrow> int \<Rightarrow> endpoint \<Rightarrow> uring_sqe" where
  "uring_connect_prepare le fd peer = SqeConnect fd (to_sockaddr (endpoint_to_sockaddr_in le peer))"

definition uring_prepare :: "bool \<Rightarrow> int \<Rightarrow> uring_request \<Rightarrow> uring_sqe" where
  "uring_prepare le fd q =
     (case q of
        Plain q \<Rightarrow>
          (case q of
             ReadSome n \<Rightarrow> uring_read_some_prepare fd n
           | WriteSome bs \<Rightarrow> uring_write_some_prepare fd bs
           | Receive n stream \<Rightarrow> uring_receive_prepare fd n
           | Send bs \<Rightarrow> uring_send_prepare fd bs
           | ReceiveFrom n \<Rightarrow> uring_receive_from_prepare fd n
           | SendTo bs peer \<Rightarrow> uring_send_to_prepare le fd bs peer
           | Accept \<Rightarrow> uring_accept_prepare fd
           | Connect peer \<Rightarrow> uring_connect_prepare le fd peer)
      | ReadSomeAt offset n \<Rightarrow> uring_read_some_at_prepare fd offset n
      | WriteSomeAt offset bs \<Rightarrow> uring_write_some_at_prepare fd offset bs)"

definition uring_set_result ::
  "(io_result \<Rightarrow> error + io_result) \<Rightarrow> addr \<Rightarrow> 'k uring_context \<Rightarrow> error + 'k uring_context" where
  "uring_set_result f op c = map_sum (\<lambda>e. e) (\<lambda>r. c\<lparr>uc_result := (uc_result c)(op := r)\<rparr>) (f (uc_result c op))"

text \<open>\<open>try_complete\<close>: only \<open>async_receive\<close> has one.\<close>

definition uring_try_complete :: "uring_request \<Rightarrow> io_result \<Rightarrow> (error + io_result) option" where
  "uring_try_complete q r =
     (case q of
        Plain (Receive n stream) \<Rightarrow> if \<not> stream \<or> n \<noteq> 0 then None else Some (result_set_value (VBytes []) r)
      | _ \<Rightarrow> None)"

text \<open>The critical section of \<open>do_start\<close> up to \<open>post_submit_sqes\<close>, and \<open>do_start\<close>.\<close>

definition uring_enqueue ::
  "'k uring_lib \<Rightarrow> bool \<Rightarrow> int \<Rightarrow> addr \<Rightarrow> 'k uring_context \<Rightarrow> error + (bool \<times> 'k uring_context)" where
  "uring_enqueue L le fd op c =
     (case uring_allocate_sqe L c of
        Inl e \<Rightarrow> Inl e
      | Inr (found, c) \<Rightarrow>
          Inr (found, if found then c\<lparr>uc_kernel := ul_prep L (uring_prepare le fd (uc_request c op)) (UserOp op) (uc_kernel c)\<rparr>
                      else c))"

definition ENOBUFS :: int where "ENOBUFS = 105"
definition ETIME :: int where "ETIME = 62"

definition uring_do_start ::
  "'k uring_lib \<Rightarrow> bool \<Rightarrow> int \<Rightarrow> addr \<Rightarrow> 'k uring_context \<Rightarrow> error + (start_result \<times> 'k uring_context)" where
  "uring_do_start L le fd op c =
     (let completed = map_sum (\<lambda>e. e) (Pair ResCompleted)
      in if fd = - 1 then completed (uring_set_result (result_set_error (SystemError EBADF)) op c)
         else
           (case uring_try_complete (uc_request c op) (uc_result c op) of
              Some r \<Rightarrow> completed (uring_set_result (\<lambda>_. r) op c)
            | None \<Rightarrow>
                (case uring_enqueue L le fd op c of
                   Inl e \<Rightarrow> Inl e
                 | Inr (found, c) \<Rightarrow>
                     if \<not> found then completed (uring_set_result (result_set_error (SystemError ENOBUFS)) op c)
                     else map_sum (\<lambda>e. e) (Pair ResPending) (uring_post_submit_sqes L c))))"

text \<open>\<open>complete\<close> of each tag: a negative result is an errno, \<open>ECANCELED\<close> the stopped result.\<close>

definition uring_node_complete :: "(nat \<Rightarrow> io_value) \<Rightarrow> int \<Rightarrow> io_result \<Rightarrow> error + io_result" where
  "uring_node_complete conv res r =
     (if res < 0 then
        if - res = ECANCELED then result_set_stopped r else result_set_error (SystemError (- res)) r
      else result_set_value (conv (nat res)) r)"

definition uring_read_some_complete :: "byte list \<Rightarrow> nat \<Rightarrow> int \<Rightarrow> io_result \<Rightarrow> error + io_result" where
  "uring_read_some_complete buffer n res r =
     (if res < 0 then
        if - res = ECANCELED then result_set_stopped r else result_set_error (SystemError (- res)) r
      else if res = 0 \<and> n \<noteq> 0 then result_set_error EndOfFile r
      else result_set_value (VBytes (take (nat res) buffer)) r)"

definition uring_read_some_at_complete :: "byte list \<Rightarrow> nat \<Rightarrow> int \<Rightarrow> io_result \<Rightarrow> error + io_result" where
  "uring_read_some_at_complete buffer n res r =
     (if res < 0 then
        if - res = ECANCELED then result_set_stopped r else result_set_error (SystemError (- res)) r
      else if res = 0 \<and> n \<noteq> 0 then result_set_error EndOfFile r
      else result_set_value (VBytes (take (nat res) buffer)) r)"

definition uring_receive_complete :: "byte list \<Rightarrow> nat \<Rightarrow> bool \<Rightarrow> int \<Rightarrow> io_result \<Rightarrow> error + io_result" where
  "uring_receive_complete buffer n stream res r =
     (if res < 0 then
        if - res = ECANCELED then result_set_stopped r else result_set_error (SystemError (- res)) r
      else if stream \<and> res = 0 \<and> n \<noteq> 0 then result_set_error EndOfFile r
      else result_set_value (VBytes (take (nat res) buffer)) r)"

definition uring_receive_from_complete ::
  "bool \<Rightarrow> sockaddr \<times> byte list \<Rightarrow> int \<Rightarrow> io_result \<Rightarrow> error + io_result" where
  "uring_receive_from_complete le stored res r =
     (if res < 0 then
        if - res = ECANCELED then result_set_stopped r else result_set_error (SystemError (- res)) r
      else
        (case sockaddr_storage_to_endpoint le (fst stored) of
           Inl e \<Rightarrow> Inl e
         | Inr ep \<Rightarrow> result_set_value (VDatagram ep (take (nat res) (snd stored))) r))"

text \<open>The virtual call; \<open>stored\<close> is the peer and the buffer that the kernel has written.\<close>

definition uring_complete ::
  "bool \<Rightarrow> sockaddr \<times> byte list \<Rightarrow> uring_request \<Rightarrow> int \<Rightarrow> io_result \<Rightarrow> error + io_result" where
  "uring_complete le stored q res r =
     (case q of
        Plain q \<Rightarrow>
          (case q of
             ReadSome n \<Rightarrow> uring_read_some_complete (snd stored) n res r
           | WriteSome _ \<Rightarrow> uring_node_complete VCount res r
           | Receive n stream \<Rightarrow> uring_receive_complete (snd stored) n stream res r
           | Send _ \<Rightarrow> uring_node_complete VCount res r
           | ReceiveFrom n \<Rightarrow> uring_receive_from_complete le stored res r
           | SendTo _ _ \<Rightarrow> uring_node_complete VCount res r
           | Accept \<Rightarrow> uring_node_complete (\<lambda>h. VHandle (int h)) res r
           | Connect _ \<Rightarrow> uring_node_complete (\<lambda>_. VUnit) res r)
      | ReadSomeAt _ n \<Rightarrow> uring_read_some_at_complete (snd stored) n res r
      | WriteSomeAt _ _ \<Rightarrow> uring_node_complete VCount res r)"

lemmas uring_complete_defs = uring_complete_def uring_node_complete_def uring_read_some_complete_def
  uring_read_some_at_complete_def uring_receive_complete_def uring_receive_from_complete_def

section \<open>The event loop\<close>

text \<open>The timeout of the wait as seconds and nanoseconds: microseconds, rounded up, not negative.\<close>

definition uring_timeout :: "int \<Rightarrow> int \<times> int" where
  "uring_timeout ns = (let usec = max (- ((- ns) div 1000)) 0 in (usec div 1000000, usec mod 1000000 * 1000))"

definition uring_wait_for :: "bool \<Rightarrow> int option \<Rightarrow> int \<Rightarrow> (int \<times> int) option" where
  "uring_wait_for block earliest now =
     (if block then map_option (\<lambda>t. uring_timeout (t - now)) earliest else Some (0, 0))"

text \<open>One completion: the operation, if it is one, gets its result and is collected.\<close>

definition uring_take_cqe ::
  "'k uring_lib \<Rightarrow> bool \<Rightarrow> uring_cqe \<Rightarrow> 'k uring_context \<times> (links \<times> intrusive_list) \<Rightarrow>
   error + ('k uring_context \<times> (links \<times> intrusive_list))" where
  "uring_take_cqe L le cqe s =
     (case fst cqe of
        UserOp op \<Rightarrow>
          map_sum (\<lambda>e. e) (\<lambda>c. (c, il_push_back op (snd s)))
            (uring_set_result
               (uring_complete le (ul_stored L (uc_kernel (fst s)) op) (uc_request (fst s) op) (snd cqe)) op (fst s))
      | _ \<Rightarrow> Inr s)"

fun uring_take_cqes ::
  "'k uring_lib \<Rightarrow> bool \<Rightarrow> uring_cqe list \<Rightarrow> 'k uring_context \<times> (links \<times> intrusive_list) \<Rightarrow>
   error + ('k uring_context \<times> (links \<times> intrusive_list))" where
  "uring_take_cqes L le [] s = Inr s"
| "uring_take_cqes L le (cqe # cqes) s =
     (case uring_take_cqe L le cqe s of Inl e \<Rightarrow> Inl e | Inr s \<Rightarrow> uring_take_cqes L le cqes s)"

partial_function (option) uring_drain ::
  "'k uring_lib \<Rightarrow> bool \<Rightarrow> 'k uring_context \<times> (links \<times> intrusive_list) \<Rightarrow>
   (error + ('k uring_context \<times> (links \<times> intrusive_list))) option" where
  "uring_drain L le s =
     (case ul_peek L (uc_kernel (fst s)) of
        (cqes, k) \<Rightarrow>
          if cqes = [] then Some (Inr ((fst s)\<lparr>uc_kernel := k\<rparr>, snd s))
          else
            (case uring_take_cqes L le cqes ((fst s)\<lparr>uc_kernel := k\<rparr>, snd s) of
               Inl e \<Rightarrow> Some (Inl e)
             | Inr s \<Rightarrow> uring_drain L le s))"

text \<open>
  \<open>do_one\<close> between the wait and \<open>consume\<close>. The links of the loop's nodes are those of its queue; the timers
  are taken after the first completion and before the batches.
\<close>

definition uring_round ::
  "'k uring_lib \<Rightarrow> bool \<Rightarrow> loop_env \<Rightarrow> nat \<Rightarrow> uring_cqe option \<Rightarrow> 'k uring_context \<Rightarrow> (error + 'k uring_context) option" where
  "uring_round L le e tid cqe c =
     (case uring_take_cqes L le (case cqe of None \<Rightarrow> [] | Some x \<Rightarrow> [x]) (c, (oq_next (lp_ops (uc_loop c)), il_empty_list)) of
        Inl err \<Rightarrow> Some (Inl err)
      | Inr (c, (nx, ios)) \<Rightarrow>
          (case tq_take_ready_timers (le_deadline e) (lp_now (uc_loop c)) (lp_timers (uc_loop c)) (nx, il_empty_list) of
             None \<Rightarrow> None
           | Some (q, (nx, timers)) \<Rightarrow>
               (case uring_drain L le (c, (nx, ios)) of
                  None \<Rightarrow> None
                | Some (Inl err) \<Rightarrow> Some (Inl err)
                | Some (Inr (c, (nx, ios))) \<Rightarrow>
                    (case loop_publish_pending tid
                            ((uc_loop c)\<lparr>lp_timers := q, lp_ops := (lp_ops (uc_loop c))\<lparr>oq_next := nx\<rparr>\<rparr>)
                            (fst (il_release timers)) of
                       None \<Rightarrow> None
                     | Some l \<Rightarrow>
                         map_option (\<lambda>l. Inr (c\<lparr>uc_pulling := False, uc_loop := l\<rparr>))
                           (loop_publish_pending tid l (fst (il_release ios)))))))"

definition uring_consume :: "loop_env \<Rightarrow> nat \<Rightarrow> 'k uring_context \<Rightarrow> (bool \<times> 'k uring_context) option" where
  "uring_consume e tid c =
     map_option (\<lambda>r. (fst r, c\<lparr>uc_loop := snd r\<rparr>)) (loop_consume e tid (uc_loop c))"

definition uring_waited :: "(int \<times> uring_cqe option) \<times> int \<times> 'k \<Rightarrow> 'k uring_context \<Rightarrow> 'k uring_context" where
  "uring_waited w c = c\<lparr>uc_loop := (uc_loop c)\<lparr>lp_now := fst (snd w)\<rparr>, uc_kernel := snd (snd w)\<rparr>"

partial_function (option) uring_do_one_loop ::
  "'k uring_lib \<Rightarrow> bool \<Rightarrow> loop_env \<Rightarrow> nat \<Rightarrow> bool \<Rightarrow> 'k uring_context \<Rightarrow> (error + (bool \<times> 'k uring_context)) option" where
  "uring_do_one_loop L le e tid block c =
     (if lp_work (uc_loop c) > 0 then
        (case uring_consume e tid c of
           None \<Rightarrow> None
         | Some r \<Rightarrow>
             if fst r then Some (Inr (True, snd r))
             else
               let c = (snd r)\<lparr>uc_pulling := True\<rparr>
               in if lp_work (uc_loop c) = 0 then Some (Inr (False, c\<lparr>uc_pulling := False\<rparr>))
                  else
                    (case uring_submit_sqes L c of
                       Inl err \<Rightarrow> Some (Inl err)
                     | Inr c \<Rightarrow>
                         let w = ul_wait L (uring_wait_for block (tq_earliest (le_deadline e) (lp_timers (uc_loop c)))
                               (lp_now (uc_loop c))) (uc_kernel c);
                             ec = fst (fst w);
                             again = ec = EINTR \<or> ec = ETIME
                         in if \<not> again \<and> ec > 0 then Some (Inl (SystemError ec))
                            else
                              (case uring_round L le e tid (if again then None else snd (fst w)) (uring_waited w c) of
                                 None \<Rightarrow> None
                               | Some (Inl err) \<Rightarrow> Some (Inl err)
                               | Some (Inr c) \<Rightarrow>
                                   if block then uring_do_one_loop L le e tid block c
                                   else map_option Inr (uring_consume e tid c))))
      else Some (Inr (False, c)))"

definition uring_do_one ::
  "'k uring_lib \<Rightarrow> bool \<Rightarrow> loop_env \<Rightarrow> nat \<Rightarrow> bool \<Rightarrow> 'k uring_context \<Rightarrow> (error + (bool \<times> 'k uring_context)) option" where
  "uring_do_one L le e tid block c =
     (if lp_work (uc_loop c) = 0 then Some (Inr (False, c)) else uring_do_one_loop L le e tid block c)"

section \<open>I/O objects\<close>

record uring_object =
  uo_fd :: int
  uo_stream :: bool

text \<open>\<open>make_io_object\<close> closes the descriptor if the constructor throws.\<close>

definition uring_make_io_object :: "'k sys_calls \<Rightarrow> int \<Rightarrow> 'k \<Rightarrow> (error + uring_object) \<times> 'k" where
  "uring_make_io_object s fd k =
     (case is_stream_oriented s fd k of
        (Inl e, k) \<Rightarrow> (Inl e, snd (sc_close s fd k))
      | (Inr stream, k) \<Rightarrow> (Inr \<lparr>uo_fd = fd, uo_stream = stream\<rparr>, k))"

definition uring_object_close :: "'k sys_calls \<Rightarrow> uring_object \<Rightarrow> 'k \<Rightarrow> (error + unit) \<times> uring_object \<times> 'k" where
  "uring_object_close s ob k =
     (if uo_fd ob = - 1 then (Inr (), ob, k)
      else (case sc_close s (uo_fd ob) k of (r, k) \<Rightarrow> (throw_last_error r, ob\<lparr>uo_fd := - 1\<rparr>, k)))"

text \<open>The blocking members; the descriptor stays blocking or not as it is.\<close>

definition uring_blocking :: "'w sys_calls \<Rightarrow> bool \<Rightarrow> uring_object \<Rightarrow> uring_request \<Rightarrow> (io_value, 'w) io" where
  "uring_blocking c le ob q w =
     (case q of
        Plain q \<Rightarrow>
          io_blocking c le (uo_fd ob) (case q of Receive n _ \<Rightarrow> Receive n (uo_stream ob) | _ \<Rightarrow> q) w
      | ReadSomeAt offset n \<Rightarrow> io_post (\<lambda>bs. Inr (VBytes bs)) (file_read_at c (uo_fd ob) offset n w)
      | WriteSomeAt offset bs \<Rightarrow> io_post (\<lambda>n. Inr (VCount n)) (file_write_at c (uo_fd ob) offset bs w))"

definition uring_seek :: "'w sys_calls \<Rightarrow> uring_object \<Rightarrow> size_t \<Rightarrow> seek_whence \<Rightarrow> (nat, 'w) io" where
  "uring_seek c ob = file_seek c (uo_fd ob)"

definition uring_resize :: "'w sys_calls \<Rightarrow> uring_object \<Rightarrow> size_t \<Rightarrow> (unit, 'w) io" where
  "uring_resize c ob = file_resize c (uo_fd ob)"

text \<open>The constructor moves the descriptor out of \<open>other\<close>.\<close>

definition uring_object_move :: "uring_object \<Rightarrow> uring_object \<times> uring_object" where
  "uring_object_move ob = (ob, \<lparr>uo_fd = - 1, uo_stream = False\<rparr>)"

section \<open>Construction\<close>

text \<open>\<open>io_uring_queue_init\<close>, \<open>io_uring_register_probe\<close> (its result and \<open>last_op\<close>) and \<open>io_uring_queue_exit\<close>.\<close>

record 'k uring_setup =
  ur_queue_init :: "nat \<Rightarrow> 'k \<Rightarrow> int \<times> 'k"
  ur_probe :: "'k \<Rightarrow> (int \<times> nat) \<times> 'k"
  ur_queue_exit :: "'k \<Rightarrow> 'k"

definition EOPNOTSUPP :: int where "EOPNOTSUPP = 95"
definition IORING_OP_SOCKET :: nat where "IORING_OP_SOCKET = 45"
definition default_uring_entries :: size_t where "default_uring_entries = 4096"

definition init_uring :: "'k uring_setup \<Rightarrow> size_t \<Rightarrow> 'k \<Rightarrow> (error + unit) \<times> 'k" where
  "init_uring S entries k =
     (if entries > 2 ^ 32 - 1 then (Inl (SystemError EOVERFLOW), k)
      else
        (case ur_queue_init S (unat entries) k of
           (ec, k) \<Rightarrow>
             if ec < 0 then (Inl (SystemError (- ec)), k)
             else
               (case ur_probe S k of
                  ((r, last_op), k) \<Rightarrow>
                    if r < 0 \<or> last_op < IORING_OP_SOCKET then (Inl (SystemError EOPNOTSUPP), ur_queue_exit S k)
                    else (Inr (), k))))"

definition uring_context_new ::
  "'k uring_setup \<Rightarrow> (addr \<Rightarrow> uring_request) \<Rightarrow> size_t \<Rightarrow> 'k \<Rightarrow> (error + 'k uring_context) \<times> 'k" where
  "uring_context_new S reqs entries k =
     (case init_uring S entries k of
        (Inl e, k) \<Rightarrow> (Inl e, k)
      | (Inr _, k) \<Rightarrow>
          (Inr \<lparr>uc_loop = loop_init, uc_pulling = False, uc_pending = 0, uc_kernel = k, uc_request = reqs,
                uc_result = (\<lambda>_. ResultNone)\<rparr>, k))"

definition uring_context_default ::
  "'k uring_setup \<Rightarrow> (addr \<Rightarrow> uring_request) \<Rightarrow> 'k \<Rightarrow> (error + 'k uring_context) \<times> 'k" where
  "uring_context_default S reqs = uring_context_new S reqs default_uring_entries"

definition uring_context_destroy :: "'k uring_setup \<Rightarrow> 'k uring_context \<Rightarrow> 'k" where
  "uring_context_destroy S c = ur_queue_exit S (uc_kernel c)"

section \<open>Submission under interference\<close>

text \<open>
  What is relied on of liburing, with \<open>prepared k\<close> the number of entries handed out and not submitted: an entry that
  is handed out is one more, filling it changes nothing, and \<open>io_uring_submit\<close> submits all of them and returns
  their number.
\<close>

definition uring_lib_ok :: "'k uring_lib \<Rightarrow> ('k \<Rightarrow> nat) \<Rightarrow> bool" where
  "uring_lib_ok L prepared \<longleftrightarrow>
     (\<forall>k. prepared (snd (ul_get_sqe L k)) = prepared k + (if fst (ul_get_sqe L k) then 1 else 0)) \<and>
     (\<forall>sqe user k. prepared (ul_prep L sqe user k) = prepared k) \<and>
     (\<forall>k. fst (ul_submit L k) = int (prepared k) \<and> prepared (snd (ul_submit L k)) = 0)"

text \<open>
  The consumer is outside, has announced that it is going to wait, or waits (until it leaves). A starter that
  has enqueued an entry holds \<open>uring_mtx_\<close> until \<open>post_submit_sqes\<close> is done; \<open>pulling_cqes_\<close> is written without
  the lock. The other threads' cancellations and interrupts are one critical section each.
\<close>

datatype uring_pc = UOutside | UPulling | UWaiting

record 'k uring_sys =
  us_ctx :: "'k uring_context"
  us_busy :: bool
  us_pc :: uring_pc

inductive uring_step :: "'k uring_lib \<Rightarrow> ('k \<Rightarrow> nat) \<Rightarrow> bool \<Rightarrow> 'k uring_sys \<Rightarrow> 'k uring_sys \<Rightarrow> bool" for L prepared le where
  enqueue: "\<not> us_busy s \<Longrightarrow> uring_enqueue L le fd op (us_ctx s) = Inr (found, c) \<Longrightarrow>
    uring_step L prepared le s (s\<lparr>us_ctx := c, us_busy := found\<rparr>)"
| post: "us_busy s \<Longrightarrow> uring_post_submit_sqes L (us_ctx s) = Inr c \<Longrightarrow>
    uring_step L prepared le s (s\<lparr>us_ctx := c, us_busy := False\<rparr>)"
| urgent: "\<not> us_busy s \<Longrightarrow> uring_urgent L sqe user (us_ctx s) = Inr c \<Longrightarrow>
    uring_step L prepared le s (s\<lparr>us_ctx := c\<rparr>)"
| pull: "us_pc s = UOutside \<Longrightarrow>
    uring_step L prepared le s (s\<lparr>us_ctx := (us_ctx s)\<lparr>uc_pulling := True\<rparr>, us_pc := UPulling\<rparr>)"
| submit: "us_pc s = UPulling \<Longrightarrow> \<not> us_busy s \<Longrightarrow> uring_submit_sqes L (us_ctx s) = Inr c \<Longrightarrow>
    uring_step L prepared le s (s\<lparr>us_ctx := c, us_pc := UWaiting\<rparr>)"
| leave: "us_pc s \<noteq> UOutside \<Longrightarrow>
    uring_step L prepared le s (s\<lparr>us_ctx := (us_ctx s)\<lparr>uc_pulling := False\<rparr>, us_pc := UOutside\<rparr>)"
| kernel: "prepared k = prepared (uc_kernel (us_ctx s)) \<Longrightarrow>
    uring_step L prepared le s (s\<lparr>us_ctx := (us_ctx s)\<lparr>uc_kernel := k\<rparr>\<rparr>)"

inductive uring_reachable :: "'k uring_lib \<Rightarrow> ('k \<Rightarrow> nat) \<Rightarrow> bool \<Rightarrow> 'k uring_sys \<Rightarrow> bool" for L prepared le where
  start: "prepared (uc_kernel c) = 0 \<Longrightarrow> uc_pending c = 0 \<Longrightarrow> \<not> uc_pulling c \<Longrightarrow>
    uring_reachable L prepared le \<lparr>us_ctx = c, us_busy = False, us_pc = UOutside\<rparr>"
| step: "uring_reachable L prepared le s \<Longrightarrow> uring_step L prepared le s t \<Longrightarrow> uring_reachable L prepared le t"

definition uring_inv :: "('k \<Rightarrow> nat) \<Rightarrow> 'k uring_sys \<Rightarrow> bool" where
  "uring_inv prepared s \<longleftrightarrow>
     uc_pending (us_ctx s) = prepared (uc_kernel (us_ctx s)) \<and>
     (uc_pulling (us_ctx s) \<longleftrightarrow> us_pc s \<noteq> UOutside) \<and>
     uc_pending (us_ctx s) < submit_batch_size + (if us_busy s then 1 else 0) \<and>
     (us_pc s = UWaiting \<and> \<not> us_busy s \<longrightarrow> uc_pending (us_ctx s) = 0)"

lemma uring_submit_all:
  assumes "uring_lib_ok L prepared" "prepared (uc_kernel c) = uc_pending c"
  shows "\<exists>c'. uring_submit_sqes L c = Inr c' \<and> uc_pulling c' = uc_pulling c \<and> uc_pending c' = 0 \<and> prepared (uc_kernel c') = 0"
proof -
  obtain n k where nk: "ul_submit L (uc_kernel c) = (n, k)" by fastforce
  then have "n = int (prepared (uc_kernel c))" "prepared k = 0"
    using assms(1) unfolding uring_lib_ok_def by (metis fst_conv, metis snd_conv)
  then show ?thesis using assms(2) nk by (simp add: uring_submit_sqes_def)
qed

lemma uring_get_prepared:
  "uring_lib_ok L prepared \<Longrightarrow> ul_get_sqe L k = (found, k') \<Longrightarrow> prepared k' = prepared k + (if found then 1 else 0)"
  unfolding uring_lib_ok_def by (metis fst_conv snd_conv)

text \<open>While an entry has been found but not counted yet, one more is prepared than pending.\<close>

lemma uring_alloc_retry_ok:
  assumes "uring_lib_ok L prepared" "prepared (uc_kernel c) = uc_pending c + (if found then 1 else 0)"
  shows "\<exists>found' c'. uring_alloc_retry L n found c = Inr (found', c') \<and> uc_pulling c' = uc_pulling c \<and>
    prepared (uc_kernel c') = uc_pending c' + (if found' then 1 else 0) \<and> uc_pending c' \<le> uc_pending c"
  using assms(2)
proof (induction n arbitrary: found c)
  case 0
  then show ?case by (intro exI [of _ found] exI [of _ c]) simp
next
  case (Suc n)
  show ?case
  proof (cases found)
    case True
    then show ?thesis using Suc.prems by (intro exI [of _ found] exI [of _ c]) simp
  next
    case False
    then have "prepared (uc_kernel c) = uc_pending c" using Suc.prems by simp
    from uring_submit_all [OF assms(1) this] obtain c1 where
      s1: "uring_submit_sqes L c = Inr c1" "uc_pulling c1 = uc_pulling c" "uc_pending c1 = 0" "prepared (uc_kernel c1) = 0"
      by blast
    obtain f k2 where g: "ul_get_sqe L (uc_kernel c1) = (f, k2)" by fastforce
    let ?c = "c1\<lparr>uc_kernel := k2\<rparr>"
    have "prepared (uc_kernel ?c) = uc_pending ?c + (if f then 1 else 0)"
      using uring_get_prepared [OF assms(1) g] s1(3,4) by simp
    from Suc.IH [OF this] show ?thesis using False s1 g by force
  qed
qed

lemma uring_allocate_ok:
  assumes "uring_lib_ok L prepared" "prepared (uc_kernel c) = uc_pending c"
  shows "\<exists>found c'. uring_allocate_sqe L c = Inr (found, c') \<and> uc_pulling c' = uc_pulling c \<and>
    prepared (uc_kernel c') = uc_pending c' \<and> uc_pending c' \<le> uc_pending c + (if found then 1 else 0)"
proof -
  obtain f k1 where g: "ul_get_sqe L (uc_kernel c) = (f, k1)" by fastforce
  let ?c = "c\<lparr>uc_kernel := k1\<rparr>"
  have "prepared (uc_kernel ?c) = uc_pending ?c + (if f then 1 else 0)"
    using uring_get_prepared [OF assms(1) g] assms(2) by simp
  from uring_alloc_retry_ok [OF assms(1) this, of 3]
  obtain f' c' where r: "uring_alloc_retry L 3 f ?c = Inr (f', c')" "uc_pulling c' = uc_pulling c"
    "prepared (uc_kernel c') = uc_pending c' + (if f' then 1 else 0)" "uc_pending c' \<le> uc_pending c" by auto
  let ?r = "if f' then c'\<lparr>uc_pending := uc_pending c' + 1\<rparr> else c'"
  have "uring_allocate_sqe L c = Inr (f', ?r)" using g r(1) by (simp add: uring_allocate_sqe_def)
  moreover have "uc_pulling ?r = uc_pulling c \<and> prepared (uc_kernel ?r) = uc_pending ?r \<and>
      uc_pending ?r \<le> uc_pending c + (if f' then 1 else 0)" using r by simp
  ultimately show ?thesis by blast
qed

lemma uring_prep_prepared: "uring_lib_ok L prepared \<Longrightarrow> prepared (ul_prep L sqe user k) = prepared k"
  by (simp add: uring_lib_ok_def)

lemma uring_enqueue_ok:
  assumes "uring_lib_ok L prepared" "prepared (uc_kernel c) = uc_pending c" "uring_enqueue L le fd op c = Inr (found, c')"
  shows "uc_pulling c' = uc_pulling c" "prepared (uc_kernel c') = uc_pending c'"
    "uc_pending c' \<le> uc_pending c + (if found then 1 else 0)"
  using uring_allocate_ok [OF assms(1,2)] assms(3)
  by (auto simp: uring_enqueue_def uring_prep_prepared [OF assms(1)] split: if_splits)

lemma uring_urgent_ok:
  assumes "uring_lib_ok L prepared" "prepared (uc_kernel c) = uc_pending c" "uring_urgent L sqe user c = Inr c'"
  shows "uc_pulling c' = uc_pulling c" "prepared (uc_kernel c') = 0" "uc_pending c' = 0"
proof -
  obtain c1 where a: "uring_allocate_sqe L c = Inr (True, c1)" "uc_pulling c1 = uc_pulling c"
    "prepared (uc_kernel c1) = uc_pending c1"
    using uring_allocate_ok [OF assms(1,2)] assms(3) by (auto simp: uring_urgent_def split: if_splits)
  let ?c = "c1\<lparr>uc_kernel := ul_prep L sqe user (uc_kernel c1)\<rparr>"
  have p: "prepared (uc_kernel ?c) = uc_pending ?c" using a(3) by (simp add: uring_prep_prepared [OF assms(1)])
  obtain c2 where "uring_submit_sqes L ?c = Inr c2" "uc_pulling c2 = uc_pulling ?c" "uc_pending c2 = 0"
    "prepared (uc_kernel c2) = 0" using uring_submit_all [OF assms(1) p] by blast
  then show "uc_pulling c' = uc_pulling c" "prepared (uc_kernel c') = 0" "uc_pending c' = 0"
    using assms(3) a(1,2) by (simp_all add: uring_urgent_def)
qed

lemma uring_post_ok:
  assumes "uring_lib_ok L prepared" "prepared (uc_kernel c) = uc_pending c"
  shows "\<exists>c'. uring_post_submit_sqes L c = Inr c' \<and> uc_pulling c' = uc_pulling c \<and> prepared (uc_kernel c') = uc_pending c' \<and>
    uc_pending c' < submit_batch_size \<and> (uc_pulling c \<longrightarrow> uc_pending c' = 0)"
  using uring_submit_all [OF assms] assms(2)
  by (cases "\<not> uc_pulling c \<and> uc_pending c < submit_batch_size") (auto simp: uring_post_submit_sqes_def submit_batch_size_def)

lemma uring_step_inv: "uring_step L prepared le s t \<Longrightarrow> uring_lib_ok L prepared \<Longrightarrow> uring_inv prepared s \<Longrightarrow> uring_inv prepared t"
proof (induction rule: uring_step.induct)
  case (enqueue s fd op found c)
  then have "prepared (uc_kernel (us_ctx s)) = uc_pending (us_ctx s)" by (simp add: uring_inv_def)
  from uring_enqueue_ok [OF enqueue(3) this enqueue(2)] show ?case using enqueue(1,4) by (auto simp: uring_inv_def)
next
  case (post s c)
  then have "prepared (uc_kernel (us_ctx s)) = uc_pending (us_ctx s)" by (simp add: uring_inv_def)
  from uring_post_ok [OF post(3) this] show ?case using post(2,4) by (auto simp: uring_inv_def)
next
  case (urgent s sqe user c)
  then have "prepared (uc_kernel (us_ctx s)) = uc_pending (us_ctx s)" by (simp add: uring_inv_def)
  from uring_urgent_ok [OF urgent(3) this urgent(2)] show ?case
    using urgent(1,4) by (auto simp: uring_inv_def submit_batch_size_def)
next
  case (submit s c)
  then have "prepared (uc_kernel (us_ctx s)) = uc_pending (us_ctx s)" by (simp add: uring_inv_def)
  from uring_submit_all [OF submit(4) this] show ?case
    using submit(1-3,5) by (auto simp: uring_inv_def submit_batch_size_def)
qed (auto simp: uring_inv_def)

lemma uring_reachable_inv: "uring_reachable L prepared le s \<Longrightarrow> uring_lib_ok L prepared \<Longrightarrow> uring_inv prepared s"
proof (induction rule: uring_reachable.induct)
  case (start c)
  then show ?case by (simp add: uring_inv_def submit_batch_size_def)
next
  case (step s t)
  then show ?case using uring_step_inv by blast
qed

section \<open>Properties\<close>


definition uring_lib_demo :: "nat uring_lib" where
  "uring_lib_demo = \<lparr>ul_get_sqe = (\<lambda>k. (True, k + 1)), ul_prep = (\<lambda>_ _ k. k), ul_submit = (\<lambda>k. (int k, 0)),
     ul_wait = (\<lambda>_ k. ((ETIME, None), 0, k)), ul_peek = (\<lambda>k. ([], k)), ul_stored = (\<lambda>_ _. (SockOther 0, []))\<rparr>"

definition uring_ctx_demo :: "nat uring_context" where
  "uring_ctx_demo = \<lparr>uc_loop = loop_init, uc_pulling = False, uc_pending = 0, uc_kernel = 0,
     uc_request = (\<lambda>_. Plain (ReadSome 4)), uc_result = (\<lambda>_. ResultNone)\<rparr>"

definition uring_sys_demo :: "nat uring_sys" where
  "uring_sys_demo = \<lparr>us_ctx = uring_ctx_demo\<lparr>uc_pulling := True, uc_kernel := 1, uc_pending := 1\<rparr>, us_busy = True,
     us_pc = UWaiting\<rparr>"

lemma uring_lib_demo_ok: "uring_lib_ok uring_lib_demo (\<lambda>k. k)"
  by (simp add: uring_lib_ok_def uring_lib_demo_def)

lemma uring_sys_demo_reachable: "uring_reachable uring_lib_demo (\<lambda>k. k) True uring_sys_demo"
proof -
  let ?R = "uring_reachable uring_lib_demo (\<lambda>k. k) True"
  let ?p = "uring_ctx_demo\<lparr>uc_pulling := True\<rparr>"
  have "?R \<lparr>us_ctx = uring_ctx_demo, us_busy = False, us_pc = UOutside\<rparr>"
    by (rule uring_reachable.start) (simp_all add: uring_ctx_demo_def)
  from uring_reachable.step [OF this uring_step.pull] have "?R \<lparr>us_ctx = ?p, us_busy = False, us_pc = UPulling\<rparr>" by simp
  from uring_reachable.step [OF this uring_step.submit [of _ _ ?p]]
  have "?R \<lparr>us_ctx = ?p, us_busy = False, us_pc = UWaiting\<rparr>" by (simp add: uring_submit_sqes_def uring_ctx_demo_def)
  from uring_reachable.step [OF this uring_step.enqueue [of _ _ _ 5 7 True "?p\<lparr>uc_kernel := 1, uc_pending := 1\<rparr>"]]
  show ?thesis
    by (simp add: uring_sys_demo_def uring_enqueue_def uring_allocate_sqe_def uring_lib_demo_def uring_ctx_demo_def
        eval_nat_numeral)
qed


text \<open>The completion of an entry as the answer of the system call that the entry stands for.\<close>

definition uring_answers :: "bool \<Rightarrow> int \<Rightarrow> sockaddr \<times> byte list \<Rightarrow> int + io_value \<Rightarrow> bool" where
  "uring_answers le res stored ans \<longleftrightarrow>
     (case ans of
        Inl e \<Rightarrow> 0 < e \<and> e \<noteq> ECANCELED \<and> res = - e
      | Inr v \<Rightarrow>
          (case v of
             VBytes bs \<Rightarrow> res = int (length bs) \<and> take (length bs) (snd stored) = bs
           | VCount n \<Rightarrow> res = int n
           | VDatagram ep bs \<Rightarrow> res = int (length bs) \<and> take (length bs) (snd stored) = bs \<and>
               sockaddr_storage_to_endpoint le (fst stored) = Inr ep
           | VHandle h \<Rightarrow> res = h \<and> 0 \<le> h
           | VUnit \<Rightarrow> res = 0))"

text \<open>The values that fit a request.\<close>

definition io_value_ok :: "io_request \<Rightarrow> io_value \<Rightarrow> bool" where
  "io_value_ok q v \<longleftrightarrow>
     (case q of
        ReadSome _ \<Rightarrow> (case v of VBytes _ \<Rightarrow> True | _ \<Rightarrow> False)
      | Receive _ _ \<Rightarrow> (case v of VBytes _ \<Rightarrow> True | _ \<Rightarrow> False)
      | ReceiveFrom _ \<Rightarrow> (case v of VDatagram _ _ \<Rightarrow> True | _ \<Rightarrow> False)
      | Accept \<Rightarrow> (case v of VHandle _ \<Rightarrow> True | _ \<Rightarrow> False)
      | Connect _ \<Rightarrow> v = VUnit
      | _ \<Rightarrow> (case v of VCount _ \<Rightarrow> True | _ \<Rightarrow> False))"

lemma uring_complete_error:
  "0 < e \<Longrightarrow> e \<noteq> ECANCELED \<Longrightarrow> uring_complete le stored q (- e) ResultNone = Inr (ResultError (SystemError e))"
  by (simp add: uring_complete_defs split: uring_request.split io_request.split)

lemma uring_complete_value:
  assumes "uring_answers le res stored (Inr v)" "io_value_ok q v"
  shows "uring_complete le stored (Plain q) res ResultNone = Inr (io_as_result (io_spec q (Inr v)))"
  using assms by (cases q; cases v)
    (simp_all add: uring_answers_def io_value_ok_def uring_complete_defs io_as_result_def io_spec_def io_eof_def)

lemma uring_complete_spec:
  assumes "uring_answers le res stored ans" "\<And>v. ans = Inr v \<Longrightarrow> io_value_ok q v"
  shows "uring_complete le stored (Plain q) res ResultNone = Inr (io_as_result (io_spec q ans))"
proof (cases ans)
  case (Inl e)
  then show ?thesis using assms(1) uring_complete_error [of e le stored "Plain q"]
    by (simp add: uring_answers_def io_spec_def io_as_result_def)
next
  case (Inr v)
  then show ?thesis using uring_complete_value assms by simp
qed

lemma io_mapped_value: "io_mapped f x = (Inr v, w') \<Longrightarrow> \<exists>y. v = f y"
  by (cases "fst x") (simp_all add: io_mapped_def, metis)

lemma io_answer_value_ok: "io_answer c le nowait fd q w = (Inr v, w') \<Longrightarrow> io_value_ok q v"
  by (cases q) (auto simp: io_answer_def io_value_ok_def dest!: io_mapped_value split: prod.splits)

text \<open>C21. The two backends agree. When the kernel's answer to the system call of a request is \<open>ans\<close>, the epoll operation
  that does the call and the io\_uring operation that is completed with that answer report the same; a cancelled
  io\_uring operation reports that it was stopped.\<close>

theorem uring_agrees_with_epoll:
  assumes "fd \<noteq> - 1" "\<not> io_empty q" "\<forall>peer. q \<noteq> Connect peer" "io_ip_peers c fd"
    and "io_answer c le True fd q w = (ans, w')" "ans \<noteq> Inl EAGAIN" "uring_answers le res stored ans"
  shows "\<exists>r. io_do_start c le reg fd q ResultNone w = Some (Inr (ResCompleted, r), w') \<and>
    io_perform c le fd q ResultNone w = (Inr (True, r), w') \<and>
    uring_complete le stored (Plain q) res ResultNone = Inr r \<and>
    result_forward_to r = (case io_spec q ans of Inl e \<Rightarrow> SetError e | Inr v \<Rightarrow> SetValue v) \<and>
    map_sum (\<lambda>e. e) result_forward_to (uring_complete le stored (Plain q) (- ECANCELED) ResultNone) = Inr SetStopped"
proof -
  have ok: "ans = Inr v \<Longrightarrow> io_value_ok q v" for v using io_answer_value_ok [of c le True fd q w v w'] assms(5) by simp
  have "result_forward_to (io_as_result (io_spec q ans)) = (case io_spec q ans of Inl e \<Rightarrow> SetError e | Inr v \<Rightarrow> SetValue v)"
    by (simp add: io_as_result_def split: sum.splits)
  moreover have "map_sum (\<lambda>e. e) result_forward_to (uring_complete le stored (Plain q) (- ECANCELED) ResultNone) = Inr SetStopped"
    by (simp add: uring_complete_defs ECANCELED_def split: io_request.split)
  ultimately show ?thesis using io_forms_agree [OF assms(1-6)] uring_complete_spec [OF assms(7) ok] by blast
qed

theorem uring_agrees_with_epoll_witness:
  "uring_complete True (SockOther 0, [1, 2]) (Plain (ReadSome 4)) 2 ResultNone = Inr (ResultValue (VBytes [1, 2])) \<and>
   io_perform sys_demo True 5 (ReadSome 4) ResultNone 2 = (Inr (True, ResultValue (VBytes [1, 2])), 3)"
proof -
  have ans: "io_answer sys_demo True True 5 (ReadSome 4) 2 = (Inr (VBytes [1, 2]), 3)"
    by (simp add: io_answer_def io_mapped_def sys_demo_def)
  have "(5::int) \<noteq> - 1" "\<not> io_empty (ReadSome 4)" "\<forall>peer. ReadSome 4 \<noteq> Connect peer" "Inr (VBytes [1, 2]) \<noteq> Inl EAGAIN"
    "uring_answers True 2 (SockOther 0, [1, 2]) (Inr (VBytes [1, 2]))"
    by (simp_all add: io_empty_def uring_answers_def)
  note th = uring_agrees_with_epoll [OF this(1-3) sys_demo_ip ans this(4,5), of "\<lambda>_ w. (Inr RegArmed, w)"]
  have "uring_complete True (SockOther 0, [1, 2]) (Plain (ReadSome 4)) 2 ResultNone = Inr (ResultValue (VBytes [1, 2]))"
    by (simp add: uring_complete_defs)
  then show ?thesis using th by auto
qed

end
