(* ===== verification/Loop_Wakeup.thy ===== *)
theory Loop_Wakeup
  imports Prelude
begin

text \<open>
  Sleeping and waking: the consumer thread of a \<open>time_loop\<close> (\<open>do_one(true)\<close> called from \<open>run\<close>, in
  \<open>include/coio/execution_context.h\<close>) against any number of other threads that post operations,
  start and cancel timers and change the work count. The queue and the heap are what \<open>Op_Queue_Mpsc\<close>
  and \<open>Timer_Queue\<close> show them to be, a list and a set of deadlines; each transition is one atomic
  action of the code (what \<open>take\<close> queues depends on the phase of the timers and is left open, and so
  is what the receivers do in \<open>consume_one\<close>). \<open>wl_pending\<close> counts the threads that have made their change and are about to
  call \<open>wakeup_consumer\<close>, which releases the semaphore, because their identity is not
  \<open>consumer_id_\<close>. The consumer's own changes, in \<open>finish\<close>, are not followed by a release.
\<close>

datatype loop_pc = LCheck | LConsume | LEarliest | LWait "int option" | LTake | LReturned

record wake_loop =
  wl_queue :: "nat list"
  wl_timers :: "int multiset"
  wl_work :: nat
  wl_sema :: nat
  wl_pending :: nat
  wl_now :: int
  wl_pc :: loop_pc

definition wl_earliest :: "int multiset \<Rightarrow> int option" where
  "wl_earliest T = (if T = {#} then None else Some (Min (set_mset T)))"

inductive wake_step :: "wake_loop \<Rightarrow> wake_loop \<Rightarrow> bool" where
  \<comment> \<open>other threads: the change, then (or not) the duty to wake\<close>
  post: "wake_step s (s\<lparr>wl_queue := wl_queue s @ [a], wl_pending := wl_pending s + 1\<rparr>)"
| add_timer: "wake_step s (s\<lparr>wl_timers := add_mset t (wl_timers s),
    wl_pending := wl_pending s + (if \<forall>u \<in># wl_timers s. t < u then 1 else 0)\<rparr>)"
| cancel_timer: "t \<in># wl_timers s \<Longrightarrow> wake_step s (s\<lparr>wl_timers := wl_timers s - {#t#},
    wl_queue := wl_queue s @ [a], wl_pending := wl_pending s + 1\<rparr>)"
| drop_timer: "t \<in># wl_timers s \<Longrightarrow> wake_step s (s\<lparr>wl_timers := wl_timers s - {#t#}\<rparr>)"
| work_started: "wake_step s (s\<lparr>wl_work := wl_work s + 1\<rparr>)"
| work_finished: "wl_work s > 0 \<Longrightarrow> wake_step s (s\<lparr>wl_work := wl_work s - 1,
    wl_pending := wl_pending s + (if wl_work s = 1 then 1 else 0)\<rparr>)"
| request_stop: "wake_step s (s\<lparr>wl_pending := wl_pending s + 1\<rparr>)"
| interrupt: "wl_pending s > 0 \<Longrightarrow>
    wake_step s (s\<lparr>wl_pending := wl_pending s - 1, wl_sema := wl_sema s + 1\<rparr>)"
| tick: "t \<ge> wl_now s \<Longrightarrow> wake_step s (s\<lparr>wl_now := t\<rparr>)"
  \<comment> \<open>the consumer\<close>
| check: "wl_pc s = LCheck \<Longrightarrow>
    wake_step s (s\<lparr>wl_pc := if wl_work s > 0 then LConsume else LReturned\<rparr>)"
| consume_one: "wl_pc s = LConsume \<Longrightarrow> wl_queue s = a # as \<Longrightarrow>
    wake_step s (s\<lparr>wl_queue := as @ posted, wl_timers := T, wl_work := w, wl_pc := LCheck\<rparr>)"
| consume_none: "wl_pc s = LConsume \<Longrightarrow> wl_queue s = [] \<Longrightarrow> wake_step s (s\<lparr>wl_pc := LEarliest\<rparr>)"
| earliest: "wl_pc s = LEarliest \<Longrightarrow>
    wake_step s (s\<lparr>wl_pc := LWait (wl_earliest (wl_timers s))\<rparr>)"
| acquire: "wl_pc s = LWait e \<Longrightarrow> wl_sema s > 0 \<Longrightarrow>
    wake_step s (s\<lparr>wl_sema := wl_sema s - 1, wl_pc := LTake\<rparr>)"
| timed_out: "wl_pc s = LWait (Some t) \<Longrightarrow> t \<le> wl_now s \<Longrightarrow> wake_step s (s\<lparr>wl_pc := LTake\<rparr>)"
| take: "wl_pc s = LTake \<Longrightarrow>
    wake_step s (s\<lparr>wl_queue := wl_queue s @ due, wl_timers := {#t \<in># wl_timers s. wl_now s < t#},
      wl_pc := LCheck\<rparr>)"

inductive wake_reachable :: "wake_loop \<Rightarrow> bool" where
  enter: "wl_pc s = LCheck \<Longrightarrow> wake_reachable s"
| step: "wake_reachable s \<Longrightarrow> wake_step s t \<Longrightarrow> wake_reachable t"

section \<open>The invariant\<close>

text \<open>
  If there is a reason not to sleep, a release is on its way or has happened; while the consumer is
  about to read the earliest deadline, a timer added meanwhile is no such reason yet.
\<close>

definition wake_inv :: "wake_loop \<Rightarrow> bool" where
  "wake_inv s \<longleftrightarrow>
     (case wl_pc s of
        LConsume \<Rightarrow> wl_work s = 0 \<longrightarrow> wl_sema s + wl_pending s > 0
      | LEarliest \<Rightarrow> wl_work s = 0 \<or> wl_queue s \<noteq> [] \<longrightarrow> wl_sema s + wl_pending s > 0
      | LWait e \<Rightarrow>
          wl_work s = 0 \<or> wl_queue s \<noteq> [] \<or>
            (\<exists>t \<in># wl_timers s. case e of None \<Rightarrow> True | Some u \<Rightarrow> t < u) \<longrightarrow>
          wl_sema s + wl_pending s > 0
      | _ \<Rightarrow> True)"

lemma wl_earliest_least:
  "t \<in># T \<Longrightarrow> case wl_earliest T of None \<Rightarrow> False | Some u \<Rightarrow> \<not> t < u"
  by (auto simp: wl_earliest_def not_less)

lemma wake_add_timer:
  assumes "wl_pc s = LWait e" "wake_inv s"
  shows "wake_inv (s\<lparr>wl_timers := add_mset t (wl_timers s),
    wl_pending := wl_pending s + (if \<forall>u \<in># wl_timers s. t < u then 1 else 0)\<rparr>)"
proof (cases "\<forall>u \<in># wl_timers s. t < u")
  case True
  then show ?thesis using assms by (simp add: wake_inv_def)
next
  case False
  then obtain u where u: "u \<in># wl_timers s" "u \<le> t" by (auto simp: not_less)
  have "\<exists>t \<in># wl_timers s. case e of None \<Rightarrow> True | Some u \<Rightarrow> t < u"
    if "case e of None \<Rightarrow> True | Some v \<Rightarrow> t < v"
    using that u by (intro bexI [of _ u]) (auto split: option.splits)
  moreover have "(if \<forall>u \<in># wl_timers s. t < u then 1 else 0) = (0 :: nat)"
    using False by meson
  ultimately show ?thesis using assms by (auto simp: wake_inv_def)
qed

lemma wake_step_inv:
  assumes "wake_step s t" "wake_inv s"
  shows "wake_inv t"
  using assms(1)
proof cases
  case (add_timer u)
  show ?thesis
  proof (cases "wl_pc s")
    case (LWait e)
    then show ?thesis using wake_add_timer [OF LWait assms(2)] add_timer by blast
  qed (use add_timer assms(2) in \<open>auto simp: wake_inv_def\<close>)
next
  case earliest
  have "\<not> (case wl_earliest (wl_timers s) of None \<Rightarrow> True | Some u \<Rightarrow> t < u)" if "t \<in># wl_timers s" for t
    using wl_earliest_least [OF that] by (auto split: option.splits)
  then show ?thesis using earliest assms(2) by (auto simp: wake_inv_def)
next
  case (drop_timer u)
  then show ?thesis
    using assms(2) by (cases "wl_pc s") (auto simp: wake_inv_def dest: in_diffD)
qed (use assms(2) in \<open>(cases "wl_pc s"; auto simp: wake_inv_def split: if_splits)+\<close>)

lemma wake_reachable_inv: "wake_reachable s \<Longrightarrow> wake_inv s"
proof (induction rule: wake_reachable.induct)
  case (enter s)
  then show ?case by (simp add: wake_inv_def)
qed (blast intro: wake_step_inv)

section \<open>Properties\<close>

text \<open>C6. No wake-up is lost: whenever the consumer sleeps with no token in the semaphore and no other
  thread about to release one, there is work, no operation is queued, and the consumer is waiting
  for a deadline that is not after any timer's.\<close>

theorem loop_no_lost_wakeup:
  assumes "wake_reachable s" "wl_pc s = LWait e" "wl_sema s = 0" "wl_pending s = 0"
  shows "wl_work s > 0 \<and> wl_queue s = [] \<and>
    (\<forall>t \<in># wl_timers s. \<exists>u. e = Some u \<and> u \<le> t)"
  using wake_reachable_inv [OF assms(1)] assms(2-4)
  by (auto simp: wake_inv_def not_less split: option.splits)

text \<open>A timer is added while the consumer is about to wait, by another thread.\<close>

definition wake_demo :: wake_loop where
  "wake_demo = \<lparr>wl_queue = [], wl_timers = {#5#}, wl_work = 1, wl_sema = 0, wl_pending = 0,
     wl_now = 0, wl_pc = LCheck\<rparr>"

lemma wake_demo_reachable: "wake_reachable (wake_demo\<lparr>wl_pc := LWait (Some 5)\<rparr>)"
proof -
  have "wake_reachable wake_demo" by (rule wake_reachable.enter) (simp add: wake_demo_def)
  moreover have "wake_step wake_demo (wake_demo\<lparr>wl_pc := LConsume\<rparr>)"
    using wake_step.check [of wake_demo] by (simp add: wake_demo_def)
  moreover have "wake_step (wake_demo\<lparr>wl_pc := LConsume\<rparr>) (wake_demo\<lparr>wl_pc := LEarliest\<rparr>)"
    using wake_step.consume_none [of "wake_demo\<lparr>wl_pc := LConsume\<rparr>"] by (simp add: wake_demo_def)
  moreover have "wake_step (wake_demo\<lparr>wl_pc := LEarliest\<rparr>) (wake_demo\<lparr>wl_pc := LWait (Some 5)\<rparr>)"
    using wake_step.earliest [of "wake_demo\<lparr>wl_pc := LEarliest\<rparr>"]
    by (simp add: wake_demo_def wl_earliest_def)
  ultimately show ?thesis by (blast intro: wake_reachable.step)
qed

theorem loop_no_lost_wakeup_witness:
  "wl_work (wake_demo\<lparr>wl_pc := LWait (Some 5)\<rparr>) > 0 \<and> wl_queue (wake_demo\<lparr>wl_pc := LWait (Some 5)\<rparr>) = []"
  using loop_no_lost_wakeup [OF wake_demo_reachable] by (simp add: wake_demo_def)

end
