(* ===== verification/Async_Mutex.thy ===== *)
theory Async_Mutex
  imports Prelude
begin

text \<open>
  \<open>async_mutex\<close> of \<open>include/coio/sync_primitives.h\<close>: the word \<open>state_\<close> is \<open>not_locked\<close> or the top of the
  stack of waiters (null when there is none), \<open>head_\<close> is the list of waiters, oldest first, that the
  owner has already taken from the stack. Every lock operation is an object with a \<open>next_\<close> link.

  Any number of threads call \<open>start\<close>, \<open>try_lock\<close> and \<open>unlock\<close>; the label of an operation names the
  atomic action it performs next. An operation that has been completed holds the mutex until its
  client calls \<open>unlock\<close>. The ghost lists \<open>am_arrived\<close> and \<open>am_granted\<close> record the order in which
  operations took effect on \<open>state_\<close> and the order in which they received the mutex.
\<close>

datatype mutex_word = NotLocked | Stack ptr

datatype mutex_pc =
    MIdle
  | MTry                      \<comment> \<open>\<open>try_lock\<close>: the compare-exchange\<close>
  | MFailed
  | MFirst                    \<comment> \<open>\<open>start\<close>: the first compare-exchange\<close>
  | MLink ptr                 \<comment> \<open>\<open>start\<close>: the second one, for the value last seen\<close>
  | MWaiting
  | MHolding
  | MUnlock                   \<comment> \<open>\<open>unlock\<close>: load \<open>head_\<close>\<close>
  | MRelease                  \<comment> \<open>\<open>unlock\<close>: the compare-exchange\<close>
  | MExchange                 \<comment> \<open>\<open>unlock\<close>: the exchange and the reversal\<close>
  | MStore ptr                \<comment> \<open>\<open>unlock\<close>: store \<open>head_\<close>\<close>
  | MComplete addr            \<comment> \<open>\<open>unlock\<close>: complete the next owner\<close>
  | MReleased

record async_mutex =
  am_state :: mutex_word
  am_head :: ptr
  am_next :: links
  am_pc :: "addr \<Rightarrow> mutex_pc"
  am_owner :: "addr option"
  am_arrived :: "addr list"
  am_granted :: "addr list"
  am_fault :: bool

definition am_new :: async_mutex where
  "am_new = \<lparr>am_state = NotLocked, am_head = None, am_next = (\<lambda>_. None), am_pc = (\<lambda>_. MIdle),
     am_owner = None, am_arrived = [], am_granted = [], am_fault = False\<rparr>"

definition am_goto :: "addr \<Rightarrow> mutex_pc \<Rightarrow> async_mutex \<Rightarrow> async_mutex" where
  "am_goto a pc s = s\<lparr>am_pc := (am_pc s)(a := pc)\<rparr>"

text \<open>Taking the free mutex, in \<open>start\<close> and in \<open>try_lock\<close>.\<close>

definition am_take :: "addr \<Rightarrow> async_mutex \<Rightarrow> async_mutex" where
  "am_take a s = am_goto a MHolding (s\<lparr>am_state := Stack None, am_owner := Some a,
     am_arrived := am_arrived s @ [a], am_granted := am_granted s @ [a]\<rparr>)"

definition am_try_lock :: "addr \<Rightarrow> async_mutex \<Rightarrow> async_mutex" where
  "am_try_lock a s = (if am_state s = NotLocked then am_take a s else am_goto a MFailed s)"

definition am_start_first :: "addr \<Rightarrow> async_mutex \<Rightarrow> async_mutex" where
  "am_start_first a s =
     (case am_state s of
        NotLocked \<Rightarrow> am_take a s
      | Stack p \<Rightarrow> am_goto a (MLink p) (s\<lparr>am_next := (am_next s)(a := p)\<rparr>))"

definition am_start_second :: "bool \<Rightarrow> addr \<Rightarrow> ptr \<Rightarrow> async_mutex \<Rightarrow> async_mutex" where
  "am_start_second spurious a old s =
     (if am_state s = Stack old \<and> \<not> spurious
      then am_goto a MWaiting (s\<lparr>am_state := Stack (Some a), am_arrived := am_arrived s @ [a]\<rparr>)
      else am_goto a MFirst s)"

definition am_unlock_load :: "addr \<Rightarrow> async_mutex \<Rightarrow> async_mutex" where
  "am_unlock_load a s =
     (case am_head s of
        None \<Rightarrow> am_goto a MRelease s
      | Some h \<Rightarrow> am_goto a (MStore (Some h)) s)"

definition am_unlock_release :: "addr \<Rightarrow> async_mutex \<Rightarrow> async_mutex" where
  "am_unlock_release a s =
     (if am_state s = Stack None
      then am_goto a MReleased (s\<lparr>am_state := NotLocked, am_owner := None\<rparr>)
      else am_goto a MExchange s)"

text \<open>The \<open>while (current)\<close> loop of \<open>unlock\<close>.\<close>

partial_function (option) am_reverse :: "links \<Rightarrow> ptr \<Rightarrow> ptr \<Rightarrow> (links \<times> ptr) option" where
  "am_reverse nx old_head current =
     (case current of
        None \<Rightarrow> Some (nx, old_head)
      | Some c \<Rightarrow> am_reverse (nx(c := old_head)) (Some c) (nx c))"

definition am_unlock_exchange :: "addr \<Rightarrow> async_mutex \<Rightarrow> async_mutex" where
  "am_unlock_exchange a s =
     (case am_state s of
        NotLocked \<Rightarrow> s\<lparr>am_fault := True\<rparr>
      | Stack p \<Rightarrow>
          (case am_reverse (am_next s) None p of
             None \<Rightarrow> s\<lparr>am_fault := True\<rparr>
           | Some (nx, h) \<Rightarrow> am_goto a (MStore h) (s\<lparr>am_state := Stack None, am_next := nx\<rparr>)))"

definition am_unlock_store :: "addr \<Rightarrow> ptr \<Rightarrow> async_mutex \<Rightarrow> async_mutex" where
  "am_unlock_store a old_head s =
     (case old_head of
        None \<Rightarrow> s\<lparr>am_fault := True\<rparr>
      | Some h \<Rightarrow> am_goto a (MComplete h) (s\<lparr>am_head := am_next s h\<rparr>))"

definition am_unlock_complete :: "addr \<Rightarrow> addr \<Rightarrow> async_mutex \<Rightarrow> async_mutex" where
  "am_unlock_complete a h s =
     am_goto h MHolding (am_goto a MReleased (s\<lparr>am_owner := Some h, am_granted := am_granted s @ [h]\<rparr>))"

inductive am_step :: "async_mutex \<Rightarrow> async_mutex \<Rightarrow> bool" where
  begin_try: "am_pc s a = MIdle \<Longrightarrow> am_step s (am_goto a MTry s)"
| begin_start: "am_pc s a = MIdle \<Longrightarrow> am_step s (am_goto a MFirst s)"
| try_lock: "am_pc s a = MTry \<Longrightarrow> am_step s (am_try_lock a s)"
| start_first: "am_pc s a = MFirst \<Longrightarrow> am_step s (am_start_first a s)"
| start_second: "am_pc s a = MLink old \<Longrightarrow> am_step s (am_start_second spurious a old s)"
| begin_unlock: "am_pc s a = MHolding \<Longrightarrow> am_step s (am_goto a MUnlock s)"
| unlock_load: "am_pc s a = MUnlock \<Longrightarrow> am_step s (am_unlock_load a s)"
| unlock_release: "am_pc s a = MRelease \<Longrightarrow> am_step s (am_unlock_release a s)"
| unlock_exchange: "am_pc s a = MExchange \<Longrightarrow> am_step s (am_unlock_exchange a s)"
| unlock_store: "am_pc s a = MStore h \<Longrightarrow> am_step s (am_unlock_store a h s)"
| unlock_complete: "am_pc s a = MComplete h \<Longrightarrow> am_step s (am_unlock_complete a h s)"

inductive am_reachable :: "async_mutex \<Rightarrow> bool" where
  new: "am_reachable am_new"
| step: "am_reachable s \<Longrightarrow> am_step s t \<Longrightarrow> am_reachable t"

lemmas am_action_defs = am_goto_def am_take_def am_try_lock_def am_start_first_def
  am_start_second_def am_unlock_load_def am_unlock_release_def am_unlock_exchange_def
  am_unlock_store_def am_unlock_complete_def

section \<open>The invariant\<close>

fun am_owning :: "mutex_pc \<Rightarrow> bool" where
  "am_owning MHolding = True"
| "am_owning MUnlock = True"
| "am_owning MRelease = True"
| "am_owning MExchange = True"
| "am_owning (MStore _) = True"
| "am_owning (MComplete _) = True"
| "am_owning _ = False"

text \<open>The list \<open>hs\<close> of waiters the owner has taken from the stack, as seen at each of its labels.\<close>

fun am_list_at :: "links \<Rightarrow> ptr \<Rightarrow> mutex_word \<Rightarrow> mutex_pc \<Rightarrow> addr list \<Rightarrow> bool" where
  "am_list_at nx h0 st MRelease hs = (h0 = None \<and> hs = [])"
| "am_list_at nx h0 st MExchange hs = (h0 = None \<and> hs = [] \<and> st \<noteq> Stack None)"
| "am_list_at nx h0 st (MStore h) hs = (chain nx h hs \<and> hs \<noteq> [])"
| "am_list_at nx h0 st (MComplete h) hs = (\<exists>rest. hs = h # rest \<and> chain nx h0 rest)"
| "am_list_at nx h0 st _ hs = chain nx h0 hs"

abbreviation am_taken :: "async_mutex \<Rightarrow> mutex_pc \<Rightarrow> addr list \<Rightarrow> bool" where
  "am_taken s \<equiv> am_list_at (am_next s) (am_head s) (am_state s)"

definition am_rep :: "async_mutex \<Rightarrow> addr list \<Rightarrow> addr list \<Rightarrow> bool" where
  "am_rep s hs ss \<longleftrightarrow> \<not> am_fault s \<and>
     (case am_state s of
        NotLocked \<Rightarrow> am_owner s = None \<and> am_head s = None \<and> hs = [] \<and> ss = []
      | Stack p \<Rightarrow> chain (am_next s) p ss \<and>
          (\<exists>w. am_owner s = Some w \<and> am_taken s (am_pc s w) hs)) \<and>
     (\<forall>a. am_owning (am_pc s a) \<longleftrightarrow> am_owner s = Some a) \<and>
     am_arrived s = am_granted s @ hs @ rev ss \<and> distinct (hs @ ss) \<and>
     (\<forall>a. am_pc s a = MWaiting \<longleftrightarrow> a \<in> set (hs @ ss)) \<and>
     (\<forall>a p. am_pc s a = MLink p \<longrightarrow> am_next s a = p)"

lemma am_rep_new: "am_rep am_new [] []"
  by (simp add: am_rep_def am_new_def)

lemma am_list_at_upd:
  "a \<notin> set hs \<Longrightarrow> am_list_at (nx(a := q)) h0 st pc hs = am_list_at nx h0 st pc hs"
  by (cases pc) auto

lemma am_list_at_push: "am_list_at nx h0 st pc hs \<Longrightarrow> am_list_at nx h0 (Stack (Some a)) pc hs"
  by (cases pc) auto

lemma am_reverse_chain:
  "chain nx p xs \<Longrightarrow> am_reverse nx acc p = Some (rev_links nx xs acc, if xs = [] then acc else Some (last xs))"
proof (induction xs arbitrary: nx p acc)
  case Nil
  then show ?case by (simp add: am_reverse.simps)
next
  case (Cons a xs)
  have "a \<notin> set xs" using chain_distinct [OF Cons.prems] by simp
  then have "chain (nx(a := acc)) (nx a) xs" using Cons.prems by simp
  from Cons.IH [OF this, of "Some a"] show ?case
    using Cons.prems by (simp add: am_reverse.simps [of nx acc "Some a"] del: fun_upd_apply)
qed

lemma am_owner_state: "am_rep s hs ss \<Longrightarrow> am_owning (am_pc s a) \<Longrightarrow>
  \<exists>p. am_state s = Stack p \<and> chain (am_next s) p ss \<and> am_taken s (am_pc s a) hs \<and> am_owner s = Some a"
  by (auto simp: am_rep_def split: mutex_word.splits)


lemma am_owner_iff: "am_rep s hs ss \<Longrightarrow> am_owner s = Some a \<longleftrightarrow> am_owning (am_pc s a)"
  by (simp add: am_rep_def)

text \<open>Moving an operation between labels that neither own nor wait.\<close>

lemma am_rep_goto:
  assumes rep: "am_rep s hs ss" and "\<not> am_owning (am_pc s a)" "am_pc s a \<noteq> MWaiting"
    and "\<not> am_owning pc" "pc \<noteq> MWaiting" "\<And>p. pc = MLink p \<Longrightarrow> am_next s a = p"
  shows "am_rep (am_goto a pc s) hs ss"
proof -
  have "am_owner s \<noteq> Some a" using am_owner_iff [OF rep, of a] assms(2) by simp
  then have "am_owner s = Some w \<Longrightarrow> w \<noteq> a" for w by auto
  then show ?thesis
    using assms by (auto simp: am_rep_def am_goto_def split: mutex_word.splits)
qed

lemma am_rep_take:
  assumes rep: "am_rep s hs ss" and "am_pc s a \<in> {MTry, MFirst}" and "am_state s = NotLocked"
  shows "am_rep (am_take a s) [] []"
  using assms by (auto simp: am_rep_def am_take_def am_goto_def)

lemma am_rep_not_waiting:
  "am_rep s hs ss \<Longrightarrow> am_pc s a \<noteq> MWaiting \<Longrightarrow> a \<notin> set hs \<and> a \<notin> set ss"
  by (auto simp: am_rep_def)

lemma am_rep_link:
  assumes rep: "am_rep s hs ss" and pc: "am_pc s a = MFirst" and st: "am_state s = Stack p"
  shows "am_rep (am_goto a (MLink p) (s\<lparr>am_next := (am_next s)(a := p)\<rparr>)) hs ss"
proof -
  have a: "a \<notin> set hs" "a \<notin> set ss" using am_rep_not_waiting [OF rep, of a] pc by auto
  have "am_owner s \<noteq> Some a" using am_owner_iff [OF rep, of a] pc by simp
  then have "am_owner s = Some w \<Longrightarrow> w \<noteq> a" for w by auto
  then show ?thesis
    using rep pc st a by (auto simp: am_rep_def am_goto_def am_list_at_upd)
qed

lemma am_rep_start_second:
  assumes rep: "am_rep s hs ss" and pc: "am_pc s a = MLink old" and st: "am_state s = Stack old"
  shows "am_rep (am_start_second False a old s) hs (a # ss)"
proof -
  have a: "a \<notin> set hs" "a \<notin> set ss" using am_rep_not_waiting [OF rep, of a] pc by auto
  have nx: "am_next s a = old" using rep pc by (simp add: am_rep_def)
  have "am_owner s \<noteq> Some a" using am_owner_iff [OF rep, of a] pc by simp
  then have "am_owner s = Some w \<Longrightarrow> w \<noteq> a" for w by auto
  then show ?thesis
    using rep pc st a nx
    by (auto simp: am_rep_def am_start_second_def am_goto_def intro: am_list_at_push)
qed

text \<open>The owner moves on; nothing else changes.\<close>

lemma am_rep_owner_goto:
  assumes rep: "am_rep s hs ss" and "am_owning (am_pc s a)" "am_owning pc" "am_taken s pc hs"
  shows "am_rep (am_goto a pc s) hs ss"
proof -
  have "am_pc s a \<noteq> MWaiting" "pc \<noteq> MWaiting" "\<And>p. pc \<noteq> MLink p" using assms(2,3) by auto
  moreover from this have "a \<notin> set hs" "a \<notin> set ss" using am_rep_not_waiting [OF rep] by auto
  ultimately show ?thesis
    using assms am_owner_state [OF assms(1,2)] by (auto simp: am_rep_def am_goto_def)
qed

lemma am_rep_unlock_load:
  assumes rep: "am_rep s hs ss" and pc: "am_pc s a = MUnlock"
  shows "am_rep (am_unlock_load a s) hs ss"
proof -
  have "am_taken s MUnlock hs" using am_owner_state [OF rep, of a] pc by auto
  then show ?thesis
    using pc rep by (auto simp: am_unlock_load_def split: option.split intro!: am_rep_owner_goto)
qed

lemma am_rep_unlock_release:
  assumes rep: "am_rep s hs ss" and pc: "am_pc s a = MRelease"
  shows "am_rep (am_unlock_release a s) hs ss"
proof -
  obtain p where o: "am_state s = Stack p" "chain (am_next s) p ss" "am_taken s MRelease hs"
    "am_owner s = Some a"
    using am_owner_state [OF rep, of a] pc by auto
  show ?thesis
  proof (cases "p = None")
    case True
    then have "ss = []" using o(2) by simp
    then show ?thesis
      using rep o pc True by (auto simp: am_unlock_release_def am_rep_def am_goto_def)
  next
    case False
    then show ?thesis
      using rep o pc by (auto simp: am_unlock_release_def intro!: am_rep_owner_goto)
  qed
qed

lemma am_rep_unlock_exchange:
  assumes rep: "am_rep s hs ss" and pc: "am_pc s a = MExchange"
  shows "am_rep (am_unlock_exchange a s) (rev ss) []"
proof -
  obtain p where o: "am_state s = Stack p" "chain (am_next s) p ss" "am_taken s MExchange hs"
    "am_owner s = Some a"
    using am_owner_state [OF rep, of a] pc by auto
  have ne: "ss \<noteq> []" using o by auto
  have d: "distinct ss" by (rule chain_distinct [OF o(2)])
  have r: "am_reverse (am_next s) None p = Some (rev_links (am_next s) ss None, Some (last ss))"
    using am_reverse_chain [OF o(2)] ne by simp
  have ch: "chain (rev_links (am_next s) ss None) (Some (last ss)) (rev ss)"
    using rev_links_chain [of ss "[]" "am_next s" None] d ne by simp
  have "rev_links (am_next s) ss None b = q" if "am_pc s b = MLink q" for b q
    using am_rep_not_waiting [OF rep, of b] that rep by (simp add: am_rep_def)
  then show ?thesis
    using rep o pc r ch ne by (auto simp: am_unlock_exchange_def am_rep_def am_goto_def)
qed

lemma am_rep_unlock_store:
  assumes rep: "am_rep s hs ss" and pc: "am_pc s a = MStore h"
  shows "am_rep (am_unlock_store a h s) hs ss"
proof -
  obtain p where o: "am_state s = Stack p" "chain (am_next s) p ss" "am_taken s (MStore h) hs"
    "am_owner s = Some a"
    using am_owner_state [OF rep, of a] pc by auto
  then obtain x rest where h: "h = Some x" "hs = x # rest" "chain (am_next s) (am_next s x) rest"
    by (cases hs) auto
  then have "am_pc s x = MWaiting" using rep by (simp add: am_rep_def)
  then have "x \<noteq> a" using pc by auto
  then show ?thesis
    using rep o pc h by (auto simp: am_unlock_store_def am_rep_def am_goto_def)
qed

lemma am_rep_unlock_complete:
  assumes rep: "am_rep s hs ss" and pc: "am_pc s a = MComplete h"
  shows "am_rep (am_unlock_complete a h s) (tl hs) ss"
proof -
  obtain p where o: "am_state s = Stack p" "chain (am_next s) p ss" "am_taken s (MComplete h) hs"
    "am_owner s = Some a"
    using am_owner_state [OF rep, of a] pc by auto
  then obtain rest where h: "hs = h # rest" "chain (am_next s) (am_head s) rest" by auto
  then have "am_pc s h = MWaiting" using rep by (simp add: am_rep_def)
  then have ha: "h \<noteq> a" using pc by auto
  show ?thesis
    using rep o pc h ha by (auto simp: am_unlock_complete_def am_rep_def am_goto_def)
qed

lemma am_step_rep:
  assumes "am_step s t" and "am_rep s hs ss"
  shows "\<exists>hs' ss'. am_rep t hs' ss'"
  using assms(1)
proof cases
  case (begin_try a)
  then show ?thesis using am_rep_goto [OF assms(2), of a MTry] by auto
next
  case (begin_start a)
  then show ?thesis using am_rep_goto [OF assms(2), of a MFirst] by auto
next
  case (try_lock a)
  then show ?thesis
    using am_rep_goto [OF assms(2), of a MFailed] am_rep_take [OF assms(2), of a]
    by (auto simp: am_try_lock_def)
next
  case (start_first a)
  then show ?thesis
    using am_rep_take [OF assms(2), of a] am_rep_link [OF assms(2), of a]
    by (auto simp: am_start_first_def split: mutex_word.split)
next
  case (start_second a old spurious)
  show ?thesis
  proof (cases "am_state s = Stack old \<and> \<not> spurious")
    case True
    then show ?thesis using am_rep_start_second [OF assms(2)] start_second by auto
  next
    case False
    then show ?thesis
      using am_rep_goto [OF assms(2), of a MFirst] start_second by (auto simp: am_start_second_def)
  qed
next
  case (begin_unlock a)
  then show ?thesis
    using am_rep_owner_goto [OF assms(2), of a MUnlock] am_owner_state [OF assms(2), of a] by auto
qed (use am_rep_unlock_load [OF assms(2)] am_rep_unlock_release [OF assms(2)]
  am_rep_unlock_exchange [OF assms(2)] am_rep_unlock_store [OF assms(2)]
  am_rep_unlock_complete [OF assms(2)] in blast)+

lemma am_reachable_rep: "am_reachable s \<Longrightarrow> \<exists>hs ss. am_rep s hs ss"
proof (induction rule: am_reachable.induct)
  case new
  then show ?case using am_rep_new by blast
qed (blast intro: am_step_rep)

section \<open>Properties\<close>

text \<open>Every interleaving starts with some operation that takes the free mutex; a second one waits.\<close>

definition am_demo :: async_mutex where
  "am_demo = am_start_second False 8 None (am_start_first 8 (am_goto 8 MFirst
     (am_start_first 7 (am_goto 7 MFirst am_new))))"

lemma am_demo_reachable: "am_reachable am_demo"
  unfolding am_demo_def
  by (intro am_reachable.step [OF _ am_step.start_second] am_reachable.step [OF _ am_step.start_first]
      am_reachable.step [OF _ am_step.begin_start] am_reachable.new)
    (simp_all add: am_action_defs am_new_def)

text \<open>C7. Mutual exclusion and first come, first served: in every interleaving of lock, try_lock and
  unlock calls at most one operation owns the mutex, and the operations that received it are, in
  order, the first ones of those that took effect on \<open>state_\<close>; no null pointer is followed, and the
  reversal loop of \<open>unlock\<close> returns.\<close>

theorem async_mutex_exclusive_fifo:
  assumes "am_reachable s"
  shows "(am_owning (am_pc s a) \<and> am_owning (am_pc s b) \<longrightarrow> a = b) \<and>
    (\<exists>rest. am_arrived s = am_granted s @ rest) \<and> \<not> am_fault s"
  using am_reachable_rep [OF assms] by (auto simp: am_rep_def)

theorem async_mutex_exclusive_fifo_witness:
  "am_arrived am_demo = [7, 8] \<and> am_pc am_demo 7 = MHolding \<and> \<not> am_owning (am_pc am_demo 8)"
proof -
  have "am_arrived am_demo = [7, 8]" "am_pc am_demo 7 = MHolding"
    by (simp_all add: am_demo_def am_action_defs am_new_def)
  then show ?thesis using async_mutex_exclusive_fifo [OF am_demo_reachable, of 7 8] by auto
qed

text \<open>C8. No waiter is lost: the operations that arrived and have not been granted the mutex are
  exactly those that wait, and while there is one the mutex has an owner, whose \<open>unlock\<close> will hand it
  over; a free mutex has no waiters.\<close>

theorem async_mutex_no_lost_waiter:
  assumes "am_reachable s"
  shows "\<exists>ws. am_arrived s = am_granted s @ ws \<and> distinct ws \<and>
    (\<forall>a. am_pc s a = MWaiting \<longleftrightarrow> a \<in> set ws) \<and>
    (am_state s = NotLocked \<longrightarrow> ws = []) \<and>
    (am_state s \<noteq> NotLocked \<longrightarrow> (\<exists>a. am_owning (am_pc s a)))"
proof -
  obtain hs ss where r: "am_rep s hs ss" using am_reachable_rep [OF assms] by blast
  show ?thesis
    by (rule exI [of _ "hs @ rev ss"]) (use r in \<open>auto simp: am_rep_def split: mutex_word.splits\<close>)
qed

theorem async_mutex_no_lost_waiter_witness:
  "\<exists>ws. am_arrived am_demo = am_granted am_demo @ ws \<and> (8 \<in> set ws) \<and>
    (\<exists>a. am_owning (am_pc am_demo a))"
proof -
  have "am_state am_demo \<noteq> NotLocked" "am_pc am_demo 8 = MWaiting"
    by (simp_all add: am_demo_def am_action_defs am_new_def)
  then show ?thesis using async_mutex_no_lost_waiter [OF am_demo_reachable] by metis
qed

section \<open>The lock guard\<close>

text \<open>
  \<open>async_unique_lock\<close>: a mutex pointer and a flag. \<open>locked\<close> is what the mutex answers to \<open>try_lock\<close>; the
  second component of a result says whether \<open>unlock\<close> was called on the mutex.
\<close>

record unique_lock =
  ul_mtx :: ptr
  ul_owned :: bool

definition ul_none :: unique_lock where
  "ul_none = \<lparr>ul_mtx = None, ul_owned = False\<rparr>"

definition ul_adopt :: "addr \<Rightarrow> unique_lock" where
  "ul_adopt m = \<lparr>ul_mtx = Some m, ul_owned = True\<rparr>"

definition ul_defer :: "addr \<Rightarrow> unique_lock" where
  "ul_defer m = \<lparr>ul_mtx = Some m, ul_owned = False\<rparr>"

definition ul_try :: "addr \<Rightarrow> bool \<Rightarrow> unique_lock" where
  "ul_try m locked = \<lparr>ul_mtx = Some m, ul_owned = locked\<rparr>"

text \<open>Move construction: the new guard and what is left of the old one.\<close>

definition ul_move :: "unique_lock \<Rightarrow> unique_lock \<times> unique_lock" where
  "ul_move u = (u, ul_none)"

definition ul_validate :: "unique_lock \<Rightarrow> error + unit" where
  "ul_validate u = (if ul_mtx u = None then Inl AssertFailed
     else if ul_owned u then Inl AssertFailed else Inr ())"

text \<open>\<open>lock\<close>: the continuation that runs when the mutex has been acquired.\<close>

definition ul_lock :: "unique_lock \<Rightarrow> error + unique_lock" where
  "ul_lock u = (case ul_validate u of Inl e \<Rightarrow> Inl e | Inr _ \<Rightarrow> Inr (u\<lparr>ul_owned := True\<rparr>))"

definition ul_try_lock :: "bool \<Rightarrow> unique_lock \<Rightarrow> error + (bool \<times> unique_lock)" where
  "ul_try_lock locked u =
     (case ul_validate u of Inl e \<Rightarrow> Inl e | Inr _ \<Rightarrow> Inr (locked, u\<lparr>ul_owned := locked\<rparr>))"

definition ul_unlock :: "unique_lock \<Rightarrow> error + (addr \<times> unique_lock)" where
  "ul_unlock u =
     (case ul_mtx u of
        None \<Rightarrow> Inl AssertFailed
      | Some m \<Rightarrow> if \<not> ul_owned u then Inl AssertFailed else Inr (m, u\<lparr>ul_owned := False\<rparr>))"

text \<open>The destructor: the mutex to unlock, if any.\<close>

definition ul_destroy :: "unique_lock \<Rightarrow> error + ptr" where
  "ul_destroy u =
     (if ul_owned u then (case ul_mtx u of None \<Rightarrow> Inl AssertFailed | Some m \<Rightarrow> Inr (Some m))
      else Inr None)"

definition ul_assign :: "unique_lock \<Rightarrow> unique_lock \<Rightarrow> error + (unique_lock \<times> ptr)" where
  "ul_assign u other = (case ul_destroy u of Inl e \<Rightarrow> Inl e | Inr p \<Rightarrow> Inr (other, p))"

definition ul_release :: "unique_lock \<Rightarrow> ptr \<times> unique_lock" where
  "ul_release u = (ul_mtx u, u\<lparr>ul_owned := False, ul_mtx := None\<rparr>)"

end
