(* ===== verification/Waiter_List.thy ===== *)
theory Waiter_List
  imports Prelude
begin

text \<open>
  Doubly linked lists of waiting operations, as \<open>async_semaphore\<close> (\<open>include/coio/sync_primitives.h\<close>) keeps them
  under its lock: appending at the tail, popping the head, and taking a waiter out of the middle when it is
  cancelled. A waiter is in the list if its \<open>prev_\<close> is not null or it is the head.
\<close>

record waiter_list =
  wt_prev :: links
  wt_next :: links
  wt_head :: ptr
  wt_tail :: ptr

definition wt_empty :: waiter_list where
  "wt_empty = \<lparr>wt_prev = (\<lambda>_. None), wt_next = (\<lambda>_. None), wt_head = None, wt_tail = None\<rparr>"

text \<open>\<open>start\<close>, when the counter is zero.\<close>

definition wt_append :: "addr \<Rightarrow> waiter_list \<Rightarrow> waiter_list" where
  "wt_append a w =
     (let w = w\<lparr>wt_prev := (wt_prev w)(a := wt_tail w), wt_tail := Some a\<rparr>;
          w = w\<lparr>wt_next := (wt_next w)(a := None)\<rparr>
      in case wt_prev w a of
           Some p \<Rightarrow> w\<lparr>wt_next := (wt_next w)(p := Some a)\<rparr>
         | None \<Rightarrow> w\<lparr>wt_head := Some a\<rparr>)"

text \<open>\<open>release\<close>, when there is a waiter.\<close>

definition wt_pop :: "addr \<Rightarrow> waiter_list \<Rightarrow> waiter_list" where
  "wt_pop h w =
     (let w = w\<lparr>wt_head := wt_next w h\<rparr>;
          w = (case wt_head w of
                 Some n \<Rightarrow> w\<lparr>wt_prev := (wt_prev w)(n := None)\<rparr>
               | None \<Rightarrow> w\<lparr>wt_tail := None\<rparr>)
      in w\<lparr>wt_prev := (wt_prev w)(h := None), wt_next := (wt_next w)(h := None)\<rparr>)"

definition wt_unregister :: "addr \<Rightarrow> waiter_list \<Rightarrow> bool \<times> waiter_list" where
  "wt_unregister a w =
     (let found = (wt_prev w a \<noteq> None \<or> wt_head w = Some a);
          w1 = (case wt_prev w a of
                  Some p \<Rightarrow> w\<lparr>wt_next := (wt_next w)(p := wt_next w a)\<rparr>
                | None \<Rightarrow> w\<lparr>wt_head := wt_next w a\<rparr>);
          w2 = (case wt_next w1 a of
                  Some n \<Rightarrow> w1\<lparr>wt_prev := (wt_prev w1)(n := wt_prev w1 a)\<rparr>
                | None \<Rightarrow> w1\<lparr>wt_tail := wt_prev w1 a\<rparr>)
      in if \<not> found then (False, w)
         else (True, w2\<lparr>wt_prev := (wt_prev w2)(a := None), wt_next := (wt_next w2)(a := None)\<rparr>))"

text \<open>\<open>wt_rep w xs\<close>: both directions of the list show the waiters \<open>xs\<close>; others have a null \<open>prev_\<close>.\<close>

definition wt_rep :: "waiter_list \<Rightarrow> addr list \<Rightarrow> bool" where
  "wt_rep w xs \<longleftrightarrow> chain (wt_next w) (wt_head w) xs \<and> chain (wt_prev w) (wt_tail w) (rev xs) \<and>
     (\<forall>a. a \<notin> set xs \<longrightarrow> wt_prev w a = None)"

lemma wt_rep_empty: "wt_rep wt_empty []"
  by (simp add: wt_rep_def wt_empty_def)

lemma wt_rep_distinct: "wt_rep w xs \<Longrightarrow> distinct xs"
  by (auto simp: wt_rep_def dest: chain_distinct)

lemma wt_rep_tail: "wt_rep w xs \<Longrightarrow> wt_tail w = (if xs = [] then None else Some (last xs))"
  by (cases xs rule: rev_cases) (auto simp: wt_rep_def)

lemma wt_rep_head: "wt_rep w xs \<Longrightarrow> wt_head w = (if xs = [] then None else Some (hd xs))"
  by (cases xs) (auto simp: wt_rep_def)

lemma wt_rep_append:
  assumes rep: "wt_rep w xs" and a: "a \<notin> set xs"
  shows "wt_rep (wt_append a w) (xs @ [a])"
proof (cases "xs = []")
  case True
  then show ?thesis using rep by (auto simp: wt_rep_def wt_append_def Let_def)
next
  case False
  have t: "wt_tail w = Some (last xs)" using wt_rep_tail [OF rep] False by simp
  have "chain ((wt_next w)(a := None)) (wt_head w) xs" "chain ((wt_next w)(a := None)) (Some a) [a]"
    using rep a by (auto simp: wt_rep_def)
  then have "chain ((wt_next w)(a := None, last xs := Some a)) (wt_head w) (xs @ [a])"
    using a False by (intro chain_join) auto
  then show ?thesis
    using rep a t by (auto simp: wt_rep_def wt_append_def Let_def)
qed

lemma wt_rep_split:
  assumes rep: "wt_rep w (us @ a # vs)"
  shows "wt_prev w a = (if us = [] then None else Some (last us))"
    "wt_next w a = (if vs = [] then None else Some (hd vs))"
proof -
  have "chain (wt_prev w) (wt_prev w a) (rev us)" "chain (wt_next w) (wt_next w a) vs"
    using rep by (auto simp: wt_rep_def seg_append)
  then show "wt_prev w a = (if us = [] then None else Some (last us))"
    "wt_next w a = (if vs = [] then None else Some (hd vs))"
    by (cases us rule: rev_cases; auto) (cases vs; use \<open>chain (wt_next w) (wt_next w a) vs\<close> in auto)
qed

text \<open>Taking an object out of a chain: its predecessor (or the anchor) skips it.\<close>

lemma chain_remove:
  assumes ch: "chain nx p (us @ a # vs)"
  shows "chain ((if us = [] then nx else nx(last us := nx a))(a := q))
    (if us = [] then nx a else p) (us @ vs)"
proof -
  have d: "distinct (us @ a # vs)" by (rule chain_distinct [OF ch])
  obtain r where r: "seg nx p us r" "r = Some a" "chain nx (nx a) vs"
    using ch by (auto simp: seg_append)
  show ?thesis
  proof (cases us rule: rev_cases)
    case Nil
    then show ?thesis using r d by simp
  next
    case (snoc ts b)
    have "seg nx p ts (Some b)" using r(1) snoc by (simp add: seg_append)
    then have "seg (nx(b := nx a, a := q)) p ts (Some b)" using d snoc by (simp del: fun_upd_apply)
    moreover have "chain (nx(b := nx a, a := q)) (nx a) vs" using r(3) d snoc by (simp del: fun_upd_apply)
    ultimately show ?thesis using snoc d by (auto simp: seg_append)
  qed
qed

lemma wt_rep_unregister:
  assumes rep: "wt_rep w (us @ a # vs)"
  shows "\<exists>w'. wt_unregister a w = (True, w') \<and> wt_rep w' (us @ vs)"
proof -
  note s = wt_rep_split [OF rep]
  have d: "distinct (us @ a # vs)" by (rule wt_rep_distinct [OF rep])
  have hd: "wt_head w = Some (hd (us @ [a]))" using wt_rep_head [OF rep] by (cases us) auto
  have tl: "wt_tail w = Some (last (a # vs))" using wt_rep_tail [OF rep] by simp
  have nx: "chain ((if us = [] then wt_next w else (wt_next w)(last us := wt_next w a))(a := None))
      (if us = [] then wt_next w a else wt_head w) (us @ vs)"
    by (rule chain_remove) (use rep in \<open>simp add: wt_rep_def\<close>)
  have pv: "chain ((if vs = [] then wt_prev w else (wt_prev w)(hd vs := wt_prev w a))(a := None))
      (if vs = [] then wt_prev w a else wt_tail w) (rev (us @ vs))"
    using chain_remove [of "wt_prev w" "wt_tail w" "rev vs" a "rev us" None] rep
    by (cases vs) (simp_all add: wt_rep_def)
  have out: "b \<notin> set (us @ a # vs) \<Longrightarrow> wt_prev w b = None" for b
    using rep by (simp add: wt_rep_def)
  show ?thesis
  proof (cases "us = []"; cases "vs = []")
    assume "us = []" "vs = []"
    then show ?thesis using s nx pv out hd by (auto simp: wt_unregister_def wt_rep_def Let_def)
  next
    assume "us = []" "vs \<noteq> []"
    then show ?thesis using s nx pv out hd by (auto simp: wt_unregister_def wt_rep_def Let_def)
  next
    assume "us \<noteq> []" "vs = []"
    then show ?thesis using s nx pv out d by (auto simp: wt_unregister_def wt_rep_def Let_def)
  next
    assume "us \<noteq> []" "vs \<noteq> []"
    moreover from this have "last us \<noteq> a" using d by auto
    ultimately show ?thesis using s nx pv out d by (auto simp: wt_unregister_def wt_rep_def Let_def)
  qed
qed

lemma wt_rep_unregister_absent:
  assumes "wt_rep w xs" "a \<notin> set xs"
  shows "wt_unregister a w = (False, w)"
proof -
  have "wt_head w \<noteq> Some a" using wt_rep_head [OF assms(1)] assms(2) by (cases xs) auto
  then show ?thesis using assms by (simp add: wt_unregister_def wt_rep_def Let_def)
qed

lemma wt_pop_unregister:
  assumes "wt_rep w (h # xs)"
  shows "wt_pop h w = snd (wt_unregister h w)"
proof -
  have "wt_prev w h = None" "wt_head w = Some h"
    using wt_rep_split(1) [of w "[]" h xs] wt_rep_head [OF assms] assms by auto
  then show ?thesis
    by (auto simp: wt_pop_def wt_unregister_def Let_def split: option.split)
qed

lemma wt_rep_pop: "wt_rep w (h # xs) \<Longrightarrow> wt_rep (wt_pop h w) xs"
  using wt_rep_unregister [of w "[]" h xs] wt_pop_unregister by force

end
