(* ===== verification/Async_Semaphore.thy ===== *)
theory Async_Semaphore
  imports Waiter_List
begin

text \<open>
  \<open>async_semaphore\<close> of \<open>include/coio/sync_primitives.h\<close>: an atomic counter and the list of waiters of
  \<open>Waiter_List\<close>, guarded by \<open>mtx_\<close>. Releasing, queuing and unregistering are critical sections, each with at
  most one access to the counter, so they are single transitions; \<open>try_acquire\<close> is one atomic update
  of the counter without the lock. Every acquire operation has a stop callback, which runs at most
  once and which \<open>stop_cb_.reset()\<close> waits for.

  The counter is an integer: \<open>CountType\<close> may be signed or not, and the invariant below keeps it
  between zero and \<open>LeastMaxValue\<close>, so that neither \<open>current - 1\<close> nor \<open>current + 1\<close> wraps.
\<close>

section \<open>The semaphore\<close>

datatype acquire_pc =
    QIdle
  | QChecked        \<comment> \<open>\<open>start\<close>: the token was not stopped; register the callback\<close>
  | QRegistered     \<comment> \<open>\<open>start\<close>: the critical section\<close>
  | QWaiting        \<comment> \<open>in the list\<close>
  | QGranted        \<comment> \<open>\<open>complete\<close>: reset the callback, \<open>set_value\<close>\<close>
  | QStopping       \<comment> \<open>\<open>start\<close>: reset the callback, \<open>set_stopped\<close>\<close>
  | QDone

datatype callback_pc = CbNone | CbArmed | CbRunning

datatype acquire_result = AcqValue | AcqStopped

record semaphore =
  sm_counter :: int
  sm_waiters :: waiter_list
  sm_pc :: "addr \<Rightarrow> acquire_pc"
  sm_cb :: "addr \<Rightarrow> callback_pc"
  sm_stop :: "addr \<Rightarrow> bool"
  sm_log :: "(addr \<times> acquire_result) list"
  sm_grants :: nat
  sm_releases :: nat
  sm_terminated :: bool

definition sm_new :: "int \<Rightarrow> semaphore" where
  "sm_new init = \<lparr>sm_counter = init, sm_waiters = wt_empty, sm_pc = (\<lambda>_. QIdle),
     sm_cb = (\<lambda>_. CbNone), sm_stop = (\<lambda>_. False), sm_log = [], sm_grants = 0, sm_releases = 0,
     sm_terminated = False\<rparr>"

definition sm_goto :: "addr \<Rightarrow> acquire_pc \<Rightarrow> semaphore \<Rightarrow> semaphore" where
  "sm_goto a pc s = s\<lparr>sm_pc := (sm_pc s)(a := pc)\<rparr>"

definition sm_complete :: "addr \<Rightarrow> acquire_result \<Rightarrow> semaphore \<Rightarrow> semaphore" where
  "sm_complete a r s = sm_goto a QDone (s\<lparr>sm_cb := (sm_cb s)(a := CbNone), sm_log := sm_log s @ [(a, r)]\<rparr>)"

text \<open>\<open>try_acquire\<close>; \<open>sm_grants\<close> counts the units handed out.\<close>

definition sm_try_acquire :: "semaphore \<Rightarrow> bool \<times> semaphore" where
  "sm_try_acquire s =
     (if sm_counter s \<le> 0 then (False, s)
      else (True, s\<lparr>sm_counter := sm_counter s - 1, sm_grants := sm_grants s + 1\<rparr>))"

definition sm_start :: "addr \<Rightarrow> semaphore \<Rightarrow> semaphore" where
  "sm_start a s = (if sm_stop s a then sm_complete a AcqStopped s else sm_goto a QChecked s)"

text \<open>Registering the callback runs it at once when stop has been requested in between.\<close>

definition sm_emplace :: "addr \<Rightarrow> semaphore \<Rightarrow> semaphore" where
  "sm_emplace a s =
     sm_goto a QRegistered (s\<lparr>sm_cb := (sm_cb s)(a := if sm_stop s a then CbRunning else CbArmed)\<rparr>)"

definition sm_start_locked :: "addr \<Rightarrow> semaphore \<Rightarrow> semaphore" where
  "sm_start_locked a s =
     (if sm_stop s a then sm_goto a QStopping s
      else
        (case sm_try_acquire s of
           (True, s) \<Rightarrow> sm_goto a QGranted s
         | (False, s) \<Rightarrow> sm_goto a QWaiting (s\<lparr>sm_waiters := wt_append a (sm_waiters s)\<rparr>)))"

definition sm_request_stop :: "addr \<Rightarrow> semaphore \<Rightarrow> semaphore" where
  "sm_request_stop a s =
     (if sm_stop s a then s
      else s\<lparr>sm_stop := (sm_stop s)(a := True),
        sm_cb := (sm_cb s)(a := if sm_cb s a = CbArmed then CbRunning else sm_cb s a)\<rparr>)"

definition sm_on_stop_requested :: "addr \<Rightarrow> semaphore \<Rightarrow> semaphore" where
  "sm_on_stop_requested a s =
     (case wt_unregister a (sm_waiters s) of
        (True, w) \<Rightarrow> sm_complete a AcqStopped (s\<lparr>sm_waiters := w\<rparr>)
      | (False, w) \<Rightarrow> s\<lparr>sm_waiters := w, sm_cb := (sm_cb s)(a := CbNone)\<rparr>)"

definition sm_release :: "int \<Rightarrow> semaphore \<Rightarrow> semaphore" where
  "sm_release max_count s =
     (case wt_head (sm_waiters s) of
        Some h \<Rightarrow> sm_goto h QGranted (s\<lparr>sm_waiters := wt_pop h (sm_waiters s),
          sm_grants := sm_grants s + 1, sm_releases := sm_releases s + 1\<rparr>)
      | None \<Rightarrow>
          if sm_counter s = max_count then s\<lparr>sm_terminated := True\<rparr>
          else s\<lparr>sm_counter := sm_counter s + 1, sm_releases := sm_releases s + 1\<rparr>)"

inductive sm_step :: "int \<Rightarrow> semaphore \<Rightarrow> semaphore \<Rightarrow> bool" for max_count where
  try_acquire: "sm_step max_count s (snd (sm_try_acquire s))"
| release: "\<not> sm_terminated s \<Longrightarrow> sm_step max_count s (sm_release max_count s)"
| request_stop: "sm_step max_count s (sm_request_stop a s)"
| start: "sm_pc s a = QIdle \<Longrightarrow> sm_step max_count s (sm_start a s)"
| emplace: "sm_pc s a = QChecked \<Longrightarrow> sm_step max_count s (sm_emplace a s)"
| start_locked: "sm_pc s a = QRegistered \<Longrightarrow> sm_step max_count s (sm_start_locked a s)"
| on_stop_requested: "sm_cb s a = CbRunning \<Longrightarrow> sm_step max_count s (sm_on_stop_requested a s)"
| complete: "sm_pc s a = QGranted \<Longrightarrow> sm_cb s a \<noteq> CbRunning \<Longrightarrow>
    sm_step max_count s (sm_complete a AcqValue s)"
| stopping: "sm_pc s a = QStopping \<Longrightarrow> sm_cb s a \<noteq> CbRunning \<Longrightarrow>
    sm_step max_count s (sm_complete a AcqStopped s)"

inductive sm_reachable :: "int \<Rightarrow> int \<Rightarrow> semaphore \<Rightarrow> bool" for max_count init where
  new: "sm_reachable max_count init (sm_new init)"
| step: "sm_reachable max_count init s \<Longrightarrow> sm_step max_count s t \<Longrightarrow> sm_reachable max_count init t"

lemmas sm_action_defs = sm_goto_def sm_complete_def sm_try_acquire_def sm_start_def sm_emplace_def
  sm_start_locked_def sm_request_stop_def sm_on_stop_requested_def sm_release_def

section \<open>The invariant\<close>

definition sm_counts :: "int \<Rightarrow> int \<Rightarrow> semaphore \<Rightarrow> addr list \<Rightarrow> bool" where
  "sm_counts max_count init s xs \<longleftrightarrow> 0 \<le> sm_counter s \<and> sm_counter s \<le> max_count \<and>
     (xs \<noteq> [] \<longrightarrow> sm_counter s = 0) \<and>
     sm_counter s + int (sm_grants s) = init + int (sm_releases s)"

text \<open>What is true of one operation, from its label, its callback, its token, and whether it is in the
  list and has completed.\<close>

definition sm_op_ok :: "acquire_pc \<Rightarrow> callback_pc \<Rightarrow> bool \<Rightarrow> bool \<Rightarrow> bool \<Rightarrow> bool" where
  "sm_op_ok pc cb stopped listed logged \<longleftrightarrow>
     (pc = QWaiting) = listed \<and> (pc = QDone) = logged \<and>
     (cb = CbRunning \<longrightarrow> stopped) \<and>
     (pc \<in> {QIdle, QChecked, QDone} \<longrightarrow> cb = CbNone) \<and>
     (pc \<in> {QRegistered, QWaiting} \<longrightarrow> \<not> stopped \<longrightarrow> cb = CbArmed) \<and>
     (pc = QWaiting \<longrightarrow> stopped \<longrightarrow> cb = CbRunning)"

abbreviation sm_ok :: "semaphore \<Rightarrow> addr list \<Rightarrow> addr \<Rightarrow> bool" where
  "sm_ok s xs a \<equiv>
     sm_op_ok (sm_pc s a) (sm_cb s a) (sm_stop s a) (a \<in> set xs) (a \<in> fst ` set (sm_log s))"

definition sm_labels :: "semaphore \<Rightarrow> addr list \<Rightarrow> bool" where
  "sm_labels s xs \<longleftrightarrow>
     wt_rep (sm_waiters s) xs \<and> distinct (map fst (sm_log s)) \<and> (\<forall>a. sm_ok s xs a)"

lemma sm_labelsD:
  assumes "sm_labels s xs"
  shows "wt_rep (sm_waiters s) xs" "distinct (map fst (sm_log s))" "sm_ok s xs a"
  using assms by (simp_all add: sm_labels_def)

lemma sm_labels_waiting: "sm_labels s xs \<Longrightarrow> sm_pc s a = QWaiting \<longleftrightarrow> a \<in> set xs"
  using sm_labelsD(3) [of s xs a] by (simp add: sm_op_ok_def)

lemma sm_labels_done: "sm_labels s xs \<Longrightarrow> sm_pc s a = QDone \<longleftrightarrow> a \<in> fst ` set (sm_log s)"
  using sm_labelsD(3) [of s xs a] by (simp add: sm_op_ok_def)

text \<open>A transition of operation \<open>a\<close> has to be checked for \<open>a\<close> only.\<close>

lemma sm_labelsI:
  assumes l: "sm_labels s xs" and "wt_rep (sm_waiters t) ys" "distinct (map fst (sm_log t))"
    and "\<And>b. b \<noteq> a \<Longrightarrow> sm_pc t b = sm_pc s b \<and> sm_cb t b = sm_cb s b \<and> sm_stop t b = sm_stop s b \<and>
      (b \<in> set ys \<longleftrightarrow> b \<in> set xs) \<and> (b \<in> fst ` set (sm_log t) \<longleftrightarrow> b \<in> fst ` set (sm_log s))"
    and "sm_ok t ys a"
  shows "sm_labels t ys"
  unfolding sm_labels_def
proof (intro conjI allI)
  fix b
  show "sm_ok t ys b"
    using assms(4) [of b] assms(5) sm_labelsD(3) [OF l, of b] by (cases "b = a") auto
qed (use assms(2,3) in auto)

lemma sm_labels_new: "sm_labels (sm_new init) []"
  by (simp add: sm_labels_def sm_new_def wt_rep_empty sm_op_ok_def)

lemma sm_labels_try: "sm_labels (snd (sm_try_acquire s)) xs = sm_labels s xs"
  by (simp add: sm_labels_def sm_try_acquire_def)

lemma sm_counts_try: "sm_counts m i s xs \<Longrightarrow> sm_counts m i (snd (sm_try_acquire s)) xs"
  by (auto simp: sm_counts_def sm_try_acquire_def)

lemma sm_labels_request_stop:
  assumes "sm_labels s xs"
  shows "sm_labels (sm_request_stop a s) xs"
  by (rule sm_labelsI [OF assms, of _ _ a])
    (use sm_labelsD(1,2) [OF assms] sm_labelsD(3) [OF assms, of a] in \<open>auto simp: sm_request_stop_def sm_op_ok_def\<close>)

lemma sm_labels_start:
  assumes "sm_labels s xs" "sm_pc s a = QIdle"
  shows "sm_labels (sm_start a s) xs"
  by (rule sm_labelsI [OF assms(1), of _ _ a])
    (use sm_labelsD(1,2) [OF assms(1)] sm_labelsD(3) [OF assms(1), of a] assms(2) in
      \<open>auto simp: sm_start_def sm_goto_def sm_complete_def sm_op_ok_def\<close>)

lemma sm_labels_emplace:
  assumes "sm_labels s xs" "sm_pc s a = QChecked"
  shows "sm_labels (sm_emplace a s) xs"
  by (rule sm_labelsI [OF assms(1), of _ _ a])
    (use sm_labelsD(1,2) [OF assms(1)] sm_labelsD(3) [OF assms(1), of a] assms(2) in \<open>auto simp: sm_emplace_def sm_goto_def sm_op_ok_def\<close>)

lemma sm_labels_start_locked:
  assumes l: "sm_labels s xs" and pc: "sm_pc s a = QRegistered"
  shows "sm_labels (sm_start_locked a s)
    (if \<not> sm_stop s a \<and> sm_counter s \<le> 0 then xs @ [a] else xs)"
proof -
  note ok = sm_labelsD(3) [OF l, of a]
  have "a \<notin> set xs" using sm_labels_waiting [OF l, of a] pc by simp
  then have w: "wt_rep (wt_append a (sm_waiters s)) (xs @ [a])"
    using sm_labelsD(1) [OF l] by (rule wt_rep_append [rotated])
  consider "sm_stop s a" | "\<not> sm_stop s a" "sm_counter s \<le> 0" | "\<not> sm_stop s a" "\<not> sm_counter s \<le> 0"
    by blast
  then show ?thesis
  proof cases
    case 1
    then show ?thesis using ok pc sm_labelsD(1,2) [OF l]
      by (simp add: sm_start_locked_def) (rule sm_labelsI [OF l, of _ _ a]; simp add: sm_goto_def sm_op_ok_def)
  next
    case 2
    let ?t = "sm_goto a QWaiting (s\<lparr>sm_waiters := wt_append a (sm_waiters s)\<rparr>)"
    have "sm_start_locked a s = ?t"
      using 2 by (simp add: sm_start_locked_def sm_try_acquire_def)
    moreover have "sm_labels ?t (xs @ [a])"
    proof (rule sm_labelsI [OF l, of _ _ a])
      show "sm_ok ?t (xs @ [a]) a" using ok pc 2 by (simp add: sm_goto_def sm_op_ok_def)
      show "wt_rep (sm_waiters ?t) (xs @ [a])" using w by (simp add: sm_goto_def)
      show "distinct (map fst (sm_log ?t))" using sm_labelsD(2) [OF l] by (simp add: sm_goto_def)
    qed (simp_all add: sm_goto_def)
    ultimately show ?thesis using 2 by simp
  next
    case 3
    then show ?thesis using ok pc sm_labelsD(1,2) [OF l]
      by (simp add: sm_start_locked_def sm_try_acquire_def)
        (rule sm_labelsI [OF l, of _ _ a]; simp add: sm_goto_def sm_op_ok_def)
  qed
qed

lemma sm_labels_complete:
  assumes l: "sm_labels s xs" and pc: "sm_pc s a \<in> {QGranted, QStopping}"
  shows "sm_labels (sm_complete a r s) xs"
proof (rule sm_labelsI [OF l, of _ _ a])
  have "sm_pc s a \<noteq> QDone" using pc by auto
  then have "a \<notin> fst ` set (sm_log s)" using sm_labels_done [OF l, of a] by simp
  then show "distinct (map fst (sm_log (sm_complete a r s)))"
    using sm_labelsD(2) [OF l] by (simp only: sm_complete_def sm_goto_def) simp
  show "wt_rep (sm_waiters (sm_complete a r s)) xs"
    using sm_labelsD(1) [OF l] by (simp add: sm_complete_def sm_goto_def)
  show "sm_ok (sm_complete a r s) xs a"
    using sm_labelsD(3) [OF l, of a] pc by (auto simp: sm_complete_def sm_goto_def sm_op_ok_def)
qed (simp add: sm_complete_def sm_goto_def)

lemma sm_labels_on_stop:
  assumes l: "sm_labels s xs" and cb: "sm_cb s a = CbRunning"
  shows "sm_labels (sm_on_stop_requested a s) (filter (\<lambda>b. b \<noteq> a) xs)"
proof (cases "a \<in> set xs")
  case True
  then obtain us vs where xs: "xs = us @ a # vs" by (auto simp: in_set_conv_decomp)
  have rep: "wt_rep (sm_waiters s) (us @ a # vs)" using sm_labelsD(1) [OF l] xs by simp
  have d: "a \<notin> set us" "a \<notin> set vs" using wt_rep_distinct [OF rep] by auto
  then have f: "filter (\<lambda>b. b \<noteq> a) xs = us @ vs"
    by (auto simp: xs filter_id_conv intro!: arg_cong2 [where f = append])
  obtain w where w: "wt_unregister a (sm_waiters s) = (True, w)" "wt_rep w (us @ vs)"
    using wt_rep_unregister [OF rep] by blast
  have "a \<notin> fst ` set (sm_log s)"
    using sm_labels_waiting [OF l, of a] sm_labels_done [OF l, of a] True by simp
  then show ?thesis
    unfolding f using sm_labelsD(2) [OF l] w d
    by (simp add: sm_on_stop_requested_def)
      (rule sm_labelsI [OF l, of _ _ a]; simp add: sm_goto_def sm_complete_def sm_op_ok_def xs)
next
  case False
  then have f: "filter (\<lambda>b. b \<noteq> a) xs = xs" by (auto simp: filter_id_conv)
  have u: "wt_unregister a (sm_waiters s) = (False, sm_waiters s)"
    by (rule wt_rep_unregister_absent [OF sm_labelsD(1) [OF l] False])
  show ?thesis
    unfolding f using sm_labelsD(1,2) [OF l] sm_labelsD(3) [OF l, of a] u False cb
    by (intro sm_labelsI [OF l, of _ _ a]) (auto simp: sm_on_stop_requested_def sm_op_ok_def)
qed

lemma sm_labels_release:
  assumes l: "sm_labels s xs"
  shows "sm_labels (sm_release m s) (tl xs)"
proof (cases xs)
  case Nil
  then have "wt_head (sm_waiters s) = None" using wt_rep_head [OF sm_labelsD(1) [OF l]] by simp
  then show ?thesis
    using sm_labelsD [OF l] Nil by (simp add: sm_labels_def sm_release_def)
next
  case (Cons h ys)
  have rep: "wt_rep (sm_waiters s) (h # ys)" using sm_labelsD(1) [OF l] Cons by simp
  then have "wt_head (sm_waiters s) = Some h" "h \<notin> set ys"
    using wt_rep_head [OF rep] wt_rep_distinct [OF rep] by auto
  note h = this
  let ?t = "sm_goto h QGranted (s\<lparr>sm_waiters := wt_pop h (sm_waiters s),
    sm_grants := sm_grants s + 1, sm_releases := sm_releases s + 1\<rparr>)"
  have "sm_release m s = ?t" using h by (simp add: sm_release_def)
  moreover have "sm_labels ?t ys"
  proof (rule sm_labelsI [OF l, of _ _ h])
    have "h \<notin> fst ` set (sm_log s)"
      using sm_labels_waiting [OF l, of h] sm_labels_done [OF l, of h] Cons by simp
    then have "sm_op_ok QGranted (sm_cb s h) (sm_stop s h) False False"
      using sm_labelsD(3) [OF l, of h] by (simp add: sm_op_ok_def)
    then show "sm_ok ?t ys h" using h(2) \<open>h \<notin> fst ` set (sm_log s)\<close> by (simp add: sm_goto_def)
    show "wt_rep (sm_waiters ?t) ys" using wt_rep_pop [OF rep] by (simp add: sm_goto_def)
    show "distinct (map fst (sm_log ?t))" using sm_labelsD(2) [OF l] by (simp add: sm_goto_def)
  qed (simp_all add: sm_goto_def Cons)
  ultimately show ?thesis using Cons by simp
qed

lemma sm_counts_release:
  assumes l: "sm_labels s xs" and c: "sm_counts m i s xs"
  shows "sm_counts m i (sm_release m s) (tl xs)"
proof -
  have "wt_head (sm_waiters s) = (if xs = [] then None else Some (hd xs))"
    by (rule wt_rep_head [OF sm_labelsD(1) [OF l]])
  then show ?thesis
    using c by (cases xs) (auto simp: sm_counts_def sm_release_def sm_goto_def)
qed

lemma sm_step_inv:
  assumes "sm_step m s t" and l: "sm_labels s xs" and c: "sm_counts m i s xs"
  shows "\<exists>ys. sm_labels t ys \<and> sm_counts m i t ys"
  using assms(1)
proof cases
  case try_acquire
  then show ?thesis using sm_labels_try sm_counts_try l c by blast
next
  case release
  then show ?thesis using sm_labels_release [OF l] sm_counts_release [OF l c] by blast
next
  case (request_stop a)
  have "sm_counts m i (sm_request_stop a s) xs" using c by (simp add: sm_counts_def sm_request_stop_def)
  then show ?thesis using sm_labels_request_stop [OF l] request_stop by blast
next
  case (start a)
  have "sm_counts m i (sm_start a s) xs"
    using c by (simp add: sm_counts_def sm_start_def sm_goto_def sm_complete_def)
  then show ?thesis using sm_labels_start [OF l] start by blast
next
  case (emplace a)
  have "sm_counts m i (sm_emplace a s) xs" using c by (simp add: sm_counts_def sm_emplace_def sm_goto_def)
  then show ?thesis using sm_labels_emplace [OF l] emplace by blast
next
  case (start_locked a)
  have "sm_counts m i (sm_start_locked a s) (if \<not> sm_stop s a \<and> sm_counter s \<le> 0 then xs @ [a] else xs)"
    using c by (auto simp: sm_counts_def sm_start_locked_def sm_try_acquire_def sm_goto_def)
  then show ?thesis using sm_labels_start_locked [OF l] start_locked by blast
next
  case (on_stop_requested a)
  have "sm_counts m i (sm_on_stop_requested a s) (filter (\<lambda>b. b \<noteq> a) xs)"
    using c by (cases "xs = []")
      (auto simp: sm_counts_def sm_on_stop_requested_def sm_goto_def sm_complete_def split: prod.split bool.split)
  then show ?thesis using sm_labels_on_stop [OF l] on_stop_requested by blast
next
  case (complete a)
  have "sm_counts m i (sm_complete a AcqValue s) xs" using c by (simp add: sm_counts_def sm_goto_def sm_complete_def)
  then show ?thesis using sm_labels_complete [OF l] complete by blast
next
  case (stopping a)
  have "sm_counts m i (sm_complete a AcqStopped s) xs" using c by (simp add: sm_counts_def sm_goto_def sm_complete_def)
  then show ?thesis using sm_labels_complete [OF l] stopping by blast
qed

lemma sm_reachable_inv:
  assumes "sm_reachable m i s" "0 \<le> i" "i \<le> m"
  shows "\<exists>xs. sm_labels s xs \<and> sm_counts m i s xs"
  using assms(1)
proof (induction rule: sm_reachable.induct)
  case new
  then show ?case using sm_labels_new assms(2,3) by (auto simp: sm_counts_def sm_new_def)
next
  case (step s t)
  then show ?case using sm_step_inv by blast
qed

section \<open>Properties\<close>

text \<open>Two operations start on a semaphore with one unit; the second is stopped while it waits.\<close>

definition sm_demo :: semaphore where
  "sm_demo = sm_request_stop 8 (sm_start_locked 8 (sm_emplace 8 (sm_start 8
     (sm_start_locked 7 (sm_emplace 7 (sm_start 7 (sm_new 1)))))))"

lemma sm_demo_reachable: "sm_reachable 5 1 sm_demo"
  unfolding sm_demo_def
  by (intro sm_reachable.step [OF _ sm_step.request_stop] sm_reachable.step [OF _ sm_step.start_locked]
      sm_reachable.step [OF _ sm_step.emplace] sm_reachable.step [OF _ sm_step.start] sm_reachable.new)
    (simp_all add: sm_action_defs sm_new_def)

text \<open>C9. Units are conserved in every interleaving: the counter stays between zero and its maximum, the
  counter and the units handed out (by \<open>try_acquire\<close>, on the fast path of \<open>start\<close> and by hand-over in
  \<open>release\<close>) add up to the initial count and the releases, and nobody waits while the counter is
  positive.\<close>

theorem async_semaphore_conserves_units:
  assumes "sm_reachable max_count init s" "0 \<le> init" "init \<le> max_count"
  shows "0 \<le> sm_counter s \<and> sm_counter s \<le> max_count \<and>
    sm_counter s + int (sm_grants s) = init + int (sm_releases s) \<and>
    (sm_counter s > 0 \<longrightarrow> (\<forall>a. sm_pc s a \<noteq> QWaiting))"
proof -
  obtain xs where x: "sm_labels s xs" "sm_counts max_count init s xs"
    using sm_reachable_inv [OF assms] by blast
  have "sm_counter s > 0 \<longrightarrow> xs = []" using x(2) by (auto simp: sm_counts_def)
  then show ?thesis using x(2) sm_labels_waiting [OF x(1)] by (auto simp: sm_counts_def)
qed

theorem async_semaphore_conserves_units_witness:
  "sm_counter sm_demo = 0 \<and> sm_counter sm_demo + int (sm_grants sm_demo) = 1 + int (sm_releases sm_demo)"
proof -
  have "sm_counter sm_demo = 0" by (simp add: sm_demo_def sm_action_defs sm_new_def)
  then show ?thesis using async_semaphore_conserves_units [OF sm_demo_reachable] by simp
qed

text \<open>Every acquire operation completes at most once, with a value or as stopped; and one whose stop
  has been requested while it waits is not forgotten: its callback is still to run, and will find it
  in the list and complete it as stopped.\<close>

lemma async_semaphore_completes_once:
  assumes "sm_reachable max_count init s" "0 \<le> init" "init \<le> max_count"
  shows "distinct (map fst (sm_log s)) \<and>
    (sm_pc s a = QWaiting \<and> sm_stop s a \<longrightarrow> sm_cb s a = CbRunning \<and>
      (a, AcqStopped) \<in> set (sm_log (sm_on_stop_requested a s)))"
proof -
  obtain xs where l: "sm_labels s xs" using sm_reachable_inv [OF assms] by blast
  have "(a, AcqStopped) \<in> set (sm_log (sm_on_stop_requested a s))" if w: "sm_pc s a = QWaiting"
  proof -
    obtain us vs where "xs = us @ a # vs" using sm_labels_waiting [OF l] w by (metis in_set_conv_decomp)
    then have "\<exists>w. wt_unregister a (sm_waiters s) = (True, w) \<and> wt_rep w (us @ vs)"
      using l by (intro wt_rep_unregister) (simp add: sm_labels_def)
    then show ?thesis by (auto simp: sm_on_stop_requested_def sm_complete_def sm_goto_def)
  qed
  then show ?thesis using sm_labelsD(1,2) [OF l] sm_labelsD(3) [OF l, of a] by (auto simp: sm_op_ok_def)
qed

text \<open>First come, first served: a release with waiters in the list hands its unit to the one that
  queued first and leaves the others in order, the counter untouched.\<close>

lemma async_semaphore_release_fifo:
  assumes "sm_labels s (a # xs)"
  shows "sm_labels (sm_release max_count s) xs \<and> sm_pc (sm_release max_count s) a = QGranted \<and>
    sm_counter (sm_release max_count s) = sm_counter s"
proof -
  have "wt_head (sm_waiters s) = Some a"
    using assms wt_rep_head [of "sm_waiters s" "a # xs"] by (simp add: sm_labels_def)
  then show ?thesis
    using sm_labels_release [OF assms] by (simp add: sm_release_def sm_goto_def)
qed

end
