(* ===== verification/Async_Latch.thy ===== *)
theory Async_Latch
  imports Prelude
begin

text \<open>
  \<open>async_latch\<close> of \<open>include/coio/sync_primitives.h\<close> and the \<open>atomic_intrusive_stack\<close> of
  \<open>include/coio/detail/atomic_intrusive_stack.h\<close> its waiters are pushed on. The top of the stack has
  three kinds of values: the address of the stack itself as long as nothing has been pushed or
  popped, null when everything has been popped, and a node. The latch relies on the difference: a
  waiter that is pushed after the notification finds a null top and notifies again.

  Any number of threads count down and wait. \<open>al_pending\<close> counts the calls of \<open>notify_waiters_\<close> that
  have been decided and have not performed their \<open>pop_all\<close> yet. A failed assertion ends the run.
\<close>

section \<open>The stack\<close>

datatype stack_top = SelfTop | NodeTop ptr

datatype stack_status = EmptyAndNeverPushed | EmptyButPushed | NotEmpty

definition stack_node :: "stack_top \<Rightarrow> ptr" where
  "stack_node t = (case t of SelfTop \<Rightarrow> None | NodeTop p \<Rightarrow> p)"

definition stack_status_of :: "stack_top \<Rightarrow> stack_status" where
  "stack_status_of t =
     (if t = SelfTop then EmptyAndNeverPushed
      else if t = NodeTop None then EmptyButPushed else NotEmpty)"

definition stack_empty :: "stack_top \<Rightarrow> bool" where
  "stack_empty t = (stack_status_of t \<noteq> NotEmpty)"

section \<open>The latch\<close>

datatype wait_pc =
    WIdle
  | WCounted                 \<comment> \<open>\<open>count_down\<close> returned zero: \<open>set_value\<close>\<close>
  | WLoad                    \<comment> \<open>\<open>push\<close>: the load\<close>
  | WCas stack_top           \<comment> \<open>\<open>push\<close>: the link is written, the compare-exchange is next\<close>
  | WWaiting
  | WDone

record latch =
  al_counter :: "32 word"
  al_top :: stack_top
  al_next :: links
  al_pc :: "addr \<Rightarrow> wait_pc"
  al_pending :: nat
  al_log :: "addr list"
  al_failed :: bool

definition al_new :: "32 word \<Rightarrow> latch" where
  "al_new n = \<lparr>al_counter = n, al_top = SelfTop, al_next = (\<lambda>_. None), al_pc = (\<lambda>_. WIdle),
     al_pending = 0, al_log = [], al_failed = False\<rparr>"

definition al_try_wait :: "latch \<Rightarrow> bool" where
  "al_try_wait s = (al_counter s = 0)"

text \<open>\<open>count_down\<close>: the value returned and whether \<open>notify_waiters_\<close> is called.\<close>

definition al_count_down :: "32 word \<Rightarrow> latch \<Rightarrow> 32 word \<times> latch" where
  "al_count_down n s =
     (let old = al_counter s
      in (old - n, s\<lparr>al_counter := old - n, al_failed := (al_failed s \<or> \<not> n \<le> old),
        al_pending := al_pending s + (if old = n then 1 else 0)\<rparr>))"

definition al_goto :: "addr \<Rightarrow> wait_pc \<Rightarrow> latch \<Rightarrow> latch" where
  "al_goto a pc s = s\<lparr>al_pc := (al_pc s)(a := pc)\<rparr>"

definition al_complete :: "addr \<Rightarrow> latch \<Rightarrow> latch" where
  "al_complete a s = al_goto a WDone (s\<lparr>al_log := al_log s @ [a]\<rparr>)"

definition al_start :: "32 word \<Rightarrow> addr \<Rightarrow> latch \<Rightarrow> latch" where
  "al_start n a s =
     (case al_count_down n s of
        (left, s) \<Rightarrow> if left = 0 then al_goto a WCounted s else al_goto a WLoad s)"

definition al_push_load :: "addr \<Rightarrow> latch \<Rightarrow> latch" where
  "al_push_load a s =
     al_goto a (WCas (al_top s)) (s\<lparr>al_next := (al_next s)(a := stack_node (al_top s))\<rparr>)"

text \<open>The compare-exchange; when it fails it leaves the current top in \<open>old_top\<close>.\<close>

definition al_push_cas :: "bool \<Rightarrow> addr \<Rightarrow> stack_top \<Rightarrow> latch \<Rightarrow> latch" where
  "al_push_cas spurious a old s =
     (if al_top s = old \<and> \<not> spurious
      then al_goto a WWaiting (s\<lparr>al_top := NodeTop (Some a),
        al_pending := al_pending s + (if stack_status_of old = EmptyButPushed then 1 else 0)\<rparr>)
      else al_push_load a s)"

text \<open>\<open>notify_waiters_\<close>: \<open>pop_all\<close>, and the walk over the nodes, which nobody else can reach.\<close>

partial_function (option) al_walk :: "latch \<Rightarrow> ptr \<Rightarrow> latch option" where
  "al_walk s node =
     (case node of None \<Rightarrow> Some s | Some a \<Rightarrow> al_walk (al_complete a s) (al_next s a))"

definition al_notify :: "latch \<Rightarrow> latch option" where
  "al_notify s =
     al_walk (s\<lparr>al_top := NodeTop None, al_pending := al_pending s - 1\<rparr>) (stack_node (al_top s))"

inductive al_step :: "latch \<Rightarrow> latch \<Rightarrow> bool" where
  count_down: "\<not> al_failed s \<Longrightarrow> al_step s (snd (al_count_down n s))"
| start: "\<not> al_failed s \<Longrightarrow> al_pc s a = WIdle \<Longrightarrow> al_step s (al_start n a s)"
| counted: "\<not> al_failed s \<Longrightarrow> al_pc s a = WCounted \<Longrightarrow> al_step s (al_complete a s)"
| push_load: "\<not> al_failed s \<Longrightarrow> al_pc s a = WLoad \<Longrightarrow> al_step s (al_push_load a s)"
| push_cas: "\<not> al_failed s \<Longrightarrow> al_pc s a = WCas old \<Longrightarrow> al_step s (al_push_cas spurious a old s)"
| notify: "\<not> al_failed s \<Longrightarrow> al_pending s > 0 \<Longrightarrow> al_notify s = Some t \<Longrightarrow> al_step s t"

inductive al_reachable :: "32 word \<Rightarrow> latch \<Rightarrow> bool" for init where
  new: "al_reachable init (al_new init)"
| step: "al_reachable init s \<Longrightarrow> al_step s t \<Longrightarrow> al_reachable init t"

section \<open>The invariant\<close>

text \<open>
  \<open>al_op_ok\<close> is about one operation, \<open>al_count_ok\<close> about the counter and the notifications: before the
  counter is zero nothing has been popped or completed; afterwards a waiter in the stack, or one that
  may still be pushed on the untouched stack, has a notification to come.
\<close>

definition al_op_ok :: "latch \<Rightarrow> addr list \<Rightarrow> addr \<Rightarrow> bool" where
  "al_op_ok s xs a \<longleftrightarrow> (al_pc s a = WWaiting \<longleftrightarrow> a \<in> set xs) \<and> (al_pc s a = WDone \<longleftrightarrow> a \<in> set (al_log s)) \<and>
     (\<forall>t. al_pc s a = WCas t \<longrightarrow> al_next s a = stack_node t) \<and>
     (al_pc s a = WCounted \<longrightarrow> al_counter s = 0)"

definition al_count_ok :: "32 word \<Rightarrow> latch \<Rightarrow> addr list \<Rightarrow> bool" where
  "al_count_ok init s xs \<longleftrightarrow>
     (al_counter s \<noteq> 0 \<longrightarrow> al_top s \<noteq> NodeTop None \<and> al_log s = [] \<and> al_pending s = 0) \<and>
     (al_counter s = 0 \<longrightarrow> xs \<noteq> [] \<or> al_top s = SelfTop \<and> init \<noteq> 0 \<longrightarrow> al_pending s > 0) \<and>
     (init = 0 \<longrightarrow> al_counter s = 0 \<and> (\<forall>a. al_pc s a \<in> {WIdle, WCounted, WDone}))"

definition al_inv :: "32 word \<Rightarrow> latch \<Rightarrow> addr list \<Rightarrow> bool" where
  "al_inv init s xs \<longleftrightarrow> chain (al_next s) (stack_node (al_top s)) xs \<and> distinct (al_log s) \<and>
     (\<forall>a. al_op_ok s xs a) \<and> al_count_ok init s xs"

lemma al_inv_new: "al_inv init (al_new init) []"
  by (simp add: al_inv_def al_new_def stack_node_def al_op_ok_def al_count_ok_def)


lemma al_invD:
  assumes "al_inv init s xs"
  shows "chain (al_next s) (stack_node (al_top s)) xs" "distinct (al_log s)" "al_op_ok s xs a"
    "al_count_ok init s xs"
  using assms by (simp_all add: al_inv_def)

lemma al_invI:
  assumes "chain (al_next t) (stack_node (al_top t)) ys" "distinct (al_log t)"
    and "\<And>a. al_op_ok t ys a" "al_count_ok init t ys"
  shows "al_inv init t ys"
  using assms by (simp add: al_inv_def)

lemma al_inv_pushing:
  assumes "al_inv init s xs" "al_pc s a = WLoad \<or> al_pc s a = WCas t"
  shows "init \<noteq> 0"
proof
  assume "init = 0"
  then have "al_pc s a \<in> {WIdle, WCounted, WDone}"
    using al_invD(4) [OF assms(1)] unfolding al_count_ok_def by blast
  then show False using assms(2) by auto
qed

lemma al_inv_count_down:
  assumes i: "al_inv init s xs" and "\<not> al_failed (snd (al_count_down n s))"
  shows "al_inv init (snd (al_count_down n s)) xs"
proof (rule al_invI)
  have le: "n \<le> al_counter s" using assms(2) by (simp add: al_count_down_def Let_def)
  show "al_op_ok (snd (al_count_down n s)) xs a" for a
    using al_invD(3) [OF i, of a] le by (auto simp: al_op_ok_def al_count_down_def Let_def)
  have "al_counter s = 0 \<Longrightarrow> n = 0" using le by simp
  then show "al_count_ok init (snd (al_count_down n s)) xs"
    using al_invD(4) [OF i] by (auto simp: al_count_ok_def al_count_down_def Let_def)
qed (use al_invD(1,2) [OF i] in \<open>simp_all add: al_count_down_def Let_def\<close>)

text \<open>Moving an operation between labels that neither wait nor are done.\<close>

lemma al_inv_goto:
  assumes i: "al_inv init s xs" and "al_pc s a \<notin> {WWaiting, WDone}" "pc \<notin> {WWaiting, WDone}"
    and "pc = WCounted \<Longrightarrow> al_counter s = 0" "\<And>t. pc = WCas t \<Longrightarrow> al_next s a = stack_node t"
    and "init = 0 \<Longrightarrow> pc \<in> {WIdle, WCounted, WDone}"
  shows "al_inv init (al_goto a pc s) xs"
proof (rule al_invI)
  show "al_op_ok (al_goto a pc s) xs b" for b
    using al_invD(3) [OF i, of b] assms(2-5) by (auto simp: al_op_ok_def al_goto_def)
  show "al_count_ok init (al_goto a pc s) xs"
    using al_invD(4) [OF i] assms(6) by (auto simp: al_count_ok_def al_goto_def)
qed (use al_invD(1,2) [OF i] in \<open>simp_all add: al_goto_def\<close>)

lemma al_inv_start:
  assumes i: "al_inv init s xs" and pc: "al_pc s a = WIdle" and ok: "\<not> al_failed (al_start n a s)"
  shows "al_inv init (al_start n a s) xs"
proof -
  let ?t = "snd (al_count_down n s)"
  have f: "\<not> al_failed ?t" and pc': "al_pc ?t a = WIdle"
    using ok pc by (auto simp: al_start_def al_goto_def al_count_down_def Let_def split: if_splits)
  have it: "al_inv init ?t xs" by (rule al_inv_count_down [OF i f])
  have "al_counter ?t = fst (al_count_down n s)" by (simp add: al_count_down_def Let_def)
  moreover from this have "init = 0 \<Longrightarrow> fst (al_count_down n s) = 0"
    using al_invD(4) [OF it] by (simp add: al_count_ok_def)
  ultimately show ?thesis
    using al_inv_goto [OF it, of a WCounted] al_inv_goto [OF it, of a WLoad] pc'
    by (auto simp: al_start_def case_prod_beta)
qed

lemma al_inv_counted:
  assumes i: "al_inv init s xs" and pc: "al_pc s a = WCounted"
  shows "al_inv init (al_complete a s) xs"
proof (rule al_invI)
  have z: "al_counter s = 0" and l: "a \<notin> set (al_log s)" and x: "a \<notin> set xs"
    using al_invD(3) [OF i, of a] pc by (auto simp: al_op_ok_def)
  show "distinct (al_log (al_complete a s))"
    using al_invD(2) [OF i] l by (simp add: al_complete_def al_goto_def)
  show "al_op_ok (al_complete a s) xs b" for b
    using al_invD(3) [OF i, of b] z x by (auto simp: al_op_ok_def al_complete_def al_goto_def)
  show "al_count_ok init (al_complete a s) xs"
    using al_invD(4) [OF i] z by (auto simp: al_count_ok_def al_complete_def al_goto_def)
qed (use al_invD(1) [OF i] in \<open>simp add: al_complete_def al_goto_def\<close>)

lemma al_inv_set_next:
  assumes i: "al_inv init s xs" and pc: "al_pc s a \<notin> {WWaiting, WDone}" "\<And>t. al_pc s a \<noteq> WCas t"
  shows "al_inv init (s\<lparr>al_next := (al_next s)(a := p)\<rparr>) xs"
proof (rule al_invI)
  have x: "a \<notin> set xs" using al_invD(3) [OF i, of a] pc by (auto simp: al_op_ok_def)
  then show "chain (al_next (s\<lparr>al_next := (al_next s)(a := p)\<rparr>))
      (stack_node (al_top (s\<lparr>al_next := (al_next s)(a := p)\<rparr>))) xs"
    using al_invD(1) [OF i] by simp
  show "al_op_ok (s\<lparr>al_next := (al_next s)(a := p)\<rparr>) xs b" for b
    using al_invD(3) [OF i, of b] pc by (auto simp: al_op_ok_def)
  show "al_count_ok init (s\<lparr>al_next := (al_next s)(a := p)\<rparr>) xs"
    using al_invD(4) [OF i] by (auto simp: al_count_ok_def)
qed (use al_invD(2) [OF i] in simp)

lemma al_inv_push_load:
  assumes i: "al_inv init s xs" and pc: "al_pc s a = WLoad \<or> (\<exists>t. al_pc s a = WCas t)"
  shows "al_inv init (al_push_load a s) xs"
proof -
  have i0: "init \<noteq> 0" using al_inv_pushing [OF i] pc by blast
  have "al_inv init (al_goto a WLoad s) xs"
    using i0 pc by (intro al_inv_goto [OF i]) auto
  then have "al_inv init ((al_goto a WLoad s)\<lparr>al_next := (al_next (al_goto a WLoad s))
      (a := stack_node (al_top s))\<rparr>) xs"
    by (rule al_inv_set_next) (simp_all add: al_goto_def)
  then have "al_inv init (al_goto a (WCas (al_top s)) ((al_goto a WLoad s)
      \<lparr>al_next := (al_next (al_goto a WLoad s))(a := stack_node (al_top s))\<rparr>)) xs"
    using i0 by (rule_tac al_inv_goto) (simp_all add: al_goto_def)
  then show ?thesis by (simp add: al_push_load_def al_goto_def)
qed

lemma al_inv_push_cas:
  assumes i: "al_inv init s xs" and pc: "al_pc s a = WCas old" and "al_top s = old"
  shows "al_inv init (al_push_cas False a old s) (a # xs)"
proof (rule al_invI)
  have x: "a \<notin> set xs" and l: "a \<notin> set (al_log s)" and nx: "al_next s a = stack_node old"
    using al_invD(3) [OF i, of a] pc by (auto simp: al_op_ok_def)
  show "chain (al_next (al_push_cas False a old s)) (stack_node (al_top (al_push_cas False a old s))) (a # xs)"
    using al_invD(1) [OF i] nx assms(3) by (simp add: al_push_cas_def al_goto_def stack_node_def)
  show "al_op_ok (al_push_cas False a old s) (a # xs) b" for b
    using al_invD(3) [OF i, of b] l assms(3) by (auto simp: al_op_ok_def al_push_cas_def al_goto_def)
  have i0: "init \<noteq> 0" using al_inv_pushing [OF i] pc by blast
  have "xs \<noteq> []" if "stack_status_of old = NotEmpty"
    using that al_invD(1) [OF i] assms(3)
    by (auto simp: stack_status_of_def stack_node_def split: if_splits stack_top.splits)
  moreover have "stack_status_of old = EmptyAndNeverPushed \<Longrightarrow> old = SelfTop"
    "stack_status_of old = EmptyButPushed \<Longrightarrow> old = NodeTop None"
    by (auto simp: stack_status_of_def split: if_splits)
  ultimately show "al_count_ok init (al_push_cas False a old s) (a # xs)"
    using al_invD(4) [OF i] i0 assms(3)
    by (cases "stack_status_of old") (auto simp: al_count_ok_def al_push_cas_def al_goto_def)
qed (use al_invD(2) [OF i] assms(3) in \<open>simp add: al_push_cas_def al_goto_def\<close>)

definition al_mark_done :: "addr set \<Rightarrow> (addr \<Rightarrow> wait_pc) \<Rightarrow> addr \<Rightarrow> wait_pc" where
  "al_mark_done A f = (\<lambda>a. if a \<in> A then WDone else f a)"

lemma al_walk_chain:
  "chain (al_next s) p xs \<Longrightarrow> al_walk s p =
    Some (s\<lparr>al_pc := al_mark_done (set xs) (al_pc s), al_log := al_log s @ xs\<rparr>)"
proof (induction xs arbitrary: s p)
  case Nil
  then show ?case by (simp add: al_walk.simps al_mark_done_def)
next
  case (Cons a xs)
  then show ?case
    using Cons.IH [of "al_complete a s" "al_next s a"]
    by (auto simp: al_walk.simps [of s "Some a"] al_complete_def al_goto_def al_mark_done_def fun_eq_iff)
qed

lemma al_notify_inv:
  assumes i: "al_inv init s xs"
  shows "al_notify s = Some (s\<lparr>al_top := NodeTop None, al_pending := al_pending s - 1,
    al_pc := al_mark_done (set xs) (al_pc s), al_log := al_log s @ xs\<rparr>)"
  using al_walk_chain [of "s\<lparr>al_top := NodeTop None, al_pending := al_pending s - 1\<rparr>"
      "stack_node (al_top s)" xs] al_invD(1) [OF i]
  by (simp add: al_notify_def)

lemma al_inv_notify:
  assumes i: "al_inv init s xs" and "al_pending s > 0" and n: "al_notify s = Some t"
  shows "al_inv init t []"
proof (rule al_invI)
  have t: "t = s\<lparr>al_top := NodeTop None, al_pending := al_pending s - 1,
      al_pc := al_mark_done (set xs) (al_pc s), al_log := al_log s @ xs\<rparr>"
    using n al_notify_inv [OF i] by simp
  have z: "al_counter s = 0" using al_invD(4) [OF i] assms(2) by (auto simp: al_count_ok_def)
  have "a \<notin> set (al_log s)" if "a \<in> set xs" for a
    using al_invD(3) [OF i, of a] that by (auto simp: al_op_ok_def)
  then show "distinct (al_log t)"
    using al_invD(2) [OF i] chain_distinct [OF al_invD(1) [OF i]] by (auto simp: t)
  show "al_op_ok t [] b" for b
    using al_invD(3) [OF i, of b] z by (auto simp: al_op_ok_def t al_mark_done_def)
  show "al_count_ok init t []"
    using al_invD(4) [OF i] z by (auto simp: al_count_ok_def t al_mark_done_def)
  show "chain (al_next t) (stack_node (al_top t)) []" by (simp add: t stack_node_def)
qed

lemma al_step_inv:
  assumes "al_step s t" and i: "al_inv init s xs"
  shows "al_failed t \<or> (\<exists>ys. al_inv init t ys)"
  using assms(1)
proof cases
  case (push_cas a old spurious)
  show ?thesis
  proof (cases "al_top s = old \<and> \<not> spurious")
    case True
    then show ?thesis using al_inv_push_cas [OF i] push_cas by auto
  next
    case False
    then show ?thesis using al_inv_push_load [OF i] push_cas by (auto simp: al_push_cas_def)
  qed
qed (use al_inv_count_down [OF i] al_inv_start [OF i] al_inv_counted [OF i] al_inv_push_load [OF i]
  al_inv_notify [OF i] in blast)+

lemma al_reachable_inv: "al_reachable init s \<Longrightarrow> al_failed s \<or> (\<exists>xs. al_inv init s xs)"
proof (induction rule: al_reachable.induct)
  case new
  then show ?case using al_inv_new by blast
next
  case (step s t)
  then have "\<not> al_failed s" by (auto elim: al_step.cases)
  then show ?case using step al_step_inv by blast
qed

section \<open>Properties\<close>

text \<open>One operation waits on a latch of two, another thread counts down to zero.\<close>

definition al_demo :: latch where
  "al_demo = snd (al_count_down 1 (al_push_cas False 7 SelfTop (al_push_load 7 (al_start 1 7 (al_new 2)))))"

lemma al_demo_reachable: "al_reachable 2 al_demo"
  unfolding al_demo_def
  by (intro al_reachable.step [OF _ al_step.count_down] al_reachable.step [OF _ al_step.push_cas]
      al_reachable.step [OF _ al_step.push_load] al_reachable.step [OF _ al_step.start] al_reachable.new)
    (simp_all add: al_count_down_def al_push_cas_def al_push_load_def al_start_def al_goto_def
      al_new_def Let_def)

text \<open>A latch lets nobody through early: unless a \<open>count_down\<close> asked for more than was left, every
  operation completes at most once, and none before the counter is zero.\<close>

lemma async_latch_not_early:
  assumes "al_reachable init s" "\<not> al_failed s"
  shows "distinct (al_log s) \<and> (al_log s \<noteq> [] \<longrightarrow> al_counter s = 0)"
  using al_reachable_inv [OF assms(1)] assms(2) by (auto simp: al_inv_def al_count_ok_def)

lemma al_demo_notify:
  "\<exists>t. al_notify al_demo = Some t \<and> al_reachable 2 t \<and> al_log t = [7] \<and> \<not> al_failed t"
proof -
  have "\<exists>t. al_notify al_demo = Some t \<and> al_log t = [7] \<and> \<not> al_failed t"
    by (simp add: al_notify_def al_demo_def al_count_down_def al_push_cas_def al_push_load_def
        al_start_def al_goto_def al_new_def Let_def stack_node_def al_walk.simps al_complete_def
        stack_status_of_def)
  moreover have "\<not> al_failed al_demo" "al_pending al_demo > 0"
    by (simp_all add: al_demo_def al_count_down_def al_push_cas_def al_push_load_def al_start_def
        al_goto_def al_new_def Let_def)
  ultimately show ?thesis
    using al_reachable.step [OF al_demo_reachable al_step.notify] by blast
qed

text \<open>C10. No waiter is left behind: once the counter is zero and every notification that was decided has
  been carried out, no operation waits in the stack, although waiters may be pushed while and after
  the notification runs; and carrying one out always returns.\<close>

theorem async_latch_no_lost_waiter:
  assumes "al_reachable init s" "\<not> al_failed s"
  shows "(al_counter s = 0 \<and> al_pending s = 0 \<longrightarrow> (\<forall>a. al_pc s a \<noteq> WWaiting)) \<and>
    (\<exists>t. al_notify s = Some t \<and> (\<forall>a. al_pc s a = WWaiting \<longrightarrow> a \<in> set (al_log t)))"
proof -
  obtain xs where i: "al_inv init s xs" using al_reachable_inv [OF assms(1)] assms(2) by blast
  have w: "al_pc s a = WWaiting \<longleftrightarrow> a \<in> set xs" for a
    using al_invD(3) [OF i, of a] by (simp add: al_op_ok_def)
  show ?thesis
    using al_notify_inv [OF i] al_invD(4) [OF i] w by (auto simp: al_count_ok_def)
qed

theorem async_latch_no_lost_waiter_witness:
  "\<exists>t. al_notify al_demo = Some t \<and> 7 \<in> set (al_log t)"
proof -
  have "al_pc al_demo 7 = WWaiting" "\<not> al_failed al_demo"
    by (simp_all add: al_demo_def al_count_down_def al_push_cas_def al_push_load_def al_start_def
        al_goto_def al_new_def Let_def)
  then show ?thesis using async_latch_no_lost_waiter [OF al_demo_reachable] by blast
qed

end
