(* ===== verification/Dynamic_Buffer.thy ===== *)
theory Dynamic_Buffer
  imports Prelude
begin

text \<open>
  The contract behind the concept \<open>dynamic_buffer\<close> of \<open>include/coio/asyncio/io.h\<close>: what the transfer
  algorithms rely on when they read into or write from a growing buffer. \<open>bytes\<close> is the readable
  data, \<open>room\<close> the number of bytes that may be written behind it after \<open>prepare\<close>, and \<open>fill bs\<close> stands
  for a device storing \<open>bs\<close> at the start of the prepared span.
\<close>

locale dynamic_buffer =
  fixes inv :: "'b \<Rightarrow> bool"
    and bytes :: "'b \<Rightarrow> byte list"
    and size :: "'b \<Rightarrow> size_t"
    and max_size :: "'b \<Rightarrow> size_t"
    and room :: "'b \<Rightarrow> nat"
    and prepare :: "size_t \<Rightarrow> 'b \<Rightarrow> error + 'b"
    and fill :: "byte list \<Rightarrow> 'b \<Rightarrow> 'b"
    and commit :: "size_t \<Rightarrow> 'b \<Rightarrow> 'b"
    and consume :: "size_t \<Rightarrow> 'b \<Rightarrow> 'b"
  assumes size_bytes: "inv b \<Longrightarrow> unat (size b) = length (bytes b)"
    and bytes_fit: "inv b \<Longrightarrow> length (bytes b) \<le> unat (max_size b)"
    and prepare_room: "inv b \<Longrightarrow> prepare n b = Inr b' \<Longrightarrow>
      inv b' \<and> bytes b' = bytes b \<and> max_size b' = max_size b \<and> (n \<noteq> 0 \<longrightarrow> unat n \<le> room b')"
    and prepare_fits: "inv b \<Longrightarrow> length (bytes b) + unat n \<le> unat (max_size b) \<Longrightarrow>
      prepare n b \<noteq> Inl LengthError"
    and commit_fill: "inv b \<Longrightarrow> length bs \<le> room b \<Longrightarrow> length bs < 2 ^ 31 \<Longrightarrow>
      inv (commit (of_nat (length bs)) (fill bs b)) \<and>
      bytes (commit (of_nat (length bs)) (fill bs b)) = bytes b @ bs \<and>
      max_size (commit (of_nat (length bs)) (fill bs b)) = max_size b"
    and consume_bytes: "inv b \<Longrightarrow> unat n < 2 ^ 31 \<Longrightarrow>
      inv (consume n b) \<and> bytes (consume n b) = drop (unat n) (bytes b) \<and>
      max_size (consume n b) = max_size b"
begin

text \<open>One round of a reader: prepare, let the device store \<open>bs\<close>, commit what it stored.\<close>

lemma receive_bytes:
  assumes "inv b" "prepare n b = Inr b'" "length bs \<le> unat n" "n \<noteq> 0" "length bs < 2 ^ 31"
  shows "inv (commit (of_nat (length bs)) (fill bs b'))"
    and "bytes (commit (of_nat (length bs)) (fill bs b')) = bytes b @ bs"
    and "max_size (commit (of_nat (length bs)) (fill bs b')) = max_size b"
  using prepare_room [OF assms(1,2)] commit_fill [of b' bs] assms(3-5) by auto

text \<open>First in, first out: consuming what was there before leaves what was received.\<close>

lemma receive_consume:
  assumes "inv b" "prepare n b = Inr b'" "length bs \<le> unat n" "n \<noteq> 0" "length bs < 2 ^ 31"
    and "length (bytes b) < 2 ^ 31"
  shows "bytes (consume (of_nat (length (bytes b))) (commit (of_nat (length bs)) (fill bs b'))) = bs"
proof -
  have "unat (of_nat (length (bytes b)) :: size_t) = length (bytes b)"
    using assms(6) by (simp add: unat_of_nat_small)
  then show ?thesis
    using consume_bytes [OF receive_bytes(1) [OF assms(1-5)], of "of_nat (length (bytes b))"]
      receive_bytes(2) [OF assms(1-5)] assms(6) by simp
qed

end

end
