(* ===== verification/Flat_Buffer.thy ===== *)
theory Flat_Buffer
  imports Dynamic_Buffer
begin

text \<open>
  \<open>basic_flat_buffer\<close> of \<open>include/coio/utils/flat_buffer.h\<close>: one allocated block with four indices,
  \<open>in_\<close>, \<open>out_\<close>, \<open>last_\<close> and \<open>end_\<close>, kept as 64-bit words. The block is its list of bytes; an access
  past its end is the error \<open>HeapOverflow\<close>. The allocator is a parameter \<open>al\<close>: it returns a block of
  the requested size with whatever contents, or nothing, when it throws \<open>std::bad_alloc\<close>.
\<close>

type_synonym allocator = "size_t \<Rightarrow> byte list option"

definition allocator_ok :: "allocator \<Rightarrow> bool" where
  "allocator_ok al \<longleftrightarrow> (\<forall>n d. al n = Some d \<longrightarrow> length d = unat n)"

record flat_buffer =
  fb_max :: size_t
  fb_data :: "byte list option"
  fb_in :: size_t
  fb_out :: size_t
  fb_last :: size_t
  fb_end :: size_t

definition fb_new :: "size_t \<Rightarrow> flat_buffer" where
  "fb_new m = \<lparr>fb_max = m, fb_data = None, fb_in = 0, fb_out = 0, fb_last = 0, fb_end = 0\<rparr>"

definition fb_default :: flat_buffer where
  "fb_default = fb_new (- 1)"

definition fb_size :: "flat_buffer \<Rightarrow> size_t" where
  "fb_size b = fb_out b - fb_in b"

definition fb_empty :: "flat_buffer \<Rightarrow> bool" where
  "fb_empty b = (fb_in b = fb_out b)"

definition fb_capacity :: "flat_buffer \<Rightarrow> size_t" where
  "fb_capacity b = fb_end b"

text \<open>\<open>data()\<close>: the span from \<open>in_\<close> to \<open>out_\<close>, empty when there is no block.\<close>

definition fb_span :: "byte list option \<Rightarrow> size_t \<Rightarrow> size_t \<Rightarrow> byte list" where
  "fb_span data i n = (case data of None \<Rightarrow> [] | Some d \<Rightarrow> take (unat n) (drop (unat i) d))"

definition fb_bytes :: "flat_buffer \<Rightarrow> byte list" where
  "fb_bytes b = fb_span (fb_data b) (fb_in b) (fb_out b - fb_in b)"

definition fb_destroy :: "flat_buffer \<Rightarrow> flat_buffer" where
  "fb_destroy b = b\<lparr>fb_data := None, fb_in := 0, fb_out := 0, fb_last := 0, fb_end := 0\<rparr>"

definition fb_clear :: "flat_buffer \<Rightarrow> flat_buffer" where
  "fb_clear b = b\<lparr>fb_in := 0, fb_out := 0, fb_last := 0\<rparr>"

text \<open>\<open>memcpy\<close> of the readable data into a new block, and \<open>memmove\<close> to the front of the same block.\<close>

definition fb_copy_into :: "byte list \<Rightarrow> byte list \<Rightarrow> error + byte list" where
  "fb_copy_into d src =
     (if length src \<le> length d then Inr (src @ drop (length src) d) else Inl HeapOverflow)"

definition fb_move_front :: "flat_buffer \<Rightarrow> byte list \<Rightarrow> byte list" where
  "fb_move_front b d = fb_bytes b @ drop (length (fb_bytes b)) d"

text \<open>The \<open>while (new_cap < len + n)\<close> loop of \<open>prepare\<close>; the doubling stops when it wraps.\<close>

function fb_grow :: "size_t \<Rightarrow> size_t \<Rightarrow> size_t \<Rightarrow> size_t" where
  "fb_grow m need new_cap =
     (if new_cap < need then
        (let next = new_cap * 2
         in if next > new_cap \<and> next \<le> m then fb_grow m need next else min need m)
      else new_cap)"
  by pat_completeness auto

termination
  by (relation "measure (\<lambda>(m, need, c). 2 ^ 64 - unat c)")
    (use size_t_bound in \<open>auto simp: word_less_nat_alt intro!: diff_less_mono2\<close>)

declare fb_grow.simps [simp del]

definition fb_prepare :: "allocator \<Rightarrow> size_t \<Rightarrow> flat_buffer \<Rightarrow> error + ((size_t \<times> size_t) \<times> flat_buffer)" where
  "fb_prepare al n b =
     (if n = 0 then Inr ((0, 0), b)
      else if fb_data b \<noteq> None \<and> n \<le> fb_end b - fb_out b then
        (let b = b\<lparr>fb_last := fb_out b + n\<rparr> in Inr ((fb_out b, n), b))
      else
        let len = fb_size b
        in if fb_data b \<noteq> None \<and> n \<le> fb_end b - len then
             (let b = b\<lparr>fb_data := map_option (fb_move_front b) (fb_data b), fb_in := 0,
                fb_out := len, fb_last := len + n\<rparr>
              in Inr ((fb_out b, n), b))
           else if n > fb_max b - len then Inl LengthError
           else
             let new_cap = fb_grow (fb_max b) (len + n) (max (fb_end b) 512)
             in case al new_cap of
                  None \<Rightarrow> Inl BadAlloc
                | Some d \<Rightarrow>
                    (case fb_copy_into d (fb_bytes b) of
                       Inl e \<Rightarrow> Inl e
                     | Inr d \<Rightarrow> Inr ((len, n), (fb_destroy b)\<lparr>fb_data := Some d, fb_in := 0,
                         fb_out := len, fb_last := len + n, fb_end := new_cap\<rparr>)))"

definition fb_commit :: "size_t \<Rightarrow> flat_buffer \<Rightarrow> flat_buffer" where
  "fb_commit n b = b\<lparr>fb_out := fb_out b + min n (fb_last b - fb_out b)\<rparr>"

definition fb_consume :: "size_t \<Rightarrow> flat_buffer \<Rightarrow> flat_buffer" where
  "fb_consume n b = b\<lparr>fb_in := fb_in b + min n (fb_size b)\<rparr>"

text \<open>Replacing the block by a new one of capacity \<open>n\<close> that holds the readable data.\<close>

definition fb_reallocate :: "allocator \<Rightarrow> size_t \<Rightarrow> flat_buffer \<Rightarrow> error + flat_buffer" where
  "fb_reallocate al n b =
     (case al n of
        None \<Rightarrow> Inl BadAlloc
      | Some d \<Rightarrow>
          (case fb_copy_into d (fb_bytes b) of
             Inl e \<Rightarrow> Inl e
           | Inr d \<Rightarrow> Inr ((fb_destroy b)\<lparr>fb_data := Some d, fb_in := 0, fb_out := fb_size b,
               fb_last := fb_size b, fb_end := n\<rparr>)))"

definition fb_reserve :: "allocator \<Rightarrow> size_t \<Rightarrow> flat_buffer \<Rightarrow> error + flat_buffer" where
  "fb_reserve al n b =
     (if n > fb_max b then Inl LengthError
      else if n \<le> fb_end b then Inr b
      else fb_reallocate al n b)"

definition fb_shrink_to_fit :: "allocator \<Rightarrow> flat_buffer \<Rightarrow> error + flat_buffer" where
  "fb_shrink_to_fit al b =
     (let len = fb_size b
      in if len = 0 then Inr (fb_destroy b)
         else if len = fb_end b \<and> fb_in b = 0 then Inr b
         else if len = fb_end b then
           Inr (b\<lparr>fb_data := map_option (fb_move_front b) (fb_data b), fb_in := 0, fb_out := len,
             fb_last := len\<rparr>)
         else fb_reallocate al len b)"

definition fb_copy :: "allocator \<Rightarrow> flat_buffer \<Rightarrow> error + flat_buffer" where
  "fb_copy al other =
     (let b = fb_new (fb_max other); len = fb_size other
      in if len > 0 then
           (case al len of
              None \<Rightarrow> Inl BadAlloc
            | Some d \<Rightarrow>
                (case fb_copy_into d (fb_bytes other) of
                   Inl e \<Rightarrow> Inl e
                 | Inr d \<Rightarrow> Inr (b\<lparr>fb_data := Some d, fb_out := len, fb_last := len, fb_end := len\<rparr>)))
         else Inr b)"

text \<open>\<open>steal_from\<close> and the move constructor: the new state and what is left of the source.\<close>

definition fb_steal :: "flat_buffer \<Rightarrow> flat_buffer \<Rightarrow> flat_buffer \<times> flat_buffer" where
  "fb_steal b other =
     (b\<lparr>fb_data := fb_data other, fb_in := fb_in other, fb_out := fb_out other,
        fb_last := fb_last other, fb_end := fb_end other\<rparr>, fb_destroy other)"

definition fb_move :: "flat_buffer \<Rightarrow> flat_buffer \<times> flat_buffer" where
  "fb_move other = fb_steal (fb_new (fb_max other)) other"

text \<open>
  Storing the data of another buffer in the block at hand, or in a new one when it is too small: the
  common part of the two assignments. The contents of an unused block are taken as they are.
\<close>

definition fb_assign_bytes :: "allocator \<Rightarrow> flat_buffer \<Rightarrow> flat_buffer \<Rightarrow> error + flat_buffer" where
  "fb_assign_bytes al other b =
     (let len = fb_size other;
          r = (if len > fb_end b then
                 (case al len of
                    None \<Rightarrow> Inl BadAlloc
                  | Some d \<Rightarrow> Inr ((fb_destroy b)\<lparr>fb_data := Some d, fb_end := len\<rparr>))
               else Inr b)
      in case r of
           Inl e \<Rightarrow> Inl e
         | Inr b \<Rightarrow>
             (case fb_data b of
                None \<Rightarrow> Inl NullDeref
              | Some d \<Rightarrow>
                  (case fb_copy_into d (fb_bytes other) of
                     Inl e \<Rightarrow> Inl e
                   | Inr d \<Rightarrow>
                       Inr (b\<lparr>fb_data := Some d, fb_in := 0, fb_out := len, fb_last := len\<rparr>))))"

text \<open>
  Copy assignment of a distinct buffer: \<open>propagate\<close> is the allocator trait, \<open>equal\<close> whether the two
  allocators compare equal.
\<close>

definition fb_copy_assign ::
  "allocator \<Rightarrow> bool \<Rightarrow> bool \<Rightarrow> flat_buffer \<Rightarrow> flat_buffer \<Rightarrow> error + flat_buffer" where
  "fb_copy_assign al propagate equal other b =
     (if fb_size other = 0 then
        (let b = (if propagate \<and> \<not> equal then fb_destroy b else b)
         in Inr ((fb_clear b)\<lparr>fb_max := fb_max other\<rparr>))
      else if propagate \<and> \<not> equal then
        map_sum id (\<lambda>c. c\<lparr>fb_max := fb_max other\<rparr>) (fb_copy al other)
      else map_sum id (\<lambda>c. c\<lparr>fb_max := fb_max other\<rparr>) (fb_assign_bytes al other b))"

definition fb_move_assign ::
  "allocator \<Rightarrow> bool \<Rightarrow> bool \<Rightarrow> flat_buffer \<Rightarrow> flat_buffer \<Rightarrow> error + (flat_buffer \<times> flat_buffer)" where
  "fb_move_assign al propagate equal other b =
     (if propagate \<or> equal then
        (case fb_steal (fb_destroy b) other of
           (b, other) \<Rightarrow> Inr (b\<lparr>fb_max := fb_max other\<rparr>, other))
      else
        (case (if fb_size other = 0 then Inr (fb_clear b) else fb_assign_bytes al other b) of
           Inl e \<Rightarrow> Inl e
         | Inr b \<Rightarrow> Inr (b\<lparr>fb_max := fb_max other\<rparr>, fb_clear other)))"

definition fb_swap ::
  "bool \<Rightarrow> bool \<Rightarrow> flat_buffer \<Rightarrow> flat_buffer \<Rightarrow> error + (flat_buffer \<times> flat_buffer)" where
  "fb_swap propagate equal b other =
     (if \<not> (propagate \<or> equal) then Inl AssertFailed else Inr (other, b))"

text \<open>A device storing \<open>bs\<close> at the start of the prepared span.\<close>

definition fb_fill :: "byte list \<Rightarrow> flat_buffer \<Rightarrow> flat_buffer" where
  "fb_fill bs b =
     b\<lparr>fb_data := map_option (write_at (unat (fb_out b)) bs) (fb_data b)\<rparr>"

section \<open>The invariant\<close>

definition fb_block_ok :: "byte list option \<Rightarrow> size_t \<Rightarrow> bool" where
  "fb_block_ok data e \<longleftrightarrow> (case data of None \<Rightarrow> e = 0 | Some d \<Rightarrow> length d = unat e)"

definition fb_inv :: "flat_buffer \<Rightarrow> bool" where
  "fb_inv b \<longleftrightarrow> fb_in b \<le> fb_out b \<and> fb_out b \<le> fb_last b \<and> fb_last b \<le> fb_end b \<and>
     fb_block_ok (fb_data b) (fb_end b)"

lemmas fb_inv_defs = fb_inv_def fb_block_ok_def


text \<open>The same over natural numbers.\<close>

lemma fb_inv_nat:
  assumes "fb_inv b"
  shows "unat (fb_in b) \<le> unat (fb_out b)" "unat (fb_out b) \<le> unat (fb_last b)"
    "unat (fb_last b) \<le> unat (fb_end b)" "unat (fb_size b) = unat (fb_out b) - unat (fb_in b)"
  using assms by (simp_all add: fb_inv_defs word_le_nat_alt fb_size_def unat_sub_le)

lemma fb_inv_data:
  "fb_inv b \<Longrightarrow> fb_data b = Some d \<Longrightarrow> length d = unat (fb_end b)"
  "fb_inv b \<Longrightarrow> fb_data b = None \<Longrightarrow> fb_in b = 0 \<and> fb_out b = 0 \<and> fb_last b = 0 \<and> fb_end b = 0"
  by (auto simp: fb_inv_defs)

lemma fb_bytes_length: "fb_inv b \<Longrightarrow> length (fb_bytes b) = unat (fb_size b)"
  using fb_inv_nat [of b] fb_inv_data [of b]
  by (cases "fb_data b") (auto simp: fb_bytes_def fb_span_def fb_size_def)

lemma fb_bytes_Some:
  "fb_inv b \<Longrightarrow> fb_data b = Some d \<Longrightarrow>
   fb_bytes b = take (unat (fb_out b) - unat (fb_in b)) (drop (unat (fb_in b)) d)"
  using fb_inv_nat [of b] by (simp add: fb_bytes_def fb_span_def fb_size_def)

lemma fb_inv_new: "fb_inv (fb_new m)"
  by (simp add: fb_inv_defs fb_new_def)

lemma fb_inv_destroy: "fb_inv (fb_destroy b)" "fb_bytes (fb_destroy b) = []"
  by (simp_all add: fb_inv_defs fb_destroy_def fb_bytes_def fb_span_def)

lemma fb_inv_clear: "fb_inv b \<Longrightarrow> fb_inv (fb_clear b)" "fb_bytes (fb_clear b) = []"
  by (auto simp: fb_inv_defs fb_clear_def fb_bytes_def fb_span_def split: option.splits)

text \<open>A block that holds \<open>bs\<close> at its front, with room for \<open>n\<close> more bytes.\<close>

lemma fb_front_rep:
  assumes "length d = unat e" "unat len = length bs" "take (length bs) d = bs"
    and "length bs + unat n \<le> unat e"
  shows "fb_inv (b\<lparr>fb_data := Some d, fb_in := 0, fb_out := len, fb_last := len + n, fb_end := e\<rparr>)"
    and "fb_bytes (b\<lparr>fb_data := Some d, fb_in := 0, fb_out := len, fb_last := len + n, fb_end := e\<rparr>) = bs"
proof -
  have "unat (len + n) = length bs + unat n"
    using assms(2,4) size_t_bound [of e] by (simp add: unat_add_lt)
  then show "fb_inv (b\<lparr>fb_data := Some d, fb_in := 0, fb_out := len, fb_last := len + n, fb_end := e\<rparr>)"
    using assms by (simp add: fb_inv_defs word_le_nat_alt)
  show "fb_bytes (b\<lparr>fb_data := Some d, fb_in := 0, fb_out := len, fb_last := len + n, fb_end := e\<rparr>) = bs"
    using assms by (simp add: fb_bytes_def fb_span_def)
qed

lemma fb_copy_into_ok:
  "length src \<le> length d \<Longrightarrow>
   \<exists>d'. fb_copy_into d src = Inr d' \<and> length d' = length d \<and> take (length src) d' = src"
  by (simp add: fb_copy_into_def)

lemma fb_move_front_ok:
  assumes "fb_inv b" "fb_data b = Some d"
  shows "length (fb_move_front b d) = unat (fb_end b)"
    "take (length (fb_bytes b)) (fb_move_front b d) = fb_bytes b"
  using fb_inv_nat [OF assms(1)] fb_inv_data(1) [OF assms] fb_bytes_length [OF assms(1)]
  by (auto simp: fb_move_front_def)

lemma fb_grow_enough: "need \<le> m \<Longrightarrow> need \<le> fb_grow m need c"
proof (induction m need c rule: fb_grow.induct)
  case (1 m need c)
  then show ?case by (subst fb_grow.simps) (auto simp: Let_def not_less)
qed

lemma fb_grow_bounded: "c \<le> m \<Longrightarrow> fb_grow m need c \<le> m"
proof (induction m need c rule: fb_grow.induct)
  case (1 m need c)
  then show ?case by (subst fb_grow.simps) (auto simp: Let_def min_def)
qed

section \<open>The operations on the readable data\<close>

definition fb_room :: "flat_buffer \<Rightarrow> nat" where
  "fb_room b = unat (fb_last b) - unat (fb_out b)"

lemma fb_new_block:
  assumes al: "allocator_ok al" "al c = Some d" and b: "fb_inv b"
    and fit: "unat (fb_size b) + unat n \<le> unat c"
  shows "\<exists>d'. fb_copy_into d (fb_bytes b) = Inr d' \<and>
    fb_inv ((fb_destroy b)\<lparr>fb_data := Some d', fb_in := 0, fb_out := fb_size b,
      fb_last := fb_size b + n, fb_end := c\<rparr>) \<and>
    fb_bytes ((fb_destroy b)\<lparr>fb_data := Some d', fb_in := 0, fb_out := fb_size b,
      fb_last := fb_size b + n, fb_end := c\<rparr>) = fb_bytes b"
proof -
  have d: "length d = unat c" using al by (auto simp: allocator_ok_def)
  have len: "unat (fb_size b) = length (fb_bytes b)" using fb_bytes_length [OF b] by simp
  obtain d' where d': "fb_copy_into d (fb_bytes b) = Inr d'" "length d' = unat c"
    "take (length (fb_bytes b)) d' = fb_bytes b"
    using fb_copy_into_ok [of "fb_bytes b" d] d fit len by auto
  show ?thesis
    using fb_front_rep [OF d'(2) len d'(3), of n] fit len d'(1) by auto
qed

lemma fb_prepare_rep:
  assumes al: "allocator_ok al" and b: "fb_inv b" and small: "fb_size b \<le> fb_max b" and n: "n \<noteq> 0"
  shows "case fb_prepare al n b of
      Inr ((off, m), b') \<Rightarrow> fb_inv b' \<and> fb_bytes b' = fb_bytes b \<and> fb_max b' = fb_max b \<and>
        off = fb_out b' \<and> m = n \<and> fb_room b' = unat n
    | Inl e \<Rightarrow> e = BadAlloc \<or> e = LengthError \<and> unat (fb_max b) < unat (fb_size b) + unat n"
proof -
  note i = fb_inv_nat [OF b]
  let ?len = "fb_size b"
  consider (fits) d where "fb_data b = Some d" "n \<le> fb_end b - fb_out b"
    | (slide) d where "fb_data b = Some d" "\<not> n \<le> fb_end b - fb_out b" "n \<le> fb_end b - ?len"
    | (long) "\<not> (fb_data b \<noteq> None \<and> n \<le> fb_end b - fb_out b)"
        "\<not> (fb_data b \<noteq> None \<and> n \<le> fb_end b - ?len)" "n > fb_max b - ?len"
    | (grow) "\<not> (fb_data b \<noteq> None \<and> n \<le> fb_end b - fb_out b)"
        "\<not> (fb_data b \<noteq> None \<and> n \<le> fb_end b - ?len)" "\<not> n > fb_max b - ?len"
    by (cases "fb_data b") auto
  then show ?thesis
  proof cases
    case fits
    have "fb_out b \<le> fb_end b" using b by (auto simp: fb_inv_defs)
    then have le: "unat n \<le> unat (fb_end b) - unat (fb_out b)"
      using fits(2) by (simp add: word_le_nat_alt unat_sub_le)
    then have l: "unat (fb_out b + n) = unat (fb_out b) + unat n"
      using i size_t_bound [of "fb_end b"] by (intro unat_add_lt) simp
    have "fb_prepare al n b = Inr ((fb_out b, n), b\<lparr>fb_last := fb_out b + n\<rparr>)"
      using fits n by (simp add: fb_prepare_def Let_def)
    moreover have "fb_inv (b\<lparr>fb_last := fb_out b + n\<rparr>)"
      using b i l le fits(1) by (simp add: fb_inv_defs word_le_nat_alt)
    ultimately show ?thesis using l by (simp add: fb_bytes_def fb_room_def)
  next
    case slide
    have "?len \<le> fb_end b" using i by (simp add: word_le_nat_alt)
    then have le: "unat n \<le> unat (fb_end b) - unat ?len"
      using slide(3) by (simp add: word_le_nat_alt unat_sub_le)
    then have l: "unat (?len + n) = unat ?len + unat n"
      using i size_t_bound [of "fb_end b"] by (intro unat_add_lt) simp
    let ?b = "b\<lparr>fb_data := Some (fb_move_front b d), fb_in := 0, fb_out := ?len, fb_last := ?len + n\<rparr>"
    have "fb_prepare al n b = Inr ((?len, n), ?b)"
      using slide n by (simp add: fb_prepare_def Let_def)
    moreover have "fb_inv ?b" "fb_bytes ?b = fb_bytes b"
      using fb_front_rep [of "fb_move_front b d" "fb_end b" ?len "fb_bytes b" n b]
        fb_move_front_ok [OF b slide(1)] fb_bytes_length [OF b] le i by simp_all
    ultimately show ?thesis using l by (simp add: fb_room_def)
  next
    case long
    then have "fb_prepare al n b = Inl LengthError" using n by (simp add: fb_prepare_def Let_def)
    moreover have "unat (fb_max b) - unat ?len < unat n"
      using long(3) small by (simp add: word_less_nat_alt unat_sub_le)
    ultimately show ?thesis by auto
  next
    case grow
    have le: "unat n \<le> unat (fb_max b) - unat ?len"
      using grow(3) small by (simp add: word_less_nat_alt unat_sub_le)
    have sm: "unat ?len \<le> unat (fb_max b)" using small by (simp add: word_le_nat_alt)
    then have l: "unat (?len + n) = unat ?len + unat n"
      using le size_t_bound [of "fb_max b"] by (intro unat_add_lt) simp
    let ?c = "fb_grow (fb_max b) (?len + n) (max (fb_end b) 512)"
    have "?len + n \<le> fb_max b" using le l sm by (simp add: word_le_nat_alt)
    then have fit: "unat ?len + unat n \<le> unat ?c"
      using fb_grow_enough [of "?len + n" "fb_max b"] l by (simp add: word_le_nat_alt)
    note prepare = if_not_P [OF n] if_not_P [OF grow(1)] if_not_P [OF grow(2)] if_not_P [OF grow(3)]
      fb_prepare_def Let_def
    show ?thesis
    proof (cases "al ?c")
      case None
      then have "fb_prepare al n b = Inl BadAlloc" by (simp only: prepare option.case)
      then show ?thesis by simp
    next
      case (Some d)
      obtain d' where d': "fb_copy_into d (fb_bytes b) = Inr d'"
        "fb_inv ((fb_destroy b)\<lparr>fb_data := Some d', fb_in := 0, fb_out := ?len, fb_last := ?len + n, fb_end := ?c\<rparr>)"
        "fb_bytes ((fb_destroy b)\<lparr>fb_data := Some d', fb_in := 0, fb_out := ?len, fb_last := ?len + n, fb_end := ?c\<rparr>) = fb_bytes b"
        using fb_new_block [OF al Some b fit] by blast
      have "fb_prepare al n b = Inr ((?len, n), (fb_destroy b)\<lparr>fb_data := Some d', fb_in := 0,
          fb_out := ?len, fb_last := ?len + n, fb_end := ?c\<rparr>)"
        using Some d'(1) by (simp only: prepare option.case sum.case)
      then show ?thesis using d'(2,3) l by (simp add: fb_room_def fb_destroy_def)
    qed
  qed
qed

lemma fb_commit_fill_rep:
  assumes b: "fb_inv b" and bs: "length bs \<le> fb_room b"
  shows "fb_inv (fb_commit (of_nat (length bs)) (fb_fill bs b))"
    and "fb_bytes (fb_commit (of_nat (length bs)) (fb_fill bs b)) = fb_bytes b @ bs"
    and "fb_max (fb_commit (of_nat (length bs)) (fb_fill bs b)) = fb_max b"
    and "fb_end (fb_commit (of_nat (length bs)) (fb_fill bs b)) = fb_end b"
proof -
  note i = fb_inv_nat [OF b]
  let ?n = "of_nat (length bs) :: size_t"
  have n: "unat ?n = length bs"
    using bs i size_t_bound [of "fb_last b"] by (intro unat_of_nat_small) (simp add: fb_room_def)
  have "fb_out b \<le> fb_last b" using b by (simp add: fb_inv_defs)
  then have "?n \<le> fb_last b - fb_out b"
    using bs n by (simp add: word_le_nat_alt unat_sub_le fb_room_def)
  then have c: "fb_commit ?n (fb_fill bs b) = (fb_fill bs b)\<lparr>fb_out := fb_out b + ?n\<rparr>"
    by (simp add: fb_commit_def fb_fill_def min_def)
  have o: "unat (fb_out b + ?n) = unat (fb_out b) + length bs"
    using bs n i size_t_bound [of "fb_last b"] by (subst unat_add_lt) (simp_all add: fb_room_def)
  have le: "unat (fb_out b) + length bs \<le> unat (fb_last b)" using bs i by (simp add: fb_room_def)
  show inv: "fb_inv (fb_commit ?n (fb_fill bs b))"
    using b i o le unfolding c by (auto simp: fb_inv_defs fb_fill_def word_le_nat_alt split: option.splits)
  show "fb_bytes (fb_commit ?n (fb_fill bs b)) = fb_bytes b @ bs"
  proof (cases "fb_data b")
    case None
    then show ?thesis
      using fb_inv_data(2) [OF b None] bs
      by (simp add: fb_commit_def fb_fill_def fb_bytes_def fb_span_def fb_room_def)
  next
    case (Some d)
    have "length d = unat (fb_end b)" by (rule fb_inv_data(1) [OF b Some])
    moreover have "fb_data (fb_commit ?n (fb_fill bs b)) = Some (write_at (unat (fb_out b)) bs d)"
      "fb_in (fb_commit ?n (fb_fill bs b)) = fb_in b"
      "fb_out (fb_commit ?n (fb_fill bs b)) = fb_out b + ?n"
      using Some unfolding c by (simp_all add: fb_fill_def)
    ultimately show ?thesis
      using fb_bytes_Some [OF inv, of "write_at (unat (fb_out b)) bs d"] fb_bytes_Some [OF b Some]
        take_drop_write_at [of "unat (fb_in b)" "unat (fb_out b)" bs d] i le o
      by simp
  qed
  show "fb_max (fb_commit ?n (fb_fill bs b)) = fb_max b" "fb_end (fb_commit ?n (fb_fill bs b)) = fb_end b"
    by (simp_all add: fb_commit_def fb_fill_def)
qed

lemma fb_consume_rep:
  assumes b: "fb_inv b"
  shows "fb_inv (fb_consume n b)" "fb_bytes (fb_consume n b) = drop (unat n) (fb_bytes b)"
    "fb_max (fb_consume n b) = fb_max b" "fb_end (fb_consume n b) = fb_end b"
proof -
  note i = fb_inv_nat [OF b]
  let ?k = "min n (fb_size b)"
  have k: "unat ?k = min (unat n) (unat (fb_size b))"
    by (simp add: min_def word_le_nat_alt)
  have o: "unat (fb_in b + ?k) = unat (fb_in b) + unat ?k"
    using i k size_t_bound [of "fb_out b"] by (intro unat_add_lt) simp
  show inv: "fb_inv (fb_consume n b)"
    using b i o k by (auto simp: fb_inv_defs fb_consume_def word_le_nat_alt split: option.splits)
  show "fb_bytes (fb_consume n b) = drop (unat n) (fb_bytes b)"
  proof (cases "fb_data b")
    case None
    then show ?thesis by (simp add: fb_bytes_def fb_span_def fb_consume_def)
  next
    case (Some d)
    have "fb_bytes (fb_consume n b) =
        take (unat (fb_out b) - unat (fb_in b + ?k)) (drop (unat (fb_in b + ?k)) d)"
      using fb_bytes_Some [OF inv, of d] Some by (simp add: fb_consume_def)
    also have "\<dots> = drop (unat ?k) (fb_bytes b)"
      using fb_bytes_Some [OF b Some] o by (simp add: drop_take add.commute)
    also have "\<dots> = drop (unat n) (fb_bytes b)"
      using k fb_bytes_length [OF b] by (auto simp: min_def)
    finally show ?thesis .
  qed
  show "fb_max (fb_consume n b) = fb_max b" "fb_end (fb_consume n b) = fb_end b"
    by (simp_all add: fb_consume_def)
qed


lemma fb_reallocate_rep:
  assumes al: "allocator_ok al" and b: "fb_inv b" and n: "fb_size b \<le> n"
  shows "case fb_reallocate al n b of
      Inr b' \<Rightarrow> fb_inv b' \<and> fb_bytes b' = fb_bytes b \<and> fb_max b' = fb_max b \<and> fb_end b' = n
    | Inl e \<Rightarrow> e = BadAlloc"
proof (cases "al n")
  case None
  then show ?thesis by (simp add: fb_reallocate_def)
next
  case (Some d)
  have "unat (fb_size b) + unat (0 :: size_t) \<le> unat n" using n by (simp add: word_le_nat_alt)
  then show ?thesis
    using fb_new_block [OF al Some b, of 0] Some
    by (auto simp: fb_reallocate_def fb_destroy_def)
qed

lemma fb_reserve_rep:
  assumes "allocator_ok al" "fb_inv b"
  shows "case fb_reserve al n b of
      Inr b' \<Rightarrow> fb_inv b' \<and> fb_bytes b' = fb_bytes b \<and> fb_max b' = fb_max b \<and> n \<le> fb_capacity b'
    | Inl e \<Rightarrow> e = BadAlloc \<or> e = LengthError \<and> fb_max b < n"
proof (cases "fb_max b < n \<or> n \<le> fb_end b")
  case True
  then show ?thesis using assms by (auto simp: fb_reserve_def fb_capacity_def)
next
  case False
  have "fb_size b \<le> fb_end b" using fb_inv_nat [OF assms(2)] by (simp add: word_le_nat_alt)
  then have "fb_size b \<le> n" using False by (meson le_cases order_trans)
  then have "case fb_reallocate al n b of
      Inr b' \<Rightarrow> fb_inv b' \<and> fb_bytes b' = fb_bytes b \<and> fb_max b' = fb_max b \<and> fb_end b' = n
    | Inl e \<Rightarrow> e = BadAlloc"
    by (rule fb_reallocate_rep [OF assms])
  then show ?thesis using False by (auto simp: fb_reserve_def fb_capacity_def split: sum.splits)
qed

lemma fb_bytes_Nil: "fb_inv b \<Longrightarrow> fb_size b = 0 \<Longrightarrow> fb_bytes b = []"
  using fb_bytes_length [of b] by simp

lemma fb_shrink_to_fit_rep:
  assumes al: "allocator_ok al" and b: "fb_inv b"
  shows "case fb_shrink_to_fit al b of
      Inr b' \<Rightarrow> fb_inv b' \<and> fb_bytes b' = fb_bytes b \<and> fb_max b' = fb_max b \<and> fb_capacity b' = fb_size b
    | Inl e \<Rightarrow> e = BadAlloc"
proof -
  note i = fb_inv_nat [OF b]
  consider (none) "fb_size b = 0" | (exact) "fb_size b \<noteq> 0" "fb_size b = fb_end b"
    | (new) "fb_size b \<noteq> 0" "fb_size b \<noteq> fb_end b"
    by blast
  then show ?thesis
  proof cases
    case none
    then show ?thesis
      using fb_inv_destroy fb_bytes_Nil [OF b]
      by (simp add: fb_shrink_to_fit_def fb_capacity_def fb_destroy_def)
  next
    case exact
    then have "unat (fb_end b) \<noteq> 0" by (simp add: unat_eq_0)
    then have "fb_in b = 0" using i exact by (simp add: unat_eq_0 [symmetric])
    then show ?thesis using exact b by (simp add: fb_shrink_to_fit_def fb_capacity_def Let_def)
  next
    case new
    then show ?thesis
      using fb_reallocate_rep [OF al b, of "fb_size b"]
      by (auto simp: fb_shrink_to_fit_def fb_capacity_def Let_def split: sum.splits)
  qed
qed

lemma fb_copy_rep:
  assumes al: "allocator_ok al" and b: "fb_inv other"
  shows "case fb_copy al other of
      Inr b' \<Rightarrow> fb_inv b' \<and> fb_bytes b' = fb_bytes other \<and> fb_max b' = fb_max other
    | Inl e \<Rightarrow> e = BadAlloc"
proof (cases "fb_size other = 0")
  case True
  then show ?thesis
    using fb_bytes_Nil [OF b] fb_inv_new by (simp add: fb_copy_def fb_bytes_def fb_span_def fb_new_def)
next
  case False
  then have pos: "fb_size other > 0" by (simp add: word_neq_0_conv)
  show ?thesis
  proof (cases "al (fb_size other)")
    case None
    then show ?thesis using pos by (simp add: fb_copy_def Let_def)
  next
    case (Some d)
    have d: "length d = unat (fb_size other)" using al Some by (auto simp: allocator_ok_def)
    have len: "unat (fb_size other) = length (fb_bytes other)" using fb_bytes_length [OF b] by simp
    obtain d' where d': "fb_copy_into d (fb_bytes other) = Inr d'" "length d' = length d"
      "take (length (fb_bytes other)) d' = fb_bytes other"
      using fb_copy_into_ok [of "fb_bytes other" d] d len by auto
    show ?thesis
      using fb_front_rep [of d' "fb_size other" "fb_size other" "fb_bytes other" 0 "fb_new (fb_max other)"]
        d' d len pos Some
      by (simp add: fb_copy_def Let_def fb_new_def)
  qed
qed

lemma fb_assign_bytes_rep:
  assumes al: "allocator_ok al" and o: "fb_inv other" and b: "fb_inv b" and ne: "fb_size other \<noteq> 0"
  shows "case fb_assign_bytes al other b of
      Inr b' \<Rightarrow> fb_inv b' \<and> fb_bytes b' = fb_bytes other \<and> fb_max b' = fb_max b \<and>
        fb_end b' = max (fb_end b) (fb_size other)
    | Inl e \<Rightarrow> e = BadAlloc"
proof -
  let ?len = "fb_size other"
  have len: "unat ?len = length (fb_bytes other)" using fb_bytes_length [OF o] by simp
  have *: "\<exists>d'. fb_copy_into d (fb_bytes other) = Inr d' \<and>
      fb_inv (c\<lparr>fb_data := Some d', fb_in := 0, fb_out := ?len, fb_last := ?len\<rparr>) \<and>
      fb_bytes (c\<lparr>fb_data := Some d', fb_in := 0, fb_out := ?len, fb_last := ?len\<rparr>) = fb_bytes other"
    if d: "length d = unat (fb_end c)" and le: "?len \<le> fb_end c" for c d
  proof -
    obtain d' where d': "fb_copy_into d (fb_bytes other) = Inr d'" "length d' = length d"
      "take (length (fb_bytes other)) d' = fb_bytes other"
      using fb_copy_into_ok [of "fb_bytes other" d] d le len by (auto simp: word_le_nat_alt)
    have e: "c\<lparr>fb_data := Some d', fb_in := 0, fb_out := ?len, fb_last := ?len + 0, fb_end := fb_end c\<rparr>
        = c\<lparr>fb_data := Some d', fb_in := 0, fb_out := ?len, fb_last := ?len\<rparr>"
      by simp
    show ?thesis
      using fb_front_rep [of d' "fb_end c" ?len "fb_bytes other" 0 c] d' d le len
      unfolding e by (auto simp: word_le_nat_alt)
  qed
  show ?thesis
  proof (cases "?len > fb_end b")
    case True
    show ?thesis
    proof (cases "al ?len")
      case None
      then show ?thesis using True by (simp add: fb_assign_bytes_def)
    next
      case (Some d)
      have "length d = unat ?len" using al Some by (auto simp: allocator_ok_def)
      then obtain d' where "fb_copy_into d (fb_bytes other) = Inr d'"
        "fb_inv (((fb_destroy b)\<lparr>fb_data := Some d, fb_end := ?len\<rparr>)
          \<lparr>fb_data := Some d', fb_in := 0, fb_out := ?len, fb_last := ?len\<rparr>)"
        "fb_bytes (((fb_destroy b)\<lparr>fb_data := Some d, fb_end := ?len\<rparr>)
          \<lparr>fb_data := Some d', fb_in := 0, fb_out := ?len, fb_last := ?len\<rparr>) = fb_bytes other"
        using * [of d "(fb_destroy b)\<lparr>fb_data := Some d, fb_end := ?len\<rparr>"] by auto
      then show ?thesis
        using True Some by (auto simp: fb_assign_bytes_def fb_destroy_def max_def Let_def)
    qed
  next
    case False
    then have le: "?len \<le> fb_end b" by simp
    have "fb_end b \<noteq> 0" using le ne by auto
    then obtain d where d: "fb_data b = Some d" using b by (cases "fb_data b") (auto simp: fb_inv_defs)
    then show ?thesis
      using * [OF fb_inv_data(1) [OF b d] le] False le
      by (auto simp: fb_assign_bytes_def max_def Let_def)
  qed
qed


lemma fb_copy_assign_rep:
  assumes "allocator_ok al" "fb_inv other" "fb_inv b"
  shows "case fb_copy_assign al propagate equal other b of
      Inr b' \<Rightarrow> fb_inv b' \<and> fb_bytes b' = fb_bytes other \<and> fb_max b' = fb_max other
    | Inl e \<Rightarrow> e = BadAlloc"
proof (cases "fb_size other = 0")
  case True
  have clear: "fb_inv ((fb_clear c)\<lparr>fb_max := m\<rparr>) \<and> fb_bytes ((fb_clear c)\<lparr>fb_max := m\<rparr>) = []"
    if "fb_inv c" for c m
    using fb_inv_clear(1) [OF that] fb_inv_clear(2) [of c] by (simp add: fb_inv_def fb_bytes_def)
  show ?thesis
    using True clear [OF assms(3)] clear [OF fb_inv_destroy(1) [of b]] fb_bytes_Nil [OF assms(2)]
    by (simp add: fb_copy_assign_def)
next
  case False
  have max: "fb_inv (c\<lparr>fb_max := m\<rparr>) = fb_inv c" "fb_bytes (c\<lparr>fb_max := m\<rparr>) = fb_bytes c" for c m
    by (simp_all add: fb_inv_def fb_bytes_def)
  show ?thesis
    using False fb_copy_rep [OF assms(1,2)] fb_assign_bytes_rep [OF assms False]
    by (auto simp: fb_copy_assign_def max split: sum.splits)
qed

lemma fb_move_assign_rep:
  assumes "allocator_ok al" "fb_inv other" "fb_inv b"
  shows "case fb_move_assign al propagate equal other b of
      Inr (b', other') \<Rightarrow> fb_inv b' \<and> fb_bytes b' = fb_bytes other \<and> fb_max b' = fb_max other \<and>
        fb_inv other' \<and> fb_bytes other' = []
    | Inl e \<Rightarrow> e = BadAlloc"
proof (cases "propagate \<or> equal")
  case True
  have "fb_inv ((fst (fb_steal (fb_destroy b) other))\<lparr>fb_max := m\<rparr>) \<and>
      fb_bytes ((fst (fb_steal (fb_destroy b) other))\<lparr>fb_max := m\<rparr>) = fb_bytes other" for m
    using assms(2) by (simp add: fb_steal_def fb_inv_def fb_bytes_def)
  moreover have "snd (fb_steal (fb_destroy b) other) = fb_destroy other" by (simp add: fb_steal_def)
  ultimately show ?thesis
    using True fb_inv_destroy [of other]
    by (simp add: fb_move_assign_def case_prod_beta) (simp add: fb_destroy_def)
next
  case False
  have max: "fb_inv (c\<lparr>fb_max := m\<rparr>) = fb_inv c" "fb_bytes (c\<lparr>fb_max := m\<rparr>) = fb_bytes c" for c m
    by (simp_all add: fb_inv_def fb_bytes_def)
  show ?thesis
  proof (cases "fb_size other = 0")
    case True
    then show ?thesis
      using False fb_inv_clear(1) [OF assms(3)] fb_inv_clear(1) [OF assms(2)] fb_inv_clear(2) fb_bytes_Nil [OF assms(2)]
      by (simp add: fb_move_assign_def max)
  next
    case ne: False
    then show ?thesis
      using False fb_inv_clear(1) [OF assms(2)] fb_inv_clear(2) fb_assign_bytes_rep [OF assms ne]
      by (auto simp: fb_move_assign_def max split: sum.splits)
  qed
qed

section \<open>The flat buffer as a dynamic buffer\<close>

text \<open>
  The contract holds for buffers whose limit is at least the smallest capacity, 512; for smaller limits
  the capacity exceeds the limit, as shown at the end of the theory.
\<close>

definition fb_sound :: "flat_buffer \<Rightarrow> bool" where
  "fb_sound b \<longleftrightarrow> fb_inv b \<and> fb_end b \<le> fb_max b \<and> 512 \<le> fb_max b"

definition fb_prepare_state :: "allocator \<Rightarrow> size_t \<Rightarrow> flat_buffer \<Rightarrow> error + flat_buffer" where
  "fb_prepare_state al n b = map_sum id snd (fb_prepare al n b)"

lemma fb_sound_size: "fb_sound b \<Longrightarrow> fb_size b \<le> fb_max b"
  using fb_inv_nat [of b] by (auto simp: fb_sound_def word_le_nat_alt)

lemma fb_prepare_end:
  assumes "fb_sound b" "fb_prepare al n b = Inr r"
  shows "fb_end (snd r) \<le> fb_max b"
proof -
  have g: "fb_grow (fb_max b) need (max (fb_end b) 512) \<le> fb_max b" for need
    using assms(1) by (intro fb_grow_bounded) (simp add: fb_sound_def)
  show ?thesis
    using assms g by (auto simp: fb_prepare_def Let_def fb_sound_def split: if_splits option.splits sum.splits)
qed

locale flat_allocator =
  fixes al :: allocator
  assumes al_ok: "allocator_ok al"

sublocale flat_allocator \<subseteq> dynamic_buffer fb_sound fb_bytes fb_size fb_max fb_room "fb_prepare_state al" fb_fill
    fb_commit fb_consume
proof
  fix b b' :: flat_buffer and n :: size_t and bs :: "byte list"
  assume b: "fb_sound b"
  then have i: "fb_inv b" by (simp add: fb_sound_def)
  show "unat (fb_size b) = length (fb_bytes b)" using fb_bytes_length [OF i] by simp
  then show "length (fb_bytes b) \<le> unat (fb_max b)"
    using fb_sound_size [OF b] by (simp add: word_le_nat_alt)
  note rep = fb_prepare_rep [OF al_ok i fb_sound_size [OF b], of n]
  show "fb_sound b' \<and> fb_bytes b' = fb_bytes b \<and> fb_max b' = fb_max b \<and> (n \<noteq> 0 \<longrightarrow> unat n \<le> fb_room b')"
    if "fb_prepare_state al n b = Inr b'"
  proof (cases "n = 0")
    case True
    then show ?thesis using that b by (simp add: fb_prepare_state_def fb_prepare_def)
  next
    case False
    have "\<exists>r. fb_prepare al n b = Inr r \<and> b' = snd r"
      using that by (cases "fb_prepare al n b") (auto simp: fb_prepare_state_def)
    then obtain r where r: "fb_prepare al n b = Inr r" "b' = snd r" by blast
    have "fb_inv b' \<and> fb_bytes b' = fb_bytes b \<and> fb_max b' = fb_max b \<and> fb_room b' = unat n"
      using rep False r by (simp add: case_prod_beta)
    then show ?thesis
      using fb_prepare_end [OF b r(1)] r(2) b by (simp add: fb_sound_def)
  qed
  show "fb_prepare_state al n b \<noteq> Inl LengthError"
    if "length (fb_bytes b) + unat n \<le> unat (fb_max b)"
  proof (cases "n = 0")
    case True
    then show ?thesis by (simp add: fb_prepare_state_def fb_prepare_def)
  next
    case False
    then show ?thesis
      using rep that fb_bytes_length [OF i] by (auto simp: fb_prepare_state_def split: sum.splits)
  qed
  show "fb_sound (fb_commit (of_nat (length bs)) (fb_fill bs b)) \<and>
      fb_bytes (fb_commit (of_nat (length bs)) (fb_fill bs b)) = fb_bytes b @ bs \<and>
      fb_max (fb_commit (of_nat (length bs)) (fb_fill bs b)) = fb_max b"
    if "length bs \<le> fb_room b"
    using fb_commit_fill_rep [OF i that] b by (simp add: fb_sound_def)
  show "fb_sound (fb_consume n b) \<and> fb_bytes (fb_consume n b) = drop (unat n) (fb_bytes b) \<and>
      fb_max (fb_consume n b) = fb_max b"
    using fb_consume_rep [OF i] b by (simp add: fb_sound_def)
qed

text \<open>The standard allocator, as long as memory lasts: a block of the requested size.\<close>

definition heap_alloc :: allocator where
  "heap_alloc n = Some (replicate (unat n) 0)"

lemma heap_alloc_ok: "allocator_ok heap_alloc"
  by (simp add: allocator_ok_def heap_alloc_def)

interpretation flat: flat_allocator heap_alloc
  by unfold_locales (rule heap_alloc_ok)

section \<open>Properties\<close>

text \<open>An empty buffer prepared for three bytes.\<close>

definition fb_demo :: flat_buffer where
  "fb_demo = \<lparr>fb_max = 4096, fb_data = Some (replicate 512 0), fb_in = 0, fb_out = 0, fb_last = 3,
     fb_end = 512\<rparr>"

lemma fb_demo_prepare: "fb_prepare heap_alloc 3 (fb_new 4096) = Inr ((fb_out fb_demo, 3), fb_demo)"
  by (simp add: fb_prepare_def fb_new_def fb_size_def fb_grow.simps [of 4096 3 512] heap_alloc_def
      fb_bytes_def fb_span_def fb_copy_into_def fb_destroy_def fb_demo_def Let_def)

lemma fb_demo_inv: "fb_inv fb_demo"
  by (simp add: fb_demo_def fb_inv_defs)

text \<open>\<open>prepare(n)\<close> keeps the readable bytes whatever path it takes (room at the end, sliding the data
  to the front, a new block), and yields a span of exactly \<open>n\<close> bytes behind them; it fails only for want
  of memory or when the limit would be exceeded. This holds for every state in which the readable
  data does not exceed the limit.\<close>

lemma flat_buffer_prepare_correct:
  assumes "allocator_ok al" "fb_inv b" "fb_size b \<le> fb_max b" "n \<noteq> 0"
  shows "case fb_prepare al n b of
      Inr ((off, m), b') \<Rightarrow> fb_inv b' \<and> fb_bytes b' = fb_bytes b \<and> fb_max b' = fb_max b \<and>
        off = fb_out b' \<and> m = n \<and> fb_room b' = unat n
    | Inl e \<Rightarrow> e = BadAlloc \<or> e = LengthError \<and> unat (fb_max b) < unat (fb_size b) + unat n"
  by (rule fb_prepare_rep [OF assms])

text \<open>C11. The buffer is a queue of bytes: what a device stores in the prepared span and the caller
  commits is appended to the readable bytes, and \<open>consume\<close> removes bytes from their front.\<close>

theorem flat_buffer_queue:
  assumes "fb_inv b" "length bs \<le> fb_room b"
  shows "fb_bytes (fb_commit (of_nat (length bs)) (fb_fill bs b)) = fb_bytes b @ bs \<and>
    fb_bytes (fb_consume n (fb_commit (of_nat (length bs)) (fb_fill bs b))) =
      drop (unat n) (fb_bytes b @ bs) \<and>
    fb_inv (fb_consume n (fb_commit (of_nat (length bs)) (fb_fill bs b)))"
  using fb_commit_fill_rep [OF assms] fb_consume_rep by simp

theorem flat_buffer_queue_witness:
  "fb_bytes (fb_consume 1 (fb_commit (of_nat (length [7, 8, 9 :: byte])) (fb_fill [7, 8, 9] fb_demo))) = [8, 9]"
proof -
  have "fb_bytes fb_demo = []" "fb_room fb_demo = 3"
    by (simp_all add: fb_demo_def fb_bytes_def fb_span_def fb_room_def)
  then show ?thesis using flat_buffer_queue [OF fb_demo_inv, of "[7, 8, 9]" 1] by simp
qed

text \<open>Copying, assigning, moving, \<open>reserve\<close> and \<open>shrink_to_fit\<close> carry the readable bytes over unchanged,
  for every combination of allocator traits; a moved-from buffer is empty.\<close>

lemma flat_buffer_transfers_bytes:
  assumes "allocator_ok al" "fb_inv other" "fb_inv b"
  shows "(\<forall>c. fb_copy al other = Inr c \<longrightarrow> fb_bytes c = fb_bytes other) \<and>
    (\<forall>c. fb_copy_assign al propagate equal other b = Inr c \<longrightarrow> fb_bytes c = fb_bytes other) \<and>
    (\<forall>c o'. fb_move_assign al propagate equal other b = Inr (c, o') \<longrightarrow>
       fb_bytes c = fb_bytes other \<and> fb_bytes o' = []) \<and>
    (\<forall>c. fb_reserve al n b = Inr c \<longrightarrow> fb_bytes c = fb_bytes b \<and> n \<le> fb_capacity c) \<and>
    (\<forall>c. fb_shrink_to_fit al b = Inr c \<longrightarrow> fb_bytes c = fb_bytes b \<and> fb_capacity c = fb_size b)"
proof (intro conjI allI impI)
  fix c o'
  show "fb_copy al other = Inr c \<Longrightarrow> fb_bytes c = fb_bytes other"
    using fb_copy_rep [OF assms(1,2)] by simp
  show "fb_copy_assign al propagate equal other b = Inr c \<Longrightarrow> fb_bytes c = fb_bytes other"
    using fb_copy_assign_rep [OF assms, of propagate equal] by simp
  assume "fb_move_assign al propagate equal other b = Inr (c, o')"
  then show "fb_bytes c = fb_bytes other" "fb_bytes o' = []"
    using fb_move_assign_rep [OF assms, of propagate equal] by simp_all
next
  fix c
  assume "fb_reserve al n b = Inr c"
  then show "fb_bytes c = fb_bytes b" "n \<le> fb_capacity c"
    using fb_reserve_rep [OF assms(1,3), of n] by simp_all
next
  fix c
  assume "fb_shrink_to_fit al b = Inr c"
  then show "fb_bytes c = fb_bytes b" "fb_capacity c = fb_size b"
    using fb_shrink_to_fit_rep [OF assms(1,3)] by simp_all
qed

text \<open>A limit below 512 is not enforced: a buffer limited to 10 bytes that has been prepared for 10
  accepts 500, because its first block has the minimal capacity 512 and later calls look at the
  capacity first. Once more is stored than the limit, \<open>max_ - len\<close> wraps around, the capacity of the
  next block becomes the limit, and \<open>prepare\<close> copies the data past the end of that block.\<close>

definition fb_small_limit :: "error + ((size_t \<times> size_t) \<times> flat_buffer)" where
  "fb_small_limit =
     (case fb_prepare heap_alloc 10 (fb_new 10) of
        Inl e \<Rightarrow> Inl e
      | Inr (_, b) \<Rightarrow>
          (case fb_prepare heap_alloc 500 b of
             Inl e \<Rightarrow> Inl e
           | Inr (_, b) \<Rightarrow> fb_prepare heap_alloc 100 (fb_commit 500 b)))"

lemma fb_small_limit_first:
  "fb_prepare heap_alloc 10 (fb_new 10) = Inr ((0, 10), \<lparr>fb_max = 10, fb_data = Some (replicate 512 0),
     fb_in = 0, fb_out = 0, fb_last = 10, fb_end = 512\<rparr>)"
  by (simp add: fb_prepare_def fb_new_def fb_size_def fb_grow.simps [of 10 10 512] heap_alloc_def
      fb_bytes_def fb_span_def fb_copy_into_def fb_destroy_def Let_def)

lemma fb_small_limit_third:
  assumes "length d = 512"
  shows "fb_prepare heap_alloc 100 \<lparr>fb_max = 10, fb_data = Some d, fb_in = 0, fb_out = 500,
    fb_last = 500, fb_end = 512\<rparr> = Inl HeapOverflow"
  using assms
  by (simp add: fb_prepare_def fb_size_def fb_grow.simps [of 10 600 512] heap_alloc_def fb_bytes_def
      fb_span_def fb_copy_into_def Let_def)

lemma flat_buffer_small_limit_overflow: "fb_small_limit = Inl HeapOverflow"
proof -
  have "fb_prepare heap_alloc 500 \<lparr>fb_max = 10, fb_data = Some d, fb_in = 0, fb_out = 0, fb_last = 10,
      fb_end = 512\<rparr> = Inr ((0, 500), \<lparr>fb_max = 10, fb_data = Some d, fb_in = 0, fb_out = 0,
      fb_last = 500, fb_end = 512\<rparr>)" for d
    by (simp add: fb_prepare_def Let_def)
  then show ?thesis
    using fb_small_limit_third [of "replicate 512 0"]
    by (simp add: fb_small_limit_def fb_small_limit_first fb_commit_def)
qed

end
