(* ===== verification/Streambuf.thy ===== *)
theory Streambuf
  imports Dynamic_Buffer
begin

text \<open>
  \<open>basic_streambuf\<close> of \<open>include/coio/utils/streambuf.h\<close>: a vector of characters and the pointers of
  \<open>std::streambuf\<close> into it, kept as offsets from its start (\<open>eback\<close> is always the start). \<open>pbump\<close> and
  \<open>gbump\<close> take an \<open>int\<close>, to which the code converts its 64-bit counts; the conversion is written out.
  An operation that may throw returns the state it leaves behind in either case.
\<close>

record streambuf =
  sb_max :: size_t
  sb_buf :: "byte list"
  sb_gptr :: int
  sb_egptr :: int
  sb_pptr :: int
  sb_epptr :: int

definition sb_buffer_delta :: size_t where
  "sb_buffer_delta = 128"

definition sb_new :: "size_t \<Rightarrow> streambuf" where
  "sb_new m =
     (let pend = min m sb_buffer_delta
      in \<lparr>sb_max = m, sb_buf = replicate (unat (max pend 1)) 0, sb_gptr = 0, sb_egptr = 0,
        sb_pptr = 0, sb_epptr = uint pend\<rparr>)"

definition sb_size :: "streambuf \<Rightarrow> size_t" where
  "sb_size b = of_int (sb_pptr b - sb_gptr b)"

definition sb_bytes :: "streambuf \<Rightarrow> byte list" where
  "sb_bytes b = take (unat (sb_size b)) (drop (nat (sb_gptr b)) (sb_buf b))"

text \<open>The narrowing of a count to \<open>int\<close>.\<close>

definition to_int32 :: "size_t \<Rightarrow> int" where
  "to_int32 n = sint (ucast n :: 32 word)"

definition sb_resize :: "nat \<Rightarrow> byte list \<Rightarrow> byte list" where
  "sb_resize n d = take n d @ replicate (n - length d) 0"

text \<open>\<open>memmove(&buffer_[0], &buffer_[0] + g, n)\<close>.\<close>

definition sb_memmove :: "nat \<Rightarrow> nat \<Rightarrow> byte list \<Rightarrow> byte list" where
  "sb_memmove g n d = take n (drop g d) @ drop n d"

definition sb_reserve :: "size_t \<Rightarrow> streambuf \<Rightarrow> error option \<times> streambuf" where
  "sb_reserve n b =
     (let gnext = of_int (sb_gptr b) :: size_t;
          pnext = of_int (sb_pptr b) :: size_t;
          pend = of_int (sb_epptr b) :: size_t
      in if n \<le> pend - pnext then (None, b)
         else
           let (pnext, b) = (if gnext > 0
                 then (pnext - gnext,
                       b\<lparr>sb_buf := sb_memmove (unat gnext) (unat (pnext - gnext)) (sb_buf b)\<rparr>)
                 else (pnext, b))
           in if n > pend - pnext \<and> \<not> (n \<le> sb_max b \<and> pnext \<le> sb_max b - n) then (Some LengthError, b)
              else
                let (pend, b) = (if n > pend - pnext
                      then (pnext + n, b\<lparr>sb_buf := sb_resize (unat (max (pnext + n) 1)) (sb_buf b)\<rparr>)
                      else (pend, b))
                in (None, b\<lparr>sb_gptr := 0, sb_egptr := uint pnext, sb_pptr := uint pnext,
                     sb_epptr := uint pend\<rparr>))"

definition sb_prepare :: "size_t \<Rightarrow> streambuf \<Rightarrow> error option \<times> streambuf" where
  "sb_prepare n b = sb_reserve n b"

definition sb_commit :: "size_t \<Rightarrow> streambuf \<Rightarrow> streambuf" where
  "sb_commit n b =
     (let n = min n (of_int (sb_epptr b - sb_pptr b));
          b = b\<lparr>sb_pptr := sb_pptr b + to_int32 n\<rparr>
      in b\<lparr>sb_egptr := sb_pptr b\<rparr>)"

definition sb_consume :: "size_t \<Rightarrow> streambuf \<Rightarrow> streambuf" where
  "sb_consume n b =
     (let b = (if sb_egptr b < sb_pptr b then b\<lparr>sb_egptr := sb_pptr b\<rparr> else b);
          n = (if sb_gptr b + uint n > sb_pptr b then of_int (sb_pptr b - sb_gptr b) else n)
      in b\<lparr>sb_gptr := sb_gptr b + to_int32 n\<rparr>)"

text \<open>\<open>underflow\<close>: the next character, or nothing for \<open>eof\<close>.\<close>

definition sb_underflow :: "streambuf \<Rightarrow> byte option \<times> streambuf" where
  "sb_underflow b =
     (if sb_gptr b < sb_pptr b
      then (Some (sb_buf b ! nat (sb_gptr b)), b\<lparr>sb_egptr := sb_pptr b\<rparr>)
      else (None, b))"

text \<open>\<open>overflow\<close> with a character; with \<open>eof\<close> it does nothing.\<close>

definition sb_overflow :: "byte option \<Rightarrow> streambuf \<Rightarrow> error option \<times> streambuf" where
  "sb_overflow c b =
     (case c of
        None \<Rightarrow> (None, b)
      | Some ch \<Rightarrow>
          let r = (if sb_pptr b = sb_epptr b then
                     (let buffer_size = sb_size b
                      in if buffer_size < sb_max b \<and> sb_max b - buffer_size < sb_buffer_delta
                         then sb_reserve (sb_max b - buffer_size) b
                         else sb_reserve sb_buffer_delta b)
                   else (None, b))
          in case r of
               (Some e, b) \<Rightarrow> (Some e, b)
             | (None, b) \<Rightarrow>
                 (None, b\<lparr>sb_buf := (sb_buf b)[nat (sb_pptr b) := ch], sb_pptr := sb_pptr b + 1\<rparr>))"

definition sb_fill :: "byte list \<Rightarrow> streambuf \<Rightarrow> streambuf" where
  "sb_fill bs b = b\<lparr>sb_buf := write_at (nat (sb_pptr b)) bs (sb_buf b)\<rparr>"

section \<open>The invariant\<close>

definition sb_inv :: "streambuf \<Rightarrow> bool" where
  "sb_inv b \<longleftrightarrow> 0 \<le> sb_gptr b \<and> sb_gptr b \<le> sb_egptr b \<and> sb_egptr b \<le> sb_pptr b \<and>
     sb_pptr b \<le> sb_epptr b \<and> sb_epptr b \<le> int (length (sb_buf b)) \<and> sb_epptr b \<le> uint (sb_max b)"

lemma uint_max: "uint (a :: size_t) < 2 ^ 64"
proof -
  have "uint a < 2 ^ LENGTH(64)" by (rule unsigned_less)
  then show ?thesis by simp
qed

lemma sb_invD:
  assumes "sb_inv b"
  shows "0 \<le> sb_gptr b" "sb_gptr b \<le> sb_pptr b" "sb_pptr b \<le> sb_epptr b"
    "sb_epptr b \<le> int (length (sb_buf b))" "sb_epptr b \<le> uint (sb_max b)" "sb_epptr b < 2 ^ 64"
    "sb_gptr b \<le> sb_egptr b" "sb_egptr b \<le> sb_pptr b"
  using assms uint_max [of "sb_max b"] by (auto simp: sb_inv_def)

lemma uint_of_int_small: "0 \<le> i \<Longrightarrow> i < 2 ^ 64 \<Longrightarrow> uint (of_int i :: size_t) = i"
  by (simp add: unsigned_of_int take_bit_int_eq_self)

lemma unat_of_int_small: "0 \<le> i \<Longrightarrow> i < 2 ^ 64 \<Longrightarrow> unat (of_int i :: size_t) = nat i"
  using uint_of_int_small [of i] by (simp add: unat_eq_nat_uint)

lemma to_int32_small: "unat n < 2 ^ 31 \<Longrightarrow> to_int32 n = int (unat n)"
proof -
  assume n: "unat n < 2 ^ 31"
  have e: "int (unat n) = uint n" by simp
  have "int (unat n) < int (2 ^ 31)" using n by (simp only: of_nat_less_iff)
  then have u: "uint n < 2 ^ 31" by simp
  have "uint (ucast n :: 32 word) = uint n"
    using u by (simp add: unsigned_ucast_eq take_bit_int_eq_self)
  then have "sint (ucast n :: 32 word) = signed_take_bit 31 (uint n)"
    by (simp add: sint_uint)
  also have "\<dots> = uint n"
    using u by (intro signed_take_bit_int_eq_self) (auto intro: order_trans [of _ 0])
  finally show ?thesis unfolding to_int32_def e .
qed

lemma sb_inv_new: "sb_inv (sb_new m)" "sb_bytes (sb_new m) = []"
proof -
  have "int (unat (max (min m 128) 1)) = uint (max (min m 128) 1)" by simp
  moreover have "min m 128 \<le> max (min m 128) 1" "min m 128 \<le> m" by (rule max.cobounded1) simp
  ultimately show "sb_inv (sb_new m)"
    unfolding word_le_def by (simp only: sb_inv_def sb_new_def Let_def sb_buffer_delta_def
        streambuf.simps length_replicate) simp
  show "sb_bytes (sb_new m) = []" by (simp add: sb_bytes_def sb_new_def Let_def sb_size_def)
qed

lemma sb_size_unat: "sb_inv b \<Longrightarrow> unat (sb_size b) = nat (sb_pptr b - sb_gptr b)"
  using sb_invD [of b] unfolding sb_size_def by (intro unat_of_int_small) auto

lemma sb_bytes_length: "sb_inv b \<Longrightarrow> length (sb_bytes b) = unat (sb_size b)"
  using sb_invD [of b] sb_size_unat [of b] by (auto simp: sb_bytes_def)


text \<open>The readable bytes as a slice of the vector.\<close>

lemma sb_bytes_slice:
  assumes "sb_inv b"
  shows "sb_bytes b = take (nat (sb_pptr b) - nat (sb_gptr b)) (drop (nat (sb_gptr b)) (sb_buf b))"
  using sb_size_unat [OF assms] sb_invD [OF assms] by (simp add: sb_bytes_def nat_diff_distrib)

definition sb_room :: "streambuf \<Rightarrow> nat" where
  "sb_room b = nat (sb_epptr b - sb_pptr b)"

lemma sb_commit_fill_rep:
  assumes b: "sb_inv b" and bs: "length bs \<le> sb_room b" "length bs < 2 ^ 31"
  shows "sb_inv (sb_commit (of_nat (length bs)) (sb_fill bs b))"
    and "sb_bytes (sb_commit (of_nat (length bs)) (sb_fill bs b)) = sb_bytes b @ bs"
    and "sb_max (sb_commit (of_nat (length bs)) (sb_fill bs b)) = sb_max b"
proof -
  note i = sb_invD [OF b]
  let ?n = "of_nat (length bs) :: size_t"
  have n: "unat ?n = length bs" using bs(2) by (intro unat_of_nat_small) simp
  have "unat (of_int (sb_epptr b - sb_pptr b) :: size_t) = nat (sb_epptr b - sb_pptr b)"
    using i by (intro unat_of_int_small) auto
  then have "min ?n (of_int (sb_epptr b - sb_pptr b)) = ?n"
    using bs(1) n by (simp add: min_def word_le_nat_alt sb_room_def)
  moreover have "to_int32 ?n = int (length bs)" using to_int32_small [of ?n] n bs(2) by simp
  ultimately have c: "sb_commit ?n (sb_fill bs b) = b\<lparr>sb_buf := write_at (nat (sb_pptr b)) bs (sb_buf b),
      sb_pptr := sb_pptr b + int (length bs), sb_egptr := sb_pptr b + int (length bs)\<rparr>"
    by (simp add: sb_commit_def sb_fill_def Let_def)
  have fit: "nat (sb_pptr b) + length bs \<le> length (sb_buf b)"
    using i bs(1) by (simp add: sb_room_def)
  show inv: "sb_inv (sb_commit ?n (sb_fill bs b))"
    using i bs(1) fit unfolding c by (simp add: sb_inv_def sb_room_def)
  have "nat (sb_pptr b + int (length bs)) - nat (sb_gptr b) =
      nat (sb_pptr b) - nat (sb_gptr b) + length bs"
    using i by simp
  then show "sb_bytes (sb_commit ?n (sb_fill bs b)) = sb_bytes b @ bs"
    using sb_bytes_slice [OF inv] sb_bytes_slice [OF b] fit i
      take_drop_write_at [of "nat (sb_gptr b)" "nat (sb_pptr b)" bs "sb_buf b"]
    by (simp add: c)
  show "sb_max (sb_commit ?n (sb_fill bs b)) = sb_max b" by (simp add: c)
qed

lemma sb_consume_rep:
  assumes b: "sb_inv b" and n: "unat n < 2 ^ 31"
  shows "sb_inv (sb_consume n b)" "sb_bytes (sb_consume n b) = drop (unat n) (sb_bytes b)"
    "sb_max (sb_consume n b) = sb_max b"
proof -
  note i = sb_invD [OF b]
  define k where "k = min (unat n) (nat (sb_pptr b) - nat (sb_gptr b))"
  have u: "uint n = int (unat n)" by simp
  have "to_int32 (if sb_gptr b + uint n > sb_pptr b then of_int (sb_pptr b - sb_gptr b) else n) = int k"
  proof (cases "sb_gptr b + uint n > sb_pptr b")
    case True
    have w: "unat (of_int (sb_pptr b - sb_gptr b) :: size_t) = nat (sb_pptr b) - nat (sb_gptr b)"
      using i by (subst unat_of_int_small) (simp_all add: nat_diff_distrib)
    have lt: "nat (sb_pptr b) - nat (sb_gptr b) < unat n" using True i u by linarith
    have "to_int32 (of_int (sb_pptr b - sb_gptr b)) = int (unat (of_int (sb_pptr b - sb_gptr b) :: size_t))"
      by (rule to_int32_small) (use w lt n in linarith)
    also have "\<dots> = int k" unfolding w k_def using lt by simp
    finally have "to_int32 (of_int (sb_pptr b - sb_gptr b)) = int k" .
    then show ?thesis using True by (simp only: if_True)
  next
    case False
    then have "unat n \<le> nat (sb_pptr b) - nat (sb_gptr b)" using i u by linarith
    then show ?thesis using False to_int32_small [OF n] by (simp add: k_def)
  qed
  note m = this
  have c: "sb_consume n b = b\<lparr>sb_egptr := sb_pptr b, sb_gptr := sb_gptr b + int k\<rparr>"
  proof (cases "sb_gptr b + uint n > sb_pptr b")
    case True
    then show ?thesis using m i by (simp add: sb_consume_def Let_def del: of_int_diff)
  next
    case False
    then show ?thesis using m i by (simp add: sb_consume_def Let_def del: of_int_diff)
  qed
  have k: "int k \<le> sb_pptr b - sb_gptr b" using i by (simp add: k_def)
  show inv: "sb_inv (sb_consume n b)"
    using i k unfolding c by (simp add: sb_inv_def)
  have "nat (sb_gptr b + int k) = nat (sb_gptr b) + k" using i by (simp add: nat_add_distrib)
  then have "sb_bytes (sb_consume n b) = drop k (sb_bytes b)"
    using sb_bytes_slice [OF inv] sb_bytes_slice [OF b] by (simp add: c drop_take add.commute)
  also have "\<dots> = drop (unat n) (sb_bytes b)"
    using sb_bytes_length [OF b] sb_size_unat [OF b] i by (simp add: k_def min_def nat_diff_distrib)
  finally show "sb_bytes (sb_consume n b) = drop (unat n) (sb_bytes b)" .
  show "sb_max (sb_consume n b) = sb_max b" by (simp add: c)
qed

text \<open>\<open>reserve\<close>: the state after success, and when it fails.\<close>

lemma sb_memmove_ok:
  assumes "g \<le> p" "p \<le> length d"
  shows "length (sb_memmove g (p - g) d) = length d"
    "take (p - g) (sb_memmove g (p - g) d) = take (p - g) (drop g d)"
  using assms by (simp_all add: sb_memmove_def)

lemma sb_front_rep:
  assumes "length xs = unat p" "p \<le> e" "unat e \<le> length d" "take (unat p) d = xs" "e \<le> sb_max b"
  shows "sb_inv (b\<lparr>sb_buf := d, sb_gptr := 0, sb_egptr := uint p, sb_pptr := uint p, sb_epptr := uint e\<rparr>)"
    and "sb_bytes (b\<lparr>sb_buf := d, sb_gptr := 0, sb_egptr := uint p, sb_pptr := uint p, sb_epptr := uint e\<rparr>) = xs"
proof -
  have "int (unat e) = uint e" by simp
  then have "uint e \<le> int (length d)" using assms(3) by linarith
  then show inv: "sb_inv (b\<lparr>sb_buf := d, sb_gptr := 0, sb_egptr := uint p, sb_pptr := uint p, sb_epptr := uint e\<rparr>)"
    using assms(2,5) by (simp add: sb_inv_def word_le_def)
  show "sb_bytes (b\<lparr>sb_buf := d, sb_gptr := 0, sb_egptr := uint p, sb_pptr := uint p, sb_epptr := uint e\<rparr>) = xs"
    using sb_bytes_slice [OF inv] assms(4) by simp
qed

lemma sb_reserve_rep:
  assumes b: "sb_inv b"
  shows "case sb_reserve n b of
      (None, b') \<Rightarrow> sb_inv b' \<and> sb_bytes b' = sb_bytes b \<and> sb_max b' = sb_max b \<and> unat n \<le> sb_room b'
    | (Some e, b') \<Rightarrow> e = LengthError \<and> unat (sb_max b) < unat (sb_size b) + unat n"
proof -
  note i = sb_invD [OF b]
  let ?g = "of_int (sb_gptr b) :: size_t" and ?p = "of_int (sb_pptr b) :: size_t"
    and ?e = "of_int (sb_epptr b) :: size_t"
  have u: "unat ?g = nat (sb_gptr b)" "unat ?p = nat (sb_pptr b)" "unat ?e = nat (sb_epptr b)"
    using i by (intro unat_of_int_small; simp)+
  have le: "?g \<le> ?p" "?p \<le> ?e" using u i by (simp_all add: word_le_nat_alt)
  define l where "l = ?p - ?g"
  have l: "unat l = nat (sb_pptr b) - nat (sb_gptr b)" using le u by (simp add: l_def unat_sub_le)
  define d where "d = (if ?g > 0 then sb_memmove (unat ?g) (unat l) (sb_buf b) else sb_buf b)"
  have len: "length (sb_bytes b) = unat l"
    using sb_bytes_length [OF b] sb_size_unat [OF b] l i by (simp add: nat_diff_distrib)
  have d: "length d = length (sb_buf b)" "take (unat l) d = sb_bytes b"
  proof -
    have g0: "\<not> ?g > 0 \<Longrightarrow> nat (sb_gptr b) = 0" using u(1) by (simp add: word_neq_0_conv [symmetric])
    show "length d = length (sb_buf b)" "take (unat l) d = sb_bytes b"
      using sb_memmove_ok [of "nat (sb_gptr b)" "nat (sb_pptr b)" "sb_buf b"] sb_bytes_slice [OF b] i g0 u(1) l
      by (auto simp: d_def)
  qed
  have move: "(if ?g > 0 then (?p - ?g, b\<lparr>sb_buf := sb_memmove (unat ?g) (unat (?p - ?g)) (sb_buf b)\<rparr>)
      else (?p, b)) = (l, b\<lparr>sb_buf := d\<rparr>)"
    by (simp add: l_def d_def word_neq_0_conv [symmetric])
  have r: "sb_reserve n b =
      (if n \<le> ?e - ?p then (None, b)
       else if n > ?e - l \<and> \<not> (n \<le> sb_max b \<and> l \<le> sb_max b - n) then (Some LengthError, b\<lparr>sb_buf := d\<rparr>)
       else if n > ?e - l
         then (None, b\<lparr>sb_buf := sb_resize (unat (max (l + n) 1)) d, sb_gptr := 0, sb_egptr := uint l,
           sb_pptr := uint l, sb_epptr := uint (l + n)\<rparr>)
         else (None, b\<lparr>sb_buf := d, sb_gptr := 0, sb_egptr := uint l, sb_pptr := uint l,
           sb_epptr := uint ?e\<rparr>))"
    unfolding sb_reserve_def Let_def move by simp
  have size: "unat (sb_size b) = unat l" using sb_size_unat [OF b] l i by (simp add: nat_diff_distrib)
  have ue: "uint ?e = sb_epptr b" using i by (intro uint_of_int_small) auto
  have em: "?e \<le> sb_max b" unfolding word_le_def ue by (rule i(5))
  have "nat (sb_pptr b) \<le> nat (sb_epptr b)" using i by (simp add: nat_mono)
  then have lle: "l \<le> ?e" using l u unfolding word_le_nat_alt by linarith
  have "int (unat ?e) = uint ?e" by simp
  then have ed: "unat ?e \<le> length d" using i(4) ue d(1) by linarith
  consider (now) "n \<le> ?e - ?p" | (long) "\<not> n \<le> ?e - ?p" "n > ?e - l" "\<not> (n \<le> sb_max b \<and> l \<le> sb_max b - n)"
    | (grow) "\<not> n \<le> ?e - ?p" "n > ?e - l" "n \<le> sb_max b" "l \<le> sb_max b - n"
    | (slide) "\<not> n \<le> ?e - ?p" "\<not> n > ?e - l"
    by blast
  then show ?thesis
  proof cases
    case now
    then have "unat n \<le> nat (sb_epptr b) - nat (sb_pptr b)"
      using u le by (simp add: word_le_nat_alt unat_sub_le)
    then show ?thesis using r now b i by (simp add: sb_room_def nat_diff_distrib)
  next
    case long
    then have "unat (sb_max b) < unat l + unat n" by (auto simp: word_le_nat_alt unat_sub_le)
    then show ?thesis using r long size by simp
  next
    case grow
    have ln: "unat l + unat n \<le> unat (sb_max b)"
      using grow(3,4) by (simp add: word_le_nat_alt unat_sub_le)
    then have a: "unat (l + n) = unat l + unat n"
      using size_t_bound [of "sb_max b"] by (intro unat_add_lt) simp
    let ?d = "sb_resize (unat (max (l + n) 1)) d"
    have "l + n \<le> max (l + n) 1" by simp
    then have m: "unat (l + n) \<le> unat (max (l + n) 1)" by (simp only: word_le_nat_alt)
    have l1: "unat l \<le> unat (max (l + n) 1)" using m a by linarith
    have "unat l \<le> length d" using d(2) len by (metis length_take min.cobounded1 min_def nle_le)
    then have f1: "take (unat l) ?d = sb_bytes b" using d(2) l1 by (simp add: sb_resize_def)
    have f2: "unat (l + n) \<le> length ?d" using m by (simp add: sb_resize_def)
    have f3: "l \<le> l + n" "l + n \<le> sb_max b" using a ln by (simp_all add: word_le_nat_alt)
    note f = sb_front_rep [OF len f3(1) f2 f1 f3(2)]
    moreover have "unat n \<le> nat (uint (l + n) - uint l)"
    proof -
      have "int (unat (l + n)) = uint (l + n)" "int (unat l) = uint l" by simp_all
      then show ?thesis using a by linarith
    qed
    moreover have "sb_reserve n b = (None, b\<lparr>sb_buf := ?d, sb_gptr := 0, sb_egptr := uint l,
        sb_pptr := uint l, sb_epptr := uint (l + n)\<rparr>)"
      using r grow by simp
    ultimately show ?thesis using f by (simp add: sb_room_def)
  next
    case slide
    have "unat n \<le> unat ?e - unat l" using slide(2) lle by (simp add: word_less_nat_alt unat_sub_le)
    moreover have "int (unat ?e) = uint ?e" "int (unat l) = uint l" by simp_all
    ultimately have "unat n \<le> nat (uint ?e - uint l)" by linarith
    moreover have "sb_reserve n b = (None, b\<lparr>sb_buf := d, sb_gptr := 0, sb_egptr := uint l,
        sb_pptr := uint l, sb_epptr := uint ?e\<rparr>)"
      using r slide by simp
    ultimately show ?thesis
      using sb_front_rep [OF len lle ed d(2) em] by (simp add: sb_room_def)
  qed
qed


section \<open>The stream buffer as a dynamic buffer\<close>

definition sb_prepare_state :: "size_t \<Rightarrow> streambuf \<Rightarrow> error + streambuf" where
  "sb_prepare_state n b = (case sb_prepare n b of (Some e, _) \<Rightarrow> Inl e | (None, b) \<Rightarrow> Inr b)"

interpretation stream: dynamic_buffer sb_inv sb_bytes sb_size sb_max sb_room sb_prepare_state sb_fill sb_commit
    sb_consume
proof
  fix b b' :: streambuf and n :: size_t and bs :: "byte list"
  assume b: "sb_inv b"
  show "unat (sb_size b) = length (sb_bytes b)" using sb_bytes_length [OF b] by simp
  moreover have "int (unat (sb_max b)) = uint (sb_max b)" by simp
  then have "unat (sb_size b) \<le> unat (sb_max b)"
    using sb_size_unat [OF b] sb_invD [OF b] by linarith
  ultimately show "length (sb_bytes b) \<le> unat (sb_max b)" by simp
  note r = sb_reserve_rep [OF b, of n]
  show "sb_inv b' \<and> sb_bytes b' = sb_bytes b \<and> sb_max b' = sb_max b \<and> (n \<noteq> 0 \<longrightarrow> unat n \<le> sb_room b')"
    if "sb_prepare_state n b = Inr b'"
    using r that by (auto simp: sb_prepare_state_def sb_prepare_def split: prod.splits option.splits)
  show "sb_prepare_state n b \<noteq> Inl LengthError"
    if "length (sb_bytes b) + unat n \<le> unat (sb_max b)"
    using r that sb_bytes_length [OF b]
    by (auto simp: sb_prepare_state_def sb_prepare_def split: prod.splits option.splits)
  show "sb_inv (sb_commit (of_nat (length bs)) (sb_fill bs b)) \<and>
      sb_bytes (sb_commit (of_nat (length bs)) (sb_fill bs b)) = sb_bytes b @ bs \<and>
      sb_max (sb_commit (of_nat (length bs)) (sb_fill bs b)) = sb_max b"
    if "length bs \<le> sb_room b" "length bs < 2 ^ 31"
    using sb_commit_fill_rep [OF b that] by simp
  show "sb_inv (sb_consume n b) \<and> sb_bytes (sb_consume n b) = drop (unat n) (sb_bytes b) \<and>
      sb_max (sb_consume n b) = sb_max b"
    if "unat n < 2 ^ 31"
    using sb_consume_rep [OF b that] by simp
qed

section \<open>Characters\<close>

lemma sb_underflow_rep:
  assumes b: "sb_inv b"
  shows "fst (sb_underflow b) = (case sb_bytes b of [] \<Rightarrow> None | c # _ \<Rightarrow> Some c)"
    "sb_inv (snd (sb_underflow b))" "sb_bytes (snd (sb_underflow b)) = sb_bytes b"
proof -
  note i = sb_invD [OF b]
  show inv: "sb_inv (snd (sb_underflow b))" using i by (simp add: sb_inv_def sb_underflow_def)
  show "sb_bytes (snd (sb_underflow b)) = sb_bytes b"
    by (simp add: sb_bytes_def sb_size_def sb_underflow_def)
  show "fst (sb_underflow b) = (case sb_bytes b of [] \<Rightarrow> None | c # _ \<Rightarrow> Some c)"
  proof (cases "sb_gptr b < sb_pptr b")
    case True
    then have "nat (sb_gptr b) < length (sb_buf b)" using i by linarith
    then have "drop (nat (sb_gptr b)) (sb_buf b) =
        sb_buf b ! nat (sb_gptr b) # drop (Suc (nat (sb_gptr b))) (sb_buf b)"
      by (rule Cons_nth_drop_Suc [symmetric])
    moreover obtain m where "nat (sb_pptr b) - nat (sb_gptr b) = Suc m"
      using True i by (metis Suc_pred diff_is_0_eq' nat_less_eq_zless not_gr_zero not_le order.strict_trans1 zero_less_diff)
    ultimately show ?thesis using True sb_bytes_slice [OF b] by (simp add: sb_underflow_def)
  next
    case False
    then show ?thesis using sb_bytes_slice [OF b] i by (simp add: sb_underflow_def)
  qed
qed

section \<open>Properties\<close>

text \<open>The stream buffer is a queue of bytes: preparing keeps the readable bytes and makes the requested
  room, or throws exactly when the limit would be exceeded; committed bytes are appended and consumed
  bytes removed from the front. Counts are below 2^31, as the code converts them to \<open>int\<close>.\<close>

lemma streambuf_queue:
  assumes "sb_inv b" "unat n < 2 ^ 31"
  shows "(case sb_prepare n b of
      (None, b') \<Rightarrow> sb_bytes b' = sb_bytes b \<and> (\<forall>bs. length bs \<le> unat n \<longrightarrow>
        sb_bytes (sb_commit (of_nat (length bs)) (sb_fill bs b')) = sb_bytes b @ bs)
    | (Some e, b') \<Rightarrow> e = LengthError \<and> unat (sb_max b) < unat (sb_size b) + unat n) \<and>
    sb_bytes (sb_consume n b) = drop (unat n) (sb_bytes b)"
proof
  show "sb_bytes (sb_consume n b) = drop (unat n) (sb_bytes b)"
    using stream.consume_bytes [OF assms] by blast
  have "sb_bytes (sb_commit (of_nat (length bs)) (sb_fill bs b')) = sb_bytes b @ bs"
    if "sb_inv b'" "sb_bytes b' = sb_bytes b" "unat n \<le> sb_room b'" "length bs \<le> unat n" for b' bs
    using that assms(2) sb_commit_fill_rep(2) [OF that(1), of bs] by simp
  then show "case sb_prepare n b of
      (None, b') \<Rightarrow> sb_bytes b' = sb_bytes b \<and> (\<forall>bs. length bs \<le> unat n \<longrightarrow>
        sb_bytes (sb_commit (of_nat (length bs)) (sb_fill bs b')) = sb_bytes b @ bs)
    | (Some e, b') \<Rightarrow> e = LengthError \<and> unat (sb_max b) < unat (sb_size b) + unat n"
    using sb_reserve_rep [OF assms(1), of n]
    by (auto simp: sb_prepare_def split: prod.split option.split)
qed

text \<open>A \<open>prepare\<close> that throws is not harmless: when it has to slide the data and then finds the limit
  too small, it has already moved the characters but not the pointers, so that the readable bytes
  change under the caller.\<close>

definition sb_demo :: streambuf where
  "sb_demo = sb_consume 1 (sb_commit 4 (sb_fill [1, 2, 3, 4] (sb_new 4)))"

lemma streambuf_failed_prepare_moves_data:
  "sb_bytes sb_demo = [2, 3, 4] \<and>
   (case sb_prepare 2 sb_demo of (e, b) \<Rightarrow> e = Some LengthError \<and> sb_bytes b = [3, 4, 4])"
proof -
  have d: "sb_demo = \<lparr>sb_max = 4, sb_buf = [1, 2, 3, 4], sb_gptr = 1, sb_egptr = 4, sb_pptr = 4, sb_epptr = 4\<rparr>"
    by (simp add: sb_demo_def sb_consume_def sb_commit_def sb_fill_def sb_new_def sb_buffer_delta_def
        to_int32_def write_at_def)
  show ?thesis
    unfolding d
    by (simp add: sb_bytes_def sb_size_def sb_prepare_def sb_reserve_def sb_memmove_def)
qed

end
