(* ===== verification/Io_Algorithms.thy ===== *)
theory Io_Algorithms
  imports Flat_Buffer Streambuf
begin

text \<open>
  The transfer algorithms of \<open>include/coio/asyncio/io.h\<close>: reading and writing whole buffers, at an offset
  or not, and reading until a delimiter, each in a blocking and an asynchronous form.

  A device is a parameter: a function for each of its operations and a state \<open>'d\<close>. A span to be filled
  is the list of bytes stored in it so far, as the algorithms fill it from the start. The predicates
  \<open>reader_ok\<close>, \<open>writer_ok\<close> and their like state what \<open>read_some\<close> and \<open>write_some\<close> promise: for a span that
  is not empty they transfer at least one byte and at most its size, or throw. The loops are partial
  functions; \<^term>\<open>None\<close> is a call that does not return.
\<close>

type_synonym 'd reader = "size_t \<Rightarrow> 'd \<Rightarrow> error + (byte list \<times> 'd)"
type_synonym 'd writer = "byte list \<Rightarrow> 'd \<Rightarrow> error + (size_t \<times> 'd)"

record 'b buffer_ops =
  bo_data :: "'b \<Rightarrow> byte list"
  bo_size :: "'b \<Rightarrow> size_t"
  bo_capacity :: "'b \<Rightarrow> size_t"
  bo_max :: "'b \<Rightarrow> size_t"
  bo_prepare :: "size_t \<Rightarrow> 'b \<Rightarrow> error + 'b"
  bo_fill :: "byte list \<Rightarrow> 'b \<Rightarrow> 'b"
  bo_commit :: "size_t \<Rightarrow> 'b \<Rightarrow> 'b"
  bo_consume :: "size_t \<Rightarrow> 'b \<Rightarrow> 'b"

section \<open>Reading and writing whole buffers\<close>

partial_function (option) io_read_loop ::
  "'d reader \<Rightarrow> byte list \<Rightarrow> 'd \<Rightarrow> size_t \<Rightarrow> (error + (byte list \<times> 'd)) option" where
  "io_read_loop rd stored d remain =
     (case rd remain d of
        Inl e \<Rightarrow> Some (Inl e)
      | Inr r \<Rightarrow>
          let left = remain - of_nat (length (fst r))
          in if left > 0 then io_read_loop rd (stored @ fst r) (snd r) left
             else Some (Inr (stored @ fst r, snd r)))"

definition io_read :: "'d reader \<Rightarrow> size_t \<Rightarrow> 'd \<Rightarrow> (error + (byte list \<times> 'd)) option" where
  "io_read rd amount d = (if amount = 0 then Some (Inr ([], d)) else io_read_loop rd [] d amount)"

definition io_read_buffer ::
  "'b buffer_ops \<Rightarrow> 'd reader \<Rightarrow> size_t \<Rightarrow> 'd \<times> 'b \<Rightarrow> (error + (size_t \<times> 'd \<times> 'b)) option" where
  "io_read_buffer bo rd amount s =
     (case bo_prepare bo amount (snd s) of
        Inl e \<Rightarrow> Some (Inl e)
      | Inr b \<Rightarrow>
          map_option (map_sum id (\<lambda>r. (amount, snd r, bo_commit bo amount (bo_fill bo (fst r) b))))
            (io_read rd amount (fst s)))"

partial_function (option) io_write_loop ::
  "'d writer \<Rightarrow> byte list \<Rightarrow> 'd \<Rightarrow> size_t \<Rightarrow> (error + 'd) option" where
  "io_write_loop wr bs d remain =
     (case wr (drop (length bs - unat remain) bs) d of
        Inl e \<Rightarrow> Some (Inl e)
      | Inr r \<Rightarrow>
          let left = remain - fst r
          in if left > 0 then io_write_loop wr bs (snd r) left else Some (Inr (snd r)))"

definition io_write :: "'d writer \<Rightarrow> byte list \<Rightarrow> 'd \<Rightarrow> (error + (size_t \<times> 'd)) option" where
  "io_write wr bs d =
     (if bs = [] then Some (Inr (0, d))
      else map_option (map_sum id (Pair (of_nat (length bs)))) (io_write_loop wr bs d (of_nat (length bs))))"

definition io_write_buffer ::
  "'b buffer_ops \<Rightarrow> 'd writer \<Rightarrow> 'd \<times> 'b \<Rightarrow> (error + (size_t \<times> 'd \<times> 'b)) option" where
  "io_write_buffer bo wr s =
     map_option (map_sum id (\<lambda>r. (fst r, snd r, bo_consume bo (fst r) (snd s))))
       (io_write wr (bo_data bo (snd s)) (fst s))"

partial_function (option) io_read_at_loop ::
  "(size_t \<Rightarrow> 'd reader) \<Rightarrow> byte list \<Rightarrow> 'd \<Rightarrow> size_t \<Rightarrow> size_t \<Rightarrow> (error + (byte list \<times> 'd)) option" where
  "io_read_at_loop rd stored d remain offset =
     (case rd offset remain d of
        Inl e \<Rightarrow> Some (Inl e)
      | Inr r \<Rightarrow>
          let n = of_nat (length (fst r)); left = remain - n
          in if left > 0 then io_read_at_loop rd (stored @ fst r) (snd r) left (offset + n)
             else Some (Inr (stored @ fst r, snd r)))"

definition io_read_at ::
  "(size_t \<Rightarrow> 'd reader) \<Rightarrow> size_t \<Rightarrow> size_t \<Rightarrow> 'd \<Rightarrow> (error + (byte list \<times> 'd)) option" where
  "io_read_at rd offset amount d =
     (if amount = 0 then Some (Inr ([], d)) else io_read_at_loop rd [] d amount offset)"

definition io_read_at_buffer ::
  "'b buffer_ops \<Rightarrow> (size_t \<Rightarrow> 'd reader) \<Rightarrow> size_t \<Rightarrow> size_t \<Rightarrow> 'd \<times> 'b \<Rightarrow>
   (error + (size_t \<times> 'd \<times> 'b)) option" where
  "io_read_at_buffer bo rd offset amount s =
     (case bo_prepare bo amount (snd s) of
        Inl e \<Rightarrow> Some (Inl e)
      | Inr b \<Rightarrow>
          map_option (map_sum id (\<lambda>r. (amount, snd r, bo_commit bo amount (bo_fill bo (fst r) b))))
            (io_read_at rd offset amount (fst s)))"

partial_function (option) io_write_at_loop ::
  "(size_t \<Rightarrow> 'd writer) \<Rightarrow> byte list \<Rightarrow> 'd \<Rightarrow> size_t \<Rightarrow> size_t \<Rightarrow> (error + 'd) option" where
  "io_write_at_loop wr bs d remain offset =
     (case wr offset (drop (length bs - unat remain) bs) d of
        Inl e \<Rightarrow> Some (Inl e)
      | Inr r \<Rightarrow>
          let left = remain - fst r
          in if left > 0 then io_write_at_loop wr bs (snd r) left (offset + fst r)
             else Some (Inr (snd r)))"

definition io_write_at ::
  "(size_t \<Rightarrow> 'd writer) \<Rightarrow> size_t \<Rightarrow> byte list \<Rightarrow> 'd \<Rightarrow> (error + (size_t \<times> 'd)) option" where
  "io_write_at wr offset bs d =
     (if bs = [] then Some (Inr (0, d))
      else map_option (map_sum id (Pair (of_nat (length bs))))
        (io_write_at_loop wr bs d (of_nat (length bs)) offset))"

definition io_write_at_buffer ::
  "'b buffer_ops \<Rightarrow> (size_t \<Rightarrow> 'd writer) \<Rightarrow> size_t \<Rightarrow> 'd \<times> 'b \<Rightarrow>
   (error + (size_t \<times> 'd \<times> 'b)) option" where
  "io_write_at_buffer bo wr offset s =
     map_option (map_sum id (\<lambda>r. (fst r, snd r, bo_consume bo (fst r) (snd s))))
       (io_write_at wr offset (bo_data bo (snd s)) (fst s))"

section \<open>Reading until a delimiter\<close>

text \<open>The search loops: the first index from \<open>i\<close> on, among \<open>k\<close>, at which \<open>P\<close> holds.\<close>

fun find_from :: "(nat \<Rightarrow> bool) \<Rightarrow> nat \<Rightarrow> nat \<Rightarrow> nat option" where
  "find_from P i 0 = None"
| "find_from P i (Suc k) = (if P i then Some i else find_from P (i + 1) k)"

definition search_char :: "byte \<Rightarrow> byte list \<Rightarrow> nat \<Rightarrow> nat" where
  "search_char c data search_pos =
     (case find_from (\<lambda>i. data ! i = c) search_pos (length data - search_pos) of
        Some i \<Rightarrow> i + 1
      | None \<Rightarrow> 0)"

definition search_string :: "byte list \<Rightarrow> byte list \<Rightarrow> nat \<Rightarrow> nat" where
  "search_string delim data search_pos =
     (let start = (if search_pos > length delim - 1 then search_pos - length delim + 1 else 0)
      in if length data \<ge> length delim then
           (case find_from (\<lambda>i. take (length delim) (drop i data) = delim) start
               (length data - length delim + 1 - start) of
              Some i \<Rightarrow> i + length delim
            | None \<Rightarrow> 0)
         else 0)"

definition bytes_to_read :: "'b buffer_ops \<Rightarrow> 'b \<Rightarrow> size_t" where
  "bytes_to_read bo b =
     min (max 512 (bo_capacity bo b - bo_size bo b)) (min 65536 (bo_max bo b - bo_size bo b))"

partial_function (option) io_read_until_loop ::
  "(byte list \<Rightarrow> nat \<Rightarrow> nat) \<Rightarrow> 'b buffer_ops \<Rightarrow> 'd reader \<Rightarrow> nat \<Rightarrow> 'd \<times> 'b \<Rightarrow>
   (error + (nat \<times> 'd \<times> 'b)) option" where
  "io_read_until_loop search bo rd search_pos s =
     (let data = bo_data bo (snd s); pos = search data search_pos
      in if pos > 0 then Some (Inr (pos, s))
         else if bo_size bo (snd s) = bo_max bo (snd s) then Some (Inl NotFound)
         else
           let n = bytes_to_read bo (snd s)
           in case bo_prepare bo n (snd s) of
                Inl e \<Rightarrow> Some (Inl e)
              | Inr b \<Rightarrow>
                  (case rd n (fst s) of
                     Inl e \<Rightarrow> Some (Inl e)
                   | Inr r \<Rightarrow>
                       io_read_until_loop search bo rd (length data)
                         (snd r, bo_commit bo (of_nat (length (fst r))) (bo_fill bo (fst r) b))))"

definition io_read_until_char ::
  "'b buffer_ops \<Rightarrow> 'd reader \<Rightarrow> byte \<Rightarrow> 'd \<times> 'b \<Rightarrow> (error + (nat \<times> 'd \<times> 'b)) option" where
  "io_read_until_char bo rd delim s = io_read_until_loop (search_char delim) bo rd 0 s"

definition io_read_until ::
  "'b buffer_ops \<Rightarrow> 'd reader \<Rightarrow> byte list \<Rightarrow> 'd \<times> 'b \<Rightarrow> (error + (nat \<times> 'd \<times> 'b)) option" where
  "io_read_until bo rd delim s =
     (if delim = [] then Some (Inr (0, s))
      else if length delim = 1 then io_read_until_char bo rd (delim ! 0) s
      else io_read_until_loop (search_string delim) bo rd 0 s)"

section \<open>The asynchronous forms\<close>

text \<open>What a started operation completes with; \<open>operation_canceled\<close> is \<open>std::errc::operation_canceled\<close>.\<close>

datatype 'r io_outcome = IoValue 'r | IoError error | IoStopped

definition operation_canceled :: error where
  "operation_canceled = SystemError 125"

text \<open>
  \<open>transfer_bytes_sender\<close>: \<open>op\<close> starts the next operation and returns its outcome, \<open>cont\<close> is the
  continuation, which updates the arguments of the next operation and says whether to go on. The
  result is the error code, if any, and the number of bytes accumulated.
\<close>

partial_function (option) transfer_bytes ::
  "('s \<Rightarrow> size_t io_outcome \<times> 's) \<Rightarrow> (size_t \<Rightarrow> 's \<Rightarrow> bool \<times> 's) \<Rightarrow> size_t \<Rightarrow> 's \<Rightarrow>
   (error option \<times> size_t \<times> 's) option" where
  "transfer_bytes op cont accumulated s =
     (case fst (op s) of
        IoValue n \<Rightarrow>
          let c = cont n (snd (op s))
          in if fst c then transfer_bytes op cont (accumulated + n) (snd c)
             else Some (None, accumulated + n, snd c)
      | IoError e \<Rightarrow> Some (Some e, accumulated, snd (op s))
      | IoStopped \<Rightarrow> Some (Some operation_canceled, accumulated, snd (op s)))"

type_synonym 'd async_reader = "size_t \<Rightarrow> 'd \<Rightarrow> byte list io_outcome \<times> 'd"
type_synonym 'd async_writer = "byte list \<Rightarrow> 'd \<Rightarrow> size_t io_outcome \<times> 'd"

record 'd read_state =
  rs_device :: 'd
  rs_offset :: size_t
  rs_remaining :: size_t
  rs_stored :: "byte list"

record 'd write_state =
  ws_device :: 'd
  ws_offset :: size_t
  ws_remaining :: "byte list"

definition read_op :: "(size_t \<Rightarrow> 'd async_reader) \<Rightarrow> 'd read_state \<Rightarrow> size_t io_outcome \<times> 'd read_state" where
  "read_op rd s =
     (case rd (rs_offset s) (rs_remaining s) (rs_device s) of
        (IoValue bs, d) \<Rightarrow> (IoValue (of_nat (length bs)), s\<lparr>rs_device := d, rs_stored := rs_stored s @ bs\<rparr>)
      | (IoError e, d) \<Rightarrow> (IoError e, s\<lparr>rs_device := d\<rparr>)
      | (IoStopped, d) \<Rightarrow> (IoStopped, s\<lparr>rs_device := d\<rparr>))"

definition read_cont :: "size_t \<Rightarrow> 'd read_state \<Rightarrow> bool \<times> 'd read_state" where
  "read_cont n s =
     (let s = s\<lparr>rs_offset := rs_offset s + n, rs_remaining := rs_remaining s - n\<rparr>
      in (rs_remaining s \<noteq> 0, s))"

definition write_op :: "(size_t \<Rightarrow> 'd async_writer) \<Rightarrow> 'd write_state \<Rightarrow> size_t io_outcome \<times> 'd write_state" where
  "write_op wr s =
     (case wr (ws_offset s) (ws_remaining s) (ws_device s) of (r, d) \<Rightarrow> (r, s\<lparr>ws_device := d\<rparr>))"

definition write_cont :: "size_t \<Rightarrow> 'd write_state \<Rightarrow> bool \<times> 'd write_state" where
  "write_cont n s =
     (let s = s\<lparr>ws_offset := ws_offset s + n, ws_remaining := drop (unat n) (ws_remaining s)\<rparr>
      in (ws_remaining s \<noteq> [], s))"

definition async_read_at ::
  "(size_t \<Rightarrow> 'd async_reader) \<Rightarrow> size_t \<Rightarrow> size_t \<Rightarrow> 'd \<Rightarrow> (error option \<times> size_t \<times> 'd read_state) option" where
  "async_read_at rd offset amount d =
     transfer_bytes (read_op rd) read_cont 0
       \<lparr>rs_device = d, rs_offset = offset, rs_remaining = amount, rs_stored = []\<rparr>"

definition async_read ::
  "'d async_reader \<Rightarrow> size_t \<Rightarrow> 'd \<Rightarrow> (error option \<times> size_t \<times> 'd read_state) option" where
  "async_read rd amount d = async_read_at (\<lambda>_. rd) 0 amount d"

definition async_write_at ::
  "(size_t \<Rightarrow> 'd async_writer) \<Rightarrow> size_t \<Rightarrow> byte list \<Rightarrow> 'd \<Rightarrow> (error option \<times> size_t \<times> 'd write_state) option" where
  "async_write_at wr offset bs d =
     transfer_bytes (write_op wr) write_cont 0
       \<lparr>ws_device = d, ws_offset = offset, ws_remaining = bs\<rparr>"

definition async_write ::
  "'d async_writer \<Rightarrow> byte list \<Rightarrow> 'd \<Rightarrow> (error option \<times> size_t \<times> 'd write_state) option" where
  "async_write wr bs d = async_write_at (\<lambda>_. wr) 0 bs d"


text \<open>With a dynamic buffer: what was transferred is committed, or consumed, whatever the outcome.\<close>

definition async_read_at_buffer ::
  "'b buffer_ops \<Rightarrow> (size_t \<Rightarrow> 'd async_reader) \<Rightarrow> size_t \<Rightarrow> size_t \<Rightarrow> 'd \<times> 'b \<Rightarrow>
   (error + (error option \<times> size_t \<times> 'd \<times> 'b)) option" where
  "async_read_at_buffer bo rd offset amount s =
     (case bo_prepare bo amount (snd s) of
        Inl e \<Rightarrow> Some (Inl e)
      | Inr b \<Rightarrow>
          (case async_read_at rd offset amount (fst s) of
             None \<Rightarrow> None
           | Some (ec, n, t) \<Rightarrow>
               if ec = None \<and> n \<noteq> amount then Some (Inl AssertFailed)
               else Some (Inr (ec, n, rs_device t, bo_commit bo n (bo_fill bo (rs_stored t) b)))))"

definition async_read_buffer ::
  "'b buffer_ops \<Rightarrow> 'd async_reader \<Rightarrow> size_t \<Rightarrow> 'd \<times> 'b \<Rightarrow>
   (error + (error option \<times> size_t \<times> 'd \<times> 'b)) option" where
  "async_read_buffer bo rd amount s = async_read_at_buffer bo (\<lambda>_. rd) 0 amount s"

definition async_write_at_buffer ::
  "'b buffer_ops \<Rightarrow> (size_t \<Rightarrow> 'd async_writer) \<Rightarrow> size_t \<Rightarrow> 'd \<times> 'b \<Rightarrow>
   (error option \<times> size_t \<times> 'd \<times> 'b) option" where
  "async_write_at_buffer bo wr offset s =
     map_option (\<lambda>(ec, n, t). (ec, n, ws_device t, bo_consume bo n (snd s)))
       (async_write_at wr offset (bo_data bo (snd s)) (fst s))"

definition async_write_buffer ::
  "'b buffer_ops \<Rightarrow> 'd async_writer \<Rightarrow> 'd \<times> 'b \<Rightarrow> (error option \<times> size_t \<times> 'd \<times> 'b) option" where
  "async_write_buffer bo wr s = async_write_at_buffer bo (\<lambda>_. wr) 0 s"

text \<open>
  \<open>read_until_state\<close>: \<open>search_and_read\<close> and what the completion of the read does. A read of nothing
  ends the operation with the position zero and no error. \<open>prepare\<close> is called in a \<open>noexcept\<close>
  function: an exception it throws is \<open>std::terminate\<close>.
\<close>

partial_function (option) async_read_until_loop ::
  "(byte list \<Rightarrow> nat \<Rightarrow> nat) \<Rightarrow> 'b buffer_ops \<Rightarrow> 'd async_reader \<Rightarrow> nat \<Rightarrow> 'd \<times> 'b \<Rightarrow>
   (error + (error option \<times> nat \<times> 'd \<times> 'b)) option" where
  "async_read_until_loop search bo rd search_pos s =
     (let data = bo_data bo (snd s); pos = search data search_pos
      in if pos > 0 then Some (Inr (None, pos, s))
         else if bo_size bo (snd s) = bo_max bo (snd s) then Some (Inr (Some NotFound, 0, s))
         else
           let n = bytes_to_read bo (snd s)
           in case bo_prepare bo n (snd s) of
                Inl e \<Rightarrow> Some (Inl Terminate)
              | Inr b \<Rightarrow>
                  let r = rd n (fst s)
                  in case fst r of
                       IoError e \<Rightarrow> Some (Inr (Some e, 0, snd r, b))
                     | IoStopped \<Rightarrow> Some (Inr (Some operation_canceled, 0, snd r, b))
                     | IoValue bs \<Rightarrow>
                         if bs = [] then Some (Inr (None, 0, snd r, b))
                         else async_read_until_loop search bo rd (length data)
                           (snd r, bo_commit bo (of_nat (length bs)) (bo_fill bo bs b)))"

definition async_read_until_char ::
  "'b buffer_ops \<Rightarrow> 'd async_reader \<Rightarrow> byte \<Rightarrow> 'd \<times> 'b \<Rightarrow>
   (error + (error option \<times> nat \<times> 'd \<times> 'b)) option" where
  "async_read_until_char bo rd delim s = async_read_until_loop (search_char delim) bo rd 0 s"

definition async_read_until ::
  "'b buffer_ops \<Rightarrow> 'd async_reader \<Rightarrow> byte list \<Rightarrow> 'd \<times> 'b \<Rightarrow>
   (error + (error option \<times> nat \<times> 'd \<times> 'b)) option" where
  "async_read_until bo rd delim s =
     (if delim = [] then Some (Inr (None, 0, s))
      else async_read_until_loop (search_string delim) bo rd 0 s)"

section \<open>What the devices promise\<close>

text \<open>\<open>src d\<close> is what is left to be read from a stream, \<open>sink d\<close> what has been written to it.\<close>

definition reader_ok :: "'d reader \<Rightarrow> ('d \<Rightarrow> byte list) \<Rightarrow> bool" where
  "reader_ok rd src \<longleftrightarrow> (\<forall>n d bs d'. n \<noteq> 0 \<longrightarrow> rd n d = Inr (bs, d') \<longrightarrow>
     bs \<noteq> [] \<and> length bs \<le> unat n \<and> src d = bs @ src d')"

definition writer_ok :: "'d writer \<Rightarrow> ('d \<Rightarrow> byte list) \<Rightarrow> bool" where
  "writer_ok wr sink \<longleftrightarrow> (\<forall>bs d n d'. bs \<noteq> [] \<longrightarrow> wr bs d = Inr (n, d') \<longrightarrow>
     n \<noteq> 0 \<and> unat n \<le> length bs \<and> sink d' = sink d @ take (unat n) bs)"

definition reader_at_ok :: "(size_t \<Rightarrow> 'd reader) \<Rightarrow> ('d \<Rightarrow> byte list) \<Rightarrow> bool" where
  "reader_at_ok rd file \<longleftrightarrow> (\<forall>off n d bs d'. n \<noteq> 0 \<longrightarrow> rd off n d = Inr (bs, d') \<longrightarrow>
     bs \<noteq> [] \<and> length bs \<le> unat n \<and> file d' = file d \<and>
     bs = take (length bs) (drop (unat off) (file d)))"

text \<open>A write at an offset, past the end of the file included: the gap reads as zeros.\<close>

definition file_write :: "nat \<Rightarrow> byte list \<Rightarrow> byte list \<Rightarrow> byte list" where
  "file_write off bs c =
     take off (c @ replicate (off - length c) 0) @ bs @ drop (off + length bs) c"

definition writer_at_ok :: "(size_t \<Rightarrow> 'd writer) \<Rightarrow> ('d \<Rightarrow> byte list) \<Rightarrow> bool" where
  "writer_at_ok wr file \<longleftrightarrow> (\<forall>off bs d n d'. bs \<noteq> [] \<longrightarrow> wr off bs d = Inr (n, d') \<longrightarrow>
     n \<noteq> 0 \<and> unat n \<le> length bs \<and> file d' = file_write (unat off) (take (unat n) bs) (file d))"

lemma file_write_append:
  "file_write (off + length xs) ys (file_write off xs c) = file_write off (xs @ ys) c"
  by (auto simp: file_write_def ac_simps min_def)

lemma word_pos: "(a :: size_t) > 0 \<longleftrightarrow> unat a \<noteq> 0"
  by (simp add: word_neq_0_conv [symmetric] unat_eq_0)

lemma io_read_loop_rep:
  assumes ok: "reader_ok rd src"
  shows "remain \<noteq> 0 \<Longrightarrow> \<exists>r. io_read_loop rd stored d remain = Some r \<and>
    (\<forall>bs d'. r = Inr (bs, d') \<longrightarrow>
      (\<exists>xs. bs = stored @ xs \<and> length xs = unat remain \<and> src d = xs @ src d'))"
proof (induction "unat remain" arbitrary: remain stored d rule: less_induct)
  case less
  show ?case
  proof (cases "rd remain d")
    case (Inl e)
    then show ?thesis by (simp add: io_read_loop.simps)
  next
    case (Inr r)
    obtain bs d' where r: "r = (bs, d')" by (cases r)
    have b: "bs \<noteq> []" "length bs \<le> unat remain" "src d = bs @ src d'"
      using ok less.prems Inr r by (auto simp: reader_ok_def)
    let ?n = "of_nat (length bs) :: size_t"
    have n: "unat ?n = length bs" using b(2) size_t_bound [of remain] by (intro unat_of_nat_small) simp
    then have left: "unat (remain - ?n) = unat remain - length bs"
      using b(2) by (simp add: unat_sub_le word_le_nat_alt)
    show ?thesis
    proof (cases "remain - ?n > 0")
      case True
      then have "unat (remain - ?n) < unat remain" "remain - ?n \<noteq> 0"
        using left b(1) by (auto simp: word_pos)
      from less.hyps [OF this, of "stored @ bs" d'] show ?thesis
        using Inr r True b left by (auto simp: io_read_loop.simps [of rd stored d remain] Let_def)
    next
      case False
      then have "unat remain = length bs" using left b(2) by (simp add: word_pos)
      then show ?thesis
        using Inr r False b by (auto simp: io_read_loop.simps [of rd stored d remain] Let_def)
    qed
  qed
qed

lemma io_write_loop_rep:
  assumes ok: "writer_ok wr sink"
  shows "remain \<noteq> 0 \<Longrightarrow> unat remain \<le> length bs \<Longrightarrow> \<exists>r. io_write_loop wr bs d remain = Some r \<and>
    (\<forall>d'. r = Inr d' \<longrightarrow> sink d' = sink d @ drop (length bs - unat remain) bs)"
proof (induction "unat remain" arbitrary: remain d rule: less_induct)
  case less
  let ?bs = "drop (length bs - unat remain) bs"
  show ?case
  proof (cases "wr ?bs d")
    case (Inl e)
    then show ?thesis by (simp add: io_write_loop.simps)
  next
    case (Inr r)
    obtain n d' where r: "r = (n, d')" by (cases r)
    have len: "length ?bs = unat remain" using less.prems(2) by simp
    then have "?bs \<noteq> []" using less.prems(1) by (metis length_0_conv unat_eq_0)
    then have b: "n \<noteq> 0" "unat n \<le> unat remain" "sink d' = sink d @ take (unat n) ?bs"
      using ok Inr r len unfolding writer_ok_def by metis+
    have left: "unat (remain - n) = unat remain - unat n"
      using b(2) by (simp add: unat_sub_le word_le_nat_alt)
    show ?thesis
    proof (cases "remain - n > 0")
      case True
      have "unat n \<noteq> 0" using b(1) by (simp add: unat_eq_0)
      then have l: "unat (remain - n) < unat remain" "remain - n \<noteq> 0" "unat (remain - n) \<le> length bs"
        using True left less.prems(2) by (auto simp: word_pos)
      have "take (unat n) ?bs @ drop (length bs - unat (remain - n)) bs = ?bs"
      proof -
        have "drop (length bs - unat (remain - n)) bs = drop (unat n) ?bs"
          using left b(2) less.prems(2) by (simp add: add.commute)
        then show ?thesis by (simp only: append_take_drop_id)
      qed
      then show ?thesis
        using less.hyps [OF l, of d'] Inr r True b(3)
        by (auto simp: io_write_loop.simps [of wr bs d remain] Let_def)
    next
      case False
      then have "unat n = unat remain" using left b(2) by (simp add: word_pos)
      then show ?thesis
        using Inr r False b len by (auto simp: io_write_loop.simps [of wr bs d remain] Let_def)
    qed
  qed
qed


lemma io_read_at_loop_rep:
  assumes ok: "reader_at_ok rd file"
  shows "remain \<noteq> 0 \<Longrightarrow> unat offset + unat remain < 2 ^ 64 \<Longrightarrow>
    \<exists>r. io_read_at_loop rd stored d remain offset = Some r \<and>
    (\<forall>bs d'. r = Inr (bs, d') \<longrightarrow> file d' = file d \<and>
      (\<exists>xs. bs = stored @ xs \<and> length xs = unat remain \<and>
        xs = take (unat remain) (drop (unat offset) (file d))))"
proof (induction "unat remain" arbitrary: remain offset stored d rule: less_induct)
  case less
  show ?case
  proof (cases "rd offset remain d")
    case (Inl e)
    then show ?thesis by (simp add: io_read_at_loop.simps)
  next
    case (Inr r)
    obtain bs d' where r: "r = (bs, d')" by (cases r)
    have b: "bs \<noteq> []" "length bs \<le> unat remain" "file d' = file d"
      "bs = take (length bs) (drop (unat offset) (file d))"
      using ok less.prems Inr r unfolding reader_at_ok_def by blast+
    let ?n = "of_nat (length bs) :: size_t"
    have n: "unat ?n = length bs" using b(2) size_t_bound [of remain] by (intro unat_of_nat_small) simp
    then have left: "unat (remain - ?n) = unat remain - length bs"
      using b(2) by (simp add: unat_sub_le word_le_nat_alt)
    have off: "unat (offset + ?n) = unat offset + length bs"
      using n b(2) less.prems(2) by (subst unat_add_lt) simp_all
    show ?thesis
    proof (cases "remain - ?n > 0")
      case True
      then have l: "unat (remain - ?n) < unat remain" "remain - ?n \<noteq> 0"
        "unat (offset + ?n) + unat (remain - ?n) < 2 ^ 64"
        using left b(1,2) off less.prems(2) by (auto simp: word_pos)
      have join: "bs @ take (unat (remain - ?n)) (drop (unat (offset + ?n)) (file d)) =
          take (unat remain) (drop (unat offset) (file d))"
      proof -
        have "take (unat remain) (drop (unat offset) (file d)) =
            take (length bs) (drop (unat offset) (file d)) @
            take (unat remain - length bs) (drop (length bs) (drop (unat offset) (file d)))"
          using b(2) by (metis le_add_diff_inverse take_add)
        then show ?thesis using b(4) left off by (simp add: add.commute)
      qed
      obtain r' where r': "io_read_at_loop rd (stored @ bs) d' (remain - ?n) (offset + ?n) = Some r'"
        "\<forall>cs d''. r' = Inr (cs, d'') \<longrightarrow> file d'' = file d' \<and>
          (\<exists>xs. cs = (stored @ bs) @ xs \<and> length xs = unat (remain - ?n) \<and>
            xs = take (unat (remain - ?n)) (drop (unat (offset + ?n)) (file d')))"
        using less.hyps [OF l, of "stored @ bs" d'] by blast
      have "io_read_at_loop rd stored d remain offset = Some r'"
        using Inr r True r'(1) by (simp add: io_read_at_loop.simps [of rd stored d remain offset] Let_def)
      moreover have "file d'' = file d \<and> (\<exists>xs. cs = stored @ xs \<and> length xs = unat remain \<and>
          xs = take (unat remain) (drop (unat offset) (file d)))" if c: "r' = Inr (cs, d'')" for cs d''
      proof -
        obtain xs where xs: "cs = (stored @ bs) @ xs" "length xs = unat (remain - ?n)" "file d'' = file d'"
          "xs = take (unat (remain - ?n)) (drop (unat (offset + ?n)) (file d'))"
          using r'(2) c by blast
        have "bs @ xs = take (unat remain) (drop (unat offset) (file d))"
          using join xs(4) b(3) by simp
        moreover have "length (bs @ xs) = unat remain" using xs(2) left b(2) by simp
        ultimately show ?thesis using xs(1,3) b(3) by (intro conjI exI [of _ "bs @ xs"]) simp_all
      qed
      ultimately show ?thesis by blast
    next
      case False
      then have "unat remain = length bs" using left b(2) by (simp add: word_pos)
      then show ?thesis
        using Inr r False b by (simp add: io_read_at_loop.simps [of rd stored d remain offset] Let_def)
    qed
  qed
qed

lemma io_write_at_loop_rep:
  assumes ok: "writer_at_ok wr file"
  shows "remain \<noteq> 0 \<Longrightarrow> unat remain \<le> length bs \<Longrightarrow> unat offset + unat remain < 2 ^ 64 \<Longrightarrow>
    \<exists>r. io_write_at_loop wr bs d remain offset = Some r \<and>
    (\<forall>d'. r = Inr d' \<longrightarrow> file d' = file_write (unat offset) (drop (length bs - unat remain) bs) (file d))"
proof (induction "unat remain" arbitrary: remain offset d rule: less_induct)
  case less
  let ?bs = "drop (length bs - unat remain) bs"
  show ?case
  proof (cases "wr offset ?bs d")
    case (Inl e)
    then show ?thesis by (simp add: io_write_at_loop.simps)
  next
    case (Inr r)
    obtain n d' where r: "r = (n, d')" by (cases r)
    have len: "length ?bs = unat remain" using less.prems(2) by simp
    then have "?bs \<noteq> []" using less.prems(1) by (metis length_0_conv unat_eq_0)
    then have b: "n \<noteq> 0" "unat n \<le> unat remain"
      "file d' = file_write (unat offset) (take (unat n) ?bs) (file d)"
      using ok Inr r len unfolding writer_at_ok_def by metis+
    have left: "unat (remain - n) = unat remain - unat n"
      using b(2) by (simp add: unat_sub_le word_le_nat_alt)
    have off: "unat (offset + n) = unat offset + unat n"
      using b(2) less.prems(3) by (intro unat_add_lt) simp
    show ?thesis
    proof (cases "remain - n > 0")
      case True
      have "unat n \<noteq> 0" using b(1) by (simp add: unat_eq_0)
      then have l: "unat (remain - n) < unat remain" "remain - n \<noteq> 0" "unat (remain - n) \<le> length bs"
        "unat (offset + n) + unat (remain - n) < 2 ^ 64"
        using True left less.prems(2,3) b(2) off by (auto simp: word_pos)
      have rest: "drop (length bs - unat (remain - n)) bs = drop (unat n) ?bs"
        using left b(2) less.prems(2) by (simp add: add.commute)
      have t: "length (take (unat n) ?bs) = unat n" using len b(2) by simp
      have "file_write (unat (offset + n)) (drop (unat n) ?bs) (file d') =
          file_write (unat offset + length (take (unat n) ?bs)) (drop (unat n) ?bs)
            (file_write (unat offset) (take (unat n) ?bs) (file d))"
        by (simp only: off b(3) t)
      also have "\<dots> = file_write (unat offset) ?bs (file d)"
        by (simp only: file_write_append append_take_drop_id)
      finally have "file_write (unat (offset + n)) (drop (unat n) ?bs) (file d') =
          file_write (unat offset) ?bs (file d)" .
      then show ?thesis
        using less.hyps [OF l, of d'] Inr r True unfolding rest
        by (simp add: io_write_at_loop.simps [of wr bs d remain offset] Let_def)
    next
      case False
      then have "unat n = unat remain" using left b(2) by (simp add: word_pos)
      then show ?thesis
        using Inr r False b len by (simp add: io_write_at_loop.simps [of wr bs d remain offset] Let_def)
    qed
  qed
qed

text \<open>Asynchronous devices: an operation that fails or is cancelled has transferred nothing.\<close>

definition async_reader_ok :: "'d async_reader \<Rightarrow> ('d \<Rightarrow> byte list) \<Rightarrow> bool" where
  "async_reader_ok rd src \<longleftrightarrow> (\<forall>n d r d'. rd n d = (r, d') \<longrightarrow>
     (case r of
        IoValue bs \<Rightarrow> length bs \<le> unat n \<and> (n \<noteq> 0 \<longrightarrow> bs \<noteq> []) \<and> src d = bs @ src d'
      | _ \<Rightarrow> src d' = src d))"

lemma async_read_rep:
  assumes ok: "async_reader_ok rd src"
  shows "unat acc + unat (rs_remaining s) < 2 ^ 64 \<Longrightarrow>
    \<exists>ec n t xs. transfer_bytes (read_op (\<lambda>_. rd)) read_cont acc s = Some (ec, n, t) \<and>
      rs_stored t = rs_stored s @ xs \<and> src (rs_device s) = xs @ src (rs_device t) \<and>
      unat n = unat acc + length xs \<and> length xs \<le> unat (rs_remaining s) \<and>
      (ec = None \<longrightarrow> length xs = unat (rs_remaining s))"
proof (induction "unat (rs_remaining s)" arbitrary: s acc rule: less_induct)
  case less
  obtain r d' where rd: "rd (rs_remaining s) (rs_device s) = (r, d')" by fastforce
  have ok': "case r of
      IoValue bs \<Rightarrow> length bs \<le> unat (rs_remaining s) \<and> (rs_remaining s \<noteq> 0 \<longrightarrow> bs \<noteq> []) \<and>
        src (rs_device s) = bs @ src d'
    | _ \<Rightarrow> src d' = src (rs_device s)"
    using ok rd unfolding async_reader_ok_def by blast
  show ?case
  proof (cases r)
    case (IoError e)
    then show ?thesis
      using rd ok' by (auto simp: transfer_bytes.simps [of _ _ acc s] read_op_def intro!: exI [of _ "[]"])
  next
    case IoStopped
    then show ?thesis
      using rd ok' by (auto simp: transfer_bytes.simps [of _ _ acc s] read_op_def intro!: exI [of _ "[]"])
  next
    case (IoValue bs)
    then have b: "length bs \<le> unat (rs_remaining s)" "rs_remaining s \<noteq> 0 \<longrightarrow> bs \<noteq> []"
      "src (rs_device s) = bs @ src d'"
      using ok' by simp_all
    let ?n = "of_nat (length bs) :: size_t"
    let ?s = "s\<lparr>rs_device := d', rs_stored := rs_stored s @ bs, rs_offset := rs_offset s + ?n,
      rs_remaining := rs_remaining s - ?n\<rparr>"
    have n: "unat ?n = length bs"
      using b(1) size_t_bound [of "rs_remaining s"] by (intro unat_of_nat_small) simp
    then have left: "unat (rs_remaining s - ?n) = unat (rs_remaining s) - length bs"
      using b(1) by (simp add: unat_sub_le word_le_nat_alt)
    have acc: "unat (acc + ?n) = unat acc + length bs"
      using n b(1) less.prems by (subst unat_add_lt) simp_all
    have step: "transfer_bytes (read_op (\<lambda>_. rd)) read_cont acc s =
        (if rs_remaining s - ?n \<noteq> 0 then transfer_bytes (read_op (\<lambda>_. rd)) read_cont (acc + ?n) ?s
         else Some (None, acc + ?n, ?s))"
      using rd IoValue by (simp add: transfer_bytes.simps [of _ _ acc s] read_op_def read_cont_def Let_def)
    show ?thesis
    proof (cases "rs_remaining s - ?n \<noteq> 0")
      case True
      then have "rs_remaining s \<noteq> 0" using left by (metis diff_0_eq_0 unat_eq_0)
      then have "unat (rs_remaining ?s) < unat (rs_remaining s)"
        "unat (acc + ?n) + unat (rs_remaining ?s) < 2 ^ 64"
        using left b(1,2) acc less.prems by (auto simp: unat_gt_0 neq_Nil_conv)
      then obtain ec m t xs where ih: "transfer_bytes (read_op (\<lambda>_. rd)) read_cont (acc + ?n) ?s = Some (ec, m, t)"
        "rs_stored t = rs_stored ?s @ xs" "src (rs_device ?s) = xs @ src (rs_device t)"
        "unat m = unat (acc + ?n) + length xs" "length xs \<le> unat (rs_remaining ?s)"
        "ec = None \<longrightarrow> length xs = unat (rs_remaining ?s)"
        using less.hyps [of ?s "acc + ?n"] by blast
      show ?thesis
        using step True ih b acc left
        by (intro exI [of _ ec] exI [of _ m] exI [of _ t] exI [of _ "bs @ xs"]) auto
    next
      case False
      then have "unat (rs_remaining s) = length bs" using left b(1) by (metis diff_is_0_eq le_antisym unat_0)
      then show ?thesis
        using step False b acc
        by (intro exI [of _ None] exI [of _ "acc + ?n"] exI [of _ ?s] exI [of _ bs]) simp
    qed
  qed
qed

definition async_writer_ok :: "'d async_writer \<Rightarrow> ('d \<Rightarrow> byte list) \<Rightarrow> bool" where
  "async_writer_ok wr sink \<longleftrightarrow> (\<forall>bs d r d'. wr bs d = (r, d') \<longrightarrow>
     (case r of
        IoValue n \<Rightarrow> unat n \<le> length bs \<and> (bs \<noteq> [] \<longrightarrow> n \<noteq> 0) \<and> sink d' = sink d @ take (unat n) bs
      | _ \<Rightarrow> sink d' = sink d))"

lemma async_write_rep:
  assumes ok: "async_writer_ok wr sink"
  shows "unat acc + length (ws_remaining s) < 2 ^ 64 \<Longrightarrow>
    \<exists>ec n t. transfer_bytes (write_op (\<lambda>_. wr)) write_cont acc s = Some (ec, n, t) \<and>
      (\<exists>k \<le> length (ws_remaining s). unat n = unat acc + k \<and>
        sink (ws_device t) = sink (ws_device s) @ take k (ws_remaining s) \<and>
        (ec = None \<longrightarrow> k = length (ws_remaining s)))"
proof (induction "length (ws_remaining s)" arbitrary: s acc rule: less_induct)
  case less
  obtain r d' where wr: "wr (ws_remaining s) (ws_device s) = (r, d')" by fastforce
  have ok': "case r of
      IoValue n \<Rightarrow> unat n \<le> length (ws_remaining s) \<and> (ws_remaining s \<noteq> [] \<longrightarrow> n \<noteq> 0) \<and>
        sink d' = sink (ws_device s) @ take (unat n) (ws_remaining s)
    | _ \<Rightarrow> sink d' = sink (ws_device s)"
    using ok wr unfolding async_writer_ok_def by blast
  show ?case
  proof (cases r)
    case (IoError e)
    then show ?thesis
      using wr ok' by (auto simp: transfer_bytes.simps [of _ _ acc s] write_op_def intro!: exI [of _ 0])
  next
    case IoStopped
    then show ?thesis
      using wr ok' by (auto simp: transfer_bytes.simps [of _ _ acc s] write_op_def intro!: exI [of _ 0])
  next
    case (IoValue n)
    then have b: "unat n \<le> length (ws_remaining s)" "ws_remaining s \<noteq> [] \<longrightarrow> n \<noteq> 0"
      "sink d' = sink (ws_device s) @ take (unat n) (ws_remaining s)"
      using ok' by simp_all
    let ?s = "s\<lparr>ws_device := d', ws_offset := ws_offset s + n,
      ws_remaining := drop (unat n) (ws_remaining s)\<rparr>"
    have acc: "unat (acc + n) = unat acc + unat n"
      using b(1) less.prems by (intro unat_add_lt) simp
    have step: "transfer_bytes (write_op (\<lambda>_. wr)) write_cont acc s =
        (if ws_remaining ?s \<noteq> [] then transfer_bytes (write_op (\<lambda>_. wr)) write_cont (acc + n) ?s
         else Some (None, acc + n, ?s))"
      using wr IoValue by (simp add: transfer_bytes.simps [of _ _ acc s] write_op_def write_cont_def Let_def)
    show ?thesis
    proof (cases "ws_remaining ?s \<noteq> []")
      case True
      then have "ws_remaining s \<noteq> []" by auto
      then have "unat n \<noteq> 0" using b(2) by (simp add: unat_eq_0)
      then have "length (ws_remaining ?s) < length (ws_remaining s)"
        "unat (acc + n) + length (ws_remaining ?s) < 2 ^ 64"
        using True b(1) acc less.prems by auto
      then obtain ec m t k where ih: "transfer_bytes (write_op (\<lambda>_. wr)) write_cont (acc + n) ?s = Some (ec, m, t)"
        "k \<le> length (ws_remaining ?s)" "unat m = unat (acc + n) + k"
        "sink (ws_device t) = sink (ws_device ?s) @ take k (ws_remaining ?s)"
        "ec = None \<longrightarrow> k = length (ws_remaining ?s)"
        using less.hyps [of ?s "acc + n"] by blast
      have "sink (ws_device t) = sink (ws_device s) @ take (unat n + k) (ws_remaining s)"
        using ih(4) b(3) by (simp add: take_add)
      then show ?thesis
        using step True ih b(1) acc
        by (intro exI [of _ ec] exI [of _ m] exI [of _ t] conjI exI [of _ "unat n + k"]) auto
    next
      case False
      then have "length (ws_remaining s) = unat n" using b(1) by simp
      then show ?thesis
        using step False b acc
        by (intro exI [of _ None] exI [of _ "acc + n"] exI [of _ ?s] conjI exI [of _ "unat n"]) simp_all
    qed
  qed
qed


section \<open>Searching\<close>

text \<open>\<open>match_at s data i\<close>: the delimiter \<open>s\<close> stands at index \<open>i\<close> of the data.\<close>

definition match_at :: "byte list \<Rightarrow> byte list \<Rightarrow> nat \<Rightarrow> bool" where
  "match_at s data i \<longleftrightarrow> i + length s \<le> length data \<and> take (length s) (drop i data) = s"

definition first_match :: "byte list \<Rightarrow> byte list \<Rightarrow> nat \<Rightarrow> bool" where
  "first_match s data pos \<longleftrightarrow> (\<exists>i. pos = i + length s \<and> match_at s data i \<and> (\<forall>j<i. \<not> match_at s data j))"

lemma find_from_Some: "find_from P i k = Some j \<Longrightarrow> i \<le> j \<and> j < i + k \<and> P j \<and> (\<forall>m. i \<le> m \<longrightarrow> m < j \<longrightarrow> \<not> P m)"
proof (induction k arbitrary: i)
  case (Suc k)
  show ?case
  proof (cases "P i")
    case False
    then have "i + 1 \<le> j \<and> j < i + 1 + k \<and> P j \<and> (\<forall>m. i + 1 \<le> m \<longrightarrow> m < j \<longrightarrow> \<not> P m)"
      using Suc.IH [of "i + 1"] Suc.prems by simp
    then show ?thesis using False by (auto simp: Suc_le_eq) (metis le_neq_implies_less Suc_leI)
  qed (use Suc.prems in auto)
qed simp

lemma find_from_None: "find_from P i k = None \<Longrightarrow> i \<le> j \<Longrightarrow> j < i + k \<Longrightarrow> \<not> P j"
proof (induction k arbitrary: i)
  case (Suc k)
  then show ?case by (cases "j = i") (auto split: if_splits)
qed simp

text \<open>
  \<open>search_ok\<close>: with the data searched before up to \<open>search_pos\<close> without a match, the result is the
  position behind the first match, or zero if there is none.
\<close>

definition search_ok :: "byte list \<Rightarrow> (byte list \<Rightarrow> nat \<Rightarrow> nat) \<Rightarrow> bool" where
  "search_ok s search \<longleftrightarrow> (\<forall>data search_pos.
     search_pos \<le> length data \<longrightarrow> (\<forall>i. match_at s data i \<longrightarrow> search_pos < i + length s) \<longrightarrow>
     (if search data search_pos = 0 then \<forall>i. \<not> match_at s data i
      else first_match s data (search data search_pos)))"

lemma search_string_ok:
  assumes "s \<noteq> []"
  shows "search_ok s (search_string s)"
  unfolding search_ok_def
proof (intro allI impI)
  fix data :: "byte list" and pos
  assume before: "\<forall>i. match_at s data i \<longrightarrow> pos < i + length s"
  let ?start = "if pos > length s - 1 then pos - length s + 1 else 0"
  have start: "match_at s data i \<Longrightarrow> ?start \<le> i" for i using before by fastforce
  show "if search_string s data pos = 0 then \<forall>i. \<not> match_at s data i
      else first_match s data (search_string s data pos)"
  proof (cases "length s \<le> length data")
    case False
    then show ?thesis by (simp add: search_string_def match_at_def Let_def)
  next
    case True
    let ?P = "\<lambda>i. take (length s) (drop i data) = s"
    let ?k = "length data - length s + 1 - ?start"
    show ?thesis
    proof (cases "find_from ?P ?start ?k")
      case None
      have "\<not> match_at s data i" for i
      proof
        assume m: "match_at s data i"
        then have "i < ?start + ?k" "?P i" using True start [OF m] by (auto simp: match_at_def)
        then show False using find_from_None [OF None start [OF m]] by blast
      qed
      then show ?thesis using None True by (simp add: search_string_def Let_def)
    next
      case (Some j)
      note f = find_from_Some [OF Some]
      have "match_at s data j" using f True by (auto simp: match_at_def)
      moreover have "\<not> match_at s data i" if "i < j" for i
      proof
        assume m: "match_at s data i"
        then show False using f start [OF m] that by (auto simp: match_at_def)
      qed
      ultimately have "first_match s data (j + length s)" by (auto simp: first_match_def)
      then show ?thesis using Some True assms by (simp add: search_string_def Let_def)
    qed
  qed
qed

lemma match_at_char: "match_at [c] data i \<longleftrightarrow> i < length data \<and> data ! i = c"
  by (auto simp: match_at_def take_Suc_conv_app_nth hd_drop_conv_nth take_Suc)

lemma search_char_ok: "search_ok [c] (search_char c)"
  unfolding search_ok_def
proof (intro allI impI)
  fix data :: "byte list" and pos
  assume le: "pos \<le> length data" and before: "\<forall>i. match_at [c] data i \<longrightarrow> pos < i + length [c]"
  show "if search_char c data pos = 0 then \<forall>i. \<not> match_at [c] data i
      else first_match [c] data (search_char c data pos)"
  proof (cases "find_from (\<lambda>i. data ! i = c) pos (length data - pos)")
    case None
    have "\<not> match_at [c] data i" for i
      using find_from_None [OF None, of i] before le by (auto simp: match_at_char)
    then show ?thesis using None by (simp add: search_char_def)
  next
    case (Some j)
    note f = find_from_Some [OF Some]
    have "\<not> match_at [c] data i" if "i < j" for i
    proof
      assume m: "match_at [c] data i"
      then have "pos < i + length [c]" using before by blast
      then have "pos \<le> i" by simp
      moreover have "data ! i = c" using m by (simp add: match_at_char)
      ultimately show False using f that by blast
    qed
    moreover have "match_at [c] data j" using f le by (simp add: match_at_char)
    ultimately have "first_match [c] data (j + 1)"
      unfolding first_match_def by (intro exI [of _ j]) simp
    then show ?thesis using Some by (simp add: search_char_def)
  qed
qed

lemma match_at_append: "match_at s (data @ rest) i \<Longrightarrow> i + length s \<le> length data \<Longrightarrow> match_at s data i"
  by (auto simp: match_at_def)

context dynamic_buffer
begin

abbreviation ops :: "('b \<Rightarrow> size_t) \<Rightarrow> 'b buffer_ops" where
  "ops cap \<equiv> \<lparr>bo_data = bytes, bo_size = size, bo_capacity = cap, bo_max = max_size, bo_prepare = prepare,
     bo_fill = fill, bo_commit = commit, bo_consume = consume\<rparr>"

lemma bytes_to_read_bounds:
  assumes "inv b" "size b \<noteq> max_size b"
  shows "bytes_to_read (ops cap) b \<noteq> 0" "unat (bytes_to_read (ops cap) b) \<le> 65536"
    "length (bytes b) + unat (bytes_to_read (ops cap) b) \<le> unat (max_size b)"
proof -
  let ?m = "max_size b - size b"
  have le: "size b \<le> max_size b" using size_bytes [OF assms(1)] bytes_fit [OF assms(1)]
    by (simp add: word_le_nat_alt)
  have "?m \<noteq> 0" using assms(2) by simp
  moreover have "max 512 (cap b - size b) \<noteq> 0"
  proof
    assume "max 512 (cap b - size b) = 0"
    then have "(512 :: size_t) \<le> 0" by (metis max.cobounded1)
    then show False by simp
  qed
  ultimately show "bytes_to_read (ops cap) b \<noteq> 0" by (simp add: bytes_to_read_def min_def)
  have "bytes_to_read (ops cap) b \<le> 65536" "bytes_to_read (ops cap) b \<le> ?m"
    by (simp_all add: bytes_to_read_def min.coboundedI2)
  then show "unat (bytes_to_read (ops cap) b) \<le> 65536"
    "length (bytes b) + unat (bytes_to_read (ops cap) b) \<le> unat (max_size b)"
    using le size_bytes [OF assms(1)] bytes_fit [OF assms(1)]
    by (simp_all add: word_le_nat_alt unat_sub_le)
qed

text \<open>The reader returns; on success the data is what was there and what was received, up to which the
  device has been read, and the position is the one behind the first match.\<close>

lemma read_until_rep:
  assumes ok: "reader_ok rd src" and s: "search_ok delim search"
  shows "inv b \<Longrightarrow> pos \<le> length (bytes b) \<Longrightarrow> (\<forall>i. match_at delim (bytes b) i \<longrightarrow> pos < i + length delim) \<Longrightarrow>
    \<exists>r. io_read_until_loop search (ops cap) rd pos (d, b) = Some r \<and>
      (\<forall>n d' b'. r = Inr (n, d', b') \<longrightarrow> (\<exists>recv. bytes b' = bytes b @ recv \<and> src d = recv @ src d' \<and>
        inv b' \<and> first_match delim (bytes b') n))"
proof (induction "length (src d)" arbitrary: d b pos rule: less_induct)
  case less
  have sr: "if search (bytes b) pos = 0 then \<forall>i. \<not> match_at delim (bytes b) i
      else first_match delim (bytes b) (search (bytes b) pos)"
    using s less.prems unfolding search_ok_def by blast
  note unf = io_read_until_loop.simps [of search "ops cap" rd pos "(d, b)"]
  consider (found) "search (bytes b) pos > 0" | (full) "search (bytes b) pos = 0" "size b = max_size b"
    | (read) "search (bytes b) pos = 0" "size b \<noteq> max_size b"
    by auto
  then show ?case
  proof cases
    case found
    then show ?thesis using sr less.prems(1) by (simp add: unf Let_def)
  next
    case full
    then show ?thesis by (simp add: unf Let_def)
  next
    case read
    let ?n = "bytes_to_read (ops cap) b"
    note bd = bytes_to_read_bounds [OF less.prems(1) read(2), of cap]
    show ?thesis
    proof (cases "prepare ?n b")
      case (Inl e)
      then show ?thesis using read by (simp add: unf Let_def)
    next
      case (Inr b1)
      show ?thesis
      proof (cases "rd ?n d")
        case (Inl e)
        then show ?thesis using read Inr by (simp add: unf Let_def)
      next
        case r: (Inr x)
        obtain bs d1 where x: "x = (bs, d1)" by (cases x)
        have b1: "bs \<noteq> []" "length bs \<le> unat ?n" "src d = bs @ src d1"
          using ok bd(1) r x unfolding reader_ok_def by blast+
        let ?b = "commit (of_nat (length bs)) (fill bs b1)"
        have "length bs < 2 ^ 31" using b1(2) bd(2) by simp
        note rc = receive_bytes [OF less.prems(1) Inr b1(2) bd(1) this]
        have "length (src d1) < length (src d)" using b1(1,3) by simp
        moreover have "length (bytes b) \<le> length (bytes ?b)" using rc(2) by simp
        moreover have "\<forall>i. match_at delim (bytes ?b) i \<longrightarrow> length (bytes b) < i + length delim"
        proof (intro allI impI)
          fix i assume "match_at delim (bytes ?b) i"
          then have "match_at delim (bytes b @ bs) i" using rc(2) by simp
          then show "length (bytes b) < i + length delim"
            using match_at_append [of delim "bytes b" bs i] sr read(1) by (auto simp: not_less [symmetric])
        qed
        ultimately obtain r' where ih: "io_read_until_loop search (ops cap) rd (length (bytes b)) (d1, ?b) = Some r'"
          "\<forall>n d' b'. r' = Inr (n, d', b') \<longrightarrow> (\<exists>recv. bytes b' = bytes ?b @ recv \<and> src d1 = recv @ src d' \<and>
            inv b' \<and> first_match delim (bytes b') n)"
          using less.hyps [OF _ rc(1)] by blast
        have "io_read_until_loop search (ops cap) rd pos (d, b) = Some r'"
          using read Inr r x ih(1) by (simp add: unf Let_def)
        moreover have "\<exists>recv. bytes b' = bytes b @ recv \<and> src d = recv @ src d' \<and> inv b' \<and>
            first_match delim (bytes b') n" if "r' = Inr (n, d', b')" for n d' b'
          using ih(2) that rc(2) b1(3) by fastforce
        ultimately show ?thesis by blast
      qed
    qed
  qed
qed

text \<open>The asynchronous read commits what arrived, whatever the outcome, and its assertion holds.\<close>

lemma async_read_buffer_rep:
  assumes ok: "async_reader_ok rd src" and b: "inv b" and n: "n \<noteq> 0" "unat n < 2 ^ 31"
    and prep: "prepare n b = Inr b1"
  shows "\<exists>ec m d' b' xs. async_read_buffer (ops cap) rd n (d, b) = Some (Inr (ec, m, d', b')) \<and>
    bytes b' = bytes b @ xs \<and> src d = xs @ src d' \<and> unat m = length xs \<and> inv b' \<and>
    (ec = None \<longrightarrow> m = n)"
proof -
  let ?s = "\<lparr>rs_device = d, rs_offset = 0, rs_remaining = n, rs_stored = []\<rparr>"
  have "unat (0 :: size_t) + unat (rs_remaining ?s) < 2 ^ 64" using n(2) by simp
  from async_read_rep [OF ok this] obtain ec m t xs where
    t: "transfer_bytes (read_op (\<lambda>_. rd)) read_cont 0 ?s = Some (ec, m, t)" "rs_stored t = xs"
      "src d = xs @ src (rs_device t)" "unat m = length xs" "length xs \<le> unat n"
      "ec = None \<longrightarrow> length xs = unat n"
    by auto
  have m: "m = of_nat (length xs)" using t(4) by (simp flip: t(4))
  have m_n: "ec = None \<longrightarrow> m = n" using t(4,6) by (simp add: word_unat_eq_iff)
  have "length xs < 2 ^ 31" using t(5) n(2) by simp
  note rc = receive_bytes [OF b prep t(5) n(1) this]
  show ?thesis
    using t(1,2,3,4) m_n prep rc(1,2) m
    by (auto simp: async_read_buffer_def async_read_at_buffer_def async_read_at_def)
qed

end

section \<open>Properties\<close>

text \<open>
  Devices for the witnesses: a stream that delivers and a sink that accepts at most three bytes at a
  time, and a file that transfers at most two.
\<close>

definition demo_reader :: "byte list reader" where
  "demo_reader n d = (if d = [] then Inl NotFound else Inr (take (min 3 (unat n)) d, drop (min 3 (unat n)) d))"

definition demo_writer :: "byte list writer" where
  "demo_writer bs d = Inr (of_nat (length (take 3 bs)), d @ take 3 bs)"

definition demo_read_at :: "size_t \<Rightarrow> byte list reader" where
  "demo_read_at off n d = (let bs = take (min 2 (unat n)) (drop (unat off) d) in
     if bs = [] then Inl NotFound else Inr (bs, d))"

definition demo_write_at :: "size_t \<Rightarrow> byte list writer" where
  "demo_write_at off bs d =
     Inr (of_nat (length (take 2 bs)), file_write (unat off) (take 2 bs) d)"

definition demo_async_reader :: "byte list async_reader" where
  "demo_async_reader n d =
     (if d = [] then (IoStopped, d)
      else (IoValue (take (min 3 (unat n)) d), drop (min 3 (unat n)) d))"

definition demo_async_writer :: "byte list async_writer" where
  "demo_async_writer bs d = (IoValue (of_nat (length (take 3 bs))), d @ take 3 bs)"

lemma demo_take:
  assumes "0 < k" "k < 2 ^ 64" "n = (of_nat (length (take k bs)) :: size_t)"
  shows "unat n \<le> length bs" "take (unat n) bs = take k bs" "bs \<noteq> [] \<longrightarrow> n \<noteq> 0"
proof -
  have n: "unat n = length (take k bs)" using assms(2,3) by (simp only: unat_of_nat_small length_take)
  then show "unat n \<le> length bs" "take (unat n) bs = take k bs" by (simp_all add: min_def)
  show "bs \<noteq> [] \<longrightarrow> n \<noteq> 0" using n assms(1) by (auto simp: unat_eq_0 [symmetric])
qed

lemma demo_devices_ok:
  shows "reader_ok demo_reader id" "writer_ok demo_writer id" "reader_at_ok demo_read_at id"
    "writer_at_ok demo_write_at id" "async_reader_ok demo_async_reader id"
    "async_writer_ok demo_async_writer id"
proof -
  show "reader_ok demo_reader id"
    by (auto simp: reader_ok_def demo_reader_def unat_gt_0 unat_eq_0 split: if_splits)
  show "writer_ok demo_writer id"
    by (auto simp: writer_ok_def demo_writer_def demo_take [OF _ _ refl] simp del: length_take)
  show "reader_at_ok demo_read_at id"
    by (auto simp: reader_at_ok_def demo_read_at_def Let_def min_def split: if_splits)
  show "writer_at_ok demo_write_at id"
    by (auto simp: writer_at_ok_def demo_write_at_def demo_take [OF _ _ refl] simp del: length_take)
  show "async_reader_ok demo_async_reader id"
    by (auto simp: async_reader_ok_def demo_async_reader_def unat_gt_0 unat_eq_0 split: if_splits)
  show "async_writer_ok demo_async_writer id"
    by (auto simp: async_writer_ok_def demo_async_writer_def demo_take [OF _ _ refl] simp del: length_take)
qed

definition flat_ops :: "flat_buffer buffer_ops" where
  "flat_ops = \<lparr>bo_data = fb_bytes, bo_size = fb_size, bo_capacity = fb_capacity, bo_max = fb_max,
     bo_prepare = fb_prepare_state heap_alloc, bo_fill = fb_fill, bo_commit = fb_commit,
     bo_consume = fb_consume\<rparr>"

text \<open>The capacity of a stream buffer is that of its vector, which may be any number.\<close>

definition stream_ops :: "(streambuf \<Rightarrow> size_t) \<Rightarrow> streambuf buffer_ops" where
  "stream_ops cap = \<lparr>bo_data = sb_bytes, bo_size = sb_size, bo_capacity = cap, bo_max = sb_max,
     bo_prepare = sb_prepare_state, bo_fill = sb_fill, bo_commit = sb_commit, bo_consume = sb_consume\<rparr>"

lemma flat_sound_new: "512 \<le> n \<Longrightarrow> fb_sound (fb_new n)"
  using fb_inv_new [of n] by (simp add: fb_sound_def fb_new_def)

lemma io_read_until_search:
  assumes "delim \<noteq> []"
  shows "\<exists>search. search_ok delim search \<and> io_read_until bo rd delim s = io_read_until_loop search bo rd 0 s"
proof (cases "length delim = 1")
  case True
  then have "delim = [delim ! 0]" by (metis One_nat_def length_0_conv length_Suc_conv nth_Cons_0)
  then have "search_ok delim (search_char (delim ! 0))" using search_char_ok by metis
  then show ?thesis using assms True by (auto simp: io_read_until_def io_read_until_char_def)
next
  case False
  then show ?thesis using search_string_ok [OF assms] assms by (auto simp: io_read_until_def)
qed

text \<open>At an offset: the bytes of the file from there, and the file with the bytes written there.\<close>

lemma io_at_whole:
  assumes "reader_at_ok rd file" "writer_at_ok wr file'" "unat off + unat n < 2 ^ 64"
    "unat off + length bs < 2 ^ 64"
  shows "(\<exists>r. io_read_at rd off n d = Some r \<and> (\<forall>xs d'. r = Inr (xs, d') \<longrightarrow>
      length xs = unat n \<and> xs = take (unat n) (drop (unat off) (file d)) \<and> (n \<noteq> 0 \<longrightarrow> file d' = file d)))"
    and "bs \<noteq> [] \<Longrightarrow> \<exists>r. io_write_at wr off bs e = Some r \<and> (\<forall>m e'. r = Inr (m, e') \<longrightarrow>
      unat m = length bs \<and> file' e' = file_write (unat off) bs (file' e))"
proof -
  show "\<exists>r. io_read_at rd off n d = Some r \<and> (\<forall>xs d'. r = Inr (xs, d') \<longrightarrow>
      length xs = unat n \<and> xs = take (unat n) (drop (unat off) (file d)) \<and> (n \<noteq> 0 \<longrightarrow> file d' = file d))"
    using io_read_at_loop_rep [OF assms(1) _ assms(3), of "[]" d]
    by (cases "n = 0") (auto simp: io_read_at_def)
  assume "bs \<noteq> []"
  have n: "unat (of_nat (length bs) :: size_t) = length bs" using assms(4) by (intro unat_of_nat_small) simp
  then have "(of_nat (length bs) :: size_t) \<noteq> 0" using \<open>bs \<noteq> []\<close> by (metis length_0_conv unat_0)
  from io_write_at_loop_rep [OF assms(2) this] n assms(4)
  obtain r where "io_write_at_loop wr bs e (of_nat (length bs)) off = Some r"
    "\<forall>d'. r = Inr d' \<longrightarrow> file' d' = file_write (unat off) bs (file' e)" by (metis diff_self_eq_0 drop0 order_refl)
  then show "\<exists>r. io_write_at wr off bs e = Some r \<and> (\<forall>m e'. r = Inr (m, e') \<longrightarrow>
      unat m = length bs \<and> file' e' = file_write (unat off) bs (file' e))"
    using \<open>bs \<noteq> []\<close> n by (cases r) (auto simp: io_write_at_def)
qed

text \<open>C12. \<open>read\<close> and \<open>write\<close> transfer everything: for a device that transfers at least one byte or throws,
  both return; a read that does not throw has filled the span with the next bytes of the stream, a
  write that does not throw has appended all of its bytes to what was written before.\<close>

theorem io_read_write_whole:
  assumes "reader_ok rd src" "writer_ok wr sink" "length bs < 2 ^ 64"
  shows "(\<exists>r. io_read rd n d = Some r \<and> (\<forall>xs d'. r = Inr (xs, d') \<longrightarrow>
      length xs = unat n \<and> src d = xs @ src d')) \<and>
    (\<exists>r. io_write wr bs e = Some r \<and> (\<forall>m e'. r = Inr (m, e') \<longrightarrow>
      unat m = length bs \<and> sink e' = sink e @ bs))"
proof
  show "\<exists>r. io_read rd n d = Some r \<and> (\<forall>xs d'. r = Inr (xs, d') \<longrightarrow> length xs = unat n \<and> src d = xs @ src d')"
    using io_read_loop_rep [OF assms(1), of n "[]" d] by (cases "n = 0") (auto simp: io_read_def)
  show "\<exists>r. io_write wr bs e = Some r \<and> (\<forall>m e'. r = Inr (m, e') \<longrightarrow> unat m = length bs \<and> sink e' = sink e @ bs)"
  proof (cases "bs = []")
    case False
    have n: "unat (of_nat (length bs) :: size_t) = length bs" using assms(3) by (rule unat_of_nat_small)
    then have "(of_nat (length bs) :: size_t) \<noteq> 0" using False by (metis length_0_conv unat_0)
    from io_write_loop_rep [OF assms(2) this] n
    obtain r where "io_write_loop wr bs e (of_nat (length bs)) = Some r"
      "\<forall>d'. r = Inr d' \<longrightarrow> sink d' = sink e @ bs" by (metis diff_self_eq_0 drop0 order_refl)
    then show ?thesis using False n by (cases r) (auto simp: io_write_def)
  qed (simp add: io_write_def)
qed

theorem io_read_write_whole_witness:
  "io_read demo_reader 4 [1, 2, 3, 4, 5] = Some (Inr ([1, 2, 3, 4], [5])) \<and>
   (\<exists>r. io_write demo_writer [6, 7] [5] = Some r)"
proof -
  have "\<exists>r. io_write demo_writer [6, 7] [5] = Some r"
    using io_read_write_whole [OF demo_devices_ok(1,2), of "[6, 7]" 4 "[1, 2, 3, 4, 5]" "[5]"] by auto
  then show ?thesis by (simp add: io_read_def io_read_loop.simps demo_reader_def)
qed

text \<open>An asynchronous transfer reports exactly what it moved, also when it is cancelled or fails halfway:
  the count equals the bytes taken from the stream, or appended to the sink, which are a prefix of
  what was asked for, and the whole of it unless an error code is reported.\<close>

lemma async_transfer_counts:
  assumes "async_reader_ok rd src" "async_writer_ok wr sink" "length bs < 2 ^ 64"
  shows "(\<exists>ec m t. async_read rd n d = Some (ec, m, t) \<and> src d = rs_stored t @ src (rs_device t) \<and>
      unat m = length (rs_stored t) \<and> m \<le> n \<and> (ec = None \<longrightarrow> m = n)) \<and>
    (\<exists>ec m t. async_write wr bs e = Some (ec, m, t) \<and> unat m \<le> length bs \<and>
      sink (ws_device t) = sink e @ take (unat m) bs \<and> (ec = None \<longrightarrow> unat m = length bs))"
proof
  let ?r = "\<lparr>rs_device = d, rs_offset = 0, rs_remaining = n, rs_stored = []\<rparr>"
  have "unat (0 :: size_t) + unat (rs_remaining ?r) < 2 ^ 64" using size_t_bound [of n] by simp
  from async_read_rep [OF assms(1) this] obtain ec m t where
    t: "async_read rd n d = Some (ec, m, t)" "src d = rs_stored t @ src (rs_device t)"
      "unat m = length (rs_stored t)" "unat m \<le> unat n" "ec = None \<longrightarrow> unat m = unat n"
    by (auto simp: async_read_def async_read_at_def)
  have "m \<le> n" "ec = None \<longrightarrow> m = n" using t(4,5) by (simp_all add: word_le_nat_alt word_unat_eq_iff)
  then show "\<exists>ec m t. async_read rd n d = Some (ec, m, t) \<and>
      src d = rs_stored t @ src (rs_device t) \<and> unat m = length (rs_stored t) \<and> m \<le> n \<and> (ec = None \<longrightarrow> m = n)"
    using t by blast
  let ?w = "\<lparr>ws_device = e, ws_offset = 0, ws_remaining = bs\<rparr>"
  have "unat (0 :: size_t) + length (ws_remaining ?w) < 2 ^ 64" using assms(3) by simp
  from async_write_rep [OF assms(2) this] show "\<exists>ec m t. async_write wr bs e = Some (ec, m, t) \<and>
      unat m \<le> length bs \<and> sink (ws_device t) = sink e @ take (unat m) bs \<and> (ec = None \<longrightarrow> unat m = length bs)"
    by (auto simp: async_write_def async_write_at_def)
qed

text \<open>C13. \<open>read_until\<close> returns for every device whose stream ends, by exhausting it at the latest. When it
  does not throw, the buffer holds what it held before followed by what was read from the device,
  nothing lost and nothing read twice, and the position is the one behind the first occurrence of the
  delimiter, also when the occurrence straddles two reads. Both buffers serve.\<close>

theorem read_until_first_match:
  assumes "reader_ok rd src" "delim \<noteq> []" "fb_sound b" "sb_inv c"
  shows "(\<exists>r. io_read_until flat_ops rd delim (d, b) = Some r \<and> (\<forall>n d' b'. r = Inr (n, d', b') \<longrightarrow>
      (\<exists>recv. fb_bytes b' = fb_bytes b @ recv \<and> src d = recv @ src d') \<and> first_match delim (fb_bytes b') n)) \<and>
    (\<exists>r. io_read_until (stream_ops cap) rd delim (d, c) = Some r \<and> (\<forall>n d' c'. r = Inr (n, d', c') \<longrightarrow>
      (\<exists>recv. sb_bytes c' = sb_bytes c @ recv \<and> src d = recv @ src d') \<and> first_match delim (sb_bytes c') n))"
proof
  have pos: "\<forall>i. match_at delim x i \<longrightarrow> 0 < i + length delim" for x using assms(2) by simp
  obtain f where f: "search_ok delim f"
    "io_read_until flat_ops rd delim (d, b) = io_read_until_loop f flat_ops rd 0 (d, b)"
    using io_read_until_search [OF assms(2)] by blast
  show "\<exists>r. io_read_until flat_ops rd delim (d, b) = Some r \<and> (\<forall>n d' b'. r = Inr (n, d', b') \<longrightarrow>
      (\<exists>recv. fb_bytes b' = fb_bytes b @ recv \<and> src d = recv @ src d') \<and> first_match delim (fb_bytes b') n)"
    using flat.read_until_rep [OF assms(1) f(1) assms(3) _ pos, of fb_capacity d] f(2)
    by (fastforce simp: flat_ops_def)
  obtain g where g: "search_ok delim g"
    "io_read_until (stream_ops cap) rd delim (d, c) = io_read_until_loop g (stream_ops cap) rd 0 (d, c)"
    using io_read_until_search [OF assms(2)] by blast
  show "\<exists>r. io_read_until (stream_ops cap) rd delim (d, c) = Some r \<and> (\<forall>n d' c'. r = Inr (n, d', c') \<longrightarrow>
      (\<exists>recv. sb_bytes c' = sb_bytes c @ recv \<and> src d = recv @ src d') \<and> first_match delim (sb_bytes c') n)"
    using stream.read_until_rep [OF assms(1) g(1) assms(4) _ pos, of cap d] g(2)
    by (fastforce simp: stream_ops_def)
qed

text \<open>The delimiter \<open>3, 4\<close> straddles the first two reads of three bytes.\<close>

lemma demo_read_until:
  "io_read_until (stream_ops (\<lambda>_. 0)) demo_reader [3, 4] ([1, 2, 3, 4, 5, 6, 7], sb_new 8) =
     Some (Inr (4, [7], sb_commit 3 (sb_fill [4, 5, 6] (sb_commit 3 (sb_fill [1, 2, 3] (sb_new 8))))))"
  by (code_simp, subst io_read_until_loop.simps, code_simp, subst io_read_until_loop.simps, code_simp,
      subst io_read_until_loop.simps, code_simp)

theorem read_until_first_match_witness:
  "\<exists>c. io_read_until (stream_ops (\<lambda>_. 0)) demo_reader [3, 4] ([1, 2, 3, 4, 5, 6, 7], sb_new 8) =
      Some (Inr (4, [7], c)) \<and> first_match [3, 4] (sb_bytes c) 4"
  using read_until_first_match [OF demo_devices_ok(1) _ flat_sound_new sb_inv_new(1),
      of "[3, 4]" 4096 "[1, 2, 3, 4, 5, 6, 7]" "\<lambda>_. 0" 8] demo_read_until
  by auto

end
