(* ===== verification/Inplace_Vector.thy ===== *)
theory Inplace_Vector
  imports Prelude
begin

text \<open>
  The fixed-capacity vector of \<open>include/coio/utils/inplace_vector.h\<close>. The storage is a list of slots, one
  for each of the \<open>N\<close> places, with \<^term>\<open>None\<close> for a place that holds no object; using or destroying such a
  place is the error \<open>DeadObject\<close>. Iterators are indices. The construction of an element is a value of
  \<open>error + 'a\<close>: it may throw. Every operation returns its outcome with the vector it leaves, since the vector
  survives an exception. Sums of sizes are written modulo 2^64.
\<close>

record 'a inplace_vector =
  iv_slots :: "'a option list"
  iv_size :: nat

type_synonym ('a, 'r) iv_result = "(error + 'r) \<times> 'a inplace_vector"

definition iv_new :: "nat \<Rightarrow> 'a inplace_vector" where
  "iv_new n = \<lparr>iv_slots = replicate n None, iv_size = 0\<rparr>"

definition iv_capacity :: "'a inplace_vector \<Rightarrow> nat" where
  "iv_capacity v = length (iv_slots v)"

definition iv_empty :: "'a inplace_vector \<Rightarrow> bool" where
  "iv_empty v \<longleftrightarrow> iv_size v = 0"

text \<open>\<open>begin\<close> and \<open>end\<close> are null for an empty vector.\<close>

definition iv_begin :: "'a inplace_vector \<Rightarrow> nat option" where
  "iv_begin v = (if iv_empty v then None else Some 0)"

definition iv_end :: "'a inplace_vector \<Rightarrow> nat option" where
  "iv_end v = (if iv_empty v then None else Some (iv_size v))"

definition iv_load :: "'a option list \<Rightarrow> nat \<Rightarrow> error + 'a" where
  "iv_load s i =
     (if i < length s then (case s ! i of None \<Rightarrow> Inl DeadObject | Some x \<Rightarrow> Inr x) else Inl HeapOverflow)"

definition iv_index :: "nat \<Rightarrow> 'a inplace_vector \<Rightarrow> error + 'a" where
  "iv_index i v = (case iv_begin v of None \<Rightarrow> Inl NullDeref | Some b \<Rightarrow> iv_load (iv_slots v) (b + i))"

definition iv_front :: "'a inplace_vector \<Rightarrow> error + 'a" where
  "iv_front v = iv_index 0 v"

definition iv_back :: "'a inplace_vector \<Rightarrow> error + 'a" where
  "iv_back v = (case iv_end v of None \<Rightarrow> Inl NullDeref | Some e \<Rightarrow> iv_load (iv_slots v) (e - 1))"

definition iv_at :: "nat \<Rightarrow> 'a inplace_vector \<Rightarrow> error + 'a" where
  "iv_at i v = (if i \<ge> iv_size v then Inl OutOfRange else iv_index i v)"

definition iv_reserve :: "nat \<Rightarrow> 'a inplace_vector \<Rightarrow> error + unit" where
  "iv_reserve cnt v = (if cnt > iv_capacity v then Inl BadAlloc else Inr ())"

section \<open>Constructing and destroying\<close>

text \<open>
  The construction loops, which start at \<open>cur_size_\<close> and stop at the first element that throws or when
  the storage is full (\<open>n == N\<close>). The result is the exception, if any, the position and the storage.
\<close>

fun iv_construct_loop ::
  "(error + 'a) list \<Rightarrow> nat \<Rightarrow> 'a option list \<Rightarrow> error option \<times> nat \<times> 'a option list" where
  "iv_construct_loop [] n s = (None, n, s)"
| "iv_construct_loop (c # cs) n s =
     (if n = length s then (Some BadAlloc, n, s)
      else case c of
             Inl e \<Rightarrow> (Some e, n, s)
           | Inr x \<Rightarrow> iv_construct_loop cs (n + 1) (s[n := Some x]))"

text \<open>\<open>std::destroy\<close> on the places from \<open>i\<close> up to \<open>j\<close>.\<close>

definition iv_destroy :: "nat \<Rightarrow> nat \<Rightarrow> 'a option list \<Rightarrow> error + 'a option list" where
  "iv_destroy i j s =
     (if None \<in> set (take (j - i) (drop i s)) then Inl DeadObject
      else Inr (take i s @ replicate (j - i) None @ drop j s))"

text \<open>Constructing behind the elements; an exception destroys what has been constructed.\<close>

definition iv_construct :: "(error + 'a) list \<Rightarrow> 'a inplace_vector \<Rightarrow> ('a, unit) iv_result" where
  "iv_construct cs v =
     (case iv_construct_loop cs (iv_size v) (iv_slots v) of
        (None, n, s) \<Rightarrow> (Inr (), \<lparr>iv_slots = s, iv_size = n\<rparr>)
      | (Some e, n, s) \<Rightarrow>
          (case iv_destroy (iv_size v) n s of
             Inl d \<Rightarrow> (Inl d, \<lparr>iv_slots = s, iv_size = iv_size v\<rparr>)
           | Inr s \<Rightarrow> (Inl e, \<lparr>iv_slots = s, iv_size = iv_size v\<rparr>)))"

text \<open>\<open>mk k\<close> is the construction of the \<open>k\<close>th of the new elements; the result is null or the last element.\<close>

definition iv_try_emplace_back_n ::
  "nat \<Rightarrow> (nat \<Rightarrow> error + 'a) \<Rightarrow> 'a inplace_vector \<Rightarrow> ('a, nat option) iv_result" where
  "iv_try_emplace_back_n cnt mk v =
     (let stop = (iv_size v + cnt) mod 2 ^ 64
      in if stop > iv_capacity v then (Inr None, v)
         else
           (case iv_construct (List.map mk [0..<stop - iv_size v]) v of
              (Inl e, v) \<Rightarrow> (Inl e, v)
            | (Inr _, v) \<Rightarrow> (if iv_empty v then Inl NullDeref else Inr (Some (iv_size v - 1)), v)))"

definition iv_try_emplace_back :: "error + 'a \<Rightarrow> 'a inplace_vector \<Rightarrow> ('a, nat option) iv_result" where
  "iv_try_emplace_back c v = iv_try_emplace_back_n 1 (\<lambda>_. c) v"

definition iv_emplace_back :: "error + 'a \<Rightarrow> 'a inplace_vector \<Rightarrow> ('a, nat) iv_result" where
  "iv_emplace_back c v =
     (case iv_try_emplace_back c v of
        (Inl e, v) \<Rightarrow> (Inl e, v)
      | (Inr None, v) \<Rightarrow> (Inl BadAlloc, v)
      | (Inr (Some p), v) \<Rightarrow> (Inr p, v))"

definition iv_unchecked_emplace_back :: "error + 'a \<Rightarrow> 'a inplace_vector \<Rightarrow> ('a, nat) iv_result" where
  "iv_unchecked_emplace_back c v =
     (case iv_try_emplace_back c v of
        (Inl e, v) \<Rightarrow> (Inl e, v)
      | (Inr None, v) \<Rightarrow> (Inl AssertFailed, v)
      | (Inr (Some p), v) \<Rightarrow> (Inr p, v))"

text \<open>\<open>sized\<close>: the range knows its size, which is checked first.\<close>

definition iv_append_range :: "bool \<Rightarrow> (error + 'a) list \<Rightarrow> 'a inplace_vector \<Rightarrow> ('a, unit) iv_result" where
  "iv_append_range sized cs v =
     (if sized \<and> length cs + iv_size v > iv_capacity v then (Inl BadAlloc, v) else iv_construct cs v)"

fun iv_try_append_range ::
  "(error + 'a) list \<Rightarrow> nat \<Rightarrow> 'a inplace_vector \<Rightarrow> ('a, (error + 'a) list) iv_result" where
  "iv_try_append_range [] n v = (Inr [], v)"
| "iv_try_append_range (c # cs) n v =
     (if n = iv_capacity v then (Inr (c # cs), v)
      else case iv_try_emplace_back c v of
             (Inl e, v) \<Rightarrow> (Inl e, v)
           | (Inr _, v) \<Rightarrow> iv_try_append_range cs (n + 1) v)"

section \<open>Erasing\<close>

text \<open>\<open>std::ranges::move(last, cend(), begin() + first)\<close>, then the rest is destroyed.\<close>

definition iv_move_down :: "nat \<Rightarrow> nat \<Rightarrow> nat \<Rightarrow> 'a option list \<Rightarrow> 'a option list" where
  "iv_move_down first stop sz s =
     take first s @ take (sz - stop) (drop stop s) @ drop (first + (sz - stop)) s"

definition iv_erase :: "nat \<Rightarrow> nat \<Rightarrow> 'a inplace_vector \<Rightarrow> ('a, nat) iv_result" where
  "iv_erase first stop v =
     (if first \<noteq> stop then
        (let s = iv_move_down first stop (iv_size v) (iv_slots v)
         in case iv_destroy (first + (iv_size v - stop)) (iv_size v) s of
              Inl e \<Rightarrow> (Inl e, v\<lparr>iv_slots := s\<rparr>)
            | Inr s \<Rightarrow> (Inr first, \<lparr>iv_slots = s, iv_size = iv_size v - (stop - first)\<rparr>))
      else (Inr first, v))"

definition iv_pop_back :: "'a inplace_vector \<Rightarrow> ('a, nat) iv_result" where
  "iv_pop_back v = (if iv_empty v then (Inl AssertFailed, v) else iv_erase (iv_size v - 1) (iv_size v) v)"

definition iv_clear :: "'a inplace_vector \<Rightarrow> ('a, nat) iv_result" where
  "iv_clear v = iv_erase 0 (iv_size v) v"

definition iv_resize :: "nat \<Rightarrow> (nat \<Rightarrow> error + 'a) \<Rightarrow> 'a inplace_vector \<Rightarrow> ('a, unit) iv_result" where
  "iv_resize cnt mk v =
     (if cnt > iv_capacity v then (Inl BadAlloc, v)
      else if cnt \<ge> iv_size v then
        (case iv_try_emplace_back_n (cnt - iv_size v) mk v of
           (Inl e, v) \<Rightarrow> (Inl e, v)
         | (Inr None, v) \<Rightarrow> (Inl BadAlloc, v)
         | (Inr (Some _), v) \<Rightarrow> (Inr (), v))
      else (case iv_erase cnt (iv_size v) v of (r, v) \<Rightarrow> (map_sum id (\<lambda>_. ()) r, v)))"

text \<open>\<open>resize(count, value)\<close>: the elements behind \<open>count\<close> are destroyed and \<open>cur_size_\<close> is left as it is.\<close>

definition iv_resize_value :: "nat \<Rightarrow> 'a \<Rightarrow> 'a inplace_vector \<Rightarrow> ('a, unit) iv_result" where
  "iv_resize_value cnt x v =
     (if cnt > iv_capacity v then (Inl BadAlloc, v)
      else if cnt \<ge> iv_size v then
        (case iv_try_emplace_back_n (cnt - iv_size v) (\<lambda>_. Inr x) v of
           (Inl e, v) \<Rightarrow> (Inl e, v)
         | (Inr None, v) \<Rightarrow> (Inl BadAlloc, v)
         | (Inr (Some _), v) \<Rightarrow> (Inr (), v))
      else
        (case iv_destroy cnt (iv_size v) (iv_slots v) of
           Inl e \<Rightarrow> (Inl e, v)
         | Inr s \<Rightarrow> (Inr (), v\<lparr>iv_slots := s\<rparr>)))"

section \<open>Inserting\<close>

text \<open>\<open>std::ranges::reverse\<close> on the places from \<open>i\<close> up to \<open>j\<close>, and the rotation made of three of them.\<close>

definition iv_reverse :: "nat \<Rightarrow> nat \<Rightarrow> 'a option list \<Rightarrow> 'a option list" where
  "iv_reverse i j s = take i s @ rev (take (j - i) (drop i s)) @ drop j s"

definition iv_shift_right :: "nat \<Rightarrow> nat \<Rightarrow> 'a inplace_vector \<Rightarrow> 'a inplace_vector" where
  "iv_shift_right start n v =
     (if n = 0 \<or> (start + n) mod 2 ^ 64 \<ge> iv_size v then v
      else
        let n = nat ((int (iv_size v) - int start - int n) mod 2 ^ 64);
            s = iv_reverse start (start + n) (iv_slots v);
            s = iv_reverse (start + n) (iv_size v) s
        in v\<lparr>iv_slots := iv_reverse start (iv_size v) s\<rparr>)"

definition iv_emplace :: "nat \<Rightarrow> error + 'a \<Rightarrow> 'a inplace_vector \<Rightarrow> ('a, nat) iv_result" where
  "iv_emplace index c v =
     (case iv_emplace_back c v of
        (Inl e, v) \<Rightarrow> (Inl e, v)
      | (Inr _, v) \<Rightarrow> (Inr index, iv_shift_right index 1 v))"

definition iv_insert_n :: "nat \<Rightarrow> nat \<Rightarrow> 'a \<Rightarrow> 'a inplace_vector \<Rightarrow> ('a, nat) iv_result" where
  "iv_insert_n index cnt x v =
     (case iv_try_emplace_back_n cnt (\<lambda>_. Inr x) v of
        (Inl e, v) \<Rightarrow> (Inl e, v)
      | (Inr None, v) \<Rightarrow> (Inl BadAlloc, v)
      | (Inr (Some _), v) \<Rightarrow> (Inr index, iv_shift_right index cnt v))"

definition iv_insert_range ::
  "bool \<Rightarrow> nat \<Rightarrow> (error + 'a) list \<Rightarrow> 'a inplace_vector \<Rightarrow> ('a, nat) iv_result" where
  "iv_insert_range sized index cs v =
     (case iv_append_range sized cs v of
        (Inl e, w) \<Rightarrow> (Inl e, w)
      | (Inr _, w) \<Rightarrow> (Inr index, iv_shift_right index (iv_size w - iv_size v) w))"

section \<open>Assigning\<close>

definition iv_store :: "nat \<Rightarrow> 'a \<Rightarrow> 'a inplace_vector \<Rightarrow> error + 'a inplace_vector" where
  "iv_store i x v =
     (case iv_index i v of Inl e \<Rightarrow> Inl e | Inr _ \<Rightarrow> Inr (v\<lparr>iv_slots := (iv_slots v)[i := Some x]\<rparr>))"

text \<open>The loop of the \<open>assign\<close> functions: elements that exist are assigned, the others appended. The result is
  the exception, if any, and the number of values assigned.\<close>

fun iv_assign_loop :: "'a list \<Rightarrow> nat \<Rightarrow> nat \<Rightarrow> 'a inplace_vector \<Rightarrow> ('a, nat) iv_result" where
  "iv_assign_loop [] i old_size v = (Inr i, v)"
| "iv_assign_loop (x # xs) i old_size v =
     (if i < old_size then
        (case iv_store i x v of
           Inl e \<Rightarrow> (Inl e, v)
         | Inr v \<Rightarrow> iv_assign_loop xs (i + 1) old_size v)
      else
        (case iv_emplace_back (Inr x) v of
           (Inl e, v) \<Rightarrow> (Inl e, v)
         | (Inr _, v) \<Rightarrow> iv_assign_loop xs (i + 1) old_size v))"

definition iv_assign :: "nat \<Rightarrow> 'a \<Rightarrow> 'a inplace_vector \<Rightarrow> ('a, unit) iv_result" where
  "iv_assign cnt x v =
     (case iv_assign_loop (replicate cnt x) 0 (iv_size v) v of (r, v) \<Rightarrow> (map_sum id (\<lambda>_. ()) r, v))"

definition iv_assign_range :: "bool \<Rightarrow> 'a list \<Rightarrow> 'a inplace_vector \<Rightarrow> ('a, unit) iv_result" where
  "iv_assign_range sized xs v =
     (if sized \<and> length xs > iv_capacity v then (Inl BadAlloc, v)
      else
        (case iv_assign_loop xs 0 (iv_size v) v of
           (Inl e, w) \<Rightarrow> (Inl e, w)
         | (Inr i, w) \<Rightarrow>
             (if i < iv_size v then
                (case iv_erase i (iv_size w) w of (r, w) \<Rightarrow> (map_sum id (\<lambda>_. ()) r, w))
              else (Inr (), w))))"

section \<open>Whole vectors\<close>

definition iv_elements :: "'a inplace_vector \<Rightarrow> 'a list" where
  "iv_elements v = List.map the (take (iv_size v) (iv_slots v))"

definition iv_copy :: "'a inplace_vector \<Rightarrow> ('a, unit) iv_result" where
  "iv_copy other = iv_append_range True (List.map Inr (iv_elements other)) (iv_new (iv_capacity other))"

text \<open>\<open>self\<close>: source and target are the same object.\<close>

definition iv_copy_assign :: "bool \<Rightarrow> 'a inplace_vector \<Rightarrow> 'a inplace_vector \<Rightarrow> ('a, unit) iv_result" where
  "iv_copy_assign self other v =
     (if \<not> self then iv_assign_range True (iv_elements other) v else (Inr (), v))"

text \<open>\<open>swap\<close>: the common prefix is swapped, the rest of the longer vector is appended to the shorter one.\<close>

definition iv_swap_prefix ::
  "nat \<Rightarrow> 'a inplace_vector \<Rightarrow> 'a inplace_vector \<Rightarrow> 'a inplace_vector \<times> 'a inplace_vector" where
  "iv_swap_prefix k a b =
     (a\<lparr>iv_slots := take k (iv_slots b) @ drop k (iv_slots a)\<rparr>,
      b\<lparr>iv_slots := take k (iv_slots a) @ drop k (iv_slots b)\<rparr>)"

definition iv_move_rest ::
  "nat \<Rightarrow> 'a inplace_vector \<Rightarrow> 'a inplace_vector \<Rightarrow> (error + unit) \<times> 'a inplace_vector \<times> 'a inplace_vector" where
  "iv_move_rest i a b =
     (case iv_append_range True (List.map Inr (drop i (iv_elements a))) b of
        (Inl e, b) \<Rightarrow> (Inl e, a, b)
      | (Inr _, b) \<Rightarrow> (case iv_erase i (iv_size a) a of (r, a) \<Rightarrow> (map_sum id (\<lambda>_. ()) r, a, b)))"

definition iv_swap ::
  "'a inplace_vector \<Rightarrow> 'a inplace_vector \<Rightarrow> (error + unit) \<times> 'a inplace_vector \<times> 'a inplace_vector" where
  "iv_swap a b =
     (let i = min (iv_size a) (iv_size b); p = iv_swap_prefix i a b; a = fst p; b = snd p
      in if i < iv_size a then iv_move_rest i a b
         else if i < iv_size b then
           (case iv_move_rest i b a of (r, b, a) \<Rightarrow> (r, a, b))
         else (Inr (), a, b))"

fun iv_eq_loop :: "'a inplace_vector \<Rightarrow> 'a inplace_vector \<Rightarrow> nat \<Rightarrow> nat \<Rightarrow> bool" where
  "iv_eq_loop a b i 0 = True"
| "iv_eq_loop a b i (Suc k) = (iv_index i a = iv_index i b \<and> iv_eq_loop a b (i + 1) k)"

definition iv_eq :: "'a inplace_vector \<Rightarrow> 'a inplace_vector \<Rightarrow> bool" where
  "iv_eq a b = (iv_size a = iv_size b \<and> iv_eq_loop a b 0 (iv_size a))"

text \<open>\<open>erase_if\<close>: \<open>std::ranges::remove_if\<close> moves the kept elements to the front and leaves the values behind them
  unspecified (\<open>junk\<close>); these are erased. \<open>erase\<close> of a value removes the elements equal to it.\<close>

definition iv_erase_if :: "('a \<Rightarrow> bool) \<Rightarrow> 'a list \<Rightarrow> 'a inplace_vector \<Rightarrow> ('a, nat) iv_result" where
  "iv_erase_if P junk v =
     (let kept = filter (\<lambda>x. \<not> P x) (iv_elements v);
          first = length kept;
          w = v\<lparr>iv_slots := List.map Some (kept @ take (iv_size v - first) junk) @ drop (iv_size v) (iv_slots v)\<rparr>
      in case iv_erase first (iv_size v) w of
           (r, w) \<Rightarrow> (map_sum id (\<lambda>_. iv_size v - first) r, w))"

definition iv_erase_value :: "'a \<Rightarrow> 'a list \<Rightarrow> 'a inplace_vector \<Rightarrow> ('a, nat) iv_result" where
  "iv_erase_value x junk v = iv_erase_if (\<lambda>y. y = x) junk v"

section \<open>The vectors that hold a list\<close>

text \<open>\<open>iv_rep N xs\<close> is the vector of capacity \<open>N\<close> with the elements \<open>xs\<close>: exactly the places below
  \<open>cur_size_\<close> hold objects.\<close>

definition iv_places :: "nat \<Rightarrow> 'a list \<Rightarrow> 'a option list" where
  "iv_places n xs = List.map Some xs @ replicate (n - length xs) None"

definition iv_rep :: "nat \<Rightarrow> 'a list \<Rightarrow> 'a inplace_vector" where
  "iv_rep n xs = \<lparr>iv_slots = iv_places n xs, iv_size = length xs\<rparr>"

lemma iv_rep_simps [simp]:
  "iv_slots (iv_rep n xs) = iv_places n xs" "iv_size (iv_rep n xs) = length xs"
  "length xs \<le> n \<Longrightarrow> iv_capacity (iv_rep n xs) = n" "iv_empty (iv_rep n xs) \<longleftrightarrow> xs = []"
  by (simp_all add: iv_rep_def iv_capacity_def iv_places_def iv_empty_def)

lemma length_iv_places [simp]: "length xs \<le> n \<Longrightarrow> length (iv_places n xs) = n"
  by (simp add: iv_places_def)

lemma iv_new_rep: "iv_new n = iv_rep n []"
  by (simp add: iv_new_def iv_rep_def iv_places_def)

lemma iv_elements_rep [simp]: "iv_elements (iv_rep n xs) = xs"
  by (simp add: iv_elements_def iv_places_def)

lemma iv_places_nth: "i < length xs \<Longrightarrow> iv_places n xs ! i = Some (xs ! i)"
  by (simp add: iv_places_def nth_append)

lemma iv_places_extend: "length xs < n \<Longrightarrow> (iv_places n xs)[length xs := Some x] = iv_places n (xs @ [x])"
  by (simp add: iv_places_def list_update_append Suc_diff_Suc [symmetric])

lemma iv_index_rep: "i < length xs \<Longrightarrow> length xs \<le> n \<Longrightarrow> iv_index i (iv_rep n xs) = Inr (xs ! i)"
  by (auto simp: iv_index_def iv_begin_def iv_load_def iv_places_nth)

lemma iv_access_rep:
  assumes "length xs \<le> n"
  shows "xs \<noteq> [] \<Longrightarrow> iv_front (iv_rep n xs) = Inr (hd xs)" "xs \<noteq> [] \<Longrightarrow> iv_back (iv_rep n xs) = Inr (last xs)"
    "iv_at i (iv_rep n xs) = (if i < length xs then Inr (xs ! i) else Inl OutOfRange)"
  using assms
  by (auto simp: iv_front_def iv_back_def iv_at_def iv_index_rep iv_end_def iv_load_def iv_places_nth
      hd_conv_nth last_conv_nth) (cases xs; simp)

lemma iv_store_rep:
  "i < length xs \<Longrightarrow> length xs \<le> n \<Longrightarrow> iv_store i x (iv_rep n xs) = Inr (iv_rep n (xs[i := x]))"
  by (simp add: iv_store_def iv_index_rep) (simp add: iv_rep_def iv_places_def map_update list_update_append)

text \<open>Destroying the last elements.\<close>

lemma iv_destroy_rep:
  "length (xs @ ys) \<le> n \<Longrightarrow>
   iv_destroy (length xs) (length (xs @ ys)) (iv_places n (xs @ ys)) = Inr (iv_places n xs)"
  by (auto simp: iv_destroy_def iv_places_def replicate_add [symmetric])

text \<open>The construction loop builds a prefix; it is the whole list unless an exception is thrown.\<close>

lemma iv_construct_loop_rep:
  "length xs \<le> n \<Longrightarrow> \<exists>ys r. iv_construct_loop cs (length xs) (iv_places n xs) =
     (r, length (xs @ ys), iv_places n (xs @ ys)) \<and> length (xs @ ys) \<le> n \<and>
     (r = None \<longrightarrow> cs = List.map Inr ys) \<and> (cs = List.map Inr zs \<and> length xs + length zs \<le> n \<longrightarrow> r = None)"
proof (induction cs arbitrary: xs zs)
  case Nil
  then show ?case by (intro exI [of _ "[]"]) simp
next
  case (Cons c cs)
  show ?case
  proof (cases "length xs = n \<or> (\<exists>e. c = Inl e)")
    case True
    then show ?thesis using Cons.prems by (intro exI [of _ "[]"]) (auto split: sum.split)
  next
    case False
    then obtain x where c: "c = Inr x" by (cases c) auto
    have l: "length (xs @ [x]) \<le> n" using False Cons.prems by simp
    obtain ys r where ih: "iv_construct_loop cs (length (xs @ [x])) (iv_places n (xs @ [x])) =
        (r, length ((xs @ [x]) @ ys), iv_places n ((xs @ [x]) @ ys))" "length ((xs @ [x]) @ ys) \<le> n"
      "r = None \<longrightarrow> cs = List.map Inr ys"
      "cs = List.map Inr (tl zs) \<and> length (xs @ [x]) + length (tl zs) \<le> n \<longrightarrow> r = None"
      using Cons.IH [OF l, of "tl zs"] by blast
    have "iv_construct_loop (c # cs) (length xs) (iv_places n xs) =
        (r, length (xs @ x # ys), iv_places n (xs @ x # ys))"
      using False Cons.prems c ih(1) by (simp add: iv_places_extend)
    then show ?thesis using ih(2-4) c by (intro exI [of _ "x # ys"] exI [of _ r]) (cases zs, auto)
  qed
qed

lemma iv_construct_rep:
  assumes "length xs \<le> n"
  shows "length xs + length ys \<le> n \<Longrightarrow> iv_construct (List.map Inr ys) (iv_rep n xs) = (Inr (), iv_rep n (xs @ ys))"
    and "iv_construct cs (iv_rep n xs) = (Inl e, w) \<Longrightarrow> w = iv_rep n xs"
proof -
  show "iv_construct (List.map Inr ys) (iv_rep n xs) = (Inr (), iv_rep n (xs @ ys))"
    if l: "length xs + length ys \<le> n"
  proof -
    obtain zs r where z: "iv_construct_loop (List.map Inr ys) (length xs) (iv_places n xs) =
        (r, length (xs @ zs), iv_places n (xs @ zs))" "r = None"
      "List.map Inr ys = (List.map Inr zs :: (error + 'a) list)"
      using iv_construct_loop_rep [OF assms, of "List.map Inr ys" ys] l by blast
    have "ys = zs" using z(3) by (simp add: inj_map_eq_map inj_on_def)
    then show ?thesis using z(1,2) by (simp add: iv_construct_def iv_rep_def)
  qed
  show "w = iv_rep n xs" if e: "iv_construct cs (iv_rep n xs) = (Inl e, w)"
  proof -
    obtain zs r where z: "iv_construct_loop cs (length xs) (iv_places n xs) =
        (r, length (xs @ zs), iv_places n (xs @ zs))" "length (xs @ zs) \<le> n"
      using iv_construct_loop_rep [OF assms, of cs] by blast
    then show ?thesis
      using e iv_destroy_rep [OF z(2)] by (auto simp: iv_construct_def iv_rep_def split: option.splits)
  qed
qed

lemma iv_try_emplace_back_n_rep:
  assumes "length xs \<le> n" "length xs + k < 2 ^ 64"
  shows "iv_try_emplace_back_n k (\<lambda>i. Inr (f i)) (iv_rep n xs) =
    (if length xs + k > n then (Inr None, iv_rep n xs)
     else if xs = [] \<and> k = 0 then (Inl NullDeref, iv_rep n xs)
     else (Inr (Some (length xs + k - 1)), iv_rep n (xs @ List.map f [0..<k])))"
proof -
  show ?thesis
    using assms iv_construct_rep(1) [OF assms(1), of "List.map f [0..<k]"]
    by (auto simp: iv_try_emplace_back_n_def Let_def comp_def)
qed

lemma iv_try_emplace_back_n_throw:
  assumes "length xs \<le> n" "iv_try_emplace_back_n k mk (iv_rep n xs) = (Inl e, w)"
  shows "w = iv_rep n xs \<or> e = NullDeref"
  using assms iv_construct_rep(2) [OF assms(1), of _ e w]
  by (fastforce simp: iv_try_emplace_back_n_def Let_def split: if_splits prod.splits sum.splits)

lemma iv_emplace_back_rep:
  assumes "length xs \<le> n" "n < 2 ^ 63"
  shows "iv_emplace_back (Inr x) (iv_rep n xs) =
    (if length xs = n then (Inl BadAlloc, iv_rep n xs) else (Inr (length xs), iv_rep n (xs @ [x])))"
    "length xs < n \<Longrightarrow> iv_emplace_back (Inl e) (iv_rep n xs) = (Inl e, iv_rep n xs)"
    "length xs < n \<Longrightarrow> iv_unchecked_emplace_back (Inr x) (iv_rep n xs) = (Inr (length xs), iv_rep n (xs @ [x]))"
proof -
  have k: "length xs + 1 < 2 ^ 64" using assms by simp
  note t = iv_try_emplace_back_n_rep [OF assms(1) k, of "\<lambda>_. x"]
  show "iv_emplace_back (Inr x) (iv_rep n xs) =
    (if length xs = n then (Inl BadAlloc, iv_rep n xs) else (Inr (length xs), iv_rep n (xs @ [x])))"
    "length xs < n \<Longrightarrow> iv_unchecked_emplace_back (Inr x) (iv_rep n xs) = (Inr (length xs), iv_rep n (xs @ [x]))"
    using t assms by (auto simp: iv_emplace_back_def iv_unchecked_emplace_back_def iv_try_emplace_back_def)
  assume l: "length xs < n"
  have "iv_destroy (length xs) (length xs) (iv_places n xs) = Inr (iv_places n xs)"
    using iv_destroy_rep [of xs "[]" n] assms by simp
  then show "iv_emplace_back (Inl e) (iv_rep n xs) = (Inl e, iv_rep n xs)"
    using l assms
    by (simp add: iv_emplace_back_def iv_try_emplace_back_def iv_try_emplace_back_n_def iv_construct_def
        Let_def upt_rec)
qed

lemma iv_append_range_rep:
  assumes "length xs \<le> n"
  shows "length xs + length ys \<le> n \<Longrightarrow>
      iv_append_range sized (List.map Inr ys) (iv_rep n xs) = (Inr (), iv_rep n (xs @ ys))"
    and "iv_append_range sized cs (iv_rep n xs) = (Inl e, w) \<Longrightarrow> w = iv_rep n xs"
  using iv_construct_rep [OF assms] assms by (auto simp: iv_append_range_def split: if_splits)

text \<open>The three reversals swap two adjacent blocks.\<close>

lemma iv_reverse_mid:
  "length a = i \<Longrightarrow> j = i + length b \<Longrightarrow> iv_reverse i j (a @ b @ c) = a @ rev b @ c"
  by (simp add: iv_reverse_def)

lemma iv_shift_right_rep:
  assumes "length (xs @ ys @ zs) \<le> n" "n < 2 ^ 63"
  shows "iv_shift_right (length xs) (length zs) (iv_rep n (xs @ ys @ zs)) = iv_rep n (xs @ zs @ ys)"
proof (cases "ys = [] \<or> zs = []")
  case True
  then show ?thesis using assms by (auto simp: iv_shift_right_def)
next
  case False
  let ?i = "length xs" and ?j = "length xs + length ys" and ?k = "length xs + length ys + length zs"
  let ?X = "List.map Some xs" and ?Y = "List.map Some ys" and ?Z = "List.map Some zs"
  let ?R = "replicate (n - ?k) None :: 'a option list"
  have p: "iv_places n (xs @ ys @ zs) = ?X @ ?Y @ ?Z @ ?R" "iv_places n (xs @ zs @ ys) = ?X @ ?Z @ ?Y @ ?R"
    by (simp_all add: iv_places_def add.assoc add.commute [of "length ys"])
  have "iv_reverse ?i ?j (?X @ ?Y @ ?Z @ ?R) = ?X @ rev ?Y @ ?Z @ ?R"
    by (rule iv_reverse_mid) simp_all
  moreover have "iv_reverse ?j ?k ((?X @ rev ?Y) @ ?Z @ ?R) = (?X @ rev ?Y) @ rev ?Z @ ?R"
    by (rule iv_reverse_mid) simp_all
  moreover have "iv_reverse ?i ?k (?X @ (rev ?Y @ rev ?Z) @ ?R) = ?X @ rev (rev ?Y @ rev ?Z) @ ?R"
    by (rule iv_reverse_mid) simp_all
  ultimately have "iv_reverse ?i ?k (iv_reverse ?j ?k (iv_reverse ?i ?j (iv_places n (xs @ ys @ zs)))) =
      iv_places n (xs @ zs @ ys)"
    unfolding p by simp
  moreover have "nat ((int (length (xs @ ys @ zs)) - int (length xs) - int (length zs)) mod 2 ^ 64) = length ys"
    using assms by simp
  moreover have "(length xs + length zs) mod 2 ^ 64 < ?k" using assms False by simp
  ultimately show ?thesis
    using False by (simp add: iv_shift_right_def Let_def add.assoc iv_rep_def)
qed

lemma iv_erase_rep:
  assumes "length (xs @ ys @ zs) \<le> n"
  shows "iv_erase (length xs) (length (xs @ ys)) (iv_rep n (xs @ ys @ zs)) = (Inr (length xs), iv_rep n (xs @ zs))"
proof (cases "ys = []")
  case False
  define ws where "ws = drop (length zs) (ys @ zs)"
  have len: "length (zs @ ws) = length (ys @ zs)" by (simp add: ws_def)
  have "iv_move_down (length xs) (length (xs @ ys)) (length (xs @ ys @ zs)) (iv_places n (xs @ ys @ zs)) =
      iv_places n ((xs @ zs) @ ws)"
    by (simp add: iv_move_down_def iv_places_def ws_def drop_map)
  moreover have "iv_destroy (length (xs @ zs)) (length ((xs @ zs) @ ws)) (iv_places n ((xs @ zs) @ ws)) =
      Inr (iv_places n (xs @ zs))"
    using assms len by (intro iv_destroy_rep) simp
  ultimately show ?thesis
    using False len by (simp add: iv_erase_def Let_def ac_simps iv_rep_def)
qed (simp add: iv_erase_def)

lemma iv_erase_tail:
  "length (xs @ ys) \<le> n \<Longrightarrow>
   iv_erase (length xs) (length (xs @ ys)) (iv_rep n (xs @ ys)) = (Inr (length xs), iv_rep n xs)"
  using iv_erase_rep [of xs ys "[]" n] by simp

lemma iv_clear_rep: "length xs \<le> n \<Longrightarrow> iv_clear (iv_rep n xs) = (Inr 0, iv_rep n [])"
  using iv_erase_tail [of "[]" xs n] by (simp add: iv_clear_def)

lemma iv_pop_back_rep:
  "length xs < n \<Longrightarrow> iv_pop_back (iv_rep n (xs @ [x])) = (Inr (length xs), iv_rep n xs)"
  using iv_erase_tail [of xs "[x]" n] by (simp add: iv_pop_back_def)

lemma iv_emplace_rep:
  assumes "length (xs @ ys) < n" "n < 2 ^ 63"
  shows "iv_emplace (length xs) (Inr x) (iv_rep n (xs @ ys)) = (Inr (length xs), iv_rep n (xs @ x # ys))"
  using iv_emplace_back_rep(1) [of "xs @ ys" n x] iv_shift_right_rep [of xs ys "[x]" n] assms
  by (simp add: iv_emplace_def)

lemma iv_insert_n_rep:
  assumes "length (xs @ ys) + k \<le> n" "n < 2 ^ 63" "0 < k"
  shows "iv_insert_n (length xs) k x (iv_rep n (xs @ ys)) = (Inr (length xs), iv_rep n (xs @ replicate k x @ ys))"
proof -
  have "length (xs @ ys) \<le> n" "length (xs @ ys) + k < 2 ^ 64" using assms by simp_all
  note t = iv_try_emplace_back_n_rep [OF this, of "\<lambda>_. x"]
  have "List.map (\<lambda>_. x) [0..<k] = replicate k x" by (simp add: map_replicate_const)
  then show ?thesis
    using t iv_shift_right_rep [of xs ys "replicate k x" n] assms by (simp add: iv_insert_n_def)
qed

lemma iv_insert_range_rep:
  assumes "length (xs @ ys) + length zs \<le> n" "n < 2 ^ 63"
  shows "iv_insert_range sized (length xs) (List.map Inr zs) (iv_rep n (xs @ ys)) =
    (Inr (length xs), iv_rep n (xs @ zs @ ys))"
  using iv_append_range_rep(1) [of "xs @ ys" n zs] iv_shift_right_rep [of xs ys zs n] assms
  by (simp add: iv_insert_range_def)

lemma iv_assign_loop_rep:
  assumes "n < 2 ^ 63"
  shows "length (as @ bs) \<le> n \<Longrightarrow> length as + length xs \<le> n \<Longrightarrow>
    bs = [] \<and> old_size \<le> length as \<or> old_size = length (as @ bs) \<Longrightarrow>
    iv_assign_loop xs (length as) old_size (iv_rep n (as @ bs)) =
      (Inr (length as + length xs), iv_rep n (as @ xs @ drop (length xs) bs))"
proof (induction xs arbitrary: as bs)
  case Nil
  then show ?case by simp
next
  case (Cons x xs)
  note ih = Cons.IH [of "as @ [x]"]
  show ?case
  proof (cases bs)
    case Nil
    then show ?thesis
      using Cons.prems ih [of "[]"] iv_emplace_back_rep(1) [of as n x] assms by auto
  next
    case (Cons b bs')
    then have "iv_store (length as) x (iv_rep n (as @ bs)) = Inr (iv_rep n ((as @ [x]) @ bs'))"
      using Cons.prems iv_store_rep [of "length as" "as @ bs" n x] by simp
    then show ?thesis using Cons Cons.prems ih [of bs'] by simp
  qed
qed

lemma iv_assign_range_rep:
  assumes "length xs \<le> n" "length ys \<le> n" "n < 2 ^ 63"
  shows "iv_assign_range sized ys (iv_rep n xs) = (Inr (), iv_rep n ys)"
proof -
  have l: "iv_assign_loop ys 0 (length xs) (iv_rep n xs) =
      (Inr (length ys), iv_rep n (ys @ drop (length ys) xs))"
    using iv_assign_loop_rep [OF assms(3), of "[]" xs ys "length xs"] assms(1,2) by simp
  have "length (ys @ drop (length ys) xs) \<le> n" using assms(1,2) by simp
  note e = iv_erase_tail [OF this]
  show ?thesis
  proof (cases "length ys < length xs")
    case True
    then show ?thesis using l e assms by (simp add: iv_assign_range_def)
  next
    case False
    then show ?thesis using l assms by (simp add: iv_assign_range_def)
  qed
qed

lemma iv_assign_rep:
  assumes "length xs \<le> n" "k \<le> n" "n < 2 ^ 63"
  shows "iv_assign k x (iv_rep n xs) = (Inr (), iv_rep n (replicate k x @ drop k xs))"
  using iv_assign_loop_rep [OF assms(3), of "[]" xs "replicate k x" "length xs"] assms
  by (simp add: iv_assign_def)

lemma iv_copy_rep: "length xs \<le> n \<Longrightarrow> iv_copy (iv_rep n xs) = (Inr (), iv_rep n xs)"
  using iv_append_range_rep(1) [of "[]" n xs True] by (simp add: iv_copy_def iv_new_rep)

lemma iv_move_rest_rep:
  assumes "length (as @ ys) \<le> n" "length (bs @ ys) \<le> n" 
  shows "iv_move_rest (length as) (iv_rep n (as @ ys)) (iv_rep n bs) = (Inr (), iv_rep n as, iv_rep n (bs @ ys))"
  using iv_append_range_rep(1) [of bs n ys True] iv_erase_tail [OF assms(1)] assms(2)
  by (simp add: iv_move_rest_def)

lemma iv_swap_rep:
  assumes "length xs \<le> n" "length ys \<le> n"
  shows "iv_swap (iv_rep n xs) (iv_rep n ys) = (Inr (), iv_rep n ys, iv_rep n xs)"
proof -
  let ?i = "min (length xs) (length ys)"
  have p: "iv_swap_prefix ?i (iv_rep n xs) (iv_rep n ys) =
      (iv_rep n (take ?i ys @ drop ?i xs), iv_rep n (take ?i xs @ drop ?i ys))"
    by (simp add: iv_swap_prefix_def) (simp add: iv_rep_def iv_places_def take_map drop_map)
  consider "length xs = length ys" | "length xs < length ys" | "length ys < length xs" by linarith
  then show ?thesis
  proof cases
    case 1
    then show ?thesis using p by (simp add: iv_swap_def Let_def)
  next
    case 2
    then show ?thesis
      using p iv_move_rest_rep [of xs "drop (length xs) ys" n "take (length xs) ys"] assms
      by (simp add: iv_swap_def Let_def)
  next
    case 3
    then show ?thesis
      using p iv_move_rest_rep [of ys "drop (length ys) xs" n "take (length ys) xs"] assms
      by (simp add: iv_swap_def Let_def)
  qed
qed

lemma iv_eq_loop_rep:
  assumes "length xs \<le> n" "length ys \<le> n"
  shows "i + k \<le> length xs \<Longrightarrow> i + k \<le> length ys \<Longrightarrow>
    iv_eq_loop (iv_rep n xs) (iv_rep n ys) i k \<longleftrightarrow> take k (drop i xs) = take k (drop i ys)"
proof (induction k arbitrary: i)
  case (Suc k)
  have "take (Suc k) (drop i zs) = zs ! i # take k (drop (i + 1) zs)" if "i < length zs" for zs :: "'a list"
    using that by (simp add: Cons_nth_drop_Suc [symmetric])
  then show ?case using Suc assms by (simp add: iv_index_rep)
qed simp

lemma iv_eq_rep:
  assumes "length xs \<le> n" "length ys \<le> n"
  shows "iv_eq (iv_rep n xs) (iv_rep n ys) \<longleftrightarrow> xs = ys"
  using iv_eq_loop_rep [OF assms, of 0 "length xs"] by (auto simp: iv_eq_def)

lemma iv_erase_if_rep:
  assumes "length xs \<le> n" "length xs \<le> length junk"
  shows "iv_erase_if P junk (iv_rep n xs) =
    (Inr (length (filter P xs)), iv_rep n (filter (\<lambda>x. \<not> P x) xs))"
proof -
  let ?kept = "filter (\<lambda>x. \<not> P x) xs"
  let ?w = "?kept @ take (length xs - length ?kept) junk"
  have k: "length ?kept \<le> length xs" by simp
  have len: "length ?w = length xs" using k assms(2) by simp
  have s: "length (filter P xs) + length ?kept = length xs" by (rule sum_length_filter_compl)
  have w: "(iv_rep n xs)\<lparr>iv_slots := List.map Some ?w @ drop (length xs) (iv_places n xs)\<rparr> = iv_rep n ?w"
    using len assms(1) by (simp add: iv_rep_def iv_places_def)
  have "iv_erase (length ?kept) (length xs) (iv_rep n ?w) = (Inr (length ?kept), iv_rep n ?kept)"
    using iv_erase_tail [of ?kept "take (length xs - length ?kept) junk" n] len assms(1) by simp
  then show ?thesis using w s by (simp add: iv_erase_if_def Let_def)
qed

lemma iv_resize_rep:
  assumes "length xs \<le> n" "n < 2 ^ 63" "k \<le> n" "xs \<noteq> [] \<or> 0 < k"
  shows "iv_resize k (\<lambda>_. Inr x) (iv_rep n xs) = (Inr (), iv_rep n (take k xs @ replicate (k - length xs) x))"
proof (cases "length xs \<le> k")
  case True
  have "length xs + (k - length xs) < 2 ^ 64" using assms by simp
  note t = iv_try_emplace_back_n_rep [OF assms(1) this, of "\<lambda>_. x"]
  have "xs = [] \<Longrightarrow> k - length xs \<noteq> 0" using assms(4) by auto
  then show ?thesis using t True assms by (simp add: iv_resize_def map_replicate_const)
next
  case False
  then have "iv_erase k (length xs) (iv_rep n xs) = (Inr k, iv_rep n (take k xs))"
    using iv_erase_tail [of "take k xs" "drop k xs" n] assms(1) by simp
  then show ?thesis using False assms by (simp add: iv_resize_def)
qed

section \<open>Properties\<close>



text \<open>Appending has the strong guarantee: when the constructor of an element throws, or the range does not
  fit and its size was not known in advance, the elements constructed so far are destroyed and the vector
  is what it was.\<close>

lemma inplace_vector_append_rolls_back:
  assumes "length xs \<le> n" "iv_append_range sized cs (iv_rep n xs) = (Inl e, w)"
  shows "w = iv_rep n xs"
  using iv_append_range_rep(2) [OF assms] by simp

text \<open>Three operations do not keep this contract. \<open>resize(count, value)\<close> destroys the elements behind
  \<open>count\<close> and keeps \<open>cur_size_\<close>, so that they are read and destroyed again; \<open>assign(count, value)\<close> keeps the
  elements behind \<open>count\<close>; a \<open>resize(0)\<close> of an empty vector takes the address of its last element.\<close>

lemma inplace_vector_shrinking_bugs:
  "(case iv_resize_value 1 7 (iv_rep 3 [1, 2, 3 :: nat]) of (r, w) \<Rightarrow>
      r = Inr () \<and> iv_size w = 3 \<and> iv_at 1 w = Inl DeadObject \<and> fst (iv_clear w) = Inl DeadObject) \<and>
   iv_assign 1 7 (iv_rep 3 [1, 2, 3 :: nat]) = (Inr (), iv_rep 3 [7, 2, 3]) \<and>
   fst (iv_resize 0 (\<lambda>_. Inr 0) (iv_rep 3 ([] :: nat list))) = Inl NullDeref"
proof (intro conjI)
  show "case iv_resize_value 1 7 (iv_rep 3 [1, 2, 3 :: nat]) of (r, w) \<Rightarrow>
      r = Inr () \<and> iv_size w = 3 \<and> iv_at 1 w = Inl DeadObject \<and> fst (iv_clear w) = Inl DeadObject"
    by (simp add: iv_resize_value_def iv_destroy_def iv_places_def iv_rep_def iv_capacity_def iv_at_def
        iv_index_def iv_begin_def iv_empty_def iv_load_def iv_clear_def iv_erase_def iv_move_down_def
        numeral_3_eq_3)
  show "iv_assign 1 7 (iv_rep 3 [1, 2, 3 :: nat]) = (Inr (), iv_rep 3 [7, 2, 3])"
    using iv_assign_rep [of "[1, 2, 3 :: nat]" 3 1 7] by simp
  show "fst (iv_resize 0 (\<lambda>_. Inr 0) (iv_rep 3 ([] :: nat list))) = Inl NullDeref"
    using iv_try_emplace_back_n_rep [of "[] :: nat list" 3 0 "\<lambda>_. 0"] by (simp add: iv_resize_def)
qed

end
