(* ===== verification/When_Any.thy ===== *)
theory When_Any
  imports Async_Result
begin

text \<open>
  \<open>when_any\<close> of \<open>include/coio/utils/when_any.h\<close>: the children run on any threads and complete in any order; the
  first to report decides the result and asks the others to stop, the last to arrive passes the result on.

  The children are the elements of the list \<open>wa_children\<close>; the label of a child names the action that its
  completion performs next: the increment of \<open>done_count\<close>, \<open>request_stop\<close>, the assignment to \<open>result\<close>, the
  increment of \<open>ready_count\<close>, and \<open>finish\<close>. The two counters are 64-bit words.
\<close>

datatype 'v child_pc =
    ChNew
  | ChRunning
  | ChReport "'v receiver_call"
  | ChRequestStop "'v receiver_call"
  | ChStore "'v receiver_call"
  | ChArrive "'v receiver_call"
  | ChFinish "'v receiver_call"
  | ChDone "'v receiver_call"

record 'v when_any_state =
  wa_total :: size_t
  wa_done_count :: size_t
  wa_ready_count :: size_t
  wa_stop_requested :: bool
  wa_result :: "'v async_result"
  wa_children :: "'v child_pc list"
  wa_calls :: "'v receiver_call list"
  wa_first :: "'v receiver_call option"

text \<open>\<open>connect\<close> of \<open>n\<close> senders. \<open>wa_calls\<close> are the calls of the receiver; \<open>wa_first\<close>, a ghost, is the completion
  that was reported first.\<close>

definition when_any_new :: "size_t \<Rightarrow> 'v when_any_state" where
  "when_any_new n = \<lparr>wa_total = n, wa_done_count = 0, wa_ready_count = 0, wa_stop_requested = False,
     wa_result = ResultNone, wa_children = replicate (unat n) ChNew, wa_calls = [], wa_first = None\<rparr>"

definition wa_goto :: "nat \<Rightarrow> 'v child_pc \<Rightarrow> 'v when_any_state \<Rightarrow> 'v when_any_state" where
  "wa_goto i pc s = s\<lparr>wa_children := (wa_children s)[i := pc]\<rparr>"

text \<open>\<open>report\<close>: the increment, and whether the child is the first; then \<open>request_stop\<close>.\<close>

definition wa_report :: "nat \<Rightarrow> 'v receiver_call \<Rightarrow> 'v when_any_state \<Rightarrow> 'v when_any_state" where
  "wa_report i c s =
     (if wa_done_count s = 0
      then wa_goto i (ChRequestStop c) (s\<lparr>wa_done_count := wa_done_count s + 1, wa_first := Some c\<rparr>)
      else wa_goto i (ChArrive c) (s\<lparr>wa_done_count := wa_done_count s + 1\<rparr>))"

definition wa_request_stop :: "nat \<Rightarrow> 'v receiver_call \<Rightarrow> 'v when_any_state \<Rightarrow> 'v when_any_state" where
  "wa_request_stop i c s = wa_goto i (ChStore c) (s\<lparr>wa_stop_requested := True\<rparr>)"

text \<open>The body of \<open>set_value\<close> and \<open>set_error\<close> after \<open>report\<close>; \<open>set_stopped\<close> has none.\<close>

definition wa_store :: "nat \<Rightarrow> 'v receiver_call \<Rightarrow> 'v when_any_state \<Rightarrow> 'v when_any_state" where
  "wa_store i c s = wa_goto i (ChArrive c)
     (s\<lparr>wa_result := (case c of SetValue v \<Rightarrow> ResultValue v | SetError e \<Rightarrow> ResultError e | SetStopped \<Rightarrow> wa_result s)\<rparr>)"

definition wa_arrive :: "nat \<Rightarrow> 'v receiver_call \<Rightarrow> 'v when_any_state \<Rightarrow> 'v when_any_state" where
  "wa_arrive i c s =
     (let s = s\<lparr>wa_ready_count := wa_ready_count s + 1\<rparr>
      in wa_goto i (if wa_ready_count s = wa_total s then ChFinish c else ChDone c) s)"

definition wa_finish :: "nat \<Rightarrow> 'v receiver_call \<Rightarrow> 'v when_any_state \<Rightarrow> 'v when_any_state" where
  "wa_finish i c s = wa_goto i (ChDone c) (s\<lparr>wa_calls := wa_calls s @ [result_forward_to (wa_result s)]\<rparr>)"

text \<open>\<open>start\<close> starts the children from the first to the last.\<close>

inductive wa_step :: "'v when_any_state \<Rightarrow> 'v when_any_state \<Rightarrow> bool" where
  start: "i < length (wa_children s) \<Longrightarrow> wa_children s ! i = ChNew \<Longrightarrow> ChNew \<notin> set (take i (wa_children s)) \<Longrightarrow>
    wa_step s (wa_goto i ChRunning s)"
| complete: "i < length (wa_children s) \<Longrightarrow> wa_children s ! i = ChRunning \<Longrightarrow> wa_step s (wa_goto i (ChReport c) s)"
| report: "i < length (wa_children s) \<Longrightarrow> wa_children s ! i = ChReport c \<Longrightarrow> wa_step s (wa_report i c s)"
| request_stop: "i < length (wa_children s) \<Longrightarrow> wa_children s ! i = ChRequestStop c \<Longrightarrow> wa_step s (wa_request_stop i c s)"
| store: "i < length (wa_children s) \<Longrightarrow> wa_children s ! i = ChStore c \<Longrightarrow> wa_step s (wa_store i c s)"
| arrive: "i < length (wa_children s) \<Longrightarrow> wa_children s ! i = ChArrive c \<Longrightarrow> wa_step s (wa_arrive i c s)"
| finish: "i < length (wa_children s) \<Longrightarrow> wa_children s ! i = ChFinish c \<Longrightarrow> wa_step s (wa_finish i c s)"

inductive wa_reachable :: "size_t \<Rightarrow> 'v when_any_state \<Rightarrow> bool" for n where
  new: "wa_reachable n (when_any_new n)"
| step: "wa_reachable n s \<Longrightarrow> wa_step s t \<Longrightarrow> wa_reachable n t"

section \<open>The invariant\<close>

text \<open>The labels of a child that has reported, is deciding the result, has arrived, and so on.\<close>

fun ch_reported :: "'v child_pc \<Rightarrow> bool" where
  "ch_reported ChNew = False"
| "ch_reported ChRunning = False"
| "ch_reported (ChReport _) = False"
| "ch_reported _ = True"

fun ch_deciding :: "'v child_pc \<Rightarrow> bool" where
  "ch_deciding (ChRequestStop _) = True"
| "ch_deciding (ChStore _) = True"
| "ch_deciding _ = False"

fun ch_stopping :: "'v child_pc \<Rightarrow> bool" where
  "ch_stopping (ChRequestStop _) = True"
| "ch_stopping _ = False"

fun ch_arrived :: "'v child_pc \<Rightarrow> bool" where
  "ch_arrived (ChFinish _) = True"
| "ch_arrived (ChDone _) = True"
| "ch_arrived _ = False"

fun ch_finishing :: "'v child_pc \<Rightarrow> bool" where
  "ch_finishing (ChFinish _) = True"
| "ch_finishing _ = False"

fun ch_call :: "'v child_pc \<Rightarrow> 'v receiver_call option" where
  "ch_call ChNew = None"
| "ch_call ChRunning = None"
| "ch_call (ChReport c) = Some c"
| "ch_call (ChRequestStop c) = Some c"
| "ch_call (ChStore c) = Some c"
| "ch_call (ChArrive c) = Some c"
| "ch_call (ChFinish c) = Some c"
| "ch_call (ChDone c) = Some c"

abbreviation wa_among :: "('v child_pc \<Rightarrow> bool) \<Rightarrow> 'v when_any_state \<Rightarrow> nat" where
  "wa_among P s \<equiv> among P (wa_children s)"

text \<open>The counters count; \<open>result\<close> holds the first completion once no child is deciding; \<open>finish\<close> is called by
  the last child that arrives.\<close>

definition wa_counts :: "size_t \<Rightarrow> 'v when_any_state \<Rightarrow> bool" where
  "wa_counts n s \<longleftrightarrow> wa_total s = n \<and> length (wa_children s) = unat n \<and>
     unat (wa_done_count s) = wa_among ch_reported s \<and> unat (wa_ready_count s) = wa_among ch_arrived s"

text \<open>For the numbers of children that are deciding, about to request the stop, and have reported.\<close>

definition wa_decision :: "nat \<Rightarrow> nat \<Rightarrow> nat \<Rightarrow> 'v receiver_call option \<Rightarrow> bool \<Rightarrow> 'v async_result \<Rightarrow> bool" where
  "wa_decision deciding stopping reported first stop r \<longleftrightarrow>
     deciding \<le> 1 \<and> (first = None \<longleftrightarrow> reported = 0) \<and> (stop \<longleftrightarrow> first \<noteq> None \<and> stopping = 0) \<and>
     (if deciding = 0 then (case first of None \<Rightarrow> r = ResultNone | Some c \<Rightarrow> result_forward_to r = c)
      else r = ResultNone)"

definition wa_decided :: "'v when_any_state \<Rightarrow> bool" where
  "wa_decided s \<longleftrightarrow>
     wa_decision (wa_among ch_deciding s) (wa_among ch_stopping s) (wa_among ch_reported s) (wa_first s)
       (wa_stop_requested s) (wa_result s) \<and>
     (\<forall>ch \<in> set (wa_children s). ch_deciding ch \<longrightarrow> ch_call ch = wa_first s)"

definition wa_finished :: "'v when_any_state \<Rightarrow> bool" where
  "wa_finished s \<longleftrightarrow> 
     length (wa_calls s) + wa_among ch_finishing s =
       (if wa_among ch_arrived s = length (wa_children s) \<and> wa_children s \<noteq> [] then 1 else 0) \<and>
     (\<forall>c \<in> set (wa_calls s). wa_first s = Some c)"

definition wa_inv :: "size_t \<Rightarrow> 'v when_any_state \<Rightarrow> bool" where
  "wa_inv n s \<longleftrightarrow> wa_counts n s \<and> wa_decided s \<and> wa_finished s"

lemma wa_goto_simps [simp]:
  "wa_total (wa_goto i pc s) = wa_total s" "wa_done_count (wa_goto i pc s) = wa_done_count s"
  "wa_ready_count (wa_goto i pc s) = wa_ready_count s" "wa_stop_requested (wa_goto i pc s) = wa_stop_requested s"
  "wa_result (wa_goto i pc s) = wa_result s" "wa_calls (wa_goto i pc s) = wa_calls s"
  "wa_first (wa_goto i pc s) = wa_first s" "wa_children (wa_goto i pc s) = (wa_children s)[i := pc]"
  by (simp_all add: wa_goto_def)

lemma ch_implications:
  "ch_deciding ch \<Longrightarrow> ch_reported ch" "ch_arrived ch \<Longrightarrow> ch_reported ch" "ch_arrived ch \<Longrightarrow> \<not> ch_deciding ch"
  "ch_finishing ch \<Longrightarrow> ch_arrived ch" "ch_stopping ch \<Longrightarrow> ch_deciding ch"
  by (cases ch; simp)+

lemma wa_inv_new: "wa_inv n (when_any_new n)"
  by (auto simp: wa_inv_def wa_counts_def wa_decided_def wa_decision_def wa_finished_def when_any_new_def among_def)

lemma unat_incr: "unat (a :: size_t) < unat (n :: size_t) \<Longrightarrow> unat (a + 1) = unat a + 1"
  using size_t_bound [of n] unat_add_lt [of a 1] by simp

text \<open>What the invariant says of the numbers, and how a move of the child \<open>i\<close> changes them.\<close>

lemma wa_numbers:
  assumes "wa_inv n s"
  shows "wa_among ch_deciding s \<le> wa_among ch_reported s" "wa_among ch_arrived s \<le> wa_among ch_reported s"
    "wa_among ch_finishing s \<le> wa_among ch_arrived s" "wa_among ch_stopping s \<le> wa_among ch_deciding s"
    "wa_among ch_reported s \<le> unat n" "length (wa_children s) = unat n" "wa_total s = n"
  using assms among_le [of ch_reported "wa_children s"]
  by (auto intro!: among_mono elim: ch_implications simp: wa_inv_def wa_counts_def)

lemma wa_step_counts:
  assumes inv: "wa_inv n s" and "wa_step s t"
  shows "wa_counts n t"
  using assms(2)
proof cases
  case (start i)
  then show ?thesis using inv among_update [OF start(2), of ch_reported ChRunning] among_update [OF start(2), of ch_arrived ChRunning]
    by (simp add: wa_inv_def wa_counts_def)
next
  case (complete i c)
  then show ?thesis using inv among_update [OF complete(2), of ch_reported "ChReport c"] among_update [OF complete(2), of ch_arrived "ChReport c"]
    by (simp add: wa_inv_def wa_counts_def)
next
  case (report i c)
  have lt: "wa_among ch_reported s < unat n"
    using among_less [of i "wa_children s" ch_reported] report(2,3) wa_numbers(6) [OF inv] by simp
  then have "unat (wa_done_count s + 1) = unat (wa_done_count s) + 1"
    using inv by (intro unat_incr [of _ n]) (simp add: wa_inv_def wa_counts_def)
  then show ?thesis using inv report among_update [OF report(2), of ch_reported "ChRequestStop c"] among_update [OF report(2), of ch_arrived "ChRequestStop c"]
    among_update [OF report(2), of ch_reported "ChArrive c"] among_update [OF report(2), of ch_arrived "ChArrive c"]
    by (auto simp: wa_inv_def wa_counts_def wa_report_def)
next
  case (request_stop i c)
  then show ?thesis using inv among_update [OF request_stop(2), of ch_reported "ChStore c"] among_update [OF request_stop(2), of ch_arrived "ChStore c"]
    by (simp add: wa_inv_def wa_counts_def wa_request_stop_def)
next
  case (store i c)
  then show ?thesis using inv among_update [OF store(2), of ch_reported "ChArrive c"] among_update [OF store(2), of ch_arrived "ChArrive c"]
    by (simp add: wa_inv_def wa_counts_def wa_store_def)
next
  case (arrive i c)
  have lt: "wa_among ch_arrived s < unat n"
    using among_less [of i "wa_children s" ch_arrived] arrive(2,3) wa_numbers(6) [OF inv] by simp
  then have "unat (wa_ready_count s + 1) = unat (wa_ready_count s) + 1"
    using inv by (intro unat_incr [of _ n]) (simp add: wa_inv_def wa_counts_def)
  then show ?thesis using inv arrive among_update [OF arrive(2), of ch_reported "ChFinish c"] among_update [OF arrive(2), of ch_arrived "ChFinish c"]
    among_update [OF arrive(2), of ch_reported "ChDone c"] among_update [OF arrive(2), of ch_arrived "ChDone c"]
    by (simp add: wa_inv_def wa_counts_def wa_arrive_def Let_def)
next
  case (finish i c)
  then show ?thesis using inv among_update [OF finish(2), of ch_reported "ChDone c"] among_update [OF finish(2), of ch_arrived "ChDone c"]
    by (simp add: wa_inv_def wa_counts_def wa_finish_def)
qed

text \<open>The children's labels decide together with the new numbers.\<close>

lemma wa_decidedI:
  assumes "wa_inv n s" and i: "i < length (wa_children s)" and t: "wa_children t = (wa_children s)[i := pc]"
    and "\<forall>ch \<in> set (wa_children s). ch_deciding ch \<longrightarrow> ch_call ch = wa_first t" "ch_deciding pc \<Longrightarrow> ch_call pc = wa_first t"
    and "\<And>d st r. d + (if ch_deciding (wa_children s ! i) then 1 else 0) = wa_among ch_deciding s + (if ch_deciding pc then 1 else 0) \<Longrightarrow>
      st + (if ch_stopping (wa_children s ! i) then 1 else 0) = wa_among ch_stopping s + (if ch_stopping pc then 1 else 0) \<Longrightarrow>
      r + (if ch_reported (wa_children s ! i) then 1 else 0) = wa_among ch_reported s + (if ch_reported pc then 1 else 0) \<Longrightarrow>
      wa_decision d st r (wa_first t) (wa_stop_requested t) (wa_result t)"
  shows "wa_decided t"
proof -
  have "ch \<in> set (wa_children t) \<Longrightarrow> ch = pc \<or> ch \<in> set (wa_children s)" for ch
    using set_update_subset_insert [of "wa_children s" i pc] t by auto
  then show ?thesis
    unfolding wa_decided_def using assms(4,5) among_update [OF i] t by (auto intro!: assms(6))
qed

lemma wa_decidedD:
  assumes "wa_inv n s"
  shows "wa_decision (wa_among ch_deciding s) (wa_among ch_stopping s) (wa_among ch_reported s) (wa_first s)
      (wa_stop_requested s) (wa_result s)"
    and "\<forall>ch \<in> set (wa_children s). ch_deciding ch \<longrightarrow> ch_call ch = wa_first s"
    and "i < length (wa_children s) \<Longrightarrow> ch_deciding (wa_children s ! i) \<Longrightarrow> ch_call (wa_children s ! i) = wa_first s"
  using assms by (simp_all add: wa_inv_def wa_decided_def)

lemma wa_step_decided:
  assumes inv: "wa_inv n s" and "wa_step s t"
  shows "wa_decided t"
  using assms(2)
proof cases
  case (report i c)
  show ?thesis
  proof (cases "wa_done_count s = 0")
    case True
    then have r: "wa_among ch_reported s = 0" using inv by (simp add: wa_inv_def wa_counts_def)
    then have z: "wa_among ch_deciding s = 0" "wa_among ch_stopping s = 0" using wa_numbers(1,4) [OF inv] by simp_all
    then have "\<forall>ch \<in> set (wa_children s). \<not> ch_deciding ch" by (simp add: among_def filter_empty_conv)
    moreover have "wa_decision 1 1 1 (Some c) (wa_stop_requested s) (wa_result s)"
      using wa_decidedD(1) [OF inv] r z by (simp add: wa_decision_def split: option.splits)
    ultimately show ?thesis using report True r z by (intro wa_decidedI [OF inv report(2)]) (auto simp: wa_report_def)
  next
    case False
    then have "unat (wa_done_count s) \<noteq> 0" by (simp add: unat_eq_zero)
    then have "wa_among ch_reported s \<noteq> 0" using inv by (simp add: wa_inv_def wa_counts_def)
    then have "wa_decision (wa_among ch_deciding s) (wa_among ch_stopping s) (Suc (wa_among ch_reported s)) (wa_first s)
        (wa_stop_requested s) (wa_result s)"
      using wa_decidedD(1) [OF inv] by (simp add: wa_decision_def)
    then show ?thesis
      using report False wa_decidedD(2) [OF inv] by (intro wa_decidedI [OF inv report(2)]) (auto simp: wa_report_def)
  qed
next
  case (request_stop i c)
  have first: "wa_first s = Some c" using wa_decidedD(3) [OF inv request_stop(2)] request_stop(3) by simp
  obtain k where k: "wa_among ch_stopping s = Suc k"
    using among_pos [OF request_stop(2), of ch_stopping] request_stop(3) by (auto simp: gr0_conv_Suc)
  then have "wa_decision (wa_among ch_deciding s) k (wa_among ch_reported s) (Some c) True (wa_result s)"
    using wa_decidedD(1) [OF inv] first wa_numbers(4) [OF inv] by (simp add: wa_decision_def)
  then show ?thesis
    using request_stop wa_decidedD(2) [OF inv] first k
    by (intro wa_decidedI [OF inv request_stop(2)]) (auto simp: wa_request_stop_def)
next
  case (store i c)
  have first: "wa_first s = Some c" using wa_decidedD(3) [OF inv store(2)] store(3) by simp
  obtain k where k: "wa_among ch_deciding s = Suc k"
    using among_pos [OF store(2), of ch_deciding] store(3) by (auto simp: gr0_conv_Suc)
  then have "wa_decision k (wa_among ch_stopping s) (wa_among ch_reported s) (Some c) (wa_stop_requested s)
      (case c of SetValue v \<Rightarrow> ResultValue v | SetError e \<Rightarrow> ResultError e | SetStopped \<Rightarrow> wa_result s)"
    using wa_decidedD(1) [OF inv] first by (auto simp: wa_decision_def split: receiver_call.splits)
  then show ?thesis
    using store wa_decidedD(2) [OF inv] first k by (intro wa_decidedI [OF inv store(2)]) (auto simp: wa_store_def)
next
  case (start i)
  then show ?thesis using wa_decidedD(1,2) [OF inv] by (intro wa_decidedI [OF inv start(2)]) auto
next
  case (complete i c)
  then show ?thesis using wa_decidedD(1,2) [OF inv] by (intro wa_decidedI [OF inv complete(2)]) auto
next
  case (arrive i c)
  then show ?thesis using wa_decidedD(1,2) [OF inv]
    by (cases "wa_ready_count s + 1 = wa_total s"; intro wa_decidedI [OF inv arrive(2)])
      (auto simp: wa_arrive_def Let_def)
next
  case (finish i c)
  then show ?thesis using wa_decidedD(1,2) [OF inv] by (intro wa_decidedI [OF inv finish(2)]) (auto simp: wa_finish_def)
qed

text \<open>\<open>finish\<close> is called by the child whose arrival completes the number.\<close>

lemma wa_finishedI:
  assumes "wa_inv n s" and i: "i < length (wa_children s)" and t: "wa_children t = (wa_children s)[i := pc]"
    and "ch_arrived (wa_children s ! i) = ch_arrived pc" "ch_finishing (wa_children s ! i) = ch_finishing pc"
    and "wa_calls t = wa_calls s" "wa_calls s \<noteq> [] \<Longrightarrow> wa_first t = wa_first s"
  shows "wa_finished t"
proof -
  have f: "wa_finished s" using assms(1) by (simp add: wa_inv_def)
  have "wa_among ch_arrived t = wa_among ch_arrived s" "wa_among ch_finishing t = wa_among ch_finishing s"
    using among_update [OF i, of ch_arrived pc] among_update [OF i, of ch_finishing pc] assms(3-5) by (auto split: if_splits)
  moreover have "\<forall>c \<in> set (wa_calls s). wa_first t = Some c" using f assms(7) by (cases "wa_calls s") (auto simp: wa_finished_def)
  ultimately show ?thesis using f assms(6) t by (simp add: wa_finished_def)
qed

lemma wa_all_arrived:
  assumes inv: "wa_inv n s" and "wa_among ch_arrived s = length (wa_children s)" "wa_children s \<noteq> []"
  shows "wa_among ch_deciding s = 0" "wa_first s \<noteq> None" "wa_stop_requested s"
    "wa_first s = Some (result_forward_to (wa_result s))"
proof -
  have "\<forall>ch \<in> set (wa_children s). ch_arrived ch" using assms(2) among_all by metis
  then show d: "wa_among ch_deciding s = 0" using ch_implications(3) by (auto simp: among_def filter_empty_conv)
  have "0 < length (wa_children s)" using assms(3) by simp
  then have "wa_among ch_reported s \<noteq> 0" using assms(2) wa_numbers(2) [OF inv] by linarith
  then show "wa_first s \<noteq> None" "wa_stop_requested s" "wa_first s = Some (result_forward_to (wa_result s))"
    using d wa_decidedD(1) [OF inv] wa_numbers(4) [OF inv] by (auto simp: wa_decision_def split: option.splits)
qed

lemma wa_step_finished:
  assumes inv: "wa_inv n s" and "wa_step s t"
  shows "wa_finished t"
  using assms(2)
proof cases
  case (start i)
  then show ?thesis by (intro wa_finishedI [OF inv start(2)]) auto
next
  case (complete i c)
  then show ?thesis by (intro wa_finishedI [OF inv complete(2)]) auto
next
  case (report i c)
  have "wa_calls s = []" if "wa_done_count s = 0"
  proof -
    have "wa_among ch_reported s = 0" using inv that by (simp add: wa_inv_def wa_counts_def)
    then show ?thesis
      using inv report(2) wa_numbers(2) [OF inv] by (auto simp: wa_inv_def wa_finished_def split: if_splits)
  qed
  then show ?thesis
    using report by (intro wa_finishedI [OF inv report(2), of _ "if wa_done_count s = 0 then ChRequestStop c else ChArrive c"])
      (auto simp: wa_report_def)
next
  case (request_stop i c)
  then show ?thesis by (intro wa_finishedI [OF inv request_stop(2)]) (auto simp: wa_request_stop_def)
next
  case (store i c)
  then show ?thesis by (intro wa_finishedI [OF inv store(2)]) (auto simp: wa_store_def)
next
  case (arrive i c)
  have less: "wa_among ch_arrived s < length (wa_children s)" using among_less [OF arrive(2), of ch_arrived] arrive(3) by simp
  then have none: "wa_calls s = []" "wa_among ch_finishing s = 0" using inv by (auto simp: wa_inv_def wa_finished_def)
  have eq: "wa_ready_count s + 1 = wa_total s \<longleftrightarrow> wa_among ch_arrived s + 1 = length (wa_children s)"
    using unat_incr [of "wa_ready_count s" n] less inv word_unat_eq_iff [of "wa_ready_count s + 1" "wa_total s"]
    by (simp add: wa_inv_def wa_counts_def)
  show ?thesis
    using arrive none eq among_update [OF arrive(2), of ch_arrived "ChFinish c"] among_update [OF arrive(2), of ch_finishing "ChFinish c"]
      among_update [OF arrive(2), of ch_arrived "ChDone c"] among_update [OF arrive(2), of ch_finishing "ChDone c"]
    by (auto simp: wa_arrive_def Let_def wa_finished_def)
next
  case (finish i c)
  have f: "wa_finished s" using inv by (simp add: wa_inv_def)
  have "0 < wa_among ch_finishing s" using among_pos [OF finish(2), of ch_finishing] finish(3) by simp
  then have all: "wa_among ch_arrived s = length (wa_children s)" "wa_children s \<noteq> []" "wa_calls s = []" "wa_among ch_finishing s = 1"
    using f by (cases "wa_calls s"; auto simp: wa_finished_def split: if_splits)+
  then show ?thesis
    using finish wa_all_arrived(4) [OF inv] among_update [OF finish(2), of ch_arrived "ChDone c"]
      among_update [OF finish(2), of ch_finishing "ChDone c"]
    by (auto simp: wa_finish_def wa_finished_def)
qed

lemma wa_reachable_inv: "wa_reachable n s \<Longrightarrow> wa_inv n s"
proof (induction rule: wa_reachable.induct)
  case new
  then show ?case by (rule wa_inv_new)
next
  case (step s t)
  then show ?case using wa_step_counts wa_step_decided wa_step_finished by (metis wa_inv_def)
qed

section \<open>Property\<close>

text \<open>C22. The first completion wins, once. In every interleaving of the children the receiver of \<open>when_any\<close> is called
  at most once, only when every child has completed and the stop of the others has been requested, and with the
  completion that was reported first; and when all children are through it has been called.\<close>

theorem when_any_first_wins:
  assumes "wa_reachable n s" "n \<noteq> 0"
  shows "length (wa_calls s) \<le> 1 \<and>
    (if wa_calls s = [] then (\<exists>ch \<in> set (wa_children s). \<forall>c. ch \<noteq> ChDone c)
     else wa_first s = Some (hd (wa_calls s)) \<and> wa_stop_requested s \<and>
       (\<forall>i < length (wa_children s). \<exists>c. wa_children s ! i = ChDone c))"
proof -
  have inv: "wa_inv n s" by (rule wa_reachable_inv [OF assms(1)])
  have ne: "wa_children s \<noteq> []" using wa_numbers(6) [OF inv] assms(2) by (auto simp: unat_eq_zero)
  have f: "length (wa_calls s) + wa_among ch_finishing s =
      (if wa_among ch_arrived s = length (wa_children s) then 1 else 0)" "\<forall>c \<in> set (wa_calls s). wa_first s = Some c"
    using inv ne by (simp_all add: wa_inv_def wa_finished_def)
  have through: "\<exists>c. ch = ChDone c" if "ch_arrived ch" "\<not> ch_finishing ch" for ch :: "'a child_pc" using that by (cases ch) simp_all
  show ?thesis
  proof (cases "wa_calls s = []")
    case True
    have "\<exists>ch \<in> set (wa_children s). \<forall>c. ch \<noteq> ChDone c"
    proof (rule ccontr)
      assume "\<not> ?thesis"
      then have d: "\<forall>ch \<in> set (wa_children s). \<exists>c. ch = ChDone c" by blast
      then have "wa_among ch_arrived s = length (wa_children s)" "wa_among ch_finishing s = 0"
        unfolding among_all by (auto simp: among_def filter_empty_conv)
      then show False using f(1) True by simp
    qed
    then show ?thesis using True by simp
  next
    case False
    then have all: "wa_among ch_arrived s = length (wa_children s)" "length (wa_calls s) = 1" "wa_among ch_finishing s = 0"
      using f(1) by (cases "wa_calls s"; simp split: if_splits)+
    then have "\<forall>ch \<in> set (wa_children s). ch_arrived ch \<and> \<not> ch_finishing ch"
      unfolding among_all by (auto simp: among_def filter_empty_conv)
    then have "\<forall>i < length (wa_children s). \<exists>c. wa_children s ! i = ChDone c" using through by auto
    moreover have "wa_first s = Some (hd (wa_calls s))" using f(2) False by (simp add: hd_in_set)
    ultimately show ?thesis using False all(2) wa_all_arrived(3) [OF inv all(1) ne] by simp
  qed
qed

definition wa_demo :: "nat when_any_state" where
  "wa_demo = wa_finish 0 (SetError (SystemError 5)) (wa_arrive 0 (SetError (SystemError 5)) (wa_store 0 (SetError (SystemError 5))
     (wa_arrive 1 (SetValue 7) (wa_report 1 (SetValue 7) (wa_goto 1 (ChReport (SetValue 7))
     (wa_request_stop 0 (SetError (SystemError 5)) (wa_report 0 (SetError (SystemError 5))
     (wa_goto 0 (ChReport (SetError (SystemError 5))) (wa_goto 1 ChRunning (wa_goto 0 ChRunning (when_any_new 2)))))))))))"

lemma when_any_new_2: "when_any_new 2 = \<lparr>wa_total = 2, wa_done_count = 0, wa_ready_count = 0, wa_stop_requested = False,
   wa_result = ResultNone, wa_children = [ChNew, ChNew], wa_calls = [], wa_first = None\<rparr>"
proof -
  have "unat (2 :: size_t) = Suc (Suc 0)" by simp
  then show ?thesis by (simp only: when_any_new_def) simp
qed

lemma wa_demo_reachable: "wa_reachable 2 wa_demo"
  unfolding wa_demo_def
  by (intro wa_reachable.step [OF _ wa_step.finish] wa_reachable.step [OF _ wa_step.arrive] wa_reachable.step [OF _ wa_step.store]
      wa_reachable.step [OF _ wa_step.report] wa_reachable.step [OF _ wa_step.request_stop]
      wa_reachable.step [OF _ wa_step.complete] wa_reachable.step [OF _ wa_step.start] wa_reachable.new)
    (simp_all add: wa_finish_def wa_arrive_def wa_store_def wa_report_def wa_request_stop_def when_any_new_2 Let_def)

theorem when_any_first_wins_witness:
  "wa_calls wa_demo = [SetError (SystemError 5)] \<and> wa_first wa_demo = Some (SetError (SystemError 5)) \<and> wa_stop_requested wa_demo"
proof -
  have "wa_calls wa_demo = [SetError (SystemError 5)]"
    by (simp add: wa_demo_def wa_finish_def wa_arrive_def wa_store_def wa_report_def wa_request_stop_def when_any_new_2 Let_def)
  then show ?thesis using when_any_first_wins [OF wa_demo_reachable] by simp
qed

end
