(* ===== verification/Signal_Wait.thy ===== *)
theory Signal_Wait
  imports Waiter_List Op_Phase Async_Result Linux_Common
begin

text \<open>
  Waiting for a signal: \<open>include/coio/utils/signal_wait.h\<close> and \<open>src/linux/utils/signal_wait.cpp\<close>. For each signal there
  is a \<open>waiting_list\<close>, whose \<open>head\<close> is the list itself as long as the signal has not been delivered, then null for
  good, or the first waiter. The signal handler writes the number to a pipe; the thread \<open>watchdog\<close> reads it and
  completes all the waiters, one by one, giving the lock back in between.

  One signal is modelled, with any number of waiters that are started and cancelled on any threads. Each waiter
  follows the protocol of \<open>Op_Phase\<close>, whose transitions are also those of \<open>signal_wait_sender::op_state\<close> (\<open>deliver\<close> in the
  place of the post). \<open>sigaction\<close> is a parameter of the steps: its \<open>errno\<close>, or nothing.
\<close>

section \<open>The waiting list\<close>

datatype sl_head = SlThis | SlPtr ptr

record signal_list =
  sl_head :: sl_head
  sl_prev :: links
  sl_next :: links
  sl_handler :: bool

definition max_signal_number :: int where "max_signal_number = 65"

definition is_available_signal :: "int \<Rightarrow> bool" where
  "is_available_signal signal_number \<longleftrightarrow> signal_number \<ge> 0 \<and> signal_number < max_signal_number"

definition sl_new :: signal_list where
  "sl_new = \<lparr>sl_head = SlThis, sl_prev = (\<lambda>_. None), sl_next = (\<lambda>_. None), sl_handler = False\<rparr>"

text \<open>The pointer that \<open>static_cast<node_t*>(head)\<close> yields after the comparison with \<open>this\<close>.\<close>

definition sl_first :: "sl_head \<Rightarrow> ptr" where
  "sl_first h = (case h of SlThis \<Rightarrow> None | SlPtr p \<Rightarrow> p)"

definition sl_add :: "int \<Rightarrow> int option \<Rightarrow> addr \<Rightarrow> signal_list \<Rightarrow> int \<times> signal_list" where
  "sl_add signum fail a l =
     (let old = sl_head l;
          push = (\<lambda>l. let l = l\<lparr>sl_prev := (sl_prev l)(a := None), sl_next := (sl_next l)(a := sl_first old)\<rparr>;
                        l = (case sl_next l a of Some n \<Rightarrow> l\<lparr>sl_prev := (sl_prev l)(n := Some a)\<rparr> | None \<Rightarrow> l)
                    in (0, l\<lparr>sl_head := SlPtr (Some a)\<rparr>))
      in if old = SlPtr None then (signum, l)
         else if old = SlThis then
           (case fail of Some e \<Rightarrow> (- e, l) | None \<Rightarrow> push (l\<lparr>sl_handler := True\<rparr>))
         else push l)"

definition sl_remove :: "addr \<Rightarrow> signal_list \<Rightarrow> bool \<times> signal_list" where
  "sl_remove a l =
     (let found = (sl_prev l a \<noteq> None \<or> sl_head l = SlPtr (Some a));
          l1 = (case sl_prev l a of
                  Some p \<Rightarrow> l\<lparr>sl_next := (sl_next l)(p := sl_next l a)\<rparr>
                | None \<Rightarrow> l\<lparr>sl_head := (case sl_next l a of None \<Rightarrow> SlThis | Some n \<Rightarrow> SlPtr (Some n))\<rparr>);
          l2 = (case sl_next l1 a of
                  Some n \<Rightarrow> l1\<lparr>sl_prev := (sl_prev l1)(n := sl_prev l1 a)\<rparr>
                | None \<Rightarrow> l1);
          l3 = l2\<lparr>sl_prev := (sl_prev l2)(a := None), sl_next := (sl_next l2)(a := None)\<rparr>
      in if \<not> found then (False, l)
         else (True, if sl_head l3 = SlThis then l3\<lparr>sl_handler := False\<rparr> else l3))"

text \<open>The two critical sections of \<open>pop_all\<close>: taking over the list, and detaching the waiter \<open>w\<close> from its
  successor, which becomes the next \<open>waiter\<close>.\<close>

definition sl_take :: "int \<Rightarrow> signal_list \<Rightarrow> ptr \<times> signal_list" where
  "sl_take signal_number l =
     (sl_first (sl_head l), l\<lparr>sl_head := (if signal_number < 0 then SlThis else SlPtr None)\<rparr>)"

definition sl_detach :: "addr \<Rightarrow> signal_list \<Rightarrow> ptr \<times> signal_list" where
  "sl_detach w l =
     (let nx = sl_next l w;
          l = (case nx of Some n \<Rightarrow> l\<lparr>sl_prev := (sl_prev l)(n := None)\<rparr> | None \<Rightarrow> l)
      in (nx, l\<lparr>sl_next := (sl_next l)(w := None)\<rparr>))"

text \<open>\<open>pop_all\<close> when nobody interferes: the waiters in the order in which \<open>finish_\<close> is called.\<close>

partial_function (option) sl_pop_loop :: "ptr \<Rightarrow> addr list \<Rightarrow> signal_list \<Rightarrow> (addr list \<times> signal_list) option" where
  "sl_pop_loop p finished l =
     (case p of
        None \<Rightarrow> Some (finished, l)
      | Some w \<Rightarrow> (case sl_detach w l of (nx, l) \<Rightarrow> sl_pop_loop nx (finished @ [w]) l))"

definition sl_pop_all :: "int \<Rightarrow> signal_list \<Rightarrow> (addr list \<times> signal_list) option" where
  "sl_pop_all signal_number l = (case sl_take signal_number l of (p, l) \<Rightarrow> sl_pop_loop p [] l)"

section \<open>The waiters and the watchdog\<close>

text \<open>\<open>deliver\<close>: the call of the receiver. The waiter and its phases are the same on every platform; the result that
  \<open>unregister_waiter\<close> finishes with, and that \<open>system_category\<close> compares equal to \<open>operation_canceled\<close>, is not.\<close>

datatype signal_platform = Posix | Win32

definition abort_code :: "signal_platform \<Rightarrow> int" where
  "abort_code os = (case os of Posix \<Rightarrow> ECANCELED | Win32 \<Rightarrow> 995 \<comment> \<open>\<open>ERROR_OPERATION_ABORTED\<close>\<close>)"

lemma abort_code_pos [simp]: "0 < abort_code os"
  by (cases os) (simp_all add: abort_code_def ECANCELED_def)

definition signal_deliver :: "signal_platform \<Rightarrow> int \<Rightarrow> int receiver_call" where
  "signal_deliver os r =
     (if r < 0 then if - r = abort_code os then SetStopped else SetError (SystemError (- r)) else SetValue r)"

datatype watchdog_pc =
    WdPoll                  \<comment> \<open>in \<open>poll\<close> and \<open>read\<close>\<close>
  | WdTake                  \<comment> \<open>\<open>dispatch_signal\<close>: the handler has been reset\<close>
  | WdFinish addr ptr       \<comment> \<open>\<open>finish_\<close> of a waiter; the next one\<close>
  | WdDeliver addr ptr      \<comment> \<open>\<open>deliver\<close>, because the waiter was armed\<close>
  | WdLock addr             \<comment> \<open>\<open>guard.lock()\<close>\<close>

record signal_sys =
  sg_list :: signal_list
  sg_ops :: "addr \<Rightarrow> op_state"
  sg_result :: "addr \<Rightarrow> int"
  sg_watchdog :: watchdog_pc
  sg_pipe :: nat
  sg_calls :: "(addr \<times> int receiver_call) list"

definition sg_new :: signal_sys where
  "sg_new = \<lparr>sg_list = sl_new, sg_ops = (\<lambda>_. op_new), sg_result = (\<lambda>_. 0), sg_watchdog = WdPoll, sg_pipe = 0, sg_calls = []\<rparr>"

definition sg_set_op :: "addr \<Rightarrow> op_state \<Rightarrow> signal_sys \<Rightarrow> signal_sys" where
  "sg_set_op a o' s = s\<lparr>sg_ops := (sg_ops s)(a := o')\<rparr>"

text \<open>\<open>finish\<close>: the result is stored and the phase exchanged; whether the waiter must be delivered.\<close>

definition sg_finish :: "addr \<Rightarrow> int \<Rightarrow> signal_sys \<Rightarrow> bool \<times> signal_sys" where
  "sg_finish a r s =
     (case op_publish (sg_ops s a) of
        (armed, o') \<Rightarrow> (armed, sg_set_op a o' (s\<lparr>sg_result := (sg_result s)(a := r)\<rparr>)))"

text \<open>\<open>do_start\<close>, behind the test of the signal number; a result other than zero is what \<open>finish_\<close> is called with.\<close>

definition sg_do_start :: "int \<Rightarrow> int option \<Rightarrow> addr \<Rightarrow> signal_sys \<Rightarrow> signal_sys" where
  "sg_do_start signum fail a s =
     (case (if is_available_signal signum then sl_add signum fail a (sg_list s) else (- EINVAL, sg_list s)) of
        (r, l) \<Rightarrow>
          sg_set_op a (op_do_start (if r = 0 then ResPending else ResCompleted) (sg_ops s a))
            (s\<lparr>sg_list := l, sg_result := (sg_result s)(a := r)\<rparr>))"

text \<open>\<open>unregister_waiter\<close>, from \<open>start\<close> and from \<open>request_cancel\<close>.\<close>

definition sg_start_do_cancel :: "addr \<Rightarrow> signal_sys \<Rightarrow> signal_sys" where
  "sg_start_do_cancel a s =
     (case sl_remove a (sg_list s) of
        (found, l) \<Rightarrow>
          sg_set_op a (if found then (sg_ops s a)\<lparr>os_registered := False, os_start := SCancelPublish\<rparr>
                       else (sg_ops s a)\<lparr>os_start := SRearm\<rparr>) (s\<lparr>sg_list := l\<rparr>))"

definition sg_do_cancel :: "addr \<Rightarrow> signal_sys \<Rightarrow> signal_sys" where
  "sg_do_cancel a s =
     (case sl_remove a (sg_list s) of
        (found, l) \<Rightarrow>
          sg_set_op a (if found then (sg_ops s a)\<lparr>os_registered := False, os_cancel := CPublish\<rparr>
                       else (sg_ops s a)\<lparr>os_cancel := CDone\<rparr>) (s\<lparr>sg_list := l\<rparr>))"

text \<open>A waiter that the watchdog is going to finish is not registered any more.\<close>

definition sg_claim :: "ptr \<Rightarrow> signal_sys \<Rightarrow> signal_sys" where
  "sg_claim p s =
     (case p of
        None \<Rightarrow> s
      | Some a \<Rightarrow> sg_set_op a ((sg_ops s a)\<lparr>os_registered := False, os_backend := BPublish\<rparr>) s)"

definition sg_advance :: "addr \<Rightarrow> signal_sys \<Rightarrow> signal_sys" where
  "sg_advance w s =
     (case sl_detach w (sg_list s) of
        (nx, l) \<Rightarrow> sg_claim nx (s\<lparr>sg_list := l, sg_watchdog := WdFinish w nx\<rparr>))"

definition sg_pop_all :: "int \<Rightarrow> signal_sys \<Rightarrow> signal_sys" where
  "sg_pop_all signum s =
     (case sl_take signum (sg_list s) of
        (p, l) \<Rightarrow>
          (case p of
             None \<Rightarrow> s\<lparr>sg_list := l, sg_watchdog := WdPoll\<rparr>
           | Some w \<Rightarrow> sg_advance w (sg_claim p (s\<lparr>sg_list := l\<rparr>))))"

definition sg_next :: "ptr \<Rightarrow> watchdog_pc" where
  "sg_next p = (case p of None \<Rightarrow> WdPoll | Some a \<Rightarrow> WdLock a)"

text \<open>The parts of the protocol that touch neither the list nor the result.\<close>

inductive sg_local :: "op_state \<Rightarrow> op_state \<Rightarrow> bool" where
  start: "os_start s = SNew \<Longrightarrow> sg_local s (s\<lparr>os_start := SDoStart\<rparr>)"
| start_deliver: "os_start s = SPost \<Longrightarrow> sg_local s ((op_post s)\<lparr>os_start := SDone\<rparr>)"
| arm: "os_start s = SArm \<Longrightarrow> sg_local s (op_arm s)"
| rearm: "os_start s = SRearm \<Longrightarrow> sg_local s (op_rearm s)"
| cancel_begin: "os_cancel s = CIdle \<Longrightarrow> os_start s \<noteq> SNew \<Longrightarrow> \<not> os_finished s \<Longrightarrow> sg_local s (s\<lparr>os_cancel := CLoad\<rparr>)"
| cancel_load: "os_cancel s = CLoad \<Longrightarrow> sg_local s (s\<lparr>os_cancel := CCas (os_phase s)\<rparr>)"
| cancel_cas: "os_cancel s = CCas ph \<Longrightarrow> sg_local s (op_cancel_cas spurious ph s)"
| cancel_deliver: "os_cancel s = CPost \<Longrightarrow> sg_local s ((op_post s)\<lparr>os_cancel := CDone\<rparr>)"

inductive sg_step :: "signal_platform \<Rightarrow> int \<Rightarrow> signal_sys \<Rightarrow> signal_sys \<Rightarrow> bool" for os signum where
  local: "sg_local (sg_ops s a) o' \<Longrightarrow> sg_step os signum s (sg_set_op a o' s)"
| do_start: "os_start (sg_ops s a) = SDoStart \<Longrightarrow> (\<And>e. fail = Some e \<Longrightarrow> 0 < e) \<Longrightarrow>
    sg_step os signum s (sg_do_start signum fail a s)"
| start_finish: "os_start (sg_ops s a) = SPublish \<Longrightarrow> sg_finish a (sg_result s a) s = (armed, t) \<Longrightarrow>
    sg_step os signum s (sg_set_op a ((if armed then op_post (sg_ops t a) else sg_ops t a)\<lparr>os_start := SPost\<rparr>) t)"
| start_do_cancel: "os_start (sg_ops s a) = SDoCancel \<Longrightarrow> sg_step os signum s (sg_start_do_cancel a s)"
| start_cancel_finish: "os_start (sg_ops s a) = SCancelPublish \<Longrightarrow> sg_finish a (- abort_code os) s = (armed, t) \<Longrightarrow>
    sg_step os signum s (sg_set_op a ((if armed then op_post (sg_ops t a) else sg_ops t a)\<lparr>os_start := SRearm\<rparr>) t)"
| do_cancel: "os_cancel (sg_ops s a) = CDoCancel \<Longrightarrow> sg_step os signum s (sg_do_cancel a s)"
| cancel_finish: "os_cancel (sg_ops s a) = CPublish \<Longrightarrow> sg_finish a (- abort_code os) s = (armed, t) \<Longrightarrow>
    sg_step os signum s (sg_set_op a ((sg_ops t a)\<lparr>os_cancel := (if armed then CPost else CDone)\<rparr>) t)"
| deliver: "os_posts (sg_ops s a) > 0 \<Longrightarrow> \<not> os_finished (sg_ops s a) \<Longrightarrow> os_cancel (sg_ops s a) \<in> {CIdle, CDone} \<Longrightarrow>
    sg_step os signum s (sg_set_op a ((sg_ops s a)\<lparr>os_finished := True\<rparr>)
      (s\<lparr>sg_calls := sg_calls s @ [(a, signal_deliver os (sg_result s a))]\<rparr>))"
| signal_handler: "sl_handler (sg_list s) \<Longrightarrow> sg_step os signum s (s\<lparr>sg_pipe := sg_pipe s + 1\<rparr>)"
| dispatch: "sg_watchdog s = WdPoll \<Longrightarrow> sg_pipe s > 0 \<Longrightarrow>
    sg_step os signum s (s\<lparr>sg_pipe := sg_pipe s - 1, sg_list := (sg_list s)\<lparr>sl_handler := False\<rparr>, sg_watchdog := WdTake\<rparr>)"
| take: "sg_watchdog s = WdTake \<Longrightarrow> sg_step os signum s (sg_pop_all signum s)"
| finish: "sg_watchdog s = WdFinish w nx \<Longrightarrow> sg_finish w signum s = (armed, t) \<Longrightarrow>
    sg_step os signum s (sg_set_op w ((sg_ops t w)\<lparr>os_backend := (if armed then BPost else BDone)\<rparr>)
      (t\<lparr>sg_watchdog := (if armed then WdDeliver w nx else sg_next nx)\<rparr>))"
| finish_deliver: "sg_watchdog s = WdDeliver w nx \<Longrightarrow>
    sg_step os signum s (sg_set_op w ((op_post (sg_ops s w))\<lparr>os_backend := BDone\<rparr>) (s\<lparr>sg_watchdog := sg_next nx\<rparr>))"
| relock: "sg_watchdog s = WdLock w \<Longrightarrow> sg_step os signum s (sg_advance w s)"

inductive sg_reachable :: "signal_platform \<Rightarrow> int \<Rightarrow> signal_sys \<Rightarrow> bool" for os signum where
  new: "sg_reachable os signum sg_new"
| step: "sg_reachable os signum s \<Longrightarrow> sg_step os signum s t \<Longrightarrow> sg_reachable os signum t"

section \<open>The list is well formed\<close>

definition dl_rep :: "links \<Rightarrow> links \<Rightarrow> ptr \<Rightarrow> addr list \<Rightarrow> bool" where
  "dl_rep nx pv h xs \<longleftrightarrow>
     wt_rep \<lparr>wt_prev = pv, wt_next = nx, wt_head = h, wt_tail = (if xs = [] then None else Some (last xs))\<rparr> xs"

lemma dl_rep_empty: "dl_rep (\<lambda>_. None) (\<lambda>_. None) None []"
  by (simp add: dl_rep_def wt_rep_def)

lemma dl_rep_facts:
  assumes "dl_rep nx pv h xs"
  shows "distinct xs" "h = (if xs = [] then None else Some (hd xs))" "a \<notin> set xs \<Longrightarrow> pv a = None" "chain nx h xs"
  using assms wt_rep_distinct [OF assms [unfolded dl_rep_def]] wt_rep_head [OF assms [unfolded dl_rep_def]]
  by (auto simp: dl_rep_def wt_rep_def)

lemma dl_rep_split:
  assumes "dl_rep nx pv h (us @ a # vs)"
  shows "pv a = (if us = [] then None else Some (last us))" "nx a = (if vs = [] then None else Some (hd vs))"
  using wt_rep_split [OF assms [unfolded dl_rep_def]] by simp_all

text \<open>Taking the waiter \<open>a\<close> out; for the first one \<open>pv a\<close> is null already.\<close>

lemma dl_rep_unlink:
  assumes rep: "dl_rep nx pv h (us @ a # vs)"
  shows "dl_rep ((if us = [] then nx else nx(last us := nx a))(a := None))
    ((if vs = [] then pv else pv(hd vs := pv a))(a := None)) (if us = [] then nx a else h) (us @ vs)"
proof -
  let ?w = "\<lparr>wt_prev = pv, wt_next = nx, wt_head = h, wt_tail = Some (last (a # vs))\<rparr>"
  have w: "wt_rep ?w (us @ a # vs)" using rep by (simp add: dl_rep_def)
  obtain w' where w': "wt_unregister a ?w = (True, w')" "wt_rep w' (us @ vs)" using wt_rep_unregister [OF w] by blast
  note s = dl_rep_split [OF rep]
  have d: "distinct (us @ a # vs)" by (rule dl_rep_facts(1) [OF rep])
  have h: "h = Some (hd (us @ [a]))" using dl_rep_facts(2) [OF rep] by (cases us) auto
  have tail: "wt_tail w' = (if us @ vs = [] then None else Some (last (us @ vs)))" by (rule wt_rep_tail [OF w'(2)])
  have "wt_next w' = (if us = [] then nx else nx(last us := nx a))(a := None)"
    "wt_prev w' = (if vs = [] then pv else pv(hd vs := pv a))(a := None)" "wt_head w' = (if us = [] then nx a else h)"
    using w'(1) s h d by (cases us rule: rev_cases; cases vs; auto simp: wt_unregister_def Let_def)+
  then show ?thesis using w'(2) tail by (cases w') (simp add: dl_rep_def)
qed

lemma dl_rep_push:
  assumes rep: "dl_rep nx pv h xs" and a: "a \<notin> set xs"
  shows "dl_rep (nx(a := h)) (case h of None \<Rightarrow> pv(a := None) | Some n \<Rightarrow> (pv(a := None))(n := Some a)) (Some a) (a # xs)"
proof (cases xs)
  case Nil
  then show ?thesis using rep by (auto simp: dl_rep_def wt_rep_def)
next
  case (Cons n ys)
  have h: "h = Some n" using dl_rep_facts(2) [OF rep] Cons by simp
  have d: "distinct xs" by (rule dl_rep_facts(1) [OF rep])
  have nx: "chain (nx(a := h)) (Some a) (a # xs)" using dl_rep_facts(4) [OF rep] a by simp
  have pv: "chain pv (Some (last xs)) (rev ys @ [n])" using rep Cons by (simp add: dl_rep_def wt_rep_def)
  have "seg pv (Some (last xs)) (rev ys) (Some n)" using pv by (simp add: seg_append)
  then have "seg (pv(a := None, n := Some a)) (Some (last xs)) (rev ys) (Some n)" using d a Cons by simp
  then have "chain (pv(a := None, n := Some a)) (Some (last xs)) (rev (a # xs))"
    using a Cons by (simp add: seg_append)
  moreover have "b \<notin> set (a # xs) \<Longrightarrow> (pv(a := None, n := Some a)) b = None" for b
    using dl_rep_facts(3) [OF rep, of b] Cons by auto
  ultimately show ?thesis using nx h Cons by (simp add: dl_rep_def wt_rep_def)
qed

abbreviation sl_rep :: "signal_list \<Rightarrow> ptr \<Rightarrow> addr list \<Rightarrow> bool" where
  "sl_rep l \<equiv> dl_rep (sl_next l) (sl_prev l)"

lemma sl_add_rep:
  assumes "sl_rep l (sl_first (sl_head l)) xs" "a \<notin> set xs" "sl_head l \<noteq> SlPtr None" "sl_head l = SlThis \<Longrightarrow> fail = None"
  shows "\<exists>l'. sl_add signum fail a l = (0, l') \<and> sl_head l' = SlPtr (Some a) \<and> sl_rep l' (Some a) (a # xs) \<and>
    sl_handler l' = (sl_head l = SlThis \<or> sl_handler l)"
  using assms(3,4) dl_rep_push [OF assms(1,2)]
  by (cases "sl_head l"; cases "sl_first (sl_head l)") (auto simp: sl_add_def Let_def sl_first_def)

lemma sl_remove_absent:
  assumes "sl_rep l h xs" "sl_head l \<noteq> SlPtr (Some a)" "a \<notin> set xs \<or> h = Some a"
  shows "sl_remove a l = (False, l)"
proof -
  have "sl_prev l a = None"
  proof (cases "a \<in> set xs")
    case True
    then have "h = Some a" using assms(3) by simp
    then have "xs = [] @ a # tl xs" using dl_rep_facts(2) [OF assms(1)] True by (cases xs) auto
    then have "sl_rep l h ([] @ a # tl xs)" using assms(1) by simp
    then show ?thesis using dl_rep_split(1) by fastforce
  next
    case False
    then show ?thesis using dl_rep_facts(3) [OF assms(1)] by blast
  qed
  then show ?thesis using assms(2) by (simp add: sl_remove_def)
qed

lemma sl_remove_rep:
  assumes rep: "sl_rep l h (us @ a # vs)" and found: "us \<noteq> [] \<or> sl_head l = SlPtr (Some a)"
    and head: "us \<noteq> [] \<Longrightarrow> sl_head l \<noteq> SlPtr (Some a)"
  shows "\<exists>l'. sl_remove a l = (True, l') \<and> sl_rep l' (if us = [] then sl_next l a else h) (us @ vs) \<and>
    sl_head l' = (if us \<noteq> [] then sl_head l else if vs = [] then SlThis else SlPtr (Some (hd vs))) \<and>
    sl_handler l' = (sl_handler l \<and> sl_head l' \<noteq> SlThis)"
proof -
  note s = dl_rep_split [OF rep]
  have d: "distinct (us @ a # vs)" by (rule dl_rep_facts(1) [OF rep])
  show ?thesis
    using dl_rep_unlink [OF rep] s d found
    by (cases us rule: rev_cases; cases vs) (auto simp: sl_remove_def Let_def)
qed

lemma sl_detach_rep:
  assumes rep: "sl_rep l (Some w) (w # ys)"
  shows "\<exists>l'. sl_detach w l = (if ys = [] then None else Some (hd ys), l') \<and>
    sl_rep l' (if ys = [] then None else Some (hd ys)) ys \<and> sl_head l' = sl_head l \<and> sl_handler l' = sl_handler l"
proof -
  have rep': "sl_rep l (Some w) ([] @ w # ys)" using rep by simp
  note s = dl_rep_split [OF rep']
  have d: "distinct (w # ys)" by (rule dl_rep_facts(1) [OF rep])
  have "(sl_prev l)(w := None) = sl_prev l" "((sl_prev l)(hd ys := None))(w := None) = (sl_prev l)(hd ys := None)"
    using s by auto
  then show ?thesis
    using dl_rep_unlink [OF rep'] s by (cases ys) (auto simp: sl_detach_def Let_def)
qed

text \<open>Without interference \<open>pop_all\<close> finishes all waiters, the latest first.\<close>

lemma sl_pop_loop_rep:
  "sl_rep l p xs \<Longrightarrow> \<exists>l'. sl_pop_loop p finished l = Some (finished @ xs, l') \<and> sl_head l' = sl_head l"
proof (induction xs arbitrary: l p finished)
  case Nil
  then have "p = None" using dl_rep_facts(2) by fastforce
  then show ?case by (simp add: sl_pop_loop.simps)
next
  case (Cons w ys)
  then have p: "p = Some w" using dl_rep_facts(2) by fastforce
  obtain l1 where l1: "sl_detach w l = (if ys = [] then None else Some (hd ys), l1)"
    "sl_rep l1 (if ys = [] then None else Some (hd ys)) ys" "sl_head l1 = sl_head l"
    using sl_detach_rep Cons.prems p by blast
  from Cons.IH [OF l1(2), of "finished @ [w]"] show ?case using l1(1,3) p by (subst sl_pop_loop.simps) auto
qed

lemma sl_pop_all_rep:
  assumes "sl_rep l (sl_first (sl_head l)) xs" "0 \<le> signum"
  shows "\<exists>l'. sl_pop_all signum l = Some (xs, l') \<and> sl_head l' = SlPtr None"
  using sl_pop_loop_rep [of "l\<lparr>sl_head := SlPtr None\<rparr>" "sl_first (sl_head l)" xs "[]"] assms
  by (auto simp: sl_pop_all_def sl_take_def)

section \<open>The invariant\<close>

text \<open>Where the linked waiters begin: at the head, or, once the watchdog has taken the list over, at its next waiter.\<close>

definition wd_next :: "watchdog_pc \<Rightarrow> ptr" where
  "wd_next wd = (case wd of WdFinish _ p \<Rightarrow> p | WdDeliver _ p \<Rightarrow> p | WdLock a \<Rightarrow> Some a | _ \<Rightarrow> None)"

definition wd_current :: "watchdog_pc \<Rightarrow> ptr" where
  "wd_current wd = (case wd of WdFinish w _ \<Rightarrow> Some w | _ \<Rightarrow> None)"

definition wd_delivering :: "watchdog_pc \<Rightarrow> ptr" where
  "wd_delivering wd = (case wd of WdDeliver w _ \<Rightarrow> Some w | _ \<Rightarrow> None)"

definition sg_chain :: "sl_head \<Rightarrow> watchdog_pc \<Rightarrow> ptr" where
  "sg_chain h wd = (if h = SlPtr None then wd_next wd else sl_first h)"

definition sg_claimed :: "watchdog_pc \<Rightarrow> addr \<Rightarrow> bool" where
  "sg_claimed wd a \<longleftrightarrow> wd_current wd = Some a \<or> wd_next wd = Some a"

definition sg_op_ok :: "bool \<Rightarrow> bool \<Rightarrow> bool \<Rightarrow> op_state \<Rightarrow> bool" where
  "sg_op_ok claimed delivering linked o' \<longleftrightarrow> op_reachable o' \<and>
     (os_registered o' \<longleftrightarrow> linked \<and> \<not> claimed) \<and> (os_backend o' = BPublish \<longleftrightarrow> claimed) \<and>
     (os_backend o' = BPost \<longleftrightarrow> delivering) \<and> (os_registered o' \<longrightarrow> os_backend o' = BIdle) \<and>
     (os_start o' \<in> {SNew, SDoStart} \<longrightarrow> os_backend o' = BIdle \<and> \<not> linked)"

definition sg_result_ok :: "int \<Rightarrow> bool \<Rightarrow> op_state \<Rightarrow> int \<Rightarrow> bool" where
  "sg_result_ok signum fired o' r \<longleftrightarrow>
     (os_phase o' = Completed \<or> os_start o' = SPublish \<longrightarrow> (r = signum \<and> fired) \<or> r < 0)"

definition sg_list_ok :: "signal_list \<Rightarrow> watchdog_pc \<Rightarrow> bool" where
  "sg_list_ok l wd \<longleftrightarrow> (wd \<notin> {WdPoll, WdTake} \<longrightarrow> sl_head l = SlPtr None) \<and>
     (sl_first (sl_head l) \<noteq> None \<longrightarrow> sl_handler l \<or> wd = WdTake)"

definition sg_inv :: "int \<Rightarrow> signal_sys \<Rightarrow> addr list \<Rightarrow> bool" where
  "sg_inv signum s xs \<longleftrightarrow>
     sl_rep (sg_list s) (sg_chain (sl_head (sg_list s)) (sg_watchdog s)) xs \<and> sg_list_ok (sg_list s) (sg_watchdog s) \<and>
     (\<forall>w. wd_current (sg_watchdog s) = Some w \<longrightarrow> w \<notin> set xs) \<and>
     (\<forall>a. sg_op_ok (sg_claimed (sg_watchdog s) a) (wd_delivering (sg_watchdog s) = Some a) (a \<in> set xs) (sg_ops s a)) \<and>
     (\<forall>a. sg_result_ok signum (sl_head (sg_list s) = SlPtr None) (sg_ops s a) (sg_result s a))"

lemmas wd_defs = wd_next_def wd_current_def wd_delivering_def

lemma sg_invD:
  assumes "sg_inv signum s xs"
  shows "sl_rep (sg_list s) (sg_chain (sl_head (sg_list s)) (sg_watchdog s)) xs" "sg_list_ok (sg_list s) (sg_watchdog s)"
    "wd_current (sg_watchdog s) = Some w \<Longrightarrow> w \<notin> set xs"
    "sg_op_ok (sg_claimed (sg_watchdog s) a) (wd_delivering (sg_watchdog s) = Some a) (a \<in> set xs) (sg_ops s a)"
    "sg_result_ok signum (sl_head (sg_list s) = SlPtr None) (sg_ops s a) (sg_result s a)"
  using assms by (simp_all add: sg_inv_def)

lemma sg_inv_new: "sg_inv signum sg_new []"
  by (auto simp: sg_inv_def sg_new_def sl_new_def sg_chain_def sl_first_def dl_rep_empty sg_list_ok_def wd_defs
      sg_claimed_def sg_op_ok_def sg_result_ok_def op_reachable.new op_new_def [symmetric])
    (simp_all add: op_new_def)

text \<open>A transition of one waiter that leaves the list and the watchdog alone.\<close>

lemma sg_inv_op:
  assumes inv: "sg_inv signum s xs" and t: "sg_list t = sg_list s" "sg_watchdog t = sg_watchdog s"
    "sg_ops t = (sg_ops s)(a := o')" "\<And>b. b \<noteq> a \<Longrightarrow> sg_result t b = sg_result s b"
    and o': "op_step (sg_ops s a) o'" "os_registered o' = os_registered (sg_ops s a)" "os_backend o' = os_backend (sg_ops s a)"
      "os_start o' \<in> {SNew, SDoStart} \<Longrightarrow> os_start (sg_ops s a) \<in> {SNew, SDoStart}"
    and r: "sg_result_ok signum (sl_head (sg_list s) = SlPtr None) o' (sg_result t a)"
  shows "sg_inv signum t xs"
proof -
  have "sg_op_ok (sg_claimed (sg_watchdog s) a) (wd_delivering (sg_watchdog s) = Some a) (a \<in> set xs) o'"
    using sg_invD(4) [OF inv, of a] o' by (auto simp: sg_op_ok_def intro: op_reachable.step)
  then show ?thesis using inv t r by (auto simp: sg_inv_def)
qed

lemma sg_local_op_step: "sg_local o1 o2 \<Longrightarrow> op_step o1 o2"
  by (induction rule: sg_local.induct) (blast intro: op_step.intros)+

lemma sg_local_step:
  assumes "sg_local o1 o2"
  shows "os_registered o2 = os_registered o1" "os_backend o2 = os_backend o1"
    "os_start o2 \<in> {SNew, SDoStart} \<Longrightarrow> os_start o1 \<in> {SNew, SDoStart}"
    "os_phase o2 = Completed \<longleftrightarrow> os_phase o1 = Completed" "os_start o2 = SPublish \<Longrightarrow> os_start o1 = SPublish"
  using assms
  by (induction rule: sg_local.induct)
    (auto simp: op_post_def op_arm_def op_rearm_def op_cancel_cas_def split: if_splits)

text \<open>A transition of the waiter \<open>a\<close> that may link or unlink it.\<close>

lemma sg_inv_set:
  assumes inv: "sg_inv signum s xs"
    and t: "sg_watchdog t = sg_watchdog s" "sg_ops t = (sg_ops s)(a := o')" "\<And>b. b \<noteq> a \<Longrightarrow> sg_result t b = sg_result s b"
    and l: "sl_rep (sg_list t) (sg_chain (sl_head (sg_list t)) (sg_watchdog s)) ys" "sg_list_ok (sg_list t) (sg_watchdog s)"
      "sl_head (sg_list t) = SlPtr None \<longleftrightarrow> sl_head (sg_list s) = SlPtr None"
    and ys: "\<And>b. b \<noteq> a \<Longrightarrow> b \<in> set ys \<longleftrightarrow> b \<in> set xs" "wd_current (sg_watchdog s) \<noteq> Some a"
    and o': "sg_op_ok (sg_claimed (sg_watchdog s) a) (wd_delivering (sg_watchdog s) = Some a) (a \<in> set ys) o'"
      "sg_result_ok signum (sl_head (sg_list s) = SlPtr None) o' (sg_result t a)"
  shows "sg_inv signum t ys"
proof -
  have "\<forall>w. wd_current (sg_watchdog s) = Some w \<longrightarrow> w \<notin> set ys" using ys sg_invD(3) [OF inv] by metis
  moreover have "\<forall>b. sg_op_ok (sg_claimed (sg_watchdog s) b) (wd_delivering (sg_watchdog s) = Some b) (b \<in> set ys) (sg_ops t b)"
    using o'(1) sg_invD(4) [OF inv] ys(1) t(2) by simp
  moreover have "\<forall>b. sg_result_ok signum (sl_head (sg_list s) = SlPtr None) (sg_ops t b) (sg_result t b)"
    using o'(2) sg_invD(5) [OF inv] t(2,3) by simp
  ultimately show ?thesis using l t(1) by (simp add: sg_inv_def)
qed

lemma sg_detached: "sg_list_ok l wd \<Longrightarrow> wd_next wd \<noteq> None \<or> wd_current wd \<noteq> None \<Longrightarrow> sl_head l = SlPtr None"
  by (auto simp: sg_list_ok_def wd_defs)

text \<open>\<open>remove\<close> finds exactly the waiters that are registered.\<close>

lemma sg_remove:
  assumes inv: "sg_inv signum s xs"
  obtains (found) l' ys where "os_registered (sg_ops s a)" "sl_remove a (sg_list s) = (True, l')" "a \<notin> set ys"
      "\<And>b. b \<noteq> a \<Longrightarrow> b \<in> set ys \<longleftrightarrow> b \<in> set xs" "sl_rep l' (sg_chain (sl_head l') (sg_watchdog s)) ys"
      "sg_list_ok l' (sg_watchdog s)" "sl_head l' = SlPtr None \<longleftrightarrow> sl_head (sg_list s) = SlPtr None"
      "\<not> sg_claimed (sg_watchdog s) a"
  | (absent) "\<not> os_registered (sg_ops s a)" "sl_remove a (sg_list s) = (False, sg_list s)"
proof (cases "os_registered (sg_ops s a)")
  case True
  let ?l = "sg_list s" and ?wd = "sg_watchdog s"
  note rep = sg_invD(1) [OF inv] and ok = sg_invD(2) [OF inv]
  have a: "a \<in> set xs" "\<not> sg_claimed ?wd a" using sg_invD(4) [OF inv, of a] True by (auto simp: sg_op_ok_def)
  then obtain us vs where xs: "xs = us @ a # vs" by (auto simp: in_set_conv_decomp)
  have rep': "sl_rep ?l (sg_chain (sl_head ?l) ?wd) (us @ a # vs)" using rep xs by simp
  have d: "distinct (us @ a # vs)" using dl_rep_facts(1) [OF rep'] .
  have h: "sg_chain (sl_head ?l) ?wd = Some (hd (us @ [a]))" using dl_rep_facts(2) [OF rep'] by (cases us) simp_all
  have first: "us \<noteq> [] \<or> sl_head ?l = SlPtr (Some a)"
    using h a(2) by (cases us; cases "sl_head ?l") (auto simp: sg_chain_def sl_first_def sg_claimed_def split: if_splits)
  have notfirst: "us \<noteq> [] \<Longrightarrow> sl_head ?l \<noteq> SlPtr (Some a)"
    using h d by (cases us) (auto simp: sg_chain_def sl_first_def)
  obtain l' where l': "sl_remove a ?l = (True, l')" "sl_rep l' (if us = [] then sl_next ?l a else sg_chain (sl_head ?l) ?wd) (us @ vs)"
    "sl_head l' = (if us \<noteq> [] then sl_head ?l else if vs = [] then SlThis else SlPtr (Some (hd vs)))"
    "sl_handler l' = (sl_handler ?l \<and> sl_head l' \<noteq> SlThis)"
    using sl_remove_rep [OF rep' first notfirst] by blast
  have chain: "sg_chain (sl_head l') ?wd = (if us = [] then sl_next ?l a else sg_chain (sl_head ?l) ?wd)"
    using l'(3) dl_rep_split(2) [OF rep'] by (auto simp: sg_chain_def sl_first_def)
  have "sg_list_ok l' ?wd" using ok l'(3,4) first by (auto simp: sg_list_ok_def sl_first_def split: if_splits sl_head.splits)
  moreover have "sl_head l' = SlPtr None \<longleftrightarrow> sl_head ?l = SlPtr None" using l'(3) first by auto
  moreover have "b \<noteq> a \<Longrightarrow> b \<in> set (us @ vs) \<longleftrightarrow> b \<in> set xs" for b using xs by auto
  moreover have "a \<notin> set (us @ vs)" using d by auto
  ultimately show ?thesis using found [OF True l'(1), of "us @ vs"] l'(2) chain a(2) by simp
next
  case False
  let ?l = "sg_list s" and ?wd = "sg_watchdog s"
  note rep = sg_invD(1) [OF inv]
  have claimed: "a \<in> set xs \<Longrightarrow> wd_next ?wd = Some a"
    using sg_invD(3,4) [OF inv, of a] False by (auto simp: sg_op_ok_def sg_claimed_def)
  have "sl_head ?l \<noteq> SlPtr (Some a)"
  proof
    assume h: "sl_head ?l = SlPtr (Some a)"
    then have "a \<in> set xs" using dl_rep_facts(2) [OF rep] by (cases xs) (auto simp: sg_chain_def sl_first_def)
    then show False using claimed sg_detached [OF sg_invD(2) [OF inv]] h by simp
  qed
  moreover have "a \<notin> set xs \<or> sg_chain (sl_head ?l) ?wd = Some a"
    using claimed sg_detached [OF sg_invD(2) [OF inv]] by (auto simp: sg_chain_def)
  ultimately show ?thesis using absent [OF False] sl_remove_absent [OF rep] by blast
qed

lemma sg_set_op_simps [simp]:
  "sg_list (sg_set_op a o' s) = sg_list s" "sg_ops (sg_set_op a o' s) = (sg_ops s)(a := o')"
  "sg_result (sg_set_op a o' s) = sg_result s" "sg_watchdog (sg_set_op a o' s) = sg_watchdog s"
  "sg_pipe (sg_set_op a o' s) = sg_pipe s" "sg_calls (sg_set_op a o' s) = sg_calls s"
  by (simp_all add: sg_set_op_def)

text \<open>Both cancellations, as one transition \<open>f\<close> of the waiter for the two outcomes of \<open>remove\<close>.\<close>

lemma sg_inv_remove:
  assumes inv: "sg_inv signum s xs"
    and found: "os_registered (sg_ops s a) \<Longrightarrow> op_step (sg_ops s a) (f True)" "\<not> os_registered (f True)"
      "os_backend (f True) = os_backend (sg_ops s a)" "os_start (f True) \<notin> {SNew, SDoStart, SPublish}"
      "os_phase (f True) = os_phase (sg_ops s a)"
    and absent: "\<not> os_registered (sg_ops s a) \<Longrightarrow> op_step (sg_ops s a) (f False)"
      "os_registered (f False) = os_registered (sg_ops s a)" "os_backend (f False) = os_backend (sg_ops s a)"
      "os_start (f False) \<notin> {SNew, SDoStart, SPublish}" "os_phase (f False) = os_phase (sg_ops s a)"
  shows "\<exists>ys. sg_inv signum (case sl_remove a (sg_list s) of (b, l) \<Rightarrow> sg_set_op a (f b) (s\<lparr>sg_list := l\<rparr>)) ys"
  using inv
proof (cases rule: sg_remove [where a = a])
  case (found l' ys)
  have ok: "sg_op_ok False (wd_delivering (sg_watchdog s) = Some a) False (f True)"
    using sg_invD(4) [OF inv, of a] found(8) assms(2-5) found(1) by (auto simp: sg_op_ok_def intro: op_reachable.step)
  have "sg_result_ok signum (sl_head (sg_list s) = SlPtr None) (f True) (sg_result s a)"
    using sg_invD(5) [OF inv, of a] assms(5,6) by (simp add: sg_result_ok_def)
  then have "sg_inv signum (sg_set_op a (f True) (s\<lparr>sg_list := l'\<rparr>)) ys"
    using found(2-8) ok by (intro sg_inv_set [OF inv]) (simp_all add: sg_claimed_def)
  then show ?thesis using found(2) by auto
next
  case absent
  have "sg_result_ok signum (sl_head (sg_list s) = SlPtr None) (f False) (sg_result s a)"
    using sg_invD(5) [OF inv, of a] assms(10,11) by (simp add: sg_result_ok_def)
  then have "sg_inv signum (sg_set_op a (f False) s) xs"
    using assms(7-10) absent(1) by (intro sg_inv_op [OF inv, of _ a "f False"]) simp_all
  then show ?thesis using absent(2) by auto
qed

lemma sg_do_start_inv:
  assumes inv: "sg_inv signum s xs" and start: "os_start (sg_ops s a) = SDoStart"
    and fail: "\<And>e. fail = Some e \<Longrightarrow> 0 < e" and pos: "0 < signum"
  shows "\<exists>ys. sg_inv signum (sg_do_start signum fail a s) ys"
proof -
  let ?l = "sg_list s" and ?wd = "sg_watchdog s"
  note rep = sg_invD(1) [OF inv] and ok = sg_invD(2) [OF inv] and op = sg_invD(4) [OF inv, of a]
  have a: "a \<notin> set xs" "\<not> sg_claimed ?wd a" "wd_delivering ?wd \<noteq> Some a" "\<not> os_registered (sg_ops s a)"
    "os_backend (sg_ops s a) = BIdle" "op_reachable (sg_ops s a)" using op start by (auto simp: sg_op_ok_def)
  have step: "op_reachable (op_do_start r (sg_ops s a))" for r
    using a(6) op_step.do_start [OF start] op_reachable.step by blast
  show ?thesis
  proof (cases "is_available_signal signum \<and> sl_head ?l \<noteq> SlPtr None \<and> (sl_head ?l = SlThis \<longrightarrow> fail = None)")
    case True
    then obtain l' where l': "sl_add signum fail a ?l = (0, l')" "sl_head l' = SlPtr (Some a)" "sl_rep l' (Some a) (a # xs)"
      "sl_handler l' = (sl_head ?l = SlThis \<or> sl_handler ?l)"
      using sl_add_rep [of ?l xs a fail signum] rep a(1) by (auto simp: sg_chain_def)
    let ?t = "sg_set_op a (op_do_start ResPending (sg_ops s a)) (s\<lparr>sg_list := l', sg_result := (sg_result s)(a := 0)\<rparr>)"
    have "sg_list_ok l' ?wd" using ok l' True by (cases "sl_head ?l") (auto simp: sg_list_ok_def sl_first_def)
    moreover have "sg_op_ok False False True (op_do_start ResPending (sg_ops s a))"
      using a step [of ResPending] by (simp add: sg_op_ok_def op_do_start_def)
    moreover have "os_phase (sg_ops s a) \<noteq> Completed"
      using op_inv_cases(4) [OF op_reachable_inv [OF a(6)]] start by (auto simp: phase_ok_def)
    ultimately have "sg_inv signum ?t (a # xs)"
      using l' a True by (intro sg_inv_set [OF inv, of _ a])
        (auto simp: sg_chain_def sl_first_def sg_claimed_def sg_result_ok_def op_do_start_def)
    then show ?thesis using l'(1) True by (auto simp: sg_do_start_def)
  next
    case False
    have eq: "\<exists>r. sg_do_start signum fail a s =
        sg_set_op a (op_do_start ResCompleted (sg_ops s a)) (s\<lparr>sg_result := (sg_result s)(a := r)\<rparr>) \<and>
        (r = signum \<and> sl_head ?l = SlPtr None \<or> r < 0)"
      using False pos fail by (cases fail) (auto simp: sg_do_start_def sl_add_def Let_def EINVAL_def)
    then obtain r where r: "sg_do_start signum fail a s =
        sg_set_op a (op_do_start ResCompleted (sg_ops s a)) (s\<lparr>sg_result := (sg_result s)(a := r)\<rparr>)"
      "r = signum \<and> sl_head ?l = SlPtr None \<or> r < 0" by blast
    have "sg_inv signum (sg_do_start signum fail a s) xs"
      unfolding r(1) using r(2) start op_step.do_start [OF start, of ResCompleted]
      by (intro sg_inv_op [OF inv, of _ a "op_do_start ResCompleted (sg_ops s a)"])
        (auto simp: op_do_start_def sg_result_ok_def)
    then show ?thesis by blast
  qed
qed

lemma sg_finish_eq:
  "sg_finish a r s = (armed, t) \<longleftrightarrow> (\<exists>o'. op_publish (sg_ops s a) = (armed, o') \<and>
     t = sg_set_op a o' (s\<lparr>sg_result := (sg_result s)(a := r)\<rparr>))"
  by (auto simp: sg_finish_def split: prod.splits)

lemma op_publish_facts:
  assumes "op_publish o1 = (armed, o2)"
  shows "os_registered o2 = os_registered o1" "os_backend o2 = os_backend o1" "os_start o2 = os_start o1"
    "os_cancel o2 = os_cancel o1"
  using assms by (auto simp: op_publish_def)

lemma sg_inv_finish:
  assumes inv: "sg_inv signum s xs" and f: "op_publish (sg_ops s a) = (armed, o1)"
    and o': "op_step (sg_ops s a) o'" "os_registered o' = os_registered (sg_ops s a)" "os_backend o' = os_backend (sg_ops s a)"
      "os_start o' \<notin> {SNew, SDoStart}"
    and r: "r = signum \<and> sl_head (sg_list s) = SlPtr None \<or> r < 0"
  shows "sg_inv signum (sg_set_op a o' (s\<lparr>sg_result := (sg_result s)(a := r)\<rparr>)) xs"
  using assms by (intro sg_inv_op [OF inv, of _ a o']) (auto simp: sg_result_ok_def)

text \<open>The watchdog claims waiters and completes them.\<close>

lemma sg_op_claim:
  "sg_op_ok False False True o' \<Longrightarrow> sg_op_ok True False True (o'\<lparr>os_registered := False, os_backend := BPublish\<rparr>)"
  by (auto simp: sg_op_ok_def intro: op_reachable.step op_step.backend_take)

lemma sg_op_claimed: "sg_op_ok True False l o' \<Longrightarrow> sg_op_ok True False False o'"
  by (auto simp: sg_op_ok_def)

lemma sg_advance_inv:
  assumes rep: "sl_rep (sg_list s) (Some w) (w # ys)" and h: "sl_head (sg_list s) = SlPtr None"
    and ops: "\<And>a. sg_op_ok (a = w) False (a = w \<or> a \<in> set ys) (sg_ops s a)"
    and res: "\<And>a. sg_result_ok signum True (sg_ops s a) (sg_result s a)"
  shows "sg_inv signum (sg_advance w s) ys"
proof -
  let ?nx = "if ys = [] then None else Some (hd ys)"
  obtain l' where l': "sl_detach w (sg_list s) = (?nx, l')" "sl_rep l' ?nx ys" "sl_head l' = SlPtr None"
    using sl_detach_rep [OF rep] h by auto
  let ?t = "sg_advance w s"
  have w: "w \<notin> set ys" using dl_rep_facts(1) [OF rep] by simp
  have t: "sg_list ?t = l'" "sg_watchdog ?t = WdFinish w ?nx" "sg_result ?t = sg_result s"
    "sg_ops ?t a = (if ?nx = Some a then (sg_ops s a)\<lparr>os_registered := False, os_backend := BPublish\<rparr> else sg_ops s a)" for a
    using l'(1) by (auto simp: sg_advance_def sg_claim_def split: option.split)
  have "sg_op_ok (sg_claimed (WdFinish w ?nx) a) False (a \<in> set ys) (sg_ops ?t a)" for a
  proof -
    consider "a = w" | "?nx = Some a" "a \<noteq> w" "a \<in> set ys" | "?nx \<noteq> Some a" "a \<noteq> w" by (cases ys) auto
    then show ?thesis
    proof cases
      case 1
      then show ?thesis using ops [of w] w t(4) [of w] by (cases ys) (auto simp: sg_claimed_def wd_defs intro: sg_op_claimed)
    next
      case 2
      then show ?thesis using sg_op_claim [of "sg_ops s a"] ops [of a] t(4) [of a] by (simp add: sg_claimed_def wd_defs)
    next
      case 3
      then show ?thesis using ops [of a] t(4) [of a] by (simp add: sg_claimed_def wd_defs)
    qed
  qed
  moreover have "sg_result_ok signum True (sg_ops ?t a) (sg_result ?t a)" for a
    using res [of a] t(3,4) by (simp add: sg_result_ok_def)
  ultimately show ?thesis
    using l' w t(1,2) by (simp add: sg_inv_def sg_chain_def sg_list_ok_def sl_first_def wd_defs)
qed

lemma sg_relock_inv:
  assumes inv: "sg_inv signum s xs" and wd: "sg_watchdog s = WdLock w"
  shows "\<exists>ys. sg_inv signum (sg_advance w s) ys"
proof -
  have h: "sl_head (sg_list s) = SlPtr None" using sg_invD(2) [OF inv] wd by (simp add: sg_list_ok_def)
  then have rep: "sl_rep (sg_list s) (Some w) xs" using sg_invD(1) [OF inv] wd by (simp add: sg_chain_def wd_defs)
  then obtain ys where xs: "xs = w # ys" using dl_rep_facts(2) [OF rep] by (cases xs) auto
  have "sg_inv signum (sg_advance w s) ys"
  proof (rule sg_advance_inv)
    show "sg_op_ok (a = w) False (a = w \<or> a \<in> set ys) (sg_ops s a)" for a
      using sg_invD(4) [OF inv, of a] wd xs by (simp add: sg_claimed_def wd_defs eq_commute)
    show "sg_result_ok signum True (sg_ops s a) (sg_result s a)" for a using sg_invD(5) [OF inv, of a] h by simp
  qed (use rep xs h in simp_all)
  then show ?thesis by blast
qed

lemma sg_take_inv:
  assumes inv: "sg_inv signum s xs" and wd: "sg_watchdog s = WdTake" and pos: "0 < signum"
  shows "\<exists>ys. sg_inv signum (sg_pop_all signum s) ys"
proof -
  let ?l = "(sg_list s)\<lparr>sl_head := SlPtr None\<rparr>"
  have take: "sl_take signum (sg_list s) = (sl_first (sl_head (sg_list s)), ?l)" using pos by (simp add: sl_take_def)
  have rep: "sl_rep (sg_list s) (sl_first (sl_head (sg_list s))) xs"
    using sg_invD(1) [OF inv] wd by (auto simp: sg_chain_def sl_first_def wd_defs split: if_splits)
  have ops: "sg_op_ok False False (a \<in> set xs) (sg_ops s a)" for a
    using sg_invD(4) [OF inv, of a] wd by (simp add: sg_claimed_def wd_defs)
  have res: "sg_result_ok signum True (sg_ops s a) (sg_result s a)" for a
    using sg_invD(5) [OF inv, of a] by (auto simp: sg_result_ok_def)
  show ?thesis
  proof (cases xs)
    case Nil
    then have p: "sl_first (sl_head (sg_list s)) = None" using dl_rep_facts(2) [OF rep] by simp
    have "sg_inv signum (s\<lparr>sg_list := ?l, sg_watchdog := WdPoll\<rparr>) xs"
      using rep ops res p by (simp add: sg_inv_def sg_chain_def wd_defs sg_list_ok_def sl_first_def sg_claimed_def)
    then show ?thesis using take p by (auto simp: sg_pop_all_def)
  next
    case (Cons w ys)
    then have p: "sl_first (sl_head (sg_list s)) = Some w" using dl_rep_facts(2) [OF rep] by simp
    let ?s = "sg_claim (Some w) (s\<lparr>sg_list := ?l\<rparr>)"
    have "sg_inv signum (sg_advance w ?s) ys"
    proof (rule sg_advance_inv)
      show "sg_op_ok (a = w) False (a = w \<or> a \<in> set ys) (sg_ops ?s a)" for a
        using ops [of a] sg_op_claim [of "sg_ops s w"] Cons by (cases "a = w") (simp_all add: sg_claim_def)
      show "sg_result_ok signum True (sg_ops ?s a) (sg_result ?s a)" for a
        using res [of a] by (cases "a = w") (simp_all add: sg_claim_def sg_result_ok_def)
    qed (use rep p Cons in \<open>simp_all add: sg_claim_def\<close>)
    then show ?thesis using take p by (auto simp: sg_pop_all_def)
  qed
qed

lemma sg_watchdog_finish_inv:
  assumes inv: "sg_inv signum s xs" and wd: "sg_watchdog s = WdFinish w nx" and f: "op_publish (sg_ops s w) = (armed, o1)"
  shows "sg_inv signum (sg_set_op w (o1\<lparr>os_backend := (if armed then BPost else BDone)\<rparr>)
    (s\<lparr>sg_result := (sg_result s)(w := signum), sg_watchdog := (if armed then WdDeliver w nx else sg_next nx)\<rparr>)) xs"
proof -
  let ?wd = "if armed then WdDeliver w nx else sg_next nx"
  have h: "sl_head (sg_list s) = SlPtr None" using sg_invD(2) [OF inv] wd by (simp add: sg_list_ok_def)
  then have rep: "sl_rep (sg_list s) nx xs" using sg_invD(1) [OF inv] wd by (simp add: sg_chain_def wd_defs)
  have w: "w \<notin> set xs" using sg_invD(3) [OF inv] wd by (simp add: wd_defs)
  have nx: "nx \<noteq> Some w" using dl_rep_facts(2) [OF rep] w by (cases xs) auto
  have wdn: "wd_next ?wd = nx" "wd_current ?wd = None" "wd_delivering ?wd = (if armed then Some w else None)"
    by (simp_all add: wd_defs sg_next_def split: option.split)
  have op: "sg_op_ok True False False (sg_ops s w)" using sg_invD(4) [OF inv, of w] wd w by (simp add: sg_claimed_def wd_defs)
  then have "op_step (sg_ops s w) (o1\<lparr>os_backend := (if armed then BPost else BDone)\<rparr>)"
    by (intro op_step.backend_publish f) (simp add: sg_op_ok_def)
  then have "sg_op_ok False armed False (o1\<lparr>os_backend := (if armed then BPost else BDone)\<rparr>)"
    using op op_publish_facts [OF f] by (auto simp: sg_op_ok_def intro: op_reachable.step)
  moreover have "sg_op_ok (nx = Some a) False (a \<in> set xs) (sg_ops s a)" if "a \<noteq> w" for a
    using sg_invD(4) [OF inv, of a] wd that by (simp add: sg_claimed_def wd_defs)
  ultimately show ?thesis
    using rep h w wdn nx sg_invD(5) [OF inv]
    by (auto simp: sg_inv_def sg_chain_def sg_list_ok_def sl_first_def sg_claimed_def sg_result_ok_def)
qed

lemma sg_watchdog_deliver_inv:
  assumes inv: "sg_inv signum s xs" and wd: "sg_watchdog s = WdDeliver w nx"
  shows "sg_inv signum (sg_set_op w ((op_post (sg_ops s w))\<lparr>os_backend := BDone\<rparr>) (s\<lparr>sg_watchdog := sg_next nx\<rparr>)) xs"
proof -
  have h: "sl_head (sg_list s) = SlPtr None" using sg_invD(2) [OF inv] wd by (simp add: sg_list_ok_def)
  then have rep: "sl_rep (sg_list s) nx xs" using sg_invD(1) [OF inv] wd by (simp add: sg_chain_def wd_defs)
  have op: "os_backend (sg_ops s w) = BPost" "nx \<noteq> Some w" "w \<notin> set xs" "\<not> os_registered (sg_ops s w)"
    using sg_invD(4) [OF inv, of w] wd by (auto simp: sg_claimed_def wd_defs sg_op_ok_def)
  have wdn: "wd_next (sg_next nx) = nx" "wd_current (sg_next nx) = None" "wd_delivering (sg_next nx) = None"
    by (simp_all add: wd_defs sg_next_def split: option.split)
  have "op_step (sg_ops s w) ((op_post (sg_ops s w))\<lparr>os_backend := BDone\<rparr>)" by (rule op_step.backend_post [OF op(1)])
  then have "sg_op_ok False False False ((op_post (sg_ops s w))\<lparr>os_backend := BDone\<rparr>)"
    using sg_invD(4) [OF inv, of w] op by (auto simp: sg_op_ok_def op_post_def intro: op_reachable.step)
  moreover have "sg_op_ok (nx = Some a) False (a \<in> set xs) (sg_ops s a)" if "a \<noteq> w" for a
    using sg_invD(4) [OF inv, of a] wd that by (simp add: sg_claimed_def wd_defs eq_commute)
  ultimately show ?thesis
    using rep h op wdn sg_invD(5) [OF inv]
    by (auto simp: sg_inv_def sg_chain_def sg_list_ok_def sl_first_def sg_claimed_def sg_result_ok_def op_post_def)
qed

lemma sg_started:
  assumes inv: "sg_inv signum s xs" and c: "os_cancel (sg_ops s a) \<in> {CDoCancel, CPublish} \<or> os_posts (sg_ops s a) > 0"
  shows "os_start (sg_ops s a) = SDone"
  using sg_invD(4) [OF inv, of a] op_inv_cases(5) [of "sg_ops s a"] op_reachable_inv c
  by (auto simp: sg_op_ok_def returned_ok_def)

lemma sg_step_inv:
  assumes step: "sg_step os signum s t" and inv: "sg_inv signum s xs" and pos: "0 < signum"
  shows "\<exists>ys. sg_inv signum t ys"
  using step
proof cases
  case (local a o')
  have "sg_result_ok signum (sl_head (sg_list s) = SlPtr None) o' (sg_result s a)"
    using sg_invD(5) [OF inv, of a] sg_local_step(4,5) [OF local(2)] by (auto simp: sg_result_ok_def)
  then have "sg_inv signum (sg_set_op a o' s) xs"
    using sg_local_step(1-3) [OF local(2)] sg_local_op_step [OF local(2)] by (intro sg_inv_op [OF inv, of _ a o']) simp_all
  then show ?thesis using local by blast
next
  case (do_start a fail)
  then show ?thesis using sg_do_start_inv [OF inv] pos by blast
next
  case (start_finish a armed u)
  then obtain o1 where o1: "op_publish (sg_ops s a) = (armed, o1)"
    "u = sg_set_op a o1 (s\<lparr>sg_result := (sg_result s)(a := sg_result s a)\<rparr>)" by (auto simp: sg_finish_eq)
  let ?o = "(if armed then op_post o1 else o1)\<lparr>os_start := SPost\<rparr>"
  have "sg_result s a = signum \<and> sl_head (sg_list s) = SlPtr None \<or> sg_result s a < 0"
    using sg_invD(5) [OF inv, of a] start_finish(2) by (simp add: sg_result_ok_def)
  moreover have "op_step (sg_ops s a) ?o" by (rule op_step.start_publish [OF start_finish(2) o1(1)])
  ultimately have "sg_inv signum (sg_set_op a ?o (s\<lparr>sg_result := (sg_result s)(a := sg_result s a)\<rparr>)) xs"
    using op_publish_facts [OF o1(1)] by (intro sg_inv_finish [OF inv o1(1)]) (auto simp: op_post_def)
  moreover have "t = sg_set_op a ?o (s\<lparr>sg_result := (sg_result s)(a := sg_result s a)\<rparr>)"
    using start_finish(1) o1(2) by (simp add: sg_set_op_def)
  ultimately show ?thesis by blast
next
  case (start_cancel_finish a armed u)
  then obtain o1 where o1: "op_publish (sg_ops s a) = (armed, o1)"
    "u = sg_set_op a o1 (s\<lparr>sg_result := (sg_result s)(a := - abort_code os)\<rparr>)" by (auto simp: sg_finish_eq)
  let ?o = "(if armed then op_post o1 else o1)\<lparr>os_start := SRearm\<rparr>"
  have "op_step (sg_ops s a) ?o" by (rule op_step.start_cancel_publish [OF start_cancel_finish(2) o1(1)])
  then have "sg_inv signum (sg_set_op a ?o (s\<lparr>sg_result := (sg_result s)(a := - abort_code os)\<rparr>)) xs"
    using op_publish_facts [OF o1(1)] by (intro sg_inv_finish [OF inv o1(1)]) (auto simp: op_post_def ECANCELED_def)
  moreover have "t = sg_set_op a ?o (s\<lparr>sg_result := (sg_result s)(a := - abort_code os)\<rparr>)"
    using start_cancel_finish(1) o1(2) by (simp add: sg_set_op_def)
  ultimately show ?thesis by blast
next
  case (cancel_finish a armed u)
  then obtain o1 where o1: "op_publish (sg_ops s a) = (armed, o1)"
    "u = sg_set_op a o1 (s\<lparr>sg_result := (sg_result s)(a := - abort_code os)\<rparr>)" by (auto simp: sg_finish_eq)
  let ?o = "o1\<lparr>os_cancel := (if armed then CPost else CDone)\<rparr>"
  have start: "os_start (sg_ops s a) = SDone" using sg_started [OF inv, of a] cancel_finish(2) by simp
  have "op_step (sg_ops s a) ?o" by (rule op_step.cancel_publish [OF cancel_finish(2) o1(1)])
  then have "sg_inv signum (sg_set_op a ?o (s\<lparr>sg_result := (sg_result s)(a := - abort_code os)\<rparr>)) xs"
    using op_publish_facts [OF o1(1)] start by (intro sg_inv_finish [OF inv o1(1)]) (auto simp: ECANCELED_def)
  moreover have "t = sg_set_op a ?o (s\<lparr>sg_result := (sg_result s)(a := - abort_code os)\<rparr>)"
    using cancel_finish(1) o1(2) by (simp add: sg_set_op_def)
  ultimately show ?thesis by blast
next
  case (start_do_cancel a)
  let ?f = "\<lambda>b. if b then (sg_ops s a)\<lparr>os_registered := False, os_start := SCancelPublish\<rparr> else (sg_ops s a)\<lparr>os_start := SRearm\<rparr>"
  have "\<exists>ys. sg_inv signum (case sl_remove a (sg_list s) of (b, l) \<Rightarrow> sg_set_op a (?f b) (s\<lparr>sg_list := l\<rparr>)) ys"
    using op_step.start_do_cancel [OF start_do_cancel(2)] by (intro sg_inv_remove [OF inv]) simp_all
  then show ?thesis using start_do_cancel(1) by (simp add: sg_start_do_cancel_def)
next
  case (do_cancel a)
  let ?f = "\<lambda>b. if b then (sg_ops s a)\<lparr>os_registered := False, os_cancel := CPublish\<rparr> else (sg_ops s a)\<lparr>os_cancel := CDone\<rparr>"
  have start: "os_start (sg_ops s a) = SDone" using sg_started [OF inv, of a] do_cancel(2) by simp
  have "\<exists>ys. sg_inv signum (case sl_remove a (sg_list s) of (b, l) \<Rightarrow> sg_set_op a (?f b) (s\<lparr>sg_list := l\<rparr>)) ys"
    using op_step.do_cancel [OF do_cancel(2)] start by (intro sg_inv_remove [OF inv]) simp_all
  then show ?thesis using do_cancel(1) by (simp add: sg_do_cancel_def)
next
  case (deliver a)
  let ?o = "(sg_ops s a)\<lparr>os_finished := True\<rparr>"
  have start: "os_start (sg_ops s a) = SDone" using sg_started [OF inv, of a] deliver(2) by simp
  have "op_step (sg_ops s a) ?o" by (rule op_step.finish [OF deliver(2-4)])
  then have "sg_inv signum t xs"
    unfolding deliver(1) using start sg_invD(5) [OF inv, of a]
    by (intro sg_inv_op [OF inv, of _ a ?o]) (simp_all add: sg_result_ok_def)
  then show ?thesis by blast
next
  case signal_handler
  then show ?thesis using inv by (auto simp: sg_inv_def)
next
  case dispatch
  then have "sg_inv signum t xs" using inv
    by (cases "sl_head (sg_list s)") (auto simp: sg_inv_def sg_chain_def wd_defs sg_claimed_def sg_list_ok_def split: if_splits)
  then show ?thesis by blast
next
  case take
  then show ?thesis using sg_take_inv [OF inv _ pos] by blast
next
  case (finish w nx armed u)
  then obtain o1 where o1: "op_publish (sg_ops s w) = (armed, o1)"
    "u = sg_set_op w o1 (s\<lparr>sg_result := (sg_result s)(w := signum)\<rparr>)" by (auto simp: sg_finish_eq)
  have "t = sg_set_op w (o1\<lparr>os_backend := (if armed then BPost else BDone)\<rparr>)
    (s\<lparr>sg_result := (sg_result s)(w := signum), sg_watchdog := (if armed then WdDeliver w nx else sg_next nx)\<rparr>)"
    using finish(1) o1(2) by (simp add: sg_set_op_def)
  then show ?thesis using sg_watchdog_finish_inv [OF inv finish(2) o1(1)] by metis
next
  case (finish_deliver w nx)
  then show ?thesis using sg_watchdog_deliver_inv [OF inv] by blast
next
  case (relock w)
  then show ?thesis using sg_relock_inv [OF inv] by blast
qed

lemma sg_reachable_inv:
  assumes "sg_reachable os signum s" "0 < signum"
  shows "\<exists>xs. sg_inv signum s xs"
  using assms(1)
proof (induction rule: sg_reachable.induct)
  case new
  then show ?case using sg_inv_new by blast
next
  case (step s t)
  then show ?case using sg_step_inv assms(2) by blast
qed

text \<open>What a transition does to the calls of the receivers.\<close>

lemma sg_local_finished: "sg_local o1 o2 \<Longrightarrow> os_finished o2 = os_finished o1"
  by (induction rule: sg_local.induct) (simp_all add: op_post_def op_arm_def op_rearm_def op_cancel_cas_def)

lemma sl_fired:
  "sl_add signum fail a l = (r, l') \<Longrightarrow> sl_head l = SlPtr None \<Longrightarrow> sl_head l' = SlPtr None"
  "sl_remove a l = (b, l') \<Longrightarrow> sl_head l = SlPtr None \<Longrightarrow> sl_head l' = SlPtr None"
  "sl_detach a l = (p, l') \<Longrightarrow> sl_head l' = sl_head l"
proof -
  assume "sl_remove a l = (b, l')" "sl_head l = SlPtr None"
  then show "sl_head l' = SlPtr None"
    by (cases "sl_prev l a"; cases "sl_next l a") (auto simp: sl_remove_def Let_def split: if_splits option.splits)
qed (auto simp: sl_add_def sl_detach_def Let_def split: option.splits)

lemma sg_claim_simps [simp]:
  "sg_list (sg_claim p s) = sg_list s" "sg_calls (sg_claim p s) = sg_calls s"
  "os_finished (sg_ops (sg_claim p s) a) = os_finished (sg_ops s a)"
  by (cases p; simp add: sg_claim_def)+

lemma sg_advance_simps [simp]:
  "sl_head (sg_list (sg_advance w s)) = sl_head (sg_list s)" "sg_calls (sg_advance w s) = sg_calls s"
  "os_finished (sg_ops (sg_advance w s) a) = os_finished (sg_ops s a)"
proof -
  obtain p l' where d: "sl_detach w (sg_list s) = (p, l')" by fastforce
  from sl_fired(3) [OF this] d show "sl_head (sg_list (sg_advance w s)) = sl_head (sg_list s)"
    "sg_calls (sg_advance w s) = sg_calls s" "os_finished (sg_ops (sg_advance w s) a) = os_finished (sg_ops s a)"
    by (simp_all add: sg_advance_def)
qed

lemma sg_step_calls:
  assumes "sg_step os signum s t" "0 < signum"
  shows "sl_head (sg_list s) = SlPtr None \<Longrightarrow> sl_head (sg_list t) = SlPtr None"
    and "(sg_calls t = sg_calls s \<and> (\<forall>a. os_finished (sg_ops t a) = os_finished (sg_ops s a))) \<or>
      (\<exists>a. sg_calls t = sg_calls s @ [(a, signal_deliver os (sg_result s a))] \<and> os_posts (sg_ops s a) > 0 \<and>
        \<not> os_finished (sg_ops s a) \<and> (\<forall>b. os_finished (sg_ops t b) = (b = a \<or> os_finished (sg_ops s b))))"
  using assms
proof (induction rule: sg_step.induct)
  case (local s a o')
  {
    case 2
    then show ?case using sg_local_finished [OF local(1)] by simp
  }
qed (auto simp: sg_do_start_def op_do_start_def sg_finish_eq op_publish_def op_post_def sg_start_do_cancel_def sg_do_cancel_def
    sg_pop_all_def sl_take_def split: prod.splits option.splits start_result.splits if_splits dest: sl_fired)

lemma sg_calls_inv:
  assumes "sg_reachable os signum s" "0 < signum"
  shows "distinct (map fst (sg_calls s)) \<and> (\<forall>(a, c) \<in> set (sg_calls s). os_finished (sg_ops s a) \<and>
    (if sl_head (sg_list s) = SlPtr None then c = SetValue signum \<or> (\<forall>v. c \<noteq> SetValue v) else (\<forall>v. c \<noteq> SetValue v)))"
  using assms(1)
proof (induction rule: sg_reachable.induct)
  case new
  then show ?case by (simp add: sg_new_def)
next
  case (step s t)
  obtain xs where inv: "sg_inv signum s xs" using sg_reachable_inv [OF step(1) assms(2)] by blast
  note c = sg_step_calls [OF step(2) assms(2)]
  from c(2) show ?case
  proof (elim disjE exE conjE)
    assume "sg_calls t = sg_calls s" "\<forall>a. os_finished (sg_ops t a) = os_finished (sg_ops s a)"
    then show ?thesis using step(3) c(1) by (auto split: if_splits)
  next
    fix a
    assume a: "sg_calls t = sg_calls s @ [(a, signal_deliver os (sg_result s a))]" "os_posts (sg_ops s a) > 0"
      "\<not> os_finished (sg_ops s a)" "\<forall>b. os_finished (sg_ops t b) = (b = a \<or> os_finished (sg_ops s b))"
    have "os_phase (sg_ops s a) = Completed"
      using op_posted_facts [OF op_reachable_inv a(2)] sg_invD(4) [OF inv, of a] by (simp add: sg_op_ok_def)
    then have "sg_result s a = signum \<and> sl_head (sg_list s) = SlPtr None \<or> sg_result s a < 0"
      using sg_invD(5) [OF inv, of a] by (simp add: sg_result_ok_def)
    then have new: "if sl_head (sg_list s) = SlPtr None then signal_deliver os (sg_result s a) = SetValue signum \<or>
        (\<forall>v. signal_deliver os (sg_result s a) \<noteq> SetValue v) else (\<forall>v. signal_deliver os (sg_result s a) \<noteq> SetValue v)"
      using assms(2) by (auto simp: signal_deliver_def)
    have "a \<notin> fst ` set (sg_calls s)" using step(3) a(3) by auto
    then show ?thesis using step(3) a c(1) new by (auto split: if_splits)
  qed
qed

section \<open>Properties\<close>

text \<open>A waiter starts, the signal arrives, and the watchdog completes the waiter; and one that is still waiting.\<close>

definition sg_waiting_demo :: signal_sys where
  "sg_waiting_demo =
     (let s1 = sg_set_op 3 (op_new\<lparr>os_start := SDoStart\<rparr>) sg_new; s2 = sg_do_start 2 None 3 s1
      in sg_set_op 3 (op_arm (sg_ops s2 3)) s2)"

definition sg_fired_demo :: signal_sys where
  "sg_fired_demo =
     (let s3 = sg_waiting_demo\<lparr>sg_pipe := 1\<rparr>;
          s4 = s3\<lparr>sg_pipe := 0, sg_list := (sg_list s3)\<lparr>sl_handler := False\<rparr>, sg_watchdog := WdTake\<rparr>;
          s5 = sg_pop_all 2 s4; s6 = snd (sg_finish 3 2 s5);
          s7 = sg_set_op 3 ((sg_ops s6 3)\<lparr>os_backend := BPost\<rparr>) (s6\<lparr>sg_watchdog := WdDeliver 3 None\<rparr>);
          s8 = sg_set_op 3 ((op_post (sg_ops s7 3))\<lparr>os_backend := BDone\<rparr>) (s7\<lparr>sg_watchdog := sg_next None\<rparr>)
      in sg_set_op 3 ((sg_ops s8 3)\<lparr>os_finished := True\<rparr>)
           (s8\<lparr>sg_calls := sg_calls s8 @ [(3, signal_deliver Posix (sg_result s8 3))]\<rparr>))"

lemma sg_waiting_demo_reachable: "sg_reachable Posix 2 sg_waiting_demo"
proof -
  define s1 where "s1 = sg_set_op 3 (op_new\<lparr>os_start := SDoStart\<rparr>) sg_new"
  define s2 where "s2 = sg_do_start 2 None 3 s1"
  have "sg_step Posix 2 sg_new s1"
    using sg_step.local [of sg_new 3 "op_new\<lparr>os_start := SDoStart\<rparr>"] sg_local.start [of op_new]
    by (simp add: s1_def sg_new_def op_new_def)
  moreover have "sg_step Posix 2 s1 s2" unfolding s2_def by (rule sg_step.do_start) (simp_all add: s1_def)
  moreover have "sg_step Posix 2 s2 sg_waiting_demo"
    unfolding sg_waiting_demo_def s1_def [symmetric] Let_def s2_def [symmetric]
    by (rule sg_step.local, rule sg_local.arm)
      (simp add: s2_def s1_def sg_do_start_def is_available_signal_def max_signal_number_def sl_add_def sg_new_def sl_new_def
        Let_def sl_first_def op_do_start_def)
  ultimately show ?thesis by (meson sg_reachable.intros)
qed

lemmas sg_demo_simps = sg_waiting_demo_def sg_do_start_def is_available_signal_def max_signal_number_def sl_add_def sg_new_def
  sl_new_def Let_def sl_first_def op_do_start_def op_new_def op_arm_def

lemma sg_fired_demo_reachable: "sg_reachable Posix 2 sg_fired_demo"
proof -
  define s3 where "s3 = sg_waiting_demo\<lparr>sg_pipe := 1\<rparr>"
  define s4 where "s4 = s3\<lparr>sg_pipe := 0, sg_list := (sg_list s3)\<lparr>sl_handler := False\<rparr>, sg_watchdog := WdTake\<rparr>"
  define s5 where "s5 = sg_pop_all 2 s4"
  define s6 where "s6 = snd (sg_finish 3 2 s5)"
  define s7 where "s7 = sg_set_op 3 ((sg_ops s6 3)\<lparr>os_backend := BPost\<rparr>) (s6\<lparr>sg_watchdog := WdDeliver 3 None\<rparr>)"
  define s8 where "s8 = sg_set_op 3 ((op_post (sg_ops s7 3))\<lparr>os_backend := BDone\<rparr>) (s7\<lparr>sg_watchdog := sg_next None\<rparr>)"
  note d = s8_def s7_def s6_def s5_def s4_def s3_def sg_pop_all_def sl_take_def sg_claim_def sg_advance_def sl_detach_def
    sg_finish_def op_publish_def op_post_def sg_next_def
  have "sg_step Posix 2 sg_waiting_demo s3"
    using sg_step.signal_handler [of sg_waiting_demo Posix 2] by (simp add: s3_def sg_demo_simps)
  moreover have "sg_step Posix 2 s3 s4" using sg_step.dispatch [of s3 Posix 2] by (simp add: s4_def s3_def sg_demo_simps)
  moreover have "sg_step Posix 2 s4 s5" unfolding s5_def by (rule sg_step.take) (simp add: s4_def)
  moreover have "sg_watchdog s5 = WdFinish 3 None" "fst (sg_finish 3 2 s5)" by (simp_all add: d sg_demo_simps)
  then have "sg_step Posix 2 s5 s7"
    using sg_step.finish [of s5 3 None 2 True s6] by (simp add: s7_def s6_def prod_eq_iff)
  moreover have "sg_step Posix 2 s7 s8" using sg_step.finish_deliver [of s7 3 None Posix 2] by (simp add: s8_def) (simp add: s7_def)
  moreover have "sg_step Posix 2 s8 sg_fired_demo"
    using sg_step.deliver [of s8 3 Posix 2]
    unfolding sg_fired_demo_def Let_def s3_def [symmetric] s4_def [symmetric] s5_def [symmetric] s6_def [symmetric]
      s7_def [symmetric] s8_def [symmetric]
    by (simp add: d sg_demo_simps)
  ultimately show ?thesis using sg_waiting_demo_reachable by (meson sg_reachable.step)
qed

text \<open>A waiter is completed at most once and truthfully. In every interleaving of starts, cancellations, signals and the
  watchdog no assertion fails, every receiver is called at most once, it is called with a signal number only if
  that signal has been delivered, and with that number.\<close>

lemma signal_wait_completes_once:
  assumes "sg_reachable os signum s" "0 < signum"
  shows "distinct (map fst (sg_calls s)) \<and> os_posts (sg_ops s a) \<le> 1 \<and> \<not> os_assert_failed (sg_ops s a) \<and>
    (if (a, SetValue v) \<in> set (sg_calls s) then v = signum \<and> sl_head (sg_list s) = SlPtr None else True)"
proof -
  obtain xs where inv: "sg_inv signum s xs" using sg_reachable_inv [OF assms] by blast
  then have "op_inv (sg_ops s a)" using sg_invD(4) [of signum s xs a] op_reachable_inv by (auto simp: sg_op_ok_def)
  then have "os_posts (sg_ops s a) \<le> 1" "\<not> os_assert_failed (sg_ops s a)"
    using op_posted_facts [of "sg_ops s a"] op_inv_cases(1) [of "sg_ops s a"] by (cases "os_posts (sg_ops s a) = 0"; auto)+
  then show ?thesis using sg_calls_inv [OF assms] by (auto split: if_splits)
qed

lemma sg_no_lost_waiter:
  assumes "sg_reachable os signum s" "0 < signum" "sg_watchdog s = WdPoll" "os_start (sg_ops s a) = SDone"
    "os_cancel (sg_ops s a) \<in> {CIdle, CDone}"
  shows "if os_registered (sg_ops s a) then sl_handler (sg_list s) \<and> sl_head (sg_list s) \<noteq> SlPtr None \<and> os_cancel (sg_ops s a) = CIdle
    else os_posts (sg_ops s a) = 1"
proof -
  obtain xs where inv: "sg_inv signum s xs" using sg_reachable_inv [OF assms(1,2)] by blast
  note op = sg_invD(4) [OF inv, of a]
  have o: "op_inv (sg_ops s a)" using op op_reachable_inv by (auto simp: sg_op_ok_def)
  have idle: "os_backend (sg_ops s a) \<in> {BIdle, BDone}"
    using op assms(3) by (cases "os_backend (sg_ops s a)") (auto simp: sg_op_ok_def sg_claimed_def wd_defs)
  show ?thesis
  proof (cases "os_registered (sg_ops s a)")
    case True
    then have "a \<in> set xs" using op by (auto simp: sg_op_ok_def)
    then have "sl_head (sg_list s) \<noteq> SlPtr None \<and> sl_first (sl_head (sg_list s)) \<noteq> None"
      using dl_rep_facts(2) [OF sg_invD(1) [OF inv]] assms(3) by (cases xs) (auto simp: sg_chain_def wd_defs split: if_splits)
    then have "sl_handler (sg_list s)" "sl_head (sg_list s) \<noteq> SlPtr None"
      using sg_invD(2) [OF inv] assms(3) by (auto simp: sg_list_ok_def)
    moreover have "os_cancel (sg_ops s a) = CIdle" using op_cancelled [OF o assms(4)] True assms(5) by blast
    ultimately show ?thesis using True by simp
  next
    case False
    then show ?thesis using op_quiet_posted [OF o assms(4,5) idle] by simp
  qed
qed

text \<open>C23. No waiter is forgotten. Whenever the watchdog is back in \<open>poll\<close>, a waiter whose \<open>start\<close> has returned and whose
  canceller is not in the middle of its work has been completed, or it is in the list, was not cancelled, the
  signal has not been delivered yet and the handler is installed.\<close>

theorem signal_wait_no_lost_waiter:
  assumes "sg_reachable os signum s" "0 < signum" "sg_watchdog s = WdPoll" "os_start (sg_ops s a) = SDone"
    "os_cancel (sg_ops s a) \<in> {CIdle, CDone}"
  shows "if os_registered (sg_ops s a) then sl_handler (sg_list s) \<and> sl_head (sg_list s) \<noteq> SlPtr None \<and> os_cancel (sg_ops s a) = CIdle
    else os_posts (sg_ops s a) = 1"
  by (rule sg_no_lost_waiter [OF assms])

theorem signal_wait_no_lost_waiter_witness:
  "sl_handler (sg_list sg_waiting_demo) \<and> os_posts (sg_ops sg_fired_demo 3) = 1"
proof -
  have "sg_watchdog sg_waiting_demo = WdPoll" "os_start (sg_ops sg_waiting_demo 3) = SDone"
    "os_cancel (sg_ops sg_waiting_demo 3) \<in> {CIdle, CDone}" "os_registered (sg_ops sg_waiting_demo 3)"
    by (simp_all add: sg_demo_simps)
  moreover have "sg_watchdog sg_fired_demo = WdPoll" "os_start (sg_ops sg_fired_demo 3) = SDone"
    "os_cancel (sg_ops sg_fired_demo 3) \<in> {CIdle, CDone}" "\<not> os_registered (sg_ops sg_fired_demo 3)"
    by (simp_all add: sg_fired_demo_def sg_pop_all_def sl_take_def sg_claim_def sg_advance_def sl_detach_def sg_finish_def
        op_publish_def op_post_def sg_next_def signal_deliver_def sg_demo_simps)
  ultimately show ?thesis
    using signal_wait_no_lost_waiter [OF sg_waiting_demo_reachable, of 3] signal_wait_no_lost_waiter [OF sg_fired_demo_reachable, of 3]
    by simp
qed

end
