(* ===== verification/Fifo.thy ===== *)
theory Fifo
  imports Async_Semaphore
begin

text \<open>
  \<open>fifo\<close> of \<open>include/coio/utils/fifo.h\<close>: a bounded queue for any number of producers and consumers. \<open>full_sema_\<close>
  counts the free places and \<open>empty_sema_\<close> the elements; a producer acquires the first, emplaces under \<open>mtx_\<close> and
  releases the second, a consumer the other way round. The two semaphores are those of \<open>Async_Semaphore\<close>, with all
  their transitions, their waiters being the operations of the queue.

  The underlying container is the list of its elements; \<open>max_count\<close> is the largest value of its \<open>size_type\<close>, \<open>cap\<close>
  its \<open>max_size()\<close>. \<open>ff_fault\<close> is a call of \<open>front()\<close> on the empty container. \<open>ff_pushed\<close> and \<open>ff_popped\<close> are ghosts.
\<close>

datatype 'a fifo_outcome = FfPushed | FfPopped 'a | FfStopped | FfRefused

datatype 'a fifo_pc =
    FfIdle
  | FfPush 'a          \<comment> \<open>acquiring \<open>full_sema_\<close>\<close>
  | FfEmplace 'a       \<comment> \<open>\<open>underlying_.emplace\<close> under the lock\<close>
  | FfEmptyRelease
  | FfPop              \<comment> \<open>acquiring \<open>empty_sema_\<close>\<close>
  | FfFront            \<comment> \<open>\<open>front()\<close> and \<open>pop()\<close> under the lock\<close>
  | FfFullRelease 'a
  | FfDone "'a fifo_outcome"

record 'a fifo =
  ff_items :: "'a list"
  ff_full :: semaphore
  ff_empty :: semaphore
  ff_pc :: "addr \<Rightarrow> 'a fifo_pc"
  ff_closed :: bool
  ff_fault :: bool
  ff_pushed :: "'a list"
  ff_popped :: "'a list"

definition fifo_new :: "int \<Rightarrow> 'a list \<Rightarrow> 'a fifo" where
  "fifo_new cap items = \<lparr>ff_items = items, ff_full = sm_new cap, ff_empty = sm_new (int (length items)),
     ff_pc = (\<lambda>_. FfIdle), ff_closed = False, ff_fault = False, ff_pushed = [], ff_popped = []\<rparr>"

definition ff_size :: "'a fifo \<Rightarrow> int" where
  "ff_size s = sm_counter (ff_empty s)"

definition ff_is_empty :: "'a fifo \<Rightarrow> bool" where
  "ff_is_empty s \<longleftrightarrow> ff_size s = 0"

definition ff_goto :: "addr \<Rightarrow> 'a fifo_pc \<Rightarrow> 'a fifo \<Rightarrow> 'a fifo" where
  "ff_goto a pc s = s\<lparr>ff_pc := (ff_pc s)(a := pc)\<rparr>"

text \<open>\<open>async_emplace\<close> and \<open>async_pop\<close>: a closed scope stops the operation before it starts.\<close>

definition ff_async_emplace :: "addr \<Rightarrow> 'a \<Rightarrow> 'a fifo \<Rightarrow> 'a fifo" where
  "ff_async_emplace a v s = ff_goto a (if ff_closed s then FfDone FfStopped else FfPush v) s"

definition ff_async_pop :: "addr \<Rightarrow> 'a fifo \<Rightarrow> 'a fifo" where
  "ff_async_pop a s = ff_goto a (if ff_closed s then FfDone FfStopped else FfPop) s"

definition ff_try_emplace :: "addr \<Rightarrow> 'a \<Rightarrow> 'a fifo \<Rightarrow> 'a fifo" where
  "ff_try_emplace a v s =
     (case sm_try_acquire (ff_full s) of
        (ok, f) \<Rightarrow> ff_goto a (if ok then FfEmplace v else FfDone FfRefused) (s\<lparr>ff_full := f\<rparr>))"

definition ff_try_pop :: "addr \<Rightarrow> 'a fifo \<Rightarrow> 'a fifo" where
  "ff_try_pop a s =
     (case sm_try_acquire (ff_empty s) of
        (ok, e) \<Rightarrow> ff_goto a (if ok then FfFront else FfDone FfRefused) (s\<lparr>ff_empty := e\<rparr>))"

definition ff_emplace :: "addr \<Rightarrow> 'a \<Rightarrow> 'a fifo \<Rightarrow> 'a fifo" where
  "ff_emplace a v s = ff_goto a FfEmptyRelease (s\<lparr>ff_items := ff_items s @ [v], ff_pushed := ff_pushed s @ [v]\<rparr>)"

definition ff_front :: "addr \<Rightarrow> 'a fifo \<Rightarrow> 'a fifo" where
  "ff_front a s =
     (case ff_items s of
        [] \<Rightarrow> s\<lparr>ff_fault := True\<rparr>
      | x # xs \<Rightarrow> ff_goto a (FfFullRelease x) (s\<lparr>ff_items := xs, ff_popped := ff_popped s @ [x]\<rparr>))"

definition ff_empty_release :: "int \<Rightarrow> addr \<Rightarrow> 'a fifo \<Rightarrow> 'a fifo" where
  "ff_empty_release max_count a s = ff_goto a (FfDone FfPushed) (s\<lparr>ff_empty := sm_release max_count (ff_empty s)\<rparr>)"

definition ff_full_release :: "int \<Rightarrow> addr \<Rightarrow> 'a \<Rightarrow> 'a fifo \<Rightarrow> 'a fifo" where
  "ff_full_release max_count a x s =
     ff_goto a (FfDone (FfPopped x)) (s\<lparr>ff_full := sm_release max_count (ff_full s)\<rparr>)"

text \<open>The transitions of an acquire operation until it is granted a unit or stopped.\<close>

inductive sm_waits :: "addr \<Rightarrow> semaphore \<Rightarrow> semaphore \<Rightarrow> bool" for a where
  request_stop: "sm_waits a s (sm_request_stop a s)"
| start: "sm_pc s a = QIdle \<Longrightarrow> sm_waits a s (sm_start a s)"
| emplace: "sm_pc s a = QChecked \<Longrightarrow> sm_waits a s (sm_emplace a s)"
| start_locked: "sm_pc s a = QRegistered \<Longrightarrow> sm_waits a s (sm_start_locked a s)"
| on_stop_requested: "sm_cb s a = CbRunning \<Longrightarrow> sm_waits a s (sm_on_stop_requested a s)"
| stopping: "sm_pc s a = QStopping \<Longrightarrow> sm_cb s a \<noteq> CbRunning \<Longrightarrow> sm_waits a s (sm_complete a AcqStopped s)"

inductive fifo_step :: "int \<Rightarrow> 'a fifo \<Rightarrow> 'a fifo \<Rightarrow> bool" for max_count where
  async_emplace: "ff_pc s a = FfIdle \<Longrightarrow> fifo_step max_count s (ff_async_emplace a v s)"
| async_pop: "ff_pc s a = FfIdle \<Longrightarrow> fifo_step max_count s (ff_async_pop a s)"
| try_emplace: "ff_pc s a = FfIdle \<Longrightarrow> fifo_step max_count s (ff_try_emplace a v s)"
| try_pop: "ff_pc s a = FfIdle \<Longrightarrow> fifo_step max_count s (ff_try_pop a s)"
| push_waits: "ff_pc s a = FfPush v \<Longrightarrow> sm_waits a (ff_full s) f \<Longrightarrow> fifo_step max_count s (s\<lparr>ff_full := f\<rparr>)"
| push_stopped: "ff_pc s a = FfPush v \<Longrightarrow> sm_pc (ff_full s) a = QDone \<Longrightarrow> fifo_step max_count s (ff_goto a (FfDone FfStopped) s)"
| push_acquired: "ff_pc s a = FfPush v \<Longrightarrow> sm_pc (ff_full s) a = QGranted \<Longrightarrow> sm_cb (ff_full s) a \<noteq> CbRunning \<Longrightarrow>
    fifo_step max_count s (ff_goto a (FfEmplace v) (s\<lparr>ff_full := sm_complete a AcqValue (ff_full s)\<rparr>))"
| emplace: "ff_pc s a = FfEmplace v \<Longrightarrow> fifo_step max_count s (ff_emplace a v s)"
| empty_release: "ff_pc s a = FfEmptyRelease \<Longrightarrow> \<not> sm_terminated (ff_empty s) \<Longrightarrow>
    fifo_step max_count s (ff_empty_release max_count a s)"
| pop_waits: "ff_pc s a = FfPop \<Longrightarrow> sm_waits a (ff_empty s) e \<Longrightarrow> fifo_step max_count s (s\<lparr>ff_empty := e\<rparr>)"
| pop_stopped: "ff_pc s a = FfPop \<Longrightarrow> sm_pc (ff_empty s) a = QDone \<Longrightarrow> fifo_step max_count s (ff_goto a (FfDone FfStopped) s)"
| pop_acquired: "ff_pc s a = FfPop \<Longrightarrow> sm_pc (ff_empty s) a = QGranted \<Longrightarrow> sm_cb (ff_empty s) a \<noteq> CbRunning \<Longrightarrow>
    fifo_step max_count s (ff_goto a FfFront (s\<lparr>ff_empty := sm_complete a AcqValue (ff_empty s)\<rparr>))"
| front: "ff_pc s a = FfFront \<Longrightarrow> fifo_step max_count s (ff_front a s)"
| full_release: "ff_pc s a = FfFullRelease x \<Longrightarrow> \<not> sm_terminated (ff_full s) \<Longrightarrow>
    fifo_step max_count s (ff_full_release max_count a x s)"
| close: "fifo_step max_count s (s\<lparr>ff_closed := True\<rparr>)"

inductive fifo_reachable :: "int \<Rightarrow> int \<Rightarrow> 'a list \<Rightarrow> 'a fifo \<Rightarrow> bool" for max_count cap items where
  new: "fifo_reachable max_count cap items (fifo_new cap items)"
| step: "fifo_reachable max_count cap items s \<Longrightarrow> fifo_step max_count s t \<Longrightarrow> fifo_reachable max_count cap items t"

section \<open>Units of a semaphore that have been passed on\<close>

text \<open>How many objects have a label with the property \<open>P\<close>.\<close>

definition labelled :: "('b \<Rightarrow> bool) \<Rightarrow> (addr \<Rightarrow> 'b) \<Rightarrow> nat \<Rightarrow> bool" where
  "labelled P f n \<longleftrightarrow> finite {a. P (f a)} \<and> card {a. P (f a)} = n"

lemma labelled_same: "labelled P f n \<Longrightarrow> P y = P (f a) \<Longrightarrow> labelled P (f(a := y)) n"
proof -
  assume "labelled P f n" "P y = P (f a)"
  moreover from this have "{b. P ((f(a := y)) b)} = {b. P (f b)}" by auto
  ultimately show ?thesis by (simp only: labelled_def)
qed

lemma labelled_more: "labelled P f n \<Longrightarrow> P y \<Longrightarrow> \<not> P (f a) \<Longrightarrow> labelled P (f(a := y)) (Suc n)"
proof -
  assume "labelled P f n" "P y" "\<not> P (f a)"
  moreover from this have "{b. P ((f(a := y)) b)} = insert a {b. P (f b)}" by auto
  ultimately show ?thesis by (simp only: labelled_def) simp
qed

lemma labelled_less: "labelled P f n \<Longrightarrow> \<not> P y \<Longrightarrow> P (f a) \<Longrightarrow> labelled P (f(a := y)) (n - 1) \<and> 0 < n"
proof -
  assume l: "labelled P f n" "\<not> P y" "P (f a)"
  moreover from this have "{b. P ((f(a := y)) b)} = {b. P (f b)} - {a}" by auto
  moreover have "0 < card {b. P (f b)}" using l by (auto simp: labelled_def card_gt_0_iff)
  ultimately show ?thesis by (simp only: labelled_def) (simp add: card_Diff_singleton_if)
qed

lemma labelled_none: "\<not> P y \<Longrightarrow> labelled P (\<lambda>_. y) 0"
  by (simp add: labelled_def)

text \<open>\<open>k\<close> units have left the semaphore: they were granted and are not held by an operation that is still to be
  completed.\<close>

definition sm_left :: "semaphore \<Rightarrow> nat \<Rightarrow> bool" where
  "sm_left s k \<longleftrightarrow> (\<exists>g. labelled (\<lambda>pc. pc = QGranted) (sm_pc s) g \<and> sm_grants s = k + g)"

lemma sm_left_new: "sm_left (sm_new init) 0"
  by (simp add: sm_left_def sm_new_def labelled_none)

lemma sm_left_goto:
  assumes "sm_left s k" "sm_pc t = (sm_pc s)(a := pc)" "sm_grants t = sm_grants s" "(pc = QGranted) = (sm_pc s a = QGranted)"
  shows "sm_left t k"
proof -
  obtain g where "labelled (\<lambda>pc. pc = QGranted) (sm_pc s) g" "sm_grants s = k + g" using assms(1) by (auto simp: sm_left_def)
  then show ?thesis using labelled_same [of "\<lambda>pc. pc = QGranted" "sm_pc s" g pc a] assms(2-4) by (auto simp: sm_left_def)
qed

lemma sm_left_grant:
  assumes "sm_left s k" "sm_pc t = (sm_pc s)(a := QGranted)" "sm_grants t = sm_grants s + 1" "sm_pc s a \<noteq> QGranted"
  shows "sm_left t k"
proof -
  obtain g where "labelled (\<lambda>pc. pc = QGranted) (sm_pc s) g" "sm_grants s = k + g" using assms(1) by (auto simp: sm_left_def)
  then show ?thesis
    using labelled_more [of "\<lambda>pc. pc = QGranted" "sm_pc s" g QGranted a] assms(2-4) by (auto simp: sm_left_def intro: exI [of _ "Suc g"])
qed

lemma sm_left_complete:
  assumes "sm_left s k" "sm_pc s a = QGranted"
  shows "sm_left (sm_complete a r s) (Suc k)"
proof -
  obtain g where "labelled (\<lambda>pc. pc = QGranted) (sm_pc s) g" "sm_grants s = k + g" using assms(1) by (auto simp: sm_left_def)
  then show ?thesis
    using labelled_less [of "\<lambda>pc. pc = QGranted" "sm_pc s" g QDone a] assms(2)
    by (auto simp: sm_left_def sm_complete_def sm_goto_def intro: exI [of _ "g - 1"])
qed

lemma sm_left_try: "sm_left s k \<Longrightarrow> sm_left (snd (sm_try_acquire s)) (if fst (sm_try_acquire s) then Suc k else k)"
  by (auto simp: sm_left_def sm_try_acquire_def)

lemma sm_left_release:
  assumes l: "sm_labels s xs" and k: "sm_left s k"
  shows "sm_left (sm_release m s) k"
proof (cases "wt_head (sm_waiters s)")
  case None
  then show ?thesis using k by (simp add: sm_left_def sm_release_def)
next
  case (Some h)
  then have "h \<in> set xs" using wt_rep_head [OF sm_labelsD(1) [OF l]] by (cases xs) auto
  then have "sm_pc s h \<noteq> QGranted" using sm_labels_waiting [OF l, of h] by simp
  then show ?thesis using Some by (intro sm_left_grant [OF k, of _ h]) (simp_all add: sm_release_def sm_goto_def)
qed

lemma sm_waits_step: "sm_waits a s t \<Longrightarrow> sm_step m s t"
  by (induction rule: sm_waits.induct) (blast intro: sm_step.intros)+

lemma sm_left_waits:
  assumes w: "sm_waits a s t" and l: "sm_labels s xs" and k: "sm_left s k"
  shows "sm_left t k \<and> sm_releases t = sm_releases s \<and> sm_terminated t = sm_terminated s"
  using w
proof cases
  case request_stop
  then show ?thesis using k by (simp add: sm_left_def sm_request_stop_def)
next
  case start
  then show ?thesis
    using sm_left_goto [OF k, of t a QChecked] sm_left_goto [OF k, of t a QDone]
    by (simp add: sm_start_def sm_goto_def sm_complete_def split: if_splits)
next
  case emplace
  then show ?thesis by (auto simp: sm_emplace_def sm_goto_def intro!: sm_left_goto [OF k, of _ a QRegistered])
next
  case start_locked
  then show ?thesis
    using sm_left_goto [OF k, of t a QStopping] sm_left_goto [OF k, of t a QWaiting] sm_left_grant [OF k, of t a]
    by (simp add: sm_start_locked_def sm_try_acquire_def sm_goto_def split: if_splits)
next
  case on_stop_requested
  show ?thesis
  proof (cases "a \<in> set xs")
    case True
    then have "sm_pc s a = QWaiting" using sm_labels_waiting [OF l, of a] by simp
    then show ?thesis using on_stop_requested(1) k sm_left_goto [OF k, of t a QDone]
      by (cases "wt_unregister a (sm_waiters s)"; cases "fst (wt_unregister a (sm_waiters s))")
        (simp_all add: sm_on_stop_requested_def sm_complete_def sm_goto_def sm_left_def)
  next
    case False
    then have "wt_unregister a (sm_waiters s) = (False, sm_waiters s)"
      by (rule wt_rep_unregister_absent [OF sm_labelsD(1) [OF l]])
    then show ?thesis using on_stop_requested(1) k by (simp add: sm_on_stop_requested_def sm_left_def)
  qed
next
  case stopping
  then show ?thesis by (auto simp: sm_goto_def sm_complete_def intro!: sm_left_goto [OF k, of _ a QDone])
qed

section \<open>The invariant\<close>

text \<open>The state of one semaphore: it started with \<open>init\<close> units, \<open>k\<close> have left it, \<open>r\<close> were released.\<close>

definition sm_account :: "int \<Rightarrow> int \<Rightarrow> semaphore \<Rightarrow> nat \<Rightarrow> nat \<Rightarrow> bool" where
  "sm_account m init s k r \<longleftrightarrow> (\<exists>xs. sm_labels s xs \<and> sm_counts m init s xs) \<and> sm_left s k \<and> sm_releases s = r \<and> \<not> sm_terminated s"

lemma sm_account_new: "0 \<le> init \<Longrightarrow> init \<le> m \<Longrightarrow> sm_account m init (sm_new init) 0 0"
  using sm_reachable_inv [OF sm_reachable.new] by (auto simp: sm_account_def sm_left_new) (simp_all add: sm_new_def)

lemma sm_account_waits: "sm_account m init s k r \<Longrightarrow> sm_waits a s t \<Longrightarrow> sm_account m init t k r"
  using sm_left_waits sm_step_inv [OF sm_waits_step] unfolding sm_account_def by metis

lemma sm_account_complete:
  assumes "sm_account m init s k r" "sm_pc s a = QGranted" "sm_cb s a \<noteq> CbRunning"
  shows "sm_account m init (sm_complete a AcqValue s) (Suc k) r"
  using assms sm_left_complete [of s k a AcqValue] sm_step_inv [OF sm_step.complete [OF assms(2,3)]]
  by (auto simp: sm_account_def) (simp_all add: sm_complete_def sm_goto_def)

lemma sm_account_try:
  assumes "sm_account m init s k r"
  shows "sm_account m init (snd (sm_try_acquire s)) (if fst (sm_try_acquire s) then Suc k else k) r"
proof -
  obtain xs where "sm_labels s xs" "sm_counts m init s xs" "sm_left s k" using assms by (auto simp: sm_account_def)
  then show ?thesis
    using assms sm_left_try [of s k] sm_labels_try [of s xs] sm_counts_try [of m init s xs] unfolding sm_account_def
    by (auto simp: sm_try_acquire_def)
qed

text \<open>A release does not overflow while fewer units have come back than have left.\<close>

lemma sm_account_release:
  assumes acc: "sm_account m init s k r" and less: "init + int r < m + int k"
  shows "sm_account m init (sm_release m s) k (Suc r)"
proof -
  obtain xs where l: "sm_labels s xs" and c: "sm_counts m init s xs" and k: "sm_left s k" "sm_releases s = r" "\<not> sm_terminated s"
    using acc by (auto simp: sm_account_def)
  have "sm_counter s < m" using c k less by (auto simp: sm_counts_def sm_left_def)
  then have "sm_releases (sm_release m s) = Suc r" "\<not> sm_terminated (sm_release m s)"
    using k by (simp_all add: sm_release_def sm_goto_def split: option.split)
  then show ?thesis using sm_labels_release [OF l] sm_counts_release [OF l c] sm_left_release [OF l k(1)] by (auto simp: sm_account_def)
qed

lemma sm_account_bound:
  assumes "sm_account m init s k r"
  shows "int k \<le> init + int r"
proof -
  obtain xs where "sm_counts m init s xs" "sm_left s k" "sm_releases s = r" using assms by (auto simp: sm_account_def)
  then show ?thesis by (auto simp: sm_counts_def sm_left_def)
qed

lemma labelled_upd:
  assumes "labelled P f n"
  shows "labelled P (f(a := y)) (n + of_bool (P y) - of_bool (P (f a)))" "P (f a) \<Longrightarrow> 0 < n"
proof -
  show "labelled P (f(a := y)) (n + of_bool (P y) - of_bool (P (f a)))"
    using labelled_same [OF assms, of y a] labelled_more [OF assms, of y a] labelled_less [OF assms, of y a]
    by (cases "P y"; cases "P (f a)") simp_all
  assume "P (f a)"
  then show "0 < n" using assms card_gt_0_iff [of "{a. P (f a)}"] unfolding labelled_def by blast
qed

fun ff_emplacing :: "'a fifo_pc \<Rightarrow> bool" where
  "ff_emplacing (FfEmplace _) = True"
| "ff_emplacing _ = False"

fun ff_pushing :: "'a fifo_pc \<Rightarrow> bool" where
  "ff_pushing FfEmptyRelease = True"
| "ff_pushing _ = False"

fun ff_fronting :: "'a fifo_pc \<Rightarrow> bool" where
  "ff_fronting FfFront = True"
| "ff_fronting _ = False"

fun ff_popping :: "'a fifo_pc \<Rightarrow> bool" where
  "ff_popping (FfFullRelease _) = True"
| "ff_popping _ = False"

text \<open>The operations inside their critical sections, and the units they hold.\<close>

definition ff_inv :: "int \<Rightarrow> int \<Rightarrow> 'a fifo \<Rightarrow> nat \<Rightarrow> nat \<Rightarrow> nat \<Rightarrow> nat \<Rightarrow> bool" where
  "ff_inv m cap s e er f fr \<longleftrightarrow>
     labelled ff_emplacing (ff_pc s) e \<and> labelled ff_pushing (ff_pc s) er \<and>
     labelled ff_fronting (ff_pc s) f \<and> labelled ff_popping (ff_pc s) fr \<and>
     er \<le> length (ff_pushed s) \<and> fr \<le> length (ff_popped s) \<and>
     sm_account m cap (ff_full s) (length (ff_pushed s) + e) (length (ff_popped s) - fr) \<and>
     sm_account m 0 (ff_empty s) (length (ff_popped s) + f) (length (ff_pushed s) - er) \<and>
     ff_popped s @ ff_items s = ff_pushed s \<and> \<not> ff_fault s"

lemma ff_goto_simps [simp]:
  "ff_items (ff_goto a pc s) = ff_items s" "ff_full (ff_goto a pc s) = ff_full s" "ff_empty (ff_goto a pc s) = ff_empty s"
  "ff_pushed (ff_goto a pc s) = ff_pushed s" "ff_popped (ff_goto a pc s) = ff_popped s" "ff_fault (ff_goto a pc s) = ff_fault s"
  "ff_pc (ff_goto a pc s) = (ff_pc s)(a := pc)"
  by (simp_all add: ff_goto_def)

lemma ff_inv_new: "0 \<le> cap \<Longrightarrow> cap \<le> m \<Longrightarrow> ff_inv m cap (fifo_new cap []) 0 0 0 0"
  by (simp add: ff_inv_def fifo_new_def labelled_none sm_account_new)

lemma ff_invD:
  assumes "ff_inv m cap s e er f fr"
  shows "sm_account m cap (ff_full s) (length (ff_pushed s) + e) (length (ff_popped s) - fr)"
    "sm_account m 0 (ff_empty s) (length (ff_popped s) + f) (length (ff_pushed s) - er)"
    "length (ff_pushed s) = length (ff_popped s) + length (ff_items s)" "fr \<le> length (ff_popped s)" "er \<le> length (ff_pushed s)"
  using assms by (auto simp: ff_inv_def dest: arg_cong [where f = length])

text \<open>The accounts bound the contents.\<close>

lemma ff_bounds:
  assumes "ff_inv m cap s e er f fr"
  shows "int (length (ff_items s)) + int e + int fr \<le> cap" "f + er \<le> length (ff_items s)"
  using sm_account_bound [OF ff_invD(1) [OF assms]] sm_account_bound [OF ff_invD(2) [OF assms]] ff_invD(3-5) [OF assms]
  by (simp_all add: of_nat_diff)

text \<open>A move of the operation \<open>a\<close>, as it changes the numbers.\<close>

lemma ff_labels:
  assumes "ff_inv m cap s e er f fr" "ff_pc t = (ff_pc s)(a := pc)"
  shows "labelled ff_emplacing (ff_pc t) (e + of_bool (ff_emplacing pc) - of_bool (ff_emplacing (ff_pc s a)))"
    "labelled ff_pushing (ff_pc t) (er + of_bool (ff_pushing pc) - of_bool (ff_pushing (ff_pc s a)))"
    "labelled ff_fronting (ff_pc t) (f + of_bool (ff_fronting pc) - of_bool (ff_fronting (ff_pc s a)))"
    "labelled ff_popping (ff_pc t) (fr + of_bool (ff_popping pc) - of_bool (ff_popping (ff_pc s a)))"
    "ff_emplacing (ff_pc s a) \<Longrightarrow> 0 < e" "ff_pushing (ff_pc s a) \<Longrightarrow> 0 < er" "ff_fronting (ff_pc s a) \<Longrightarrow> 0 < f"
    "ff_popping (ff_pc s a) \<Longrightarrow> 0 < fr"
  using assms labelled_upd(1) [of ff_emplacing "ff_pc s" e a pc] labelled_upd(1) [of ff_pushing "ff_pc s" er a pc]
    labelled_upd(1) [of ff_fronting "ff_pc s" f a pc] labelled_upd(1) [of ff_popping "ff_pc s" fr a pc]
    labelled_upd(2) [of ff_emplacing "ff_pc s" e a] labelled_upd(2) [of ff_pushing "ff_pc s" er a]
    labelled_upd(2) [of ff_fronting "ff_pc s" f a] labelled_upd(2) [of ff_popping "ff_pc s" fr a]
  by (simp_all add: ff_inv_def)

lemma ff_step_inv:
  assumes inv: "ff_inv m cap s e er f fr" and step: "fifo_step m s t" and cap: "0 \<le> cap" "cap \<le> m"
  shows "\<exists>e er f fr. ff_inv m cap t e er f fr"
  using step
proof cases
  case (async_emplace a v)
  then have "ff_inv m cap t e er f fr"
    using inv ff_labels(1-4) [OF inv, of t a "if ff_closed s then FfDone FfStopped else FfPush v"]
    by (simp add: ff_inv_def ff_async_emplace_def split: if_splits)
  then show ?thesis by blast
next
  case (async_pop a)
  then have "ff_inv m cap t e er f fr"
    using inv ff_labels(1-4) [OF inv, of t a "if ff_closed s then FfDone FfStopped else FfPop"]
    by (simp add: ff_inv_def ff_async_pop_def split: if_splits)
  then show ?thesis by blast
next
  case (try_emplace a v)
  let ?ok = "fst (sm_try_acquire (ff_full s))"
  have "ff_inv m cap t (if ?ok then Suc e else e) er f fr"
    using inv try_emplace ff_labels(1-4) [OF inv, of t a "if ?ok then FfEmplace v else FfDone FfRefused"]
      sm_account_try [of m cap "ff_full s" "length (ff_pushed s) + e" "length (ff_popped s) - fr"]
    by (cases "sm_try_acquire (ff_full s)") (simp add: ff_inv_def ff_try_emplace_def split: if_splits)
  then show ?thesis by blast
next
  case (try_pop a)
  let ?ok = "fst (sm_try_acquire (ff_empty s))"
  have "ff_inv m cap t e er (if ?ok then Suc f else f) fr"
    using inv try_pop ff_labels(1-4) [OF inv, of t a "if ?ok then FfFront else FfDone FfRefused"]
      sm_account_try [of m 0 "ff_empty s" "length (ff_popped s) + f" "length (ff_pushed s) - er"]
    by (cases "sm_try_acquire (ff_empty s)") (simp add: ff_inv_def ff_try_pop_def split: if_splits)
  then show ?thesis by blast
next
  case (push_waits a v g)
  then have "ff_inv m cap t e er f fr" using inv by (auto simp: ff_inv_def intro: sm_account_waits)
  then show ?thesis by blast
next
  case (push_stopped a v)
  then have "ff_inv m cap t e er f fr" using inv ff_labels(1-4) [OF inv, of t a "FfDone FfStopped"] by (simp add: ff_inv_def)
  then show ?thesis by blast
next
  case (push_acquired a v)
  then have "ff_inv m cap t (Suc e) er f fr"
    using inv ff_labels(1-4) [OF inv, of t a "FfEmplace v"] sm_account_complete [OF _ push_acquired(3,4)]
    by (simp add: ff_inv_def)
  then show ?thesis by blast
next
  case (emplace a v)
  then have "ff_inv m cap t (e - 1) (Suc er) f fr"
    using inv ff_labels [OF inv, of t a FfEmptyRelease]
    by (simp add: ff_inv_def ff_emplace_def append_assoc [symmetric] del: append_assoc)
  then show ?thesis by blast
next
  case (empty_release a)
  have er: "0 < er" using ff_labels(6) [OF inv, of t a "FfDone FfPushed"] empty_release by (simp add: ff_empty_release_def)
  then have "sm_account m 0 (sm_release m (ff_empty s)) (length (ff_popped s) + f) (Suc (length (ff_pushed s) - er))"
    using ff_invD(2-5) [OF inv] ff_bounds(1) [OF inv] cap by (intro sm_account_release) simp_all
  then have "ff_inv m cap t e (er - 1) f fr"
    using inv er empty_release ff_labels(1-4) [OF inv, of t a "FfDone FfPushed"]
    by (simp add: ff_inv_def ff_empty_release_def Suc_diff_le le_diff_conv)
  then show ?thesis by blast
next
  case (pop_waits a g)
  then have "ff_inv m cap t e er f fr" using inv by (auto simp: ff_inv_def intro: sm_account_waits)
  then show ?thesis by blast
next
  case (pop_stopped a)
  then have "ff_inv m cap t e er f fr" using inv ff_labels(1-4) [OF inv, of t a "FfDone FfStopped"] by (simp add: ff_inv_def)
  then show ?thesis by blast
next
  case (pop_acquired a)
  then have "ff_inv m cap t e er (Suc f) fr"
    using inv ff_labels(1-4) [OF inv, of t a FfFront] sm_account_complete [OF _ pop_acquired(3,4)]
    by (simp add: ff_inv_def)
  then show ?thesis by blast
next
  case (front a)
  have f: "0 < f" using ff_labels(7) [OF inv, of "ff_goto a FfFront s" a FfFront] front(2) by simp
  then obtain x xs where xs: "ff_items s = x # xs" using ff_bounds(2) [OF inv] by (cases "ff_items s") auto
  then have "ff_inv m cap t e er (f - 1) (Suc fr)"
    using inv f front ff_labels(1-4) [OF inv, of t a "FfFullRelease x"] by (simp add: ff_inv_def ff_front_def)
  then show ?thesis by blast
next
  case (full_release a x)
  have fr: "0 < fr" using ff_labels(8) [OF inv, of t a "FfDone (FfPopped x)"] full_release by (simp add: ff_full_release_def)
  then have "sm_account m cap (sm_release m (ff_full s)) (length (ff_pushed s) + e) (Suc (length (ff_popped s) - fr))"
    using ff_invD(1,3-5) [OF inv] cap by (intro sm_account_release) simp_all
  then have "ff_inv m cap t e er f (fr - 1)"
    using inv fr full_release ff_labels(1-4) [OF inv, of t a "FfDone (FfPopped x)"]
    by (simp add: ff_inv_def ff_full_release_def Suc_diff_le le_diff_conv)
  then show ?thesis by blast
next
  case close
  then have "ff_inv m cap t e er f fr" using inv by (simp add: ff_inv_def)
  then show ?thesis by blast
qed

lemma ff_reachable_inv:
  assumes "fifo_reachable m cap [] s" "0 \<le> cap" "cap \<le> m"
  shows "\<exists>e er f fr. ff_inv m cap s e er f fr"
  using assms(1)
proof (induction rule: fifo_reachable.induct)
  case new
  then show ?case using ff_inv_new assms(2,3) by blast
next
  case (step s t)
  then show ?case using ff_step_inv assms(2,3) by blast
qed

section \<open>Properties\<close>

text \<open>The labels of operations that are outside their critical sections.\<close>

fun ff_outside :: "'a fifo_pc \<Rightarrow> bool" where
  "ff_outside (FfEmplace _) = False"
| "ff_outside FfEmptyRelease = False"
| "ff_outside FfFront = False"
| "ff_outside (FfFullRelease _) = False"
| "ff_outside _ = True"

lemma ff_quiet:
  assumes inv: "ff_inv m cap s e er f fr" and q: "\<And>a. ff_outside (ff_pc s a)"
  shows "e = 0" "er = 0" "f = 0" "fr = 0"
proof -
  have "\<not> ff_emplacing (ff_pc s a) \<and> \<not> ff_pushing (ff_pc s a) \<and> \<not> ff_fronting (ff_pc s a) \<and> \<not> ff_popping (ff_pc s a)" for a
    using q [of a] by (cases "ff_pc s a") simp_all
  then show "e = 0" "er = 0" "f = 0" "fr = 0" using inv by (simp_all add: ff_inv_def labelled_def)
qed

text \<open>While somebody waits for a semaphore and nobody has been granted a unit that it has not taken, all units are out.\<close>

lemma sm_account_waiting:
  assumes acc: "sm_account m init s k r" and "\<And>a. sm_pc s a \<noteq> QGranted" "sm_pc s b = QWaiting"
  shows "int k = init + int r"
proof -
  obtain xs where l: "sm_labels s xs" and c: "sm_counts m init s xs" and k: "sm_left s k" "sm_releases s = r"
    using acc by (auto simp: sm_account_def)
  have "b \<in> set xs" using sm_labels_waiting [OF l, of b] assms(3) by simp
  then have "sm_counter s = 0" using c by (auto simp: sm_counts_def)
  moreover have "sm_grants s = k" using k(1) assms(2) by (auto simp: sm_left_def labelled_def)
  ultimately show ?thesis using c k(2) by (simp add: sm_counts_def)
qed


text \<open>A producer pushes 7, another one waits for the only place.\<close>

definition fifo_demo :: "nat fifo" where
  "fifo_demo =
     (let s1 = ff_try_emplace 1 7 (fifo_new 1 []); s2 = ff_emplace 1 7 s1; s3 = ff_empty_release 9 1 s2;
          s4 = ff_async_emplace 2 8 s3
      in s4\<lparr>ff_full := sm_start_locked 2 (sm_emplace 2 (sm_start 2 (ff_full s4)))\<rparr>)"

lemmas fifo_op_defs = ff_try_emplace_def ff_emplace_def ff_empty_release_def ff_async_emplace_def fifo_new_def ff_goto_def
  ff_try_pop_def ff_front_def ff_full_release_def Let_def

lemma fifo_demo_reachable: "fifo_reachable 9 1 [] fifo_demo"
proof -
  define s1 where "s1 = ff_try_emplace 1 (7 :: nat) (fifo_new 1 [])"
  define s2 where "s2 = ff_emplace 1 7 s1"
  define s3 where "s3 = ff_empty_release 9 1 s2"
  define s4 where "s4 = ff_async_emplace 2 8 s3"
  define s5 where "s5 = s4\<lparr>ff_full := sm_start 2 (ff_full s4)\<rparr>"
  define s6 where "s6 = s5\<lparr>ff_full := sm_emplace 2 (ff_full s5)\<rparr>"
  note d = s6_def s5_def s4_def s3_def s2_def s1_def fifo_op_defs sm_action_defs sm_new_def wt_empty_def
  have "fifo_step 9 (fifo_new 1 []) s1" unfolding s1_def by (rule fifo_step.try_emplace) (simp add: fifo_new_def)
  moreover have "fifo_step 9 s1 s2" unfolding s2_def by (rule fifo_step.emplace) (simp add: d)
  moreover have "fifo_step 9 s2 s3" unfolding s3_def by (rule fifo_step.empty_release) (simp_all add: d)
  moreover have "fifo_step 9 s3 s4" unfolding s4_def by (rule fifo_step.async_emplace) (simp add: d)
  moreover have "fifo_step 9 s4 s5" unfolding s5_def
    by (rule fifo_step.push_waits [of s4 2 8], simp add: d, rule sm_waits.start) (simp add: d)
  moreover have "fifo_step 9 s5 s6" unfolding s6_def
    by (rule fifo_step.push_waits [of s5 2 8], simp add: d, rule sm_waits.emplace) (simp add: d)
  moreover have "fifo_step 9 s6 (s6\<lparr>ff_full := sm_start_locked 2 (ff_full s6)\<rparr>)"
    by (rule fifo_step.push_waits [of s6 2 8], simp add: d, rule sm_waits.start_locked) (simp add: d)
  ultimately have "fifo_reachable 9 1 [] (s6\<lparr>ff_full := sm_start_locked 2 (ff_full s6)\<rparr>)"
    by (meson fifo_reachable.intros)
  moreover have "s6\<lparr>ff_full := sm_start_locked 2 (ff_full s6)\<rparr> = fifo_demo"
    unfolding fifo_demo_def Let_def s1_def [symmetric] s2_def [symmetric] s3_def [symmetric] s4_def [symmetric]
    by (simp add: s6_def s5_def)
  ultimately show ?thesis by simp
qed


text \<open>The constructors that fill the container do not take its elements off \<open>full_sema_\<close>. A queue with one place that
  starts with an element accepts another one, and holds two; and when the container has no limit of its own, so that
  \<open>max_size()\<close> is the largest count, removing an initial element terminates the program.\<close>

lemma fifo_initial_elements_overflow:
  "(\<exists>s. fifo_reachable 9 1 [7 :: nat] s \<and> ff_items s = [7, 8] \<and> ff_pc s 1 = FfDone FfPushed) \<and>
   (\<exists>s. fifo_reachable 9 9 [7 :: nat] s \<and> sm_terminated (ff_full s))"
proof -
  define s1 where "s1 = ff_try_emplace 1 (8 :: nat) (fifo_new 1 [7])"
  define s2 where "s2 = ff_emplace 1 8 s1"
  define s3 where "s3 = ff_empty_release 9 1 s2"
  define u1 where "u1 = ff_try_pop 1 (fifo_new 9 [7 :: nat])"
  define u2 where "u2 = ff_front 1 u1"
  define u3 where "u3 = ff_full_release 9 1 7 u2"
  note d = s3_def s2_def s1_def u3_def u2_def u1_def fifo_op_defs sm_action_defs sm_new_def wt_empty_def
  have "fifo_step 9 (fifo_new 1 [7]) s1" unfolding s1_def by (rule fifo_step.try_emplace) (simp add: fifo_new_def)
  moreover have "fifo_step 9 s1 s2" unfolding s2_def by (rule fifo_step.emplace) (simp add: d)
  moreover have "fifo_step 9 s2 s3" unfolding s3_def by (rule fifo_step.empty_release) (simp_all add: d)
  ultimately have "fifo_reachable 9 1 [7] s3" by (meson fifo_reachable.intros)
  moreover have "ff_items s3 = [7, 8]" "ff_pc s3 1 = FfDone FfPushed" by (simp_all add: d)
  moreover have "fifo_step 9 (fifo_new 9 [7]) u1" unfolding u1_def by (rule fifo_step.try_pop) (simp add: fifo_new_def)
  moreover have "fifo_step 9 u1 u2" unfolding u2_def by (rule fifo_step.front) (simp add: d)
  moreover have "fifo_step 9 u2 u3" unfolding u3_def by (rule fifo_step.full_release) (simp_all add: d)
  ultimately have "fifo_reachable 9 1 [7] s3" "fifo_reachable 9 9 [7] u3" by (meson fifo_reachable.intros)+
  moreover have "sm_terminated (ff_full u3)" by (simp add: d)
  ultimately show ?thesis using \<open>ff_items s3 = [7, 8]\<close> \<open>ff_pc s3 1 = FfDone FfPushed\<close> by blast
qed

end
