(* ===== verification/Generator.thy ===== *)
theory Generator
  imports Prelude
begin

text \<open>
  \<open>generator\<close> of \<open>include/coio/generator.h\<close>: a coroutine that yields a sequence, whose body may yield all the elements
  of another generator or of a range in one \<open>co_yield elements_of(...)\<close>.

  The nested generators form a stack: every promise holds its parent (\<open>prev_\<close>) and the innermost generator that is
  running (\<open>top_\<close>), and the iterator resumes \<open>top_\<close> without walking through the outer coroutines.

  The body of a coroutine is a list of actions; its local computation is resolved. The control of the machine is one
  symmetric transfer, one iteration of a loop over \<open>prev_\<close>, or one action of the running coroutine.
\<close>

type_synonym exn = nat

datatype 'v action =
    Yield 'v
  | Yield_Copy 'v
  | Elements_Of "'v action list"
  | Elements_Of_Range "'v list"
  | Throw exn
  | Catch "'v action list"

text \<open>
  \<open>Catch h\<close> ends a \<open>try\<close> block: reached by normal control it is skipped; reached by an exception, \<open>h\<close> runs,
  what the function does in that case before the statement after the block.
\<close>

fun unwind :: "'v action list \<Rightarrow> 'v action list option" where
  "unwind [] = None"
| "unwind (Catch h # as) = Some (h @ as)"
| "unwind (_ # as) = unwind as"

datatype 'v value_or_error = Monostate | Yielded 'v | Exception exn

text \<open>
  A promise together with what its coroutine frame holds: the rest of the body, and \<open>new_top_\<close> of the awaiter of the
  \<open>co_yield elements_of\<close> at which the coroutine is suspended.
\<close>

record 'v gen_node =
  prev_node :: ptr
  top_node :: ptr
  value_or_error :: "'v value_or_error"
  body :: "'v action list"
  new_top :: ptr
  at_final :: bool

record 'v gen_store =
  nodes :: "addr \<Rightarrow> 'v gen_node option"
  fresh :: addr

datatype control =
    Resumed addr
  | Raised addr exn
  | Link ptr addr
  | Destroying ptr
  | Returned
  | Escaped exn
  | Stuck

definition upd_node :: "addr \<Rightarrow> ('v gen_node \<Rightarrow> 'v gen_node) \<Rightarrow> 'v gen_store \<Rightarrow> 'v gen_store" where
  "upd_node h f s = s\<lparr>nodes := (nodes s)(h := map_option f (nodes s h))\<rparr>"

definition free_node :: "addr \<Rightarrow> 'v gen_store \<Rightarrow> 'v gen_store" where
  "free_node h s = s\<lparr>nodes := (nodes s)(h := None)\<rparr>"

text \<open>The call of a generator function: a coroutine suspended at its start, with a fresh promise.\<close>

definition new_generator :: "'v action list \<Rightarrow> 'v gen_store \<Rightarrow> addr \<times> 'v gen_store" where
  "new_generator b s = (fresh s,
     s\<lparr>nodes := (nodes s)(fresh s \<mapsto> \<lparr>prev_node = None, top_node = None, value_or_error = Monostate, body = b,
                                    new_top = None, at_final = False\<rparr>),
       fresh := Suc (fresh s)\<rparr>)"

text \<open>\<open>yield_value\<close>: by reference, and by a copy that the awaiter holds.\<close>

definition yield_value :: "addr \<Rightarrow> 'v \<Rightarrow> 'v gen_store \<Rightarrow> 'v gen_store \<times> control" where
  "yield_value h v s = (upd_node h (value_or_error_update (\<lambda>_. Yielded v)) s, Returned)"

definition const_lref_await_suspend :: "addr \<Rightarrow> 'v \<Rightarrow> 'v gen_store \<Rightarrow> 'v gen_store \<times> control" where
  "const_lref_await_suspend h v s = (upd_node h (value_or_error_update (\<lambda>_. Yielded v)) s, Returned)"

text \<open>\<open>rvalue_generator_yield_awaiter::await_suspend\<close>, up to its loop.\<close>

definition nested_await_suspend :: "addr \<Rightarrow> addr \<Rightarrow> 'v gen_store \<Rightarrow> 'v gen_store \<times> control" where
  "nested_await_suspend h c s =
     (upd_node h (new_top_update (\<lambda>_. Some c))
        (upd_node c (\<lambda>n. n\<lparr>top_node := Some c, prev_node := Some h\<rparr>) s), Link (Some h) c)"

definition yield_elements :: "addr \<Rightarrow> 'v action list \<Rightarrow> 'v gen_store \<Rightarrow> 'v gen_store \<times> control" where
  "yield_elements h b s = (case new_generator b s of (c, s') \<Rightarrow> nested_await_suspend h c s')"

text \<open>The coroutine \<open>to_generator_\<close> yields the elements of the range one by one.\<close>

definition to_generator :: "'v list \<Rightarrow> 'v action list" where
  "to_generator vs = map Yield vs"

text \<open>
  \<open>await_resume\<close> rethrows what the nested generator stored; in both cases the end of the full expression destroys the
  nested coroutine (the \<open>generator\<close> temporary, or \<open>~range_yield_awaiter\<close>).
\<close>

definition nested_await_resume :: "addr \<Rightarrow> addr \<Rightarrow> 'v gen_store \<Rightarrow> 'v gen_store \<times> control" where
  "nested_await_resume h c s =
     (case nodes s c of
        None \<Rightarrow> (s, Stuck)
      | Some m \<Rightarrow>
          (free_node c (upd_node h (new_top_update (\<lambda>_. None)) s),
           (case value_or_error m of Exception x \<Rightarrow> Raised h x | _ \<Rightarrow> Resumed h)))"

text \<open>\<open>final_suspend\<close> and \<open>final_awaiter_::await_suspend\<close>.\<close>

definition final_suspend :: "addr \<Rightarrow> 'v gen_node \<Rightarrow> 'v gen_store \<Rightarrow> 'v gen_store \<times> control" where
  "final_suspend h n s =
     (upd_node h (at_final_update (\<lambda>_. True)) s,
      (case prev_node n of Some p \<Rightarrow> Link (Some p) p | None \<Rightarrow> Returned))"

text \<open>
  \<open>unhandled_exception\<close>: in the outermost generator the exception leaves through \<open>resume\<close>, and the coroutine counts as
  suspended at its final suspend point; in a nested one it is stored and the coroutine goes on to \<open>final_suspend\<close>.
\<close>

definition unhandled_exception :: "addr \<Rightarrow> 'v gen_node \<Rightarrow> exn \<Rightarrow> 'v gen_store \<Rightarrow> 'v gen_store \<times> control" where
  "unhandled_exception h n x s =
     (case Option.bind (top_node n) (nodes s) of
        None \<Rightarrow> (s, Stuck)
      | Some t \<Rightarrow>
          if prev_node t = None then (upd_node h (at_final_update (\<lambda>_. True)) s, Escaped x)
          else final_suspend h n (upd_node h (value_or_error_update (\<lambda>_. Exception x)) s))"

text \<open>The next action of a running coroutine; falling off the end is \<open>return_void\<close>.\<close>

definition run_action :: "addr \<Rightarrow> 'v gen_node \<Rightarrow> 'v gen_store \<Rightarrow> 'v gen_store \<times> control" where
  "run_action h n s =
     (case body n of
        [] \<Rightarrow> final_suspend h n s
      | a # as \<Rightarrow>
          (let s' = upd_node h (body_update (\<lambda>_. as)) s in
           case a of
             Yield v \<Rightarrow> yield_value h v s'
           | Yield_Copy v \<Rightarrow> const_lref_await_suspend h v s'
           | Elements_Of b \<Rightarrow> yield_elements h b s'
           | Elements_Of_Range vs \<Rightarrow> yield_elements h (to_generator vs) s'
           | Throw x \<Rightarrow> (s', Raised h x)
           | Catch b \<Rightarrow> (s', Resumed h)))"

definition raise_in :: "addr \<Rightarrow> 'v gen_node \<Rightarrow> exn \<Rightarrow> 'v gen_store \<Rightarrow> 'v gen_store \<times> control" where
  "raise_in h n x s =
     (case unwind (body n) of
        Some b \<Rightarrow> (upd_node h (body_update (\<lambda>_. b)) s, Resumed h)
      | None \<Rightarrow> unhandled_exception h n x s)"

fun gen_step :: "'v gen_store \<Rightarrow> control \<Rightarrow> 'v gen_store \<times> control" where
  "gen_step s (Resumed h) =
     (case nodes s h of
        None \<Rightarrow> (s, Stuck)
      | Some n \<Rightarrow>
          if at_final n then (s, Stuck)
          else (case new_top n of Some c \<Rightarrow> nested_await_resume h c s | None \<Rightarrow> run_action h n s))"
| "gen_step s (Raised h x) = (case nodes s h of None \<Rightarrow> (s, Stuck) | Some n \<Rightarrow> raise_in h n x s)"
| "gen_step s (Link (Some h) t) =
     (case nodes s h of
        None \<Rightarrow> (s, Stuck)
      | Some n \<Rightarrow> (upd_node h (top_node_update (\<lambda>_. Some t)) s, Link (prev_node n) t))"
| "gen_step s (Link None t) = (s, Resumed t)"
| "gen_step s (Destroying (Some h)) =
     (case nodes s h of None \<Rightarrow> (s, Stuck) | Some n \<Rightarrow> (free_node h s, Destroying (new_top n)))"
| "gen_step s (Destroying None) = (s, Returned)"
| "gen_step s c = (s, c)"

fun halted :: "control \<Rightarrow> bool" where
  "halted Returned = True"
| "halted (Escaped _) = True"
| "halted Stuck = True"
| "halted _ = False"

partial_function (option) run_gen :: "'v gen_store \<Rightarrow> control \<Rightarrow> ('v gen_store \<times> control) option" where
  "run_gen s c = (if halted c then Some (s, c) else run_gen (fst (gen_step s c)) (snd (gen_step s c)))"

text \<open>\<open>generator::begin\<close>, \<open>iterator::operator*\<close>, \<open>operator++\<close>, the comparison with the sentinel, and \<open>~generator\<close>.\<close>

definition gen_begin :: "addr \<Rightarrow> 'v gen_store \<Rightarrow> 'v gen_store \<times> control" where
  "gen_begin r s = (upd_node r (top_node_update (\<lambda>_. Some r)) s, Resumed r)"

definition top_of :: "addr \<Rightarrow> 'v gen_store \<Rightarrow> ptr" where
  "top_of r s = Option.bind (nodes s r) top_node"

definition get_yielded :: "'v gen_node \<Rightarrow> 'v option" where
  "get_yielded n = (case value_or_error n of Yielded v \<Rightarrow> Some v | _ \<Rightarrow> None)"

definition iterator_deref :: "addr \<Rightarrow> 'v gen_store \<Rightarrow> 'v option" where
  "iterator_deref r s = Option.bind (Option.bind (top_of r s) (nodes s)) get_yielded"

definition iterator_next :: "addr \<Rightarrow> 'v gen_store \<Rightarrow> 'v gen_store \<times> control" where
  "iterator_next r s = (s, case top_of r s of Some t \<Rightarrow> Resumed t | None \<Rightarrow> Stuck)"

definition iterator_at_end :: "addr \<Rightarrow> 'v gen_store \<Rightarrow> bool" where
  "iterator_at_end r s = (case nodes s r of Some n \<Rightarrow> at_final n | None \<Rightarrow> True)"

definition gen_destroy :: "addr \<Rightarrow> 'v gen_store \<Rightarrow> 'v gen_store \<times> control" where
  "gen_destroy r s = (s, Destroying (Some r))"

text \<open>
  \<open>for (auto&& v : g) out.push_back(v)\<close>, from the state in which \<open>begin\<close> or \<open>operator++\<close> transfers control: the elements
  seen, and the exception that left the loop. An unspecified access (\<open>Stuck\<close>, or reading no value) is \<open>None\<close>.
\<close>

partial_function (option) traverse ::
    "addr \<Rightarrow> 'v list \<Rightarrow> 'v gen_store \<Rightarrow> control \<Rightarrow> ('v list \<times> exn option \<times> 'v gen_store) option" where
  "traverse r vs s c =
     (case run_gen s c of
        None \<Rightarrow> None
      | Some (s', c') \<Rightarrow>
          (case c' of
             Escaped x \<Rightarrow> Some (rev vs, Some x, s')
           | Returned \<Rightarrow>
               if iterator_at_end r s' then Some (rev vs, None, s')
               else (case iterator_deref r s' of
                       None \<Rightarrow> None
                     | Some v \<Rightarrow> traverse r (v # vs) (fst (iterator_next r s')) (snd (iterator_next r s')))
           | _ \<Rightarrow> None))"

section \<open>The sequence that a body denotes\<close>

text \<open>
  The reference: the elements of a body in order, a nested generator in place of its \<open>elements_of\<close>, and the exception
  that the body does not catch.
\<close>

primrec weight :: "'v action \<Rightarrow> nat" where
  "weight (Yield _) = 1"
| "weight (Yield_Copy _) = 1"
| "weight (Elements_Of b) = 2 + sum_list (map weight b)"
| "weight (Elements_Of_Range vs) = 2 + length vs"
| "weight (Throw _) = 1"
| "weight (Catch b) = 1 + sum_list (map weight b)"

definition weights :: "'v action list \<Rightarrow> nat" where
  "weights b = sum_list (map weight b)"

lemma weights_simps [simp]:
  "weights [] = 0"
  "weights (a # as) = weight a + weights as"
  "weights (as @ bs) = weights as + weights bs"
  "weight (Elements_Of b) = 2 + weights b"
  "weight (Catch b) = 1 + weights b"
  by (simp_all add: weights_def)

declare weight.simps(3,6) [simp del]

lemma weight_pos [simp]: "0 < weight a"
  by (cases a) auto

lemma weights_to_generator [simp]: "weights (to_generator vs) = length vs"
  by (induction vs) (auto simp: to_generator_def)

lemma unwind_weights: "unwind b = Some b' \<Longrightarrow> weights b' < weights b"
  by (induction b rule: unwind.induct) auto

type_synonym 'v outcome = "'v list \<times> exn option"

definition prepend :: "'v list \<Rightarrow> 'v outcome \<Rightarrow> 'v outcome" where
  "prepend vs r = (vs @ fst r, snd r)"

function flatten :: "'v action list \<Rightarrow> 'v outcome" where
  "flatten [] = ([], None)"
| "flatten (Yield v # as) = prepend [v] (flatten as)"
| "flatten (Yield_Copy v # as) = prepend [v] (flatten as)"
| "flatten (Elements_Of b # as) =
     (case flatten b of
        (vs, None) \<Rightarrow> prepend vs (flatten as)
      | (vs, Some x) \<Rightarrow> (case unwind as of None \<Rightarrow> (vs, Some x) | Some b' \<Rightarrow> prepend vs (flatten b')))"
| "flatten (Elements_Of_Range vs # as) = prepend vs (flatten as)"
| "flatten (Throw x # as) = (case unwind as of None \<Rightarrow> ([], Some x) | Some b' \<Rightarrow> flatten b')"
| "flatten (Catch b # as) = flatten as"
  by pat_completeness auto
termination
  by (relation "measure weights") (auto dest: unwind_weights)


text \<open>What a coroutine with body \<open>b\<close> still yields once its nested generator has the outcome \<open>r\<close>.\<close>

definition after_nested :: "'v outcome \<Rightarrow> 'v action list \<Rightarrow> 'v outcome" where
  "after_nested r b =
     (case snd r of
        None \<Rightarrow> prepend (fst r) (flatten b)
      | Some x \<Rightarrow> (case unwind b of None \<Rightarrow> r | Some b' \<Rightarrow> prepend (fst r) (flatten b')))"

definition stack_outcome :: "'v outcome \<Rightarrow> (addr \<times> 'v action list) list \<Rightarrow> 'v outcome" where
  "stack_outcome r fs = foldl after_nested r (map snd fs)"

lemma prepend_simps [simp]:
  "prepend [] r = r" "fst (prepend vs r) = vs @ fst r" "snd (prepend vs r) = snd r"
  "prepend vs (prepend ws r) = prepend (vs @ ws) r" "prepend vs (ws, e) = (vs @ ws, e)"
  by (simp_all add: prepend_def)

lemma after_nested_prepend: "after_nested (prepend vs r) b = prepend vs (after_nested r b)"
  by (auto simp: after_nested_def prepend_def split: option.splits)

lemma foldl_after_prepend: "foldl after_nested (prepend vs r) bs = prepend vs (foldl after_nested r bs)"
  by (induction bs arbitrary: r) (auto simp: after_nested_prepend)

lemma stack_outcome_Nil [simp]: "stack_outcome r [] = r"
  by (simp add: stack_outcome_def)

lemma stack_outcome_Cons: "stack_outcome r ((h, b) # fs) = stack_outcome (after_nested r b) fs"
  by (simp add: stack_outcome_def)

lemma stack_outcome_prepend: "stack_outcome (prepend vs r) fs = prepend vs (stack_outcome r fs)"
  by (simp add: stack_outcome_def foldl_after_prepend)

lemma after_nested_None [simp]: "after_nested ([], None) b = flatten b"
  by (simp add: after_nested_def)

lemma after_nested_raise:
  "after_nested ([], Some x) b = (case unwind b of None \<Rightarrow> ([], Some x) | Some b' \<Rightarrow> flatten b')"
  by (simp add: after_nested_def split: option.splits)

lemma flatten_Elements_Of: "flatten (Elements_Of b # as) = after_nested (flatten b) as"
  by (auto simp: after_nested_def split: prod.splits option.splits)

lemma flatten_to_generator [simp]: "flatten (to_generator vs) = (vs, None)"
  by (induction vs) (auto simp: to_generator_def)

lemma flatten_Elements_Of_Range: "flatten (Elements_Of_Range vs # as) = after_nested (flatten (to_generator vs)) as"
  by (simp add: after_nested_def)

declare flatten.simps(4,5) [simp del]

section \<open>The stack of nested generators\<close>

text \<open>A stack lists the suspended coroutines with the rest of their bodies, the innermost first.\<close>

definition head_ptr :: "(addr \<times> 'a) list \<Rightarrow> ptr" where
  "head_ptr fs = (case fs of [] \<Rightarrow> None | f # _ \<Rightarrow> Some (fst f))"

lemma head_ptr_simps [simp]: "head_ptr [] = None" "head_ptr (f # fs) = Some (fst f)"
  by (simp_all add: head_ptr_def)

definition is_frame :: "'v gen_store \<Rightarrow> ptr \<Rightarrow> ptr \<Rightarrow> addr \<Rightarrow> 'v action list \<Rightarrow> bool" where
  "is_frame s ch p h b \<longleftrightarrow>
     (\<exists>n. nodes s h = Some n \<and> prev_node n = p \<and> body n = b \<and> new_top n = ch \<and> \<not> at_final n \<and>
        (\<forall>x. value_or_error n \<noteq> Exception x))"

fun frames :: "'v gen_store \<Rightarrow> ptr \<Rightarrow> (addr \<times> 'v action list) list \<Rightarrow> bool" where
  "frames s ch [] = True"
| "frames s ch (f # fs) = (is_frame s ch (head_ptr fs) (fst f) (snd f) \<and> frames s (Some (fst f)) fs)"

definition owned :: "'v gen_store \<Rightarrow> (addr \<times> 'v action list) list \<Rightarrow> bool" where
  "owned s fs \<longleftrightarrow> distinct (map fst fs) \<and> dom (nodes s) = fst ` set fs \<and> (\<forall>a \<in> fst ` set fs. a < fresh s)"

definition tops :: "'v gen_store \<Rightarrow> addr \<Rightarrow> (addr \<times> 'v action list) list \<Rightarrow> bool" where
  "tops s t fs \<longleftrightarrow> (\<forall>a \<in> fst ` set fs. top_of a s = Some t)"

definition gen_stack :: "'v gen_store \<Rightarrow> (addr \<times> 'v action list) list \<Rightarrow> bool" where
  "gen_stack s fs \<longleftrightarrow> fs \<noteq> [] \<and> owned s fs \<and> frames s None fs \<and> tops s (fst (hd fs)) fs"

lemma nodes_upd_node: "nodes (upd_node h f s) a = (if a = h then map_option f (nodes s h) else nodes s a)"
  by (simp add: upd_node_def)

lemma nodes_free_node: "nodes (free_node h s) a = (if a = h then None else nodes s a)"
  by (simp add: free_node_def)

lemma fresh_simps [simp]: "fresh (upd_node h f s) = fresh s" "fresh (free_node h s) = fresh s"
  by (simp_all add: upd_node_def free_node_def)

lemma dom_upd_node [simp]: "dom (nodes (upd_node h f s)) = dom (nodes s)"
  by (auto simp: nodes_upd_node split: if_splits)

lemma dom_free_node [simp]: "dom (nodes (free_node h s)) = dom (nodes s) - {h}"
  by (auto simp: nodes_free_node split: if_splits)

lemma top_of_upd_node:
  "top_of a (upd_node h f s) = (if a = h then Option.bind (nodes s h) (\<lambda>n. top_node (f n)) else top_of a s)"
  by (cases "nodes s h") (simp_all add: top_of_def nodes_upd_node)

lemma is_frame_cong:
  "map_option (\<lambda>n. (prev_node n, body n, new_top n, at_final n, value_or_error n)) (nodes s' h) =
   map_option (\<lambda>n. (prev_node n, body n, new_top n, at_final n, value_or_error n)) (nodes s h) \<Longrightarrow>
   is_frame s' ch p h b = is_frame s ch p h b"
  by (cases "nodes s h"; cases "nodes s' h") (auto simp: is_frame_def)

lemma frames_cong:
  "(\<And>a. a \<in> fst ` set fs \<Longrightarrow>
      map_option (\<lambda>n. (prev_node n, body n, new_top n, at_final n, value_or_error n)) (nodes s' a) =
      map_option (\<lambda>n. (prev_node n, body n, new_top n, at_final n, value_or_error n)) (nodes s a)) \<Longrightarrow>
   frames s' ch fs = frames s ch fs"
proof (induction fs arbitrary: ch)
  case (Cons f fs)
  have "is_frame s' ch p (fst f) b = is_frame s ch p (fst f) b" for p b
    by (rule is_frame_cong) (simp add: Cons.prems)
  moreover have "frames s' ch' fs = frames s ch' fs" for ch'
    by (rule Cons.IH) (simp add: Cons.prems)
  ultimately show ?case by simp
qed simp

definition set_tops :: "addr \<Rightarrow> addr set \<Rightarrow> 'v gen_store \<Rightarrow> 'v gen_store" where
  "set_tops t A s = s\<lparr>nodes := \<lambda>a. if a \<in> A then map_option (top_node_update (\<lambda>_. Some t)) (nodes s a) else nodes s a\<rparr>"

lemma set_tops_empty [simp]: "set_tops t {} s = s"
  by (simp add: set_tops_def)

lemma set_tops_insert: "set_tops t (insert h A) s = set_tops t A (upd_node h (top_node_update (\<lambda>_. Some t)) s)"
  by (cases "nodes s h") (auto simp: set_tops_def upd_node_def fun_eq_iff)

lemma run_gen_halted [simp]: "halted c \<Longrightarrow> run_gen s c = Some (s, c)"
  by (subst run_gen.simps) simp

lemma run_gen_step: "\<not> halted c \<Longrightarrow> gen_step s c = (s', c') \<Longrightarrow> run_gen s c = run_gen s' c'"
  by (subst run_gen.simps) simp

text \<open>The loop over \<open>prev_\<close> sets \<open>top_\<close> of the whole stack, then the target runs.\<close>

lemma run_gen_link:
  "frames s ch fs \<Longrightarrow> run_gen s (Link (head_ptr fs) t) = run_gen (set_tops t (fst ` set fs) s) (Resumed t)"
proof (induction fs arbitrary: s ch)
  case Nil
  then show ?case by (subst run_gen.simps) simp
next
  case (Cons f fs)
  then obtain n where n: "nodes s (fst f) = Some n" "prev_node n = head_ptr fs"
    by (auto simp: is_frame_def)
  let ?s = "upd_node (fst f) (top_node_update (\<lambda>_. Some t)) s"
  have "frames ?s (Some (fst f)) fs"
    using Cons.prems by (subst frames_cong [where s = s]) (auto simp: nodes_upd_node n)
  moreover have "run_gen s (Link (head_ptr (f # fs)) t) = run_gen ?s (Link (head_ptr fs) t)"
    by (rule run_gen_step) (simp_all add: n)
  ultimately show ?case using Cons.IH by (simp add: set_tops_insert)
qed


lemma gen_stack_node:
  assumes "gen_stack s ((h, b) # fs)"
  obtains n where "nodes s h = Some n" "prev_node n = head_ptr fs" "body n = b" "new_top n = None"
    "\<not> at_final n" "top_node n = Some h" "\<And>x. value_or_error n \<noteq> Exception x"
  using assms by (auto simp: gen_stack_def is_frame_def tops_def top_of_def)

lemma top_of_set_tops: "a \<in> A \<Longrightarrow> a \<in> dom (nodes s) \<Longrightarrow> top_of a (set_tops t A s) = Some t"
  by (auto simp: top_of_def set_tops_def)

lemma dom_set_tops [simp]: "dom (nodes (set_tops t A s)) = dom (nodes s)"
  by (auto simp: set_tops_def split: if_splits)

lemma fresh_set_tops [simp]: "fresh (set_tops t A s) = fresh s"
  by (simp add: set_tops_def)

lemma nodes_set_tops:
  "nodes (set_tops t A s) a = (if a \<in> A then map_option (top_node_update (\<lambda>_. Some t)) (nodes s a) else nodes s a)"
  by (simp add: set_tops_def)

text \<open>The running coroutine changes its own body or value.\<close>

lemma gen_stack_body:
  assumes "gen_stack s ((h, b) # fs)"
  shows "gen_stack (upd_node h (body_update (\<lambda>_. b')) s) ((h, b') # fs)"
proof -
  have "frames (upd_node h (body_update (\<lambda>_. b')) s) (Some h) fs = frames s (Some h) fs"
    using assms by (intro frames_cong) (auto simp: gen_stack_def owned_def nodes_upd_node)
  then show ?thesis
    using assms by (auto simp: gen_stack_def owned_def is_frame_def tops_def top_of_def nodes_upd_node)
qed

lemma gen_stack_value:
  assumes "gen_stack s ((h, b) # fs)" and "\<And>x. v \<noteq> Exception x"
  shows "gen_stack (upd_node h (value_or_error_update (\<lambda>_. v)) s) ((h, b) # fs)"
proof -
  have "frames (upd_node h (value_or_error_update (\<lambda>_. v)) s) (Some h) fs = frames s (Some h) fs"
    using assms by (intro frames_cong) (auto simp: gen_stack_def owned_def nodes_upd_node)
  then show ?thesis
    using assms by (auto simp: gen_stack_def owned_def is_frame_def tops_def top_of_def nodes_upd_node)
qed

text \<open>\<open>co_yield elements_of(g)\<close> pushes the nested coroutine and starts it.\<close>

lemma gen_stack_push:
  assumes st: "gen_stack s ((h, as) # fs)"
  shows "\<exists>s'. run_gen (fst (yield_elements h b s)) (snd (yield_elements h b s)) = run_gen s' (Resumed (fresh s)) \<and>
    gen_stack s' ((fresh s, b) # (h, as) # fs)"
proof -
  obtain n where n: "nodes s h = Some n" "prev_node n = head_ptr fs" "body n = as" "new_top n = None"
    "\<not> at_final n" "top_node n = Some h" "\<And>x. value_or_error n \<noteq> Exception x" using st by (rule gen_stack_node) blast
  let ?c = "fresh s" and ?s1 = "fst (yield_elements h b s)"
  let ?s2 = "set_tops ?c (insert h (fst ` set fs)) ?s1"
  have hc: "h < ?c" "\<forall>a \<in> fst ` set fs. a < ?c" "h \<notin> fst ` set fs"
    and dom: "dom (nodes s) = insert h (fst ` set fs)"
    using st by (auto simp: gen_stack_def owned_def)
  have nodes1: "nodes ?s1 a =
      (if a = ?c then Some \<lparr>prev_node = Some h, top_node = Some ?c, value_or_error = Monostate, body = b,
                            new_top = None, at_final = False\<rparr>
       else if a = h then Some (n\<lparr>new_top := Some ?c\<rparr>) else nodes s a)" for a
    using hc by (simp add: yield_elements_def new_generator_def nested_await_suspend_def nodes_upd_node n)
  have fr: "frames ?s1 (Some h) fs = frames s (Some h) fs"
    using hc by (intro frames_cong) (auto simp: nodes1)
  have frame_h: "is_frame ?s1 (Some ?c) (head_ptr fs) h as"
    using hc by (auto simp: is_frame_def nodes1 n)
  have "frames ?s1 (Some ?c) ((h, as) # fs)"
    using st fr frame_h by (simp add: gen_stack_def)
  from run_gen_link [OF this, of ?c]
  have run: "run_gen ?s1 (Link (Some h) ?c) = run_gen ?s2 (Resumed ?c)" by simp
  have fr2: "frames ?s2 ch gs = frames ?s1 ch gs" for ch gs
    by (rule frames_cong) (simp add: nodes_set_tops option.map_comp o_def)
  have dom1: "dom (nodes ?s1) = insert ?c (dom (nodes s))" and fresh1: "fresh ?s1 = Suc ?c"
    by (simp_all add: yield_elements_def new_generator_def nested_await_suspend_def)
  have "is_frame ?s2 (Some ?c) (head_ptr fs) h as = is_frame ?s1 (Some ?c) (head_ptr fs) h as"
    by (rule is_frame_cong) (simp add: nodes_set_tops option.map_comp o_def)
  moreover have "owned ?s2 ((?c, b) # (h, as) # fs)"
    using st hc by (auto simp: owned_def gen_stack_def dom1 fresh1 less_Suc_eq)
  moreover have "is_frame ?s2 None (Some h) ?c b"
    using hc by (auto simp: is_frame_def nodes_set_tops nodes1)
  moreover have "tops ?s2 ?c ((?c, b) # (h, as) # fs)"
    using dom hc by (auto simp: tops_def top_of_def nodes_set_tops nodes1 n)
  ultimately have "gen_stack ?s2 ((?c, b) # (h, as) # fs)"
    using st fr frame_h by (simp add: gen_stack_def fr2)
  moreover have "snd (yield_elements h b s) = Link (Some h) ?c"
    by (simp add: yield_elements_def new_generator_def nested_await_suspend_def)
  ultimately show ?thesis using run by auto
qed

text \<open>A finished nested coroutine hands control back; its parent takes its exception and destroys it.\<close>

lemma gen_stack_pop:
  assumes own: "owned s ((c, b) # (h, as) # fs)" and fr: "frames s (Some c) ((h, as) # fs)"
    and m: "nodes s c = Some m"
  shows "\<exists>s'. run_gen s (Link (Some h) h) =
      run_gen s' (case value_or_error m of Exception x \<Rightarrow> Raised h x | _ \<Rightarrow> Resumed h) \<and>
    gen_stack s' ((h, as) # fs)"
proof -
  let ?s1 = "set_tops h (insert h (fst ` set fs)) s"
  let ?s2 = "free_node c (upd_node h (new_top_update (\<lambda>_. None)) ?s1)"
  obtain n where n: "nodes s h = Some n" "prev_node n = head_ptr fs" "body n = as" "new_top n = Some c" "\<not> at_final n"
    "\<And>x. value_or_error n \<noteq> Exception x"
    using fr by (auto simp: is_frame_def)
  have ne: "c \<noteq> h" "c \<notin> fst ` set fs" "h \<notin> fst ` set fs" using own by (auto simp: owned_def)
  have "run_gen s (Link (Some h) h) = run_gen ?s1 (Resumed h)"
    using run_gen_link [OF fr, of h] by simp
  also have "\<dots> = run_gen ?s2 (case value_or_error m of Exception x \<Rightarrow> Raised h x | _ \<Rightarrow> Resumed h)"
    using ne n m by (intro run_gen_step) (auto simp: nested_await_resume_def nodes_set_tops)
  finally have run: "run_gen s (Link (Some h) h) = \<dots>" .
  have nodes2: "nodes ?s2 a = (if a = c then None else if a = h then Some (n\<lparr>top_node := Some h, new_top := None\<rparr>)
      else nodes ?s1 a)" for a
    using n by (simp add: nodes_free_node nodes_upd_node nodes_set_tops)
  have "frames ?s2 (Some h) fs = frames s (Some h) fs"
    using ne by (intro frames_cong) (auto simp: nodes2 nodes_set_tops option.map_comp o_def)
  moreover have "is_frame ?s2 None (head_ptr fs) h as"
    using ne n by (auto simp: is_frame_def nodes2)
  moreover have "owned ?s2 ((h, as) # fs)" using own by (auto simp: owned_def)
  moreover have "tops ?s2 h ((h, as) # fs)"
    using own ne by (fastforce simp: tops_def top_of_def nodes2 nodes_set_tops owned_def dom_def)
  ultimately have "gen_stack ?s2 ((h, as) # fs)" using fr by (simp add: gen_stack_def)
  then show ?thesis using run by blast
qed


section \<open>Resuming the innermost coroutine\<close>

definition stack_weight :: "(addr \<times> 'v action list) list \<Rightarrow> nat" where
  "stack_weight fs = sum_list (map (\<lambda>f. Suc (weights (snd f))) fs)"

lemma stack_weight_simps [simp]:
  "stack_weight [] = 0" "stack_weight (f # fs) = Suc (weights (snd f) + stack_weight fs)"
  by (simp_all add: stack_weight_def)

text \<open>
  Where a run that is to produce the outcome \<open>o\<close> stops: at a value, with a smaller stack that produces the rest; or with
  only the outermost coroutine \<open>r\<close> left, finished, and its exception if it has one.
\<close>

definition gen_stops :: "addr \<Rightarrow> nat \<Rightarrow> 'v outcome \<Rightarrow> 'v gen_store \<Rightarrow> control \<Rightarrow> bool" where
  "gen_stops r w out s c \<longleftrightarrow>
     (\<exists>v gs. c = Returned \<and> gen_stack s gs \<and> fst (last gs) = r \<and> stack_weight gs < w \<and>
        iterator_deref r s = Some v \<and> out = prepend [v] (stack_outcome ([], None) gs)) \<or>
     (dom (nodes s) = {r} \<and> iterator_at_end r s \<and> map_option new_top (nodes s r) = Some None \<and>
        ((c = Returned \<and> out = ([], None)) \<or> (\<exists>x. c = Escaped x \<and> out = ([], Some x))))"

definition gen_runs :: "addr \<Rightarrow> nat \<Rightarrow> 'v outcome \<Rightarrow> 'v gen_store \<Rightarrow> control \<Rightarrow> bool" where
  "gen_runs r w out s c \<longleftrightarrow> (\<exists>s' c'. run_gen s c = Some (s', c') \<and> gen_stops r w out s' c')"

lemma gen_runs_eq: "run_gen s c = run_gen s' c' \<Longrightarrow> gen_runs r w out s c = gen_runs r w out s' c'"
  by (simp add: gen_runs_def)

lemma gen_stops_mono: "gen_stops r w out s c \<Longrightarrow> w \<le> w' \<Longrightarrow> gen_stops r w' out s c"
  by (fastforce simp: gen_stops_def)

lemma gen_runs_mono: "gen_runs r w out s c \<Longrightarrow> w \<le> w' \<Longrightarrow> gen_runs r w' out s c"
  by (auto simp: gen_runs_def intro: gen_stops_mono)

lemma iterator_deref_stack:
  assumes "gen_stack s fs" and "nodes s (fst (hd fs)) = Some n"
  shows "iterator_deref (fst (last fs)) s = get_yielded n"
  using assms by (auto simp: gen_stack_def tops_def iterator_deref_def)

lemma run_final:
  assumes own: "owned s ((h, b) # fs)" and fr: "frames s (Some h) fs"
    and m: "nodes s h = Some m" and nt: "new_top m = None" and prev: "prev_node n = head_ptr fs"
    and IH: "\<And>s' f gs. fs = f # gs \<Longrightarrow> gen_stack s' fs \<Longrightarrow>
      gen_runs r w out s' (case value_or_error m of Exception x \<Rightarrow> Raised (fst f) x | _ \<Rightarrow> Resumed (fst f))"
    and root: "fs = [] \<Longrightarrow> h = r \<and> out = ([], None)"
  shows "gen_runs r w out (fst (final_suspend h n s)) (snd (final_suspend h n s))"
proof -
  let ?s = "upd_node h (at_final_update (\<lambda>_. True)) s"
  show ?thesis
  proof (cases fs)
    case Nil
    then have "dom (nodes s) = {r}" using own root by (auto simp: owned_def)
    then show ?thesis
      using root Nil prev m nt
      by (auto simp: gen_runs_def gen_stops_def final_suspend_def iterator_at_end_def nodes_upd_node)
  next
    case (Cons f gs)
    obtain g as where f: "f = (g, as)" by (cases f)
    have "h \<notin> fst ` set fs" using own by (auto simp: owned_def)
    then have "frames ?s (Some h) fs = frames s (Some h) fs"
      by (intro frames_cong) (auto simp: nodes_upd_node)
    then have "frames ?s (Some h) ((g, as) # gs)" and "owned ?s ((h, b) # (g, as) # gs)"
      using own fr Cons f by (auto simp: owned_def)
    then obtain s' where "run_gen ?s (Link (Some g) g) =
        run_gen s' (case value_or_error m of Exception x \<Rightarrow> Raised g x | _ \<Rightarrow> Resumed g)"
      "gen_stack s' ((g, as) # gs)"
      using gen_stack_pop [of ?s h b g as gs "m\<lparr>at_final := True\<rparr>"] m by (auto simp: nodes_upd_node)
    then show ?thesis
      using IH [of f gs s'] Cons f prev
      by (simp add: final_suspend_def gen_runs_def cong: value_or_error.case_cong)
  qed
qed

text \<open>The run of the innermost coroutine, resumed (\<open>e = None\<close>) or with an exception.\<close>

definition enter :: "addr \<Rightarrow> exn option \<Rightarrow> control" where
  "enter h e = (case e of None \<Rightarrow> Resumed h | Some x \<Rightarrow> Raised h x)"

lemma enter_simps [simp]: "enter h None = Resumed h" "enter h (Some x) = Raised h x"
  by (simp_all add: enter_def)

definition gen_ok :: "addr \<Rightarrow> (addr \<times> 'v action list) list \<Rightarrow> bool" where
  "gen_ok r fs \<longleftrightarrow> (\<forall>s e. gen_stack s fs \<longrightarrow> fst (last fs) = r \<longrightarrow>
     gen_runs r (stack_weight fs) (stack_outcome ([], e) fs) s (enter (fst (hd fs)) e))"

lemma gen_okD:
  "gen_ok r fs \<Longrightarrow> gen_stack s fs \<Longrightarrow> fst (last fs) = r \<Longrightarrow> stack_weight fs \<le> w \<Longrightarrow>
   gen_runs r w (stack_outcome ([], e) fs) s (enter (fst (hd fs)) e)"
  unfolding gen_ok_def by (blast intro: gen_runs_mono)

lemma gen_raise:
  fixes s :: "'v gen_store" and b :: "'v action list"
  assumes IH: "\<And>gs :: (addr \<times> 'v action list) list. stack_weight gs < stack_weight ((h, b) # fs) \<Longrightarrow> gen_ok r gs"
    and st: "gen_stack s ((h, b) # fs)" and r: "fst (last ((h, b) # fs)) = r"
  shows "gen_runs r (stack_weight ((h, b) # fs)) (stack_outcome ([], Some x) ((h, b) # fs)) s (Raised h x)"
proof -
  obtain n where n: "nodes s h = Some n" "prev_node n = head_ptr fs" "body n = b" "top_node n = Some h"
    "new_top n = None"
    using st by (rule gen_stack_node) blast
  have step: "run_gen s (Raised h x) = run_gen (fst (raise_in h n x s)) (snd (raise_in h n x s))"
    by (rule run_gen_step) (simp_all add: n)
  show ?thesis
  proof (cases "unwind b")
    case (Some b')
    have st': "gen_stack (upd_node h (body_update (\<lambda>_. b')) s) ((h, b') # fs)" using st by (rule gen_stack_body)
    have w: "weights b' < weights b" using Some by (rule unwind_weights)
    have ok: "gen_ok r ((h, b') # fs)" by (rule IH) (simp add: w)
    have "gen_runs r (stack_weight ((h, b) # fs)) (stack_outcome ([], None) ((h, b') # fs))
        (upd_node h (body_update (\<lambda>_. b')) s) (enter (fst (hd ((h, b') # fs))) None)"
      by (rule gen_okD [OF ok st']) (use r w in \<open>auto split: if_splits\<close>)
    then show ?thesis
      using Some n by (simp add: gen_runs_eq [OF step] raise_in_def stack_outcome_Cons after_nested_raise)
  next
    case None
    let ?s = "upd_node h (value_or_error_update (\<lambda>_. Exception x)) s"
    have out: "stack_outcome ([], Some x) ((h, b) # fs) = stack_outcome ([], Some x) fs"
      using None by (simp add: stack_outcome_Cons after_nested_raise)
    show ?thesis
    proof (cases fs)
      case Nil
      then have "dom (nodes s) = {r}" using st r by (auto simp: gen_stack_def owned_def)
      then show ?thesis
        using Nil n None r unfolding out gen_runs_eq [OF step]
        by (auto simp: raise_in_def unhandled_exception_def gen_runs_def gen_stops_def iterator_at_end_def nodes_upd_node)
    next
      case (Cons f gs)
      have fr: "frames ?s (Some h) fs = frames s (Some h) fs"
        using st by (intro frames_cong) (auto simp: gen_stack_def owned_def nodes_upd_node)
      have "gen_runs r (stack_weight ((h, b) # fs)) (stack_outcome ([], Some x) fs)
          (fst (final_suspend h n ?s)) (snd (final_suspend h n ?s))"
      proof (rule run_final)
        show "owned ?s ((h, b) # fs)" using st by (auto simp: gen_stack_def owned_def)
        show "frames ?s (Some h) fs" using st fr by (simp add: gen_stack_def)
        show "nodes ?s h = Some (n\<lparr>value_or_error := Exception x\<rparr>)" by (simp add: nodes_upd_node n)
        show "prev_node n = head_ptr fs" by (rule n)
        show "new_top (n\<lparr>value_or_error := Exception x\<rparr>) = None" by (simp add: n)
        fix s' f gs
        assume fs: "fs = f # gs" and st': "gen_stack s' fs"
        have ok: "gen_ok r fs" by (rule IH) simp
        have "gen_runs r (stack_weight ((h, b) # fs)) (stack_outcome ([], Some x) fs) s' (enter (fst (hd fs)) (Some x))"
          by (rule gen_okD [OF ok st']) (use r fs in simp_all)
        then show "gen_runs r (stack_weight ((h, b) # fs)) (stack_outcome ([], Some x) fs) s'
            (case value_or_error (n\<lparr>value_or_error := Exception x\<rparr>) of Exception x \<Rightarrow> Raised (fst f) x | _ \<Rightarrow> Resumed (fst f))"
          using fs by simp
      qed (use Cons in simp)
      then show ?thesis
        unfolding out gen_runs_eq [OF step] using n None Cons by (simp add: raise_in_def unhandled_exception_def)
    qed
  qed
qed


lemma gen_nested:
  fixes s :: "'v gen_store" and as b :: "'v action list"
  assumes IH: "\<And>gs :: (addr \<times> 'v action list) list. stack_weight gs < stack_weight ((h, a # as) # fs) \<Longrightarrow> gen_ok r gs"
    and st: "gen_stack s ((h, as) # fs)" and r: "fst (last ((h, as) # fs)) = r"
    and w: "weight a = weights b + 2"
  shows "gen_runs r (stack_weight ((h, a # as) # fs)) (stack_outcome (after_nested (flatten b) as) fs)
    (fst (yield_elements h b s)) (snd (yield_elements h b s))"
proof -
  obtain s' where s': "run_gen (fst (yield_elements h b s)) (snd (yield_elements h b s)) = run_gen s' (Resumed (fresh s))"
    "gen_stack s' ((fresh s, b) # (h, as) # fs)"
    using gen_stack_push [OF st] by blast
  have ok: "gen_ok r ((fresh s, b) # (h, as) # fs)" by (rule IH) (simp add: w)
  have "gen_runs r (stack_weight ((h, a # as) # fs)) (stack_outcome ([], None) ((fresh s, b) # (h, as) # fs)) s'
      (enter (fst (hd ((fresh s, b) # (h, as) # fs))) None)"
    by (rule gen_okD [OF ok s'(2)]) (use r w in simp_all)
  then show ?thesis by (simp add: gen_runs_eq [OF s'(1)] stack_outcome_Cons)
qed

lemma gen_yields:
  assumes st: "gen_stack s ((h, as) # fs)" and r: "fst (last ((h, as) # fs)) = r" and w: "0 < weight a"
  shows "gen_runs r (stack_weight ((h, a # as) # fs)) (stack_outcome (prepend [v] (flatten as)) fs)
    (upd_node h (value_or_error_update (\<lambda>_. Yielded v)) s) Returned"
proof -
  let ?s = "upd_node h (value_or_error_update (\<lambda>_. Yielded v)) s"
  obtain n where n: "nodes s h = Some n" using st by (rule gen_stack_node) blast
  have st': "gen_stack ?s ((h, as) # fs)" using st by (rule gen_stack_value) simp
  have "iterator_deref r ?s = Some v"
    using iterator_deref_stack [OF st', of "n\<lparr>value_or_error := Yielded v\<rparr>"] r n
    by (simp add: nodes_upd_node get_yielded_def)
  then have "gen_stops r (stack_weight ((h, a # as) # fs)) (stack_outcome (prepend [v] (flatten as)) fs) ?s Returned"
    unfolding gen_stops_def using st' r w
    by (intro disjI1 exI [of _ v] exI [of _ "(h, as) # fs"]) (simp add: stack_outcome_Cons stack_outcome_prepend)
  then show ?thesis by (simp add: gen_runs_def)
qed

lemma gen_resume:
  fixes s :: "'v gen_store" and b :: "'v action list"
  assumes IH: "\<And>gs :: (addr \<times> 'v action list) list. stack_weight gs < stack_weight ((h, b) # fs) \<Longrightarrow> gen_ok r gs"
    and st: "gen_stack s ((h, b) # fs)" and r: "fst (last ((h, b) # fs)) = r"
  shows "gen_runs r (stack_weight ((h, b) # fs)) (stack_outcome ([], None) ((h, b) # fs)) s (Resumed h)"
proof -
  obtain n where n: "nodes s h = Some n" "prev_node n = head_ptr fs" "body n = b" "new_top n = None" "\<not> at_final n"
    "\<And>x. value_or_error n \<noteq> Exception x"
    using st by (rule gen_stack_node) blast
  have step: "run_gen s (Resumed h) = run_gen (fst (run_action h n s)) (snd (run_action h n s))"
    by (rule run_gen_step) (simp_all add: n)
  show ?thesis
  proof (cases b)
    case Nil
    have "gen_runs r (stack_weight ((h, b) # fs)) (stack_outcome ([], None) fs)
        (fst (final_suspend h n s)) (snd (final_suspend h n s))"
    proof (rule run_final)
      show "owned s ((h, b) # fs)" "frames s (Some h) fs" "nodes s h = Some n" "prev_node n = head_ptr fs" "new_top n = None"
        using st n by (simp_all add: gen_stack_def)
      fix s' f gs
      assume fs: "fs = f # gs" and st': "gen_stack s' fs"
      have ok: "gen_ok r fs" by (rule IH) simp
      have "gen_runs r (stack_weight ((h, b) # fs)) (stack_outcome ([], None) fs) s' (enter (fst (hd fs)) None)"
        by (rule gen_okD [OF ok st']) (use r fs in simp_all)
      then show "gen_runs r (stack_weight ((h, b) # fs)) (stack_outcome ([], None) fs) s'
          (case value_or_error n of Exception x \<Rightarrow> Raised (fst f) x | _ \<Rightarrow> Resumed (fst f))"
        using fs n(6) by (simp split: value_or_error.split)
    qed (use r in simp)
    then show ?thesis
      by (simp add: gen_runs_eq [OF step] run_action_def n Nil stack_outcome_Cons)
  next
    case (Cons a as)
    let ?s = "upd_node h (body_update (\<lambda>_. as)) s"
    have st': "gen_stack ?s ((h, as) # fs)" and r': "fst (last ((h, as) # fs)) = r"
      using st r by (auto intro: gen_stack_body)
    note run = gen_runs_eq [OF step] run_action_def n Cons stack_outcome_Cons
    have ok: "gen_ok r ((h, as) # fs)" by (rule IH) (simp add: Cons)
    have enter: "gen_runs r (stack_weight ((h, a # as) # fs)) (stack_outcome ([], e) ((h, as) # fs)) ?s (enter h e)" for e
      using gen_okD [OF ok st' r', of "stack_weight ((h, a # as) # fs)" e] by simp
    show ?thesis
    proof (cases a)
      case (Yield v)
      then show ?thesis using gen_yields [OF st' r', of a v] by (simp add: run yield_value_def)
    next
      case (Yield_Copy v)
      then show ?thesis using gen_yields [OF st' r', of a v] by (simp add: run const_lref_await_suspend_def)
    next
      case (Elements_Of c)
      then show ?thesis
        using gen_nested [OF IH [unfolded Cons] st' r', of a c] by (simp add: run flatten_Elements_Of)
    next
      case (Elements_Of_Range vs)
      then show ?thesis
        using gen_nested [OF IH [unfolded Cons] st' r', of a "to_generator vs"]
        by (simp add: run flatten_Elements_Of_Range)
    next
      case (Throw x)
      then show ?thesis
        using enter [of "Some x"] by (simp add: run after_nested_raise cong: option.case_cong)
    next
      case (Catch c)
      then show ?thesis using enter [of None] by (simp add: run)
    qed
  qed
qed

lemma gen_ok_stack: "gen_ok r fs"
proof (induction fs rule: measure_induct_rule [where f = stack_weight])
  case (less fs)
  show ?case
    unfolding gen_ok_def
  proof (intro allI impI)
    fix s and e :: "exn option"
    assume st: "gen_stack s fs" and r: "fst (last fs) = r"
    obtain h b gs where fs: "fs = (h, b) # gs" using st by (cases fs) (auto simp: gen_stack_def)
    show "gen_runs r (stack_weight fs) (stack_outcome ([], e) fs) s (enter (fst (hd fs)) e)"
      using gen_resume [OF less.IH [unfolded fs] st [unfolded fs] r [unfolded fs]]
        gen_raise [OF less.IH [unfolded fs] st [unfolded fs] r [unfolded fs]]
      by (cases e) (simp_all add: fs)
  qed
qed


section \<open>Traversal\<close>

lemma gen_stack_next:
  assumes "gen_stack s fs" and "fst (last fs) = r"
  shows "iterator_next r s = (s, Resumed (fst (hd fs)))" and "\<not> iterator_at_end r s"
proof -
  have ne: "fs \<noteq> []" using assms by (simp add: gen_stack_def)
  then have "r \<in> fst ` set fs" using assms by (auto simp flip: assms(2))
  then show "iterator_next r s = (s, Resumed (fst (hd fs)))"
    using assms by (auto simp: gen_stack_def tops_def iterator_next_def split: option.splits)
  have "\<exists>n. nodes s a = Some n \<and> \<not> at_final n" if "frames s ch fs" "a \<in> fst ` set fs" for a ch
    using that by (induction fs arbitrary: ch) (auto simp: is_frame_def)
  then show "\<not> iterator_at_end r s"
    using assms(1) \<open>r \<in> fst ` set fs\<close> by (fastforce simp: gen_stack_def iterator_at_end_def)
qed

lemma traverse_stack:
  "gen_stack s fs \<Longrightarrow> fst (last fs) = r \<Longrightarrow>
   \<exists>s'. traverse r vs s (Resumed (fst (hd fs))) =
      Some (rev vs @ fst (stack_outcome ([], None) fs), snd (stack_outcome ([], None) fs), s') \<and>
    dom (nodes s') = {r} \<and> iterator_at_end r s'"
proof (induction fs arbitrary: s vs rule: measure_induct_rule [where f = stack_weight])
  case (less fs)
  have "gen_runs r (stack_weight fs) (stack_outcome ([], None) fs) s (enter (fst (hd fs)) None)"
    by (rule gen_okD [OF gen_ok_stack less.prems]) simp
  then obtain s' c' where run: "run_gen s (Resumed (fst (hd fs))) = Some (s', c')"
    and stops: "gen_stops r (stack_weight fs) (stack_outcome ([], None) fs) s' c'"
    by (auto simp: gen_runs_def)
  show ?case
  proof (cases "\<exists>v gs. c' = Returned \<and> gen_stack s' gs \<and> fst (last gs) = r \<and> stack_weight gs < stack_weight fs \<and>
      iterator_deref r s' = Some v \<and> stack_outcome ([], None) fs = prepend [v] (stack_outcome ([], None) gs)")
    case True
    then obtain v gs where v: "c' = Returned" "gen_stack s' gs" "fst (last gs) = r" "stack_weight gs < stack_weight fs"
      "iterator_deref r s' = Some v" "stack_outcome ([], None) fs = prepend [v] (stack_outcome ([], None) gs)"
      by blast
    from less.IH [OF v(4,2,3), of "v # vs"] show ?thesis
      using v run gen_stack_next [OF v(2,3)] by (subst traverse.simps) simp
  next
    case False
    then show ?thesis
      using stops run unfolding gen_stops_def by (subst traverse.simps) auto
  qed
qed

definition empty_store :: "'v gen_store" where
  "empty_store = \<lparr>nodes = \<lambda>_. None, fresh = 0\<rparr>"

text \<open>A generator in a fresh store, and the range-\<open>for\<close> loop over it.\<close>

definition start_generator :: "'v action list \<Rightarrow> 'v gen_store" where
  "start_generator b = snd (new_generator b empty_store)"

definition collect_generator :: "'v action list \<Rightarrow> ('v list \<times> exn option \<times> 'v gen_store) option" where
  "collect_generator b = traverse 0 [] (fst (gen_begin 0 (start_generator b))) (snd (gen_begin 0 (start_generator b)))"

lemma gen_stack_begin: "gen_stack (fst (gen_begin 0 (start_generator b))) [(0, b)]"
  by (auto simp: gen_stack_def owned_def is_frame_def tops_def top_of_def gen_begin_def start_generator_def
      new_generator_def empty_store_def upd_node_def)

lemma collect_generator_flatten:
  "\<exists>s. collect_generator b = Some (fst (flatten b), snd (flatten b), s) \<and> dom (nodes s) = {0}"
proof -
  obtain s where "traverse 0 [] (fst (gen_begin 0 (start_generator b))) (Resumed 0) =
      Some (fst (flatten b), snd (flatten b), s)" "dom (nodes s) = {0}"
    using traverse_stack [OF gen_stack_begin [of b], of 0 "[]"] by (auto simp: stack_outcome_Cons)
  then show ?thesis by (auto simp: collect_generator_def gen_begin_def)
qed

text \<open>C25. Traversing a generator, however its body nests other generators and ranges and wherever exceptions are thrown and
  caught, ends, sees exactly the elements that the body denotes in order, and lets out exactly the exception that the body
  does not catch; every nested coroutine has been destroyed by then.
\<close>

theorem generator_traversal_flattens:
  "\<exists>s. collect_generator b = Some (fst (flatten b), snd (flatten b), s) \<and> dom (nodes s) = {0}"
  by (rule collect_generator_flatten)

section \<open>Destroying a generator before its end\<close>

text \<open>A loop that is left after \<open>k\<close> elements.\<close>

fun advance :: "nat \<Rightarrow> addr \<Rightarrow> 'v gen_store \<Rightarrow> control \<Rightarrow> 'v gen_store option" where
  "advance k r s c =
     (case run_gen s c of
        None \<Rightarrow> None
      | Some (s', c') \<Rightarrow>
          if c' \<noteq> Returned then (if c' = Stuck then None else Some s')
          else if iterator_at_end r s' then Some s'
          else (case k of 0 \<Rightarrow> Some s'
                | Suc k' \<Rightarrow> advance k' r (fst (iterator_next r s')) (snd (iterator_next r s'))))"

declare advance.simps [simp del]

definition stop_after :: "nat \<Rightarrow> 'v action list \<Rightarrow> ('v gen_store \<times> control) option" where
  "stop_after k b =
     Option.bind (advance k 0 (fst (gen_begin 0 (start_generator b))) (snd (gen_begin 0 (start_generator b))))
       (\<lambda>s. run_gen (fst (gen_destroy 0 s)) (snd (gen_destroy 0 s)))"

definition gen_suspended :: "addr \<Rightarrow> 'v gen_store \<Rightarrow> bool" where
  "gen_suspended r s \<longleftrightarrow>
     (dom (nodes s) = {r} \<and> map_option new_top (nodes s r) = Some None) \<or> (\<exists>fs. gen_stack s fs \<and> fst (last fs) = r)"

lemma advance_stack:
  "gen_stack s fs \<Longrightarrow> fst (last fs) = r \<Longrightarrow>
   \<exists>s'. advance k r s (Resumed (fst (hd fs))) = Some s' \<and> gen_suspended r s'"
proof (induction k arbitrary: s fs)
  case (0 s fs)
  have "gen_runs r (stack_weight fs) (stack_outcome ([], None) fs) s (enter (fst (hd fs)) None)"
    by (rule gen_okD [OF gen_ok_stack 0]) simp
  then show ?case
    by (subst advance.simps) (auto simp: gen_runs_def gen_stops_def gen_suspended_def)
next
  case (Suc k s fs)
  have "gen_runs r (stack_weight fs) (stack_outcome ([], None) fs) s (enter (fst (hd fs)) None)"
    by (rule gen_okD [OF gen_ok_stack Suc.prems]) simp
  then obtain s' c' where run: "run_gen s (Resumed (fst (hd fs))) = Some (s', c')"
    and stops: "gen_stops r (stack_weight fs) (stack_outcome ([], None) fs) s' c'"
    by (auto simp: gen_runs_def)
  show ?case
  proof (cases "\<exists>gs. c' = Returned \<and> gen_stack s' gs \<and> fst (last gs) = r")
    case True
    then obtain gs where v: "c' = Returned" "gen_stack s' gs" "fst (last gs) = r" by blast
    from Suc.IH [OF v(2,3)] show ?thesis
      using v run gen_stack_next [OF v(2,3)] by (subst advance.simps) simp
  next
    case False
    then show ?thesis
      using stops run unfolding gen_stops_def by (subst advance.simps) (auto simp: gen_suspended_def)
  qed
qed

text \<open>The frames of a stack, from the outermost inwards, as \<open>destroy\<close> visits them.\<close>

fun inner_chain :: "'v gen_store \<Rightarrow> ptr \<Rightarrow> addr list \<Rightarrow> bool" where
  "inner_chain s ch [] = True"
| "inner_chain s ch (a # as) = (map_option new_top (nodes s a) = Some ch \<and> inner_chain s (Some a) as)"

lemma frames_inner: "frames s ch fs \<Longrightarrow> inner_chain s ch (map fst fs)"
  by (induction fs arbitrary: ch) (auto simp: is_frame_def)

lemma inner_chain_snoc:
  "inner_chain s ch (as @ [a]) \<longleftrightarrow>
   inner_chain s ch as \<and> map_option new_top (nodes s a) = Some (if as = [] then ch else Some (last as))"
  by (induction as arbitrary: ch) auto

lemma inner_chain_cong:
  "(\<And>a. a \<in> set as \<Longrightarrow> nodes s' a = nodes s a) \<Longrightarrow> inner_chain s' ch as = inner_chain s ch as"
  by (induction as arbitrary: ch) auto

lemma run_destroy:
  "inner_chain s None as \<Longrightarrow> distinct as \<Longrightarrow> dom (nodes s) = set as \<Longrightarrow>
   \<exists>s'. run_gen s (Destroying (if as = [] then None else Some (last as))) = Some (s', Returned) \<and> dom (nodes s') = {}"
proof (induction as arbitrary: s rule: rev_induct)
  case Nil
  have "run_gen s (Destroying None) = run_gen s Returned" by (rule run_gen_step) simp_all
  then show ?case using Nil by simp
next
  case (snoc a as)
  obtain n where n: "nodes s a = Some n" "new_top n = (if as = [] then None else Some (last as))"
    using snoc.prems(1) by (auto simp: inner_chain_snoc)
  have "run_gen s (Destroying (Some a)) =
      run_gen (free_node a s) (Destroying (if as = [] then None else Some (last as)))"
    by (rule run_gen_step) (simp_all add: n)
  moreover have "inner_chain (free_node a s) None as = inner_chain s None as"
    using snoc.prems(2) by (intro inner_chain_cong) (auto simp: nodes_free_node)
  ultimately show ?case
    using snoc.IH [of "free_node a s"] snoc.prems by (auto simp: inner_chain_snoc)
qed

lemma gen_suspended_destroy:
  assumes "gen_suspended r s"
  shows "\<exists>s'. run_gen s (Destroying (Some r)) = Some (s', Returned) \<and> dom (nodes s') = {}"
proof -
  have "\<exists>as. as \<noteq> [] \<and> last as = r \<and> inner_chain s None as \<and> distinct as \<and> dom (nodes s) = set as"
    using assms unfolding gen_suspended_def
  proof (elim disjE exE conjE)
    fix fs assume "gen_stack s fs" "fst (last fs) = r"
    then show ?thesis
      by (intro exI [of _ "map fst fs"]) (auto simp: gen_stack_def owned_def frames_inner last_map)
  qed (auto intro!: exI [of _ "[r]"])
  then show ?thesis using run_destroy by fastforce
qed

text \<open>C26. A generator destroyed at any point of its traversal, in the middle of any nesting of generators and ranges, at its
  end or after an exception, takes every coroutine of its stack with it.
\<close>

theorem generator_destruction_frees_all:
  "\<exists>s. stop_after k b = Some (s, Returned) \<and> dom (nodes s) = {}"
proof -
  obtain s where "advance k 0 (fst (gen_begin 0 (start_generator b))) (Resumed 0) = Some s" "gen_suspended 0 s"
    using advance_stack [OF gen_stack_begin [of b], of 0 k] by auto
  then show ?thesis
    using gen_suspended_destroy [of 0 s] by (simp add: stop_after_def gen_begin_def gen_destroy_def)
qed

end
