(* ===== verification/Resolver.thy ===== *)
theory Resolver
  imports Generator Io_Frontend
begin

text \<open>
  Name resolution: \<open>basic_resolver\<close> of \<open>include/coio/net/resolver.h\<close> and \<open>src/linux/net/resolver.cpp\<close>.

  The operating system's \<open>getaddrinfo\<close> is a parameter: a function of the hints and of the two C strings (\<open>None\<close> is the
  null pointer) that gives an error number or the linked list of results, here the list of its nodes.
\<close>

type_synonym c_int = "32 word"

text \<open>\<open>c_str\<close>: what a C function reads of a string ends at its first null character.\<close>

definition c_str :: "string \<Rightarrow> string" where
  "c_str s = takeWhile (\<lambda>c. c \<noteq> CHR 0x00) s"

definition c_str_or_null :: "string \<Rightarrow> string option" where
  "c_str_or_null s = (if s = [] then None else Some (c_str s))"

text \<open>The flags have the numbers of Linux.\<close>

definition ai_passive_v :: c_int where "ai_passive_v = 0x01"
definition ai_canonname_v :: c_int where "ai_canonname_v = 0x02"
definition ai_numerichost_v :: c_int where "ai_numerichost_v = 0x04"
definition ai_v4mapped_v :: c_int where "ai_v4mapped_v = 0x08"
definition ai_all_v :: c_int where "ai_all_v = 0x10"
definition ai_addrconfig_v :: c_int where "ai_addrconfig_v = 0x20"
definition ai_numericserv_v :: c_int where "ai_numericserv_v = 0x400"

record resolve_query =
  host_name :: string
  service_name :: string
  query_flags :: c_int

definition new_query :: "string \<Rightarrow> string \<Rightarrow> resolve_query" where
  "new_query host service =
     \<lparr>host_name = host, service_name = service, query_flags = ai_v4mapped_v OR ai_addrconfig_v\<rparr>"

record resolve_result =
  res_endpoint :: endpoint
  res_canonical_name :: string

record addrinfo_hints =
  ai_flags :: c_int
  ai_family :: int
  ai_socktype :: int
  ai_protocol :: int

record addrinfo =
  ai_addr :: sockaddr
  ai_canonname :: "string option"

type_synonym getaddrinfo = "string option \<Rightarrow> string option \<Rightarrow> addrinfo_hints \<Rightarrow> int + addrinfo list"

text \<open>
  \<open>foreach_addrinfo\<close>: the element for a node. An address of another family runs into \<open>unreachable()\<close>, the value
  \<^term>\<open>Inl Terminate\<close>.
\<close>

definition resolve_entry :: "bool \<Rightarrow> addrinfo \<Rightarrow> error + resolve_result" where
  "resolve_entry le ai =
     (case sockaddr_to_endpoint le (ai_addr ai) of
        Inl e \<Rightarrow> Inl e
      | Inr ep \<Rightarrow> Inr \<lparr>res_endpoint = ep,
          res_canonical_name = (case ai_canonname ai of Some s \<Rightarrow> s | None \<Rightarrow> [])\<rparr>)"

fun foreach_addrinfo :: "bool \<Rightarrow> addrinfo list \<Rightarrow> (error + resolve_result) action list" where
  "foreach_addrinfo le [] = []"
| "foreach_addrinfo le (ai # rest) = Yield (resolve_entry le ai) # foreach_addrinfo le rest"

text \<open>The lookup itself is not part of the coroutine: it runs, and throws, in the call.\<close>

definition resolve_impl ::
    "bool \<Rightarrow> getaddrinfo \<Rightarrow> resolve_query \<Rightarrow> int \<Rightarrow> int \<Rightarrow> int \<Rightarrow> error + (error + resolve_result) action list" where
  "resolve_impl le gai q family socktype proto =
     (case gai (c_str_or_null (host_name q)) (c_str_or_null (service_name q))
        \<lparr>ai_flags = query_flags q, ai_family = family, ai_socktype = socktype, ai_protocol = proto\<rparr> of
        Inl ec \<Rightarrow> Inl (GaiError ec)
      | Inr ai_head \<Rightarrow> Inr (foreach_addrinfo le ai_head))"

definition resolve_unspec_impl ::
    "bool \<Rightarrow> getaddrinfo \<Rightarrow> resolve_query \<Rightarrow> int \<Rightarrow> int \<Rightarrow> error + (error + resolve_result) action list" where
  "resolve_unspec_impl le gai q socktype proto = resolve_impl le gai q 0 socktype proto"

text \<open>
  \<open>basic_resolver<Protocol>\<close>: \<open>resolve\<close> without and with a protocol. The static type of the protocol gives the socket
  type and the protocol number, its value the family.
\<close>

definition resolve ::
    "bool \<Rightarrow> getaddrinfo \<Rightarrow> protocol \<Rightarrow> resolve_query \<Rightarrow> error + (error + resolve_result) action list" where
  "resolve le gai p q = resolve_unspec_impl le gai q (protocol_type p) (protocol_id p)"

definition resolve_for ::
    "bool \<Rightarrow> getaddrinfo \<Rightarrow> protocol \<Rightarrow> resolve_query \<Rightarrow> error + (error + resolve_result) action list" where
  "resolve_for le gai p q = resolve_impl le gai q (protocol_family p) (protocol_type p) (protocol_id p)"

text \<open>
  \<open>async_resolve\<close>: \<open>then\<close> applied to the completion of \<open>schedule\<close>; an exception of the call becomes an error completion.
\<close>

definition then_call :: "('a \<Rightarrow> error + 'b) \<Rightarrow> 'a receiver_call \<Rightarrow> 'b receiver_call" where
  "then_call f c =
     (case c of
        SetValue a \<Rightarrow> (case f a of Inl e \<Rightarrow> SetError e | Inr b \<Rightarrow> SetValue b)
      | SetError e \<Rightarrow> SetError e
      | SetStopped \<Rightarrow> SetStopped)"

definition async_resolve ::
    "bool \<Rightarrow> getaddrinfo \<Rightarrow> protocol \<Rightarrow> resolve_query \<Rightarrow> unit receiver_call \<Rightarrow>
     (error + resolve_result) action list receiver_call" where
  "async_resolve le gai p q c = then_call (\<lambda>_. resolve_unspec_impl le gai q (protocol_type p) (protocol_id p)) c"

definition async_resolve_for ::
    "bool \<Rightarrow> getaddrinfo \<Rightarrow> protocol \<Rightarrow> resolve_query \<Rightarrow> unit receiver_call \<Rightarrow>
     (error + resolve_result) action list receiver_call" where
  "async_resolve_for le gai p q c =
     then_call (\<lambda>_. resolve_impl le gai q (protocol_family p) (protocol_type p) (protocol_id p)) c"

section \<open>What a lookup delivers\<close>

lemma flatten_foreach: "flatten (foreach_addrinfo le ais) = (map (resolve_entry le) ais, None)"
  by (induction ais) simp_all


text \<open>The family of a node, as \<open>ss_family\<close> holds it: the families of the two \<open>sockaddr\<close> types that endpoints have.\<close>

definition inet_family :: "sockaddr \<Rightarrow> bool" where
  "inet_family sa = (case sa of SockOther _ \<Rightarrow> False | _ \<Rightarrow> True)"

lemma resolve_entry_ok:
  "inet_family (ai_addr ai) \<Longrightarrow>
   \<exists>r. resolve_entry le ai = Inr r \<and> sockaddr_to_endpoint le (ai_addr ai) = Inr (res_endpoint r) \<and>
     res_canonical_name r = (case ai_canonname ai of Some s \<Rightarrow> s | None \<Rightarrow> [])"
  by (auto simp: resolve_entry_def inet_family_def sockaddr_to_endpoint_def split: sockaddr.splits)

text \<open>A lookup fails in the call or not at all: \<open>async_resolve\<close> completes with the error of \<open>getaddrinfo\<close> and its number,
  or with a generator; and the traversal of this generator ends without an exception, after one element for each node of
  the result list, in the order of the list, the element of the node.
\<close>

lemma resolve_delivers_entries:
  "(case gai (c_str_or_null (host_name q)) (c_str_or_null (service_name q))
        \<lparr>ai_flags = query_flags q, ai_family = protocol_family p, ai_socktype = protocol_type p, ai_protocol = protocol_id p\<rparr> of
      Inl ec \<Rightarrow> resolve_for le gai p q = Inl (GaiError ec) \<and>
        async_resolve_for le gai p q (SetValue ()) = SetError (GaiError ec)
    | Inr ais \<Rightarrow> \<exists>g s. resolve_for le gai p q = Inr g \<and> async_resolve_for le gai p q (SetValue ()) = SetValue g \<and>
        collect_generator g = Some (map (resolve_entry le) ais, None, s))"
proof -
  have "\<exists>s. collect_generator (foreach_addrinfo le ais) = Some (map (resolve_entry le) ais, None, s)" for ais
    using collect_generator_flatten [of "foreach_addrinfo le ais"] by (auto simp: flatten_foreach)
  then show ?thesis
    by (auto simp: resolve_for_def async_resolve_for_def then_call_def resolve_impl_def split: sum.split)
qed

end
