(* ===== verification/Co_Memory.thy ===== *)
theory Co_Memory
  imports Prelude
begin

text \<open>
  The memory of a coroutine: \<open>include/coio/detail/co_memory.h\<close>. The coroutine state is followed, in the same allocation,
  by what \<open>operator delete\<close>, which only gets the address and the size, needs to give the memory back: the allocator if it
  has a state, and the function that knows its type if the promise does not.

  Addresses and sizes are 64-bit words with the arithmetic of the code; an allocation is counted in units of
  \<open>default_align_t\<close>, 16 bytes. Placing an object checks that it lies behind the coroutine state, inside the allocation and
  at a multiple of its alignment, and giving memory back checks the allocator and the number of units.
\<close>

record alloc_type =
  al_size :: size_t
  al_align :: size_t
  al_stateless :: bool

datatype 'a co_object = AllocatorObject 'a | DeallocFn alloc_type

record 'a co_heap =
  co_objects :: "size_t \<Rightarrow> 'a co_object option"
  co_live :: "size_t \<Rightarrow> ('a \<times> size_t) option"

definition ceiling_division :: "size_t \<Rightarrow> size_t \<Rightarrow> size_t" where
  "ceiling_division n m = (n + m - 1) div m"

definition ceiling_align :: "size_t \<Rightarrow> size_t \<Rightarrow> size_t" where
  "ceiling_align n m = ceiling_division n m * m"

definition align_address :: "size_t \<Rightarrow> size_t \<Rightarrow> size_t \<Rightarrow> size_t" where
  "align_address p al least_offset = ceiling_align (p + least_offset) al"

definition alloc_max_alignment :: "alloc_type \<Rightarrow> size_t" where
  "alloc_max_alignment t = max (al_align t) 16"

text \<open>What the underlying allocator does: \<open>p\<close> is the address that it returns.\<close>

definition allocate_units :: "'a \<Rightarrow> size_t \<Rightarrow> size_t \<Rightarrow> 'a co_heap \<Rightarrow> 'a co_heap" where
  "allocate_units a p k h = h\<lparr>co_live := (co_live h)(p \<mapsto> (a, k))\<rparr>"

definition deallocate_units :: "'a \<Rightarrow> size_t \<Rightarrow> size_t \<Rightarrow> 'a co_heap \<Rightarrow> error + 'a co_heap" where
  "deallocate_units a p k h =
     (if co_live h p = Some (a, k) then Inr (h\<lparr>co_live := (co_live h)(p := None)\<rparr>) else Inl DeadObject)"

definition place_object ::
    "size_t \<Rightarrow> size_t \<Rightarrow> nat \<Rightarrow> size_t \<Rightarrow> nat \<Rightarrow> nat \<Rightarrow> 'a co_object \<Rightarrow> 'a co_heap \<Rightarrow> error + 'a co_heap" where
  "place_object p k lo q sz al x h =
     (if unat p + lo \<le> unat q \<and> unat q + sz \<le> unat p + 16 * unat k \<and> al dvd unat q
      then Inr (h\<lparr>co_objects := (co_objects h)(q \<mapsto> x)\<rparr>) else Inl HeapOverflow)"

definition remove_object :: "size_t \<Rightarrow> 'a co_heap \<Rightarrow> 'a co_heap" where
  "remove_object q h = h\<lparr>co_objects := (co_objects h)(q := None)\<rparr>"

text \<open>\<open>co_memory<Alloc>\<close>; \<open>a0\<close> is the default-constructed allocator.\<close>

definition stateful_units :: "alloc_type \<Rightarrow> size_t \<Rightarrow> size_t" where
  "stateful_units t n = (n + al_size t + alloc_max_alignment t - 1) div 16"

definition co_allocate :: "alloc_type \<Rightarrow> 'a \<Rightarrow> size_t \<Rightarrow> size_t \<Rightarrow> 'a co_heap \<Rightarrow> error + 'a co_heap" where
  "co_allocate t a p n h =
     (if al_stateless t then Inr (allocate_units a p (ceiling_division n 16) h)
      else place_object p (stateful_units t n) (unat n) (align_address p (al_align t) n)
             (unat (al_size t)) (unat (al_align t)) (AllocatorObject a)
             (allocate_units a p (stateful_units t n) h))"

definition co_deallocate :: "alloc_type \<Rightarrow> 'a \<Rightarrow> size_t \<Rightarrow> size_t \<Rightarrow> 'a co_heap \<Rightarrow> error + 'a co_heap" where
  "co_deallocate t a0 p n h =
     (if al_stateless t then deallocate_units a0 p (ceiling_division n 16) h
      else (case co_objects h (align_address p (al_align t) n) of
              Some (AllocatorObject a) \<Rightarrow>
                deallocate_units a p (stateful_units t n) (remove_object (align_address p (al_align t) n) h)
            | _ \<Rightarrow> Inl DeadObject))"

text \<open>\<open>co_memory<void>\<close>: the type of the allocator is known at the allocation only. A function pointer has 8 bytes.\<close>

definition co_allocate_erased :: "alloc_type \<Rightarrow> 'a \<Rightarrow> size_t \<Rightarrow> size_t \<Rightarrow> 'a co_heap \<Rightarrow> error + 'a co_heap" where
  "co_allocate_erased t a p n h =
     (let k = (if al_stateless t then ceiling_division (n + 8) 16 else stateful_units t (n + 8)) in
      case place_object p k (unat n) (p + n) 8 1 (DeallocFn t) (allocate_units a p k h) of
        Inl e \<Rightarrow> Inl e
      | Inr h1 \<Rightarrow>
          if al_stateless t then Inr h1
          else place_object p k (unat n + 8) (align_address p (al_align t) (n + 8))
                 (unat (al_size t)) (unat (al_align t)) (AllocatorObject a) h1)"

text \<open>The two lambdas whose address the allocation stores.\<close>

definition dealloc_fn :: "alloc_type \<Rightarrow> 'a \<Rightarrow> size_t \<Rightarrow> size_t \<Rightarrow> 'a co_heap \<Rightarrow> error + 'a co_heap" where
  "dealloc_fn t a0 p co_state_size h =
     (let len = co_state_size + 8 in
      if al_stateless t then deallocate_units a0 p (ceiling_division len 16) h
      else (case co_objects h (align_address p (al_align t) len) of
              Some (AllocatorObject a) \<Rightarrow>
                deallocate_units a p (stateful_units t len) (remove_object (align_address p (al_align t) len) h)
            | _ \<Rightarrow> Inl DeadObject))"

definition co_deallocate_erased :: "'a \<Rightarrow> size_t \<Rightarrow> size_t \<Rightarrow> 'a co_heap \<Rightarrow> error + 'a co_heap" where
  "co_deallocate_erased a0 p n h =
     (case co_objects h (p + n) of
        Some (DeallocFn t) \<Rightarrow> dealloc_fn t a0 p n (remove_object (p + n) h)
      | _ \<Rightarrow> Inl DeadObject)"

text \<open>
  \<open>promise_alloc_control<Alloc>\<close>: \<open>erased\<close> says that \<open>Alloc\<close> is \<open>void\<close>. The first \<open>operator new\<close> takes a
  default-constructed allocator, the others the one that follows \<open>std::allocator_arg\<close> among the arguments of the coroutine.
\<close>

definition promise_new :: "bool \<Rightarrow> alloc_type \<Rightarrow> 'a \<Rightarrow> 'a option \<Rightarrow> size_t \<Rightarrow> size_t \<Rightarrow> 'a co_heap \<Rightarrow> error + 'a co_heap" where
  "promise_new erased t a0 arg p n h =
     (let a = (case arg of None \<Rightarrow> a0 | Some a \<Rightarrow> a)
      in if erased then co_allocate_erased t a p n h else co_allocate t a p n h)"

definition promise_delete :: "bool \<Rightarrow> alloc_type \<Rightarrow> 'a \<Rightarrow> size_t \<Rightarrow> size_t \<Rightarrow> 'a co_heap \<Rightarrow> error + 'a co_heap" where
  "promise_delete erased t a0 p n h =
     (if erased then co_deallocate_erased a0 p n h else co_deallocate t a0 p n h)"

section \<open>The layout\<close>

lemma unat_ceiling_division:
  assumes "0 < m" and "unat n + unat m < 2 ^ 64"
  shows "unat (ceiling_division n m) = (unat n + unat m - 1) div unat m"
proof -
  have "1 \<le> n + m"
    using assms by (simp add: word_le_nat_alt unat_add_lt) (simp add: word_less_nat_alt)
  then show ?thesis
    using assms by (simp add: ceiling_division_def unat_div_distrib unat_sub_le unat_add_lt)
qed

text \<open>The least multiple of \<open>m\<close> from \<open>n\<close> on.\<close>

definition round_up :: "nat \<Rightarrow> nat \<Rightarrow> nat" where
  "round_up n m = (n + m - 1) div m * m"

lemma round_up_ge: "0 < m \<Longrightarrow> n \<le> round_up n m"
proof -
  assume m: "0 < m"
  have "n + m - 1 = (n + m - 1) div m * m + (n + m - 1) mod m" by simp
  moreover have "(n + m - 1) mod m < m" using m by simp
  ultimately show ?thesis unfolding round_up_def by linarith
qed

lemma round_up_less: "0 < m \<Longrightarrow> round_up n m < n + m"
  unfolding round_up_def using div_times_less_eq_dividend [of "n + m - 1" m] by linarith

lemma round_up_least: "n \<le> q \<Longrightarrow> m dvd q \<Longrightarrow> 0 < m \<Longrightarrow> round_up n m \<le> q"
proof -
  assume "n \<le> q" "m dvd q" "0 < m"
  then obtain j where j: "q = m * j" by (elim dvdE)
  have "(n + m - 1) div m \<le> (q + (m - 1)) div m" using \<open>n \<le> q\<close> \<open>0 < m\<close> by (intro div_le_mono) simp
  also have "\<dots> = (m - 1 + j * m) div m" by (simp add: j ac_simps)
  also have "\<dots> = j" using \<open>0 < m\<close> by (subst div_mult_self1) simp_all
  finally show ?thesis by (simp add: round_up_def j mult.commute)
qed

lemma unat_align_address:
  assumes "0 < al" and "unat p + unat off + unat al < 2 ^ 64"
  shows "unat (align_address p al off) = round_up (unat p + unat off) (unat al)"
proof -
  have po: "unat (p + off) = unat p + unat off" using assms by (simp add: unat_add_lt)
  have cd: "unat (ceiling_division (p + off) al) = (unat p + unat off + unat al - 1) div unat al"
    using assms po by (simp add: unat_ceiling_division)
  have "round_up (unat p + unat off) (unat al) < unat p + unat off + unat al"
    using assms by (intro round_up_less) (simp add: word_less_nat_alt)
  then have "unat (ceiling_division (p + off) al) * unat al < 2 ^ 64"
    using assms cd by (simp add: round_up_def)
  then show ?thesis
    by (simp add: align_address_def ceiling_align_def unat_mult_lem [THEN iffD1] cd round_up_def)
qed

text \<open>
  The padding that the code reserves is enough for an alignment below the one of the allocation as well as above: the
  object that follows the first \<open>n\<close> bytes of an allocation at \<open>p\<close> ends inside it.
\<close>

lemma layout_fits:
  assumes al: "al dvd 16 \<or> 16 dvd al" and pos: "0 < al" and sz: "al dvd sz" and p: "16 dvd (p :: nat)"
  shows "round_up (p + n) al + sz \<le> p + 16 * ((n + sz + max al 16 - 1) div 16)"
  using al
proof
  assume small: "al dvd 16"
  then have mx: "max al 16 = 16" by (auto dest: dvd_imp_le)
  have "al dvd p" using small p by (rule dvd_trans)
  let ?e = "round_up (n + sz) 16"
  have "al dvd ?e" using small by (auto simp: round_up_def intro: dvd_trans)
  moreover have "n + sz \<le> ?e" by (rule round_up_ge) simp
  ultimately have "round_up (p + n) al \<le> p + (?e - sz)"
    using \<open>al dvd p\<close> sz pos by (intro round_up_least) auto
  then show ?thesis using \<open>n + sz \<le> ?e\<close> by (simp add: mx round_up_def mult.commute)
next
  assume big: "16 dvd al"
  then have mx: "max al 16 = al" using pos by (auto dest: dvd_imp_le)
  let ?q = "round_up (p + n) al"
  have "16 dvd ?q + sz" using big sz by (auto simp: round_up_def intro: dvd_trans)
  moreover have "p \<le> ?q + sz" using round_up_ge [OF pos, of "p + n"] by linarith
  moreover have "16 dvd ?q + sz - p" using \<open>16 dvd ?q + sz\<close> p by (rule dvd_diff_nat)
  ultimately obtain j where j: "?q + sz - p = 16 * j" and "p \<le> ?q + sz" by (auto elim: dvdE)
  have "?q < p + n + al" by (rule round_up_less [OF pos])
  then have "16 * j \<le> n + sz + al - 1" using j by linarith
  then have "j \<le> (n + sz + al - 1) div 16" by linarith
  then show ?thesis using j \<open>p \<le> ?q + sz\<close> by (simp add: mx)
qed


section \<open>Allocation and deallocation\<close>

text \<open>
  What holds of every allocator type (its size is a multiple of its alignment, a power of two), and of the call: the
  allocation is aligned for \<open>default_align_t\<close> and does not reach the end of the address space.
\<close>

definition alloc_type_ok :: "alloc_type \<Rightarrow> bool" where
  "alloc_type_ok t \<longleftrightarrow> 0 < al_align t \<and> (unat (al_align t) dvd 16 \<or> 16 dvd unat (al_align t)) \<and>
     unat (al_align t) dvd unat (al_size t)"

definition in_address_space :: "alloc_type \<Rightarrow> size_t \<Rightarrow> size_t \<Rightarrow> bool" where
  "in_address_space t p n \<longleftrightarrow>
     16 dvd unat p \<and> unat p + unat n + unat (al_size t) + unat (al_align t) + 64 < 2 ^ 64"

lemma unat_alloc_max_alignment: "unat (alloc_max_alignment t) = max (unat (al_align t)) 16"
  by (auto simp: alloc_max_alignment_def max_def word_le_nat_alt)

lemma unat_stateful_units:
  assumes "unat n + unat (al_size t) + unat (al_align t) + 16 < 2 ^ 64"
  shows "unat (stateful_units t n) = (unat n + unat (al_size t) + max (unat (al_align t)) 16 - 1) div 16"
proof -
  let ?m = "alloc_max_alignment t"
  have m: "unat ?m = max (unat (al_align t)) 16" by (rule unat_alloc_max_alignment)
  have ns: "unat (n + al_size t) = unat n + unat (al_size t)" using assms by (simp add: unat_add_lt)
  have "unat (n + al_size t + ?m) = unat n + unat (al_size t) + unat ?m"
    using assms by (subst unat_add_lt) (simp_all add: ns m)
  moreover from this have "1 \<le> n + al_size t + ?m" by (simp add: word_le_nat_alt m)
  ultimately show ?thesis by (simp add: stateful_units_def unat_div_distrib unat_sub_le m)
qed

lemma unat_plus_eight: "unat n + 8 < 2 ^ 64 \<Longrightarrow> unat (n + 8 :: size_t) = unat n + 8"
  by (simp add: unat_add_lt)

lemma place_allocator:
  assumes ok: "alloc_type_ok t" and room: "in_address_space t p n" and "lo = unat n"
  shows "place_object p (stateful_units t n) lo (align_address p (al_align t) n) (unat (al_size t)) (unat (al_align t)) x h
    = Inr (h\<lparr>co_objects := (co_objects h)(align_address p (al_align t) n \<mapsto> x)\<rparr>)"
    and "unat p + unat n \<le> unat (align_address p (al_align t) n)"
    and "unat p + unat n \<le> unat p + 16 * unat (stateful_units t n)"
    and "unat (align_address p (al_align t) n) < unat p + unat n + unat (al_align t)"
proof -
  have al: "0 < unat (al_align t)" using ok by (simp add: alloc_type_ok_def word_less_nat_alt)
  have q: "unat (align_address p (al_align t) n) = round_up (unat p + unat n) (unat (al_align t))"
    using ok room by (intro unat_align_address) (auto simp: alloc_type_ok_def in_address_space_def)
  have k: "unat (stateful_units t n) = (unat n + unat (al_size t) + max (unat (al_align t)) 16 - 1) div 16"
    using room by (intro unat_stateful_units) (auto simp: in_address_space_def)
  have fits: "round_up (unat p + unat n) (unat (al_align t)) + unat (al_size t) \<le> unat p + 16 * unat (stateful_units t n)"
    unfolding k using ok room al by (intro layout_fits) (auto simp: alloc_type_ok_def in_address_space_def)
  have ge: "unat p + unat n \<le> round_up (unat p + unat n) (unat (al_align t))" using al by (rule round_up_ge)
  show "unat p + unat n \<le> unat (align_address p (al_align t) n)" using ge q by simp
  show "unat (align_address p (al_align t) n) < unat p + unat n + unat (al_align t)"
    unfolding q using al by (rule round_up_less)
  show "unat p + unat n \<le> unat p + 16 * unat (stateful_units t n)" using ge fits by linarith
  show "place_object p (stateful_units t n) lo (align_address p (al_align t) n) (unat (al_size t)) (unat (al_align t)) x h
    = Inr (h\<lparr>co_objects := (co_objects h)(align_address p (al_align t) n \<mapsto> x)\<rparr>)"
    unfolding place_object_def q using ge fits \<open>lo = unat n\<close> by (simp add: round_up_def)
qed

lemma heap_upd_simps [simp]:
  "co_live (allocate_units a p k h) = (co_live h)(p \<mapsto> (a, k))" "co_objects (allocate_units a p k h) = co_objects h"
  "co_live (remove_object q h) = co_live h" "co_objects (remove_object q h) = (co_objects h)(q := None)"
  by (simp_all add: allocate_units_def remove_object_def)

lemma heap_eqI: "co_objects h = co_objects h' \<Longrightarrow> co_live h = co_live h' \<Longrightarrow> h = (h' :: 'a co_heap)"
  by (cases h; cases h') simp

lemma deallocate_units_eq:
  "co_live h p = Some (a, k) \<Longrightarrow> co_objects h = co_objects h' \<Longrightarrow> (co_live h)(p := None) = co_live h' \<Longrightarrow>
   deallocate_units a p k h = Inr h'"
  by (auto simp: deallocate_units_def intro: heap_eqI)

lemma co_memory_roundtrip:
  assumes ok: "alloc_type_ok t" and room: "in_address_space t p n" and free: "co_live h p = None"
    and none: "\<And>q. unat p \<le> unat q \<Longrightarrow> unat q < unat p + unat n + 8 + unat (al_align t) \<Longrightarrow> co_objects h q = None" and a: "al_stateless t \<Longrightarrow> a = a0"
  shows "\<exists>h'. co_allocate t a p n h = Inr h' \<and> co_live h' p \<noteq> None \<and> co_deallocate t a0 p n h' = Inr h"
proof (cases "al_stateless t")
  case True
  then show ?thesis using free a by (auto simp: co_allocate_def co_deallocate_def intro!: deallocate_units_eq)
next
  case False
  let ?q = "align_address p (al_align t) n"
  have "co_objects h ?q = None" using place_allocator(2,4) [OF ok room refl] by (intro none) simp_all
  then show ?thesis
    using False free by (auto simp: co_allocate_def co_deallocate_def place_allocator(1) [OF ok room refl]
        intro!: deallocate_units_eq)
qed

lemma co_memory_erased_roundtrip:
  assumes ok: "alloc_type_ok t" and room: "in_address_space t p (n + 8)" and n: "unat n + 8 < 2 ^ 64"
    and free: "co_live h p = None"
    and none: "\<And>q. unat p \<le> unat q \<Longrightarrow> unat q < unat p + unat n + 8 + unat (al_align t) \<Longrightarrow> co_objects h q = None" and a: "al_stateless t \<Longrightarrow> a = a0"
  shows "\<exists>h'. co_allocate_erased t a p n h = Inr h' \<and> co_live h' p \<noteq> None \<and> co_deallocate_erased a0 p n h' = Inr h"
proof -
  have n8: "unat (n + 8) = unat n + 8" using n by (rule unat_plus_eight)
  have pn: "unat (p + n) = unat p + unat n" using room n8 by (simp add: unat_add_lt in_address_space_def)
  have fn: "co_objects h (p + n) = None" using pn by (intro none) simp_all
  show ?thesis
  proof (cases "al_stateless t")
    case True
    have "unat (ceiling_division (n + 8) 16) = (unat n + 8 + 16 - 1) div 16"
      using room n8 by (subst unat_ceiling_division) (auto simp: in_address_space_def)
    then have "unat n + 8 \<le> 16 * unat (ceiling_division (n + 8) 16)"
      using round_up_ge [of 16 "unat n + 8"] by (simp add: round_up_def mult.commute)
    then show ?thesis
      using True free a fn pn
      by (auto simp: co_allocate_erased_def co_deallocate_erased_def dealloc_fn_def place_object_def Let_def
          intro!: deallocate_units_eq)
  next
    case False
    let ?q = "align_address p (al_align t) (n + 8)"
    note place = place_allocator [OF ok room, of "unat n + 8", OF n8 [symmetric]]
    have q: "co_objects h ?q = None" using place(2,4) n8 by (intro none) simp_all
    have ne: "?q \<noteq> p + n" using place(2) pn n8 by auto
    have "place_object p (stateful_units t (n + 8)) (unat n) (p + n) 8 1 (DeallocFn t) h1 =
        Inr (h1\<lparr>co_objects := (co_objects h1)(p + n \<mapsto> DeallocFn t)\<rparr>)" for h1 :: "'a co_heap"
      using place(3) n8 pn by (simp add: place_object_def)
    then show ?thesis
      using False free fn q ne
      by (auto simp: co_allocate_erased_def co_deallocate_erased_def dealloc_fn_def place(1) Let_def
          fun_upd_twist intro!: deallocate_units_eq)
  qed
qed

text \<open>C27. \<open>operator new\<close> and \<open>operator delete\<close> of a promise are inverse: whatever the allocator (with a state or
  without, of an alignment below or above that of the allocation, known to the promise type or not), the allocator and
  the deallocation function are placed behind the coroutine state, aligned and inside the allocation, and \<open>operator delete\<close>,
  which gets only the address and the size, finds them and gives back the same number of units to the same allocator.
\<close>

theorem coroutine_memory_roundtrip:
  assumes "alloc_type_ok t" and "in_address_space t p (n + 8)" and "in_address_space t p n" and "unat n + 8 < 2 ^ 64"
    and "co_live h p = None" and "\<forall>q. unat p \<le> unat q \<and> unat q < unat p + unat n + 8 + unat (al_align t) \<longrightarrow> co_objects h q = None"
    and "al_stateless t \<longrightarrow> arg = None \<or> arg = Some a0"
  shows "\<exists>h'. promise_new erased t a0 arg p n h = Inr h' \<and> co_live h' p \<noteq> None \<and>
    promise_delete erased t a0 p n h' = Inr h"
proof -
  let ?a = "case arg of None \<Rightarrow> a0 | Some a \<Rightarrow> a"
  have a: "?a = a0" if "al_stateless t" using that assms(7) by auto
  show ?thesis
    using co_memory_roundtrip [OF assms(1,3,5), of ?a a0] co_memory_erased_roundtrip [OF assms(1,2,4,5), of ?a a0]
      assms(6) a by (cases erased) (auto simp: promise_new_def promise_delete_def)
qed

theorem coroutine_memory_roundtrip_witness:
  "\<exists>h'. promise_new True \<lparr>al_size = 64, al_align = 32, al_stateless = False\<rparr> (0 :: nat) (Some 7) 0x1010 41
      \<lparr>co_objects = \<lambda>_. None, co_live = \<lambda>_. None\<rparr> = Inr h' \<and> co_live h' 0x1010 \<noteq> None \<and>
    promise_delete True \<lparr>al_size = 64, al_align = 32, al_stateless = False\<rparr> 0 0x1010 41 h' =
      Inr \<lparr>co_objects = \<lambda>_. None, co_live = \<lambda>_. None\<rparr>"
  by (rule coroutine_memory_roundtrip) (simp_all add: alloc_type_ok_def in_address_space_def)

end
