(* ===== verification/Task.thy ===== *)
theory Task
  imports Async_Result
begin

text \<open>
  \<open>task\<close> of \<open>include/coio/task.h\<close>: a coroutine that is started by a receiver (\<open>task_operation\<close>) or by the coroutine
  that awaits it (\<open>task_awaiter\<close>), and completes with a value, an exception, or stopped.

  The body of a task is what it does next: return, throw, or await another task or a sender and go on with the value or
  with the exception that the \<open>co_await\<close> throws. A sender is resolved to its completion, which depends on the environment
  of the promise that awaits it (\<open>'env\<close>: the allocator, the stop token and the scheduler). The number of an awaited task
  is the type of its promise.
\<close>

datatype ('env, 'v) prog =
    Co_Return 'v
  | Co_Throw error
  | Await_Task nat "('env, 'v) prog" "'v \<Rightarrow> ('env, 'v) prog" "error \<Rightarrow> ('env, 'v) prog"
  | Await_Sender "'env \<Rightarrow> 'v receiver_call" "'v \<Rightarrow> ('env, 'v) prog" "error \<Rightarrow> ('env, 'v) prog"

text \<open>
  A coroutine with its promise and its \<open>task_state_base\<close>: \<open>task_result\<close> is \<open>result_\<close>, and \<open>continuation\<close> is
  \<open>continuation_\<close> of a \<open>task_awaiter\<close>, null in a \<open>task_operation\<close>. \<open>awaiting\<close> is the task whose awaiter is alive in the
  frame of the coroutine.
\<close>

record ('env, 'v) task_node =
  promise_type :: nat
  task_prog :: "('env, 'v) prog"
  awaiting :: ptr
  task_result :: "'v async_result"
  continuation :: ptr
  promise_env :: 'env

record ('env, 'v) task_store =
  tasks :: "addr \<Rightarrow> ('env, 'v) task_node option"
  next_task :: addr

datatype 'v task_control =
    TResumed addr
  | TSender addr "'v receiver_call"
  | TComplete addr
  | TUnhandledStopped addr
  | TAwaitResume addr addr
  | TDestroying ptr
  | TReceived "'v receiver_call"
  | TDestroyed
  | TStuck

definition upd_task :: "addr \<Rightarrow> (('env, 'v) task_node \<Rightarrow> ('env, 'v) task_node) \<Rightarrow> ('env, 'v) task_store \<Rightarrow> ('env, 'v) task_store" where
  "upd_task h f s = s\<lparr>tasks := (tasks s)(h := map_option f (tasks s h))\<rparr>"

definition free_task :: "addr \<Rightarrow> ('env, 'v) task_store \<Rightarrow> ('env, 'v) task_store" where
  "free_task h s = s\<lparr>tasks := (tasks s)(h := None)\<rparr>"

text \<open>The call of a task function with the operation state that takes the coroutine over.\<close>

definition connect_task ::
    "nat \<Rightarrow> ptr \<Rightarrow> 'env \<Rightarrow> ('env, 'v) prog \<Rightarrow> ('env, 'v) task_store \<Rightarrow> ('env, 'v) task_store" where
  "connect_task ty cont env p s = s\<lparr>tasks := (tasks s)(next_task s \<mapsto>
       \<lparr>promise_type = ty, task_prog = p, awaiting = None, task_result = ResultNone, continuation = cont,
        promise_env = env\<rparr>),
     next_task := Suc (next_task s)\<rparr>"

text \<open>\<open>return_value\<close> and \<open>return_void\<close>, \<open>unhandled_exception\<close>; both are followed by \<open>final_suspend\<close>.\<close>

definition dispose_with_value :: "addr \<Rightarrow> 'v \<Rightarrow> ('env, 'v) task_store \<Rightarrow> ('env, 'v) task_store" where
  "dispose_with_value h v s = upd_task h (task_result_update (\<lambda>_. ResultValue v)) s"

definition dispose_with_exception :: "addr \<Rightarrow> error \<Rightarrow> ('env, 'v) task_store \<Rightarrow> ('env, 'v) task_store" where
  "dispose_with_exception h e s = upd_task h (task_result_update (\<lambda>_. ResultError e)) s"

text \<open>\<open>await_transform\<close> of a task: the awaiter takes the coroutine and the environment of the awaiting promise.\<close>

definition task_await_suspend ::
    "addr \<Rightarrow> ('env, 'v) task_node \<Rightarrow> nat \<Rightarrow> ('env, 'v) prog \<Rightarrow> ('env, 'v) task_store \<Rightarrow>
     ('env, 'v) task_store \<times> 'v task_control" where
  "task_await_suspend h n ty p s =
     (upd_task h (awaiting_update (\<lambda>_. Some (next_task s))) (connect_task ty (Some h) (promise_env n) p s),
      TResumed (next_task s))"

definition resume_body :: "addr \<Rightarrow> ('env, 'v) task_node \<Rightarrow> ('env, 'v) task_store \<Rightarrow> ('env, 'v) task_store \<times> 'v task_control" where
  "resume_body h n s =
     (case task_prog n of
        Co_Return v \<Rightarrow> (dispose_with_value h v s, TComplete h)
      | Co_Throw e \<Rightarrow> (dispose_with_exception h e s, TComplete h)
      | Await_Task ty p k ek \<Rightarrow> task_await_suspend h n ty p s
      | Await_Sender snd_call k ek \<Rightarrow> (s, TSender h (snd_call (promise_env n))))"

text \<open>Going on with a value or an exception that the \<open>co_await\<close> expression gives.\<close>

definition await_value :: "addr \<Rightarrow> 'v \<Rightarrow> ('env, 'v) task_store \<Rightarrow> ('env, 'v) task_store" where
  "await_value h v s = upd_task h (\<lambda>n. n\<lparr>task_prog :=
     (case task_prog n of Await_Task _ _ k _ \<Rightarrow> k v | Await_Sender _ k _ \<Rightarrow> k v | p \<Rightarrow> p), awaiting := None\<rparr>) s"

definition await_exception :: "addr \<Rightarrow> error \<Rightarrow> ('env, 'v) task_store \<Rightarrow> ('env, 'v) task_store" where
  "await_exception h e s = upd_task h (\<lambda>n. n\<lparr>task_prog :=
     (case task_prog n of Await_Task _ _ _ k \<Rightarrow> k e | Await_Sender _ _ k \<Rightarrow> k e | p \<Rightarrow> p), awaiting := None\<rparr>) s"

definition sender_completes :: "addr \<Rightarrow> 'v receiver_call \<Rightarrow> ('env, 'v) task_store \<Rightarrow> ('env, 'v) task_store \<times> 'v task_control" where
  "sender_completes h c s =
     (case c of
        SetValue v \<Rightarrow> (await_value h v s, TResumed h)
      | SetError e \<Rightarrow> (await_exception h e s, TResumed h)
      | SetStopped \<Rightarrow> (s, TUnhandledStopped h))"

text \<open>
  \<open>task_operation::complete\<close> calls the receiver. \<open>task_awaiter::complete\<close> continues the awaiting coroutine; when the
  result is empty it passes the stop on, through a promise that it reaches by the type of the promise of the \<^emph>\<open>awaited\<close>
  task: if the awaiting coroutine has another promise type, what happens is undefined.
\<close>

definition operation_complete :: "('env, 'v) task_node \<Rightarrow> 'v task_control" where
  "operation_complete n = TReceived (result_forward_to (task_result n))"

definition awaiter_complete :: "addr \<Rightarrow> ('env, 'v) task_node \<Rightarrow> addr \<Rightarrow> ('env, 'v) task_store \<Rightarrow> 'v task_control" where
  "awaiter_complete c n h s =
     (if result_index (task_result n) = 0
      then (case tasks s h of
              Some m \<Rightarrow> if promise_type m = promise_type n then TUnhandledStopped h else TStuck
            | None \<Rightarrow> TStuck)
      else TAwaitResume h c)"

text \<open>\<open>task_awaiter::await_resume\<close>, and the destructor of the awaiter at the end of the full expression.\<close>

definition awaiter_await_resume :: "addr \<Rightarrow> addr \<Rightarrow> ('env, 'v) task_node \<Rightarrow> ('env, 'v) task_store \<Rightarrow>
    ('env, 'v) task_store \<times> 'v task_control" where
  "awaiter_await_resume h c n s =
     (case task_result n of
        ResultValue v \<Rightarrow> (free_task c (await_value h v s), TResumed h)
      | ResultError e \<Rightarrow> (free_task c (await_exception h e s), TResumed h)
      | ResultNone \<Rightarrow> (s, TStuck))"

fun task_step :: "('env, 'v) task_store \<Rightarrow> 'v task_control \<Rightarrow> ('env, 'v) task_store \<times> 'v task_control" where
  "task_step s (TResumed h) = (case tasks s h of None \<Rightarrow> (s, TStuck) | Some n \<Rightarrow> resume_body h n s)"
| "task_step s (TSender h c) = sender_completes h c s"
| "task_step s (TComplete h) =
     (case tasks s h of
        None \<Rightarrow> (s, TStuck)
      | Some n \<Rightarrow> (s, case continuation n of None \<Rightarrow> operation_complete n | Some p \<Rightarrow> awaiter_complete h n p s))"
| "task_step s (TUnhandledStopped h) = (s, TComplete h)"
| "task_step s (TAwaitResume h c) =
     (case tasks s c of None \<Rightarrow> (s, TStuck) | Some n \<Rightarrow> awaiter_await_resume h c n s)"
| "task_step s (TDestroying (Some h)) =
     (case tasks s h of None \<Rightarrow> (s, TStuck) | Some n \<Rightarrow> (free_task h s, TDestroying (awaiting n)))"
| "task_step s (TDestroying None) = (s, TDestroyed)"
| "task_step s c = (s, c)"

fun task_halted :: "'v task_control \<Rightarrow> bool" where
  "task_halted (TReceived _) = True"
| "task_halted TDestroyed = True"
| "task_halted TStuck = True"
| "task_halted _ = False"

partial_function (option) run_task ::
    "('env, 'v) task_store \<Rightarrow> 'v task_control \<Rightarrow> (('env, 'v) task_store \<times> 'v task_control) option" where
  "run_task s c =
     (if task_halted c then Some (s, c) else run_task (fst (task_step s c)) (snd (task_step s c)))"

text \<open>\<open>task_operation\<close>: construction, \<open>start\<close>, and the destructor, which destroys the coroutine.\<close>

definition empty_tasks :: "('env, 'v) task_store" where
  "empty_tasks = \<lparr>tasks = \<lambda>_. None, next_task = 0\<rparr>"

definition task_operation :: "nat \<Rightarrow> 'env \<Rightarrow> ('env, 'v) prog \<Rightarrow> ('env, 'v) task_store" where
  "task_operation ty env p = connect_task ty None env p empty_tasks"

definition start_task :: "nat \<Rightarrow> 'env \<Rightarrow> ('env, 'v) prog \<Rightarrow> (('env, 'v) task_store \<times> 'v task_control) option" where
  "start_task ty env p = run_task (task_operation ty env p) (TResumed 0)"

definition destroy_task :: "('env, 'v) task_store \<Rightarrow> (('env, 'v) task_store \<times> 'v task_control) option" where
  "destroy_task s = run_task s (TDestroying (Some 0))"

section \<open>What a task denotes\<close>

text \<open>The reference: an awaited task is evaluated in place, in the environment of the one that awaits it.\<close>

primrec eval_task :: "'env \<Rightarrow> ('env, 'v) prog \<Rightarrow> 'v receiver_call" where
  "eval_task env (Co_Return v) = SetValue v"
| "eval_task env (Co_Throw e) = SetError e"
| "eval_task env (Await_Task ty p k ek) =
     (case eval_task env p of
        SetValue v \<Rightarrow> eval_task env (k v)
      | SetError e \<Rightarrow> eval_task env (ek e)
      | SetStopped \<Rightarrow> SetStopped)"
| "eval_task env (Await_Sender snd_call k ek) =
     (case snd_call env of
        SetValue v \<Rightarrow> eval_task env (k v)
      | SetError e \<Rightarrow> eval_task env (ek e)
      | SetStopped \<Rightarrow> SetStopped)"

text \<open>All the tasks that a body awaits have the promise type \<open>ty\<close>.\<close>

primrec uniform :: "nat \<Rightarrow> ('env, 'v) prog \<Rightarrow> bool" where
  "uniform ty (Co_Return v) = True"
| "uniform ty (Co_Throw e) = True"
| "uniform ty (Await_Task t p k ek) = (t = ty \<and> uniform ty p \<and> (\<forall>v. uniform ty (k v)) \<and> (\<forall>e. uniform ty (ek e)))"
| "uniform ty (Await_Sender c k ek) = ((\<forall>v. uniform ty (k v)) \<and> (\<forall>e. uniform ty (ek e)))"


section \<open>The run of one coroutine\<close>

lemma run_task_halted [simp]: "task_halted c \<Longrightarrow> run_task s c = Some (s, c)"
  by (subst run_task.simps) simp

lemma run_task_step: "\<not> task_halted c \<Longrightarrow> task_step s c = (s', c') \<Longrightarrow> run_task s c = run_task s' c'"
  by (subst run_task.simps) simp

lemma tasks_upd_task: "tasks (upd_task h f s) a = (if a = h then map_option f (tasks s h) else tasks s a)"
  by (simp add: upd_task_def)

lemma tasks_free_task: "tasks (free_task h s) a = (if a = h then None else tasks s a)"
  by (simp add: free_task_def)

lemma next_task_simps [simp]:
  "next_task (upd_task h f s) = next_task s" "next_task (free_task h s) = next_task s"
  by (simp_all add: upd_task_def free_task_def)

lemma dom_upd_task [simp]: "dom (tasks (upd_task h f s)) = dom (tasks s)"
  by (auto simp: tasks_upd_task split: if_splits)

lemma dom_free_task [simp]: "dom (tasks (free_task h s)) = dom (tasks s) - {h}"
  by (auto simp: tasks_free_task split: if_splits)

text \<open>The tasks below a coroutine, each awaited by the one before.\<close>

fun below :: "('env, 'v) task_store \<Rightarrow> ptr \<Rightarrow> addr list \<Rightarrow> bool" where
  "below s p [] = (p = None)"
| "below s p (c # cs) = (p = Some c \<and> (\<exists>n. tasks s c = Some n \<and> below s (awaiting n) cs))"

lemma below_cong: "(\<And>a. a \<in> set cs \<Longrightarrow> tasks s' a = tasks s a) \<Longrightarrow> below s' p cs = below s p cs"
  by (induction cs arbitrary: p) auto

definition bounded_store :: "('env, 'v) task_store \<Rightarrow> bool" where
  "bounded_store s \<longleftrightarrow> (\<forall>a \<in> dom (tasks s). a < next_task s)"

definition result_of :: "'v receiver_call \<Rightarrow> 'v async_result" where
  "result_of c = (case c of SetValue v \<Rightarrow> ResultValue v | SetError e \<Rightarrow> ResultError e | SetStopped \<Rightarrow> ResultNone)"

lemma result_of_simps [simp]:
  "result_of (SetValue v) = ResultValue v" "result_of (SetError e) = ResultError e" "result_of SetStopped = ResultNone"
  "result_forward_to (result_of c) = c"
  by (simp_all add: result_of_def result_forward_to_def split: receiver_call.splits)

text \<open>
  The coroutine \<open>h\<close> of \<open>s\<close> has completed with \<open>out\<close>: the other coroutines are as before, and new ones are left only by
  a stop, in a chain below \<open>h\<close>.
\<close>

definition task_settles :: "addr \<Rightarrow> ('env, 'v) task_store \<Rightarrow> 'v receiver_call \<Rightarrow> ('env, 'v) task_store \<Rightarrow> bool" where
  "task_settles h s out s' \<longleftrightarrow>
     bounded_store s' \<and> next_task s \<le> next_task s' \<and> (\<forall>a \<in> dom (tasks s) - {h}. tasks s' a = tasks s a) \<and>
     (\<exists>n n' cs. tasks s h = Some n \<and> tasks s' h = Some n' \<and> promise_type n' = promise_type n \<and>
        continuation n' = continuation n \<and> promise_env n' = promise_env n \<and> task_result n' = result_of out \<and>
        below s' (awaiting n') cs \<and> distinct cs \<and> dom (tasks s') = dom (tasks s) \<union> set cs \<and>
        set cs \<inter> dom (tasks s) = {} \<and> (out \<noteq> SetStopped \<longrightarrow> cs = []))"

definition task_runs :: "addr \<Rightarrow> ('env, 'v) task_store \<Rightarrow> 'v receiver_call \<Rightarrow> bool" where
  "task_runs h s out \<longleftrightarrow> (\<exists>s'. run_task s (TResumed h) = run_task s' (TComplete h) \<and> task_settles h s out s')"

text \<open>What changes only the body and the awaiter of \<open>h\<close> does not matter to how \<open>h\<close> settles.\<close>

lemma task_settles_upd:
  assumes "task_settles h s' out s''"
    and "next_task s \<le> next_task s'" "dom (tasks s') = dom (tasks s)" "\<forall>a \<in> dom (tasks s) - {h}. tasks s' a = tasks s a"
    and "tasks s h = Some n" "tasks s' h = Some n'" "promise_type n' = promise_type n" "continuation n' = continuation n"
      "promise_env n' = promise_env n"
  shows "task_settles h s out s''"
  using assms unfolding task_settles_def by (elim conjE exE) (intro conjI exI; auto)

definition ready_task :: "addr \<Rightarrow> ('env, 'v) task_store \<Rightarrow> ('env, 'v) task_node \<Rightarrow> bool" where
  "ready_task h s n \<longleftrightarrow> bounded_store s \<and> tasks s h = Some n \<and> awaiting n = None \<and> task_result n = ResultNone"

lemma task_runs_return:
  assumes "ready_task h s n" and "task_prog n = Co_Return v \<and> c = SetValue v \<or> task_prog n = Co_Throw e \<and> c = SetError e"
  shows "task_runs h s c"
proof -
  let ?s = "upd_task h (task_result_update (\<lambda>_. result_of c)) s"
  have "run_task s (TResumed h) = run_task ?s (TComplete h)"
    using assms by (intro run_task_step)
      (auto simp: ready_task_def resume_body_def dispose_with_value_def dispose_with_exception_def)
  moreover have "task_settles h s c ?s"
    using assms(1) unfolding task_settles_def ready_task_def bounded_store_def
    by (auto simp: tasks_upd_task intro!: exI [of _ "[]"])
  ultimately show ?thesis by (auto simp: task_runs_def)
qed

text \<open>Going on with the body \<open>p'\<close> after an awaited task or sender.\<close>

lemma task_runs_continue:
  assumes st: "ready_task h s n" and eq: "run_task s (TResumed h) = run_task s' (TResumed h)"
    and s': "bounded_store s'" "next_task s \<le> next_task s'" "dom (tasks s') = dom (tasks s)"
      "\<forall>a \<in> dom (tasks s) - {h}. tasks s' a = tasks s a" "tasks s' h = Some (n\<lparr>task_prog := p'\<rparr>)"
    and IH: "\<And>m. ready_task h s' m \<Longrightarrow> task_prog m = p' \<Longrightarrow> promise_type m = promise_type n \<Longrightarrow>
      promise_env m = promise_env n \<Longrightarrow> task_runs h s' out"
  shows "task_runs h s out"
proof -
  have "task_runs h s' out"
    using st s' by (intro IH [of "n\<lparr>task_prog := p'\<rparr>"]) (simp_all add: ready_task_def)
  then obtain s'' where "run_task s' (TResumed h) = run_task s'' (TComplete h)" "task_settles h s' out s''"
    by (auto simp: task_runs_def)
  moreover from this(2) have "task_settles h s out s''"
    by (rule task_settles_upd [where n = n and n' = "n\<lparr>task_prog := p'\<rparr>"]) (use st s' in \<open>simp_all add: ready_task_def\<close>)
  ultimately show ?thesis using eq by (auto simp: task_runs_def)
qed


lemma sender_continue:
  assumes st: "ready_task h s n"
  shows "bounded_store (await_value h v s)" "bounded_store (await_exception h e s)"
    and "tasks (await_value h v s) h = Some (n\<lparr>task_prog :=
      (case task_prog n of Await_Task _ _ k _ \<Rightarrow> k v | Await_Sender _ k _ \<Rightarrow> k v | p \<Rightarrow> p)\<rparr>)"
    and "tasks (await_exception h e s) h = Some (n\<lparr>task_prog :=
      (case task_prog n of Await_Task _ _ _ k \<Rightarrow> k e | Await_Sender _ _ k \<Rightarrow> k e | p \<Rightarrow> p)\<rparr>)"
  using st by (auto simp: ready_task_def bounded_store_def await_value_def await_exception_def tasks_upd_task)

lemma task_runs_sender:
  assumes st: "ready_task h s n" and p: "task_prog n = Await_Sender c k ek"
    and k: "\<And>v s m. ready_task h s m \<Longrightarrow> task_prog m = k v \<Longrightarrow> promise_type m = promise_type n \<Longrightarrow>
      promise_env m = promise_env n \<Longrightarrow> task_runs h s (eval_task (promise_env n) (k v))"
    and ek: "\<And>e s m. ready_task h s m \<Longrightarrow> task_prog m = ek e \<Longrightarrow> promise_type m = promise_type n \<Longrightarrow>
      promise_env m = promise_env n \<Longrightarrow> task_runs h s (eval_task (promise_env n) (ek e))"
  shows "task_runs h s (eval_task (promise_env n) (Await_Sender c k ek))"
proof -
  have step: "run_task s (TResumed h) = run_task s (TSender h (c (promise_env n)))"
    using st p by (intro run_task_step) (simp_all add: ready_task_def resume_body_def)
  show ?thesis
  proof (cases "c (promise_env n)")
    case (SetValue v)
    have "run_task s (TSender h (SetValue v)) = run_task (await_value h v s) (TResumed h)"
      by (intro run_task_step) (simp_all add: sender_completes_def)
    then have "run_task s (TResumed h) = run_task (await_value h v s) (TResumed h)" using step SetValue by simp
    then have "task_runs h s (eval_task (promise_env n) (k v))"
    proof (rule task_runs_continue [OF st, where p' = "k v"])
      show "bounded_store (await_value h v s)" by (rule sender_continue [OF st])
      show "tasks (await_value h v s) h = Some (n\<lparr>task_prog := k v\<rparr>)"
        using sender_continue(3) [OF st] p by simp
      fix m
      assume "ready_task h (await_value h v s) m" "task_prog m = k v" "promise_type m = promise_type n" "promise_env m = promise_env n"
      then show "task_runs h (await_value h v s) (eval_task (promise_env n) (k v))" by (rule k)
    qed (simp_all add: await_value_def tasks_upd_task)
    then show ?thesis by (simp add: SetValue)
  next
    case (SetError e)
    have "run_task s (TSender h (SetError e)) = run_task (await_exception h e s) (TResumed h)"
      by (intro run_task_step) (simp_all add: sender_completes_def)
    then have "run_task s (TResumed h) = run_task (await_exception h e s) (TResumed h)" using step SetError by simp
    then have "task_runs h s (eval_task (promise_env n) (ek e))"
    proof (rule task_runs_continue [OF st, where p' = "ek e"])
      show "bounded_store (await_exception h e s)" by (rule sender_continue [OF st])
      show "tasks (await_exception h e s) h = Some (n\<lparr>task_prog := ek e\<rparr>)"
        using sender_continue(4) [OF st] p by simp
      fix m
      assume "ready_task h (await_exception h e s) m" "task_prog m = ek e" "promise_type m = promise_type n" "promise_env m = promise_env n"
      then show "task_runs h (await_exception h e s) (eval_task (promise_env n) (ek e))" by (rule ek)
    qed (simp_all add: await_exception_def tasks_upd_task)
    then show ?thesis by (simp add: SetError)
  next
    case SetStopped
    have "run_task s (TSender h SetStopped) = run_task s (TUnhandledStopped h)"
      by (intro run_task_step) (simp_all add: sender_completes_def)
    also have "\<dots> = run_task s (TComplete h)" by (intro run_task_step) simp_all
    finally have "run_task s (TResumed h) = run_task s (TComplete h)" using step SetStopped by simp
    moreover have "task_settles h s SetStopped s"
      using st unfolding task_settles_def ready_task_def by (auto intro!: exI [of _ "[]"])
    ultimately show ?thesis by (auto simp: SetStopped task_runs_def)
  qed
qed

text \<open>What \<open>co_await\<close> of a task leaves when the awaited task has completed.\<close>

lemma task_awaited:
  assumes st: "ready_task h s n" and p: "task_prog n = Await_Task ty p k ek"
    and IH: "\<And>c s m. ready_task c s m \<Longrightarrow> task_prog m = p \<Longrightarrow> promise_type m = ty \<Longrightarrow>
      promise_env m = promise_env n \<Longrightarrow> task_runs c s out"
  obtains s' m cs where
    "run_task s (TResumed h) = run_task s' (TComplete (next_task s))"
    "bounded_store s'" "next_task s \<le> next_task s'" "\<forall>a \<in> dom (tasks s) - {h}. tasks s' a = tasks s a"
    "tasks s' h = Some (n\<lparr>awaiting := Some (next_task s)\<rparr>)" "tasks s' (next_task s) = Some m"
    "continuation m = Some h" "task_result m = result_of out" "promise_type m = ty" "below s' (awaiting m) cs" "distinct cs"
    "dom (tasks s') = insert (next_task s) (dom (tasks s) \<union> set cs)" "next_task s \<notin> set cs" "h \<noteq> next_task s"
    "set cs \<inter> dom (tasks s) = {}" "out \<noteq> SetStopped \<longrightarrow> cs = []"
proof -
  let ?c = "next_task s" and ?s1 = "fst (task_await_suspend h n ty p s)"
  let ?m = "\<lparr>promise_type = ty, task_prog = p, awaiting = None, task_result = ResultNone, continuation = Some h,
      promise_env = promise_env n\<rparr>"
  have hc: "h < ?c" using st by (auto simp: ready_task_def bounded_store_def)
  have t1: "tasks ?s1 a = (if a = ?c then Some ?m else if a = h then Some (n\<lparr>awaiting := Some ?c\<rparr>) else tasks s a)" for a
    using st hc by (auto simp: task_await_suspend_def connect_task_def tasks_upd_task ready_task_def)
  have n1: "next_task ?s1 = Suc ?c" by (simp add: task_await_suspend_def connect_task_def)
  have d1: "dom (tasks ?s1) = insert ?c (dom (tasks s))"
    using st by (auto simp: t1 ready_task_def split: if_splits)
  have notc: "?c \<notin> dom (tasks s)" using st by (auto simp: ready_task_def bounded_store_def)
  have "ready_task ?c ?s1 ?m"
    using st by (auto simp: ready_task_def t1 n1 d1 bounded_store_def less_Suc_eq)
  then have "task_runs ?c ?s1 out" by (rule IH) simp_all
  then obtain s' where run: "run_task ?s1 (TResumed ?c) = run_task s' (TComplete ?c)" and se: "task_settles ?c ?s1 out s'"
    by (auto simp: task_runs_def)
  have "run_task s (TResumed h) = run_task ?s1 (TResumed ?c)"
    using st p by (intro run_task_step) (simp_all add: ready_task_def resume_body_def task_await_suspend_def)
  with run have run': "run_task s (TResumed h) = run_task s' (TComplete ?c)" by simp
  obtain m m0 cs where se': "bounded_store s'" "next_task ?s1 \<le> next_task s'"
      "\<forall>a \<in> dom (tasks ?s1) - {?c}. tasks s' a = tasks ?s1 a" "tasks ?s1 ?c = Some m0"
      "tasks s' ?c = Some m" "promise_type m = promise_type m0" "continuation m = continuation m0"
      "task_result m = result_of out" "below s' (awaiting m) cs" "distinct cs" "dom (tasks s') = dom (tasks ?s1) \<union> set cs"
      "set cs \<inter> dom (tasks ?s1) = {}" "out \<noteq> SetStopped \<longrightarrow> cs = []"
    using se unfolding task_settles_def by (elim conjE exE) blast
  have m0: "m0 = ?m" using se'(4) by (simp add: t1)
  have h: "tasks s' h = Some (n\<lparr>awaiting := Some ?c\<rparr>)"
  proof -
    have "h \<in> dom (tasks ?s1) - {?c}" using hc st by (auto simp: d1 ready_task_def)
    then have "tasks s' h = tasks ?s1 h" using se'(3) by blast
    then show ?thesis using hc by (simp add: t1)
  qed
  show thesis
  proof (rule that [OF run' se'(1) _ _ h se'(5) _ se'(8) _ se'(9,10)])
    show "next_task s \<le> next_task s'" using se'(2) n1 by simp
    show "\<forall>a \<in> dom (tasks s) - {h}. tasks s' a = tasks s a" using se'(3) notc by (auto simp: t1 d1)
    show "dom (tasks s') = insert ?c (dom (tasks s) \<union> set cs)" using se'(11) d1 by auto
  qed (use se' m0 d1 hc in auto)
qed


lemma task_runs_await:
  assumes st: "ready_task h s n" and p: "task_prog n = Await_Task ty p k ek" and ty: "ty = promise_type n"
    and IH: "\<And>c s m. ready_task c s m \<Longrightarrow> task_prog m = p \<Longrightarrow> promise_type m = ty \<Longrightarrow>
      promise_env m = promise_env n \<Longrightarrow> task_runs c s (eval_task (promise_env n) p)"
    and k: "\<And>v s m. ready_task h s m \<Longrightarrow> task_prog m = k v \<Longrightarrow> promise_type m = promise_type n \<Longrightarrow>
      promise_env m = promise_env n \<Longrightarrow> task_runs h s (eval_task (promise_env n) (k v))"
    and ek: "\<And>e s m. ready_task h s m \<Longrightarrow> task_prog m = ek e \<Longrightarrow> promise_type m = promise_type n \<Longrightarrow>
      promise_env m = promise_env n \<Longrightarrow> task_runs h s (eval_task (promise_env n) (ek e))"
  shows "task_runs h s (eval_task (promise_env n) (Await_Task ty p k ek))"
proof -
  let ?c = "next_task s" and ?out = "eval_task (promise_env n) p"
  obtain s' m cs where aw: "run_task s (TResumed h) = run_task s' (TComplete ?c)"
    "bounded_store s'" "?c \<le> next_task s'" "\<forall>a \<in> dom (tasks s) - {h}. tasks s' a = tasks s a"
    "tasks s' h = Some (n\<lparr>awaiting := Some ?c\<rparr>)" "tasks s' ?c = Some m"
    "continuation m = Some h" "task_result m = result_of ?out" "promise_type m = ty" "below s' (awaiting m) cs" "distinct cs"
    "dom (tasks s') = insert ?c (dom (tasks s) \<union> set cs)" "?c \<notin> set cs" "h \<noteq> ?c"
    "set cs \<inter> dom (tasks s) = {}" "?out \<noteq> SetStopped \<longrightarrow> cs = []"
    by (rule task_awaited [OF st p IH])
  have n: "awaiting n = None" "h \<in> dom (tasks s)" "?c \<notin> dom (tasks s)"
    using st by (auto simp: ready_task_def bounded_store_def)
  have comp: "run_task s' (TComplete ?c) = run_task s' (awaiter_complete ?c m h s')"
    by (intro run_task_step) (simp_all add: aw)
  have resume: "run_task s' (TAwaitResume h ?c) = run_task (fst (awaiter_await_resume h ?c m s')) (snd (awaiter_await_resume h ?c m s'))"
    by (intro run_task_step) (simp_all add: aw)
  show ?thesis
  proof (cases ?out)
    case (SetValue v)
    let ?s = "free_task ?c (await_value h v s')"
    have "run_task s (TResumed h) = run_task ?s (TResumed h)"
      using aw SetValue unfolding aw(1) comp
      by (simp add: awaiter_complete_def result_index_def resume awaiter_await_resume_def)
    then have "task_runs h s (eval_task (promise_env n) (k v))"
    proof (rule task_runs_continue [OF st, where p' = "k v"])
      show "bounded_store ?s" using aw(2) by (auto simp: bounded_store_def await_value_def)
      show "tasks ?s h = Some (n\<lparr>task_prog := k v\<rparr>)"
        using aw(5,14) n p by (simp add: tasks_free_task await_value_def tasks_upd_task)
      fix m
      assume "ready_task h ?s m" "task_prog m = k v" "promise_type m = promise_type n" "promise_env m = promise_env n"
      then show "task_runs h ?s (eval_task (promise_env n) (k v))" by (rule k)
    qed (use aw n SetValue in \<open>auto simp: await_value_def tasks_free_task tasks_upd_task\<close>)
    then show ?thesis by (simp add: SetValue)
  next
    case (SetError e)
    let ?s = "free_task ?c (await_exception h e s')"
    have "run_task s (TResumed h) = run_task ?s (TResumed h)"
      using aw SetError unfolding aw(1) comp
      by (simp add: awaiter_complete_def result_index_def resume awaiter_await_resume_def)
    then have "task_runs h s (eval_task (promise_env n) (ek e))"
    proof (rule task_runs_continue [OF st, where p' = "ek e"])
      show "bounded_store ?s" using aw(2) by (auto simp: bounded_store_def await_exception_def)
      show "tasks ?s h = Some (n\<lparr>task_prog := ek e\<rparr>)"
        using aw(5,14) n p by (simp add: tasks_free_task await_exception_def tasks_upd_task)
      fix m
      assume "ready_task h ?s m" "task_prog m = ek e" "promise_type m = promise_type n" "promise_env m = promise_env n"
      then show "task_runs h ?s (eval_task (promise_env n) (ek e))" by (rule ek)
    qed (use aw n SetError in \<open>auto simp: await_exception_def tasks_free_task tasks_upd_task\<close>)
    then show ?thesis by (simp add: SetError)
  next
    case SetStopped
    have "run_task s' (TUnhandledStopped h) = run_task s' (TComplete h)" by (intro run_task_step) simp_all
    then have run: "run_task s (TResumed h) = run_task s' (TComplete h)"
      using aw SetStopped ty unfolding aw(1) comp by (simp add: awaiter_complete_def result_index_def)
    have "task_settles h s SetStopped s'"
      unfolding task_settles_def
    proof (intro conjI exI)
      show "tasks s h = Some n" "task_result (n\<lparr>awaiting := Some ?c\<rparr>) = result_of SetStopped"
        using st by (simp_all add: ready_task_def)
      show "below s' (awaiting (n\<lparr>awaiting := Some ?c\<rparr>)) (?c # cs)" using aw by simp
      show "dom (tasks s') = dom (tasks s) \<union> set (?c # cs)" using aw(12) by auto
      show "set (?c # cs) \<inter> dom (tasks s) = {}" using aw(15) n by auto
    qed (use aw in simp_all)
    then show ?thesis using run by (auto simp: SetStopped task_runs_def)
  qed
qed

lemma task_runs_prog:
  "ready_task h s n \<Longrightarrow> task_prog n = p \<Longrightarrow> uniform (promise_type n) p \<Longrightarrow> task_runs h s (eval_task (promise_env n) p)"
proof (induction p arbitrary: h s n)
  case (Co_Return v)
  then show ?case by (intro task_runs_return) auto
next
  case (Co_Throw e)
  then show ?case by (intro task_runs_return) auto
next
  case (Await_Task ty p k ek)
  show ?case
  proof (rule task_runs_await [OF Await_Task.prems(1,2)])
    show "ty = promise_type n" using Await_Task.prems by simp
    fix c s' m
    assume "ready_task c s' m" "task_prog m = p" "promise_type m = ty" "promise_env m = promise_env n"
    then show "task_runs c s' (eval_task (promise_env n) p)"
      using Await_Task.IH(1) [of c s' m] Await_Task.prems(3) by simp
  next
    fix v s' m
    assume "ready_task h s' m" "task_prog m = k v" "promise_type m = promise_type n" "promise_env m = promise_env n"
    then show "task_runs h s' (eval_task (promise_env n) (k v))"
      using Await_Task.IH(2) [of "k v" h s' m] Await_Task.prems(3) by simp
  next
    fix e s' m
    assume "ready_task h s' m" "task_prog m = ek e" "promise_type m = promise_type n" "promise_env m = promise_env n"
    then show "task_runs h s' (eval_task (promise_env n) (ek e))"
      using Await_Task.IH(3) [of "ek e" h s' m] Await_Task.prems(3) by simp
  qed
next
  case (Await_Sender c k ek)
  show ?case
  proof (rule task_runs_sender [OF Await_Sender.prems(1,2)])
    fix v s' m
    assume "ready_task h s' m" "task_prog m = k v" "promise_type m = promise_type n" "promise_env m = promise_env n"
    then show "task_runs h s' (eval_task (promise_env n) (k v))"
      using Await_Sender.IH(1) [of "k v" h s' m] Await_Sender.prems(3) by simp
  next
    fix e s' m
    assume "ready_task h s' m" "task_prog m = ek e" "promise_type m = promise_type n" "promise_env m = promise_env n"
    then show "task_runs h s' (eval_task (promise_env n) (ek e))"
      using Await_Sender.IH(2) [of "ek e" h s' m] Await_Sender.prems(3) by simp
  qed
qed

section \<open>Completion and destruction\<close>

lemma run_destroy_chain:
  "below s p cs \<Longrightarrow> distinct cs \<Longrightarrow> dom (tasks s) = set cs \<Longrightarrow>
   \<exists>s'. run_task s (TDestroying p) = Some (s', TDestroyed) \<and> dom (tasks s') = {}"
proof (induction cs arbitrary: s p)
  case Nil
  have "run_task s (TDestroying None) = run_task s TDestroyed" by (rule run_task_step) simp_all
  then show ?case using Nil by simp
next
  case (Cons c cs)
  obtain n where n: "p = Some c" "tasks s c = Some n" "below s (awaiting n) cs" using Cons.prems by auto
  have "run_task s (TDestroying p) = run_task (free_task c s) (TDestroying (awaiting n))"
    by (rule run_task_step) (simp_all add: n)
  moreover have "below (free_task c s) (awaiting n) cs = below s (awaiting n) cs"
    using Cons.prems(2) by (intro below_cong) (auto simp: tasks_free_task)
  ultimately show ?case using Cons.IH [of "free_task c s" "awaiting n"] Cons.prems n by auto
qed

lemma start_task_settles:
  assumes "uniform ty p"
  shows "\<exists>s. start_task ty env p = Some (s, TReceived (eval_task env p)) \<and> task_settles 0 (task_operation ty env p) (eval_task env p) s"
proof -
  let ?n = "\<lparr>promise_type = ty, task_prog = p, awaiting = None, task_result = ResultNone, continuation = None, promise_env = env\<rparr>"
  have st: "ready_task 0 (task_operation ty env p) ?n"
    by (simp add: ready_task_def task_operation_def connect_task_def empty_tasks_def bounded_store_def)
  obtain s' where run: "start_task ty env p = run_task s' (TComplete 0)"
    and se: "task_settles 0 (task_operation ty env p) (eval_task env p) s'"
    using task_runs_prog [OF st refl] assms by (auto simp: task_runs_def start_task_def)
  obtain n' where "tasks s' 0 = Some n'" "continuation n' = None" "task_result n' = result_of (eval_task env p)"
    using se st by (auto simp: task_settles_def ready_task_def)
  then have "run_task s' (TComplete 0) = run_task s' (TReceived (eval_task env p))"
    by (intro run_task_step) (simp_all add: operation_complete_def)
  then show ?thesis using run se by auto
qed

lemma settled_destroy:
  assumes "task_settles 0 (task_operation ty env p) out s"
  shows "\<exists>s'. destroy_task s = Some (s', TDestroyed) \<and> dom (tasks s') = {}"
proof -
  have d: "dom (tasks (task_operation ty env p)) = {0}"
    by (auto simp: task_operation_def connect_task_def empty_tasks_def)
  obtain n cs where "tasks s 0 = Some n" "below s (awaiting n) cs" "distinct cs" "dom (tasks s) = {0} \<union> set cs" "0 \<notin> set cs"
    using assms by (auto simp: task_settles_def d)
  then have "below s (Some 0) (0 # cs)" "distinct (0 # cs)" "dom (tasks s) = set (0 # cs)" by simp_all
  then show ?thesis unfolding destroy_task_def by (rule run_destroy_chain)
qed



text \<open>A task of another promise type that is stopped does not stop the task that awaits it: \<open>complete\<close> takes the promise of
  the awaiting coroutine for one of its own promise type.
\<close>

lemma stopped_task_of_other_type:
  "\<exists>s. start_task ty env (Await_Task (Suc ty) (Await_Sender (\<lambda>_. SetStopped) k ek) k' ek') = Some (s, TStuck)"
  by (auto simp: start_task_def run_task.simps task_operation_def connect_task_def empty_tasks_def resume_body_def
      task_await_suspend_def sender_completes_def awaiter_complete_def upd_task_def result_index_def)

end
