(* ===== verification/Stop_Token.thy ===== *)
theory Stop_Token
  imports Async_Result
begin

text \<open>
  \<open>stop_combiner\<close>, \<open>stop_propagator\<close> and \<open>stop_when\<close> of \<open>include/coio/utils/stop_token.h\<close>.

  A stop source is requested or not; a callback registered with its token runs when the stop is requested, on the thread
  that requests it, or in its own constructor if that is later. A callback of a \<open>stop_combiner\<close> registers one inner
  callback with each token, and all of them call the same \<open>call_once\<close>, from any threads.
\<close>

section \<open>Callbacks of a combined token\<close>

text \<open>
  An inner callback: not constructed yet, registered, called (before the \<open>exchange\<close> of the flag), the one that invokes the
  user's function, finished, or destroyed.
\<close>

datatype inner_pc = InnNone | InnRegistered | InnCalled | InnInvoking | InnFinished | InnGone

record combiner_state =
  cs_stop_possible :: "bool list"
  cs_requested :: "bool list"
  cs_inners :: "inner_pc list"
  cs_flag :: bool
  cs_invoked :: nat

definition any_stop_possible :: "combiner_state \<Rightarrow> bool" where
  "any_stop_possible s = fold (\<lambda>b acc. acc \<or> b) (cs_stop_possible s) False"

definition any_stop_requested :: "combiner_state \<Rightarrow> bool" where
  "any_stop_requested s = fold (\<lambda>b acc. acc \<or> b) (cs_requested s) False"

text \<open>The constructor of \<open>callback_type\<close> before its inner callbacks, for tokens of sources that may be requested already.\<close>

definition new_callback :: "bool list \<Rightarrow> bool list \<Rightarrow> combiner_state" where
  "new_callback possible req = \<lparr>cs_stop_possible = possible, cs_requested = req,
     cs_inners = replicate (length req) InnNone, cs_flag = True, cs_invoked = 0\<rparr>"

definition set_inner :: "nat \<Rightarrow> inner_pc \<Rightarrow> combiner_state \<Rightarrow> combiner_state" where
  "set_inner i pc s = s\<lparr>cs_inners := (cs_inners s)[i := pc]\<rparr>"

text \<open>The inner callback of a source that has been requested runs in its constructor.\<close>

definition construct_inner :: "nat \<Rightarrow> combiner_state \<Rightarrow> combiner_state" where
  "construct_inner i s = set_inner i (if cs_requested s ! i then InnCalled else InnRegistered) s"

definition request_source :: "nat \<Rightarrow> combiner_state \<Rightarrow> combiner_state" where
  "request_source i s =
     (let s' = s\<lparr>cs_requested := (cs_requested s)[i := True]\<rparr>
      in if cs_requested s ! i then s
         else if cs_inners s ! i = InnRegistered then set_inner i InnCalled s' else s')"

text \<open>\<open>call_once::operator()\<close>: the exchange, then the invocation.\<close>

definition call_once_exchange :: "nat \<Rightarrow> combiner_state \<Rightarrow> combiner_state" where
  "call_once_exchange i s =
     set_inner i (if cs_flag s then InnInvoking else InnFinished) (s\<lparr>cs_flag := False\<rparr>)"

definition call_once_invoke :: "nat \<Rightarrow> combiner_state \<Rightarrow> combiner_state" where
  "call_once_invoke i s = set_inner i InnFinished (s\<lparr>cs_invoked := cs_invoked s + 1\<rparr>)"

text \<open>The destructor of an inner callback waits until a call of it on another thread has returned.\<close>

definition destroy_inner :: "nat \<Rightarrow> combiner_state \<Rightarrow> combiner_state" where
  "destroy_inner i s = set_inner i InnGone s"

inductive combiner_step :: "combiner_state \<Rightarrow> combiner_state \<Rightarrow> bool" where
  construct: "i < length (cs_inners s) \<Longrightarrow> cs_inners s ! i = InnNone \<Longrightarrow> (\<forall>j < i. cs_inners s ! j \<noteq> InnNone) \<Longrightarrow>
    combiner_step s (construct_inner i s)"
| request: "i < length (cs_inners s) \<Longrightarrow> combiner_step s (request_source i s)"
| exchange: "i < length (cs_inners s) \<Longrightarrow> cs_inners s ! i = InnCalled \<Longrightarrow> combiner_step s (call_once_exchange i s)"
| invoke: "i < length (cs_inners s) \<Longrightarrow> cs_inners s ! i = InnInvoking \<Longrightarrow> combiner_step s (call_once_invoke i s)"
| destroy: "i < length (cs_inners s) \<Longrightarrow> (\<forall>j < length (cs_inners s). cs_inners s ! j \<noteq> InnNone) \<Longrightarrow>
    cs_inners s ! i = InnRegistered \<or> cs_inners s ! i = InnFinished \<Longrightarrow> combiner_step s (destroy_inner i s)"

inductive combiner_reachable :: "bool list \<Rightarrow> bool list \<Rightarrow> combiner_state \<Rightarrow> bool" for possible req where
  new: "combiner_reachable possible req (new_callback possible req)"
| step: "combiner_reachable possible req s \<Longrightarrow> combiner_step s t \<Longrightarrow> combiner_reachable possible req t"

section \<open>The callback is invoked once\<close>

lemma fold_or: "fold (\<lambda>b acc. acc \<or> b) bs acc \<longleftrightarrow> acc \<or> True \<in> set bs"
  by (induction bs arbitrary: acc) auto

lemma any_stop_requested_iff: "any_stop_requested s \<longleftrightarrow> (\<exists>i < length (cs_requested s). cs_requested s ! i)"
  by (auto simp: any_stop_requested_def fold_or in_set_conv_nth)

lemma any_stop_possible_iff: "any_stop_possible s \<longleftrightarrow> (\<exists>i < length (cs_stop_possible s). cs_stop_possible s ! i)"
  by (auto simp: any_stop_possible_def fold_or in_set_conv_nth)

text \<open>What an inner callback says of its source and of the flag.\<close>

definition inner_ok :: "bool \<Rightarrow> bool \<Rightarrow> inner_pc \<Rightarrow> bool" where
  "inner_ok req flag pc \<longleftrightarrow>
     (case pc of
        InnRegistered \<Rightarrow> \<not> req
      | InnCalled \<Rightarrow> req
      | InnInvoking \<Rightarrow> req \<and> \<not> flag
      | InnFinished \<Rightarrow> req \<and> \<not> flag
      | _ \<Rightarrow> True)"

definition combiner_inv :: "combiner_state \<Rightarrow> bool" where
  "combiner_inv s \<longleftrightarrow>
     length (cs_requested s) = length (cs_inners s) \<and>
     (\<forall>i < length (cs_inners s). inner_ok (cs_requested s ! i) (cs_flag s) (cs_inners s ! i)) \<and>
     cs_invoked s + among (\<lambda>pc. pc = InnInvoking) (cs_inners s) = (if cs_flag s then 0 else 1) \<and>
     (\<not> cs_flag s \<longrightarrow> any_stop_requested s)"

lemma set_inner_simps [simp]:
  "cs_requested (set_inner i pc s) = cs_requested s" "cs_flag (set_inner i pc s) = cs_flag s"
  "cs_invoked (set_inner i pc s) = cs_invoked s" "cs_inners (set_inner i pc s) = (cs_inners s)[i := pc]"
  "any_stop_requested (set_inner i pc s) = any_stop_requested s"
  by (simp_all add: set_inner_def any_stop_requested_def)

text \<open>A move that gives the inner callback \<open>i\<close> another label and does not touch the requests.\<close>

lemma combiner_inv_move:
  assumes "combiner_inv s" and i: "i < length (cs_inners s)"
    and "inner_ok (cs_requested s ! i) fl pc" "cs_flag s = fl \<or> \<not> fl" "fl \<or> cs_requested s ! i \<or> \<not> cs_flag s"
    and calls: "calls + (if pc = InnInvoking then 1 else 0) + (if cs_flag s then 0 else 1) =
      cs_invoked s + (if cs_inners s ! i = InnInvoking then 1 else 0) + (if fl then 0 else 1)"
  shows "combiner_inv (set_inner i pc (s\<lparr>cs_flag := fl, cs_invoked := calls\<rparr>))"
proof -
  have "among (\<lambda>pc. pc = InnInvoking) ((cs_inners s)[i := pc]) + (if cs_inners s ! i = InnInvoking then 1 else 0) =
      among (\<lambda>pc. pc = InnInvoking) (cs_inners s) + (if pc = InnInvoking then 1 else 0)"
    by (rule among_update [OF i])
  then have "calls + among (\<lambda>pc. pc = InnInvoking) ((cs_inners s)[i := pc]) = (if fl then 0 else 1)"
    using assms(1) calls by (simp add: combiner_inv_def split: if_splits)
  moreover have "inner_ok r (cs_flag s) p \<Longrightarrow> inner_ok r fl p" for r p
    using assms(4) by (auto simp: inner_ok_def split: inner_pc.splits)
  moreover have "any_stop_requested (s\<lparr>cs_flag := fl, cs_invoked := calls\<rparr>) = any_stop_requested s"
    by (simp add: any_stop_requested_def)
  ultimately show ?thesis
    using assms(1,3,5) i by (auto simp: combiner_inv_def nth_list_update any_stop_requested_iff)
qed

lemma combiner_inv_request:
  assumes "combiner_inv s" and i: "i < length (cs_inners s)"
  shows "combiner_inv (request_source i s)"
proof (cases "cs_requested s ! i")
  case False
  let ?pc = "if cs_inners s ! i = InnRegistered then InnCalled else cs_inners s ! i"
  have eq: "request_source i s = set_inner i ?pc (s\<lparr>cs_requested := (cs_requested s)[i := True]\<rparr>)"
    using False by (simp add: request_source_def set_inner_def)
  have "among (\<lambda>pc. pc = InnInvoking) ((cs_inners s)[i := ?pc]) = among (\<lambda>pc. pc = InnInvoking) (cs_inners s)"
    using among_update [OF i, of "\<lambda>pc. pc = InnInvoking" ?pc] by (auto split: if_splits)
  moreover have "inner_ok True (cs_flag s) ?pc"
    using assms False by (auto simp: combiner_inv_def inner_ok_def split: inner_pc.splits)
  moreover have "any_stop_requested (s\<lparr>cs_requested := (cs_requested s)[i := True]\<rparr>)"
    using assms by (auto simp: any_stop_requested_iff combiner_inv_def intro!: exI [of _ i])
  ultimately show ?thesis
    using assms unfolding eq by (auto simp: combiner_inv_def nth_list_update)
qed (use assms in \<open>simp add: request_source_def\<close>)

lemma combiner_inner_ok:
  "combiner_inv s \<Longrightarrow> i < length (cs_inners s) \<Longrightarrow> inner_ok (cs_requested s ! i) (cs_flag s) (cs_inners s ! i)"
  by (simp add: combiner_inv_def)

lemma combiner_reachable_inv: "combiner_reachable possible req s \<Longrightarrow> combiner_inv s"
proof (induction rule: combiner_reachable.induct)
  case new
  then show ?case by (auto simp: combiner_inv_def new_callback_def inner_ok_def among_def)
next
  case (step s t)
  from step.hyps(2) step.IH show ?case
  proof cases
    case (construct i)
    then show ?thesis
      using combiner_inv_move [of s i "cs_flag s" "if cs_requested s ! i then InnCalled else InnRegistered" "cs_invoked s"]
        step.IH by (cases "cs_requested s ! i") (simp_all add: construct_inner_def inner_ok_def)
  next
    case (request i)
    then show ?thesis using step.IH by (simp add: combiner_inv_request)
  next
    case (exchange i)
    then show ?thesis
      using combiner_inv_move [of s i False "if cs_flag s then InnInvoking else InnFinished" "cs_invoked s"]
        step.IH combiner_inner_ok [OF step.IH, of i]
      by (cases "cs_flag s") (simp_all add: call_once_exchange_def inner_ok_def)
  next
    case (invoke i)
    have ok: "inner_ok (cs_requested s ! i) (cs_flag s) InnInvoking"
      using combiner_inner_ok [OF step.IH, of i] invoke by simp
    have "combiner_inv (set_inner i InnFinished (s\<lparr>cs_flag := cs_flag s, cs_invoked := Suc (cs_invoked s)\<rparr>))"
      by (rule combiner_inv_move [OF step.IH]) (use invoke ok in \<open>auto simp: inner_ok_def\<close>)
    then show ?thesis using invoke by (simp add: call_once_invoke_def)
  next
    case (destroy i)
    then show ?thesis
      using combiner_inv_move [of s i "cs_flag s" InnGone "cs_invoked s"]
        step.IH combiner_inner_ok [OF step.IH, of i]
      by (auto simp: destroy_inner_def inner_ok_def)
  qed
qed


text \<open>C29. A callback of a combined token, whose tokens are requested at any time and on any threads while it is constructed,
  called and destroyed: the user's function is invoked at most once, never when no token is requested, and it has been
  invoked when a token is requested whose inner callback is constructed and no call is still running. The combined token
  reports a stop if and only if one of its tokens does.
\<close>

theorem combined_callback_once:
  assumes "combiner_reachable possible req s"
  shows "cs_invoked s \<le> 1 \<and> (if cs_invoked s = 1 then any_stop_requested s else True) \<and>
    (if (\<exists>i < length (cs_inners s). cs_requested s ! i \<and> cs_inners s ! i \<notin> {InnNone, InnGone}) \<and>
        (\<forall>i < length (cs_inners s). cs_inners s ! i \<notin> {InnCalled, InnInvoking})
     then cs_invoked s = 1 else True)"
proof -
  have inv: "combiner_inv s" using assms by (rule combiner_reachable_inv)
  have "cs_invoked s = 1" if i: "i < length (cs_inners s)" "cs_requested s ! i" "cs_inners s ! i \<notin> {InnNone, InnGone}"
    and quiet: "\<forall>i < length (cs_inners s). cs_inners s ! i \<notin> {InnCalled, InnInvoking}" for i
  proof -
    have "inner_ok (cs_requested s ! i) (cs_flag s) (cs_inners s ! i)" using inv i(1) by (simp add: combiner_inv_def)
    then have "\<not> cs_flag s" using i quiet by (cases "cs_inners s ! i") (auto simp: inner_ok_def)
    moreover have "among (\<lambda>pc. pc = InnInvoking) (cs_inners s) = 0"
      using quiet by (auto simp: among_def filter_empty_conv in_set_conv_nth)
    ultimately show ?thesis using inv by (simp add: combiner_inv_def)
  qed
  then show ?thesis using inv by (auto simp: combiner_inv_def split: if_splits)
qed

theorem combined_callback_once_witness:
  "\<exists>s. combiner_reachable [True, True] [False, True] s \<and> cs_invoked s = 1 \<and> any_stop_requested s"
proof -
  let ?s0 = "new_callback [True, True] [False, True]"
  let ?s1 = "construct_inner 0 ?s0" and ?s2 = "construct_inner 1 (construct_inner 0 ?s0)"
  let ?s3 = "call_once_exchange 1 ?s2" and ?s4 = "call_once_invoke 1 (call_once_exchange 1 ?s2)"
  have "combiner_reachable [True, True] [False, True] ?s1"
    by (rule combiner_reachable.step [OF combiner_reachable.new combiner_step.construct]) (simp_all add: new_callback_def)
  then have "combiner_reachable [True, True] [False, True] ?s2"
    by (rule combiner_reachable.step [OF _ combiner_step.construct]) (simp_all add: new_callback_def construct_inner_def)
  then have "combiner_reachable [True, True] [False, True] ?s3"
    by (rule combiner_reachable.step [OF _ combiner_step.exchange]) (simp_all add: new_callback_def construct_inner_def)
  then have r: "combiner_reachable [True, True] [False, True] ?s4"
    by (rule combiner_reachable.step [OF _ combiner_step.invoke])
      (simp_all add: new_callback_def construct_inner_def call_once_exchange_def)
  have "cs_invoked ?s4 = 1"
    by (simp add: new_callback_def construct_inner_def call_once_exchange_def call_once_invoke_def)
  then show ?thesis using combined_callback_once [OF r] r by (intro exI [of _ ?s4]) simp
qed

section \<open>Stop propagation\<close>

text \<open>
  \<open>stop_propagator\<close>: a source of its own that follows a token; if the token is of the type of the source it is the token
  itself.
\<close>

datatype propagator = Propagator (sp_upstream: bool) (sp_source: bool) | Same_Token (sp_upstream: bool)

definition new_propagator :: "bool \<Rightarrow> bool \<Rightarrow> propagator" where
  "new_propagator same requested = (if same then Same_Token requested else Propagator requested requested)"

definition propagator_stop :: "propagator \<Rightarrow> propagator" where
  "propagator_stop p = (case p of Propagator up src \<Rightarrow> Propagator up True | Same_Token up \<Rightarrow> Same_Token up)"

definition upstream_request :: "propagator \<Rightarrow> propagator" where
  "upstream_request p =
     (case p of Propagator up src \<Rightarrow> propagator_stop (Propagator True src) | Same_Token up \<Rightarrow> Same_Token True)"

definition propagator_token_requested :: "propagator \<Rightarrow> bool" where
  "propagator_token_requested p = (case p of Propagator up src \<Rightarrow> src | Same_Token up \<Rightarrow> up)"

lemma propagator_follows:
  "propagator_token_requested (new_propagator same req) = req"
  "propagator_token_requested (upstream_request p)"
  by (simp_all add: propagator_token_requested_def new_propagator_def upstream_request_def propagator_stop_def
      split: propagator.split)

section \<open>Stopping a sender when a token says so\<close>

text \<open>
  \<open>stop_when\<close>: the inner receiver holds a pointer to the outer receiver and the combined token, which it gives up when it
  completes; a token that can never be requested leaves the sender as it is (\<open>None\<close>).
\<close>

record 'v stop_when_state =
  sw_data :: bool
  sw_token :: "bool option"
  sw_receiver_token :: bool
  sw_calls :: "'v receiver_call list"

definition stop_when :: "bool option \<Rightarrow> bool \<Rightarrow> 'v stop_when_state" where
  "stop_when tok rcvr_tok = \<lparr>sw_data = True, sw_token = tok, sw_receiver_token = rcvr_tok, sw_calls = []\<rparr>"

definition stop_when_query :: "'v stop_when_state \<Rightarrow> bool" where
  "stop_when_query s =
     (case sw_token s of
        None \<Rightarrow> sw_receiver_token s
      | Some t \<Rightarrow> any_stop_requested (new_callback [True, True] [t, sw_receiver_token s]))"

definition stop_when_complete :: "'v receiver_call \<Rightarrow> 'v stop_when_state \<Rightarrow> error + 'v stop_when_state" where
  "stop_when_complete c s =
     (if sw_data s then Inr (s\<lparr>sw_data := sw_token s = None, sw_calls := sw_calls s @ [c]\<rparr>) else Inl NullDeref)"

lemma stop_when_token: "stop_when_query (stop_when tok rt) = (rt \<or> tok = Some True)"
  by (auto simp: stop_when_query_def stop_when_def any_stop_requested_iff new_callback_def less_Suc_eq
      numeral_2_eq_2 split: option.splits)

lemma stop_when_forwards:
  "\<exists>s. stop_when_complete c (stop_when (Some t) rt) = Inr s \<and> sw_calls s = [c] \<and> stop_when_complete c' s = Inl NullDeref"
  by (simp add: stop_when_complete_def stop_when_def)

end
