(* ===== verification/Retain_Ptr.thy ===== *)
theory Retain_Ptr
  imports Prelude
begin

text \<open>
  \<open>retain_ptr\<close> and \<open>retain_base\<close> of \<open>include/coio/utils/retain_ptr.h\<close>: intrusive reference counts.

  The pointers of a program are the slots of a list: \<open>None\<close> while no \<open>retain_ptr\<close> lives in the slot. An object is alive
  while it has a count. A program that breaks the rules of the language (it constructs over a living pointer, uses a
  destroyed one, or makes a pointer to a destroyed object) is \<^const>\<open>AssertFailed\<close>; a \<open>retain\<close> or \<open>lose\<close> of a destroyed
  object is \<^const>\<open>DeadObject\<close>.
\<close>

record retain_state =
  rp_slots :: "ptr option list"
  rp_count :: "addr \<Rightarrow> size_t option"

definition retain :: "addr \<Rightarrow> retain_state \<Rightarrow> error + retain_state" where
  "retain a s =
     (case rp_count s a of
        None \<Rightarrow> Inl DeadObject
      | Some c \<Rightarrow> Inr (s\<lparr>rp_count := (rp_count s)(a \<mapsto> c + 1)\<rparr>))"

text \<open>\<open>lose\<close>: the last reference destroys the object (\<open>do_lose\<close>).\<close>

definition lose :: "addr \<Rightarrow> retain_state \<Rightarrow> error + retain_state" where
  "lose a s =
     (case rp_count s a of
        None \<Rightarrow> Inl DeadObject
      | Some c \<Rightarrow> Inr (s\<lparr>rp_count := (rp_count s)(a := if c = 1 then None else Some (c - 1))\<rparr>))"

definition use_count :: "addr \<Rightarrow> retain_state \<Rightarrow> error + size_t" where
  "use_count a s = (case rp_count s a of None \<Rightarrow> Inl DeadObject | Some c \<Rightarrow> Inr c)"

definition retain_if :: "ptr \<Rightarrow> retain_state \<Rightarrow> error + retain_state" where
  "retain_if p s = (case p of None \<Rightarrow> Inr s | Some a \<Rightarrow> retain a s)"

definition lose_if :: "ptr \<Rightarrow> retain_state \<Rightarrow> error + retain_state" where
  "lose_if p s = (case p of None \<Rightarrow> Inr s | Some a \<Rightarrow> lose a s)"

definition set_slot :: "nat \<Rightarrow> ptr option \<Rightarrow> retain_state \<Rightarrow> retain_state" where
  "set_slot v x s = s\<lparr>rp_slots := (rp_slots s)[v := x]\<rparr>"

definition slot :: "nat \<Rightarrow> retain_state \<Rightarrow> ptr option" where
  "slot v s = (if v < length (rp_slots s) then rp_slots s ! v else None)"

definition vacant :: "nat \<Rightarrow> retain_state \<Rightarrow> bool" where
  "vacant v s \<longleftrightarrow> v < length (rp_slots s) \<and> rp_slots s ! v = None"

text \<open>A raw pointer that may be given to \<open>retain_ptr\<close>: null, or to a living object.\<close>

definition pointer_ok :: "ptr \<Rightarrow> retain_state \<Rightarrow> bool" where
  "pointer_ok p s = (case p of None \<Rightarrow> True | Some a \<Rightarrow> rp_count s a \<noteq> None)"

text \<open>The constructors and the destructor. A temporary, as in the assignments, is a pointer outside the slots.\<close>

definition rp_from_pointer :: "nat \<Rightarrow> ptr \<Rightarrow> retain_state \<Rightarrow> error + retain_state" where
  "rp_from_pointer v p s =
     (if vacant v s \<and> pointer_ok p s
      then (case retain_if p s of Inl e \<Rightarrow> Inl e | Inr s' \<Rightarrow> Inr (set_slot v (Some p) s'))
      else Inl AssertFailed)"

definition rp_copy :: "nat \<Rightarrow> nat \<Rightarrow> retain_state \<Rightarrow> error + retain_state" where
  "rp_copy v w s =
     (case slot w s of
        Some p \<Rightarrow> if vacant v s then (case retain_if p s of Inl e \<Rightarrow> Inl e | Inr s' \<Rightarrow> Inr (set_slot v (Some p) s'))
                  else Inl AssertFailed
      | None \<Rightarrow> Inl AssertFailed)"

definition rp_move :: "nat \<Rightarrow> nat \<Rightarrow> retain_state \<Rightarrow> error + retain_state" where
  "rp_move v w s =
     (case slot w s of
        Some p \<Rightarrow> if vacant v s then Inr (set_slot v (Some p) (set_slot w (Some None) s)) else Inl AssertFailed
      | None \<Rightarrow> Inl AssertFailed)"

definition rp_destroy :: "nat \<Rightarrow> retain_state \<Rightarrow> error + retain_state" where
  "rp_destroy v s =
     (case slot v s of Some p \<Rightarrow> lose_if p (set_slot v None s) | None \<Rightarrow> Inl AssertFailed)"

text \<open>The temporary \<open>p\<close> is swapped with the slot, and destroyed.\<close>

definition swap_and_lose :: "nat \<Rightarrow> ptr \<Rightarrow> retain_state \<Rightarrow> error + retain_state" where
  "swap_and_lose v p s =
     (case slot v s of Some old \<Rightarrow> lose_if old (set_slot v (Some p) s) | None \<Rightarrow> Inl AssertFailed)"

definition rp_copy_assign :: "nat \<Rightarrow> nat \<Rightarrow> retain_state \<Rightarrow> error + retain_state" where
  "rp_copy_assign v w s =
     (case (slot v s, slot w s) of
        (Some _, Some p) \<Rightarrow> (case retain_if p s of Inl e \<Rightarrow> Inl e | Inr s' \<Rightarrow> swap_and_lose v p s')
      | _ \<Rightarrow> Inl AssertFailed)"

definition rp_move_assign :: "nat \<Rightarrow> nat \<Rightarrow> retain_state \<Rightarrow> error + retain_state" where
  "rp_move_assign v w s =
     (case (slot v s, slot w s) of
        (Some _, Some p) \<Rightarrow> swap_and_lose v p (set_slot w (Some None) s)
      | _ \<Rightarrow> Inl AssertFailed)"

definition rp_reset :: "nat \<Rightarrow> retain_state \<Rightarrow> error + retain_state" where
  "rp_reset v s = swap_and_lose v None s"

definition rp_reset_pointer :: "nat \<Rightarrow> ptr \<Rightarrow> retain_state \<Rightarrow> error + retain_state" where
  "rp_reset_pointer v p s =
     (if slot v s \<noteq> None \<and> pointer_ok p s
      then (case retain_if p s of Inl e \<Rightarrow> Inl e | Inr s' \<Rightarrow> swap_and_lose v p s')
      else Inl AssertFailed)"

definition rp_swap :: "nat \<Rightarrow> nat \<Rightarrow> retain_state \<Rightarrow> error + retain_state" where
  "rp_swap v w s =
     (case (slot v s, slot w s) of
        (Some p, Some q) \<Rightarrow> Inr (set_slot w (Some p) (set_slot v (Some q) s))
      | _ \<Rightarrow> Inl AssertFailed)"

text \<open>A new object: \<open>retain_base\<close> starts with the count 0.\<close>

definition rp_new_object :: "addr \<Rightarrow> retain_state \<Rightarrow> error + retain_state" where
  "rp_new_object a s =
     (if rp_count s a = None then Inr (s\<lparr>rp_count := (rp_count s)(a \<mapsto> 0)\<rparr>) else Inl AssertFailed)"

datatype rp_op =
    New_Object addr
  | From_Pointer nat ptr
  | Copy nat nat
  | Move nat nat
  | Destroy nat
  | Copy_Assign nat nat
  | Move_Assign nat nat
  | Reset nat
  | Reset_Pointer nat ptr
  | Swap nat nat

fun rp_exec :: "rp_op \<Rightarrow> retain_state \<Rightarrow> error + retain_state" where
  "rp_exec (New_Object a) s = rp_new_object a s"
| "rp_exec (From_Pointer v p) s = rp_from_pointer v p s"
| "rp_exec (Copy v w) s = rp_copy v w s"
| "rp_exec (Move v w) s = rp_move v w s"
| "rp_exec (Destroy v) s = rp_destroy v s"
| "rp_exec (Copy_Assign v w) s = rp_copy_assign v w s"
| "rp_exec (Move_Assign v w) s = rp_move_assign v w s"
| "rp_exec (Reset v) s = rp_reset v s"
| "rp_exec (Reset_Pointer v p) s = rp_reset_pointer v p s"
| "rp_exec (Swap v w) s = rp_swap v w s"

fun rp_run :: "rp_op list \<Rightarrow> retain_state \<Rightarrow> error + retain_state" where
  "rp_run [] s = Inr s"
| "rp_run (x # xs) s = (case rp_exec x s of Inl e \<Rightarrow> Inl e | Inr s' \<Rightarrow> rp_run xs s')"

definition rp_start :: "nat \<Rightarrow> retain_state" where
  "rp_start n = \<lparr>rp_slots = replicate n None, rp_count = \<lambda>_. None\<rparr>"

section \<open>Counts count the pointers\<close>

text \<open>
  The pointers to \<open>a\<close>: the slots and the temporaries \<open>tmp\<close> of the operation that is running. The counts are exact when they
  count these.
\<close>

definition refs :: "ptr list \<Rightarrow> addr \<Rightarrow> retain_state \<Rightarrow> nat" where
  "refs tmp a s = among (\<lambda>x. x = Some (Some a)) (rp_slots s) + among (\<lambda>p. p = Some a) tmp"

fun count_is :: "size_t option \<Rightarrow> nat \<Rightarrow> bool" where
  "count_is None r = (r = 0)"
| "count_is (Some c) r = (unat c = r)"

definition counts_exact :: "ptr list \<Rightarrow> retain_state \<Rightarrow> bool" where
  "counts_exact tmp s \<longleftrightarrow> length (rp_slots s) + 4 < 2 ^ 64 \<and> length tmp \<le> 2 \<and>
     (\<forall>a. count_is (rp_count s a) (refs tmp a s))"


lemma refs_bound: "refs tmp a s \<le> length (rp_slots s) + length tmp"
  unfolding refs_def by (intro add_mono among_le)

lemma refs_Cons: "refs (p # tmp) a s = refs tmp a s + (if p = Some a then 1 else 0)"
  by (simp add: refs_def among_def)

lemma refs_set_slot:
  "v < length (rp_slots s) \<Longrightarrow>
   refs tmp a (set_slot v x s) + (if rp_slots s ! v = Some (Some a) then 1 else 0) =
   refs tmp a s + (if x = Some (Some a) then 1 else 0)"
  using among_update [of v "rp_slots s" "\<lambda>x. x = Some (Some a)" x] by (simp add: refs_def set_slot_def)

lemma refs_count_upd [simp]: "refs tmp a (s\<lparr>rp_count := f\<rparr>) = refs tmp a s"
  by (simp add: refs_def)

lemma set_slot_simps [simp]:
  "rp_count (set_slot v x s) = rp_count s" "length (rp_slots (set_slot v x s)) = length (rp_slots s)"
  by (simp_all add: set_slot_def)

text \<open>Moving pointers between slots and temporaries keeps the counts exact.\<close>

lemma counts_exact_transfer:
  "counts_exact tmp s \<Longrightarrow> rp_count s' = rp_count s \<Longrightarrow> length (rp_slots s') = length (rp_slots s) \<Longrightarrow>
   length tmp' \<le> 2 \<Longrightarrow> (\<And>a. refs tmp' a s' = refs tmp a s) \<Longrightarrow> counts_exact tmp' s'"
  by (simp add: counts_exact_def)

lemma slot_alive:
  assumes "counts_exact tmp s" and "slot w s = Some (Some a)"
  shows "rp_count s a \<noteq> None"
proof -
  have "w < length (rp_slots s)" "rp_slots s ! w = Some (Some a)" using assms(2) by (auto simp: slot_def split: if_splits)
  then have "0 < refs tmp a s" using among_pos [of w "rp_slots s" "\<lambda>x. x = Some (Some a)"] by (simp add: refs_def)
  then show ?thesis using assms(1) by (cases "rp_count s a") (auto simp: counts_exact_def dest!: spec [of _ a])
qed

lemma unat_inc_small: "unat (c :: size_t) + 1 < 2 ^ 64 \<Longrightarrow> unat (c + 1) = unat c + 1"
  by (simp add: unat_add_lt)

lemma retain_exact:
  assumes ex: "counts_exact tmp s" and tmp: "length tmp \<le> 1" and p: "pointer_ok p s"
  shows "\<exists>s'. retain_if p s = Inr s' \<and> counts_exact (p # tmp) s' \<and> rp_slots s' = rp_slots s"
proof (cases p)
  case None
  then show ?thesis using ex tmp by (auto simp: retain_if_def counts_exact_def refs_Cons)
next
  case (Some a)
  then obtain c where c: "rp_count s a = Some c" using p by (auto simp: pointer_ok_def)
  then have "unat c = refs tmp a s" using ex by (auto simp: counts_exact_def dest!: spec [of _ a])
  then have "unat c \<le> length (rp_slots s) + length tmp" using refs_bound [of tmp a s] by simp
  then have c1: "unat (c + 1) = refs tmp a s + 1"
    using ex tmp \<open>unat c = refs tmp a s\<close> by (subst unat_inc_small) (auto simp: counts_exact_def)
  let ?s = "s\<lparr>rp_count := (rp_count s)(a \<mapsto> c + 1)\<rparr>"
  have "counts_exact (p # tmp) ?s"
    using ex tmp c1 Some by (auto simp: counts_exact_def refs_Cons)
  then show ?thesis using c Some by (simp add: retain_if_def retain_def)
qed

lemma lose_exact:
  assumes ex: "counts_exact (p # tmp) s"
  obtains s' where "lose_if p s = Inr s'" "counts_exact tmp s'" "rp_slots s' = rp_slots s"
proof (cases p)
  case None
  then show thesis using ex that [of s] by (auto simp: lose_if_def counts_exact_def refs_Cons)
next
  case (Some a)
  have "0 < refs (p # tmp) a s" by (simp add: refs_Cons Some)
  then obtain c where c: "rp_count s a = Some c" and u: "unat c = refs (p # tmp) a s"
    using ex by (cases "rp_count s a") (auto simp: counts_exact_def dest!: spec [of _ a])
  have pos: "1 \<le> c" using u \<open>0 < refs (p # tmp) a s\<close> by (simp add: word_le_nat_alt)
  have c1: "unat (c - 1) = refs tmp a s" using u pos by (simp add: unat_sub_le refs_Cons Some)
  have z: "c = 1 \<Longrightarrow> refs tmp a s = 0" using c1 by simp
  let ?s = "s\<lparr>rp_count := (rp_count s)(a := if c = 1 then None else Some (c - 1))\<rparr>"
  have "counts_exact tmp ?s"
    unfolding counts_exact_def
  proof (intro conjI allI)
    fix b
    show "count_is (rp_count ?s b) (refs tmp b ?s)"
    proof (cases "b = a")
      case True
      then show ?thesis using c1 z by simp
    next
      case False
      then have "refs (p # tmp) b s = refs tmp b s" by (simp add: refs_Cons Some)
      then show ?thesis using ex False by (auto simp: counts_exact_def dest!: spec [of _ b])
    qed
  qed (use ex in \<open>simp_all add: counts_exact_def\<close>)
  then show thesis using that [of ?s] c Some by (simp add: lose_if_def lose_def)
qed

text \<open>The result of an operation: never the use of a destroyed object, and exact counts.\<close>

definition rp_ok :: "error + retain_state \<Rightarrow> bool" where
  "rp_ok r = (case r of Inl e \<Rightarrow> e = AssertFailed | Inr s \<Rightarrow> counts_exact [] s)"

lemma rp_ok_simps [simp]: "rp_ok (Inl e) = (e = AssertFailed)" "rp_ok (Inr s) = counts_exact [] s"
  by (simp_all add: rp_ok_def)

lemma slot_eqs: "slot v s = Some p \<longleftrightarrow> v < length (rp_slots s) \<and> rp_slots s ! v = Some p"
  by (simp add: slot_def)

lemma swap_and_lose_ok:
  assumes ex: "counts_exact [p] s"
  shows "rp_ok (swap_and_lose v p s)"
proof (cases "slot v s")
  case (Some old)
  have "refs [old] a (set_slot v (Some p) s) = refs [p] a s" for a
    using Some refs_set_slot [of v s "[]" a "Some p"] by (auto simp: slot_eqs refs_Cons split: if_splits)
  then have "counts_exact [old] (set_slot v (Some p) s)"
    by (intro counts_exact_transfer [OF ex]) auto
  then obtain s' where "lose_if old (set_slot v (Some p) s) = Inr s'" "counts_exact [] s'" by (rule lose_exact)
  then show ?thesis using Some by (simp add: swap_and_lose_def)
qed (simp add: swap_and_lose_def)

lemma fill_slot:
  assumes "counts_exact [p] s" and "vacant v s"
  shows "counts_exact [] (set_slot v (Some p) s)"
  using assms(2) refs_set_slot [of v s "[]" _ "Some p"]
  by (intro counts_exact_transfer [OF assms(1)]) (auto simp: vacant_def refs_Cons split: if_splits)

lemma empty_slot:
  assumes "counts_exact [] s" and "slot v s = Some p" and "x = None \<or> x = Some None"
  shows "counts_exact [p] (set_slot v x s)"
proof (rule counts_exact_transfer [OF assms(1)])
  fix a
  show "refs [p] a (set_slot v x s) = refs [] a s"
    using assms(2,3) refs_set_slot [of v s "[]" a x] by (auto simp: slot_eqs refs_Cons split: if_splits)
qed auto

lemma vacant_same: "rp_slots s' = rp_slots s \<Longrightarrow> vacant v s' = vacant v s"
  by (simp add: vacant_def)

lemma rp_exec_ok:
  assumes ex: "counts_exact [] s"
  shows "rp_ok (rp_exec x s)"
proof (cases x)
  case (New_Object a)
  then show ?thesis
    using ex by (auto simp: rp_new_object_def counts_exact_def dest!: spec [of _ a] split: option.splits)
next
  case (From_Pointer v p)
  show ?thesis
  proof (cases "vacant v s \<and> pointer_ok p s")
    case True
    then have "pointer_ok p s" by (simp add: pointer_ok_def)
    then obtain s' where "retain_if p s = Inr s'" "counts_exact [p] s'" "rp_slots s' = rp_slots s"
      using retain_exact [OF ex] by auto
    then show ?thesis using True From_Pointer fill_slot [of p s' v] vacant_same [of s' s v] by (simp add: rp_from_pointer_def)
  qed (auto simp: From_Pointer rp_from_pointer_def)
next
  case (Copy v w)
  show ?thesis
  proof (cases "slot w s")
    case (Some p)
    have "pointer_ok p s" using slot_alive [OF ex, of w] Some by (auto simp: pointer_ok_def split: option.split)
    then obtain s' where "retain_if p s = Inr s'" "counts_exact [p] s'" "rp_slots s' = rp_slots s"
      using retain_exact [OF ex] by auto
    then show ?thesis using Some Copy fill_slot [of p s' v] vacant_same [of s' s v] by (simp add: rp_copy_def)
  qed (simp add: Copy rp_copy_def)
next
  case (Move v w)
  show ?thesis
  proof (cases "slot w s")
    case (Some p)
    have "vacant v s \<Longrightarrow> vacant v (set_slot w (Some None) s)"
      using Some by (auto simp: vacant_def set_slot_def slot_eqs nth_list_update)
    then show ?thesis
      using Some Move fill_slot [OF empty_slot [OF ex Some, of "Some None"]] by (simp add: rp_move_def)
  qed (simp add: Move rp_move_def)
next
  case (Destroy v)
  show ?thesis
  proof (cases "slot v s")
    case (Some p)
    obtain s' where "lose_if p (set_slot v None s) = Inr s'" "counts_exact [] s'"
      by (rule lose_exact [OF empty_slot [OF ex Some]]) auto
    then show ?thesis using Some Destroy by (simp add: rp_destroy_def)
  qed (simp add: Destroy rp_destroy_def)
next
  case (Copy_Assign v w)
  show ?thesis
  proof (cases "slot w s")
    case (Some p)
    have "pointer_ok p s" using slot_alive [OF ex, of w] Some by (auto simp: pointer_ok_def split: option.split)
    then obtain s' where "retain_if p s = Inr s'" "counts_exact [p] s'" "rp_slots s' = rp_slots s"
      using retain_exact [OF ex] by auto
    then show ?thesis
      using Some Copy_Assign swap_and_lose_ok [of p s' v] by (simp add: rp_copy_assign_def split: option.split)
  qed (simp add: Copy_Assign rp_copy_assign_def split: option.split)
next
  case (Move_Assign v w)
  show ?thesis
  proof (cases "slot w s")
    case (Some p)
    then show ?thesis
      using Move_Assign swap_and_lose_ok [OF empty_slot [OF ex Some, of "Some None"], of v]
      by (simp add: rp_move_assign_def split: option.split)
  qed (simp add: Move_Assign rp_move_assign_def split: option.split)
next
  case (Reset v)
  have "counts_exact [None] s" using ex by (simp add: counts_exact_def refs_Cons)
  then show ?thesis using Reset swap_and_lose_ok by (simp add: rp_reset_def)
next
  case (Reset_Pointer v p)
  show ?thesis
  proof (cases "slot v s \<noteq> None \<and> pointer_ok p s")
    case True
    then have "pointer_ok p s" by (simp add: pointer_ok_def)
    then obtain s' where "retain_if p s = Inr s'" "counts_exact [p] s'" "rp_slots s' = rp_slots s"
      using retain_exact [OF ex] by auto
    then show ?thesis
      using True Reset_Pointer swap_and_lose_ok [of p s' v] by (simp add: rp_reset_pointer_def)
  qed (auto simp: Reset_Pointer rp_reset_pointer_def)
next
  case (Swap v w)
  show ?thesis
  proof (cases "\<exists>p q. slot v s = Some p \<and> slot w s = Some q")
    case True
    then obtain p q where pq: "slot v s = Some p" "slot w s = Some q" by blast
    let ?s = "set_slot v (Some q) s"
    have w: "w < length (rp_slots ?s)" "rp_slots ?s ! w = Some q" "v < length (rp_slots s)" "rp_slots s ! v = Some p"
      using pq by (auto simp: slot_eqs set_slot_def nth_list_update)
    have "refs [] a (set_slot w (Some p) ?s) = refs [] a s" for a
      using refs_set_slot [OF w(3), of "[]" a "Some q"] refs_set_slot [OF w(1), of "[]" a "Some p"] w(2,4)
      by (auto split: if_splits)
    then have "counts_exact [] (set_slot w (Some p) ?s)" by (intro counts_exact_transfer [OF ex]) auto
    then show ?thesis using pq Swap by (simp add: rp_swap_def)
  qed (auto simp: Swap rp_swap_def split: option.split)
qed

lemma rp_run_ok: "counts_exact [] s \<Longrightarrow> rp_ok (rp_run xs s)"
proof (induction xs arbitrary: s)
  case (Cons x xs)
  then show ?case using rp_exec_ok [OF Cons.prems, of x] by (auto split: sum.split)
qed simp

lemma counts_exact_start: "n + 4 < 2 ^ 64 \<Longrightarrow> counts_exact [] (rp_start n)"
  by (simp add: counts_exact_def rp_start_def refs_def among_def)

lemma use_count_exact:
  "counts_exact [] s \<Longrightarrow>
   (case use_count a s of
      Inl _ \<Rightarrow> Some (Some a) \<notin> set (rp_slots s)
    | Inr c \<Rightarrow> unat c = length (filter (\<lambda>x. x = Some (Some a)) (rp_slots s)))"
  unfolding counts_exact_def
  by (cases "rp_count s a")
    (auto simp: use_count_def refs_def among_def filter_empty_conv dest!: spec [of "\<lambda>a. count_is (_ a) (_ a)" a])



end
