(* ===== verification/Win_Io.thy ===== *)
theory Win_Io
  imports Linux_Io
begin

text \<open>
  The blocking operations of the Windows backend: \<open>src/win/common.h\<close>, \<open>src/win/net/socket.cpp\<close>,
  \<open>src/win/asyncio/file.cpp\<close> and \<open>src/win/asyncio/pipe.cpp\<close>. The calls of the operating system are the fields of
  \<open>win_calls\<close>; a call that fails yields its \<open>GetLastError\<close> or \<open>WSAGetLastError\<close>. A handle and a socket are numbers,
  \<open>-1\<close> the invalid ones. The error numbers are those of Windows.
\<close>

section \<open>Errors\<close>

definition ERROR_HANDLE_EOF :: int where "ERROR_HANDLE_EOF = 38"
definition ERROR_NETNAME_DELETED :: int where "ERROR_NETNAME_DELETED = 64"
definition ERROR_BROKEN_PIPE :: int where "ERROR_BROKEN_PIPE = 109"
definition ERROR_SEM_TIMEOUT :: int where "ERROR_SEM_TIMEOUT = 121"
definition WAIT_TIMEOUT :: int where "WAIT_TIMEOUT = 258"
definition ERROR_OPERATION_ABORTED :: int where "ERROR_OPERATION_ABORTED = 995"
definition ERROR_IO_PENDING :: int where "ERROR_IO_PENDING = 997"
definition ERROR_CONNECTION_REFUSED :: int where "ERROR_CONNECTION_REFUSED = 1225"
definition ERROR_NETWORK_UNREACHABLE :: int where "ERROR_NETWORK_UNREACHABLE = 1231"
definition ERROR_HOST_UNREACHABLE :: int where "ERROR_HOST_UNREACHABLE = 1232"
definition ERROR_PORT_UNREACHABLE :: int where "ERROR_PORT_UNREACHABLE = 1234"
definition WSAEINTR :: int where "WSAEINTR = 10004"
definition WSAEINVAL :: int where "WSAEINVAL = 10022"
definition WSAEWOULDBLOCK :: int where "WSAEWOULDBLOCK = 10035"
definition WSAEINPROGRESS :: int where "WSAEINPROGRESS = 10036"
definition WSAEAFNOSUPPORT :: int where "WSAEAFNOSUPPORT = 10047"
definition WSAENETUNREACH :: int where "WSAENETUNREACH = 10051"
definition WSAECONNRESET :: int where "WSAECONNRESET = 10054"
definition WSAETIMEDOUT :: int where "WSAETIMEDOUT = 10060"
definition WSAECONNREFUSED :: int where "WSAECONNREFUSED = 10061"
definition WSAEHOSTUNREACH :: int where "WSAEHOSTUNREACH = 10065"

text \<open>\<open>std::errc::bad_file_descriptor\<close> and \<open>std::errc::value_too_large\<close> belong to \<open>generic_category\<close>.\<close>

definition bad_file_descriptor :: error where "bad_file_descriptor = GenericError 9"
definition value_too_large :: error where "value_too_large = GenericError 132"

lemmas win_error_defs = ERROR_HANDLE_EOF_def ERROR_NETNAME_DELETED_def ERROR_BROKEN_PIPE_def ERROR_SEM_TIMEOUT_def
  WAIT_TIMEOUT_def ERROR_OPERATION_ABORTED_def ERROR_IO_PENDING_def ERROR_CONNECTION_REFUSED_def
  ERROR_NETWORK_UNREACHABLE_def ERROR_HOST_UNREACHABLE_def ERROR_PORT_UNREACHABLE_def WSAEINTR_def WSAEINVAL_def
  WSAEWOULDBLOCK_def WSAEINPROGRESS_def WSAEAFNOSUPPORT_def WSAENETUNREACH_def WSAECONNRESET_def WSAETIMEDOUT_def
  WSAECONNREFUSED_def WSAEHOSTUNREACH_def

text \<open>\<open>throw_win_error\<close>; \<open>throw_wsa_error\<close> and \<open>throw_wsa_error_value\<close> translate two errors of the kernel to those of Winsock.\<close>

definition throw_win_error :: "int + 'a \<Rightarrow> error + 'a" where
  "throw_win_error r = (case r of Inl e \<Rightarrow> Inl (SystemError e) | Inr v \<Rightarrow> Inr v)"

definition wsa_error :: "int \<Rightarrow> int" where
  "wsa_error e =
     (if e = ERROR_NETNAME_DELETED then WSAECONNRESET
      else if e = ERROR_PORT_UNREACHABLE then WSAECONNREFUSED else e)"

definition throw_wsa_error :: "int + 'a \<Rightarrow> error + 'a" where
  "throw_wsa_error r = (case r of Inl e \<Rightarrow> Inl (SystemError (wsa_error e)) | Inr v \<Rightarrow> Inr v)"

definition throw_wsa_error_value :: "int \<Rightarrow> error" where
  "throw_wsa_error_value e = SystemError (wsa_error e)"

section \<open>System calls\<close>

datatype select_kind = SelectRead | SelectWrite | SelectConnect

text \<open>
  \<open>wn_read_file\<close> and \<open>wn_write_file\<close> start an overlapped transfer at an offset; \<open>ERROR_IO_PENDING\<close> says that
  \<open>wn_overlapped_read\<close> or \<open>wn_overlapped_write\<close> (\<open>GetOverlappedResult\<close>) waits for its end. \<open>wn_create_file\<close> takes the access,
  the creation disposition and the flags. Sockets are opened overlapped.
\<close>

record 'w win_calls =
  wn_recv :: "int \<Rightarrow> nat \<Rightarrow> (byte list, 'w) sys_call"
  wn_send :: "int \<Rightarrow> byte list \<Rightarrow> (nat, 'w) sys_call"
  wn_recvfrom :: "int \<Rightarrow> nat \<Rightarrow> (sockaddr \<times> byte list, 'w) sys_call"
  wn_sendto :: "int \<Rightarrow> byte list \<Rightarrow> sockaddr \<times> nat \<Rightarrow> (nat, 'w) sys_call"
  wn_accept :: "int \<Rightarrow> (int, 'w) sys_call"
  wn_connect :: "int \<Rightarrow> sockaddr \<times> nat \<Rightarrow> (unit, 'w) sys_call"
  wn_select :: "int \<Rightarrow> select_kind \<Rightarrow> (nat, 'w) sys_call"
  wn_so_error :: "int \<Rightarrow> (int, 'w) sys_call"
  wn_so_stream :: "int \<Rightarrow> (bool, 'w) sys_call"
  wn_getsockname :: "int \<Rightarrow> (sockaddr, 'w) sys_call"
  wn_getpeername :: "int \<Rightarrow> (sockaddr, 'w) sys_call"
  wn_shutdown :: "int \<Rightarrow> shut_how \<Rightarrow> (unit, 'w) sys_call"
  wn_bind :: "int \<Rightarrow> sockaddr \<times> nat \<Rightarrow> (unit, 'w) sys_call"
  wn_setsockopt :: "int \<Rightarrow> so_level \<Rightarrow> so_name \<Rightarrow> byte list \<Rightarrow> (unit, 'w) sys_call"
  wn_getsockopt :: "int \<Rightarrow> so_level \<Rightarrow> so_name \<Rightarrow> nat \<Rightarrow> (byte list, 'w) sys_call"
  wn_socket :: "int \<Rightarrow> int \<Rightarrow> int \<Rightarrow> (int, 'w) sys_call"
  wn_listen :: "int \<Rightarrow> int \<Rightarrow> (unit, 'w) sys_call"
  wn_closesocket :: "int \<Rightarrow> (unit, 'w) sys_call"
  wn_create_event :: "(int, 'w) sys_call"
  wn_close_handle :: "int \<Rightarrow> (unit, 'w) sys_call"
  wn_read_file :: "int \<Rightarrow> nat \<Rightarrow> size_t \<Rightarrow> (byte list, 'w) sys_call"
  wn_write_file :: "int \<Rightarrow> byte list \<Rightarrow> size_t \<Rightarrow> (nat, 'w) sys_call"
  wn_overlapped_read :: "int \<Rightarrow> (byte list, 'w) sys_call"
  wn_overlapped_write :: "int \<Rightarrow> (nat, 'w) sys_call"
  wn_create_file :: "string \<Rightarrow> 32 word \<Rightarrow> 32 word \<Rightarrow> 32 word \<Rightarrow> (int, 'w) sys_call"
  wn_create_named_pipe :: "string \<Rightarrow> (int, 'w) sys_call"
  wn_set_end_of_file :: "int \<Rightarrow> (unit, 'w) sys_call"
  wn_set_file_pointer :: "int \<Rightarrow> int \<Rightarrow> native_whence \<Rightarrow> (nat, 'w) sys_call"
  wn_file_size :: "int \<Rightarrow> (nat, 'w) sys_call"
  wn_flush_file :: "int \<Rightarrow> (unit, 'w) sys_call"
  wn_type_disk :: "int \<Rightarrow> 'w \<Rightarrow> bool"

section \<open>Sockets\<close>

definition win_check_handle :: "int \<Rightarrow> error + unit" where
  "win_check_handle handle = (if handle = - 1 then Inl bad_file_descriptor else Inr ())"

definition with_handle :: "int \<Rightarrow> ('a, 'w) io \<Rightarrow> ('a, 'w) io" where
  "with_handle handle m w = (case win_check_handle handle of Inl e \<Rightarrow> Some (Inl e, w) | Inr _ \<Rightarrow> m w)"

definition wsa_call :: "('a, 'w) sys_call \<Rightarrow> ('a, 'w) io" where
  "wsa_call call w = Some (throw_wsa_error (fst (call w)), snd (call w))"

definition win_call :: "('a, 'w) sys_call \<Rightarrow> ('a, 'w) io" where
  "win_call call w = Some (throw_win_error (fst (call w)), snd (call w))"

text \<open>\<open>poll_socket\<close>: \<open>select\<close> without a timeout, repeated when it is interrupted.\<close>

partial_function (option) poll_socket :: "(nat, 'w) sys_call \<Rightarrow> 'w \<Rightarrow> ((error + unit) \<times> 'w) option" where
  "poll_socket sel w =
     (case fst (sel w) of
        Inl e \<Rightarrow> if e = WSAEINTR then poll_socket sel (snd (sel w)) else Some (Inl (SystemError e), snd (sel w))
      | Inr n \<Rightarrow> Some (Inr (), snd (sel w)))"

text \<open>The loop that the blocking transfers share.\<close>

partial_function (option) wsa_retry :: "('a, 'w) sys_call \<Rightarrow> (nat, 'w) sys_call \<Rightarrow> 'w \<Rightarrow> ((error + 'a) \<times> 'w) option" where
  "wsa_retry call sel w =
     (case fst (call w) of
        Inl e \<Rightarrow>
          if e = WSAEWOULDBLOCK then
            (case poll_socket sel (snd (call w)) of
               None \<Rightarrow> None
             | Some r \<Rightarrow>
                 (case fst r of
                    Inl err \<Rightarrow> Some (Inl err, snd r)
                  | Inr _ \<Rightarrow> wsa_retry call sel (snd r)))
          else Some (Inl (throw_wsa_error_value e), snd (call w))
      | Inr v \<Rightarrow> Some (Inr v, snd (call w)))"

definition INT_MAX :: nat where "INT_MAX = 2 ^ 31 - 1"

definition win_local_endpoint :: "'w win_calls \<Rightarrow> bool \<Rightarrow> int \<Rightarrow> (endpoint, 'w) io" where
  "win_local_endpoint c le handle =
     with_handle handle (\<lambda>w. io_post (sockaddr_storage_to_endpoint le) (wsa_call (wn_getsockname c handle) w))"

definition win_remote_endpoint :: "'w win_calls \<Rightarrow> bool \<Rightarrow> int \<Rightarrow> (endpoint, 'w) io" where
  "win_remote_endpoint c le handle =
     with_handle handle (\<lambda>w. io_post (sockaddr_storage_to_endpoint le) (wsa_call (wn_getpeername c handle) w))"

definition win_shutdown :: "'w win_calls \<Rightarrow> int \<Rightarrow> shutdown_type \<Rightarrow> (unit, 'w) io" where
  "win_shutdown c handle how = with_handle handle (\<lambda>w.
     wsa_call (wn_shutdown c handle
       (case how of ShutdownReceive \<Rightarrow> SHUT_RD | ShutdownSend \<Rightarrow> SHUT_WR | ShutdownBoth \<Rightarrow> SHUT_RDWR)) w)"

definition win_bind :: "'w win_calls \<Rightarrow> bool \<Rightarrow> int \<Rightarrow> endpoint \<Rightarrow> (unit, 'w) io" where
  "win_bind c le handle ep = with_handle handle (\<lambda>w.
     wsa_call (wn_bind c handle (to_sockaddr (endpoint_to_sockaddr_in le ep))) w)"

definition win_set_sockopt :: "'w win_calls \<Rightarrow> int \<Rightarrow> so_level \<Rightarrow> so_name \<Rightarrow> byte list \<Rightarrow> (unit, 'w) io" where
  "win_set_sockopt c handle lvl nm val = with_handle handle (\<lambda>w. wsa_call (wn_setsockopt c handle lvl nm val) w)"

definition win_get_sockopt :: "'w win_calls \<Rightarrow> int \<Rightarrow> so_level \<Rightarrow> so_name \<Rightarrow> nat \<Rightarrow> (byte list, 'w) io" where
  "win_get_sockopt c handle lvl nm n = with_handle handle (\<lambda>w.
     io_post (\<lambda>bs. if length bs = n then Inr bs else Inl AssertFailed) (wsa_call (wn_getsockopt c handle lvl nm n) w))"

definition win_open :: "'w win_calls \<Rightarrow> int \<Rightarrow> int \<Rightarrow> int \<Rightarrow> (int, 'w) io" where
  "win_open c family type protocol_id = win_call (wn_socket c family type protocol_id)"

text \<open>The backlog must fit into an \<open>int\<close>.\<close>

definition win_listen :: "'w win_calls \<Rightarrow> int \<Rightarrow> size_t \<Rightarrow> (unit, 'w) io" where
  "win_listen c handle backlog = with_handle handle (\<lambda>w.
     if unat backlog > INT_MAX then Some (Inl value_too_large, w)
     else wsa_call (wn_listen c handle (int (unat backlog))) w)"

definition win_connect :: "'w win_calls \<Rightarrow> bool \<Rightarrow> int \<Rightarrow> endpoint \<Rightarrow> (unit, 'w) io" where
  "win_connect c le handle peer = with_handle handle (\<lambda>w.
     case wn_connect c handle (to_sockaddr (endpoint_to_sockaddr_in le peer)) w of
       (Inr _, w) \<Rightarrow> Some (Inr (), w)
     | (Inl err, w) \<Rightarrow>
         if err \<noteq> WSAEWOULDBLOCK \<and> err \<noteq> WSAEINPROGRESS then Some (Inl (throw_wsa_error_value err), w)
         else
           (case poll_socket (wn_select c handle SelectConnect) w of
              None \<Rightarrow> None
            | Some (Inl err, w) \<Rightarrow> Some (Inl err, w)
            | Some (Inr _, w) \<Rightarrow>
                io_post (\<lambda>so_error. if so_error \<noteq> 0 then Inl (throw_wsa_error_value so_error) else Inr ())
                  (wsa_call (wn_so_error c handle) w)))"

definition win_accept :: "'w win_calls \<Rightarrow> int \<Rightarrow> (int, 'w) io" where
  "win_accept c handle = with_handle handle (wsa_retry (wn_accept c handle) (wn_select c handle SelectRead))"

definition win_receive :: "'w win_calls \<Rightarrow> int \<Rightarrow> nat \<Rightarrow> bool \<Rightarrow> (byte list, 'w) io" where
  "win_receive c handle n stream_oriented = with_handle handle (\<lambda>w.
     if stream_oriented \<and> n = 0 then Some (Inr [], w)
     else
       io_post (\<lambda>bs. if stream_oriented \<and> bs = [] \<and> n \<noteq> 0 then Inl EndOfFile else Inr bs)
         (wsa_retry (wn_recv c handle (min n INT_MAX)) (wn_select c handle SelectRead) w))"

definition win_send :: "'w win_calls \<Rightarrow> int \<Rightarrow> byte list \<Rightarrow> bool \<Rightarrow> (nat, 'w) io" where
  "win_send c handle bs stream_oriented = with_handle handle (\<lambda>w.
     if stream_oriented \<and> bs = [] then Some (Inr 0, w)
     else wsa_retry (wn_send c handle (take INT_MAX bs)) (wn_select c handle SelectWrite) w)"

definition win_receive_from :: "'w win_calls \<Rightarrow> bool \<Rightarrow> int \<Rightarrow> nat \<Rightarrow> (endpoint \<times> byte list, 'w) io" where
  "win_receive_from c le handle n = with_handle handle (\<lambda>w.
     io_post (\<lambda>(addr, bs). case sockaddr_storage_to_endpoint le addr of Inl e \<Rightarrow> Inl e | Inr ep \<Rightarrow> Inr (ep, bs))
       (wsa_retry (wn_recvfrom c handle (min n INT_MAX)) (wn_select c handle SelectRead) w))"

definition win_send_to :: "'w win_calls \<Rightarrow> bool \<Rightarrow> int \<Rightarrow> byte list \<Rightarrow> endpoint \<Rightarrow> (nat, 'w) io" where
  "win_send_to c le handle bs dest = with_handle handle
     (wsa_retry (wn_sendto c handle (take INT_MAX bs) (to_sockaddr (endpoint_to_sockaddr_in le dest)))
       (wn_select c handle SelectWrite))"

section \<open>Files\<close>

text \<open>The access and the flags, and the creation disposition, with the numbers of Windows.\<close>

definition win_openmode :: "32 word \<Rightarrow> bool \<Rightarrow> 32 word \<times> 32 word" where
  "win_openmode mode random_access =
     (let access = 0;
          access = (if mode AND 1 \<noteq> 0 then access OR 0x80000000 else access);
          access = (if mode AND 2 \<noteq> 0 then access OR 0x40000000 else access);
          access = (if mode AND 4 \<noteq> 0 then access OR 0xC0000000 else access);
          flags = 0x80 OR 0x40000000;
          flags = (if random_access then flags OR 0x10000000 else flags OR 0x08000000);
          flags = (if mode AND 128 \<noteq> 0 then flags OR 0x80000000 else flags)
      in (access, flags))"

definition CREATE_NEW :: "32 word" where "CREATE_NEW = 1"
definition OPEN_EXISTING :: "32 word" where "OPEN_EXISTING = 3"
definition OPEN_ALWAYS :: "32 word" where "OPEN_ALWAYS = 4"
definition TRUNCATE_EXISTING :: "32 word" where "TRUNCATE_EXISTING = 5"

definition to_creation_disposition :: "32 word \<Rightarrow> 32 word" where
  "to_creation_disposition mode =
     (if mode AND 16 \<noteq> 0 then (if mode AND 32 \<noteq> 0 then CREATE_NEW else OPEN_ALWAYS)
      else if mode AND 64 \<noteq> 0 then TRUNCATE_EXISTING else OPEN_EXISTING)"

text \<open>A step of \<open>open_file\<close> after which the handle is closed if the step fails.\<close>

definition win_open_step :: "'w win_calls \<Rightarrow> int \<Rightarrow> bool \<Rightarrow> ('a, 'w) sys_call \<Rightarrow> ('w \<Rightarrow> (error + int) \<times> 'w) \<Rightarrow> 'w \<Rightarrow> (error + int) \<times> 'w" where
  "win_open_step c handle needed call k w =
     (if \<not> needed then k w
      else (case call w of
              (Inl e, w) \<Rightarrow> (Inl (SystemError e), snd (wn_close_handle c handle w))
            | (Inr _, w) \<Rightarrow> k w))"

definition win_open_file :: "'w win_calls \<Rightarrow> string \<Rightarrow> 32 word \<Rightarrow> bool \<Rightarrow> 'w \<Rightarrow> (error + int) \<times> 'w" where
  "win_open_file c path mode random_access w =
     (let (access, flags) = win_openmode mode random_access;
          disposition = to_creation_disposition mode
      in case wn_create_file c path access disposition flags w of
           (Inl e, w) \<Rightarrow> (Inl (SystemError e), w)
         | (Inr handle, w) \<Rightarrow>
             win_open_step c handle (disposition = OPEN_ALWAYS \<and> mode AND 64 \<noteq> 0) (wn_set_end_of_file c handle)
               (win_open_step c handle ((disposition = OPEN_ALWAYS \<or> disposition = OPEN_EXISTING) \<and> mode AND 8 \<noteq> 0)
                  (wn_set_file_pointer c handle 0 SEEK_END) (Pair (Inr handle))) w)"

definition DWORD_MAX :: nat where "DWORD_MAX = 2 ^ 32 - 1"

text \<open>What the transfer has ended with, and the error of a read that is the end of the file.\<close>

definition read_error :: "int \<Rightarrow> error" where
  "read_error e = (if e = ERROR_HANDLE_EOF \<or> e = ERROR_BROKEN_PIPE then EndOfFile else SystemError e)"

partial_function (option) sync_transfer ::
    "('a, 'w) sys_call \<Rightarrow> ('a, 'w) sys_call \<Rightarrow> (int \<Rightarrow> error) \<Rightarrow> 'w \<Rightarrow> ((error + 'a) \<times> 'w) option" where
  "sync_transfer start wait err w =
     (case fst (start w) of
        Inr v \<Rightarrow> Some (Inr v, snd (start w))
      | Inl e \<Rightarrow>
          if e = ERROR_IO_PENDING then
            Some (map_sum err (\<lambda>v. v) (fst (wait (snd (start w)))), snd (wait (snd (start w))))
          else if e = ERROR_OPERATION_ABORTED then sync_transfer start wait err (snd (start w))
          else Some (Inl (err e), snd (start w)))"

text \<open>The event of the transfer is closed on every path.\<close>

definition with_event :: "'w win_calls \<Rightarrow> ('a, 'w) io \<Rightarrow> ('a, 'w) io" where
  "with_event c m w =
     (case wn_create_event c w of
        (Inl e, w) \<Rightarrow> Some (Inl (SystemError e), w)
      | (Inr ev, w) \<Rightarrow> map_option (\<lambda>(r, w). (r, snd (wn_close_handle c ev w))) (m w))"

definition sync_file_read :: "'w win_calls \<Rightarrow> int \<Rightarrow> nat \<Rightarrow> size_t \<Rightarrow> (byte list, 'w) io" where
  "sync_file_read c handle n offset = with_handle handle (\<lambda>w.
     if n = 0 then Some (Inr [], w)
     else io_post (\<lambda>bs. if n \<noteq> 0 \<and> bs = [] then Inl EndOfFile else Inr bs)
       (with_event c (sync_transfer (wn_read_file c handle (min n DWORD_MAX) offset) (wn_overlapped_read c handle) read_error) w))"

definition sync_file_write :: "'w win_calls \<Rightarrow> int \<Rightarrow> byte list \<Rightarrow> size_t \<Rightarrow> (nat, 'w) io" where
  "sync_file_write c handle bs offset = with_handle handle (\<lambda>w.
     if bs = [] then Some (Inr 0, w)
     else with_event c
       (sync_transfer (wn_write_file c handle (take DWORD_MAX bs) offset) (wn_overlapped_write c handle) SystemError) w)"

definition win_file_read_at :: "'w win_calls \<Rightarrow> int \<Rightarrow> size_t \<Rightarrow> nat \<Rightarrow> (byte list, 'w) io" where
  "win_file_read_at c handle offset n = sync_file_read c handle n offset"

definition win_file_write_at :: "'w win_calls \<Rightarrow> int \<Rightarrow> size_t \<Rightarrow> byte list \<Rightarrow> (nat, 'w) io" where
  "win_file_write_at c handle offset bs = sync_file_write c handle bs offset"

definition win_file_size :: "'w win_calls \<Rightarrow> int \<Rightarrow> (nat, 'w) io" where
  "win_file_size c handle = with_handle handle (win_call (wn_file_size c handle))"

definition win_file_sync_all :: "'w win_calls \<Rightarrow> int \<Rightarrow> (unit, 'w) io" where
  "win_file_sync_all c handle = with_handle handle (win_call (wn_flush_file c handle))"

definition win_file_sync_data :: "'w win_calls \<Rightarrow> int \<Rightarrow> (unit, 'w) io" where
  "win_file_sync_data c handle = win_file_sync_all c handle"

text \<open>\<open>make_native_pipe\<close>: the name of the \<open>index\<close>-th pipe of the process is unique.\<close>

definition win_make_native_pipe :: "'w win_calls \<Rightarrow> (nat \<Rightarrow> string) \<Rightarrow> nat \<Rightarrow> 'w \<Rightarrow> (error + (int \<times> int)) \<times> nat \<times> 'w" where
  "win_make_native_pipe c pipe_name index w =
     (case wn_create_named_pipe c (pipe_name index) w of
        (Inl e, w) \<Rightarrow> (Inl (SystemError e), index + 1, w)
      | (Inr reader, w) \<Rightarrow>
          (case wn_create_file c (pipe_name index) 0x40000000 OPEN_EXISTING 0x40000000 w of
             (Inl e, w) \<Rightarrow> (Inl (SystemError e), index + 1, snd (wn_close_handle c reader w))
           | (Inr writer, w) \<Rightarrow> (Inr (reader, writer), index + 1, w)))"

text \<open>A system in which every call fails with \<open>ERROR_INVALID_HANDLE\<close>.\<close>

definition win_none :: "'w win_calls" where
  "win_none =
    \<lparr>wn_recv = (\<lambda>_ _ w. (Inl 6, w)), wn_send = (\<lambda>_ _ w. (Inl 6, w)), wn_recvfrom = (\<lambda>_ _ w. (Inl 6, w)),
     wn_sendto = (\<lambda>_ _ _ w. (Inl 6, w)), wn_accept = (\<lambda>_ w. (Inl 6, w)), wn_connect = (\<lambda>_ _ w. (Inl 6, w)),
     wn_select = (\<lambda>_ _ w. (Inl 6, w)), wn_so_error = (\<lambda>_ w. (Inl 6, w)), wn_so_stream = (\<lambda>_ w. (Inl 6, w)),
     wn_getsockname = (\<lambda>_ w. (Inl 6, w)), wn_getpeername = (\<lambda>_ w. (Inl 6, w)),
     wn_shutdown = (\<lambda>_ _ w. (Inl 6, w)), wn_bind = (\<lambda>_ _ w. (Inl 6, w)),
     wn_setsockopt = (\<lambda>_ _ _ _ w. (Inl 6, w)), wn_getsockopt = (\<lambda>_ _ _ _ w. (Inl 6, w)),
     wn_socket = (\<lambda>_ _ _ w. (Inl 6, w)), wn_listen = (\<lambda>_ _ w. (Inl 6, w)),
     wn_closesocket = (\<lambda>_ w. (Inl 6, w)), wn_create_event = (\<lambda>w. (Inl 6, w)),
     wn_close_handle = (\<lambda>_ w. (Inl 6, w)), wn_read_file = (\<lambda>_ _ _ w. (Inl 6, w)),
     wn_write_file = (\<lambda>_ _ _ w. (Inl 6, w)), wn_overlapped_read = (\<lambda>_ w. (Inl 6, w)),
     wn_overlapped_write = (\<lambda>_ w. (Inl 6, w)), wn_create_file = (\<lambda>_ _ _ _ w. (Inl 6, w)),
     wn_create_named_pipe = (\<lambda>_ w. (Inl 6, w)), wn_set_end_of_file = (\<lambda>_ w. (Inl 6, w)),
     wn_set_file_pointer = (\<lambda>_ _ _ w. (Inl 6, w)), wn_file_size = (\<lambda>_ w. (Inl 6, w)),
     wn_flush_file = (\<lambda>_ w. (Inl 6, w)), wn_type_disk = (\<lambda>_ _. False)\<rparr>"

end
