(* ===== verification/Iocp_Io.thy ===== *)
theory Iocp_Io
  imports Win_Io Epoll_Io
begin

text \<open>
  The operations of the I/O completion port backend: \<open>include/coio/asyncio/iocp_context.h\<close> and \<open>src/win/asyncio/iocp_context.cpp\<close>. An
  operation is an \<open>OVERLAPPED\<close> that is handed to the kernel with the call; it is completed by the packet that the kernel
  queues to the port, or in \<open>do_start\<close> if the call has ended and no packet will come.

  The overlapped calls are the fields of \<open>iocp_calls\<close>, with the address of the operation as their first argument. A call
  that ends at once yields the number of bytes; \<open>ic_stored\<close> is what the kernel has written for an operation: the peer's
  address and the buffer. \<open>ic_status\<close> is \<open>GetQueuedCompletionStatusEx\<close>: its error or the entries (the operation, the
  completion key, the number of bytes, and whether the status in \<open>Internal\<close> is not zero), and the time when it returns.
\<close>

section \<open>Operations\<close>

datatype iocp_request =
    IocpReadAt size_t nat
  | IocpWriteAt size_t "byte list"
  | IocpReceive nat bool
  | IocpSend "byte list" bool
  | IocpReceiveFrom nat
  | IocpSendTo "byte list" endpoint
  | IocpAccept
  | IocpConnect endpoint

record iocp_op =
  io_handle :: int
  io_skip :: bool
  io_req :: iocp_request
  io_res :: io_result
  io_accepted :: int

record iocp_entry =
  ie_op :: ptr
  ie_key :: nat
  ie_bytes :: nat
  ie_failed :: bool

record 'w iocp_calls =
  ic_read :: "addr \<Rightarrow> int \<Rightarrow> nat \<Rightarrow> size_t \<Rightarrow> (nat, 'w) sys_call"
  ic_write :: "addr \<Rightarrow> int \<Rightarrow> byte list \<Rightarrow> size_t \<Rightarrow> (nat, 'w) sys_call"
  ic_recv :: "addr \<Rightarrow> int \<Rightarrow> nat \<Rightarrow> (nat, 'w) sys_call"
  ic_send :: "addr \<Rightarrow> int \<Rightarrow> byte list \<Rightarrow> (nat, 'w) sys_call"
  ic_recvfrom :: "addr \<Rightarrow> int \<Rightarrow> nat \<Rightarrow> (nat, 'w) sys_call"
  ic_sendto :: "addr \<Rightarrow> int \<Rightarrow> byte list \<Rightarrow> sockaddr \<times> nat \<Rightarrow> (nat, 'w) sys_call"
  ic_accept :: "addr \<Rightarrow> int \<Rightarrow> int \<Rightarrow> (nat, 'w) sys_call"
  ic_connect :: "addr \<Rightarrow> int \<Rightarrow> sockaddr \<times> nat \<Rightarrow> (nat, 'w) sys_call"
  ic_protocol_info :: "int \<Rightarrow> (int \<times> int \<times> int, 'w) sys_call"
  ic_connect_ex :: "int \<Rightarrow> (unit, 'w) sys_call"
  ic_bind_any :: "int \<Rightarrow> bool \<Rightarrow> (unit, 'w) sys_call"
  ic_update_accept :: "int \<Rightarrow> int \<Rightarrow> (unit, 'w) sys_call"
  ic_update_connect :: "int \<Rightarrow> (unit, 'w) sys_call"
  ic_cancel :: "int \<Rightarrow> ptr \<Rightarrow> 'w \<Rightarrow> 'w"
  ic_associate :: "int \<Rightarrow> (unit, 'w) sys_call"
  ic_skip_on_success :: "int \<Rightarrow> 'w \<Rightarrow> bool \<times> 'w"
  ic_enum_protocols :: "'w \<Rightarrow> (int + bool list) \<times> 'w"
  ic_status :: "nat \<Rightarrow> 'w \<Rightarrow> (int + iocp_entry list) \<times> int \<times> 'w"
  ic_overlapped_result :: "int \<Rightarrow> addr \<Rightarrow> (unit, 'w) sys_call"
  ic_post_wake :: "'w \<Rightarrow> 'w"
  ic_stored :: "'w \<Rightarrow> addr \<Rightarrow> sockaddr \<times> byte list"

type_synonym 'w iocp_started = "(error + (start_result \<times> iocp_op)) \<times> 'w"
type_synonym 'w iocp_completed = "(error + iocp_op) \<times> 'w"

definition iocp_set :: "(io_result \<Rightarrow> error + io_result) \<Rightarrow> iocp_op \<Rightarrow> error + iocp_op" where
  "iocp_set f ob = map_sum (\<lambda>e. e) (\<lambda>r. ob\<lparr>io_res := r\<rparr>) (f (io_res ob))"

text \<open>\<open>complete\<close> of each tag.\<close>

definition iocp_read_complete :: "byte list \<Rightarrow> nat \<Rightarrow> nat \<Rightarrow> int \<Rightarrow> io_result \<Rightarrow> error + io_result" where
  "iocp_read_complete buffer n bytes err r =
     (if err \<noteq> 0 then
        if err = ERROR_OPERATION_ABORTED then result_set_stopped r
        else if err = ERROR_HANDLE_EOF \<or> err = ERROR_BROKEN_PIPE then result_set_error EndOfFile r
        else result_set_error (SystemError err) r
      else if bytes = 0 \<and> n \<noteq> 0 then result_set_error EndOfFile r
      else result_set_value (VBytes (take bytes buffer)) r)"

definition iocp_write_complete :: "nat \<Rightarrow> int \<Rightarrow> io_result \<Rightarrow> error + io_result" where
  "iocp_write_complete bytes err r =
     (if err \<noteq> 0 then
        if err = ERROR_OPERATION_ABORTED then result_set_stopped r else result_set_error (SystemError err) r
      else result_set_value (VCount bytes) r)"

definition iocp_receive_complete :: "byte list \<Rightarrow> nat \<Rightarrow> bool \<Rightarrow> nat \<Rightarrow> int \<Rightarrow> io_result \<Rightarrow> error + io_result" where
  "iocp_receive_complete buffer n stream bytes err r =
     (if err \<noteq> 0 then
        if err = ERROR_OPERATION_ABORTED then result_set_stopped r
        else
          (let err = (if err = ERROR_NETNAME_DELETED then WSAECONNRESET
                      else if err = ERROR_PORT_UNREACHABLE then WSAECONNREFUSED else err)
           in result_set_error (SystemError err) r)
      else if stream \<and> bytes = 0 \<and> n \<noteq> 0 then result_set_error EndOfFile r
      else result_set_value (VBytes (take bytes buffer)) r)"

definition iocp_send_complete :: "nat \<Rightarrow> int \<Rightarrow> io_result \<Rightarrow> error + io_result" where
  "iocp_send_complete bytes err r =
     (if err \<noteq> 0 then
        if err = ERROR_OPERATION_ABORTED then result_set_stopped r
        else
          (let err = (if err = ERROR_NETNAME_DELETED then WSAECONNRESET
                      else if err = ERROR_PORT_UNREACHABLE then WSAECONNREFUSED else err)
           in result_set_error (SystemError err) r)
      else result_set_value (VCount bytes) r)"

definition iocp_receive_from_complete :: "bool \<Rightarrow> sockaddr \<times> byte list \<Rightarrow> nat \<Rightarrow> int \<Rightarrow> io_result \<Rightarrow> error + io_result" where
  "iocp_receive_from_complete le stored bytes err r =
     (if err \<noteq> 0 then
        if err = ERROR_OPERATION_ABORTED then result_set_stopped r
        else
          (let err = (if err = ERROR_NETNAME_DELETED then WSAECONNRESET
                      else if err = ERROR_PORT_UNREACHABLE then WSAECONNREFUSED else err)
           in result_set_error (SystemError err) r)
      else
        (case sockaddr_storage_to_endpoint le (fst stored) of
           Inl e \<Rightarrow> Inl e
         | Inr ep \<Rightarrow> result_set_value (VDatagram ep (take bytes (snd stored))) r))"

definition iocp_send_to_complete :: "nat \<Rightarrow> int \<Rightarrow> io_result \<Rightarrow> error + io_result" where
  "iocp_send_to_complete bytes err r =
     (if err \<noteq> 0 then
        if err = ERROR_OPERATION_ABORTED then result_set_stopped r
        else
          (let err = (if err = ERROR_NETNAME_DELETED then WSAECONNRESET
                      else if err = ERROR_PORT_UNREACHABLE then WSAECONNREFUSED else err)
           in result_set_error (SystemError err) r)
      else result_set_value (VCount bytes) r)"

text \<open>An accepted socket is closed unless it becomes the result.\<close>

definition iocp_close_accepted :: "'w win_calls \<Rightarrow> iocp_op \<Rightarrow> 'w \<Rightarrow> iocp_op \<times> 'w" where
  "iocp_close_accepted c ob w = (ob\<lparr>io_accepted := - 1\<rparr>, snd (wn_closesocket c (io_accepted ob) w))"

definition iocp_accept_complete :: "'w win_calls \<Rightarrow> 'w iocp_calls \<Rightarrow> int \<Rightarrow> iocp_op \<Rightarrow> 'w \<Rightarrow> 'w iocp_completed" where
  "iocp_accept_complete c d err ob w =
     (if err \<noteq> 0 then
        (case iocp_close_accepted c ob w of
           (ob, w) \<Rightarrow>
             (if err = ERROR_OPERATION_ABORTED then iocp_set result_set_stopped ob
              else iocp_set (result_set_error (SystemError err)) ob, w))
      else
        (case ic_update_accept d (io_accepted ob) (io_handle ob) w of
           (Inl err, w) \<Rightarrow>
             (case iocp_close_accepted c ob w of (ob, w) \<Rightarrow> (iocp_set (result_set_error (SystemError err)) ob, w))
         | (Inr _, w) \<Rightarrow> (iocp_set (result_set_value (VHandle (io_accepted ob))) ob, w)))"

definition connect_error :: "int \<Rightarrow> int" where
  "connect_error err =
     (if err = ERROR_CONNECTION_REFUSED then WSAECONNREFUSED
      else if err = ERROR_NETWORK_UNREACHABLE then WSAENETUNREACH
      else if err = ERROR_HOST_UNREACHABLE then WSAEHOSTUNREACH
      else if err = ERROR_SEM_TIMEOUT then WSAETIMEDOUT else err)"

definition iocp_connect_complete :: "'w iocp_calls \<Rightarrow> int \<Rightarrow> iocp_op \<Rightarrow> 'w \<Rightarrow> 'w iocp_completed" where
  "iocp_connect_complete d err ob w =
     (if err \<noteq> 0 then
        (if err = ERROR_OPERATION_ABORTED then iocp_set result_set_stopped ob
         else iocp_set (result_set_error (SystemError (connect_error err))) ob, w)
      else
        (case ic_update_connect d (io_handle ob) w of
           (Inl err, w) \<Rightarrow> (iocp_set (result_set_error (SystemError err)) ob, w)
         | (Inr _, w) \<Rightarrow> (iocp_set (result_set_value VUnit) ob, w)))"

text \<open>The virtual call.\<close>

definition iocp_complete ::
    "'w win_calls \<Rightarrow> 'w iocp_calls \<Rightarrow> bool \<Rightarrow> addr \<Rightarrow> nat \<Rightarrow> int \<Rightarrow> iocp_op \<Rightarrow> 'w \<Rightarrow> 'w iocp_completed" where
  "iocp_complete c d le a bytes err ob w =
     (let stored = ic_stored d w a in
      case io_req ob of
        IocpReadAt _ n \<Rightarrow> (iocp_set (iocp_read_complete (snd stored) n bytes err) ob, w)
      | IocpWriteAt _ _ \<Rightarrow> (iocp_set (iocp_write_complete bytes err) ob, w)
      | IocpReceive n stream \<Rightarrow> (iocp_set (iocp_receive_complete (snd stored) n stream bytes err) ob, w)
      | IocpSend _ _ \<Rightarrow> (iocp_set (iocp_send_complete bytes err) ob, w)
      | IocpReceiveFrom _ \<Rightarrow> (iocp_set (iocp_receive_from_complete le stored bytes err) ob, w)
      | IocpSendTo _ _ \<Rightarrow> (iocp_set (iocp_send_to_complete bytes err) ob, w)
      | IocpAccept \<Rightarrow> iocp_accept_complete c d err ob w
      | IocpConnect _ \<Rightarrow> iocp_connect_complete d err ob w)"

section \<open>Starting an operation\<close>

definition iocp_done :: "'w iocp_completed \<Rightarrow> 'w iocp_started" where
  "iocp_done x = (map_sum (\<lambda>e. e) (Pair ResCompleted) (fst x), snd x)"

definition iocp_fail :: "error \<Rightarrow> iocp_op \<Rightarrow> 'w \<Rightarrow> 'w iocp_started" where
  "iocp_fail e ob w = iocp_done (iocp_set (result_set_error e) ob, w)"

text \<open>The end of every \<open>do_start\<close>: whether a packet will come.\<close>

definition iocp_issue ::
    "'w win_calls \<Rightarrow> 'w iocp_calls \<Rightarrow> bool \<Rightarrow> addr \<Rightarrow> (nat, 'w) sys_call \<Rightarrow> iocp_op \<Rightarrow> 'w \<Rightarrow> 'w iocp_started" where
  "iocp_issue c d le a call ob w =
     (case call w of
        (Inl err, w) \<Rightarrow>
          if err = ERROR_IO_PENDING then (Inr (ResPending, ob), w) else iocp_done (iocp_complete c d le a 0 err ob w)
      | (Inr bytes, w) \<Rightarrow>
          if io_skip ob then iocp_done (iocp_complete c d le a bytes 0 ob w) else (Inr (ResPending, ob), w))"

definition iocp_read_start :: "'w win_calls \<Rightarrow> 'w iocp_calls \<Rightarrow> bool \<Rightarrow> addr \<Rightarrow> size_t \<Rightarrow> nat \<Rightarrow> iocp_op \<Rightarrow> 'w \<Rightarrow> 'w iocp_started" where
  "iocp_read_start c d le a offset n ob w =
     (if n = 0 then iocp_done (iocp_set (result_set_value (VBytes [])) ob, w)
      else iocp_issue c d le a (ic_read d a (io_handle ob) (min n DWORD_MAX) offset) ob w)"

definition iocp_write_start :: "'w win_calls \<Rightarrow> 'w iocp_calls \<Rightarrow> bool \<Rightarrow> addr \<Rightarrow> size_t \<Rightarrow> byte list \<Rightarrow> iocp_op \<Rightarrow> 'w \<Rightarrow> 'w iocp_started" where
  "iocp_write_start c d le a offset bs ob w =
     (if bs = [] then iocp_done (iocp_set (result_set_value (VCount 0)) ob, w)
      else iocp_issue c d le a (ic_write d a (io_handle ob) (take DWORD_MAX bs) offset) ob w)"

definition iocp_receive_start :: "'w win_calls \<Rightarrow> 'w iocp_calls \<Rightarrow> bool \<Rightarrow> addr \<Rightarrow> nat \<Rightarrow> bool \<Rightarrow> iocp_op \<Rightarrow> 'w \<Rightarrow> 'w iocp_started" where
  "iocp_receive_start c d le a n stream ob w =
     (if stream \<and> n = 0 then iocp_done (iocp_set (result_set_value (VBytes [])) ob, w)
      else iocp_issue c d le a (ic_recv d a (io_handle ob) (min n DWORD_MAX)) ob w)"

definition iocp_send_start :: "'w win_calls \<Rightarrow> 'w iocp_calls \<Rightarrow> bool \<Rightarrow> addr \<Rightarrow> byte list \<Rightarrow> bool \<Rightarrow> iocp_op \<Rightarrow> 'w \<Rightarrow> 'w iocp_started" where
  "iocp_send_start c d le a bs stream ob w =
     (if bs = [] \<and> stream then iocp_done (iocp_set (result_set_value (VCount 0)) ob, w)
      else iocp_issue c d le a (ic_send d a (io_handle ob) (take DWORD_MAX bs)) ob w)"

definition iocp_receive_from_start :: "'w win_calls \<Rightarrow> 'w iocp_calls \<Rightarrow> bool \<Rightarrow> addr \<Rightarrow> nat \<Rightarrow> iocp_op \<Rightarrow> 'w \<Rightarrow> 'w iocp_started" where
  "iocp_receive_from_start c d le a n ob w =
     iocp_issue c d le a (ic_recvfrom d a (io_handle ob) (min n DWORD_MAX)) ob w"

definition iocp_send_to_start :: "'w win_calls \<Rightarrow> 'w iocp_calls \<Rightarrow> bool \<Rightarrow> addr \<Rightarrow> byte list \<Rightarrow> endpoint \<Rightarrow> iocp_op \<Rightarrow> 'w \<Rightarrow> 'w iocp_started" where
  "iocp_send_to_start c d le a bs dest ob w =
     iocp_issue c d le a
       (ic_sendto d a (io_handle ob) (take DWORD_MAX bs) (to_sockaddr (endpoint_to_sockaddr_in le dest))) ob w"

definition iocp_accept_start :: "'w win_calls \<Rightarrow> 'w iocp_calls \<Rightarrow> bool \<Rightarrow> addr \<Rightarrow> iocp_op \<Rightarrow> 'w \<Rightarrow> 'w iocp_started" where
  "iocp_accept_start c d le a ob w =
     (case ic_protocol_info d (io_handle ob) w of
        (Inl err, w) \<Rightarrow> iocp_fail (SystemError err) ob w
      | (Inr (family, type, proto), w) \<Rightarrow>
          (case wn_socket c family type proto w of
             (Inl err, w) \<Rightarrow> iocp_fail (SystemError err) ob w
           | (Inr accepted, w) \<Rightarrow>
               iocp_issue c d le a (ic_accept d a (io_handle ob) accepted) (ob\<lparr>io_accepted := accepted\<rparr>) w))"

text \<open>\<open>ConnectEx\<close> needs a bound socket; that it is bound already (\<open>WSAEINVAL\<close>) is fine. The families are those of Windows.\<close>

definition iocp_bind_any :: "'w iocp_calls \<Rightarrow> int \<Rightarrow> int \<Rightarrow> 'w \<Rightarrow> int \<times> 'w" where
  "iocp_bind_any d handle family w =
     (if family = 2 then (case ic_bind_any d handle False w of (Inl e, w) \<Rightarrow> (e, w) | (Inr _, w) \<Rightarrow> (0, w))
      else if family = 23 then (case ic_bind_any d handle True w of (Inl e, w) \<Rightarrow> (e, w) | (Inr _, w) \<Rightarrow> (0, w))
      else (WSAEAFNOSUPPORT, w))"

definition iocp_connect_start :: "'w win_calls \<Rightarrow> 'w iocp_calls \<Rightarrow> bool \<Rightarrow> addr \<Rightarrow> endpoint \<Rightarrow> iocp_op \<Rightarrow> 'w \<Rightarrow> 'w iocp_started" where
  "iocp_connect_start c d le a peer ob w =
     (case ic_connect_ex d (io_handle ob) w of
        (Inl err, w) \<Rightarrow> iocp_fail (SystemError err) ob w
      | (Inr _, w) \<Rightarrow>
          (case ic_protocol_info d (io_handle ob) w of
             (Inl err, w) \<Rightarrow> iocp_fail (SystemError err) ob w
           | (Inr (family, type, proto), w) \<Rightarrow>
               (case iocp_bind_any d (io_handle ob) family w of
                  (err, w) \<Rightarrow>
                    if err \<noteq> 0 \<and> err \<noteq> WSAEINVAL then iocp_fail (SystemError err) ob w
                    else iocp_issue c d le a
                      (ic_connect d a (io_handle ob) (to_sockaddr (endpoint_to_sockaddr_in le peer))) ob w)))"

definition iocp_do_start ::
    "'w win_calls \<Rightarrow> 'w iocp_calls \<Rightarrow> bool \<Rightarrow> addr \<Rightarrow> iocp_op \<Rightarrow> 'w \<Rightarrow> 'w iocp_started" where
  "iocp_do_start c d le a ob w =
     (if io_handle ob = - 1 then iocp_fail bad_file_descriptor ob w
      else
        (case io_req ob of
           IocpReadAt offset n \<Rightarrow> iocp_read_start c d le a offset n ob w
         | IocpWriteAt offset bs \<Rightarrow> iocp_write_start c d le a offset bs ob w
         | IocpReceive n stream \<Rightarrow> iocp_receive_start c d le a n stream ob w
         | IocpSend bs stream \<Rightarrow> iocp_send_start c d le a bs stream ob w
         | IocpReceiveFrom n \<Rightarrow> iocp_receive_from_start c d le a n ob w
         | IocpSendTo bs dest \<Rightarrow> iocp_send_to_start c d le a bs dest ob w
         | IocpAccept \<Rightarrow> iocp_accept_start c d le a ob w
         | IocpConnect peer \<Rightarrow> iocp_connect_start c d le a peer ob w))"

definition iocp_do_cancel :: "'w iocp_calls \<Rightarrow> addr \<Rightarrow> iocp_op \<Rightarrow> 'w \<Rightarrow> 'w" where
  "iocp_do_cancel d a ob w = ic_cancel d (io_handle ob) (Some a) w"


section \<open>One result, from one place\<close>

text \<open>
  What is relied on of the kernel. \<open>owed w a\<close> counts the packets that are queued or will be queued for the operation \<open>a\<close>,
  and \<open>skips w h\<close> says that \<open>FILE_SKIP_COMPLETION_PORT_ON_SUCCESS\<close> is set on a handle. A call that is pending owes a
  packet; a call that has ended owes one unless the handle skips it; a call that has failed owes none. The other calls of
  an operation do not change this.
\<close>

definition iocp_issues :: "('w \<Rightarrow> addr \<Rightarrow> nat) \<Rightarrow> ('w \<Rightarrow> int \<Rightarrow> bool) \<Rightarrow> addr \<Rightarrow> int \<Rightarrow> (nat, 'w) sys_call \<Rightarrow> bool" where
  "iocp_issues owed skips a h call \<longleftrightarrow>
     (\<forall>w. case call w of
        (Inl err, w') \<Rightarrow> owed w' a = owed w a + (if err = ERROR_IO_PENDING then 1 else 0)
      | (Inr _, w') \<Rightarrow> owed w' a = owed w a + (if skips w h then 0 else 1))"

definition iocp_quiet :: "('w \<Rightarrow> addr \<Rightarrow> nat) \<Rightarrow> ('w \<Rightarrow> int \<Rightarrow> bool) \<Rightarrow> ('b, 'w) sys_call \<Rightarrow> bool" where
  "iocp_quiet owed skips call \<longleftrightarrow> (\<forall>w. owed (snd (call w)) = owed w \<and> skips (snd (call w)) = skips w)"

definition iocp_port_ok ::
    "'w win_calls \<Rightarrow> 'w iocp_calls \<Rightarrow> ('w \<Rightarrow> addr \<Rightarrow> nat) \<Rightarrow> ('w \<Rightarrow> int \<Rightarrow> bool) \<Rightarrow> bool" where
  "iocp_port_ok c d owed skips \<longleftrightarrow>
     (\<forall>a h. (\<forall>n off. iocp_issues owed skips a h (ic_read d a h n off)) \<and>
        (\<forall>bs off. iocp_issues owed skips a h (ic_write d a h bs off)) \<and>
        (\<forall>n. iocp_issues owed skips a h (ic_recv d a h n)) \<and> (\<forall>bs. iocp_issues owed skips a h (ic_send d a h bs)) \<and>
        (\<forall>n. iocp_issues owed skips a h (ic_recvfrom d a h n)) \<and>
        (\<forall>bs sa. iocp_issues owed skips a h (ic_sendto d a h bs sa)) \<and>
        (\<forall>s. iocp_issues owed skips a h (ic_accept d a h s)) \<and> (\<forall>sa. iocp_issues owed skips a h (ic_connect d a h sa))) \<and>
     (\<forall>h. iocp_quiet owed skips (ic_protocol_info d h) \<and> iocp_quiet owed skips (ic_connect_ex d h) \<and>
        iocp_quiet owed skips (ic_update_connect d h) \<and> iocp_quiet owed skips (wn_closesocket c h)) \<and>
     (\<forall>h x. iocp_quiet owed skips (ic_bind_any d h x)) \<and> (\<forall>h s. iocp_quiet owed skips (ic_update_accept d s h)) \<and>
     (\<forall>f t p. iocp_quiet owed skips (wn_socket c f t p))"

text \<open>Datagrams come from IP peers only.\<close>

definition iocp_ip_peers :: "'w iocp_calls \<Rightarrow> bool" where
  "iocp_ip_peers d \<longleftrightarrow> (\<forall>w a f. fst (ic_stored d w a) \<noteq> SockOther f)"

text \<open>The outcome of a start: a result and no packet, or no result and one packet.\<close>

definition iocp_once :: "('w \<Rightarrow> addr \<Rightarrow> nat) \<Rightarrow> addr \<Rightarrow> 'w \<Rightarrow> 'w iocp_started \<Rightarrow> bool" where
  "iocp_once owed a w x \<longleftrightarrow>
     (case x of
        (Inl _, _) \<Rightarrow> False
      | (Inr (ResCompleted, ob), w') \<Rightarrow> owed w' a = owed w a
      | (Inr (ResPending, ob), w') \<Rightarrow> io_res ob = ResultNone \<and> owed w' a = Suc (owed w a))"

lemma iocp_port_okD:
  assumes "iocp_port_ok c d owed skips"
  shows "iocp_issues owed skips a h (ic_read d a h n off)" "iocp_issues owed skips a h (ic_write d a h bs off)"
    "iocp_issues owed skips a h (ic_recv d a h n)" "iocp_issues owed skips a h (ic_send d a h bs)"
    "iocp_issues owed skips a h (ic_recvfrom d a h n)" "iocp_issues owed skips a h (ic_sendto d a h bs sa)"
    "iocp_issues owed skips a h (ic_accept d a h s)" "iocp_issues owed skips a h (ic_connect d a h sa)"
    "iocp_quiet owed skips (ic_protocol_info d h)" "iocp_quiet owed skips (ic_connect_ex d h)"
    "iocp_quiet owed skips (ic_update_connect d h)" "iocp_quiet owed skips (wn_closesocket c h)"
    "iocp_quiet owed skips (ic_bind_any d h x)" "iocp_quiet owed skips (ic_update_accept d s h)"
    "iocp_quiet owed skips (wn_socket c f ty pr)"
  using assms by (simp_all add: iocp_port_ok_def del: split_paired_All)

lemma iocp_set_ok: "io_res ob = ResultNone \<Longrightarrow> f ResultNone = Inr r \<Longrightarrow> iocp_set f ob = Inr (ob\<lparr>io_res := r\<rparr>)"
  by (simp add: iocp_set_def)

lemmas iocp_complete_defs = iocp_read_complete_def iocp_write_complete_def iocp_receive_complete_def
  iocp_send_complete_def iocp_receive_from_complete_def iocp_send_to_complete_def

lemma iocp_sockaddr_ip: "iocp_ip_peers d \<Longrightarrow> \<exists>ep. sockaddr_storage_to_endpoint le (fst (ic_stored d w a)) = Inr ep"
  by (cases "fst (ic_stored d w a)")
    (simp_all add: iocp_ip_peers_def sockaddr_storage_to_endpoint_def sockaddr_to_endpoint_def)

lemma iocp_quietD:
  "iocp_quiet owed skips call \<Longrightarrow> call w = (r, w') \<Longrightarrow> owed w' = owed w"
  "iocp_quiet owed skips call \<Longrightarrow> call w = (r, w') \<Longrightarrow> skips w' = skips w"
  unfolding iocp_quiet_def by (metis snd_conv)+

lemma iocp_complete_ok:
  assumes ok: "iocp_port_ok c d owed skips" and ip: "iocp_ip_peers d" and r: "io_res ob = ResultNone"
  shows "\<exists>ob' w'. iocp_complete c d le a bytes err ob w = (Inr ob', w') \<and> owed w' = owed w"
proof (cases "io_req ob")
  case (IocpReceiveFrom n)
  then show ?thesis using r iocp_sockaddr_ip [OF ip, of le w a]
    by (auto simp: iocp_complete_def iocp_receive_from_complete_def iocp_set_def Let_def)
next
  case IocpAccept
  have q: "iocp_quiet owed skips (wn_closesocket c h)" "iocp_quiet owed skips (ic_update_accept d s h)" for h s
    using ok by (blast intro: iocp_port_okD)+
  obtain u w1 where u: "ic_update_accept d (io_accepted ob) (io_handle ob) w = (u, w1)" by fastforce
  then have "owed w1 = owed w" using q(2) by (rule iocp_quietD(1) [rotated])
  moreover have "owed (snd (wn_closesocket c (io_accepted ob) w2)) = owed w2" for w2
    using q(1) by (simp add: iocp_quiet_def)
  ultimately show ?thesis
    using IocpAccept r u
    by (cases u) (auto simp: iocp_complete_def iocp_accept_complete_def iocp_close_accepted_def iocp_set_def Let_def)
next
  case (IocpConnect peer)
  have q: "iocp_quiet owed skips (ic_update_connect d h)" for h using ok by (rule iocp_port_okD)
  obtain u w1 where u: "ic_update_connect d (io_handle ob) w = (u, w1)" by fastforce
  then have "owed w1 = owed w" using q by (rule iocp_quietD(1) [rotated])
  then show ?thesis
    using IocpConnect r u
    by (cases u) (auto simp: iocp_complete_def iocp_connect_complete_def iocp_set_def Let_def)
qed (use r in \<open>auto simp: iocp_complete_def iocp_complete_defs iocp_set_def Let_def\<close>)

lemma iocp_issue_once:
  assumes ok: "iocp_port_ok c d owed skips" and ip: "iocp_ip_peers d" and r: "io_res ob = ResultNone"
    and call: "iocp_issues owed skips a h call" and skip: "io_skip ob = skips w h"
  shows "iocp_once owed a w (iocp_issue c d le a call ob w)"
proof -
  obtain x w1 where x: "call w = (x, w1)" by fastforce
  have o: "owed w1 a = owed w a + (case x of Inl err \<Rightarrow> if err = ERROR_IO_PENDING then 1 else 0 | Inr _ \<Rightarrow> if skips w h then 0 else 1)"
    using call x by (auto simp: iocp_issues_def split: sum.split dest!: spec [of _ w])
  have comp: "\<exists>ob' w'. iocp_complete c d le a bytes err ob w1 = (Inr ob', w') \<and> owed w' = owed w1" for bytes err
    by (rule iocp_complete_ok [OF ok ip r])
  show ?thesis
  proof (cases x)
    case (Inl err)
    then show ?thesis using x o r comp [of 0 err] by (auto simp: iocp_issue_def iocp_once_def iocp_done_def)
  next
    case (Inr bytes)
    then show ?thesis using x o r skip comp [of bytes 0] by (auto simp: iocp_issue_def iocp_once_def iocp_done_def)
  qed
qed

lemma iocp_fail_once: "io_res ob = ResultNone \<Longrightarrow> owed w' = owed w \<Longrightarrow> iocp_once owed a w (iocp_fail e ob w')"
  by (simp add: iocp_once_def iocp_fail_def iocp_done_def iocp_set_def)

lemma iocp_once_cong: "owed w' = owed w \<Longrightarrow> iocp_once owed a w' x = iocp_once owed a w x"
  by (auto simp: iocp_once_def split: prod.splits sum.splits start_result.splits)

lemma iocp_accept_once:
  assumes ok: "iocp_port_ok c d owed skips" and ip: "iocp_ip_peers d" and r: "io_res ob = ResultNone"
    and skip: "io_skip ob = skips w (io_handle ob)"
  shows "iocp_once owed a w (iocp_accept_start c d le a ob w)"
proof -
  have q: "iocp_quiet owed skips (ic_protocol_info d h)" "iocp_quiet owed skips (wn_socket c f t p)"
    "iocp_issues owed skips a h (ic_accept d a h s)" for h f t p s
    using ok by (blast intro: iocp_port_okD)+
  obtain x w1 where x: "ic_protocol_info d (io_handle ob) w = (x, w1)" by fastforce
  note w1 = iocp_quietD [OF q(1) x]
  show ?thesis
  proof (cases x)
    case (Inl e)
    then show ?thesis using x w1 r by (simp add: iocp_accept_start_def iocp_fail_once)
  next
    case (Inr v)
    obtain f t p where v: "v = (f, t, p)" by (cases v)
    obtain y w2 where y: "wn_socket c f t p w1 = (y, w2)" by fastforce
    note w2 = iocp_quietD [OF q(2) y]
    show ?thesis
    proof (cases y)
      case (Inl e)
      then show ?thesis using x y w1 w2 r Inr v by (simp add: iocp_accept_start_def iocp_fail_once)
    next
      case (Inr s)
      have "iocp_once owed a w2 (iocp_issue c d le a (ic_accept d a (io_handle ob) s) (ob\<lparr>io_accepted := s\<rparr>) w2)"
        by (rule iocp_issue_once [OF ok ip _ q(3)]) (use r skip w1 w2 in simp_all)
      then have "iocp_once owed a w (iocp_issue c d le a (ic_accept d a (io_handle ob) s) (ob\<lparr>io_accepted := s\<rparr>) w2)"
        using iocp_once_cong [of owed w2 w] w1 w2 by simp
      then show ?thesis using x y \<open>x = Inr v\<close> v Inr by (simp add: iocp_accept_start_def)
    qed
  qed
qed

lemma iocp_connect_once:
  assumes ok: "iocp_port_ok c d owed skips" and ip: "iocp_ip_peers d" and r: "io_res ob = ResultNone"
    and skip: "io_skip ob = skips w (io_handle ob)"
  shows "iocp_once owed a w (iocp_connect_start c d le a peer ob w)"
proof -
  have q: "iocp_quiet owed skips (ic_connect_ex d h)" "iocp_quiet owed skips (ic_protocol_info d h)"
    "iocp_quiet owed skips (ic_bind_any d h x)" "iocp_issues owed skips a h (ic_connect d a h sa)" for h x sa
    using ok by (blast intro: iocp_port_okD)+
  obtain x0 w0 where x0: "ic_connect_ex d (io_handle ob) w = (x0, w0)" by fastforce
  obtain x1 w1 where x1: "ic_protocol_info d (io_handle ob) w0 = (x1, w1)" by fastforce
  note w01 = iocp_quietD [OF q(1) x0] iocp_quietD [OF q(2) x1]
  show ?thesis
  proof (cases "\<exists>f t p. x0 = Inr () \<and> x1 = Inr (f, t, p)")
    case False
    then show ?thesis
      using x0 x1 w01 r by (cases x0; cases x1) (auto simp: iocp_connect_start_def iocp_fail_once)
  next
    case True
    then obtain f t p where v: "x0 = Inr ()" "x1 = Inr (f, t, p)" by blast
    obtain e w2 where e: "iocp_bind_any d (io_handle ob) f w1 = (e, w2)" by fastforce
    have w2: "owed w2 = owed w1" "skips w2 = skips w1"
      using e q(3) unfolding iocp_quiet_def iocp_bind_any_def
      by (auto split: if_splits sum.splits prod.splits) (metis snd_conv)+
    have "iocp_once owed a w2 (iocp_issue c d le a
        (ic_connect d a (io_handle ob) (to_sockaddr (endpoint_to_sockaddr_in le peer))) ob w2)"
      by (rule iocp_issue_once [OF ok ip r q(4)]) (use skip w01 w2 in simp)
    then show ?thesis
      using x0 x1 v e r w01 w2 iocp_once_cong [of owed w2 w]
      by (simp add: iocp_connect_start_def iocp_fail_once)
  qed
qed

lemma iocp_do_start_once:
  assumes ok: "iocp_port_ok c d owed skips" and ip: "iocp_ip_peers d" and r: "io_res ob = ResultNone"
    and skip: "io_skip ob = skips w (io_handle ob)"
  shows "iocp_once owed a w (iocp_do_start c d le a ob w)"
proof (cases "io_handle ob = - 1")
  case True
  then show ?thesis using r by (simp add: iocp_do_start_def iocp_fail_once)
next
  case False
  have q: "iocp_issues owed skips a h (ic_read d a h n off)" "iocp_issues owed skips a h (ic_write d a h bs off)"
    "iocp_issues owed skips a h (ic_recv d a h n)" "iocp_issues owed skips a h (ic_send d a h bs)"
    "iocp_issues owed skips a h (ic_recvfrom d a h n)" "iocp_issues owed skips a h (ic_sendto d a h bs sa)" for h n off bs sa
    using ok by (blast intro: iocp_port_okD)+
  have now: "iocp_once owed a w (iocp_done (iocp_set (result_set_value v) ob, w))" for v
    using r by (simp add: iocp_once_def iocp_done_def iocp_set_def)
  note issue = iocp_issue_once [OF ok ip r _ skip]
  show ?thesis
    using False now iocp_accept_once [OF ok ip r skip] iocp_connect_once [OF ok ip r skip]
    by (cases "io_req ob") (auto simp: iocp_do_start_def iocp_read_start_def iocp_write_start_def iocp_receive_start_def
        iocp_send_start_def iocp_receive_from_start_def iocp_send_to_start_def intro!: issue q)
qed


text \<open>A kernel in which every transfer is pending; its state is the number of packets that it owes.\<close>

definition iocp_demo :: "nat iocp_calls" where
  "iocp_demo =
    \<lparr>ic_read = (\<lambda>_ _ _ _ w. (Inl 997, w + 1)), ic_write = (\<lambda>_ _ _ _ w. (Inl 997, w + 1)),
     ic_recv = (\<lambda>_ _ _ w. (Inl 997, w + 1)), ic_send = (\<lambda>_ _ _ w. (Inl 997, w + 1)),
     ic_recvfrom = (\<lambda>_ _ _ w. (Inl 997, w + 1)), ic_sendto = (\<lambda>_ _ _ _ w. (Inl 997, w + 1)),
     ic_accept = (\<lambda>_ _ _ w. (Inl 997, w + 1)), ic_connect = (\<lambda>_ _ _ w. (Inl 997, w + 1)),
     ic_protocol_info = (\<lambda>_ w. (Inl 6, w)), ic_connect_ex = (\<lambda>_ w. (Inl 6, w)),
     ic_bind_any = (\<lambda>_ _ w. (Inl 6, w)), ic_update_accept = (\<lambda>_ _ w. (Inl 6, w)),
     ic_update_connect = (\<lambda>_ w. (Inl 6, w)), ic_cancel = (\<lambda>_ _ w. w), ic_associate = (\<lambda>_ w. (Inl 6, w)),
     ic_skip_on_success = (\<lambda>_ w. (False, w)), ic_enum_protocols = (\<lambda>w. (Inl 6, w)),
     ic_status = (\<lambda>_ w. (Inl 258, 0, w)), ic_overlapped_result = (\<lambda>_ _ w. (Inl 6, w)),
     ic_post_wake = (\<lambda>w. w), ic_stored = (\<lambda>_ _. (SockIn 0 0, []))\<rparr>"


section \<open>Blocking and asynchronous transfers\<close>

text \<open>The blocking members of \<open>file_object\<close> and \<open>socket_object\<close>.\<close>

definition win_blocking :: "'w win_calls \<Rightarrow> bool \<Rightarrow> int \<Rightarrow> iocp_request \<Rightarrow> (io_value, 'w) io" where
  "win_blocking c le h q w =
     (case q of
        IocpReadAt offset n \<Rightarrow> io_post (\<lambda>bs. Inr (VBytes bs)) (win_file_read_at c h offset n w)
      | IocpWriteAt offset bs \<Rightarrow> io_post (\<lambda>n. Inr (VCount n)) (win_file_write_at c h offset bs w)
      | IocpReceive n stream \<Rightarrow> io_post (\<lambda>bs. Inr (VBytes bs)) (win_receive c h n stream w)
      | IocpSend bs stream \<Rightarrow> io_post (\<lambda>n. Inr (VCount n)) (win_send c h bs stream w)
      | IocpReceiveFrom n \<Rightarrow> io_post (\<lambda>(ep, bs). Inr (VDatagram ep bs)) (win_receive_from c le h n w)
      | IocpSendTo bs dest \<Rightarrow> io_post (\<lambda>n. Inr (VCount n)) (win_send_to c le h bs dest w)
      | IocpAccept \<Rightarrow> io_post (\<lambda>s. Inr (VHandle s)) (win_accept c h w)
      | IocpConnect peer \<Rightarrow> io_post (\<lambda>_. Inr VUnit) (win_connect c le h peer w))"

text \<open>
  \<open>win_answers c le h q w ans w'\<close>: the blocking call of the transfer \<open>q\<close> has the answer \<open>ans\<close>, and does not have to be
  repeated. \<open>iocp_answers\<close>: the completion \<open>(bytes, err)\<close> of the overlapped call has the same answer.
\<close>

definition win_answers :: "'w win_calls \<Rightarrow> bool \<Rightarrow> int \<Rightarrow> iocp_request \<Rightarrow> 'w \<Rightarrow> int + io_value \<Rightarrow> 'w \<Rightarrow> bool" where
  "win_answers c le h q w ans w' \<longleftrightarrow>
     ans \<notin> {Inl WSAEWOULDBLOCK, Inl ERROR_IO_PENDING, Inl ERROR_OPERATION_ABORTED} \<and>
     (case q of
        IocpReadAt offset n \<Rightarrow> n \<noteq> 0 \<and> (\<exists>ev w1 w2. wn_create_event c w = (Inr ev, w1) \<and>
          io_mapped VBytes (wn_read_file c h (min n DWORD_MAX) offset w1) = (ans, w2) \<and> w' = snd (wn_close_handle c ev w2))
      | IocpWriteAt offset bs \<Rightarrow> bs \<noteq> [] \<and> (\<exists>ev w1 w2. wn_create_event c w = (Inr ev, w1) \<and>
          io_mapped VCount (wn_write_file c h (take DWORD_MAX bs) offset w1) = (ans, w2) \<and> w' = snd (wn_close_handle c ev w2))
      | IocpReceive n stream \<Rightarrow> \<not> (stream \<and> n = 0) \<and> io_mapped VBytes (wn_recv c h (min n INT_MAX) w) = (ans, w')
      | IocpSend bs stream \<Rightarrow> \<not> (stream \<and> bs = []) \<and> io_mapped VCount (wn_send c h (take INT_MAX bs) w) = (ans, w')
      | IocpReceiveFrom n \<Rightarrow>
          (\<exists>r. wn_recvfrom c h (min n INT_MAX) w = (r, w') \<and>
            (case r of Inl e \<Rightarrow> ans = Inl e
             | Inr (sa, bs) \<Rightarrow> \<exists>ep. sockaddr_storage_to_endpoint le sa = Inr ep \<and> ans = Inr (VDatagram ep bs)))
      | IocpSendTo bs dest \<Rightarrow>
          io_mapped VCount (wn_sendto c h (take INT_MAX bs) (to_sockaddr (endpoint_to_sockaddr_in le dest)) w) = (ans, w')
      | _ \<Rightarrow> False)"

definition iocp_answers :: "bool \<Rightarrow> sockaddr \<times> byte list \<Rightarrow> nat \<Rightarrow> int \<Rightarrow> int + io_value \<Rightarrow> bool" where
  "iocp_answers le stored bytes err ans \<longleftrightarrow>
     (case ans of
        Inl e \<Rightarrow> err = e \<and> e \<noteq> 0
      | Inr v \<Rightarrow> err = 0 \<and>
          (case v of
             VBytes bs \<Rightarrow> bytes = length bs \<and> take bytes (snd stored) = bs
           | VCount n \<Rightarrow> bytes = n
           | VDatagram ep bs \<Rightarrow> bytes = length bs \<and> take bytes (snd stored) = bs \<and>
               sockaddr_storage_to_endpoint le (fst stored) = Inr ep
           | _ \<Rightarrow> True))"

text \<open>What both report for an answer.\<close>

definition iocp_spec :: "iocp_request \<Rightarrow> int + io_value \<Rightarrow> error + io_value" where
  "iocp_spec q ans =
     (case ans of
        Inl e \<Rightarrow> Inl (case q of IocpReadAt _ _ \<Rightarrow> read_error e | IocpWriteAt _ _ \<Rightarrow> SystemError e | _ \<Rightarrow> SystemError (wsa_error e))
      | Inr v \<Rightarrow>
          if v = VBytes [] \<and> (case q of IocpReadAt _ n \<Rightarrow> n \<noteq> 0 | IocpReceive n stream \<Rightarrow> stream \<and> n \<noteq> 0 | _ \<Rightarrow> False)
          then Inl EndOfFile else Inr v)"

lemma wsa_retry_answer:
  "call w = (r, w') \<Longrightarrow> r \<noteq> Inl WSAEWOULDBLOCK \<Longrightarrow>
   wsa_retry call sel w = Some (map_sum throw_wsa_error_value (\<lambda>v. v) r, w')"
  by (subst wsa_retry.simps) (auto split: sum.split)

lemma sync_transfer_answer:
  "start w = (r, w') \<Longrightarrow> r \<noteq> Inl ERROR_IO_PENDING \<Longrightarrow> r \<noteq> Inl ERROR_OPERATION_ABORTED \<Longrightarrow>
   sync_transfer start wait err w = Some (map_sum err (\<lambda>v. v) r, w')"
  by (subst sync_transfer.simps) (auto split: sum.split)

lemma io_post_Some [simp]: "io_post f (Some (r, w)) = Some (case r of Inl e \<Rightarrow> Inl e | Inr v \<Rightarrow> f v, w)"
  by (simp add: io_post_def)

lemma io_mapped_Inl [simp]: "map_sum (\<lambda>e. e) f r = Inl e \<longleftrightarrow> r = Inl e"
  by (cases r) auto

lemma io_mapped_Inr: "Inr v = map_sum (\<lambda>e. e) f r \<longleftrightarrow> (\<exists>y. r = Inr y \<and> v = f y)"
  by (cases r) auto

lemma win_blocking_spec:
  assumes h: "h \<noteq> - 1" and ans: "win_answers c le h q w ans w'"
  shows "win_blocking c le h q w = Some (iocp_spec q ans, w')"
proof (cases q)
  case (IocpReadAt offset n)
  then obtain ev w1 r w2 where r: "wn_create_event c w = (Inr ev, w1)"
    "wn_read_file c h (min n DWORD_MAX) offset w1 = (r, w2)" "ans = map_sum (\<lambda>e. e) VBytes r"
    "w' = snd (wn_close_handle c ev w2)" and n: "n \<noteq> 0"
    and ne: "r \<noteq> Inl ERROR_IO_PENDING" "r \<noteq> Inl ERROR_OPERATION_ABORTED"
    using ans by (auto simp: win_answers_def io_mapped_eq)
  show ?thesis
    using h n r(1,3,4) IocpReadAt
    by (cases r) (simp_all add: win_blocking_def win_file_read_at_def sync_file_read_def with_handle_def win_check_handle_def
        with_event_def sync_transfer_answer [where start = "wn_read_file c h (min n DWORD_MAX) offset", OF r(2) ne]
        iocp_spec_def)
next
  case (IocpWriteAt offset bs)
  then obtain ev w1 r w2 where r: "wn_create_event c w = (Inr ev, w1)"
    "wn_write_file c h (take DWORD_MAX bs) offset w1 = (r, w2)" "ans = map_sum (\<lambda>e. e) VCount r"
    "w' = snd (wn_close_handle c ev w2)" and n: "bs \<noteq> []"
    and ne: "r \<noteq> Inl ERROR_IO_PENDING" "r \<noteq> Inl ERROR_OPERATION_ABORTED"
    using ans by (auto simp: win_answers_def io_mapped_eq)
  show ?thesis
    using h n r(1,3,4) IocpWriteAt
    by (cases r) (simp_all add: win_blocking_def win_file_write_at_def sync_file_write_def with_handle_def win_check_handle_def
        with_event_def sync_transfer_answer [where start = "wn_write_file c h (take DWORD_MAX bs) offset", OF r(2) ne]
        iocp_spec_def)
next
  case (IocpReceive n stream)
  then obtain r where r: "wn_recv c h (min n INT_MAX) w = (r, w')" "ans = map_sum (\<lambda>e. e) VBytes r"
    and n: "\<not> (stream \<and> n = 0)" and ne: "r \<noteq> Inl WSAEWOULDBLOCK"
    using ans by (auto simp: win_answers_def io_mapped_eq)
  show ?thesis
    using h n r(2) IocpReceive
    by (cases r) (auto simp: win_blocking_def win_receive_def with_handle_def win_check_handle_def
        wsa_retry_answer [where call = "wn_recv c h (min n INT_MAX)", OF r(1) ne] throw_wsa_error_value_def iocp_spec_def)
next
  case (IocpSend bs stream)
  then obtain r where r: "wn_send c h (take INT_MAX bs) w = (r, w')" "ans = map_sum (\<lambda>e. e) VCount r"
    and n: "\<not> (stream \<and> bs = [])" and ne: "r \<noteq> Inl WSAEWOULDBLOCK"
    using ans by (auto simp: win_answers_def io_mapped_eq)
  show ?thesis
    using h n r(2) IocpSend
    by (cases r) (auto simp: win_blocking_def win_send_def with_handle_def win_check_handle_def
        wsa_retry_answer [where call = "wn_send c h (take INT_MAX bs)", OF r(1) ne] throw_wsa_error_value_def iocp_spec_def)
next
  case (IocpReceiveFrom n)
  then obtain r where r: "wn_recvfrom c h (min n INT_MAX) w = (r, w')"
    and v: "case r of Inl e \<Rightarrow> ans = Inl e
      | Inr (sa, bs) \<Rightarrow> \<exists>ep. sockaddr_storage_to_endpoint le sa = Inr ep \<and> ans = Inr (VDatagram ep bs)"
    using ans by (auto simp: win_answers_def)
  have ne: "r \<noteq> Inl WSAEWOULDBLOCK" using ans v by (auto simp: win_answers_def)
  show ?thesis
    using h v IocpReceiveFrom
    by (cases r) (auto simp: win_blocking_def win_receive_from_def with_handle_def win_check_handle_def
        wsa_retry_answer [where call = "wn_recvfrom c h (min n INT_MAX)", OF r ne] throw_wsa_error_value_def iocp_spec_def)
next
  case (IocpSendTo bs dest)
  then obtain r where r: "wn_sendto c h (take INT_MAX bs) (to_sockaddr (endpoint_to_sockaddr_in le dest)) w = (r, w')"
    "ans = map_sum (\<lambda>e. e) VCount r" and ne: "r \<noteq> Inl WSAEWOULDBLOCK"
    using ans by (auto simp: win_answers_def io_mapped_eq)
  show ?thesis
    using h r(2) IocpSendTo
    by (cases r) (auto simp: win_blocking_def win_send_to_def with_handle_def win_check_handle_def
        wsa_retry_answer [where call = "wn_sendto c h (take INT_MAX bs) (to_sockaddr (endpoint_to_sockaddr_in le dest))", OF r(1) ne]
        throw_wsa_error_value_def iocp_spec_def)
qed (use ans in \<open>simp_all add: win_answers_def\<close>)

lemma win_answers_shape:
  "win_answers c le h q w ans w' \<Longrightarrow> ans = Inr v \<Longrightarrow>
   (case q of
      IocpReadAt _ n \<Rightarrow> n \<noteq> 0 \<and> (\<exists>bs. v = VBytes bs)
    | IocpReceive n stream \<Rightarrow> \<exists>bs. v = VBytes bs
    | IocpReceiveFrom _ \<Rightarrow> \<exists>ep bs. v = VDatagram ep bs
    | _ \<Rightarrow> \<exists>n. v = VCount n)"
proof (cases q)
  case (IocpReceiveFrom n)
  assume "win_answers c le h q w ans w'" and v: "ans = Inr v"
  then obtain r where "case r of Inl e \<Rightarrow> ans = Inl e
      | Inr (sa, bs) \<Rightarrow> \<exists>ep. sockaddr_storage_to_endpoint le sa = Inr ep \<and> ans = Inr (VDatagram ep bs)"
    using IocpReceiveFrom by (auto simp: win_answers_def)
  then show ?thesis using IocpReceiveFrom v by (cases r) auto
qed (auto simp: win_answers_def io_mapped_eq io_mapped_Inr)

text \<open>C32. The asynchronous operation reports what the blocking member reports: when the kernel answers a transfer with \<open>ans\<close>,
  the blocking call returns or throws \<open>iocp_spec q ans\<close> and the completed operation has just this as its result, the end of
  the file and the translated errors included; an operation that was aborted is stopped instead.
\<close>

theorem iocp_agrees_with_blocking:
  assumes "h \<noteq> - 1" and "win_answers c le h q w ans w'" and "iocp_answers le (ic_stored d w2 a) bytes err ans"
    and "io_req ob = q" and "io_res ob = ResultNone"
  shows "win_blocking c le h q w = Some (iocp_spec q ans, w') \<and>
    iocp_complete c d le a bytes err ob w2 = (Inr (ob\<lparr>io_res := io_as_result (iocp_spec q ans)\<rparr>), w2) \<and>
    iocp_complete c d le a bytes ERROR_OPERATION_ABORTED ob w2 = (Inr (ob\<lparr>io_res := ResultNone\<rparr>), w2)"
proof (intro conjI)
  show "win_blocking c le h q w = Some (iocp_spec q ans, w')" using assms(1,2) by (rule win_blocking_spec)
  have q: "q \<noteq> IocpAccept" "\<forall>p. q \<noteq> IocpConnect p" using assms(2) by (auto simp: win_answers_def)
  show "iocp_complete c d le a bytes ERROR_OPERATION_ABORTED ob w2 = (Inr (ob\<lparr>io_res := ResultNone\<rparr>), w2)"
    using assms(4,5) q by (cases q)
      (simp_all add: iocp_complete_def iocp_complete_defs iocp_set_def Let_def ERROR_OPERATION_ABORTED_def)
  show "iocp_complete c d le a bytes err ob w2 = (Inr (ob\<lparr>io_res := io_as_result (iocp_spec q ans)\<rparr>), w2)"
  proof (cases ans)
    case (Inl e)
    then have "e \<noteq> ERROR_OPERATION_ABORTED" "err = e" "e \<noteq> 0"
      using assms(2,3) by (auto simp: win_answers_def iocp_answers_def)
    then show ?thesis
      using Inl assms(4,5) q by (cases q)
        (auto simp: iocp_complete_def iocp_complete_defs iocp_set_def Let_def iocp_spec_def io_as_result_def read_error_def
          wsa_error_def)
  next
    case (Inr v)
    then show ?thesis
      using assms(3-5) q win_answers_shape [OF assms(2) Inr] by (cases q)
        (auto simp: iocp_complete_def iocp_complete_defs iocp_set_def Let_def iocp_spec_def io_as_result_def iocp_answers_def)
  qed
qed


theorem iocp_agrees_with_blocking_witness:
  "win_blocking (win_none\<lparr>wn_recv := \<lambda>_ _ w. (Inl 64, w)\<rparr>) True 8 (IocpReceive 10 True) (0 :: nat) =
     Some (Inl (SystemError 10054), 0) \<and>
   iocp_complete win_none iocp_demo True 3 0 64
     \<lparr>io_handle = 8, io_skip = False, io_req = IocpReceive 10 True, io_res = ResultNone, io_accepted = - 1\<rparr> 4 =
     (Inr \<lparr>io_handle = 8, io_skip = False, io_req = IocpReceive 10 True, io_res = ResultError (SystemError 10054),
       io_accepted = - 1\<rparr>, 4)"
proof -
  let ?ob = "\<lparr>io_handle = 8, io_skip = False, io_req = IocpReceive 10 True, io_res = ResultNone, io_accepted = - 1\<rparr>"
  let ?c = "win_none\<lparr>wn_recv := \<lambda>_ _ w. (Inl 64, w)\<rparr>"
  have "win_answers ?c True 8 (IocpReceive 10 True) 0 (Inl 64) (0 :: nat)"
    by (simp add: win_answers_def io_mapped_def WSAEWOULDBLOCK_def ERROR_IO_PENDING_def ERROR_OPERATION_ABORTED_def)
  moreover have "iocp_answers True (ic_stored iocp_demo 4 3) 0 64 (Inl 64)" by (simp add: iocp_answers_def)
  moreover have "iocp_spec (IocpReceive 10 True) (Inl 64) = Inl (SystemError 10054)"
    by (simp add: iocp_spec_def wsa_error_def ERROR_NETNAME_DELETED_def WSAECONNRESET_def)
  moreover have "iocp_complete ?c iocp_demo True 3 0 64 ?ob 4 = iocp_complete win_none iocp_demo True 3 0 64 ?ob 4"
    by (simp add: iocp_complete_def)
  ultimately show ?thesis
    using iocp_agrees_with_blocking [of 8 ?c True "IocpReceive 10 True" 0 "Inl 64" 0 iocp_demo 4 3 0 64 ?ob]
    by (simp add: io_as_result_def)
qed

end
