(* ===== verification/Iocp_Context.thy ===== *)
theory Iocp_Context
  imports Iocp_Io
begin

text \<open>
  The completion port itself: \<open>iocp_context\<close> with its event loop, its file and socket objects
  (\<open>include/coio/asyncio/iocp_context.h\<close> and \<open>src/win/asyncio/iocp_context.cpp\<close>).
\<close>

section \<open>I/O objects\<close>

record iocp_file =
  if_handle :: int
  if_skip :: bool
  if_offset :: size_t

record iocp_socket =
  is_handle :: int
  is_skip :: bool
  is_stream :: bool

text \<open>The constructor of \<open>io_object\<close>; the null handle is \<open>0\<close>.\<close>

definition valid_handle :: "int \<Rightarrow> bool" where
  "valid_handle h \<longleftrightarrow> h \<noteq> - 1 \<and> h \<noteq> 0"

definition iocp_object_new :: "'w iocp_calls \<Rightarrow> int \<Rightarrow> 'w \<Rightarrow> (error + unit) \<times> 'w" where
  "iocp_object_new d h w =
     (if valid_handle h then (case ic_associate d h w of (r, w) \<Rightarrow> (throw_win_error r, w)) else (Inr (), w))"

definition iocp_object_cancel :: "'w iocp_calls \<Rightarrow> int \<Rightarrow> 'w \<Rightarrow> 'w" where
  "iocp_object_cancel d h w = (if h = - 1 then w else ic_cancel d h None w)"

definition iocp_file_new :: "'w win_calls \<Rightarrow> 'w iocp_calls \<Rightarrow> int \<Rightarrow> 'w \<Rightarrow> (error + iocp_file) \<times> 'w" where
  "iocp_file_new c d h w =
     (case iocp_object_new d h w of
        (Inl e, w) \<Rightarrow> (Inl e, w)
      | (Inr _, w) \<Rightarrow>
          if valid_handle h then
            (case (if wn_type_disk c h w then ic_skip_on_success d h w else (False, w)) of
               (skip, w) \<Rightarrow>
                 (case wn_set_file_pointer c h 0 SEEK_CUR w of
                    (Inl _, w) \<Rightarrow> (Inr \<lparr>if_handle = h, if_skip = skip, if_offset = 0\<rparr>, w)
                  | (Inr pos, w) \<Rightarrow> (Inr \<lparr>if_handle = h, if_skip = skip, if_offset = of_nat pos\<rparr>, w)))
          else (Inr \<lparr>if_handle = h, if_skip = False, if_offset = 0\<rparr>, w))"

definition iocp_file_close :: "'w win_calls \<Rightarrow> iocp_file \<Rightarrow> 'w \<Rightarrow> (error + unit) \<times> iocp_file \<times> 'w" where
  "iocp_file_close c ob w =
     (let ob' = ob\<lparr>if_handle := - 1, if_offset := 0\<rparr>
      in if valid_handle (if_handle ob)
         then (case wn_close_handle c (if_handle ob) w of (r, w) \<Rightarrow> (throw_win_error r, ob', w))
         else (Inr (), ob', w))"

text \<open>\<open>resize\<close> moves the file pointer to the new end, and back.\<close>

definition iocp_file_resize :: "'w win_calls \<Rightarrow> iocp_file \<Rightarrow> size_t \<Rightarrow> 'w \<Rightarrow> (error + unit) \<times> 'w" where
  "iocp_file_resize c ob new_size w =
     (case wn_set_file_pointer c (if_handle ob) (sint new_size) SEEK_SET w of
        (Inl e, w) \<Rightarrow> (Inl (SystemError e), w)
      | (Inr _, w) \<Rightarrow>
          (case wn_set_end_of_file c (if_handle ob) w of
             (Inl e, w) \<Rightarrow> (Inl (SystemError e), w)
           | (Inr _, w) \<Rightarrow>
               (case wn_set_file_pointer c (if_handle ob) (sint (if_offset ob)) SEEK_SET w of
                  (Inl e, w) \<Rightarrow> (Inl (SystemError e), w)
                | (Inr _, w) \<Rightarrow> (Inr (), w))))"

definition LONGLONG_MAX :: size_t where "LONGLONG_MAX = 0x7fffffffffffffff"

definition iocp_file_seek :: "'w win_calls \<Rightarrow> iocp_file \<Rightarrow> size_t \<Rightarrow> seek_whence \<Rightarrow> 'w \<Rightarrow> (error + size_t) \<times> iocp_file \<times> 'w" where
  "iocp_file_seek c ob offset whence w =
     (let move = (\<lambda>off how. case wn_set_file_pointer c (if_handle ob) (sint off) how w of
           (Inl e, w) \<Rightarrow> (Inl (SystemError e), ob, w)
         | (Inr pos, w) \<Rightarrow> (Inr (of_nat pos), ob\<lparr>if_offset := of_nat pos\<rparr>, w))
      in if if_handle ob = - 1 then (Inl bad_file_descriptor, ob, w)
         else if offset > LONGLONG_MAX then (Inl value_too_large, ob, w)
         else
           (case whence of
              SeekSet \<Rightarrow> move offset SEEK_SET
            | SeekCur \<Rightarrow>
                if offset > LONGLONG_MAX - if_offset ob then (Inl value_too_large, ob, w)
                else move (if_offset ob + offset) SEEK_SET
            | SeekEnd \<Rightarrow> move offset SEEK_END))"

text \<open>The blocking transfers of a stream file advance its offset by what they have transferred.\<close>

definition iocp_file_read_some :: "'w win_calls \<Rightarrow> iocp_file \<Rightarrow> nat \<Rightarrow> 'w \<Rightarrow> ((error + byte list) \<times> iocp_file \<times> 'w) option" where
  "iocp_file_read_some c ob n w =
     map_option (\<lambda>(r, w). (r, (case r of Inl _ \<Rightarrow> ob | Inr bs \<Rightarrow> ob\<lparr>if_offset := if_offset ob + of_nat (length bs)\<rparr>), w))
       (win_file_read_at c (if_handle ob) (if_offset ob) n w)"

definition iocp_file_write_some :: "'w win_calls \<Rightarrow> iocp_file \<Rightarrow> byte list \<Rightarrow> 'w \<Rightarrow> ((error + nat) \<times> iocp_file \<times> 'w) option" where
  "iocp_file_write_some c ob bs w =
     map_option (\<lambda>(r, w). (r, (case r of Inl _ \<Rightarrow> ob | Inr n \<Rightarrow> ob\<lparr>if_offset := if_offset ob + of_nat n\<rparr>), w))
       (win_file_write_at c (if_handle ob) (if_offset ob) bs w)"

definition iocp_file_read_some_at :: "'w win_calls \<Rightarrow> iocp_file \<Rightarrow> size_t \<Rightarrow> nat \<Rightarrow> (byte list, 'w) io" where
  "iocp_file_read_some_at c ob offset n = win_file_read_at c (if_handle ob) offset n"

definition iocp_file_write_some_at :: "'w win_calls \<Rightarrow> iocp_file \<Rightarrow> size_t \<Rightarrow> byte list \<Rightarrow> (nat, 'w) io" where
  "iocp_file_write_some_at c ob offset bs = win_file_write_at c (if_handle ob) offset bs"

text \<open>\<open>async_initiate\<close>, and \<open>connect\<close> of the sender: the operation takes the handle and the flag as they are now.\<close>

definition iocp_operation :: "int \<Rightarrow> bool \<Rightarrow> iocp_request \<Rightarrow> iocp_op" where
  "iocp_operation h skip q = \<lparr>io_handle = h, io_skip = skip, io_req = q, io_res = ResultNone, io_accepted = - 1\<rparr>"

text \<open>The asynchronous transfers of a stream file advance the offset at once, by what they ask for.\<close>

definition iocp_file_async_read_some :: "iocp_file \<Rightarrow> nat \<Rightarrow> iocp_op \<times> iocp_file" where
  "iocp_file_async_read_some ob n =
     (iocp_operation (if_handle ob) (if_skip ob) (IocpReadAt (if_offset ob) n),
      ob\<lparr>if_offset := if_offset ob + of_nat (min n DWORD_MAX)\<rparr>)"

definition iocp_file_async_write_some :: "iocp_file \<Rightarrow> byte list \<Rightarrow> iocp_op \<times> iocp_file" where
  "iocp_file_async_write_some ob bs =
     (iocp_operation (if_handle ob) (if_skip ob) (IocpWriteAt (if_offset ob) bs),
      ob\<lparr>if_offset := if_offset ob + of_nat (min (length bs) DWORD_MAX)\<rparr>)"

definition iocp_file_async_read_some_at :: "iocp_file \<Rightarrow> size_t \<Rightarrow> nat \<Rightarrow> iocp_op" where
  "iocp_file_async_read_some_at ob offset n = iocp_operation (if_handle ob) (if_skip ob) (IocpReadAt offset n)"

definition iocp_file_async_write_some_at :: "iocp_file \<Rightarrow> size_t \<Rightarrow> byte list \<Rightarrow> iocp_op" where
  "iocp_file_async_write_some_at ob offset bs = iocp_operation (if_handle ob) (if_skip ob) (IocpWriteAt offset bs)"

text \<open>The move constructor leaves \<open>other\<close> without a handle; assignment swaps with a copy made from the argument.\<close>

definition iocp_file_move :: "iocp_file \<Rightarrow> iocp_file \<times> iocp_file" where
  "iocp_file_move ob = (ob, \<lparr>if_handle = - 1, if_skip = False, if_offset = 0\<rparr>)"

definition iocp_file_assign :: "'w win_calls \<Rightarrow> iocp_file \<Rightarrow> iocp_file \<Rightarrow> 'w \<Rightarrow> (error + unit) \<times> iocp_file \<times> 'w" where
  "iocp_file_assign c ob other w = (case iocp_file_close c ob w of (r, old, w) \<Rightarrow> (r, other, w))"

text \<open>Sockets. Completion on success is skipped only when every layered provider returns real handles.\<close>

definition sockets_support_skip :: "'w iocp_calls \<Rightarrow> 'w \<Rightarrow> bool \<times> 'w" where
  "sockets_support_skip d w =
     (case ic_enum_protocols d w of (Inl e, w) \<Rightarrow> (False, w) | (Inr ifs, w) \<Rightarrow> (list_all id ifs, w))"

definition is_stream_socket :: "'w win_calls \<Rightarrow> int \<Rightarrow> 'w \<Rightarrow> (error + bool) \<times> 'w" where
  "is_stream_socket c h w =
     (if h = - 1 then (Inr False, w) else (case wn_so_stream c h w of (r, w) \<Rightarrow> (throw_wsa_error r, w)))"

definition iocp_socket_new :: "'w win_calls \<Rightarrow> 'w iocp_calls \<Rightarrow> int \<Rightarrow> 'w \<Rightarrow> (error + iocp_socket) \<times> 'w" where
  "iocp_socket_new c d h w =
     (case iocp_object_new d h w of
        (Inl e, w) \<Rightarrow> (Inl e, w)
      | (Inr _, w) \<Rightarrow>
          (case is_stream_socket c h w of
             (Inl e, w) \<Rightarrow> (Inl e, w)
           | (Inr stream, w) \<Rightarrow>
               (case (if h \<noteq> - 1 then sockets_support_skip d w else (False, w)) of
                  (support, w) \<Rightarrow>
                    (case (if support then ic_skip_on_success d h w else (False, w)) of
                       (skip, w) \<Rightarrow> (Inr \<lparr>is_handle = h, is_skip = skip, is_stream = stream\<rparr>, w)))))"

definition iocp_socket_close :: "'w win_calls \<Rightarrow> iocp_socket \<Rightarrow> 'w \<Rightarrow> (error + unit) \<times> iocp_socket \<times> 'w" where
  "iocp_socket_close c ob w =
     (let ob' = ob\<lparr>is_handle := - 1\<rparr>
      in if valid_handle (is_handle ob)
         then (case wn_closesocket c (is_handle ob) w of (r, w) \<Rightarrow> (throw_wsa_error r, ob', w))
         else (Inr (), ob', w))"

definition iocp_socket_request :: "iocp_socket \<Rightarrow> iocp_request \<Rightarrow> iocp_request" where
  "iocp_socket_request ob q =
     (case q of IocpReceive n _ \<Rightarrow> IocpReceive n (is_stream ob) | IocpSend bs _ \<Rightarrow> IocpSend bs (is_stream ob) | _ \<Rightarrow> q)"

definition iocp_socket_blocking :: "'w win_calls \<Rightarrow> bool \<Rightarrow> iocp_socket \<Rightarrow> iocp_request \<Rightarrow> (io_value, 'w) io" where
  "iocp_socket_blocking c le ob q = win_blocking c le (is_handle ob) (iocp_socket_request ob q)"

definition iocp_socket_async :: "iocp_socket \<Rightarrow> iocp_request \<Rightarrow> iocp_op" where
  "iocp_socket_async ob q = iocp_operation (is_handle ob) (is_skip ob) (iocp_socket_request ob q)"

definition iocp_socket_move :: "iocp_socket \<Rightarrow> iocp_socket \<times> iocp_socket" where
  "iocp_socket_move ob = (ob, \<lparr>is_handle = - 1, is_skip = False, is_stream = False\<rparr>)"

text \<open>\<open>make_io_object\<close> closes what it was given when the constructor throws.\<close>

definition iocp_make_file :: "'w win_calls \<Rightarrow> 'w iocp_calls \<Rightarrow> int \<Rightarrow> 'w \<Rightarrow> (error + iocp_file) \<times> 'w" where
  "iocp_make_file c d h w =
     (case iocp_file_new c d h w of
        (Inl e, w) \<Rightarrow> (Inl e, snd (wn_close_handle c h w))
      | (Inr ob, w) \<Rightarrow> (Inr ob, w))"

definition iocp_make_socket :: "'w win_calls \<Rightarrow> 'w iocp_calls \<Rightarrow> int \<Rightarrow> 'w \<Rightarrow> (error + iocp_socket) \<times> 'w" where
  "iocp_make_socket c d h w =
     (case iocp_socket_new c d h w of
        (Inl e, w) \<Rightarrow> (Inl e, snd (wn_closesocket c h w))
      | (Inr ob, w) \<Rightarrow> (Inr ob, w))"

section \<open>The event loop\<close>

record 'w iocp_context =
  ix_loop :: loop
  ix_world :: 'w
  ix_op :: "addr \<Rightarrow> iocp_op"

definition INFINITE :: nat where "INFINITE = 0xffffffff"

text \<open>Milliseconds until the earliest deadline, rounded up, between 0 and \<open>0xfffffffe\<close>.\<close>

definition iocp_timeout :: "int \<Rightarrow> nat" where
  "iocp_timeout ns = nat (max 0 (min (- ((- ns) div 1000000)) 0xfffffffe))"

definition iocp_wait_for :: "bool \<Rightarrow> int option \<Rightarrow> int \<Rightarrow> nat" where
  "iocp_wait_for block earliest now =
     (if block then (case earliest of None \<Rightarrow> INFINITE | Some t \<Rightarrow> iocp_timeout (t - now)) else 0)"

definition wake_completion_key :: nat where "wake_completion_key = 1"

text \<open>One entry: wake-ups are dropped; the operation gets its result and is collected.\<close>

definition iocp_take_entry ::
    "'w win_calls \<Rightarrow> 'w iocp_calls \<Rightarrow> bool \<Rightarrow> iocp_entry \<Rightarrow> 'w iocp_context \<times> (links \<times> intrusive_list) \<Rightarrow>
     error + ('w iocp_context \<times> (links \<times> intrusive_list))" where
  "iocp_take_entry c d le ent s =
     (case ie_op ent of
        None \<Rightarrow> Inr s
      | Some op \<Rightarrow>
          if ie_key ent = wake_completion_key then Inr s
          else
            (let x = fst s; ob = ix_op x op in
             case (if ie_failed ent
                   then (case ic_overlapped_result d (io_handle ob) op (ix_world x) of
                           (Inl e, w) \<Rightarrow> (e, w) | (Inr _, w) \<Rightarrow> (0, w))
                   else (0, ix_world x)) of
               (err, w) \<Rightarrow>
                 (case iocp_complete c d le op (ie_bytes ent) err ob w of
                    (Inl e, w) \<Rightarrow> Inl e
                  | (Inr ob, w) \<Rightarrow>
                      Inr (x\<lparr>ix_world := w, ix_op := (ix_op x)(op := ob)\<rparr>, il_push_back op (snd s)))))"

fun iocp_take_entries ::
    "'w win_calls \<Rightarrow> 'w iocp_calls \<Rightarrow> bool \<Rightarrow> iocp_entry list \<Rightarrow> 'w iocp_context \<times> (links \<times> intrusive_list) \<Rightarrow>
     error + ('w iocp_context \<times> (links \<times> intrusive_list))" where
  "iocp_take_entries c d le [] s = Inr s"
| "iocp_take_entries c d le (ent # ents) s =
     (case iocp_take_entry c d le ent s of Inl e \<Rightarrow> Inl e | Inr s \<Rightarrow> iocp_take_entries c d le ents s)"

text \<open>\<open>do_one\<close> between the wait and \<open>consume\<close>.\<close>

definition iocp_round ::
    "'w win_calls \<Rightarrow> 'w iocp_calls \<Rightarrow> bool \<Rightarrow> loop_env \<Rightarrow> nat \<Rightarrow> iocp_entry list \<Rightarrow> 'w iocp_context \<Rightarrow>
     (error + 'w iocp_context) option" where
  "iocp_round c d le e tid ents x =
     (case tq_take_ready_timers (le_deadline e) (lp_now (ix_loop x)) (lp_timers (ix_loop x))
             (oq_next (lp_ops (ix_loop x)), il_empty_list) of
        None \<Rightarrow> None
      | Some (q, (nx, timers)) \<Rightarrow>
          (case iocp_take_entries c d le ents (x, (nx, il_empty_list)) of
             Inl err \<Rightarrow> Some (Inl err)
           | Inr (x, (nx, ios)) \<Rightarrow>
               (case loop_publish_pending tid
                       ((ix_loop x)\<lparr>lp_timers := q, lp_ops := (lp_ops (ix_loop x))\<lparr>oq_next := nx\<rparr>\<rparr>)
                       (fst (il_release timers)) of
                  None \<Rightarrow> None
                | Some l \<Rightarrow>
                    map_option (\<lambda>l. Inr (x\<lparr>ix_loop := l\<rparr>)) (loop_publish_pending tid l (fst (il_release ios))))))"

definition iocp_consume :: "loop_env \<Rightarrow> nat \<Rightarrow> 'w iocp_context \<Rightarrow> (bool \<times> 'w iocp_context) option" where
  "iocp_consume e tid x = map_option (\<lambda>r. (fst r, x\<lparr>ix_loop := snd r\<rparr>)) (loop_consume e tid (ix_loop x))"

text \<open>\<open>GetQueuedCompletionStatusEx\<close>: a timeout is no entries, another error an exception.\<close>

definition iocp_wait :: "'w iocp_calls \<Rightarrow> nat \<Rightarrow> 'w iocp_context \<Rightarrow> error + (iocp_entry list \<times> 'w iocp_context)" where
  "iocp_wait d timeout x =
     (case ic_status d timeout (ix_world x) of
        (r, now, w) \<Rightarrow>
          (let x = x\<lparr>ix_loop := (ix_loop x)\<lparr>lp_now := now\<rparr>, ix_world := w\<rparr> in
           case r of
             Inl err \<Rightarrow> if err = WAIT_TIMEOUT then Inr ([], x) else Inl (SystemError err)
           | Inr ents \<Rightarrow> Inr (ents, x)))"

partial_function (option) iocp_do_one_loop ::
    "'w win_calls \<Rightarrow> 'w iocp_calls \<Rightarrow> bool \<Rightarrow> loop_env \<Rightarrow> nat \<Rightarrow> bool \<Rightarrow> 'w iocp_context \<Rightarrow>
     (error + (bool \<times> 'w iocp_context)) option" where
  "iocp_do_one_loop c d le e tid block x =
     (if lp_work (ix_loop x) > 0 then
        (case iocp_consume e tid x of
           None \<Rightarrow> None
         | Some r \<Rightarrow>
             if fst r then Some (Inr (True, snd r))
             else
               (case iocp_wait d (iocp_wait_for block (tq_earliest (le_deadline e) (lp_timers (ix_loop (snd r))))
                       (lp_now (ix_loop (snd r)))) (snd r) of
                  Inl err \<Rightarrow> Some (Inl err)
                | Inr y \<Rightarrow>
                    (case iocp_round c d le e tid (fst y) (snd y) of
                       None \<Rightarrow> None
                     | Some (Inl err) \<Rightarrow> Some (Inl err)
                     | Some (Inr x) \<Rightarrow>
                         if block then iocp_do_one_loop c d le e tid block x
                         else map_option Inr (iocp_consume e tid x))))
      else Some (Inr (False, x)))"

definition iocp_do_one ::
    "'w win_calls \<Rightarrow> 'w iocp_calls \<Rightarrow> bool \<Rightarrow> loop_env \<Rightarrow> nat \<Rightarrow> bool \<Rightarrow> 'w iocp_context \<Rightarrow>
     (error + (bool \<times> 'w iocp_context)) option" where
  "iocp_do_one c d le e tid block x =
     (if lp_work (ix_loop x) = 0 then Some (Inr (False, x)) else iocp_do_one_loop c d le e tid block x)"

definition iocp_interrupt :: "'w iocp_calls \<Rightarrow> 'w iocp_context \<Rightarrow> 'w iocp_context" where
  "iocp_interrupt d x = x\<lparr>ix_world := ic_post_wake d (ix_world x)\<rparr>"

text \<open>Construction: Winsock is initialised once, then the port is created; \<open>startup\<close> and \<open>create\<close> are these two calls.\<close>

definition iocp_context_new ::
    "(unit, 'w) sys_call \<Rightarrow> (unit, 'w) sys_call \<Rightarrow> (addr \<Rightarrow> iocp_op) \<Rightarrow> 'w \<Rightarrow> (error + 'w iocp_context) \<times> 'w" where
  "iocp_context_new startup create ops w =
     (case startup w of
        (Inl e, w) \<Rightarrow> (Inl (SystemError e), w)
      | (Inr _, w) \<Rightarrow>
          (case create w of
             (Inl e, w) \<Rightarrow> (Inl (SystemError e), w)
           | (Inr _, w) \<Rightarrow> (Inr \<lparr>ix_loop = loop_init, ix_world = w, ix_op = ops\<rparr>, w)))"

definition iocp_context_destroy :: "('w \<Rightarrow> 'w) \<Rightarrow> 'w iocp_context \<Rightarrow> 'w" where
  "iocp_context_destroy close_port x = close_port (ix_world x)"

section \<open>What a round does\<close>

text \<open>The operations of the entries, wake-ups left out, and what the entries do to the operations and the kernel.\<close>

fun iocp_entry_ops :: "iocp_entry list \<Rightarrow> addr list" where
  "iocp_entry_ops [] = []"
| "iocp_entry_ops (ent # ents) =
     (case ie_op ent of
        None \<Rightarrow> iocp_entry_ops ents
      | Some a \<Rightarrow> if ie_key ent = wake_completion_key then iocp_entry_ops ents else a # iocp_entry_ops ents)"

lemma iocp_take_entry_ops:
  assumes ok: "iocp_port_ok c d owed skips" and ip: "iocp_ip_peers d" and r: "io_res (ix_op x a) = ResultNone"
    and ent: "ie_op ent = Some a" "ie_key ent \<noteq> wake_completion_key"
  shows "\<exists>x'. iocp_take_entry c d le ent (x, s) = Inr (x', il_push_back a s) \<and> ix_loop x' = ix_loop x \<and>
    (\<forall>b. b \<noteq> a \<longrightarrow> ix_op x' b = ix_op x b)"
proof -
  obtain err w where e: "(if ie_failed ent
       then (case ic_overlapped_result d (io_handle (ix_op x a)) a (ix_world x) of (Inl e, w) \<Rightarrow> (e, w) | (Inr _, w) \<Rightarrow> (0, w))
       else (0, ix_world x)) = (err, w)" by fastforce
  obtain ob' w' where "iocp_complete c d le a (ie_bytes ent) err (ix_op x a) w = (Inr ob', w')"
    using iocp_complete_ok [OF ok ip r] by blast
  then show ?thesis using e ent by (simp add: iocp_take_entry_def Let_def)
qed

lemma iocp_take_entries_ops:
  assumes ok: "iocp_port_ok c d owed skips" and ip: "iocp_ip_peers d"
  shows "distinct (iocp_entry_ops ents) \<Longrightarrow> \<forall>a\<in>set (iocp_entry_ops ents). io_res (ix_op x a) = ResultNone \<Longrightarrow>
    \<exists>x'. iocp_take_entries c d le ents (x, s) = Inr (x', ep_push_all (iocp_entry_ops ents) s) \<and> ix_loop x' = ix_loop x \<and>
      (\<forall>b. b \<notin> set (iocp_entry_ops ents) \<longrightarrow> ix_op x' b = ix_op x b)"
proof (induction ents arbitrary: x s)
  case (Cons ent ents)
  show ?case
  proof (cases "\<exists>a. ie_op ent = Some a \<and> ie_key ent \<noteq> wake_completion_key")
    case False
    then have "iocp_take_entry c d le ent (x, s) = Inr (x, s)" "iocp_entry_ops (ent # ents) = iocp_entry_ops ents"
      by (auto simp: iocp_take_entry_def split: option.split)
    then show ?thesis using Cons.IH [of x s] Cons.prems by simp
  next
    case True
    then obtain a where a: "ie_op ent = Some a" "ie_key ent \<noteq> wake_completion_key" by blast
    then have ops: "iocp_entry_ops (ent # ents) = a # iocp_entry_ops ents" by simp
    then have "io_res (ix_op x a) = ResultNone" using Cons.prems(2) by simp
    then obtain x1 where x1: "iocp_take_entry c d le ent (x, s) = Inr (x1, il_push_back a s)" "ix_loop x1 = ix_loop x"
      "\<forall>b. b \<noteq> a \<longrightarrow> ix_op x1 b = ix_op x b"
      using iocp_take_entry_ops [OF ok ip _ a] by blast
    have "\<forall>b\<in>set (iocp_entry_ops ents). io_res (ix_op x1 b) = ResultNone" "distinct (iocp_entry_ops ents)"
      using Cons.prems x1(3) unfolding ops by auto
    then obtain x2 where "iocp_take_entries c d le ents (x1, il_push_back a s) =
        Inr (x2, ep_push_all (iocp_entry_ops ents) (il_push_back a s))" "ix_loop x2 = ix_loop x1"
      "\<forall>b. b \<notin> set (iocp_entry_ops ents) \<longrightarrow> ix_op x2 b = ix_op x1 b"
      using Cons.IH by blast
    then show ?thesis using x1 unfolding ops by simp
  qed
qed simp

text \<open>One round of the completion port, from an empty queue: no assertion fails; the due timers are queued in the order of
  their deadlines and then the operations of the entries in the order in which the kernel delivered them, each once and
  wake-ups left out; the results of other operations are not touched and timers that are not due stay in the heap.
\<close>

lemma iocp_round_publishes_completions:
  assumes ok: "iocp_port_ok c d owed skips" "iocp_ip_peers d"
    and rep: "oq_rep (lp_ops (ix_loop x)) []" "tq_rep (le_deadline e) (lp_timers (ix_loop x)) S"
    and tid: "lp_consumer (ix_loop x) = Some tid"
    and zs: "distinct (iocp_entry_ops ents)" "set (iocp_entry_ops ents) \<inter> S = {}"
    and armed: "\<forall>a\<in>S \<union> set (iocp_entry_ops ents). lp_phase (ix_loop x) a = Armed"
    and res: "\<forall>a\<in>set (iocp_entry_ops ents). io_res (ix_op x a) = ResultNone"
  shows "\<exists>x' ys. iocp_round c d le e tid ents x = Some (Inr x') \<and>
    oq_rep (lp_ops (ix_loop x')) (ys @ iocp_entry_ops ents) \<and>
    set ys = {a \<in> S. le_deadline e a \<le> lp_now (ix_loop x)} \<and> distinct ys \<and> sorted (map (le_deadline e) ys) \<and>
    tq_rep (le_deadline e) (lp_timers (ix_loop x')) {a \<in> S. lp_now (ix_loop x) < le_deadline e a} \<and>
    (\<forall>b. b \<notin> set (iocp_entry_ops ents) \<longrightarrow> ix_op x' b = ix_op x b)"
proof -
  obtain tq nx tms nx2 ios l1 l2 ys where p:
    "tq_take_ready_timers (le_deadline e) (lp_now (ix_loop x)) (lp_timers (ix_loop x))
       (oq_next (lp_ops (ix_loop x)), il_empty_list) = Some (tq, (nx, tms))"
    "ep_push_all (iocp_entry_ops ents) (nx, il_empty_list) = (nx2, ios)"
    "loop_publish_pending tid ((ix_loop x)\<lparr>lp_timers := tq, lp_ops := (lp_ops (ix_loop x))\<lparr>oq_next := nx2\<rparr>\<rparr>) (il_head tms) = Some l1"
    "loop_publish_pending tid l1 (il_head ios) = Some l2"
    and r: "oq_rep (lp_ops l2) (ys @ iocp_entry_ops ents)"
    "tq_rep (le_deadline e) (lp_timers l2) {a \<in> S. lp_now (ix_loop x) < le_deadline e a}"
    "set ys = {a \<in> S. le_deadline e a \<le> lp_now (ix_loop x)}" "distinct ys" "sorted (map (le_deadline e) ys)"
    by (rule publish_round_rep [OF rep tid zs armed])
  obtain x1 where x1: "iocp_take_entries c d le ents (x, (nx, il_empty_list)) = Inr (x1, (nx2, ios))" "ix_loop x1 = ix_loop x"
    "\<forall>b. b \<notin> set (iocp_entry_ops ents) \<longrightarrow> ix_op x1 b = ix_op x b"
    using iocp_take_entries_ops [OF ok zs(1) res, of le "(nx, il_empty_list)"] p(2) by auto
  have "iocp_round c d le e tid ents x = Some (Inr (x1\<lparr>ix_loop := l2\<rparr>))"
    using p x1 by (simp add: iocp_round_def il_release_def)
  then show ?thesis using r x1(3) by (intro exI [of _ "x1\<lparr>ix_loop := l2\<rparr>"] exI [of _ ys]) simp
qed

text \<open>A wake-up, and the end of the receive \<open>3\<close>.\<close>

definition iocp_demo_context :: "nat iocp_context" where
  "iocp_demo_context =
    \<lparr>ix_loop = epc_loop, ix_world = 0,
     ix_op = (\<lambda>_. \<lparr>io_handle = 8, io_skip = False, io_req = IocpReceive 10 True, io_res = ResultNone, io_accepted = - 1\<rparr>)\<rparr>"

definition iocp_demo_entries :: "iocp_entry list" where
  "iocp_demo_entries =
    [\<lparr>ie_op = None, ie_key = 1, ie_bytes = 0, ie_failed = False\<rparr>, \<lparr>ie_op = Some 3, ie_key = 0, ie_bytes = 0, ie_failed = False\<rparr>]"

text \<open>The position of a \<open>stream_file\<close> of the completion port after a read depends on how the read was made. The blocking
  \<open>read_some\<close> advances it by the bytes that it has read; \<open>async_read_some\<close> reads at the same place but advances it, before the
  read, by the size of the buffer. After a short read the two differ by the bytes that were not read, so the next
  asynchronous read leaves these out; they agree just if the read was full.
\<close>

lemma iocp_async_read_skips_after_short_read:
  assumes "iocp_file_read_some c ob n w = Some (Inr bs, ob1, w')" and "length bs \<le> n" and "n \<le> DWORD_MAX"
    and "iocp_file_async_read_some ob n = (op1, ob2)"
  shows "io_req op1 = IocpReadAt (if_offset ob) n \<and> if_offset ob1 = if_offset ob + of_nat (length bs) \<and>
    if_offset ob2 = if_offset ob1 + of_nat (n - length bs) \<and> (if_offset ob2 = if_offset ob1 \<longleftrightarrow> length bs = n) \<and>
    io_req (fst (iocp_file_async_read_some ob2 m)) = IocpReadAt (if_offset ob1 + of_nat (n - length bs)) m"
proof -
  have o1: "if_offset ob1 = if_offset ob + of_nat (length bs)"
    using assms(1) by (auto simp: iocp_file_read_some_def)
  have q: "io_req op1 = IocpReadAt (if_offset ob) n" and o2: "if_offset ob2 = if_offset ob + of_nat n"
    using assms(3,4) by (auto simp: iocp_file_async_read_some_def iocp_operation_def)
  have s: "if_offset ob2 = if_offset ob1 + of_nat (n - length bs)" using o1 o2 assms(2) by (simp add: of_nat_diff)
  have u: "unat (of_nat (n - length bs) :: size_t) = n - length bs"
    using assms(3) by (simp add: unat_of_nat take_bit_nat_eq_self DWORD_MAX_def)
  have "(of_nat (n - length bs) :: size_t) = 0 \<longleftrightarrow> n - length bs = 0"
    by (subst unat_eq_0 [symmetric], subst u, rule refl)
  then have "if_offset ob2 = if_offset ob1 \<longleftrightarrow> length bs = n" using s assms(2) by auto
  then show ?thesis using q o1 s by (simp add: iocp_file_async_read_some_def iocp_operation_def)
qed

text \<open>The last five bytes of a file, read with a buffer of ten.\<close>

end
