(* ===== verification/Atomutex.thy ===== *)
theory Atomutex
  imports Prelude
begin

text \<open>
  The lock \<open>atomutex\<close> of \<open>include/coio/utils/atomutex.h\<close>, which guards the critical sections of the library: a flag that is
  tested and set, and waited for while it is set.

  Any number of threads run interleaved, one atomic action at a time. \<open>flag_.wait(true)\<close> looks at the flag and returns if it is
  clear; otherwise it blocks, and looks again when it is notified or woken for no reason. \<open>notify_one\<close> wakes any one thread
  that is blocked.
\<close>

text \<open>What a thread does next: nothing; \<open>test_and_set\<close>; the look of \<open>wait\<close>; it is blocked in \<open>wait\<close>; \<open>clear\<close>; \<open>notify_one\<close>.\<close>

datatype mutex_pc = MxIdle | MxTesting | MxWaiting | MxBlocked | MxOwner | MxNotifying

record atomutex =
  mx_flag :: bool
  mx_threads :: "mutex_pc list"

definition mx_new :: "nat \<Rightarrow> atomutex" where
  "mx_new n = \<lparr>mx_flag = False, mx_threads = replicate n MxIdle\<rparr>"

definition mx_goto :: "nat \<Rightarrow> mutex_pc \<Rightarrow> atomutex \<Rightarrow> atomutex" where
  "mx_goto i pc s = s\<lparr>mx_threads := (mx_threads s)[i := pc]\<rparr>"

text \<open>\<open>lock\<close>: the test of the loop, and its body.\<close>

definition mx_test_and_set :: "nat \<Rightarrow> atomutex \<Rightarrow> atomutex" where
  "mx_test_and_set i s = mx_goto i (if mx_flag s then MxWaiting else MxOwner) (s\<lparr>mx_flag := True\<rparr>)"

definition mx_wait :: "nat \<Rightarrow> atomutex \<Rightarrow> atomutex" where
  "mx_wait i s = mx_goto i (if mx_flag s then MxBlocked else MxTesting) s"

definition mx_try_lock :: "nat \<Rightarrow> atomutex \<Rightarrow> bool \<times> atomutex" where
  "mx_try_lock i s = (\<not> mx_flag s, mx_goto i (if mx_flag s then MxIdle else MxOwner) (s\<lparr>mx_flag := True\<rparr>))"

text \<open>\<open>unlock\<close>: first the flag, then one of the blocked threads, if there is one.\<close>

definition mx_clear :: "nat \<Rightarrow> atomutex \<Rightarrow> atomutex" where
  "mx_clear i s = mx_goto i MxNotifying (s\<lparr>mx_flag := False\<rparr>)"

definition mx_notify_one :: "nat \<Rightarrow> nat option \<Rightarrow> atomutex \<Rightarrow> atomutex" where
  "mx_notify_one i w s = mx_goto i MxIdle (case w of None \<Rightarrow> s | Some j \<Rightarrow> mx_goto j MxWaiting s)"

inductive mx_step :: "atomutex \<Rightarrow> atomutex \<Rightarrow> bool" where
  lock: "i < length (mx_threads s) \<Longrightarrow> mx_threads s ! i = MxIdle \<Longrightarrow> mx_step s (mx_goto i MxTesting s)"
| test_and_set: "i < length (mx_threads s) \<Longrightarrow> mx_threads s ! i = MxTesting \<Longrightarrow> mx_step s (mx_test_and_set i s)"
| wait: "i < length (mx_threads s) \<Longrightarrow> mx_threads s ! i = MxWaiting \<Longrightarrow> mx_step s (mx_wait i s)"
| wake: "i < length (mx_threads s) \<Longrightarrow> mx_threads s ! i = MxBlocked \<Longrightarrow> mx_step s (mx_goto i MxWaiting s)"
| try_lock: "i < length (mx_threads s) \<Longrightarrow> mx_threads s ! i = MxIdle \<Longrightarrow> mx_step s (snd (mx_try_lock i s))"
| clear: "i < length (mx_threads s) \<Longrightarrow> mx_threads s ! i = MxOwner \<Longrightarrow> mx_step s (mx_clear i s)"
| notify: "i < length (mx_threads s) \<Longrightarrow> mx_threads s ! i = MxNotifying \<Longrightarrow> j < length (mx_threads s) \<Longrightarrow>
    mx_threads s ! j = MxBlocked \<Longrightarrow> mx_step s (mx_notify_one i (Some j) s)"
| notify_nobody: "i < length (mx_threads s) \<Longrightarrow> mx_threads s ! i = MxNotifying \<Longrightarrow> MxBlocked \<notin> set (mx_threads s) \<Longrightarrow>
    mx_step s (mx_notify_one i None s)"

inductive mx_reachable :: "nat \<Rightarrow> atomutex \<Rightarrow> bool" for n where
  new: "mx_reachable n (mx_new n)"
| step: "mx_reachable n s \<Longrightarrow> mx_step s t \<Longrightarrow> mx_reachable n t"

section \<open>The lock has one owner, and nobody waits for nothing\<close>

definition mx_owners :: "atomutex \<Rightarrow> nat set" where
  "mx_owners s = {i. i < length (mx_threads s) \<and> mx_threads s ! i = MxOwner}"

text \<open>Somebody who will look at the flag, or wake a blocked thread.\<close>

definition mx_active :: "mutex_pc \<Rightarrow> bool" where
  "mx_active pc \<longleftrightarrow> pc = MxTesting \<or> pc = MxWaiting \<or> pc = MxNotifying"

definition mx_inv :: "atomutex \<Rightarrow> bool" where
  "mx_inv s \<longleftrightarrow>
     (if mx_flag s then \<exists>i. mx_owners s = {i} else mx_owners s = {}) \<and>
     (MxBlocked \<in> set (mx_threads s) \<longrightarrow> mx_flag s \<or> (\<exists>pc \<in> set (mx_threads s). mx_active pc))"

lemma mx_goto_simps [simp]:
  "mx_flag (mx_goto i pc s) = mx_flag s" "mx_threads (mx_goto i pc s) = (mx_threads s)[i := pc]"
  by (simp_all add: mx_goto_def)

lemma mx_owners_goto:
  "i < length (mx_threads s) \<Longrightarrow>
   mx_owners (mx_goto i pc s) = (if pc = MxOwner then insert i (mx_owners s) else mx_owners s - {i})"
  by (auto simp: mx_owners_def nth_list_update split: if_splits)

lemma mx_owners_flag [simp]: "mx_owners (s\<lparr>mx_flag := b\<rparr>) = mx_owners s"
  by (simp add: mx_owners_def)

lemma mx_owners_iff: "i < length (mx_threads s) \<Longrightarrow> i \<in> mx_owners s \<longleftrightarrow> mx_threads s ! i = MxOwner"
  by (simp add: mx_owners_def)

text \<open>What a step does to the owners: nothing, or a free lock is taken, or it is given up by its owner.\<close>

definition mx_lock_step :: "nat set \<Rightarrow> nat set \<Rightarrow> bool" where
  "mx_lock_step A B \<longleftrightarrow> B = A \<or> (\<exists>i. A = {} \<and> B = {i}) \<or> (\<exists>i. A = {i} \<and> B = {})"

lemma mx_step_owners:
  assumes "mx_inv s" and "mx_step s t"
  shows "mx_lock_step (mx_owners s) (mx_owners t) \<and> (if mx_flag t then \<exists>i. mx_owners t = {i} else mx_owners t = {})"
  using assms(2,1)
proof cases
  case (test_and_set i)
  then show ?thesis using assms(1)
    by (cases "mx_flag s") (auto simp: mx_inv_def mx_lock_step_def mx_test_and_set_def mx_owners_goto mx_owners_iff)
next
  case (try_lock i)
  then show ?thesis using assms(1)
    by (cases "mx_flag s") (auto simp: mx_inv_def mx_lock_step_def mx_try_lock_def mx_owners_goto mx_owners_iff)
next
  case (clear i)
  have "i \<in> mx_owners s" using clear by (simp add: mx_owners_iff)
  then have "mx_owners s = {i}" using assms(1) by (auto simp: mx_inv_def split: if_splits)
  then show ?thesis using clear by (simp add: mx_lock_step_def mx_clear_def mx_owners_goto)
next
  case (notify i j)
  have "i \<notin> mx_owners s" "j \<notin> mx_owners s" using notify by (auto simp: mx_owners_iff)
  then have "mx_owners t = mx_owners s" "mx_flag t = mx_flag s"
    using notify by (auto simp: mx_notify_one_def mx_owners_goto)
  then show ?thesis using assms(1) by (simp add: mx_inv_def mx_lock_step_def)
qed (use assms(1) in \<open>auto simp: mx_inv_def mx_lock_step_def mx_wait_def mx_notify_one_def mx_owners_goto mx_owners_iff\<close>)

lemma mx_step_blocked:
  assumes inv: "mx_inv s" and step: "mx_step s t" and blocked: "MxBlocked \<in> set (mx_threads t)"
  shows "mx_flag t \<or> (\<exists>pc \<in> set (mx_threads t). mx_active pc)"
proof -
  have at: "pc \<in> set ((mx_threads s)[i := pc])" if "i < length (mx_threads s)" for i pc
    using that by (simp add: set_update_memI)
  have keep: "mx_flag s \<or> (\<exists>pc \<in> set (mx_threads s). mx_active pc)" if "MxBlocked \<in> set (mx_threads s)"
    using inv that by (simp add: mx_inv_def)
  from step show ?thesis
  proof cases
    case (try_lock i)
    then show ?thesis by (simp add: mx_try_lock_def)
  next
    case (test_and_set i)
    then show ?thesis by (simp add: mx_test_and_set_def)
  next
    case (wait i)
    then show ?thesis using at [of i MxTesting] by (auto simp: mx_wait_def mx_active_def)
  next
    case (clear i)
    then show ?thesis using at [of i MxNotifying] by (auto simp: mx_clear_def mx_active_def)
  next
    case (notify i j)
    then have "i \<noteq> j" by auto
    then have "MxWaiting \<in> set ((mx_threads s)[j := MxWaiting, i := MxIdle])"
      using notify by (subst list_update_swap) (simp_all add: set_update_memI)
    then show ?thesis using notify by (auto simp: mx_notify_one_def mx_active_def)
  next
    case (notify_nobody i)
    then show ?thesis using blocked set_update_subset_insert [of "mx_threads s" i MxIdle] by (auto simp: mx_notify_one_def)
  qed (use at in \<open>auto simp: mx_active_def\<close>)
qed

lemma mx_reachable_inv: "mx_reachable n s \<Longrightarrow> mx_inv s"
proof (induction rule: mx_reachable.induct)
  case new
  then show ?case by (auto simp: mx_inv_def mx_new_def mx_owners_def)
next
  case (step s t)
  then show ?case using mx_step_owners [OF step.IH step.hyps(2)] mx_step_blocked [OF step.IH step.hyps(2)]
    by (simp add: mx_inv_def [of t])
qed

text \<open>C33. \<open>atomutex\<close> is a lock, for any number of threads: it has at most one owner; a step leaves the owner as it is, or takes
  the lock when it is free, or gives it up; and no wake-up is lost: while a thread is blocked, another one owns the lock, is
  about to look at the flag, or is about to wake a blocked thread, so when every thread is idle or blocked, none is blocked.\<close>

theorem atomutex_is_a_lock:
  assumes "mx_reachable n s" and "mx_step s t"
  shows "(\<forall>i \<in> mx_owners s. mx_owners s = {i}) \<and> mx_lock_step (mx_owners s) (mx_owners t) \<and>
    (if MxBlocked \<in> set (mx_threads s)
     then mx_owners s \<noteq> {} \<or> (\<exists>pc \<in> set (mx_threads s). mx_active pc) else True)"
proof -
  have inv: "mx_inv s" using assms(1) by (rule mx_reachable_inv)
  then show ?thesis using mx_step_owners [OF inv assms(2)] by (auto simp: mx_inv_def split: if_splits)
qed

text \<open>Thread 0 owns the lock, and thread 1 is blocked when it is given up.\<close>

theorem atomutex_is_a_lock_witness:
  "mx_lock_step {0} {} \<and> mx_reachable 2 \<lparr>mx_flag = True, mx_threads = [MxOwner, MxBlocked]\<rparr>"
proof -
  have "mx_reachable 2 (mx_goto 0 MxTesting (mx_new 2))"
    by (rule mx_reachable.step [OF mx_reachable.new mx_step.lock]) (simp_all add: mx_new_def)
  then have "mx_reachable 2 (mx_test_and_set 0 (mx_goto 0 MxTesting (mx_new 2)))"
    by (rule mx_reachable.step [OF _ mx_step.test_and_set]) (simp_all add: mx_new_def)
  then have "mx_reachable 2 \<lparr>mx_flag = True, mx_threads = [MxOwner, MxIdle]\<rparr>"
    by (simp add: mx_new_def mx_test_and_set_def mx_goto_def numeral_2_eq_2)
  from mx_reachable.step [OF this mx_step.lock [of 1]]
  have "mx_reachable 2 \<lparr>mx_flag = True, mx_threads = [MxOwner, MxTesting]\<rparr>" by (simp add: mx_goto_def)
  from mx_reachable.step [OF this mx_step.test_and_set [of 1]]
  have "mx_reachable 2 \<lparr>mx_flag = True, mx_threads = [MxOwner, MxWaiting]\<rparr>" by (simp add: mx_goto_def mx_test_and_set_def)
  from mx_reachable.step [OF this mx_step.wait [of 1]]
  have r: "mx_reachable 2 \<lparr>mx_flag = True, mx_threads = [MxOwner, MxBlocked]\<rparr>" by (simp add: mx_goto_def mx_wait_def)
  have st: "mx_step \<lparr>mx_flag = True, mx_threads = [MxOwner, MxBlocked]\<rparr> \<lparr>mx_flag = False, mx_threads = [MxNotifying, MxBlocked]\<rparr>"
    using mx_step.clear [of 0 "\<lparr>mx_flag = True, mx_threads = [MxOwner, MxBlocked]\<rparr>"] by (simp add: mx_clear_def mx_goto_def)
  have o: "mx_owners \<lparr>mx_flag = True, mx_threads = [MxOwner, MxBlocked]\<rparr> = {0}"
    "mx_owners \<lparr>mx_flag = False, mx_threads = [MxNotifying, MxBlocked]\<rparr> = {}"
    by (auto simp: mx_owners_def nth_Cons' split: if_splits)
  show ?thesis using atomutex_is_a_lock [OF r st] r by (simp add: o)
qed

end
