(* ===== verification/Lock_Guards.thy ===== *)
theory Lock_Guards
  imports Async_Mutex
begin

text \<open>
  Programs over \<open>async_unique_lock\<close> (\<open>include/coio/sync_primitives.h\<close>): the guards are the variables of a program, and the
  mutexes are locked or free, which is what \<open>Async_Mutex\<close> shows of them. \<open>gd_loose\<close> are the mutexes that are locked by no
  guard: locked by hand and not adopted yet, or given up by \<open>release\<close>.

  A \<open>lock\<close> is one step, taken when its operation completes: the sender that \<open>lock\<close> returns sets \<open>owned_\<close> of the guard it was
  called on, and a program must leave that guard alone until then. An operation that the rules forbid (a guard constructed over a living one, a mutex adopted that is not locked by hand, a
  \<open>lock\<close> that completes while the mutex is taken) is \<^const>\<open>InvalidArgument\<close>; a failed assertion of the code is
  \<^const>\<open>AssertFailed\<close>.
\<close>

record guard_state =
  gd_guards :: "nat \<Rightarrow> unique_lock option"
  gd_locked :: "addr set"
  gd_loose :: "addr set"

definition gd_start :: guard_state where
  "gd_start = \<lparr>gd_guards = \<lambda>_. None, gd_locked = {}, gd_loose = {}\<rparr>"

definition gd_set :: "nat \<Rightarrow> unique_lock option \<Rightarrow> guard_state \<Rightarrow> guard_state" where
  "gd_set v x s = s\<lparr>gd_guards := (gd_guards s)(v := x)\<rparr>"

datatype guard_op =
    Lock_By_Hand addr
  | Unlock_By_Hand addr
  | Guard_Adopt nat addr
  | Guard_Defer nat addr
  | Guard_Try nat addr
  | Guard_Move nat nat
  | Guard_Destroy nat
  | Guard_Assign nat nat
  | Guard_Lock nat
  | Guard_Try_Lock nat
  | Guard_Unlock nat
  | Guard_Release nat
  | Guard_Swap nat nat

definition gd_lock :: "addr \<Rightarrow> guard_state \<Rightarrow> guard_state" where
  "gd_lock m s = s\<lparr>gd_locked := insert m (gd_locked s)\<rparr>"

text \<open>\<open>unlock\<close> of a mutex that is not locked is undefined.\<close>

definition gd_unlock :: "ptr \<Rightarrow> guard_state \<Rightarrow> error + guard_state" where
  "gd_unlock p s =
     (case p of
        None \<Rightarrow> Inr s
      | Some m \<Rightarrow> if m \<in> gd_locked s then Inr (s\<lparr>gd_locked := gd_locked s - {m}\<rparr>) else Inl AssertFailed)"

text \<open>The answer of the mutex to \<open>try_lock\<close>.\<close>

definition gd_try :: "addr \<Rightarrow> guard_state \<Rightarrow> bool \<times> guard_state" where
  "gd_try m s = (if m \<in> gd_locked s then (False, s) else (True, gd_lock m s))"

definition gd_new :: "nat \<Rightarrow> unique_lock \<Rightarrow> guard_state \<Rightarrow> error + guard_state" where
  "gd_new v u s = (if gd_guards s v = None then Inr (gd_set v (Some u) s) else Inl InvalidArgument)"

text \<open>A member function on the guard in a variable.\<close>

definition gd_at :: "nat \<Rightarrow> guard_state \<Rightarrow> (unique_lock \<Rightarrow> error + guard_state) \<Rightarrow> error + guard_state" where
  "gd_at v s f = (case gd_guards s v of None \<Rightarrow> Inl InvalidArgument | Some u \<Rightarrow> f u)"

fun gd_exec :: "guard_op \<Rightarrow> guard_state \<Rightarrow> error + guard_state" where
  "gd_exec (Lock_By_Hand m) s =
     (if m \<in> gd_locked s then Inl InvalidArgument else Inr ((gd_lock m s)\<lparr>gd_loose := insert m (gd_loose s)\<rparr>))"
| "gd_exec (Unlock_By_Hand m) s =
     (if m \<in> gd_loose s then gd_unlock (Some m) (s\<lparr>gd_loose := gd_loose s - {m}\<rparr>) else Inl InvalidArgument)"
| "gd_exec (Guard_Adopt v m) s =
     (if m \<in> gd_loose s then gd_new v (ul_adopt m) (s\<lparr>gd_loose := gd_loose s - {m}\<rparr>) else Inl InvalidArgument)"
| "gd_exec (Guard_Defer v m) s = gd_new v (ul_defer m) s"
| "gd_exec (Guard_Try v m) s = (case gd_try m s of (b, s) \<Rightarrow> gd_new v (ul_try m b) s)"
| "gd_exec (Guard_Move v w) s =
     gd_at w s (\<lambda>u. case ul_move u of (u, rest) \<Rightarrow> gd_new v u (gd_set w (Some rest) s))"
| "gd_exec (Guard_Destroy v) s =
     gd_at v s (\<lambda>u. case ul_destroy u of Inl e \<Rightarrow> Inl e | Inr p \<Rightarrow> gd_unlock p (gd_set v None s))"
| "gd_exec (Guard_Assign v w) s =
     gd_at w s (\<lambda>other.
       case ul_move other of
         (other, rest) \<Rightarrow>
           gd_at v (gd_set w (Some rest) s) (\<lambda>u.
             case ul_assign u other of
               Inl e \<Rightarrow> Inl e
             | Inr (u, p) \<Rightarrow> gd_unlock p (gd_set v (Some u) (gd_set w (Some rest) s))))"
| "gd_exec (Guard_Lock v) s =
     gd_at v s (\<lambda>u.
       case ul_lock u of
         Inl e \<Rightarrow> Inl e
       | Inr u' \<Rightarrow>
           (case ul_mtx u of
              None \<Rightarrow> Inl NullDeref
            | Some m \<Rightarrow> if m \<in> gd_locked s then Inl InvalidArgument else Inr (gd_set v (Some u') (gd_lock m s))))"
| "gd_exec (Guard_Try_Lock v) s =
     gd_at v s (\<lambda>u.
       case ul_mtx u of
         None \<Rightarrow> (case ul_try_lock False u of Inl e \<Rightarrow> Inl e | Inr _ \<Rightarrow> Inl NullDeref)
       | Some m \<Rightarrow>
           (case ul_try_lock (m \<notin> gd_locked s) u of
              Inl e \<Rightarrow> Inl e
            | Inr (b, u') \<Rightarrow> Inr (gd_set v (Some u') (if b then gd_lock m s else s))))"
| "gd_exec (Guard_Unlock v) s =
     gd_at v s (\<lambda>u. case ul_unlock u of Inl e \<Rightarrow> Inl e | Inr (m, u') \<Rightarrow> gd_unlock (Some m) (gd_set v (Some u') s))"
| "gd_exec (Guard_Release v) s =
     gd_at v s (\<lambda>u.
       case ul_release u of
         (p, u') \<Rightarrow>
           Inr ((gd_set v (Some u') s)\<lparr>gd_loose :=
             (case p of Some m \<Rightarrow> if ul_owned u then insert m (gd_loose s) else gd_loose s | None \<Rightarrow> gd_loose s)\<rparr>))"
| "gd_exec (Guard_Swap v w) s =
     gd_at v s (\<lambda>u. gd_at w s (\<lambda>u'. Inr (gd_set w (Some u) (gd_set v (Some u') s))))"

fun gd_run :: "guard_op list \<Rightarrow> guard_state \<Rightarrow> error + guard_state" where
  "gd_run [] s = Inr s"
| "gd_run (x # xs) s = (case gd_exec x s of Inl e \<Rightarrow> Inl e | Inr s \<Rightarrow> gd_run xs s)"

section \<open>A locked mutex has one owner\<close>

definition owns :: "unique_lock option \<Rightarrow> addr \<Rightarrow> bool" where
  "owns x m = (case x of None \<Rightarrow> False | Some u \<Rightarrow> ul_owned u \<and> ul_mtx u = Some m)"

lemma owns_simps [simp]:
  "owns None m = False" "owns (Some ul_none) m = False" "owns (Some (ul_adopt n)) m = (m = n)"
  "owns (Some (ul_defer n)) m = False" "owns (Some (ul_try n b)) m = (b \<and> m = n)"
  by (auto simp: owns_def ul_none_def ul_adopt_def ul_defer_def ul_try_def)

definition gd_owners :: "addr \<Rightarrow> guard_state \<Rightarrow> nat set" where
  "gd_owners m s = {v. owns (gd_guards s v) m}"

text \<open>A guard that owns has a mutex.\<close>

definition guard_ok :: "unique_lock option \<Rightarrow> bool" where
  "guard_ok x = (case x of None \<Rightarrow> True | Some u \<Rightarrow> ul_owned u \<longrightarrow> ul_mtx u \<noteq> None)"

lemma guard_ok_simps [simp]:
  "guard_ok None" "guard_ok (Some ul_none)" "guard_ok (Some (ul_adopt n))" "guard_ok (Some (ul_defer n))"
  "guard_ok (Some (ul_try n b))"
  by (simp_all add: guard_ok_def ul_none_def ul_adopt_def ul_defer_def ul_try_def)

definition gd_inv :: "guard_state \<Rightarrow> bool" where
  "gd_inv s \<longleftrightarrow> (\<forall>v. guard_ok (gd_guards s v)) \<and> gd_loose s \<subseteq> gd_locked s \<and>
     (\<forall>m. if m \<in> gd_locked s - gd_loose s then \<exists>v. gd_owners m s = {v} else gd_owners m s = {})"

lemma gd_owners_set: "gd_owners m (gd_set v x s) = (if owns x m then insert v (gd_owners m s) else gd_owners m s - {v})"
  by (auto simp: gd_owners_def gd_set_def)

lemma gd_simps [simp]:
  "gd_locked (gd_set v x s) = gd_locked s" "gd_loose (gd_set v x s) = gd_loose s"
  "gd_guards (gd_set v x s) = (gd_guards s)(v := x)" "gd_guards (gd_lock m s) = gd_guards s"
  "gd_locked (gd_lock m s) = insert m (gd_locked s)" "gd_loose (gd_lock m s) = gd_loose s"
  "gd_owners m' (gd_lock m s) = gd_owners m' s" "gd_owners m' (s\<lparr>gd_loose := A\<rparr>) = gd_owners m' s"
  "gd_owners m' (s\<lparr>gd_locked := A\<rparr>) = gd_owners m' s"
  by (simp_all add: gd_set_def gd_lock_def gd_owners_def)

lemma gd_invD:
  assumes "gd_inv s"
  shows "guard_ok (gd_guards s v)" "gd_loose s \<subseteq> gd_locked s"
    "m \<in> gd_locked s \<Longrightarrow> m \<notin> gd_loose s \<Longrightarrow> \<exists>v. gd_owners m s = {v}"
    "m \<notin> gd_locked s \<or> m \<in> gd_loose s \<Longrightarrow> gd_owners m s = {}"
  using assms by (auto simp: gd_inv_def split: if_splits)

lemma gd_owner:
  assumes "gd_inv s" and "gd_guards s v = Some u" and "ul_owned u"
  shows "\<exists>m. ul_mtx u = Some m \<and> m \<in> gd_locked s \<and> m \<notin> gd_loose s \<and> gd_owners m s = {v}"
proof -
  obtain m where m: "ul_mtx u = Some m" using gd_invD(1) [OF assms(1), of v] assms(2,3) by (auto simp: guard_ok_def)
  then have v: "v \<in> gd_owners m s" using assms(2,3) by (simp add: gd_owners_def owns_def)
  then have "m \<in> gd_locked s" "m \<notin> gd_loose s" using gd_invD(4) [OF assms(1), of m] by auto
  then show ?thesis using gd_invD(3) [OF assms(1), of m] v m by auto
qed

lemma gd_not_owner: "gd_guards s v = x \<Longrightarrow> \<not> owns x m \<Longrightarrow> v \<notin> gd_owners m s"
  by (simp add: gd_owners_def)

text \<open>Giving up what a guard owns: the destructor, on the old value of an assignment too.\<close>

lemma gd_give_up:
  assumes inv: "gd_inv s" and u: "gd_guards s v = Some u" and x: "guard_ok x" "\<And>m. \<not> owns x m"
  shows "\<exists>p s'. ul_destroy u = Inr p \<and> gd_unlock p (gd_set v x s) = Inr s' \<and> gd_inv s' \<and> gd_guards s' = (gd_guards s)(v := x)"
proof (cases "ul_owned u")
  case True
  then obtain m where m: "ul_mtx u = Some m" "m \<in> gd_locked s" "m \<notin> gd_loose s" "gd_owners m s = {v}"
    using gd_owner [OF inv u] by blast
  have o: "v \<notin> gd_owners m' s" if "m' \<noteq> m" for m' using u m(1) that by (simp add: gd_owners_def owns_def)
  have d: "gd_owners m' s - {v} = (if m' = m then {} else gd_owners m' s)" for m' using o [of m'] m(4) by auto
  let ?s = "(gd_set v x s)\<lparr>gd_locked := gd_locked s - {m}\<rparr>"
  have "gd_owners m' ?s = (if m' = m then {} else gd_owners m' s)" for m' using x(2) by (simp add: gd_owners_set d)
  then have "gd_inv ?s" using inv m(3) x(1) unfolding gd_inv_def by (auto split: if_splits)
  then show ?thesis using True m by (simp add: ul_destroy_def gd_unlock_def)
next
  case False
  then have "\<not> owns (Some u) m" for m by (simp add: owns_def)
  then have d: "gd_owners m s - {v} = gd_owners m s" for m using u by (auto simp: gd_owners_def)
  have "gd_owners m (gd_set v x s) = gd_owners m s" for m using x(2) by (simp add: gd_owners_set d)
  then have "gd_inv (gd_set v x s)" using inv x(1) unfolding gd_inv_def by simp
  then show ?thesis using False by (simp add: ul_destroy_def gd_unlock_def)
qed

text \<open>Putting a guard that owns \<open>m\<close> into a variable that owns nothing, when nobody else owns it.\<close>

lemma gd_take:
  assumes inv: "gd_inv s" and v: "\<And>m. \<not> owns (gd_guards s v) m"
    and m: "gd_owners m s = {}" "owns x m" and locked: "gd_locked s' = insert m (gd_locked s)"
    and loose: "gd_loose s' = gd_loose s - {m}" and g: "gd_guards s' = (gd_guards s)(v := x)"
  shows "gd_inv s'"
proof -
  have ok: "guard_ok x" using m(2) by (auto simp: owns_def guard_ok_def split: option.splits)
  have o: "owns x m' = (m' = m)" for m' using m(2) by (auto simp: owns_def split: option.splits)
  have "gd_owners m' s' = (if m' = m then {v} else gd_owners m' s)" for m'
    using v m(1) o g by (auto simp: gd_owners_def split: if_splits)
  then show ?thesis
    using inv ok locked loose g m(1) unfolding gd_inv_def by (auto split: if_splits)
qed

text \<open>Changing a variable without a change of what it owns.\<close>

lemma gd_keep:
  assumes inv: "gd_inv s" and "\<And>m. owns x m = owns (gd_guards s v) m" and "guard_ok x"
  shows "gd_inv (gd_set v x s)"
proof -
  have "gd_owners m (gd_set v x s) = gd_owners m s" for m using assms(2) by (auto simp: gd_owners_def gd_set_def)
  then show ?thesis using inv assms(3) unfolding gd_inv_def by simp
qed

text \<open>Moving what \<open>w\<close> owns to \<open>v\<close>, which owns nothing.\<close>

lemma gd_transfer:
  assumes inv: "gd_inv s" and v: "\<And>m. \<not> owns (gd_guards s v) m" and w: "gd_guards s w = Some u" and vw: "v \<noteq> w"
    and rest: "\<And>m. \<not> owns rest m" "guard_ok rest"
  shows "gd_inv (gd_set v (Some u) (gd_set w rest s))"
proof -
  have "gd_owners m (gd_set v (Some u) (gd_set w rest s)) =
      (if owns (Some u) m then insert v (gd_owners m s - {w}) else gd_owners m s)" for m
    using v w rest(1) vw by (auto simp: gd_owners_def gd_set_def)
  moreover have "\<exists>x. insert v (gd_owners m s - {w}) = {x}" if y: "\<exists>y. gd_owners m s = {y}" and o: "owns (Some u) m" for m
  proof -
    have "w \<in> gd_owners m s" using w o by (simp add: gd_owners_def)
    then have e: "gd_owners m s = {w}" using y by auto
    show ?thesis unfolding e by auto
  qed
  moreover have "gd_owners m s \<noteq> {}" if "owns (Some u) m" for m
  proof -
    have "w \<in> gd_owners m s" using w that by (simp add: gd_owners_def)
    then show ?thesis by blast
  qed
  moreover have "guard_ok (Some u)" using gd_invD(1) [OF inv, of w] w by simp
  ultimately show ?thesis using inv rest(2) unfolding gd_inv_def by (auto split: if_splits)
qed

text \<open>Locking a mutex by hand, and giving it to a guard or back.\<close>

lemma gd_loosen:
  assumes "gd_inv s" and "m \<notin> gd_locked s"
  shows "gd_inv ((gd_lock m s)\<lparr>gd_loose := insert m (gd_loose s)\<rparr>)"
  using assms unfolding gd_inv_def by (auto split: if_splits)

lemma gd_unloosen:
  assumes inv: "gd_inv s" and m: "m \<in> gd_loose s" and u: "gd_unlock (Some m) (s\<lparr>gd_loose := gd_loose s - {m}\<rparr>) = Inr s'"
  shows "gd_inv s'"
proof -
  have s': "s' = s\<lparr>gd_loose := gd_loose s - {m}, gd_locked := gd_locked s - {m}\<rparr>"
    using u by (auto simp: gd_unlock_def split: if_splits)
  have o: "gd_owners m' s' = gd_owners m' s" for m' by (simp add: gd_owners_def s')
  show ?thesis using inv gd_invD(4) [OF inv, of m] m unfolding gd_inv_def o by (auto simp: s' split: if_splits)
qed

lemma gd_new_inv:
  assumes "gd_inv s" and "gd_new v u s = Inr s'" and "\<And>m. \<not> owns (Some u) m" and "guard_ok (Some u)"
  shows "gd_inv s'"
proof -
  have v: "gd_guards s v = None" and s': "s' = gd_set v (Some u) s"
    using assms(2) by (auto simp: gd_new_def split: if_splits)
  show ?thesis unfolding s' using gd_keep [OF assms(1), of "Some u" v] v assms(3,4) by simp
qed

lemma gd_adopt_inv:
  assumes inv: "gd_inv s" and m: "m \<in> gd_loose s" and n: "gd_new v (ul_adopt m) (s\<lparr>gd_loose := gd_loose s - {m}\<rparr>) = Inr s'"
  shows "gd_inv s'"
proof -
  have v: "gd_guards s v = None" and s': "s' = gd_set v (Some (ul_adopt m)) (s\<lparr>gd_loose := gd_loose s - {m}\<rparr>)"
    using n by (auto simp: gd_new_def split: if_splits)
  have l: "m \<in> gd_locked s" using gd_invD(2) [OF inv] m by auto
  show ?thesis unfolding s'
    by (rule gd_take [OF inv, of v m "Some (ul_adopt m)"])
       (use v m l gd_invD(4) [OF inv, of m] in \<open>auto simp: gd_set_def\<close>)
qed

lemma gd_try_inv:
  assumes inv: "gd_inv s" and t: "gd_try m s = (b, t)" and n: "gd_new v (ul_try m b) t = Inr s'"
  shows "gd_inv s'"
proof (cases "m \<in> gd_locked s")
  case True
  then have b: "b = False" "t = s" using t by (auto simp: gd_try_def)
  show ?thesis by (rule gd_new_inv [OF _ n]) (use inv b in simp_all)
next
  case False
  then have b: "b = True" "t = gd_lock m s" using t by (auto simp: gd_try_def)
  have v: "gd_guards s v = None" and s': "s' = gd_set v (Some (ul_try m True)) (gd_lock m s)"
    using n b by (auto simp: gd_new_def split: if_splits)
  show ?thesis unfolding s'
    by (rule gd_take [OF inv, of v m "Some (ul_try m True)"])
       (use v False gd_invD(2,4) [OF inv] in \<open>auto simp: gd_set_def\<close>)
qed

lemma gd_lock_inv:
  assumes inv: "gd_inv s" and v: "gd_guards s v = Some u" and m: "ul_mtx u = Some m" "\<not> ul_owned u" and l: "m \<notin> gd_locked s"
  shows "gd_inv (gd_set v (Some (u\<lparr>ul_owned := True\<rparr>)) (gd_lock m s))"
  by (rule gd_take [OF inv, of v m "Some (u\<lparr>ul_owned := True\<rparr>)"])
     (use v m l gd_invD(2,4) [OF inv] in \<open>auto simp: gd_set_def owns_def\<close>)

lemma gd_validate: "ul_validate u = Inr x \<Longrightarrow> (\<exists>m. ul_mtx u = Some m) \<and> \<not> ul_owned u"
  by (auto simp: ul_validate_def split: if_splits)

lemma gd_try_lock_inv:
  assumes inv: "gd_inv s" and v: "gd_guards s v = Some u" and m: "ul_mtx u = Some m"
    and t: "ul_try_lock (m \<notin> gd_locked s) u = Inr (b, u')"
  shows "gd_inv (gd_set v (Some u') (if b then gd_lock m s else s))"
proof -
  have o: "\<not> ul_owned u" and b: "b = (m \<notin> gd_locked s)" and u': "u' = u\<lparr>ul_owned := b\<rparr>"
    using t gd_validate by (auto simp: ul_try_lock_def split: sum.splits)
  show ?thesis
  proof (cases b)
    case True
    then show ?thesis using gd_lock_inv [OF inv v m o] b u' by simp
  next
    case False
    then show ?thesis using gd_keep [OF inv, of "Some u'" v] u' v o by (simp add: owns_def guard_ok_def)
  qed
qed

lemma gd_release_inv:
  assumes inv: "gd_inv s" and v: "gd_guards s v = Some u"
    and x: "\<And>m. \<not> owns x m" "guard_ok x"
    and s': "s' = (gd_set v x s)\<lparr>gd_loose := (case ul_mtx u of Some m \<Rightarrow> if ul_owned u then insert m (gd_loose s) else gd_loose s | None \<Rightarrow> gd_loose s)\<rparr>"
  shows "gd_inv s'"
proof (cases "ul_owned u")
  case True
  then obtain m where m: "ul_mtx u = Some m" "m \<in> gd_locked s" "m \<notin> gd_loose s" "gd_owners m s = {v}"
    using gd_owner [OF inv v] by blast
  have o: "v \<notin> gd_owners m' s" if "m' \<noteq> m" for m' using v m(1) that by (simp add: gd_owners_def owns_def)
  have "gd_owners m' s' = (if m' = m then {} else gd_owners m' s)" for m'
    using o [of m'] m(4) x(1) by (auto simp: s' gd_owners_set)
  then show ?thesis using inv m True x(2) unfolding gd_inv_def by (auto simp: s' split: if_splits)
next
  case False
  then have e: "s' = gd_set v x s" by (auto simp: s' gd_set_def split: option.splits)
  show ?thesis unfolding e by (rule gd_keep [OF inv]) (use v x False in \<open>auto simp: owns_def\<close>)
qed

lemma gd_swap_inv:
  assumes inv: "gd_inv s" and v: "gd_guards s v = Some u" and w: "gd_guards s w = Some u'"
  shows "gd_inv (gd_set w (Some u) (gd_set v (Some u') s))"
proof -
  let ?p = "\<lambda>x. if x = v then w else if x = w then v else x" and ?s = "gd_set w (Some u) (gd_set v (Some u') s)"
  have p: "?p (?p x) = x" for x by auto
  have g: "gd_guards ?s x = gd_guards s (?p x)" for x using v w by (auto simp: gd_set_def)
  have o: "x \<in> gd_owners m ?s \<longleftrightarrow> ?p x \<in> gd_owners m s" for x m unfolding gd_owners_def mem_Collect_eq g ..
  have e: "gd_owners m ?s = {}" if "gd_owners m s = {}" for m using o that by blast
  have i: "gd_owners m ?s = {?p y}" if y: "gd_owners m s = {y}" for m y
    unfolding set_eq_iff o y singleton_iff by (auto split: if_splits)
  have "guard_ok (gd_guards ?s x)" for x unfolding g by (rule gd_invD(1) [OF inv])
  moreover have "gd_loose ?s \<subseteq> gd_locked ?s" using gd_invD(2) [OF inv] by simp
  moreover have "if m \<in> gd_locked ?s - gd_loose ?s then \<exists>v. gd_owners m ?s = {v} else gd_owners m ?s = {}" for m
    using gd_invD(3,4) [OF inv, of m] e i by (auto simp del: fun_upd_apply)
  ultimately show ?thesis unfolding gd_inv_def by blast
qed

lemma sum_case_Inr: "(case x of Inl e \<Rightarrow> Inl e | Inr y \<Rightarrow> f y) = Inr z \<Longrightarrow> (\<And>y. x = Inr y \<Longrightarrow> f y = Inr z \<Longrightarrow> P) \<Longrightarrow> P"
  by (cases x) auto

lemma gd_at_Inr: "(gd_at v s f = Inr s') = (\<exists>u. gd_guards s v = Some u \<and> f u = Inr s')"
  by (auto simp: gd_at_def split: option.splits)

lemma gd_move_inv:
  assumes inv: "gd_inv s" and w: "gd_guards s w = Some u" and n: "gd_new v u (gd_set w (Some ul_none) s) = Inr s'"
  shows "gd_inv s'"
proof -
  have v: "gd_guards s v = None" "v \<noteq> w" and s': "s' = gd_set v (Some u) (gd_set w (Some ul_none) s)"
    using n w by (auto simp: gd_new_def split: if_splits)
  show ?thesis unfolding s' by (rule gd_transfer [OF inv _ w v(2)]) (simp_all add: v)
qed

text \<open>An assignment gives up the old value first and then receives the other one.\<close>

lemma gd_assign_inv:
  assumes inv: "gd_inv s" and w: "gd_guards s w = Some other" and v: "gd_guards (gd_set w (Some ul_none) s) v = Some u"
    and a: "ul_assign u other = Inr (u', p)" and r: "gd_unlock p (gd_set v (Some u') (gd_set w (Some ul_none) s)) = Inr s'"
  shows "gd_inv s'"
proof (cases "v = w")
  case True
  then have "u = ul_none" using v by simp
  then have u': "u' = other" "p = None" using a by (auto simp: ul_assign_def ul_destroy_def ul_none_def)
  then have "s' = gd_set w (Some other) s" using r True by (simp add: gd_unlock_def gd_set_def)
  then show ?thesis using gd_keep [OF inv, of "Some other" w] w gd_invD(1) [OF inv, of w] by simp
next
  case False
  then have u: "gd_guards s v = Some u" using v by simp
  have d: "ul_destroy u = Inr p" and u': "u' = other" using a by (auto simp: ul_assign_def split: sum.splits)
  obtain t where t: "gd_unlock p (gd_set v (Some ul_none) s) = Inr t" "gd_inv t" "gd_guards t = (gd_guards s)(v := Some ul_none)"
    using gd_give_up [OF inv u, of "Some ul_none"] d by auto
  have s': "s' = gd_set v (Some other) (gd_set w (Some ul_none) t)"
    using r t(1) False u' by (auto simp: gd_unlock_def gd_set_def fun_upd_twist split: option.splits if_splits)
  show ?thesis unfolding s'
    by (rule gd_transfer [OF t(2)]) (use t(3) w False in simp_all)
qed

lemma gd_exec_inv:
  assumes inv: "gd_inv s" and x: "gd_exec x s = Inr s'"
  shows "gd_inv s'"
proof (cases x)
  case (Lock_By_Hand m)
  then show ?thesis using gd_loosen [OF inv, of m] x by (auto split: if_splits)
next
  case (Unlock_By_Hand m)
  then show ?thesis using x gd_unloosen [OF inv] by (auto split: if_splits)
next
  case (Guard_Adopt v m)
  then show ?thesis using x gd_adopt_inv [OF inv] by (auto split: if_splits)
next
  case (Guard_Defer v m)
  then show ?thesis using gd_new_inv [OF inv] x by simp
next
  case (Guard_Try v m)
  then show ?thesis using x gd_try_inv [OF inv] by (auto split: prod.splits)
next
  case (Guard_Move v w)
  then show ?thesis using x gd_move_inv [OF inv] by (auto simp: gd_at_Inr ul_move_def)
next
  case (Guard_Destroy v)
  then obtain u p where u: "gd_guards s v = Some u" "ul_destroy u = Inr p" "gd_unlock p (gd_set v None s) = Inr s'"
    using x by (auto simp: gd_at_Inr elim: sum_case_Inr)
  show ?thesis using gd_give_up [OF inv u(1), of None] u(2,3) by auto
next
  case (Guard_Assign v w)
  then show ?thesis using x gd_assign_inv [OF inv]
    by (auto simp: gd_at_Inr ul_move_def simp del: gd_simps fun_upd_apply elim!: sum_case_Inr split: prod.splits)
next
  case (Guard_Lock v)
  then show ?thesis using x gd_lock_inv [OF inv] gd_validate
    by (fastforce simp: gd_at_Inr ul_lock_def elim!: sum_case_Inr split: option.splits if_splits)
next
  case (Guard_Try_Lock v)
  then show ?thesis using x gd_try_lock_inv [OF inv]
    by (auto simp: gd_at_Inr elim!: sum_case_Inr split: option.splits prod.splits)
next
  case (Guard_Unlock v)
  then obtain u m u' where u: "gd_guards s v = Some u" "ul_unlock u = Inr (m, u')" "gd_unlock (Some m) (gd_set v (Some u') s) = Inr s'"
    using x by (fastforce simp: gd_at_Inr elim: sum_case_Inr)
  have d: "ul_destroy u = Inr (Some m)" and u': "u' = u\<lparr>ul_owned := False\<rparr>"
    using u(2) by (auto simp: ul_unlock_def ul_destroy_def split: option.splits if_splits)
  show ?thesis using gd_give_up [OF inv u(1), of "Some u'"] d u(3) u' by (auto simp: owns_def guard_ok_def)
next
  case (Guard_Release v)
  then obtain u where u: "gd_guards s v = Some u" using x by (auto simp: gd_at_Inr)
  show ?thesis using x u Guard_Release
    by (intro gd_release_inv [OF inv u, of "Some (snd (ul_release u))"])
       (auto simp: gd_at_Inr ul_release_def owns_def guard_ok_def)
next
  case (Guard_Swap v w)
  then show ?thesis using x gd_swap_inv [OF inv] by (auto simp: gd_at_Inr)
qed

lemma gd_run_inv: "gd_inv s \<Longrightarrow> gd_run xs s = Inr s' \<Longrightarrow> gd_inv s'"
  by (induction xs s rule: gd_run.induct) (auto dest: gd_exec_inv split: sum.splits)

lemma gd_start_inv: "gd_inv gd_start"
  by (simp add: gd_inv_def gd_start_def gd_owners_def)

section \<open>What a program over guards can rely on\<close>

text \<open>The calls that the assertions of \<open>async_unique_lock\<close> forbid.\<close>

fun gd_breaks :: "guard_op \<Rightarrow> guard_state \<Rightarrow> bool" where
  "gd_breaks (Guard_Lock v) s = (case gd_guards s v of None \<Rightarrow> False | Some u \<Rightarrow> ul_mtx u = None \<or> ul_owned u)"
| "gd_breaks (Guard_Try_Lock v) s = (case gd_guards s v of None \<Rightarrow> False | Some u \<Rightarrow> ul_mtx u = None \<or> ul_owned u)"
| "gd_breaks (Guard_Unlock v) s = (case gd_guards s v of None \<Rightarrow> False | Some u \<Rightarrow> ul_mtx u = None \<or> \<not> ul_owned u)"
| "gd_breaks _ _ = False"

lemma gd_destroy:
  assumes inv: "gd_inv s" and u: "gd_guards s v = Some u"
  shows "\<exists>s'. gd_exec (Guard_Destroy v) s = Inr s' \<and> gd_guards s' v = None \<and>
    gd_locked s' = gd_locked s - {m. owns (Some u) m}"
proof -
  obtain p t where t: "ul_destroy u = Inr p" "gd_unlock p (gd_set v None s) = Inr t" "gd_guards t = (gd_guards s)(v := None)"
    using gd_give_up [OF inv u, of None] by auto
  have "gd_locked t = gd_locked s - {m. owns (Some u) m}"
    using t(1,2) by (auto simp: ul_destroy_def gd_unlock_def owns_def split: option.splits if_splits)
  then show ?thesis using t u by (simp add: gd_at_def)
qed

lemma gd_unlock_held:
  assumes inv: "gd_inv s" and u: "gd_guards s v = Some u" and d: "ul_destroy u = Inr p"
  shows "gd_unlock p (gd_set v x s) \<noteq> Inl e"
proof -
  have "m \<in> gd_locked s" if "p = Some m" for m
    using gd_owner [OF inv u] d that by (auto simp: ul_destroy_def split: if_splits option.splits)
  then show ?thesis by (cases p) (simp_all add: gd_unlock_def)
qed

lemma gd_assert_assign:
  assumes inv: "gd_inv s"
  shows "gd_exec (Guard_Assign v w) s \<noteq> Inl AssertFailed"
proof
  assume f: "gd_exec (Guard_Assign v w) s = Inl AssertFailed"
  then obtain other where w: "gd_guards s w = Some other" by (auto simp: gd_at_def split: option.splits)
  let ?t = "gd_set w (Some ul_none) s"
  obtain u where u: "gd_guards ?t v = Some u"
    using f w by (auto simp: gd_at_def ul_move_def split: option.splits if_splits)
  show False
  proof (cases "v = w")
    case True
    then have "u = ul_none" using u by simp
    then show False using f w u True by (simp add: gd_at_def ul_move_def ul_assign_def ul_destroy_def gd_unlock_def ul_none_def)
  next
    case False
    then have s: "gd_guards s v = Some u" using u by simp
    obtain p where p: "ul_destroy u = Inr p" using gd_give_up [OF inv s, of None] by auto
    have "m \<in> gd_locked s" if "p = Some m" for m
      using gd_unlock_held [OF inv s p, of None AssertFailed] that by (auto simp: gd_unlock_def split: if_splits)
    then have "gd_unlock p (gd_set v (Some other) ?t) \<noteq> Inl e" for e
      by (auto simp: gd_unlock_def split: option.splits)
    then show False using f w s False p by (simp add: gd_at_def ul_move_def ul_assign_def)
  qed
qed

lemma gd_assert_iff:
  assumes inv: "gd_inv s"
  shows "gd_exec x s = Inl AssertFailed \<longleftrightarrow> gd_breaks x s"
proof (cases x)
  case (Unlock_By_Hand m)
  then show ?thesis using gd_invD(2) [OF inv] by (auto simp: gd_unlock_def)
next
  case (Guard_Destroy v)
  then show ?thesis using gd_destroy [OF inv, of v] by (cases "gd_guards s v") (auto simp: gd_at_def simp del: gd_simps)
next
  case (Guard_Assign v w)
  then show ?thesis using gd_assert_assign [OF inv] by simp
next
  case (Guard_Unlock v)
  have "ul_destroy u = Inr (Some m)" if "ul_mtx u = Some m" "ul_owned u" for u m using that by (simp add: ul_destroy_def)
  then show ?thesis using Guard_Unlock gd_unlock_held [OF inv, of v]
    by (auto simp: gd_at_def ul_unlock_def split: option.splits)
qed (auto simp: gd_at_def gd_new_def gd_try_def ul_move_def ul_release_def ul_lock_def ul_try_lock_def ul_validate_def
        split: option.splits if_splits)



end
