(* ===== verification/Win_Signal.thy ===== *)
theory Win_Signal
  imports Signal_Wait
begin

text \<open>
  Waiting for a signal on Windows: \<open>src/win/utils/signal_wait.cpp\<close>. There are six signals, each with a \<open>waiting_list\<close> whose
  code is that of Linux. The handler, which the C runtime takes out before it calls it, sets a flag of its signal and an
  event; the thread \<open>watchdog\<close> waits for the event, and dispatches every signal whose flag it finds set.

  A signal with its list and its waiters is a \<^typ>\<open>signal_sys\<close> of \<open>Signal_Wait\<close>; its \<^const>\<open>sg_watchdog\<close> is where the watchdog
  is in \<open>pop_all\<close> of that list. There is no pipe: \<^const>\<open>sg_pipe\<close> only counts the signals that were handled and not dispatched
  yet, of which the flag remembers whether there are any. \<open>ws_armed\<close> is the disposition of a signal: the handler, or \<open>SIG_DFL\<close>.
\<close>

section \<open>Signals\<close>

definition valid_signals :: "int list" where
  "valid_signals = [22, 8, 4, 2, 11, 15]"

definition valid_signal_count :: nat where
  "valid_signal_count = length valid_signals"

fun signal_index_from :: "int list \<Rightarrow> int \<Rightarrow> nat \<Rightarrow> nat" where
  "signal_index_from [] signal_number i = valid_signal_count"
| "signal_index_from (v # vs) signal_number i = (if signal_number = v then i else signal_index_from vs signal_number (i + 1))"

definition signal_index :: "int \<Rightarrow> nat" where
  "signal_index signal_number = signal_index_from valid_signals signal_number 0"

definition win_available_signal :: "int \<Rightarrow> bool" where
  "win_available_signal signal_number \<longleftrightarrow> signal_index signal_number < valid_signal_count"

definition win_strsignal :: "int \<Rightarrow> string" where
  "win_strsignal signum =
     (if signum = 2 then ''Interrupt''
      else if signum = 4 then ''Illegal instruction''
      else if signum = 8 then ''Erroneous arithmetic operation''
      else if signum = 11 then ''Invalid memory reference''
      else if signum = 15 then ''Termination request''
      else if signum = 22 then ''Aborted''
      else ''Unknown signal'')"

section \<open>The waiting list\<close>

text \<open>\<open>failed\<close> is the \<open>errno\<close> of \<open>signal\<close> when it returns \<open>SIG_ERR\<close>.\<close>

definition win_list_add :: "int \<Rightarrow> int option \<Rightarrow> addr \<Rightarrow> signal_list \<Rightarrow> int \<times> signal_list" where
  "win_list_add signum failed a l =
     (if sl_head l = SlPtr None then (signum, l)
      else if sl_head l = SlThis \<and> failed \<noteq> None then (- the failed, l)
      else
        let l' = (if sl_head l = SlThis then l\<lparr>sl_handler := True\<rparr> else l);
            l' = l'\<lparr>sl_prev := (sl_prev l)(a := None), sl_next := (sl_next l)(a := sl_first (sl_head l))\<rparr>;
            l' = (case sl_next l' a of Some n \<Rightarrow> l'\<lparr>sl_prev := (sl_prev l')(n := Some a)\<rparr> | None \<Rightarrow> l')
        in (0, l'\<lparr>sl_head := SlPtr (Some a)\<rparr>))"

definition win_list_remove :: "addr \<Rightarrow> signal_list \<Rightarrow> bool \<times> signal_list" where
  "win_list_remove a l =
     (let unlink = (\<lambda>l.
            let l = (case sl_next l a of Some n \<Rightarrow> l\<lparr>sl_prev := (sl_prev l)(n := sl_prev l a)\<rparr> | None \<Rightarrow> l);
                l = l\<lparr>sl_prev := (sl_prev l)(a := None), sl_next := (sl_next l)(a := None)\<rparr>
            in (True, if sl_head l = SlThis then l\<lparr>sl_handler := False\<rparr> else l))
      in case sl_prev l a of
           Some p \<Rightarrow> unlink (l\<lparr>sl_next := (sl_next l)(p := sl_next l a)\<rparr>)
         | None \<Rightarrow>
             if sl_head l = SlPtr (Some a) then
               unlink (l\<lparr>sl_head := (case sl_next l a of None \<Rightarrow> SlThis | Some n \<Rightarrow> SlPtr (Some n))\<rparr>)
             else (False, l))"

lemma win_list_add_eq: "win_list_add signum failed a l = sl_add signum failed a l"
  by (cases failed) (auto simp: win_list_add_def sl_add_def Let_def split: option.splits)

lemma win_list_remove_eq: "win_list_remove a l = sl_remove a l"
  by (auto simp: win_list_remove_def sl_remove_def Let_def split: option.splits)

text \<open>\<open>register_waiter\<close> and \<open>unregister_waiter\<close>, on the list of the signal of the waiter; the latter returns whether the waiter
  is finished, with \<open>-ERROR_OPERATION_ABORTED\<close>.\<close>

definition win_register_waiter :: "int \<Rightarrow> int option \<Rightarrow> addr \<Rightarrow> (nat \<Rightarrow> signal_list) \<Rightarrow> int \<times> (nat \<Rightarrow> signal_list)" where
  "win_register_waiter signum failed a ls =
     (case win_list_add signum failed a (ls (signal_index signum)) of (r, l) \<Rightarrow> (r, ls(signal_index signum := l)))"

definition win_unregister_waiter :: "int \<Rightarrow> addr \<Rightarrow> (nat \<Rightarrow> signal_list) \<Rightarrow> int option \<times> (nat \<Rightarrow> signal_list)" where
  "win_unregister_waiter signum a ls =
     (case win_list_remove a (ls (signal_index signum)) of
        (found, l) \<Rightarrow> (if found then Some (- abort_code Win32) else None, ls(signal_index signum := l)))"

section \<open>The handler and the watchdog\<close>

datatype worker_pc =
    WkCheck                 \<comment> \<open>the test of the loop\<close>
  | WkWait                  \<comment> \<open>\<open>WaitForSingleObject\<close>\<close>
  | WkScan nat              \<comment> \<open>the flag of a signal\<close>
  | WkReset nat             \<comment> \<open>\<open>dispatch_signal\<close>\<close>
  | WkDispatch nat          \<comment> \<open>\<open>pop_all\<close>\<close>
  | WkExit

record win_signal =
  ws_sig :: "nat \<Rightarrow> signal_sys"
  ws_armed :: "nat \<Rightarrow> bool"
  ws_raised :: "nat \<Rightarrow> nat"
  ws_interesting :: "nat \<Rightarrow> bool"
  ws_setting :: nat
  ws_event :: bool
  ws_stop :: bool
  ws_worker :: worker_pc

definition win_signal_new :: win_signal where
  "win_signal_new =
     \<lparr>ws_sig = \<lambda>_. sg_new, ws_armed = \<lambda>_. False, ws_raised = \<lambda>_. 0, ws_interesting = \<lambda>_. False, ws_setting = 0,
      ws_event = False, ws_stop = False, ws_worker = WkCheck\<rparr>"

text \<open>The constructor, which \<open>get\<close> runs at the first use; \<open>do_start\<close> is \<open>noexcept\<close>.\<close>

definition win_signal_construct :: "int option \<Rightarrow> error + win_signal" where
  "win_signal_construct create_event =
     (case create_event of Some e \<Rightarrow> Inl (SystemError e) | None \<Rightarrow> Inr win_signal_new)"

definition win_get_in_do_start :: "int option \<Rightarrow> error + win_signal" where
  "win_get_in_do_start create_event =
     (case win_signal_construct create_event of Inl _ \<Rightarrow> Inl Terminate | Inr s \<Rightarrow> Inr s)"

text \<open>A step of the waiters of the signal \<open>i\<close>, or of \<open>pop_all\<close> of its list.\<close>

definition ws_set_sig :: "nat \<Rightarrow> signal_sys \<Rightarrow> win_signal \<Rightarrow> win_signal" where
  "ws_set_sig i t s =
     s\<lparr>ws_sig := (ws_sig s)(i := t),
       ws_armed := (ws_armed s)(i := if sl_handler (sg_list t) = sl_handler (sg_list (ws_sig s i)) then ws_armed s i
         else sl_handler (sg_list t))\<rparr>"

text \<open>The delivery of a signal, and the three parts of \<open>signal_handler\<close>: its call, the flag, and \<open>wake_worker\<close>.\<close>

definition ws_raise :: "nat \<Rightarrow> win_signal \<Rightarrow> win_signal" where
  "ws_raise i s =
     s\<lparr>ws_armed := (ws_armed s)(i := False), ws_raised := (ws_raised s)(i := ws_raised s i + 1),
       ws_sig := (ws_sig s)(i := (ws_sig s i)\<lparr>sg_pipe := sg_pipe (ws_sig s i) + 1\<rparr>)\<rparr>"

definition ws_store :: "nat \<Rightarrow> win_signal \<Rightarrow> win_signal" where
  "ws_store i s =
     s\<lparr>ws_raised := (ws_raised s)(i := ws_raised s i - 1), ws_interesting := (ws_interesting s)(i := True),
       ws_setting := ws_setting s + 1\<rparr>"

definition wake_worker :: "win_signal \<Rightarrow> win_signal" where
  "wake_worker s = s\<lparr>ws_event := True\<rparr>"

text \<open>The destructor asks the watchdog to stop; its \<open>wake_worker\<close> comes later.\<close>

definition ws_request_stop :: "win_signal \<Rightarrow> win_signal" where
  "ws_request_stop s = s\<lparr>ws_stop := True, ws_setting := ws_setting s + 1\<rparr>"

definition ws_scan :: "nat \<Rightarrow> win_signal \<Rightarrow> win_signal" where
  "ws_scan i s =
     (if i < valid_signal_count then
        if ws_interesting s i then s\<lparr>ws_interesting := (ws_interesting s)(i := False), ws_worker := WkReset i\<rparr>
        else s\<lparr>ws_worker := WkScan (i + 1)\<rparr>
      else s\<lparr>ws_worker := WkCheck\<rparr>)"

definition ws_dispatch_signal :: "nat \<Rightarrow> win_signal \<Rightarrow> win_signal" where
  "ws_dispatch_signal i s =
     s\<lparr>ws_armed := (ws_armed s)(i := False), ws_worker := WkDispatch i,
       ws_sig := (ws_sig s)(i := (ws_sig s i)\<lparr>sg_pipe := sg_pipe (ws_sig s i) - 1,
         sg_list := (sg_list (ws_sig s i))\<lparr>sl_handler := False\<rparr>, sg_watchdog := WdTake\<rparr>)\<rparr>"

inductive win_step :: "win_signal \<Rightarrow> win_signal \<Rightarrow> bool" where
  waiter: "i < valid_signal_count \<Longrightarrow> sg_step Win32 (valid_signals ! i) (ws_sig s i) t \<Longrightarrow>
    sg_pipe t = sg_pipe (ws_sig s i) \<Longrightarrow> win_step s (ws_set_sig i t s)"
| deliver: "i < valid_signal_count \<Longrightarrow> ws_armed s i \<Longrightarrow> win_step s (ws_raise i s)"
| store: "0 < ws_raised s i \<Longrightarrow> win_step s (ws_store i s)"
| set_event: "0 < ws_setting s \<Longrightarrow> win_step s (wake_worker (s\<lparr>ws_setting := ws_setting s - 1\<rparr>))"
| destroy: "win_step s (ws_request_stop s)"
| check: "ws_worker s = WkCheck \<Longrightarrow> win_step s (s\<lparr>ws_worker := (if ws_stop s then WkExit else WkWait)\<rparr>)"
| waited: "ws_worker s = WkWait \<Longrightarrow> ws_event s \<Longrightarrow> win_step s (s\<lparr>ws_event := False, ws_worker := WkScan 0\<rparr>)"
| scan: "ws_worker s = WkScan i \<Longrightarrow> win_step s (ws_scan i s)"
| dispatch: "ws_worker s = WkReset i \<Longrightarrow> win_step s (ws_dispatch_signal i s)"
| dispatched: "ws_worker s = WkDispatch i \<Longrightarrow> sg_watchdog (ws_sig s i) = WdPoll \<Longrightarrow>
    win_step s (s\<lparr>ws_worker := WkScan (i + 1)\<rparr>)"

inductive win_reachable :: "win_signal \<Rightarrow> bool" where
  new: "win_reachable win_signal_new"
| step: "win_reachable s \<Longrightarrow> win_step s t \<Longrightarrow> win_reachable t"

section \<open>Nothing is lost\<close>

definition ws_pending :: "nat \<Rightarrow> win_signal \<Rightarrow> nat" where
  "ws_pending i s =
     ws_raised s i + (if ws_interesting s i then 1 else 0) + (if ws_worker s = WkReset i then 1 else 0)"

text \<open>The watchdog will look at the flag \<open>i\<close> before it waits again.\<close>

definition ws_before :: "nat \<Rightarrow> worker_pc \<Rightarrow> bool" where
  "ws_before i w = (case w of WkScan j \<Rightarrow> j \<le> i | WkReset j \<Rightarrow> j < i | WkDispatch j \<Rightarrow> j < i | _ \<Rightarrow> False)"

definition ws_waking :: "win_signal \<Rightarrow> bool" where
  "ws_waking s \<longleftrightarrow> ws_event s \<or> 0 < ws_setting s"

definition ws_sig_ok :: "nat \<Rightarrow> win_signal \<Rightarrow> bool" where
  "ws_sig_ok i s \<longleftrightarrow>
     sg_reachable Win32 (valid_signals ! i) (ws_sig s i) \<and>
     ws_pending i s \<le> sg_pipe (ws_sig s i) \<and>
     (ws_armed s i \<longrightarrow> sl_handler (sg_list (ws_sig s i))) \<and>
     (sl_handler (sg_list (ws_sig s i)) \<longrightarrow> ws_armed s i \<or> 0 < ws_pending i s) \<and>
     (sg_watchdog (ws_sig s i) \<noteq> WdPoll \<longrightarrow> ws_worker s = WkDispatch i) \<and>
     (ws_interesting s i \<longrightarrow> ws_waking s \<or> ws_before i (ws_worker s))"

definition ws_worker_ok :: "win_signal \<Rightarrow> bool" where
  "ws_worker_ok s \<longleftrightarrow>
     (case ws_worker s of WkReset i \<Rightarrow> i < valid_signal_count | WkDispatch i \<Rightarrow> i < valid_signal_count
      | WkWait \<Rightarrow> ws_stop s \<longrightarrow> ws_waking s | _ \<Rightarrow> True)"

definition win_inv :: "win_signal \<Rightarrow> bool" where
  "win_inv s \<longleftrightarrow> (\<forall>i < valid_signal_count. ws_sig_ok i s) \<and> ws_worker_ok s"

text \<open>A step that leaves the pipe alone does not start the watchdog.\<close>

lemma sg_step_keeps_poll:
  "sg_step os signum s t \<Longrightarrow> sg_pipe t = sg_pipe s \<Longrightarrow> sg_watchdog s = WdPoll \<Longrightarrow> sg_watchdog t = WdPoll"
  by (induction rule: sg_step.induct)
     (auto simp: sg_do_start_def sg_finish_def sg_start_do_cancel_def sg_do_cancel_def sg_set_op_def split: prod.splits)

lemma win_inv_new: "win_inv win_signal_new"
proof -
  have "sg_pipe sg_new = 0 \<and> \<not> sl_handler (sg_list sg_new) \<and> sg_watchdog sg_new = WdPoll" by (simp add: sg_new_def sl_new_def)
  then show ?thesis
    by (simp add: win_inv_def win_signal_new_def ws_sig_ok_def ws_worker_ok_def ws_pending_def sg_reachable.new)
qed

lemma ws_waiter_ok:
  assumes ok: "ws_sig_ok j s" and i: "sg_step Win32 (valid_signals ! i) (ws_sig s i) t" "sg_pipe t = sg_pipe (ws_sig s i)"
  shows "ws_sig_ok j (ws_set_sig i t s)"
proof (cases "j = i")
  case True
  have "sg_reachable Win32 (valid_signals ! i) t" using ok i(1) True by (auto simp: ws_sig_ok_def intro: sg_reachable.step)
  moreover have "sg_watchdog t \<noteq> WdPoll \<longrightarrow> ws_worker s = WkDispatch i"
    using sg_step_keeps_poll [OF i] ok True by (auto simp: ws_sig_ok_def)
  ultimately show ?thesis
    using ok i(2) True by (auto simp: ws_sig_ok_def ws_set_sig_def ws_pending_def ws_waking_def)
next
  case False
  then show ?thesis using ok by (simp add: ws_sig_ok_def ws_set_sig_def ws_pending_def ws_waking_def)
qed

lemma ws_raise_ok:
  assumes ok: "ws_sig_ok j s" and i: "i < valid_signal_count" "ws_armed s i"
  shows "ws_sig_ok j (ws_raise i s)"
proof (cases "j = i")
  case True
  have "sl_handler (sg_list (ws_sig s i))" using ok i(2) True by (simp add: ws_sig_ok_def)
  then have "sg_step Win32 (valid_signals ! i) (ws_sig s i) ((ws_sig s i)\<lparr>sg_pipe := sg_pipe (ws_sig s i) + 1\<rparr>)"
    by (rule sg_step.signal_handler)
  then have "sg_reachable Win32 (valid_signals ! i) ((ws_sig s i)\<lparr>sg_pipe := sg_pipe (ws_sig s i) + 1\<rparr>)"
    using ok True by (auto simp: ws_sig_ok_def intro: sg_reachable.step)
  then show ?thesis using ok True by (auto simp: ws_sig_ok_def ws_raise_def ws_pending_def ws_waking_def)
next
  case False
  then show ?thesis using ok by (simp add: ws_sig_ok_def ws_raise_def ws_pending_def ws_waking_def)
qed

lemma ws_store_ok: "ws_sig_ok j s \<Longrightarrow> 0 < ws_raised s i \<Longrightarrow> ws_sig_ok j (ws_store i s)"
  by (cases "j = i") (auto simp: ws_sig_ok_def ws_store_def ws_pending_def ws_waking_def)

lemma ws_scan_ok: "ws_sig_ok j s \<Longrightarrow> ws_worker s = WkScan i \<Longrightarrow> j < valid_signal_count \<Longrightarrow> ws_sig_ok j (ws_scan i s)"
  by (cases "j = i"; cases "ws_interesting s i")
     (auto simp: ws_sig_ok_def ws_scan_def ws_pending_def ws_waking_def ws_before_def Suc_le_eq)

lemma ws_dispatch_ok:
  assumes ok: "ws_sig_ok j s" and w: "ws_worker s = WkReset i"
  shows "ws_sig_ok j (ws_dispatch_signal i s)"
proof (cases "j = i")
  case True
  let ?t = "(ws_sig s i)\<lparr>sg_pipe := sg_pipe (ws_sig s i) - 1, sg_list := (sg_list (ws_sig s i))\<lparr>sl_handler := False\<rparr>, sg_watchdog := WdTake\<rparr>"
  have "sg_watchdog (ws_sig s i) = WdPoll" using ok w True by (auto simp: ws_sig_ok_def)
  moreover have "0 < sg_pipe (ws_sig s i)" using ok w True by (simp add: ws_sig_ok_def ws_pending_def)
  ultimately have "sg_step Win32 (valid_signals ! i) (ws_sig s i) ?t" by (rule sg_step.dispatch)
  then have "sg_reachable Win32 (valid_signals ! i) ?t" using ok True by (auto simp: ws_sig_ok_def intro: sg_reachable.step)
  then show ?thesis
    using ok w True by (auto simp: ws_sig_ok_def ws_dispatch_signal_def ws_pending_def ws_waking_def ws_before_def)
next
  case False
  then show ?thesis
    using ok w by (auto simp: ws_sig_ok_def ws_dispatch_signal_def ws_pending_def ws_waking_def ws_before_def)
qed

lemma ws_dispatched_ok:
  "ws_sig_ok j s \<Longrightarrow> ws_worker s = WkDispatch i \<Longrightarrow> sg_watchdog (ws_sig s i) = WdPoll \<Longrightarrow>
   ws_sig_ok j (s\<lparr>ws_worker := WkScan (i + 1)\<rparr>)"
  by (cases "j = i") (auto simp: ws_sig_ok_def ws_pending_def ws_waking_def ws_before_def)

lemma ws_set_event_ok: "ws_sig_ok j s \<Longrightarrow> ws_sig_ok j (wake_worker (s\<lparr>ws_setting := n\<rparr>))"
  by (auto simp: ws_sig_ok_def wake_worker_def ws_pending_def ws_waking_def)

lemma ws_request_stop_ok: "ws_sig_ok j s \<Longrightarrow> ws_sig_ok j (ws_request_stop s)"
  by (auto simp: ws_sig_ok_def ws_request_stop_def ws_pending_def ws_waking_def)

lemma ws_check_ok:
  "ws_sig_ok j s \<Longrightarrow> ws_worker s = WkCheck \<Longrightarrow> ws_sig_ok j (s\<lparr>ws_worker := (if ws_stop s then WkExit else WkWait)\<rparr>)"
  by (auto simp: ws_sig_ok_def ws_pending_def ws_waking_def ws_before_def)

lemma ws_waited_ok:
  "ws_sig_ok j s \<Longrightarrow> ws_worker s = WkWait \<Longrightarrow> ws_sig_ok j (s\<lparr>ws_event := False, ws_worker := WkScan 0\<rparr>)"
  by (auto simp: ws_sig_ok_def ws_pending_def ws_waking_def ws_before_def)

lemmas ws_step_ok = ws_waiter_ok ws_raise_ok ws_store_ok ws_scan_ok ws_dispatch_ok ws_dispatched_ok ws_set_event_ok
  ws_request_stop_ok ws_check_ok ws_waited_ok

lemma ws_worker_frame:
  "ws_worker t = ws_worker s \<Longrightarrow> ws_stop t = ws_stop s \<Longrightarrow> ws_waking t = ws_waking s \<Longrightarrow> ws_worker_ok t = ws_worker_ok s"
  by (simp add: ws_worker_ok_def split: worker_pc.split)

lemma ws_worker_frame_simps: "ws_worker_ok (ws_set_sig i t s) = ws_worker_ok s" "ws_worker_ok (ws_raise i s) = ws_worker_ok s"
  by (rule ws_worker_frame; simp add: ws_set_sig_def ws_raise_def ws_waking_def)+

lemma win_step_inv: "win_step s t \<Longrightarrow> win_inv s \<Longrightarrow> win_inv t"
proof (induction rule: win_step.induct)
  case (waiter i s t)
  then show ?case by (auto simp: win_inv_def intro!: ws_waiter_ok) (simp add: ws_worker_frame_simps)
next
  case (deliver i s)
  then show ?case by (auto simp: win_inv_def intro!: ws_raise_ok) (simp add: ws_worker_frame_simps)
next
  case (store s i)
  then show ?case
    by (auto simp: win_inv_def intro!: ws_store_ok) (auto simp: ws_worker_ok_def ws_store_def ws_waking_def split: worker_pc.splits)
next
  case (set_event s)
  then show ?case
    by (auto simp: win_inv_def intro!: ws_set_event_ok)
       (auto simp: ws_worker_ok_def wake_worker_def ws_waking_def split: worker_pc.splits)
next
  case (destroy s)
  then show ?case
    by (auto simp: win_inv_def intro!: ws_request_stop_ok)
       (auto simp: ws_worker_ok_def ws_request_stop_def ws_waking_def split: worker_pc.splits)
next
  case (check s)
  then show ?case using ws_check_ok [of _ s] by (simp add: win_inv_def ws_worker_ok_def)
next
  case (waited s)
  then show ?case using ws_waited_ok [of _ s] by (simp add: win_inv_def ws_worker_ok_def)
next
  case (scan s i)
  then show ?case using ws_scan_ok [of _ s i] by (auto simp: win_inv_def ws_worker_ok_def ws_scan_def)
next
  case (dispatch s i)
  then show ?case
    using ws_dispatch_ok [of _ s i] by (auto simp: win_inv_def ws_worker_ok_def ws_dispatch_signal_def)
next
  case (dispatched s i)
  then show ?case using ws_dispatched_ok [of _ s i] by (simp add: win_inv_def ws_worker_ok_def)
qed

lemma win_reachable_inv: "win_reachable s \<Longrightarrow> win_inv s"
  by (induction rule: win_reachable.induct) (auto intro: win_inv_new win_step_inv)

lemma valid_signals_pos: "i < valid_signal_count \<Longrightarrow> 0 < valid_signals ! i"
  by (auto simp: valid_signal_count_def valid_signals_def less_Suc_eq)

lemma signal_index_found: "win_available_signal n \<Longrightarrow> valid_signals ! signal_index n = n"
  by (auto simp: win_available_signal_def signal_index_def valid_signal_count_def valid_signals_def split: if_splits)

section \<open>Properties\<close>

text \<open>C36. A signal is never lost on Windows. When the watchdog waits for an event that nobody is going to set, and no handler
of the signal is on its way, no flag is set and the watchdog was not asked to stop; and a waiter whose \<open>start\<close> has returned and
whose canceller is not in the middle of its work has been completed, or it is in the list, was not cancelled, the signal
was not delivered before and its handler is installed.\<close>

theorem win_signal_no_lost_waiter:
  assumes "win_reachable s" and "win_available_signal signum" and "ws_worker s = WkWait" and "\<not> ws_event s" and "ws_setting s = 0"
    and "ws_raised s (signal_index signum) = 0" and "os_start (sg_ops (ws_sig s (signal_index signum)) a) = SDone"
    and "os_cancel (sg_ops (ws_sig s (signal_index signum)) a) \<in> {CIdle, CDone}"
  shows "\<not> ws_stop s \<and> (\<forall>i \<in> {..<valid_signal_count}. \<not> ws_interesting s i) \<and>
    valid_signals ! signal_index signum = signum \<and>
    (if os_registered (sg_ops (ws_sig s (signal_index signum)) a) then
       ws_armed s (signal_index signum) \<and> sl_head (sg_list (ws_sig s (signal_index signum))) \<noteq> SlPtr None \<and>
       os_cancel (sg_ops (ws_sig s (signal_index signum)) a) = CIdle
     else os_posts (sg_ops (ws_sig s (signal_index signum)) a) = 1)"
proof -
  let ?i = "signal_index signum"
  have i: "?i < valid_signal_count" using assms(2) by (simp add: win_available_signal_def)
  have inv: "win_inv s" by (rule win_reachable_inv [OF assms(1)])
  then have ok: "\<And>j. j < valid_signal_count \<Longrightarrow> ws_sig_ok j s" by (simp add: win_inv_def)
  have quiet: "\<not> ws_waking s" using assms(4,5) by (simp add: ws_waking_def)
  have flags: "\<not> ws_interesting s j" if "j < valid_signal_count" for j
    using ok [OF that] quiet assms(3) by (simp add: ws_sig_ok_def ws_before_def)
  have stop: "\<not> ws_stop s" using inv quiet assms(3) by (simp add: win_inv_def ws_worker_ok_def)
  have poll: "sg_watchdog (ws_sig s ?i) = WdPoll" using ok [OF i] assms(3) by (auto simp: ws_sig_ok_def)
  have reach: "sg_reachable Win32 (valid_signals ! ?i) (ws_sig s ?i)" using ok [OF i] by (simp add: ws_sig_ok_def)
  have armed: "sl_handler (sg_list (ws_sig s ?i)) \<Longrightarrow> ws_armed s ?i"
    using ok [OF i] assms(3,6) flags [OF i] by (auto simp: ws_sig_ok_def ws_pending_def)
  show ?thesis
    using sg_no_lost_waiter [OF reach valid_signals_pos [OF i] poll assms(7,8)] armed stop flags signal_index_found [OF assms(2)] by (auto split: if_splits)
qed

text \<open>A waiter for \<open>SIGINT\<close>, the watchdog waiting.\<close>

definition win_waiting_demo :: win_signal where
  "win_waiting_demo =
     (let s0 = win_signal_new\<lparr>ws_worker := WkWait\<rparr>;
          s1 = ws_set_sig 3 (sg_set_op 3 (op_new\<lparr>os_start := SDoStart\<rparr>) sg_new) s0;
          s2 = ws_set_sig 3 (sg_do_start 2 None 3 (ws_sig s1 3)) s1
      in ws_set_sig 3 (sg_set_op 3 (op_arm (sg_ops (ws_sig s2 3) 3)) (ws_sig s2 3)) s2)"

lemma win_waiting_demo_reachable: "win_reachable win_waiting_demo"
proof -
  define s0 where "s0 = win_signal_new\<lparr>ws_worker := WkWait\<rparr>"
  define t1 where "t1 = sg_set_op 3 (op_new\<lparr>os_start := SDoStart\<rparr>) sg_new"
  define t2 where "t2 = sg_do_start 2 None 3 t1"
  define t3 where "t3 = sg_set_op 3 (op_arm (sg_ops t2 3)) t2"
  define s1 where "s1 = ws_set_sig 3 t1 s0"
  define s2 where "s2 = ws_set_sig 3 t2 s1"
  have i: "3 < valid_signal_count" "valid_signals ! 3 = 2" by (simp_all add: valid_signal_count_def valid_signals_def)
  have sig: "ws_sig s0 3 = sg_new" "ws_sig s1 3 = t1" "ws_sig s2 3 = t2"
    by (simp_all add: s0_def s1_def s2_def win_signal_new_def ws_set_sig_def)
  have "win_step win_signal_new s0" using win_step.check [of win_signal_new] by (simp add: s0_def win_signal_new_def)
  moreover have "sg_step Win32 2 sg_new t1"
    using sg_step.local [of sg_new 3 "op_new\<lparr>os_start := SDoStart\<rparr>"] sg_local.start [of op_new]
    by (simp add: t1_def sg_new_def op_new_def)
  then have "win_step s0 s1"
    unfolding s1_def using win_step.waiter [of 3 s0 t1] i sig by (simp add: t1_def sg_set_op_def)
  moreover have "sg_step Win32 2 t1 t2" unfolding t2_def by (rule sg_step.do_start) (simp_all add: t1_def sg_set_op_def)
  then have "win_step s1 s2"
    unfolding s2_def using win_step.waiter [of 3 s1 t2] i sig
    by (simp add: t2_def sg_do_start_def sg_set_op_def split: prod.splits)
  moreover have "sg_step Win32 2 t2 t3" unfolding t3_def
    by (rule sg_step.local, rule sg_local.arm) (simp add: t2_def t1_def sg_set_op_def sg_demo_simps)
  then have "win_step s2 (ws_set_sig 3 t3 s2)"
    using win_step.waiter [of 3 s2 t3] i sig by (simp add: t3_def sg_set_op_def)
  moreover have "win_waiting_demo = ws_set_sig 3 t3 s2"
    unfolding win_waiting_demo_def Let_def s0_def [symmetric] t1_def [symmetric] s1_def [symmetric] sig t2_def [symmetric]
      s2_def [symmetric] t3_def [symmetric] ..
  ultimately show ?thesis by (metis win_reachable.intros)
qed

lemma win_demo_index: "signal_index 2 = 3"
  by (simp add: signal_index_def valid_signals_def)

theorem win_signal_no_lost_waiter_witness:
  "ws_armed win_waiting_demo 3 \<and> sl_head (sg_list (ws_sig win_waiting_demo 3)) \<noteq> SlPtr None \<and> \<not> ws_stop win_waiting_demo"
proof -
  have "win_available_signal 2" by (simp add: win_available_signal_def win_demo_index valid_signal_count_def valid_signals_def)
  moreover have "ws_worker win_waiting_demo = WkWait" "\<not> ws_event win_waiting_demo" "ws_setting win_waiting_demo = 0"
    "ws_raised win_waiting_demo 3 = 0"
    by (simp_all add: win_waiting_demo_def Let_def ws_set_sig_def win_signal_new_def)
  moreover have "os_start (sg_ops (ws_sig win_waiting_demo 3) 3) = SDone" "os_cancel (sg_ops (ws_sig win_waiting_demo 3) 3) \<in> {CIdle, CDone}"
    "os_registered (sg_ops (ws_sig win_waiting_demo 3) 3)"
    by (simp_all add: win_waiting_demo_def ws_set_sig_def win_signal_new_def sg_set_op_def sg_demo_simps)
  ultimately show ?thesis
    using win_signal_no_lost_waiter [OF win_waiting_demo_reachable, of 2 3] by (simp add: win_demo_index)
qed

end
