(* ===== verification/Io_Senders.thy ===== *)
theory Io_Senders
  imports Io_Frontend Uring_Context
begin

text \<open>
  The asynchronous members of I/O objects, sockets and files: the senders of \<open>include/coio/asyncio/epoll_context.h\<close> and
  \<open>uring_context.h\<close> (\<open>async_initiate\<close>, \<open>io_sender\<close>), and what \<open>include/coio/net/socket.h\<close> and \<open>include/coio/asyncio/file.h\<close>
  build from them.

  A sender keeps the descriptor and the entry that its object had; connecting it moves them into the operation, whose
  \<open>do_start\<close> and \<open>perform\<close> are those of \<open>Epoll_Io\<close> and \<open>Uring_Context\<close>. \<open>stop_when\<close> only adds the token of the context to that
  of the receiver (\<open>Stop_Token\<close>) and is left out. \<open>then\<close> and \<open>let_value\<close> of \<open>std::execution\<close> complete with
  \<open>set_error(std::exception_ptr)\<close> when the function throws: \<open>CompException\<close>.
\<close>

section \<open>Completions\<close>

datatype 'v io_completion = CompValue 'v | CompError error | CompException error | CompStopped

definition completion_of :: "'v receiver_call \<Rightarrow> 'v io_completion" where
  "completion_of call = (case call of SetValue v \<Rightarrow> CompValue v | SetError e \<Rightarrow> CompError e | SetStopped \<Rightarrow> CompStopped)"

section \<open>Senders of the epoll backend\<close>

record io_sender =
  sd_fd :: int
  sd_context :: bool
  sd_data :: ptr
  sd_request :: io_request

record io_operation =
  ao_fd :: int
  ao_data :: ptr
  ao_request :: io_request
  ao_result :: io_result

text \<open>Every \<open>io_object\<close> has a context; it is the sender that loses its own.\<close>

definition async_initiate :: "io_request \<Rightarrow> io_object \<Rightarrow> io_sender" where
  "async_initiate q ob = \<lparr>sd_fd = ob_fd ob, sd_context = True, sd_data = ob_data ob, sd_request = q\<rparr>"

definition io_object_async_receive :: "nat \<Rightarrow> io_object \<Rightarrow> io_sender" where
  "io_object_async_receive n ob = async_initiate (Receive n (ob_stream ob)) ob"

definition io_object_async_send :: "byte list \<Rightarrow> io_object \<Rightarrow> io_sender" where
  "io_object_async_send bs ob = async_initiate (Send bs) ob"

definition io_object_async_receive_from :: "nat \<Rightarrow> io_object \<Rightarrow> io_sender" where
  "io_object_async_receive_from n ob = async_initiate (ReceiveFrom n) ob"

definition io_object_async_send_to :: "byte list \<Rightarrow> endpoint \<Rightarrow> io_object \<Rightarrow> io_sender" where
  "io_object_async_send_to bs dest ob = async_initiate (SendTo bs dest) ob"

definition io_object_async_accept :: "io_object \<Rightarrow> io_sender" where
  "io_object_async_accept ob = async_initiate Accept ob"

definition io_object_async_connect :: "endpoint \<Rightarrow> io_object \<Rightarrow> io_sender" where
  "io_object_async_connect peer ob = async_initiate (Connect peer) ob"

definition io_object_async_read_some :: "nat \<Rightarrow> io_object \<Rightarrow> io_sender" where
  "io_object_async_read_some n ob = async_initiate (ReadSome n) ob"

definition io_object_async_write_some :: "byte list \<Rightarrow> io_object \<Rightarrow> io_sender" where
  "io_object_async_write_some bs ob = async_initiate (WriteSome bs) ob"

text \<open>The constructors of \<open>epoll_node_for\<close> and of \<open>epoll_state_base_for\<close> for all tags.\<close>

definition io_operation_new :: "int \<Rightarrow> ptr \<Rightarrow> io_request \<Rightarrow> io_operation" where
  "io_operation_new fd data q = \<lparr>ao_fd = fd, ao_data = data, ao_request = q, ao_result = ResultNone\<rparr>"

definition io_sender_connect :: "io_sender \<Rightarrow> error + (io_operation \<times> io_sender)" where
  "io_sender_connect sd =
     (if \<not> sd_context sd then Inl AssertFailed
      else Inr (io_operation_new (sd_fd sd) (sd_data sd) (sd_request sd),
        sd\<lparr>sd_fd := - 1, sd_context := False, sd_data := None\<rparr>))"

definition io_operation_start ::
  "(per_fd_data \<times> 'k) sys_calls \<Rightarrow> bool \<Rightarrow> 'k epoll_ctl \<Rightarrow> addr \<Rightarrow> io_operation \<Rightarrow> per_fd_data \<times> 'k \<Rightarrow>
   (per_fd_data \<times> 'k) ep_started" where
  "io_operation_start c le ctl a oper = io_do_start c le (ep_reg ctl a) (ao_fd oper) (ao_request oper) (ao_result oper)"

definition io_operation_perform ::
  "(per_fd_data \<times> 'k) sys_calls \<Rightarrow> bool \<Rightarrow> io_operation \<Rightarrow> per_fd_data \<times> 'k \<Rightarrow>
   (error + (bool \<times> io_result)) \<times> per_fd_data \<times> 'k" where
  "io_operation_perform c le oper = io_perform c le (ao_fd oper) (ao_request oper) (ao_result oper)"

definition io_operation_finish :: "io_operation \<Rightarrow> io_value io_completion" where
  "io_operation_finish oper = completion_of (result_forward_to (ao_result oper))"

section \<open>Senders of the io_uring backend\<close>

record uring_sender =
  us_fd :: int
  us_context :: bool
  us_request :: uring_request

definition uring_async_initiate :: "uring_request \<Rightarrow> uring_object \<Rightarrow> uring_sender" where
  "uring_async_initiate q ob = \<lparr>us_fd = uo_fd ob, us_context = True, us_request = q\<rparr>"

definition uring_async_receive :: "nat \<Rightarrow> uring_object \<Rightarrow> uring_sender" where
  "uring_async_receive n ob = uring_async_initiate (Plain (Receive n (uo_stream ob))) ob"

definition uring_async_send :: "byte list \<Rightarrow> uring_object \<Rightarrow> uring_sender" where
  "uring_async_send bs ob = uring_async_initiate (Plain (Send bs)) ob"

definition uring_async_receive_from :: "nat \<Rightarrow> uring_object \<Rightarrow> uring_sender" where
  "uring_async_receive_from n ob = uring_async_initiate (Plain (ReceiveFrom n)) ob"

definition uring_async_send_to :: "byte list \<Rightarrow> endpoint \<Rightarrow> uring_object \<Rightarrow> uring_sender" where
  "uring_async_send_to bs dest ob = uring_async_initiate (Plain (SendTo bs dest)) ob"

definition uring_async_accept :: "uring_object \<Rightarrow> uring_sender" where
  "uring_async_accept ob = uring_async_initiate (Plain Accept) ob"

definition uring_async_connect :: "endpoint \<Rightarrow> uring_object \<Rightarrow> uring_sender" where
  "uring_async_connect peer ob = uring_async_initiate (Plain (Connect peer)) ob"

definition uring_async_read_some :: "nat \<Rightarrow> uring_object \<Rightarrow> uring_sender" where
  "uring_async_read_some n ob = uring_async_initiate (Plain (ReadSome n)) ob"

definition uring_async_write_some :: "byte list \<Rightarrow> uring_object \<Rightarrow> uring_sender" where
  "uring_async_write_some bs ob = uring_async_initiate (Plain (WriteSome bs)) ob"

definition uring_async_read_some_at :: "size_t \<Rightarrow> nat \<Rightarrow> uring_object \<Rightarrow> uring_sender" where
  "uring_async_read_some_at offset n ob = uring_async_initiate (ReadSomeAt offset n) ob"

definition uring_async_write_some_at :: "size_t \<Rightarrow> byte list \<Rightarrow> uring_object \<Rightarrow> uring_sender" where
  "uring_async_write_some_at offset bs ob = uring_async_initiate (WriteSomeAt offset bs) ob"

text \<open>Connecting makes the operation \<open>op\<close> of the context.\<close>

definition uring_sender_connect ::
  "addr \<Rightarrow> uring_sender \<Rightarrow> 'k uring_context \<Rightarrow> error + (int \<times> uring_sender \<times> 'k uring_context)" where
  "uring_sender_connect op sd c =
     (if \<not> us_context sd then Inl AssertFailed
      else Inr (us_fd sd, sd\<lparr>us_fd := - 1, us_context := False\<rparr>,
        c\<lparr>uc_request := (uc_request c)(op := us_request sd), uc_result := (uc_result c)(op := ResultNone)\<rparr>))"

definition uring_operation_finish :: "addr \<Rightarrow> 'k uring_context \<Rightarrow> io_value io_completion" where
  "uring_operation_finish op c = completion_of (result_forward_to (uc_result c op))"

section \<open>Sockets and files\<close>

definition stream_socket_async_read_some :: "nat \<Rightarrow> io_object \<Rightarrow> io_sender" where
  "stream_socket_async_read_some n ob = io_object_async_receive n ob"

definition stream_socket_async_write_some :: "byte list \<Rightarrow> io_object \<Rightarrow> io_sender" where
  "stream_socket_async_write_some bs ob = io_object_async_send bs ob"

definition stream_socket_async_receive :: "nat \<Rightarrow> io_object \<Rightarrow> io_sender" where
  "stream_socket_async_receive n ob = stream_socket_async_read_some n ob"

definition stream_socket_async_send :: "byte list \<Rightarrow> io_object \<Rightarrow> io_sender" where
  "stream_socket_async_send bs ob = stream_socket_async_write_some bs ob"

definition datagram_async_receive :: "nat \<Rightarrow> io_object \<Rightarrow> io_sender" where
  "datagram_async_receive n ob = io_object_async_receive n ob"

definition datagram_async_send :: "byte list \<Rightarrow> io_object \<Rightarrow> io_sender" where
  "datagram_async_send bs ob = io_object_async_send bs ob"

definition datagram_async_receive_from :: "nat \<Rightarrow> io_object \<Rightarrow> io_sender" where
  "datagram_async_receive_from n ob = io_object_async_receive_from n ob"

definition datagram_async_send_to :: "byte list \<Rightarrow> endpoint \<Rightarrow> io_object \<Rightarrow> io_sender" where
  "datagram_async_send_to bs peer ob = io_object_async_send_to bs peer ob"

text \<open>Files live on io_uring.\<close>

definition stream_file_async_read_some :: "nat \<Rightarrow> uring_object \<Rightarrow> uring_sender" where
  "stream_file_async_read_some n ob = uring_async_read_some n ob"

definition stream_file_async_write_some :: "byte list \<Rightarrow> uring_object \<Rightarrow> uring_sender" where
  "stream_file_async_write_some bs ob = uring_async_write_some bs ob"

definition random_access_file_async_read_some_at :: "size_t \<Rightarrow> nat \<Rightarrow> uring_object \<Rightarrow> uring_sender" where
  "random_access_file_async_read_some_at offset n ob = uring_async_read_some_at offset n ob"

definition random_access_file_async_write_some_at :: "size_t \<Rightarrow> byte list \<Rightarrow> uring_object \<Rightarrow> uring_sender" where
  "random_access_file_async_write_some_at offset bs ob = uring_async_write_some_at offset bs ob"

text \<open>The constructor with a handle, and the assignment of a whole socket or file, by value: the old object is destroyed with
  the parameter.\<close>

definition socket_of_handle :: "'k sys_calls \<Rightarrow> ptr \<Rightarrow> int \<Rightarrow> 'k epoll_context \<Rightarrow> (error + io_object) \<times> 'k epoll_context" where
  "socket_of_handle s fresh handle c = io_object_new s fresh handle c"

definition socket_assign ::
  "(int \<Rightarrow> 'k \<Rightarrow> 'k) \<Rightarrow> 'k sys_calls \<Rightarrow> io_object \<Rightarrow> io_object \<Rightarrow> 'k epoll_context \<Rightarrow>
   (error + io_object) \<times> 'k epoll_context" where
  "socket_assign del s ob other c =
     (case io_object_swap ob other of
        (ob, other) \<Rightarrow>
          (case io_object_destroy del s other c of (Inl t, c) \<Rightarrow> (Inl t, c) | (Inr _, c) \<Rightarrow> (Inr ob, c)))"

text \<open>\<open>accept(peer)\<close>: \<open>peer\<close> is a socket of the same context.\<close>

definition acceptor_accept_into ::
  "(int \<Rightarrow> 'k \<Rightarrow> 'k) \<Rightarrow> 'k sys_calls \<Rightarrow> ptr \<Rightarrow> io_object \<Rightarrow> (io_object, 'k) object_op" where
  "acceptor_accept_into del s fresh peer =
     ob_bind (acceptor_accept s fresh)
       (\<lambda>new (ob, c). case socket_assign del s peer new c of (r, c) \<Rightarrow> Some (r, (ob, c)))"

text \<open>The function that \<open>async_accept\<close> gives to \<open>then\<close>, for a new socket and for an existing one; \<open>c\<close> is the context of the
  scheduler of that socket. The assignment is \<open>noexcept\<close>: its \<^const>\<open>Terminate\<close> is the end of the program.\<close>

definition accepted_socket ::
  "'k sys_calls \<Rightarrow> ptr \<Rightarrow> io_value io_completion \<Rightarrow> 'k epoll_context \<Rightarrow> io_object io_completion \<times> 'k epoll_context" where
  "accepted_socket s fresh call c =
     (case call of
        CompValue v \<Rightarrow>
          (case v of
             VHandle handle \<Rightarrow>
               (case socket_of_handle s fresh handle c of
                  (Inl e, c) \<Rightarrow> (CompException e, c)
                | (Inr ob, c) \<Rightarrow> (CompValue ob, c))
           | _ \<Rightarrow> (CompException InvalidArgument, c))
      | CompError e \<Rightarrow> (CompError e, c)
      | CompException e \<Rightarrow> (CompException e, c)
      | CompStopped \<Rightarrow> (CompStopped, c))"

definition accepted_into ::
  "(int \<Rightarrow> 'k \<Rightarrow> 'k) \<Rightarrow> 'k sys_calls \<Rightarrow> ptr \<Rightarrow> io_object \<Rightarrow> io_value io_completion \<Rightarrow> 'k epoll_context \<Rightarrow>
   io_object io_completion \<times> 'k epoll_context" where
  "accepted_into del s fresh peer call c =
     (case accepted_socket s fresh call c of
        (CompValue new, c) \<Rightarrow>
          (case socket_assign del s peer new c of
             (Inl e, c) \<Rightarrow> (CompException e, c)
           | (Inr ob, c) \<Rightarrow> (CompValue ob, c))
      | (CompError e, c) \<Rightarrow> (CompError e, c)
      | (CompException e, c) \<Rightarrow> (CompException e, c)
      | (CompStopped, c) \<Rightarrow> (CompStopped, c))"

text \<open>The start of \<open>async_connect\<close>: the function of \<open>let_value\<close>, which opens the socket and makes the sender that is connected and
  started next.\<close>

definition socket_async_connect ::
  "(int \<Rightarrow> 'k \<Rightarrow> 'k) \<Rightarrow> 'k sys_calls \<Rightarrow> ptr \<Rightarrow> bool \<Rightarrow> endpoint \<Rightarrow> io_object \<times> 'k epoll_context \<Rightarrow>
   ((unit io_completion + io_sender) \<times> io_object \<times> 'k epoll_context) option" where
  "socket_async_connect del s fresh stream peer st =
     (case basic_socket_ensure_open del s fresh stream peer st of
        None \<Rightarrow> None
      | Some (Inl e, st) \<Rightarrow> Some (Inl (CompException e), st)
      | Some (Inr _, (ob, c)) \<Rightarrow> Some (Inr (io_object_async_connect peer ob), (ob, c)))"

section \<open>Closed objects\<close>

text \<open>An operation of a closed object completes when it is started, without touching the entry or the kernel.\<close>

lemma io_sender_closed:
  assumes "ob_fd ob = - 1" and "io_sender_connect (async_initiate q ob) = Inr (oper, sd)"
  shows "io_operation_start c le ctl a oper w = Some (Inr (ResCompleted, ResultError (SystemError EBADF)), w)"
  using assms by (cases q) (auto simp: io_sender_connect_def async_initiate_def io_operation_new_def io_operation_start_def
      io_do_start_defs ep_completed_def)

lemma uring_sender_closed:
  assumes "uo_fd ob = - 1" and "uring_sender_connect op (uring_async_initiate q ob) c = Inr (fd, sd, c')"
  shows "\<exists>c''. uring_do_start L le fd op c' = Inr (ResCompleted, c'') \<and>
    uring_operation_finish op c'' = CompError (SystemError EBADF) \<and> uc_kernel c'' = uc_kernel c"
  using assms by (auto simp: uring_sender_connect_def uring_async_initiate_def uring_do_start_def uring_set_result_def
      uring_operation_finish_def completion_of_def)

text \<open>A sender is connected once.\<close>

lemma io_sender_once: "io_sender_connect sd = Inr (oper, sd') \<Longrightarrow> io_sender_connect sd' = Inl AssertFailed"
  by (auto simp: io_sender_connect_def split: if_splits)

section \<open>Accepting\<close>

text \<open>What an accept reports when its call is answered, at the start or by the reactor.\<close>

definition accept_result :: "int + int \<Rightarrow> io_result" where
  "accept_result ans = (case ans of Inl e \<Rightarrow> ResultError (SystemError e) | Inr h \<Rightarrow> ResultValue (VHandle h))"

lemma accept_answered:
  assumes "fd \<noteq> - 1" "sc_accept4 c fd True w = (ans, w')" "ans \<noteq> Inl EAGAIN"
  shows "accept_do_start c reg fd ResultNone w = Some (Inr (ResCompleted, accept_result ans), w')"
    and "accept_perform c fd ResultNone w = (Inr (True, accept_result ans), w')"
proof -
  show "accept_do_start c reg fd ResultNone w = Some (Inr (ResCompleted, accept_result ans), w')"
    unfolding accept_do_start_def ep_with_fd_def
    by (subst ep_start_loop.simps, cases ans)
       (use assms in \<open>simp_all add: accept_result_def ep_completed_def is_blocking_errno_def ep_handle_conv_def\<close>)
  show "accept_perform c fd ResultNone w = (Inr (True, accept_result ans), w')"
    using assms by (cases ans) (simp_all add: accept_perform_def ep_perform_def accept_result_def is_blocking_errno_def ep_handle_conv_def)
qed

lemma accepted_socket_cases:
  "case accepted_socket s fresh (completion_of (result_forward_to (accept_result ans))) c of
     (CompValue ob, c') \<Rightarrow> \<exists>h. ans = Inr h \<and> ob_fd ob = h \<and> (if h = - 1 then True else ob_data ob \<noteq> None)
   | (CompException e, c') \<Rightarrow> \<exists>h k. ans = Inr h \<and> ec_kernel c' = snd (sc_close s h k)
   | (CompError e, c') \<Rightarrow> c' = c \<and> (\<exists>n. ans = Inl n \<and> e = SystemError n)
   | (CompStopped, c') \<Rightarrow> False"
proof (cases ans)
  case (Inl n)
  then show ?thesis by (simp add: accept_result_def completion_of_def accepted_socket_def)
next
  case (Inr h)
  obtain r c' where r: "io_object_new s fresh h c = (r, c')" by fastforce
  show ?thesis
  proof (cases r)
    case (Inl e)
    then show ?thesis using Inr r io_object_new_failed [of s fresh h c e c']
      by (simp add: accept_result_def completion_of_def accepted_socket_def socket_of_handle_def)
  next
    case ob: (Inr ob)
    then show ?thesis using Inr r io_object_new_opened [of s fresh h c ob c']
      by (auto simp: accept_result_def completion_of_def accepted_socket_def socket_of_handle_def)
  qed
qed

section \<open>Properties\<close>


text \<open>The connection 7 is accepted and becomes a socket.\<close>

definition acc_demo :: io_object where
  "acc_demo = \<lparr>ob_fd = 3, ob_stream = True, ob_data = Some 1\<rparr>"

definition sys_accepting :: "(per_fd_data \<times> unit) sys_calls" where
  "sys_accepting = sys_none\<lparr>sc_accept4 := (\<lambda>_ _ w. (Inr 7, w))\<rparr>"


text \<open>A socket that \<open>connect\<close> has to open and cannot: the blocking form throws the error of the system, and the asynchronous
form completes with an exception, not with the error code that an asynchronous connect itself reports. In both the socket
stays closed.\<close>

lemma async_connect_open_failure:
  assumes "ob_fd ob = - 1" "sc_socket s (protocol_family (protocol_for stream peer)) (protocol_type (protocol_for stream peer))
      (protocol_id (protocol_for stream peer)) (ec_kernel c) = (Inl n, k)"
  shows "basic_socket_connect del s le fresh stream peer (ob, c) = Some (Inl (SystemError n), (ob, c\<lparr>ec_kernel := k\<rparr>)) \<and>
    socket_async_connect del s fresh stream peer (ob, c) =
      Some (Inl (CompException (SystemError n)), (ob, c\<lparr>ec_kernel := k\<rparr>)) \<and> \<not> ob_is_open ob"
proof -
  have "basic_socket_ensure_open del s fresh stream peer (ob, c) = Some (Inl (SystemError n), (ob, c\<lparr>ec_kernel := k\<rparr>))"
    using assms by (simp add: basic_socket_ensure_open_def ob_is_open_def basic_socket_open_def ob_bind_def ob_native_def
        socket_open_def io_call_def)
  then show ?thesis using assms(1) by (simp add: basic_socket_connect_def ob_bind_def socket_async_connect_def ob_is_open_def)
qed

text \<open>No descriptor is left (\<open>EMFILE\<close>).\<close>

end
