(* ===== verification/Io_Types.thy ===== *)
theory Io_Types
  imports Io_Senders
begin

text \<open>
  The types of the asynchronous operations: the \<open>value_signature\<close> of each tag of \<open>include/coio/detail/io_descriptions.h\<close>, the
  \<open>completion_signatures\<close> that the senders of the Linux backends declare, and that an operation completes with nothing else,
  whatever the kernel answers. An \<open>error_code\<close> is an error of the system or the end of the file; the other errors of the model
  are exceptions and failed assertions.
\<close>

datatype value_signature = SetSize | SetEndpointSize | SetHandle | SetVoid

definition value_signature :: "uring_request \<Rightarrow> value_signature" where
  "value_signature q =
     (case q of
        Plain q \<Rightarrow>
          (case q of
             ReadSome _ \<Rightarrow> SetSize
           | WriteSome _ \<Rightarrow> SetSize
           | Receive _ _ \<Rightarrow> SetSize
           | Send _ \<Rightarrow> SetSize
           | ReceiveFrom _ \<Rightarrow> SetEndpointSize
           | SendTo _ _ \<Rightarrow> SetSize
           | Accept \<Rightarrow> SetHandle
           | Connect _ \<Rightarrow> SetVoid)
      | ReadSomeAt _ _ \<Rightarrow> SetSize
      | WriteSomeAt _ _ \<Rightarrow> SetSize)"

text \<open>The arguments of \<open>set_value\<close>; a size is that of the bytes that were read, or a count.\<close>

definition has_value_signature :: "value_signature \<Rightarrow> io_value \<Rightarrow> bool" where
  "has_value_signature t v =
     (case v of
        VBytes _ \<Rightarrow> t = SetSize
      | VCount _ \<Rightarrow> t = SetSize
      | VDatagram _ _ \<Rightarrow> t = SetEndpointSize
      | VHandle _ \<Rightarrow> t = SetHandle
      | VUnit \<Rightarrow> t = SetVoid)"

definition is_error_code :: "error \<Rightarrow> bool" where
  "is_error_code e = (case e of SystemError _ \<Rightarrow> True | EndOfFile \<Rightarrow> True | _ \<Rightarrow> False)"

definition io_completion_signatures :: "uring_request \<Rightarrow> io_value io_completion \<Rightarrow> bool" where
  "io_completion_signatures q x =
     (case x of
        CompValue v \<Rightarrow> has_value_signature (value_signature q) v
      | CompError e \<Rightarrow> is_error_code e
      | CompStopped \<Rightarrow> True
      | CompException _ \<Rightarrow> False)"

definition result_typed :: "uring_request \<Rightarrow> io_result \<Rightarrow> bool" where
  "result_typed q r \<longleftrightarrow> io_completion_signatures q (completion_of (result_forward_to r))"

lemma result_typed_simps [simp]:
  "result_typed q ResultNone" "result_typed q (ResultError (SystemError n))" "result_typed q (ResultError EndOfFile)"
  "result_typed q (ResultValue v) \<longleftrightarrow> has_value_signature (value_signature q) v"
  by (simp_all add: result_typed_def completion_of_def io_completion_signatures_def is_error_code_def)

section \<open>Results that are set\<close>

text \<open>A change of a result that, when it succeeds, gives a typed one.\<close>

definition sets_typed :: "uring_request \<Rightarrow> (error + io_result) \<Rightarrow> bool" where
  "sets_typed q x = (case x of Inl _ \<Rightarrow> True | Inr r \<Rightarrow> result_typed q r)"

lemma sets_typed_Inl [simp]: "sets_typed q (Inl e)"
  by (simp add: sets_typed_def)

lemma sets_typedD: "sets_typed q (Inr r) \<Longrightarrow> result_typed q r"
  by (simp add: sets_typed_def)

lemma sets_typed_set [simp]:
  "has_value_signature (value_signature q) v \<Longrightarrow> sets_typed q (result_set_value v r)"
  "sets_typed q (result_set_error (SystemError n) r)" "sets_typed q (result_set_error EndOfFile r)"
  "sets_typed q (result_set_stopped r)"
  by (simp_all add: sets_typed_def result_set_value_def result_set_error_def result_set_stopped_def)

lemma has_value_signature_simps [simp]:
  "has_value_signature SetSize (VBytes bs)" "has_value_signature SetSize (VCount n)"
  "has_value_signature SetEndpointSize (VDatagram ep bs)" "has_value_signature SetHandle (VHandle h)"
  "has_value_signature SetVoid VUnit"
  by (simp_all add: has_value_signature_def)

lemma value_signature_simps [simp]:
  "value_signature (Plain (ReadSome n)) = SetSize" "value_signature (Plain (WriteSome bs)) = SetSize"
  "value_signature (Plain (Receive n st)) = SetSize" "value_signature (Plain (Send bs)) = SetSize"
  "value_signature (Plain (ReceiveFrom n)) = SetEndpointSize" "value_signature (Plain (SendTo bs ep)) = SetSize"
  "value_signature (Plain Accept) = SetHandle" "value_signature (Plain (Connect ep)) = SetVoid"
  "value_signature (ReadSomeAt off n) = SetSize" "value_signature (WriteSomeAt off bs) = SetSize"
  by (simp_all add: value_signature_def)

section \<open>The epoll operations\<close>

definition started_typed :: "uring_request \<Rightarrow> (error + (start_result \<times> io_result)) \<times> 'w \<Rightarrow> bool" where
  "started_typed q x = (case fst x of Inl _ \<Rightarrow> True | Inr y \<Rightarrow> result_typed q (snd y))"

lemma started_typed_simps [simp]:
  "started_typed q (Inl e, w)" "started_typed q (Inr (st, r), w) = result_typed q r"
  by (simp_all add: started_typed_def)

lemma started_completed [simp]: "sets_typed q x \<Longrightarrow> started_typed q (ep_completed x, w)"
  by (cases x) (simp_all add: ep_completed_def sets_typed_def)

lemma ep_start_loop_typed:
  "ep_start_loop call reg conv r w = Some x \<Longrightarrow> result_typed q r \<Longrightarrow> \<forall>v. sets_typed q (conv v r) \<Longrightarrow> started_typed q x"
proof (induction rule: ep_start_loop.raw_induct [rotated, consumes 1, case_names 1])
  case (1 loop call reg conv r w x)
  note step = 1(2) and typed = 1(3) and conv = 1(4)
  have IH: "loop call reg conv r w' = Some x \<Longrightarrow> started_typed q x" for w'
    using 1(1) typed conv by blast
  show ?case using step typed conv IH by (auto split: sum.splits if_splits register_result.splits)
qed

lemma connect_start_loop_typed:
  "connect_start_loop attempt reg r b w = Some x \<Longrightarrow> result_typed q r \<Longrightarrow> value_signature q = SetVoid \<Longrightarrow> started_typed q x"
proof (induction rule: connect_start_loop.raw_induct [rotated, consumes 1, case_names 1])
  case (1 loop attempt reg r b w x)
  note step = 1(2) and typed = 1(3) and void = 1(4)
  have IH: "loop attempt reg r True w' = Some x \<Longrightarrow> started_typed q x" for w'
    using 1(1) typed void by blast
  show ?case using step typed void IH by (auto split: sum.splits if_splits register_result.splits)
qed

lemma convs_typed [simp]:
  "value_signature q = SetSize \<Longrightarrow> sets_typed q (ep_read_conv stream n bs r)"
  "value_signature q = SetSize \<Longrightarrow> sets_typed q (ep_count_conv m r)"
  "value_signature q = SetHandle \<Longrightarrow> sets_typed q (ep_handle_conv h r)"
  "value_signature q = SetEndpointSize \<Longrightarrow> sets_typed q (ep_datagram_conv le y r)"
  by (simp_all add: ep_read_conv_def ep_count_conv_def ep_handle_conv_def ep_datagram_conv_def split: sum.split)

lemma io_do_start_typed:
  assumes s: "io_do_start c le reg fd q r w = Some x" and r: "result_typed (Plain q) r"
  shows "started_typed (Plain q) x"
  using s r
  by (cases q)
    (auto simp: io_do_start_defs ep_with_fd_def split: if_splits intro: ep_start_loop_typed connect_start_loop_typed)

text \<open>\<open>perform\<close>.\<close>

definition performed_typed :: "uring_request \<Rightarrow> (error + (bool \<times> io_result)) \<times> 'w \<Rightarrow> bool" where
  "performed_typed q x = (case fst x of Inl _ \<Rightarrow> True | Inr y \<Rightarrow> result_typed q (snd y))"

lemma performed_typed_simps [simp]:
  "performed_typed q (Inl e, w)" "performed_typed q (Inr (st, r), w) = result_typed q r"
  "sets_typed q z \<Longrightarrow> performed_typed q (map_sum (\<lambda>e. e) (Pair True) z, w)"
  by (simp_all add: performed_typed_def sets_typed_def split: sum.splits)

lemma ep_perform_typed [simp]:
  "result_typed q r \<Longrightarrow> (\<And>v. sets_typed q (conv v r)) \<Longrightarrow> performed_typed q (ep_perform call conv r w)"
  by (auto simp: ep_perform_def split: prod.split sum.split)

lemma io_perform_typed:
  assumes "result_typed (Plain q) r"
  shows "performed_typed (Plain q) (io_perform c le fd q r w)"
  using assms
  by (cases q)
    (auto simp: io_perform_def read_some_perform_def write_some_perform_def receive_perform_def send_perform_def
      receive_from_perform_def send_to_perform_def accept_perform_def connect_perform_def split: prod.split sum.split)

section \<open>The io_uring operations\<close>

text \<open>The results of all operations of the context, and the steps that set them.\<close>

definition uring_results_typed :: "'k uring_context \<Rightarrow> bool" where
  "uring_results_typed c \<longleftrightarrow> (\<forall>op. result_typed (uc_request c op) (uc_result c op))"

lemma uring_complete_typed: "sets_typed q (uring_complete le stored q res r)"
proof (cases q)
  case (Plain p)
  then show ?thesis by (cases p) (simp_all add: uring_complete_defs split: sum.split)
qed (simp_all add: uring_complete_defs)

lemma uring_set_result_typed:
  assumes "uring_results_typed c" "uring_set_result f op c = Inr c'" "sets_typed (uc_request c op) (f (uc_result c op))"
  shows "uring_results_typed c'"
  using assms by (cases "f (uc_result c op)") (auto simp: uring_set_result_def uring_results_typed_def sets_typed_def)

lemma uring_connect_typed:
  "uring_results_typed c \<Longrightarrow> uring_sender_connect op sd c = Inr (fd, sd', c') \<Longrightarrow> uring_results_typed c'"
  by (auto simp: uring_sender_connect_def uring_results_typed_def split: if_splits)

lemma uring_take_cqe_typed:
  assumes c: "uring_results_typed (fst s)" and take: "uring_take_cqe L le cqe s = Inr s'"
  shows "uring_results_typed (fst s')"
proof (cases "fst cqe")
  case (UserOp op)
  let ?f = "uring_complete le (ul_stored L (uc_kernel (fst s)) op) (uc_request (fst s) op) (snd cqe)"
  obtain c' where "uring_set_result ?f op (fst s) = Inr c'" "fst s' = c'"
    using take UserOp by (cases "uring_set_result ?f op (fst s)") (auto simp: uring_take_cqe_def)
  then show ?thesis using uring_set_result_typed [OF c, of ?f op c'] by (simp add: uring_complete_typed)
qed (use assms in \<open>simp_all add: uring_take_cqe_def\<close>)

text \<open>Submitting does not touch the results.\<close>

definition uring_ops :: "'k uring_context \<Rightarrow> (addr \<Rightarrow> uring_request) \<times> (addr \<Rightarrow> io_result)" where
  "uring_ops c = (uc_request c, uc_result c)"

lemma uring_results_typed_ops: "uring_ops c' = uring_ops c \<Longrightarrow> uring_results_typed c \<Longrightarrow> uring_results_typed c'"
  by (simp add: uring_ops_def uring_results_typed_def)

lemma uring_ops_kernel [simp]:
  "uring_ops (c\<lparr>uc_kernel := k\<rparr>) = uring_ops c" "uring_ops (c\<lparr>uc_pending := n\<rparr>) = uring_ops c"
  by (simp_all add: uring_ops_def)

lemma uring_submit_ops: "uring_submit_sqes L c = Inr c' \<Longrightarrow> uring_ops c' = uring_ops c"
  by (auto simp: uring_submit_sqes_def uring_ops_def split: if_splits prod.splits)

lemma uring_alloc_retry_ops: "uring_alloc_retry L n found c = Inr (f, c') \<Longrightarrow> uring_ops c' = uring_ops c"
  by (induction L n found c rule: uring_alloc_retry.induct)
    (auto split: if_splits sum.splits prod.splits dest!: uring_submit_ops)

lemma uring_allocate_ops: "uring_allocate_sqe L c = Inr (f, c') \<Longrightarrow> uring_ops c' = uring_ops c"
  by (auto simp: uring_allocate_sqe_def split: if_splits sum.splits prod.splits dest!: uring_alloc_retry_ops)

lemma uring_enqueue_ops: "uring_enqueue L le fd op c = Inr (f, c') \<Longrightarrow> uring_ops c' = uring_ops c"
  by (auto simp: uring_enqueue_def split: if_splits sum.splits prod.splits dest!: uring_allocate_ops)

lemma uring_post_submit_ops: "uring_post_submit_sqes L c = Inr c' \<Longrightarrow> uring_ops c' = uring_ops c"
  by (auto simp: uring_post_submit_sqes_def split: if_splits dest!: uring_submit_ops)

lemma uring_urgent_ops: "uring_urgent L sqe user c = Inr c' \<Longrightarrow> uring_ops c' = uring_ops c"
  by (auto simp: uring_urgent_def split: if_splits sum.splits prod.splits dest!: uring_allocate_ops uring_submit_ops)

lemma uring_try_complete_typed: "uring_try_complete q r = Some x \<Longrightarrow> sets_typed q x"
  by (auto simp: uring_try_complete_def split: uring_request.splits io_request.splits if_splits)

lemma map_sum_Inr: "map_sum (\<lambda>e. e) f x = Inr y \<longleftrightarrow> (\<exists>z. x = Inr z \<and> y = f z)"
  by (cases x) auto

lemma uring_do_start_typed:
  assumes c: "uring_results_typed c" and s: "uring_do_start L le fd op c = Inr (st, c')"
  shows "uring_results_typed c'"
proof (cases "fd = - 1")
  case True
  then have "uring_set_result (result_set_error (SystemError EBADF)) op c = Inr c'"
    using s by (auto simp: uring_do_start_def map_sum_Inr)
  then show ?thesis by (rule uring_set_result_typed [OF c]) simp
next
  case fd: False
  show ?thesis
  proof (cases "uring_try_complete (uc_request c op) (uc_result c op)")
    case (Some x)
    then have "uring_set_result (\<lambda>_. x) op c = Inr c'" using s fd by (auto simp: uring_do_start_def map_sum_Inr)
    then show ?thesis by (rule uring_set_result_typed [OF c]) (rule uring_try_complete_typed [OF Some])
  next
    case None
    then obtain found d where d: "uring_enqueue L le fd op c = Inr (found, d)"
      using s fd by (auto simp: uring_do_start_def split: sum.splits)
    have typed: "uring_results_typed d" by (rule uring_results_typed_ops [OF uring_enqueue_ops [OF d] c])
    show ?thesis
    proof (cases found)
      case True
      then have "uring_post_submit_sqes L d = Inr c'" using s fd None d by (auto simp: uring_do_start_def map_sum_Inr)
      then show ?thesis using uring_results_typed_ops [OF uring_post_submit_ops typed] by blast
    next
      case False
      then have "uring_set_result (result_set_error (SystemError ENOBUFS)) op d = Inr c'"
        using s fd None d by (auto simp: uring_do_start_def map_sum_Inr)
      then show ?thesis by (rule uring_set_result_typed [OF typed]) simp
    qed
  qed
qed

section \<open>Histories\<close>

text \<open>What becomes of one operation of the epoll backend, and of the operations of a \<open>uring_context\<close>. The worlds and the answers
  of the kernel are any.\<close>

inductive io_operation_reach :: "(per_fd_data \<times> 'k) sys_calls \<Rightarrow> bool \<Rightarrow> io_operation \<Rightarrow> io_operation \<Rightarrow> bool"
  for c :: "(per_fd_data \<times> 'k) sys_calls" and le :: bool and new :: io_operation where
  made: "io_operation_reach c le new new"
| started: "io_operation_reach c le new oper \<Longrightarrow>
    io_operation_start c le ctl a oper w = Some (Inr (st, r), w') \<Longrightarrow> io_operation_reach c le new (oper\<lparr>ao_result := r\<rparr>)"
| performed: "io_operation_reach c le new oper \<Longrightarrow>
    io_operation_perform c le oper w = (Inr (fin, r), w') \<Longrightarrow> io_operation_reach c le new (oper\<lparr>ao_result := r\<rparr>)"

inductive uring_reach :: "'k uring_lib \<Rightarrow> bool \<Rightarrow> 'k uring_context \<Rightarrow> bool" for L :: "'k uring_lib" and le :: bool where
  no_results: "(\<And>op. uc_result c op = ResultNone) \<Longrightarrow> uring_reach L le c"
| kernel: "uring_reach L le c \<Longrightarrow> uring_reach L le (c\<lparr>uc_kernel := k\<rparr>)"
| connected: "uring_reach L le c \<Longrightarrow> uring_sender_connect op sd c = Inr (fd, sd', c') \<Longrightarrow> uring_reach L le c'"
| started: "uring_reach L le c \<Longrightarrow> uring_do_start L le fd op c = Inr (st, c') \<Longrightarrow> uring_reach L le c'"
| cancelled: "uring_reach L le c \<Longrightarrow> uring_do_cancel L op c = Inr c' \<Longrightarrow> uring_reach L le c'"
| object_cancelled: "uring_reach L le c \<Longrightarrow> uring_object_cancel L fd c = Inr c' \<Longrightarrow> uring_reach L le c'"
| interrupted: "uring_reach L le c \<Longrightarrow> uring_interrupt L c = Inr c' \<Longrightarrow> uring_reach L le c'"
| completed: "uring_reach L le c \<Longrightarrow> uring_take_cqe L le cqe (c, q) = Inr (c', q') \<Longrightarrow> uring_reach L le c'"

lemma io_operation_reach_typed:
  assumes "io_operation_reach c le new oper" and "ao_result new = ResultNone"
  shows "ao_request oper = ao_request new \<and> result_typed (Plain (ao_request new)) (ao_result oper)"
  using assms(1)
proof induction
  case (started oper ctl a w st r w')
  then show ?case using io_do_start_typed [of c le "ep_reg ctl a" "ao_fd oper" "ao_request oper" "ao_result oper" w]
    by (auto simp: io_operation_start_def)
next
  case (performed oper w fin r w')
  then show ?case using io_perform_typed [of "ao_request oper" "ao_result oper" c le "ao_fd oper" w]
    by (simp add: io_operation_perform_def)
qed (use assms(2) in simp)

lemma uring_reach_typed: "uring_reach L le c \<Longrightarrow> uring_results_typed c"
proof (induction rule: uring_reach.induct)
  case (no_results c)
  then show ?case by (simp add: uring_results_typed_def)
next
  case (object_cancelled c fd c')
  then show ?case by (auto simp: uring_object_cancel_def split: if_splits intro: uring_results_typed_ops [OF uring_urgent_ops])
next
  case (completed c cqe q c' q')
  then show ?case using uring_take_cqe_typed [of "(c, q)" L le cqe "(c', q')"] by simp
qed (auto simp: uring_do_cancel_def uring_interrupt_def intro: uring_results_typed_ops uring_results_typed_ops [OF uring_urgent_ops]
  uring_connect_typed uring_do_start_typed)



end
