(* ===== verification/Pmr_Resource.thy ===== *)
theory Pmr_Resource
  imports Prelude
begin

text \<open>
  Memory through an allocator of any type: \<open>new_object\<close> and \<open>delete_object\<close> of \<open>include/coio/utils/new_object.h\<close>, and
  \<open>allocator_resource\<close> of \<open>include/coio/utils/allocator_resource.h\<close>, which makes a \<open>std::pmr::memory_resource\<close> of it.

  An allocator is its identity, which its copies and rebound forms share and \<open>==\<close> compares, with the number of its type and
  the size and alignment of the \<open>proxied\<close> object that holds it. The heap records, for each block, the allocator, the size of
  the type that it was rebound to, and the number of objects; giving a block back with anything else is an error. The
  address of a new block is a parameter.
\<close>

record 'a allocator =
  av_type :: nat
  av_id :: 'a
  av_proxied_size :: size_t
  av_proxied_align :: size_t

record 'a pmr_heap =
  ph_live :: "addr \<Rightarrow> ('a \<times> size_t \<times> size_t) option"

definition traits_allocate :: "'a \<Rightarrow> size_t \<Rightarrow> size_t \<Rightarrow> addr \<Rightarrow> 'a pmr_heap \<Rightarrow> 'a pmr_heap" where
  "traits_allocate a sz n p h = h\<lparr>ph_live := (ph_live h)(p \<mapsto> (a, sz, n))\<rparr>"

definition traits_deallocate :: "'a \<Rightarrow> size_t \<Rightarrow> size_t \<Rightarrow> addr \<Rightarrow> 'a pmr_heap \<Rightarrow> error + 'a pmr_heap" where
  "traits_deallocate a sz n p h =
     (if ph_live h p = Some (a, sz, n) then Inr (h\<lparr>ph_live := (ph_live h)(p := None)\<rparr>) else Inl DeadObject)"

section \<open>Single objects\<close>

text \<open>\<open>build\<close> is the constructor; when it throws the memory is given back.\<close>

definition new_object :: "'a \<Rightarrow> size_t \<Rightarrow> (error + 'o) \<Rightarrow> addr \<Rightarrow> 'a pmr_heap \<Rightarrow> error + ('o \<times> 'a pmr_heap)" where
  "new_object a sz build p h =
     (let h = traits_allocate a sz 1 p h in
      case build of
        Inr x \<Rightarrow> Inr (x, h)
      | Inl e \<Rightarrow> (case traits_deallocate a sz 1 p h of Inl f \<Rightarrow> Inl f | Inr h \<Rightarrow> Inl e))"

definition delete_object :: "'a \<Rightarrow> size_t \<Rightarrow> addr \<Rightarrow> 'a pmr_heap \<Rightarrow> error + 'a pmr_heap" where
  "delete_object a sz p h = traits_deallocate a sz 1 p h"

section \<open>The resource\<close>

text \<open>The object that is allocated is \<open>placeholder<N>\<close>, with the size and the alignment \<open>N\<close>.\<close>

definition placeholder_count :: "size_t \<Rightarrow> size_t \<Rightarrow> size_t" where
  "placeholder_count n bytes = (if bytes = 0 then 1 else (bytes + n - 1) div n)"

definition alloc_impl :: "size_t \<Rightarrow> 'a \<Rightarrow> size_t \<Rightarrow> addr \<Rightarrow> 'a pmr_heap \<Rightarrow> 'a pmr_heap" where
  "alloc_impl n a bytes p h = traits_allocate a n (placeholder_count n bytes) p h"

definition dealloc_impl :: "size_t \<Rightarrow> 'a \<Rightarrow> size_t \<Rightarrow> addr \<Rightarrow> 'a pmr_heap \<Rightarrow> error + 'a pmr_heap" where
  "dealloc_impl n a bytes p h = traits_deallocate a n (placeholder_count n bytes) p h"

definition pmr_alignments :: "size_t list" where
  "pmr_alignments = [1, 2, 4, 8, 16, 32, 64, 128, 256]"

definition proxied_allocate :: "'a \<Rightarrow> size_t \<Rightarrow> size_t \<Rightarrow> addr \<Rightarrow> 'a pmr_heap \<Rightarrow> error + 'a pmr_heap" where
  "proxied_allocate a bytes alignment p h =
     (if alignment \<in> set pmr_alignments then Inr (alloc_impl alignment a bytes p h) else Inl BadAlloc)"

definition proxied_deallocate :: "'a \<Rightarrow> ptr \<Rightarrow> size_t \<Rightarrow> size_t \<Rightarrow> 'a pmr_heap \<Rightarrow> error + 'a pmr_heap" where
  "proxied_deallocate a p bytes alignment h =
     (case p of
        None \<Rightarrow> Inr h
      | Some p \<Rightarrow> if alignment \<in> set pmr_alignments then dealloc_impl alignment a bytes p h else Inl Terminate)"

definition proxied_is_equal :: "'a allocator \<Rightarrow> 'a allocator \<Rightarrow> bool" where
  "proxied_is_equal v v' \<longleftrightarrow> av_type v = av_type v' \<and> av_id v = av_id v'"

definition is_small_object :: "'a allocator \<Rightarrow> bool" where
  "is_small_object v \<longleftrightarrow> av_proxied_size v \<le> 2 * 8 \<and> av_proxied_align v \<le> 8"

text \<open>\<open>ar_block\<close> is where \<open>impl_\<close> points, \<^term>\<open>None\<close> for \<open>storage_\<close>. The constructor of \<open>proxied\<close> does not throw.\<close>

record 'a allocator_resource =
  ar_proxied :: "'a allocator"
  ar_block :: ptr

definition resource_new :: "'a allocator \<Rightarrow> addr \<Rightarrow> 'a pmr_heap \<Rightarrow> error + ('a allocator_resource \<times> 'a pmr_heap)" where
  "resource_new v p h =
     (if is_small_object v then Inr (\<lparr>ar_proxied = v, ar_block = None\<rparr>, h)
      else
        (case new_object (av_id v) (av_proxied_size v) (Inr v) p h of
           Inl e \<Rightarrow> Inl e
         | Inr (v, h) \<Rightarrow> Inr (\<lparr>ar_proxied = v, ar_block = Some p\<rparr>, h)))"

definition resource_destroy :: "'a allocator_resource \<Rightarrow> 'a pmr_heap \<Rightarrow> error + 'a pmr_heap" where
  "resource_destroy r h =
     (if is_small_object (ar_proxied r) then Inr h
      else (case ar_block r of
              None \<Rightarrow> Inl NullDeref
            | Some p \<Rightarrow> delete_object (av_id (ar_proxied r)) (av_proxied_size (ar_proxied r)) p h))"

definition resource_allocate ::
    "'a allocator_resource \<Rightarrow> size_t \<Rightarrow> size_t \<Rightarrow> addr \<Rightarrow> 'a pmr_heap \<Rightarrow> error + 'a pmr_heap" where
  "resource_allocate r bytes alignment p h = proxied_allocate (av_id (ar_proxied r)) bytes alignment p h"

definition resource_deallocate ::
    "'a allocator_resource \<Rightarrow> ptr \<Rightarrow> size_t \<Rightarrow> size_t \<Rightarrow> 'a pmr_heap \<Rightarrow> error + 'a pmr_heap" where
  "resource_deallocate r p bytes alignment h = proxied_deallocate (av_id (ar_proxied r)) p bytes alignment h"

text \<open>The other resource may be of another class (\<^term>\<open>None\<close>).\<close>

definition resource_is_equal :: "'a allocator_resource \<Rightarrow> 'a allocator_resource option \<Rightarrow> bool" where
  "resource_is_equal r other =
     (case other of None \<Rightarrow> False | Some r' \<Rightarrow> proxied_is_equal (ar_proxied r) (ar_proxied r'))"

text \<open>\<open>allocator_adaptor<void>\<close> owns a resource in its storage (\<open>Inl\<close>), or refers to the one of a \<open>polymorphic_allocator\<close>.\<close>

type_synonym ('a, 'r) allocator_adaptor = "'a allocator_resource + 'r"

definition adaptor_new :: "'a allocator + 'r \<Rightarrow> addr \<Rightarrow> 'a pmr_heap \<Rightarrow> error + (('a, 'r) allocator_adaptor \<times> 'a pmr_heap)" where
  "adaptor_new alloc p h =
     (case alloc of
        Inr resource \<Rightarrow> Inr (Inr resource, h)
      | Inl v \<Rightarrow> (case resource_new v p h of Inl e \<Rightarrow> Inl e | Inr (r, h) \<Rightarrow> Inr (Inl r, h)))"

definition adaptor_destroy :: "('a, 'r) allocator_adaptor \<Rightarrow> 'a pmr_heap \<Rightarrow> error + 'a pmr_heap" where
  "adaptor_destroy ad h = (case ad of Inl r \<Rightarrow> resource_destroy r h | Inr _ \<Rightarrow> Inr h)"

section \<open>The size of a block\<close>

lemma pmr_alignments_pos: "n \<in> set pmr_alignments \<Longrightarrow> 0 < n \<and> unat n \<le> 256"
  by (auto simp: pmr_alignments_def)

text \<open>Rounding up wraps around just for the sizes from which it cannot be represented.\<close>

lemma unat_placeholder_count:
  assumes "0 < n" and "bytes \<noteq> 0" and "unat bytes + unat n \<le> 2 ^ 64"
  shows "unat (placeholder_count n bytes) = (unat bytes + unat n - 1) div unat n"
proof -
  have n: "1 \<le> n" using assms(1) by (simp add: word_le_nat_alt word_less_nat_alt)
  have "unat (bytes + (n - 1)) = unat bytes + (unat n - 1)"
    using assms n by (subst unat_add_lt) (simp_all add: unat_sub_le word_less_nat_alt)
  then show ?thesis
    using assms n by (simp add: placeholder_count_def unat_div_distrib add_diff_eq [symmetric] word_less_nat_alt)
qed

lemma placeholder_count_wraps:
  assumes "0 < n" and "2 ^ 64 < unat bytes + unat n"
  shows "placeholder_count n bytes = 0"
proof -
  have nz: "bytes \<noteq> 0" using assms(2) size_t_bound [of n] by auto
  have n: "1 \<le> n" using assms(1) by (simp add: word_le_nat_alt word_less_nat_alt)
  have n1: "unat (n - 1) = unat n - 1" using n by (simp add: unat_sub_le)
  have "unat (bytes + (n - 1)) = (unat bytes + (unat n - 1)) mod 2 ^ 64" by (simp add: unat_word_ariths n1)
  also have "\<dots> = unat bytes + (unat n - 1) - 2 ^ 64"
    using assms size_t_bound [of bytes] size_t_bound [of n] by (simp add: mod_if)
  also have "\<dots> < unat n" using assms(1) size_t_bound [of bytes] by (simp add: word_less_nat_alt)
  finally have "bytes + (n - 1) < n" by (simp add: word_less_nat_alt)
  then have "unat ((bytes + (n - 1)) div n) = 0" by (simp add: unat_div_distrib word_less_nat_alt)
  then show ?thesis using nz by (simp add: placeholder_count_def add_diff_eq [symmetric] unat_eq_0)
qed

lemma placeholder_count_covers:
  assumes "0 < n"
  shows "unat bytes \<le> unat n * unat (placeholder_count n bytes) \<longleftrightarrow> unat bytes + unat n \<le> 2 ^ 64"
proof (cases "unat bytes + unat n \<le> 2 ^ 64")
  case True
  have pos: "0 < unat n" using assms by (simp add: word_less_nat_alt)
  show ?thesis
  proof (cases "bytes = 0")
    case False
    have "unat bytes + unat n - 1 = unat n * ((unat bytes + unat n - 1) div unat n) + (unat bytes + unat n - 1) mod unat n"
      by simp
    moreover have "(unat bytes + unat n - 1) mod unat n < unat n" using pos by simp
    ultimately have "unat bytes \<le> unat n * ((unat bytes + unat n - 1) div unat n)" by linarith
    then show ?thesis using unat_placeholder_count [OF assms False True] True by simp
  qed (use True in simp)
next
  case False
  then have "bytes \<noteq> 0" using size_t_bound [of n] by auto
  then show ?thesis using placeholder_count_wraps [OF assms, of bytes] False by (simp add: unat_eq_0)
qed

text \<open>C34. A block that a resource hands out is given back by any resource that compares equal, with the allocator, the type and
  the number of objects of its allocation, and the heap is then as before. The block is large enough just when rounding its
  size up to the alignment does not wrap around; beyond that, the resource allocates a block of no objects instead of
  throwing.\<close>

theorem pmr_blocks_roundtrip:
  assumes "alignment \<in> set pmr_alignments" and "ph_live h p = None" and "resource_is_equal r (Some r')"
  shows "\<exists>h' k. resource_allocate r bytes alignment p h = Inr h' \<and>
    ph_live h' p = Some (av_id (ar_proxied r), alignment, k) \<and>
    resource_deallocate r' (Some p) bytes alignment h' = Inr h \<and>
    (unat bytes \<le> unat alignment * unat k \<longleftrightarrow> unat bytes + unat alignment \<le> 2 ^ 64) \<and>
    (if 2 ^ 64 < unat bytes + unat alignment then k = 0 else True)"
proof -
  have pos: "0 < alignment" using pmr_alignments_pos [OF assms(1)] by simp
  have "(ph_live h)(p := None) = ph_live h" using assms(2) by (simp add: fun_upd_idem_iff)
  then show ?thesis
    using assms placeholder_count_covers [OF pos, of bytes] placeholder_count_wraps [OF pos, of bytes]
    by (simp add: resource_allocate_def resource_deallocate_def proxied_allocate_def proxied_deallocate_def alloc_impl_def
        dealloc_impl_def traits_allocate_def traits_deallocate_def resource_is_equal_def proxied_is_equal_def)
qed

text \<open>Almost all of the address space, aligned to 16 bytes, is a block of no objects.\<close>

theorem pmr_blocks_roundtrip_witness:
  "\<exists>h. resource_allocate \<lparr>ar_proxied = \<lparr>av_type = 0, av_id = (7 :: nat), av_proxied_size = 8, av_proxied_align = 8\<rparr>,
       ar_block = None\<rparr> 0xFFFFFFFFFFFFFFFF 16 3 \<lparr>ph_live = \<lambda>_. None\<rparr> = Inr h \<and> ph_live h 3 = Some (7, 16, 0)"
proof -
  let ?v = "\<lparr>av_type = 0, av_id = (7 :: nat), av_proxied_size = 8, av_proxied_align = 8\<rparr>"
  let ?r = "\<lparr>ar_proxied = ?v, ar_block = None\<rparr>"
  have "16 \<in> set pmr_alignments" by (simp add: pmr_alignments_def)
  moreover have "resource_is_equal ?r (Some ?r)" by (simp add: resource_is_equal_def proxied_is_equal_def)
  ultimately show ?thesis
    using pmr_blocks_roundtrip [of 16 "\<lparr>ph_live = \<lambda>_. None\<rparr>" 3 ?r ?r "0xFFFFFFFFFFFFFFFF"] by auto
qed

end
