(* ===== verification/Polymorphic_Scheduler.thy ===== *)
theory Polymorphic_Scheduler
  imports Retain_Ptr Pmr_Resource
begin

text \<open>
  \<open>polymorphic_scheduler\<close> of \<open>include/coio/utils/polymorphic_scheduler.h\<close>: a scheduler of any type behind a counted backend, its
  \<open>schedule\<close> sender, and the operation that holds the operation of the inner scheduler in a small buffer or in memory.

  A scheduler is a value \<open>sc_value\<close> of the type number \<open>sc_type\<close>; \<open>==\<close> of that type is the parameter \<open>eq\<close>. The variables of a
  program that hold a \<open>retain_ptr<backend>\<close> (schedulers, senders, environments and operations alike) are the slots of
  \<^typ>\<open>retain_state\<close>, so the rules of constructing and destroying are those of \<open>Retain_Ptr\<close>.
\<close>

record 's scheduler =
  sc_type :: nat
  sc_value :: 's

record ('s, 'a) backend =
  bk_sched :: "'s scheduler"
  bk_alloc :: 'a
  bk_size :: size_t

record ('s, 'a) poly_state =
  po_refs :: retain_state
  po_backend :: "addr \<Rightarrow> ('s, 'a) backend option"
  po_heap :: "'a pmr_heap"

definition poly_start :: "nat \<Rightarrow> ('s, 'a) poly_state" where
  "poly_start n = \<lparr>po_refs = rp_start n, po_backend = \<lambda>_. None, po_heap = \<lparr>ph_live = \<lambda>_. None\<rparr>\<rparr>"

section \<open>Comparing\<close>

definition backend_equals :: "('s \<Rightarrow> 's \<Rightarrow> bool) \<Rightarrow> ('s, 'a) backend \<Rightarrow> ('s, 'a) backend \<Rightarrow> bool" where
  "backend_equals eq b other \<longleftrightarrow>
     (if sc_type (bk_sched other) = sc_type (bk_sched b) then eq (sc_value (bk_sched b)) (sc_value (bk_sched other)) else False)"

definition try_get_scheduler :: "nat \<Rightarrow> ('s, 'a) backend \<Rightarrow> 's option" where
  "try_get_scheduler ty b = (if sc_type (bk_sched b) = ty then Some (sc_value (bk_sched b)) else None)"

text \<open>A \<open>polymorphic_scheduler\<close> without a backend (moved from) is \<^term>\<open>None\<close>.\<close>

definition poly_eq :: "('s \<Rightarrow> 's \<Rightarrow> bool) \<Rightarrow> ('s, 'a) backend option \<Rightarrow> ('s, 'a) backend option \<Rightarrow> bool" where
  "poly_eq eq lhs rhs =
     (case lhs of
        None \<Rightarrow> rhs = None
      | Some b \<Rightarrow> (case rhs of None \<Rightarrow> False | Some b' \<Rightarrow> backend_equals eq b b'))"

definition poly_eq_sched :: "('s \<Rightarrow> 's \<Rightarrow> bool) \<Rightarrow> ('s, 'a) backend option \<Rightarrow> 's scheduler \<Rightarrow> bool" where
  "poly_eq_sched eq lhs sched =
     (case lhs of
        None \<Rightarrow> False
      | Some b \<Rightarrow> (case try_get_scheduler (sc_type sched) b of Some inner \<Rightarrow> eq inner (sc_value sched) | None \<Rightarrow> False))"

definition poly_target :: "nat \<Rightarrow> ('s, 'a) backend option \<Rightarrow> 's option" where
  "poly_target ty p = (case p of None \<Rightarrow> None | Some b \<Rightarrow> try_get_scheduler ty b)"

definition poly_forward_progress :: "('s scheduler \<Rightarrow> 'g) \<Rightarrow> ('s, 'a) backend option \<Rightarrow> error + 'g" where
  "poly_forward_progress guarantee p =
     (case p of None \<Rightarrow> Inl AssertFailed | Some b \<Rightarrow> Inr (guarantee (bk_sched b)))"

section \<open>The backend\<close>

text \<open>\<open>do_lose\<close>, of every backend whose count has gone.\<close>

definition backend_lose :: "addr \<Rightarrow> ('s, 'a) poly_state \<Rightarrow> error + ('s, 'a) poly_state" where
  "backend_lose a s =
     (case po_backend s a of
        None \<Rightarrow> Inr s
      | Some b \<Rightarrow>
          (case delete_object (bk_alloc b) (bk_size b) a (po_heap s) of
             Inl e \<Rightarrow> Inl e
           | Inr h \<Rightarrow> Inr (s\<lparr>po_backend := (po_backend s)(a := None), po_heap := h\<rparr>)))"

text \<open>An operation of \<open>retain_ptr\<close> on the slots destroys at most the object that \<open>p\<close> pointed to.\<close>

definition poly_refs :: "ptr \<Rightarrow> (retain_state \<Rightarrow> error + retain_state) \<Rightarrow> ('s, 'a) poly_state \<Rightarrow> error + ('s, 'a) poly_state" where
  "poly_refs p f s =
     (case f (po_refs s) of
        Inl e \<Rightarrow> Inl e
      | Inr r \<Rightarrow>
          (case p of
             None \<Rightarrow> Inr (s\<lparr>po_refs := r\<rparr>)
           | Some a \<Rightarrow> if rp_count r a = None then backend_lose a (s\<lparr>po_refs := r\<rparr>) else Inr (s\<lparr>po_refs := r\<rparr>)))"

definition create_backend :: "'s scheduler \<Rightarrow> 'a \<Rightarrow> size_t \<Rightarrow> nat \<Rightarrow> addr \<Rightarrow> ('s, 'a) poly_state \<Rightarrow> error + ('s, 'a) poly_state" where
  "create_backend sched alloc sz v a s =
     (if ph_live (po_heap s) a \<noteq> None then Inl InvalidArgument
      else
        (case new_object alloc sz (Inr \<lparr>bk_sched = sched, bk_alloc = alloc, bk_size = sz\<rparr>) a (po_heap s) of
           Inl e \<Rightarrow> Inl e
         | Inr (b, h) \<Rightarrow>
             (case rp_new_object a (po_refs s) of
                Inl e \<Rightarrow> Inl e
              | Inr r \<Rightarrow>
                  (case rp_from_pointer v (Some a) r of
                     Inl e \<Rightarrow> Inl e
                   | Inr r \<Rightarrow> Inr \<lparr>po_refs = r, po_backend = (po_backend s)(a \<mapsto> b), po_heap = h\<rparr>))))"

section \<open>The operation of the inner scheduler\<close>

text \<open>
  \<open>state_holder\<close> builds the operation in its buffer of six pointers, or in memory of the allocator that the environment of the
  sender has (\<open>sz\<close> is the size there). \<open>conn\<close> is what connecting the sender gives, or throws.
\<close>

datatype 'a state_proxy = Proxy_Inline | Proxy_Object 'a size_t addr

definition proxy_fits :: "size_t \<Rightarrow> size_t \<Rightarrow> bool" where
  "proxy_fits small_size small_align \<longleftrightarrow> small_size \<le> 6 * 8 \<and> small_align \<le> 8"

definition state_holder_new ::
  "size_t \<Rightarrow> size_t \<Rightarrow> 'a \<Rightarrow> size_t \<Rightarrow> (error + 'o) \<Rightarrow> addr \<Rightarrow> 'a pmr_heap \<Rightarrow> error + (('a state_proxy \<times> 'o) \<times> 'a pmr_heap)" where
  "state_holder_new small_size small_align alloc sz conn p h =
     (if proxy_fits small_size small_align
      then (case conn of Inl e \<Rightarrow> Inl e | Inr x \<Rightarrow> Inr ((Proxy_Inline, x), h))
      else (case new_object alloc sz conn p h of
              Inl e \<Rightarrow> Inl e
            | Inr (x, h) \<Rightarrow> Inr ((Proxy_Object alloc sz p, x), h)))"

definition state_holder_destroy :: "'a state_proxy \<Rightarrow> 'a pmr_heap \<Rightarrow> error + 'a pmr_heap" where
  "state_holder_destroy proxy h = (case proxy of Proxy_Inline \<Rightarrow> Inr h | Proxy_Object alloc sz p \<Rightarrow> delete_object alloc sz p h)"

text \<open>The receiver of the inner operation forgets the outer one, which it completes.\<close>

definition poly_receiver_set_value :: "ptr \<Rightarrow> error + (addr \<times> ptr)" where
  "poly_receiver_set_value st = (case st of None \<Rightarrow> Inl AssertFailed | Some a \<Rightarrow> Inr (a, None))"

section \<open>Programs\<close>

definition slot_ptr :: "nat \<Rightarrow> ('s, 'a) poly_state \<Rightarrow> ptr" where
  "slot_ptr v s = (case slot v (po_refs s) of Some p \<Rightarrow> p | None \<Rightarrow> None)"

definition poly_value :: "nat \<Rightarrow> ('s, 'a) poly_state \<Rightarrow> ('s, 'a) backend option" where
  "poly_value v s = (case slot_ptr v s of None \<Rightarrow> None | Some a \<Rightarrow> po_backend s a)"

text \<open>The constructor with an allocator (uses-allocator construction) ignores it.\<close>

definition poly_with_allocator :: "nat \<Rightarrow> nat \<Rightarrow> ('s, 'a) poly_state \<Rightarrow> error + ('s, 'a) poly_state" where
  "poly_with_allocator v w s = poly_refs None (rp_move v w) s"

definition poly_swap :: "nat \<Rightarrow> nat \<Rightarrow> ('s, 'a) poly_state \<Rightarrow> error + ('s, 'a) poly_state" where
  "poly_swap v w s = poly_refs None (rp_swap v w) s"

text \<open>\<open>schedule\<close>, and \<open>get_env\<close> of its sender with the query for the completion scheduler: copies of the backend pointer.\<close>

definition poly_schedule :: "nat \<Rightarrow> nat \<Rightarrow> ('s, 'a) poly_state \<Rightarrow> error + ('s, 'a) poly_state" where
  "poly_schedule sender v s = (if slot_ptr v s = None then Inl AssertFailed else poly_refs None (rp_copy sender v) s)"

definition schedule_sender_env :: "nat \<Rightarrow> nat \<Rightarrow> ('s, 'a) poly_state \<Rightarrow> error + ('s, 'a) poly_state" where
  "schedule_sender_env env sender s =
     (if slot_ptr sender s = None then Inl AssertFailed else poly_refs None (rp_copy env sender) s)"

definition schedule_sender_connect :: "nat \<Rightarrow> nat \<Rightarrow> ('s, 'a) poly_state \<Rightarrow> error + ('s, 'a) poly_state" where
  "schedule_sender_connect op sender s =
     (if slot_ptr sender s = None then Inl AssertFailed else poly_refs None (rp_move op sender) s)"

datatype ('s, 'a) poly_op =
    Poly_New nat addr "'s scheduler" 'a size_t
  | Poly_Copy nat nat
  | Poly_Move nat nat
  | Poly_Copy_Assign nat nat
  | Poly_Move_Assign nat nat
  | Poly_With_Allocator nat nat
  | Poly_Swap nat nat
  | Poly_Schedule nat nat
  | Poly_Env nat nat
  | Poly_Connect nat nat
  | Poly_Destroy nat

fun poly_exec :: "('s, 'a) poly_op \<Rightarrow> ('s, 'a) poly_state \<Rightarrow> error + ('s, 'a) poly_state" where
  "poly_exec (Poly_New v a sched alloc sz) s = create_backend sched alloc sz v a s"
| "poly_exec (Poly_Copy v w) s = poly_refs None (rp_copy v w) s"
| "poly_exec (Poly_Move v w) s = poly_refs None (rp_move v w) s"
| "poly_exec (Poly_Copy_Assign v w) s = poly_refs (slot_ptr v s) (rp_copy_assign v w) s"
| "poly_exec (Poly_Move_Assign v w) s = poly_refs (slot_ptr v s) (rp_move_assign v w) s"
| "poly_exec (Poly_With_Allocator v w) s = poly_with_allocator v w s"
| "poly_exec (Poly_Swap v w) s = poly_swap v w s"
| "poly_exec (Poly_Schedule v w) s = poly_schedule v w s"
| "poly_exec (Poly_Env v w) s = schedule_sender_env v w s"
| "poly_exec (Poly_Connect v w) s = schedule_sender_connect v w s"
| "poly_exec (Poly_Destroy v) s = poly_refs (slot_ptr v s) (rp_destroy v) s"

fun poly_run :: "('s, 'a) poly_op list \<Rightarrow> ('s, 'a) poly_state \<Rightarrow> error + ('s, 'a) poly_state" where
  "poly_run [] s = Inr s"
| "poly_run (x # xs) s = (case poly_exec x s of Inl e \<Rightarrow> Inl e | Inr s \<Rightarrow> poly_run xs s)"

section \<open>Backends live as long as something refers to them\<close>

text \<open>What an operation on the counts may do: destroy the object \<open>p\<close>, and nothing else.\<close>

definition nonzero :: "retain_state \<Rightarrow> bool" where
  "nonzero s \<longleftrightarrow> (\<forall>a. rp_count s a \<noteq> Some 0)"

definition rp_change :: "ptr \<Rightarrow> retain_state \<Rightarrow> retain_state \<Rightarrow> bool" where
  "rp_change p s s' \<longleftrightarrow> nonzero s' \<and> (\<forall>a. rp_count s a = None \<longrightarrow> rp_count s' a = None) \<and>
     (\<forall>a. rp_count s' a = None \<longrightarrow> rp_count s a = None \<or> p = Some a)"

lemma rp_change_refl: "nonzero s \<Longrightarrow> rp_count s' = rp_count s \<Longrightarrow> rp_change p s s'"
  by (simp add: rp_change_def nonzero_def)

lemma rp_change_count: "rp_change p s t \<Longrightarrow> rp_count u = rp_count t \<Longrightarrow> rp_change p s u"
  unfolding rp_change_def nonzero_def by simp

lemma rp_change_trans: "rp_change None s t \<Longrightarrow> rp_change p t u \<Longrightarrow> rp_change p s u"
  unfolding rp_change_def by (metis option.distinct(1))

lemma retain_if_change:
  assumes ex: "counts_exact [] s" and nz: "nonzero s" and r: "retain_if p s = Inr s'"
  shows "rp_change None s s'"
proof (cases p)
  case (Some a)
  then obtain c where c: "rp_count s a = Some c" "s' = s\<lparr>rp_count := (rp_count s)(a \<mapsto> c + 1)\<rparr>"
    using r by (auto simp: retain_if_def retain_def split: option.splits)
  have "unat c = refs [] a s" using ex c(1) by (auto simp: counts_exact_def dest!: spec [of _ a])
  then have "unat c + 1 < 2 ^ 64" using refs_bound [of "[]" a s] ex by (simp add: counts_exact_def)
  then have "unat (c + 1) \<noteq> 0" by (simp add: unat_inc_small)
  then have "c + 1 \<noteq> 0" by (metis unat_0)
  then show ?thesis using nz c by (simp add: rp_change_def nonzero_def)
qed (use assms in \<open>simp add: retain_if_def rp_change_def\<close>)

lemma lose_if_change:
  assumes nz: "nonzero s" and r: "lose_if p s = Inr s'"
  shows "rp_change p s s'"
proof (cases p)
  case (Some a)
  then obtain c where "rp_count s a = Some c" "s' = s\<lparr>rp_count := (rp_count s)(a := if c = 1 then None else Some (c - 1))\<rparr>"
    using r by (auto simp: lose_if_def lose_def split: option.splits)
  then show ?thesis using nz Some by (auto simp: rp_change_def nonzero_def)
qed (use assms in \<open>simp add: lose_if_def rp_change_def\<close>)

lemma swap_and_lose_change:
  assumes "nonzero s" "swap_and_lose v q s = Inr s'"
  shows "rp_change (case slot v s of Some p \<Rightarrow> p | None \<Rightarrow> None) s s'"
proof -
  obtain old where o: "slot v s = Some old" "lose_if old (set_slot v (Some q) s) = Inr s'"
    using assms(2) by (auto simp: swap_and_lose_def split: option.splits)
  have "rp_change None s (set_slot v (Some q) s)" using assms(1) by (intro rp_change_refl) simp_all
  moreover have "nonzero (set_slot v (Some q) s)" using assms(1) by (simp add: nonzero_def)
  ultimately show ?thesis using lose_if_change [OF _ o(2)] o(1) rp_change_trans by auto
qed

lemma retain_if_slots: "retain_if p s = Inr s' \<Longrightarrow> rp_slots s' = rp_slots s"
  by (auto simp: retain_if_def retain_def split: option.splits)

definition rp_target :: "rp_op \<Rightarrow> retain_state \<Rightarrow> ptr" where
  "rp_target x s =
     (let at = (\<lambda>v. case slot v s of Some p \<Rightarrow> p | None \<Rightarrow> None)
      in case x of Destroy v \<Rightarrow> at v | Copy_Assign v w \<Rightarrow> at v | Move_Assign v w \<Rightarrow> at v | _ \<Rightarrow> None)"

definition rp_plain :: "rp_op \<Rightarrow> bool" where
  "rp_plain x \<longleftrightarrow> (case x of Copy v w \<Rightarrow> True | Move v w \<Rightarrow> True | Swap v w \<Rightarrow> True | Destroy v \<Rightarrow> True
     | Copy_Assign v w \<Rightarrow> True | Move_Assign v w \<Rightarrow> True | _ \<Rightarrow> False)"

lemma rp_exec_change:
  assumes ex: "counts_exact [] s" and nz: "nonzero s" and x: "rp_exec x s = Inr s'" and plain: "rp_plain x"
  shows "rp_change (rp_target x s) s s'"
proof (cases x)
  case (Copy v w)
  then obtain p t where "retain_if p s = Inr t" "s' = set_slot v (Some p) t"
    using x by (auto simp: rp_copy_def split: option.splits sum.splits if_splits)
  then have "rp_change None s t" "rp_count s' = rp_count t" using retain_if_change [OF ex nz] by simp_all
  then have "rp_change None s s'" by (rule rp_change_count)
  then show ?thesis using Copy by (simp add: rp_target_def)
next
  case (Move v w)
  then have "rp_count s' = rp_count s" using x by (auto simp: rp_move_def split: option.splits if_splits)
  then show ?thesis using nz rp_change_refl by blast
next
  case (Swap v w)
  then have "rp_count s' = rp_count s" using x by (auto simp: rp_swap_def split: option.splits)
  then show ?thesis using nz rp_change_refl by blast
next
  case (Destroy v)
  then obtain p where p: "slot v s = Some p" "lose_if p (set_slot v None s) = Inr s'"
    using x by (auto simp: rp_destroy_def split: option.splits)
  have "nonzero (set_slot v None s)" using nz by (simp add: nonzero_def)
  from lose_if_change [OF this p(2)] show ?thesis using p(1) Destroy by (simp add: rp_target_def rp_change_def)
next
  case (Copy_Assign v w)
  then obtain p t where t: "retain_if p s = Inr t" "swap_and_lose v p t = Inr s'"
    using x by (auto simp: rp_copy_assign_def split: option.splits sum.splits)
  have c: "rp_change None s t" by (rule retain_if_change [OF ex nz t(1)])
  then have "nonzero t" by (simp add: rp_change_def)
  moreover have "slot v t = slot v s" using retain_if_slots [OF t(1)] by (simp add: slot_def)
  ultimately show ?thesis using swap_and_lose_change [OF _ t(2)] rp_change_trans [OF c] Copy_Assign by (simp add: rp_target_def)
next
  case (Move_Assign v w)
  then obtain p where t: "swap_and_lose v p (set_slot w (Some None) s) = Inr s'" and w: "slot v s \<noteq> None" "slot w s = Some p"
    using x by (auto simp: rp_move_assign_def split: option.splits)
  have c: "rp_change None s (set_slot w (Some None) s)" using nz by (intro rp_change_refl) simp_all
  have nz': "nonzero (set_slot w (Some None) s)" using nz by (simp add: nonzero_def)
  have "rp_change (case slot v (set_slot w (Some None) s) of Some p \<Rightarrow> p | None \<Rightarrow> None) s s'"
    by (rule rp_change_trans [OF c swap_and_lose_change [OF nz' t]])
  moreover have "slot v (set_slot w (Some None) s) = (if v = w then Some None else slot v s)"
    using w(2) by (auto simp: slot_def set_slot_def split: if_splits)
  ultimately show ?thesis using Move_Assign by (auto simp: rp_target_def rp_change_def split: if_splits)
qed (use plain in \<open>simp_all add: rp_plain_def\<close>)

text \<open>With exact counts that are not zero, the living objects are those that are pointed to.\<close>

lemma slots_iff_alive:
  assumes ex: "counts_exact [] s" and nz: "nonzero s"
  shows "Some (Some a) \<in> set (rp_slots s) \<longleftrightarrow> rp_count s a \<noteq> None"
proof (cases "rp_count s a")
  case None
  then have "slot i s \<noteq> Some (Some a)" for i using slot_alive [OF ex, of i a] by blast
  then show ?thesis using None by (auto simp: in_set_conv_nth slot_eqs)
next
  case (Some c)
  then have "unat c = refs [] a s" using ex by (auto simp: counts_exact_def dest!: spec [of _ a])
  moreover have "unat c \<noteq> 0" using nz Some by (auto simp: nonzero_def unat_eq_0)
  ultimately have "refs [] a s \<noteq> 0" by simp
  then show ?thesis using Some by (auto simp: refs_def among_def filter_empty_conv)
qed

section \<open>The invariant\<close>

fun backend_agrees :: "('s, 'a) backend option \<Rightarrow> size_t option \<Rightarrow> ('a \<times> size_t \<times> size_t) option \<Rightarrow> bool" where
  "backend_agrees None c l \<longleftrightarrow> c = None \<and> l = None"
| "backend_agrees (Some b) c l \<longleftrightarrow> c \<noteq> None \<and> l = Some (bk_alloc b, bk_size b, 1)"

definition poly_inv :: "('s, 'a) poly_state \<Rightarrow> bool" where
  "poly_inv s \<longleftrightarrow> counts_exact [] (po_refs s) \<and> nonzero (po_refs s) \<and>
     (\<forall>a. backend_agrees (po_backend s a) (rp_count (po_refs s) a) (ph_live (po_heap s) a))"

lemma poly_invD:
  assumes "poly_inv s"
  shows "counts_exact [] (po_refs s)" "nonzero (po_refs s)"
    "backend_agrees (po_backend s a) (rp_count (po_refs s) a) (ph_live (po_heap s) a)"
  using assms by (simp_all add: poly_inv_def)

lemma backend_agrees_iff: "backend_agrees x c l \<Longrightarrow> x = None \<longleftrightarrow> c = None"
  by (cases x) simp_all

lemma backend_agrees_cong: "backend_agrees x c l \<Longrightarrow> (d = None \<longleftrightarrow> c = None) \<Longrightarrow> backend_agrees x d l"
  by (cases x) (simp_all del: not_None_eq)

lemma backend_agreesD:
  assumes "backend_agrees x c l"
  shows "c = None \<Longrightarrow> x = None" "c = None \<Longrightarrow> l = None"
    "c \<noteq> None \<Longrightarrow> map_option (\<lambda>b. (bk_alloc b, bk_size b, 1)) x = l" "c \<noteq> None \<Longrightarrow> l \<noteq> None"
  using assms by (cases x; simp)+

text \<open>An operation on the slots, with what it destroys.\<close>

lemma poly_refs_inv:
  assumes inv: "poly_inv s" and r: "poly_refs p (rp_exec x) s = Inr s'" and p: "p = rp_target x (po_refs s)" and plain: "rp_plain x"
  shows "poly_inv s'"
proof -
  obtain r where x: "rp_exec x (po_refs s) = Inr r" using r by (auto simp: poly_refs_def split: sum.splits)
  have ex: "counts_exact [] r" using rp_exec_ok [OF poly_invD(1) [OF inv], of x] x by simp
  have c: "rp_change p (po_refs s) r" unfolding p by (rule rp_exec_change [OF poly_invD(1,2) [OF inv] x plain])
  then have nz: "nonzero r" by (simp add: rp_change_def)
  have same: "backend_agrees (po_backend s d) (rp_count r d) (ph_live (po_heap s) d)"
    if "p = Some d \<Longrightarrow> rp_count r d = None \<Longrightarrow> rp_count (po_refs s) d = None" for d
  proof (rule backend_agrees_cong [OF poly_invD(3) [OF inv]])
    show "rp_count r d = None \<longleftrightarrow> rp_count (po_refs s) d = None" using c that unfolding rp_change_def by blast
  qed
  show ?thesis
  proof (cases "\<exists>a b. p = Some a \<and> rp_count r a = None \<and> po_backend s a = Some b")
    case False
    then have "s' = s\<lparr>po_refs := r\<rparr>"
      using r x by (auto simp: poly_refs_def backend_lose_def split: option.splits if_splits)
    moreover have "rp_count (po_refs s) d = None" if "p = Some d" "rp_count r d = None" for d
      using False that backend_agrees_iff [OF poly_invD(3) [OF inv, of d]] by (cases "po_backend s d") blast+
    ultimately show ?thesis using same ex nz by (simp add: poly_inv_def)
  next
    case True
    then obtain a b where a: "p = Some a" "rp_count r a = None" "po_backend s a = Some b" by blast
    then have "ph_live (po_heap s) a = Some (bk_alloc b, bk_size b, 1)" using poly_invD(3) [OF inv, of a] by simp
    then have "s' = s\<lparr>po_refs := r, po_backend := (po_backend s)(a := None),
        po_heap := (po_heap s)\<lparr>ph_live := (ph_live (po_heap s))(a := None)\<rparr>\<rparr>"
      using r x a by (simp add: poly_refs_def backend_lose_def delete_object_def traits_deallocate_def)
    then show ?thesis using same ex nz a(1,2) by (simp add: poly_inv_def)
  qed
qed

lemma create_backend_inv:
  assumes inv: "poly_inv s" and r: "create_backend sched alloc sz v a s = Inr s'"
  shows "poly_inv s'"
proof -
  let ?b = "\<lparr>bk_sched = sched, bk_alloc = alloc, bk_size = sz\<rparr>"
  let ?h = "(po_heap s)\<lparr>ph_live := (ph_live (po_heap s))(a \<mapsto> (alloc, sz, 1))\<rparr>"
  have n: "new_object alloc sz (Inr ?b) a (po_heap s) = Inr (?b, ?h)"
    by (simp add: new_object_def traits_allocate_def)
  obtain r1 where r1: "rp_new_object a (po_refs s) = Inr r1"
    using r by (cases "rp_new_object a (po_refs s)") (simp_all add: create_backend_def n split: if_splits)
  obtain r2 where r2: "rp_from_pointer v (Some a) r1 = Inr r2"
    using r by (cases "rp_from_pointer v (Some a) r1") (simp_all add: create_backend_def n r1 split: if_splits)
  have s': "s' = \<lparr>po_refs = r2, po_backend = (po_backend s)(a \<mapsto> ?b), po_heap = ?h\<rparr>"
    using r by (simp add: create_backend_def n r1 r2 split: if_splits)
  have e1: "counts_exact [] r1" using rp_exec_ok [OF poly_invD(1) [OF inv], of "New_Object a"] r1 by simp
  have e2: "counts_exact [] r2" using rp_exec_ok [OF e1, of "From_Pointer v (Some a)"] r2 by simp
  have c1: "rp_count r1 = (rp_count (po_refs s))(a \<mapsto> 0)"
    using r1 by (auto simp: rp_new_object_def split: if_splits option.splits)
  then have c2: "rp_count r2 = (rp_count (po_refs s))(a \<mapsto> 1)"
    using r2 by (auto simp: rp_from_pointer_def retain_if_def retain_def split: if_splits option.splits)
  show ?thesis using poly_invD [OF inv] e2 by (simp add: s' poly_inv_def c2 nonzero_def)
qed

lemma rp_exec_fun:
  "rp_exec (Copy v w) = rp_copy v w" "rp_exec (Move v w) = rp_move v w" "rp_exec (Destroy v) = rp_destroy v"
  "rp_exec (Copy_Assign v w) = rp_copy_assign v w" "rp_exec (Move_Assign v w) = rp_move_assign v w"
  "rp_exec (Swap v w) = rp_swap v w"
  by (simp_all add: fun_eq_iff)

lemmas poly_refs_invs =
  poly_refs_inv [where x = "Copy v w" for v w, unfolded rp_exec_fun rp_target_def rp_plain_def, simplified]
  poly_refs_inv [where x = "Move v w" for v w, unfolded rp_exec_fun rp_target_def rp_plain_def, simplified]
  poly_refs_inv [where x = "Swap v w" for v w, unfolded rp_exec_fun rp_target_def rp_plain_def, simplified]
  poly_refs_inv [where x = "Copy_Assign v w" for v w, unfolded rp_exec_fun rp_target_def rp_plain_def, simplified]
  poly_refs_inv [where x = "Move_Assign v w" for v w, unfolded rp_exec_fun rp_target_def rp_plain_def, simplified]
  poly_refs_inv [where x = "Destroy v" for v, unfolded rp_exec_fun rp_target_def rp_plain_def, simplified]

lemma poly_exec_inv: "poly_inv s \<Longrightarrow> poly_exec x s = Inr s' \<Longrightarrow> poly_inv s'"
  by (cases x)
    (auto simp: slot_ptr_def poly_with_allocator_def poly_swap_def poly_schedule_def schedule_sender_env_def
      schedule_sender_connect_def intro: create_backend_inv poly_refs_invs split: if_splits)

lemma poly_run_inv: "poly_inv s \<Longrightarrow> poly_run xs s = Inr s' \<Longrightarrow> poly_inv s'"
  by (induction xs arbitrary: s) (auto intro: poly_exec_inv split: sum.splits)

lemma poly_inv_start: "n + 4 < 2 ^ 64 \<Longrightarrow> poly_inv (poly_start n)"
  by (simp add: poly_inv_def poly_start_def counts_exact_start nonzero_def) (simp add: rp_start_def)

lemma backend_lose_errors:
  assumes "backend_agrees (po_backend s a) c (ph_live (po_heap s) a)"
  shows "backend_lose a s \<noteq> Inl e"
  using assms by (cases "po_backend s a") (simp_all add: backend_lose_def delete_object_def traits_deallocate_def)

lemma poly_refs_errors:
  assumes inv: "poly_inv s" and r: "poly_refs p (rp_exec x) s = Inl e"
  shows "e = AssertFailed"
proof (cases "rp_exec x (po_refs s)")
  case (Inl f)
  then show ?thesis using r rp_exec_ok [OF poly_invD(1) [OF inv], of x] by (simp add: poly_refs_def)
next
  case (Inr t)
  have "backend_lose a (s\<lparr>po_refs := t\<rparr>) \<noteq> Inl e" for a
    by (rule backend_lose_errors [where c = "rp_count (po_refs s) a"]) (use poly_invD(3) [OF inv, of a] in simp)
  then show ?thesis using r Inr by (auto simp: poly_refs_def split: option.splits if_splits)
qed

lemmas poly_refs_error =
  poly_refs_errors [where x = "Copy v w" for v w, unfolded rp_exec_fun]
  poly_refs_errors [where x = "Move v w" for v w, unfolded rp_exec_fun]
  poly_refs_errors [where x = "Swap v w" for v w, unfolded rp_exec_fun]
  poly_refs_errors [where x = "Copy_Assign v w" for v w, unfolded rp_exec_fun]
  poly_refs_errors [where x = "Move_Assign v w" for v w, unfolded rp_exec_fun]
  poly_refs_errors [where x = "Destroy v" for v, unfolded rp_exec_fun]

lemma create_backend_errors:
  assumes inv: "poly_inv s" and r: "create_backend sched alloc sz v a s = Inl e"
  shows "e = AssertFailed \<or> e = InvalidArgument"
proof -
  have e1: "rp_ok (rp_new_object a (po_refs s))" using rp_exec_ok [OF poly_invD(1) [OF inv], of "New_Object a"] by simp
  have e2: "rp_ok (rp_from_pointer v (Some a) t)" if "rp_new_object a (po_refs s) = Inr t" for t
    using rp_exec_ok [of t "From_Pointer v (Some a)"] e1 that by simp
  show ?thesis
    using r e1 e2 by (auto simp: create_backend_def new_object_def split: if_splits sum.splits)
qed

lemma poly_exec_errors: "poly_inv s \<Longrightarrow> poly_exec x s = Inl e \<Longrightarrow> e = AssertFailed \<or> e = InvalidArgument"
  by (cases x)
    (auto simp: poly_with_allocator_def poly_swap_def poly_schedule_def schedule_sender_env_def schedule_sender_connect_def
      dest: create_backend_errors poly_refs_error split: if_splits)

lemma poly_run_errors: "poly_inv s \<Longrightarrow> poly_run xs s = Inl e \<Longrightarrow> e = AssertFailed \<or> e = InvalidArgument"
proof (induction xs arbitrary: s)
  case (Cons x xs)
  show ?case
  proof (cases "poly_exec x s")
    case (Inl f)
    then show ?thesis using Cons.prems poly_exec_errors by fastforce
  next
    case (Inr t)
    then show ?thesis using Cons.prems Cons.IH [OF poly_exec_inv [OF Cons.prems(1) Inr]] by simp
  qed
qed simp

section \<open>Comparing and the buffer\<close>

lemma poly_eq_equivp:
  assumes "equivp eq"
  shows "equivp (poly_eq eq)"
proof (rule equivpI)
  show "reflp (poly_eq eq)"
    using equivp_reflp [OF assms] by (auto simp: reflp_def poly_eq_def backend_equals_def split: option.split)
  show "symp (poly_eq eq)"
    using equivp_symp [OF assms] by (auto simp: symp_def poly_eq_def backend_equals_def split: option.splits if_splits)
  show "transp (poly_eq eq)"
    using equivp_transp [OF assms]
    by (auto simp: transp_def poly_eq_def backend_equals_def split: option.splits if_splits)
qed

text \<open>Comparing with a scheduler of a type is comparing what \<open>target\<close> gives for the type.\<close>

lemma poly_eq_target:
  "poly_eq_sched eq p sched \<longleftrightarrow> (\<exists>x. poly_target (sc_type sched) p = Some x \<and> eq x (sc_value sched))"
  by (auto simp: poly_eq_sched_def poly_target_def split: option.split)

lemma poly_eq_backend:
  "poly_eq eq p (Some b) \<longleftrightarrow> poly_eq_sched eq p (bk_sched b)"
  by (auto simp: poly_eq_def poly_eq_sched_def backend_equals_def try_get_scheduler_def split: option.split)

lemma state_holder_roundtrip:
  assumes "ph_live h p = None" and "state_holder_new small_size small_align alloc sz conn p h = Inr ((proxy, x), h')"
  shows "state_holder_destroy proxy h' = Inr h" and "conn = Inr x"
  using assms
  by (auto simp: state_holder_new_def state_holder_destroy_def new_object_def delete_object_def traits_allocate_def
      traits_deallocate_def Let_def fun_upd_idem split: if_splits sum.splits)

text \<open>C39. The backend of a polymorphic scheduler lives exactly as long as something needs it: after any sequence of
  constructions, copies, moves, assignments, swaps, calls of \<open>schedule\<close> and \<open>get_env\<close>, connections and destructions of
  schedulers, senders, environments and operations, what an object points to is a living backend, whose memory is the block
  that its own allocator gave for one object of its size; a backend that nothing points to is gone and its memory is given
  back. On the way no destroyed backend is used and no block is given back to a wrong allocator.
\<close>

theorem polymorphic_backends_owned:
  assumes "n + 4 < 2 ^ 64"
  shows "(case poly_run xs (poly_start n) of
      Inl e \<Rightarrow> e \<in> {AssertFailed, InvalidArgument}
    | Inr s \<Rightarrow> (\<forall>a.
        if Some (Some a) \<in> set (rp_slots (po_refs s))
        then map_option (\<lambda>b. (bk_alloc b, bk_size b, 1)) (po_backend s a) = ph_live (po_heap s) a \<and> ph_live (po_heap s) a \<noteq> None
        else po_backend s a = None \<and> ph_live (po_heap s) a = None))"
proof (cases "poly_run xs (poly_start n)")
  case (Inl e)
  then show ?thesis using poly_run_errors [OF poly_inv_start [OF assms]] by auto
next
  case (Inr s)
  then have inv: "poly_inv s" using poly_run_inv [OF poly_inv_start [OF assms]] by blast
  have "Some (Some a) \<in> set (rp_slots (po_refs s)) \<longleftrightarrow> rp_count (po_refs s) a \<noteq> None" for a
    by (rule slots_iff_alive [OF poly_invD(1,2) [OF inv]])
  then show ?thesis using Inr backend_agreesD [OF poly_invD(3) [OF inv]] by (simp del: not_None_eq)
qed

theorem polymorphic_backends_owned_witness:
  "(case poly_run [Poly_New 0 7 \<lparr>sc_type = 1, sc_value = True\<rparr> (5 :: nat) 24, Poly_Schedule 1 0, Poly_Env 2 1, Poly_Connect 3 1,
        Poly_Destroy 0, Poly_Destroy 3, Poly_Destroy 2] (poly_start 4) of
      Inl e \<Rightarrow> e \<in> {AssertFailed, InvalidArgument}
    | Inr s \<Rightarrow> (\<forall>a.
        if Some (Some a) \<in> set (rp_slots (po_refs s))
        then map_option (\<lambda>b. (bk_alloc b, bk_size b, 1)) (po_backend s a) = ph_live (po_heap s) a \<and> ph_live (po_heap s) a \<noteq> None
        else po_backend s a = None \<and> ph_live (po_heap s) a = None))"
  by (rule polymorphic_backends_owned) simp

text \<open>That program runs to its end, when nothing is left.\<close>

lemma polymorphic_program:
  "(case poly_run [Poly_New 0 7 \<lparr>sc_type = 1, sc_value = True\<rparr> (5 :: nat) 24, Poly_Schedule 1 0, Poly_Env 2 1, Poly_Connect 3 1,
        Poly_Destroy 0, Poly_Destroy 3] (poly_start 4) of
      Inl e \<Rightarrow> False
    | Inr s \<Rightarrow> po_backend s 7 \<noteq> None \<and> rp_count (po_refs s) 7 = Some 1 \<and>
        (case poly_exec (Poly_Destroy 2) s of Inl e \<Rightarrow> False | Inr s \<Rightarrow> po_backend s 7 = None \<and> ph_live (po_heap s) 7 = None))"
  by code_simp

end
