(* ===== verification/Type_Lists.thy ===== *)
theory Type_Lists
  imports Prelude
begin

text \<open>
  \<open>type_list\<close> of \<open>include/coio/utils/type_traits.h\<close>: the computations that the compiler makes on lists of types, which choose the
  completion signatures of senders. A type is any value, a \<open>type_list\<close> the list of its types; a helper template is a function
  whose patterns are its specialisations, with its accumulator. An instantiation that does not compile is \<^term>\<open>None\<close>.
\<close>

section \<open>The helpers\<close>

definition npos :: size_t where "npos = - 1"

fun type_list_find_helper :: "size_t \<Rightarrow> 't \<Rightarrow> 't list \<Rightarrow> size_t" where
  "type_list_find_helper i t [] = npos"
| "type_list_find_helper i t (u # types) = (if u = t then i else type_list_find_helper (i + 1) t types)"

fun type_list_at_helper :: "nat \<Rightarrow> 't list \<Rightarrow> 't option" where
  "type_list_at_helper i [] = None"
| "type_list_at_helper 0 (first # rest) = Some first"
| "type_list_at_helper (Suc i) (first # rest) = type_list_at_helper i rest"

definition type_list_concat2_helper :: "'t list \<Rightarrow> 't list \<Rightarrow> 't list" where
  "type_list_concat2_helper xs ys = xs @ ys"

fun type_list_concat_helper :: "'t list list \<Rightarrow> 't list" where
  "type_list_concat_helper [] = []"
| "type_list_concat_helper [xs] = xs"
| "type_list_concat_helper (first # second # rest) = type_list_concat_helper (type_list_concat2_helper first second # rest)"

fun type_list_pop_front_helper :: "'t list \<Rightarrow> 't list option" where
  "type_list_pop_front_helper (first # rest) = Some rest"
| "type_list_pop_front_helper [] = None"

fun type_list_pop_back_helper :: "'t list \<Rightarrow> 't list \<Rightarrow> 't list option" where
  "type_list_pop_back_helper types [] = None"
| "type_list_pop_back_helper types [t] = Some types"
| "type_list_pop_back_helper types (first # rest) = type_list_pop_back_helper (types @ [first]) rest"

fun type_list_reverse_helper :: "'t list \<Rightarrow> 't list \<Rightarrow> 't list" where
  "type_list_reverse_helper types [] = types"
| "type_list_reverse_helper types (first # rest) = type_list_reverse_helper (first # types) rest"

definition type_list_replace_helper :: "'t \<Rightarrow> 't \<Rightarrow> 't \<Rightarrow> 't" where
  "type_list_replace_helper t u v = (if v = t then u else v)"

fun type_list_remove_helper :: "'t list \<Rightarrow> 't list \<Rightarrow> 't \<Rightarrow> 't list" where
  "type_list_remove_helper out [] t = out"
| "type_list_remove_helper out (first # rest) t =
     (if first = t then type_list_remove_helper out rest t else type_list_remove_helper (out @ [first]) rest t)"

lemma remove_helper_eq: "type_list_remove_helper out xs t = out @ filter (\<lambda>x. x \<noteq> t) xs"
  by (induction out xs t rule: type_list_remove_helper.induct) auto

function (sequential) type_list_unique_helper :: "'t list \<Rightarrow> 't list \<Rightarrow> 't list" where
  "type_list_unique_helper out [] = out"
| "type_list_unique_helper out (first # rest) =
     type_list_unique_helper (out @ [first]) (type_list_remove_helper [] (first # rest) first)"
  by pat_completeness auto
termination
  by (relation "measure (\<lambda>(out, types). length types)") (auto simp: remove_helper_eq less_Suc_eq_le)

fun type_list_filter_helper :: "'t list \<Rightarrow> 't list \<Rightarrow> ('t \<Rightarrow> bool) \<Rightarrow> 't list" where
  "type_list_filter_helper out [] pred = out"
| "type_list_filter_helper out (first # rest) pred =
     type_list_filter_helper (if pred first then out @ [first] else out) rest pred"

section \<open>The members\<close>

text \<open>The specialisation for the empty list is written out where it differs.\<close>

definition tl_find :: "'t \<Rightarrow> 't list \<Rightarrow> size_t" where
  "tl_find t types = (case types of [] \<Rightarrow> npos | _ \<Rightarrow> type_list_find_helper 0 t types)"

text \<open>The empty list spells this member \<open>containes\<close>, so that \<open>contains\<close> does not compile there.\<close>

definition tl_contains :: "'t \<Rightarrow> 't list \<Rightarrow> bool option" where
  "tl_contains t types = (case types of [] \<Rightarrow> None | _ \<Rightarrow> Some (tl_find t types \<noteq> npos))"

definition tl_at :: "nat \<Rightarrow> 't list \<Rightarrow> 't option" where
  "tl_at i types = type_list_at_helper i types"

definition tl_concat :: "'t list list \<Rightarrow> 't list \<Rightarrow> 't list" where
  "tl_concat more_lists types = type_list_concat_helper (types # more_lists)"

definition tl_push_front :: "'t \<Rightarrow> 't list \<Rightarrow> 't list" where "tl_push_front t types = t # types"
definition tl_push_back :: "'t \<Rightarrow> 't list \<Rightarrow> 't list" where "tl_push_back t types = types @ [t]"
definition tl_prepend :: "'t list \<Rightarrow> 't list \<Rightarrow> 't list" where "tl_prepend new types = new @ types"
definition tl_append :: "'t list \<Rightarrow> 't list \<Rightarrow> 't list" where "tl_append new types = types @ new"

definition tl_pop_front :: "'t list \<Rightarrow> 't list option" where
  "tl_pop_front types = type_list_pop_front_helper types"

definition tl_pop_back :: "'t list \<Rightarrow> 't list option" where
  "tl_pop_back types = type_list_pop_back_helper [] types"

definition tl_reverse :: "'t list \<Rightarrow> 't list" where
  "tl_reverse types = (case types of [] \<Rightarrow> [] | _ \<Rightarrow> type_list_reverse_helper [] types)"

definition tl_remove :: "'t \<Rightarrow> 't list \<Rightarrow> 't list" where
  "tl_remove t types = (case types of [] \<Rightarrow> [] | _ \<Rightarrow> type_list_remove_helper [] types t)"

text \<open>A template \<open>F\<close> takes any number of types. The empty list applies it to none.\<close>

definition tl_transform :: "('t list \<Rightarrow> 'u) \<Rightarrow> 't list \<Rightarrow> 'u list" where
  "tl_transform F types = (case types of [] \<Rightarrow> [F []] | _ \<Rightarrow> map (\<lambda>t. F [t]) types)"

definition tl_replace :: "'t \<Rightarrow> 't \<Rightarrow> 't list \<Rightarrow> 't list" where
  "tl_replace t u types = (case types of [] \<Rightarrow> [] | _ \<Rightarrow> map (type_list_replace_helper t u) types)"

definition tl_apply :: "('t list \<Rightarrow> 'u) \<Rightarrow> 't list \<Rightarrow> 'u" where "tl_apply F types = F types"

definition tl_unique :: "'t list \<Rightarrow> 't list" where
  "tl_unique types = (case types of [] \<Rightarrow> [] | _ \<Rightarrow> type_list_unique_helper [] types)"

definition tl_filter :: "('t \<Rightarrow> bool) \<Rightarrow> 't list \<Rightarrow> 't list" where
  "tl_filter pred types = (case types of [] \<Rightarrow> [] | _ \<Rightarrow> type_list_filter_helper [] types pred)"

section \<open>They are the operations of lists\<close>

lemma find_helper_eq:
  "unat i + length types < 2 ^ 64 \<Longrightarrow>
   type_list_find_helper i t types = (if t \<in> set types then i + of_nat (length (takeWhile (\<lambda>u. u \<noteq> t) types)) else npos)"
proof (induction i t types rule: type_list_find_helper.induct)
  case (2 i t u types)
  then have "unat (i + 1) = unat i + 1" by (simp add: unat_add_lt)
  with 2 show ?case by (auto simp: add.assoc)
qed simp

lemma at_helper_eq: "type_list_at_helper i types = (if i < length types then Some (types ! i) else None)"
  by (induction i types rule: type_list_at_helper.induct) auto

lemma concat_helper_eq: "type_list_concat_helper more_lists = concat more_lists"
  by (induction more_lists rule: type_list_concat_helper.induct) (auto simp: type_list_concat2_helper_def)

lemma pop_back_helper_eq: "type_list_pop_back_helper types rest = (if rest = [] then None else Some (types @ butlast rest))"
  by (induction types rest rule: type_list_pop_back_helper.induct) auto

lemma reverse_helper_eq: "type_list_reverse_helper types rest = rev rest @ types"
  by (induction types rest rule: type_list_reverse_helper.induct) auto

lemma filter_helper_eq: "type_list_filter_helper out types pred = out @ filter pred types"
  by (induction out types pred rule: type_list_filter_helper.induct) auto

text \<open>\<open>unique\<close> keeps the first of equal types.\<close>

fun firsts :: "'t list \<Rightarrow> 't list" where
  "firsts [] = []"
| "firsts (x # xs) = x # filter (\<lambda>y. y \<noteq> x) (firsts xs)"

lemma set_firsts [simp]: "set (firsts xs) = set xs"
  by (induction xs) auto

lemma distinct_firsts [simp]: "distinct (firsts xs)"
  by (induction xs) auto

lemma firsts_filter: "firsts (filter P xs) = filter P (firsts xs)"
proof (induction xs)
  case (Cons x xs)
  show ?case
  proof (cases "P x")
    case True
    then show ?thesis using Cons.IH by (auto simp: conj_commute)
  next
    case False
    then have "filter P (filter (\<lambda>y. y \<noteq> x) (firsts xs)) = filter P (firsts xs)"
      by (auto intro: filter_cong)
    then show ?thesis using Cons.IH False by simp
  qed
qed simp

lemma firsts_append: "firsts (xs @ ys) = firsts xs @ filter (\<lambda>y. y \<notin> set xs) (firsts ys)"
  by (induction xs) (auto intro: filter_cong)

lemma firsts_distinct: "distinct xs \<Longrightarrow> firsts xs = xs"
  by (induction xs) (auto simp: filter_id_conv)

lemma unique_helper_eq: "type_list_unique_helper out types = out @ firsts types"
proof (induction out types rule: type_list_unique_helper.induct)
  case (2 out first rest)
  then show ?case by (simp add: remove_helper_eq firsts_filter)
qed simp

lemma tl_find_eq:
  "length types < 2 ^ 64 \<Longrightarrow>
   tl_find t types = (if t \<in> set types then of_nat (length (takeWhile (\<lambda>u. u \<noteq> t) types)) else npos)"
  using find_helper_eq [of 0 types t] by (cases types) (auto simp: tl_find_def)

lemma tl_contains_eq:
  assumes "length types < 2 ^ 64"
  shows "tl_contains t types = (if types = [] then None else Some (t \<in> set types))"
proof (cases "t \<in> set types")
  case True
  let ?k = "length (takeWhile (\<lambda>u. u \<noteq> t) types)"
  have "?k < length types" using True by (induction types) auto
  then have k: "?k < 2 ^ 64 - 1" using assms by linarith
  then have "unat (of_nat ?k :: size_t) = ?k" by (simp add: unat_of_nat_small)
  moreover have "unat npos = 2 ^ 64 - 1" by (simp add: npos_def unsigned_minus_1_eq_mask mask_eq_exp_minus_1)
  ultimately have "(of_nat ?k :: size_t) \<noteq> npos" using k by auto
  then show ?thesis using True tl_find_eq [OF assms] by (cases types) (auto simp: tl_contains_def)
next
  case False
  then show ?thesis using tl_find_eq [OF assms] by (cases types) (auto simp: tl_contains_def)
qed

lemma tl_members:
  "tl_at i types = (if i < length types then Some (types ! i) else None)"
  "tl_concat more_lists types = types @ concat more_lists"
  "tl_pop_front types = (if types = [] then None else Some (tl types))"
  "tl_pop_back types = (if types = [] then None else Some (butlast types))"
  "tl_reverse types = rev types"
  "tl_remove t types = filter (\<lambda>u. u \<noteq> t) types"
  "tl_replace t u types = map (\<lambda>v. if v = t then u else v) types"
  "tl_unique types = firsts types"
  "tl_filter pred types = filter pred types"
  by (cases types; simp add: tl_at_def at_helper_eq tl_concat_def concat_helper_eq tl_pop_front_def tl_pop_back_def
      pop_back_helper_eq tl_reverse_def reverse_helper_eq tl_remove_def remove_helper_eq tl_replace_def
      type_list_replace_helper_def tl_unique_def unique_helper_eq tl_filter_def filter_helper_eq)+

text \<open>\<open>transform\<close> is the map of a list, but for the empty list, which becomes a list of one type.\<close>

lemma tl_transform_eq: "tl_transform F types = (if types = [] then [F []] else map (\<lambda>t. F [t]) types)"
  by (cases types) (simp_all add: tl_transform_def)

lemma tl_transform_size_empty: "length (tl_transform F []) = length ([] :: 't list) + 1"
  by (simp add: tl_transform_def)

end
