(* ===== verification/Sender_Env.thy ===== *)
theory Sender_Env
  imports Type_Lists
begin

text \<open>
  What \<open>include/coio/detail/execution.h\<close> adds to \<open>std::execution\<close>: kinds of completion signatures and their union, environments
  that are joined, filtered or appended as a fallback, and the schedulers that cannot fail; and \<open>variant_sender\<close> of
  \<open>include/coio/utils/variant_sender.h\<close>.

  An environment answers some queries: it is a partial function, and a query that does not compile is \<^term>\<open>None\<close>. Which
  queries are forwarded (\<open>forwarding_query\<close>) is that of the implementation of \<open>std::execution\<close>: the parameter \<open>fwd\<close>.
\<close>

section \<open>Completion signatures\<close>

datatype 't signature = SetValueSig "'t list" | SetErrorSig 't | SetStoppedSig

definition is_set_value :: "'t signature \<Rightarrow> bool" where
  "is_set_value s = (case s of SetValueSig _ \<Rightarrow> True | _ \<Rightarrow> False)"

definition is_set_error :: "'t signature \<Rightarrow> bool" where
  "is_set_error s = (case s of SetErrorSig _ \<Rightarrow> True | _ \<Rightarrow> False)"

definition is_set_stopped :: "'t signature \<Rightarrow> bool" where
  "is_set_stopped s = (case s of SetStoppedSig \<Rightarrow> True | _ \<Rightarrow> False)"

text \<open>\<open>set_value_t\<close> of one type \<open>void\<close> has no arguments.\<close>

definition set_value_sig :: "'t \<Rightarrow> 't list \<Rightarrow> 't signature" where
  "set_value_sig void args = (if args = [void] then SetValueSig [] else SetValueSig args)"

fun completion_signature_helper :: "'t signature list \<Rightarrow> 't signature list list \<Rightarrow> 't signature list" where
  "completion_signature_helper prev [] = prev"
| "completion_signature_helper prev (sigs # rest) = completion_signature_helper (tl_unique (prev @ sigs)) rest"

definition merge_completion_signatures :: "'t signature list list \<Rightarrow> 't signature list" where
  "merge_completion_signatures sigs = completion_signature_helper [] sigs"

definition set_value_types :: "'t signature list \<Rightarrow> 't signature list" where
  "set_value_types sigs = tl_filter is_set_value sigs"

definition set_error_types :: "'t signature list \<Rightarrow> 't signature list" where
  "set_error_types sigs = tl_filter is_set_error sigs"

definition set_stopped_types :: "'t signature list \<Rightarrow> 't signature list" where
  "set_stopped_types sigs = tl_filter is_set_stopped sigs"

lemma helper_eq: "distinct prev \<Longrightarrow> completion_signature_helper prev sigs = prev @ filter (\<lambda>s. s \<notin> set prev) (firsts (concat sigs))"
proof (induction prev sigs rule: completion_signature_helper.induct)
  case (2 prev sigs rest)
  have p: "tl_unique (prev @ sigs) = prev @ filter (\<lambda>s. s \<notin> set prev) (firsts sigs)"
    using 2(2) by (simp add: tl_members firsts_append firsts_distinct)
  have d: "distinct (tl_unique (prev @ sigs))" by (simp add: tl_members)
  show ?case
    using 2(1) [OF d] by (auto simp: p firsts_append intro: filter_cong)
qed simp

lemma merge_eq: "merge_completion_signatures sigs = firsts (concat sigs)"
  by (simp add: merge_completion_signatures_def helper_eq)

text \<open>The three kinds, in their order, are all of the signatures.\<close>

lemma signature_kinds:
  fixes sigs :: "'t signature list"
  shows "length (set_value_types sigs) + length (set_error_types sigs) + length (set_stopped_types sigs) = length sigs"
    and "set sigs = set (set_value_types sigs) \<union> set (set_error_types sigs) \<union> set (set_stopped_types sigs)"
proof -
  show "length (set_value_types sigs) + length (set_error_types sigs) + length (set_stopped_types sigs) = length sigs"
    by (induction sigs)
      (auto simp: set_value_types_def set_error_types_def set_stopped_types_def tl_members is_set_value_def is_set_error_def
        is_set_stopped_def split: signature.split)
  have "is_set_value s \<or> is_set_error s \<or> is_set_stopped s" for s :: "'t signature"
    by (cases s) (simp_all add: is_set_value_def is_set_error_def is_set_stopped_def)
  then show "set sigs = set (set_value_types sigs) \<union> set (set_error_types sigs) \<union> set (set_stopped_types sigs)"
    by (auto simp: set_value_types_def set_error_types_def set_stopped_types_def tl_members)
qed

section \<open>Environments\<close>

datatype query = GetAllocator | GetStopToken | GetStartScheduler | GetScheduler | OtherQuery nat

type_synonym 'v environ = "query \<Rightarrow> 'v option"

definition query_or :: "query \<Rightarrow> 'v environ \<Rightarrow> 'v \<Rightarrow> 'v" where
  "query_or prop env default_value = (case env prop of Some v \<Rightarrow> v | None \<Rightarrow> default_value)"

definition get_suitable_start_scheduler :: "'v \<Rightarrow> 'v environ \<Rightarrow> 'v" where
  "get_suitable_start_scheduler inline_scheduler env =
     (case env GetStartScheduler of
        Some s \<Rightarrow> s
      | None \<Rightarrow> (case env GetScheduler of Some s \<Rightarrow> s | None \<Rightarrow> inline_scheduler))"

definition get_suitable_allocator :: "'v \<Rightarrow> 'v environ \<Rightarrow> 'v" where
  "get_suitable_allocator std_allocator env = query_or GetAllocator env std_allocator"

text \<open>An environment that is already forwarded is not wrapped again.\<close>

datatype 'v wrapped_env = Plain_Env "'v environ" | Fwd_Env "'v environ"

definition fwd_env :: "'v wrapped_env \<Rightarrow> 'v wrapped_env" where
  "fwd_env e = (case e of Fwd_Env env \<Rightarrow> Fwd_Env env | Plain_Env env \<Rightarrow> Fwd_Env env)"

fun env_query :: "(query \<Rightarrow> bool) \<Rightarrow> 'v wrapped_env \<Rightarrow> 'v environ" where
  "env_query fwd (Plain_Env env) q = env q"
| "env_query fwd (Fwd_Env env) q = (if fwd q then env q else None)"

definition join_env :: "'v environ \<Rightarrow> 'v environ \<Rightarrow> 'v environ" where
  "join_env env1 env2 q = (case env1 q of Some v \<Rightarrow> Some v | None \<Rightarrow> env2 q)"

lemma fwd_env_query: "env_query fwd (fwd_env e) q = (if fwd q then env_query fwd e q else None)"
  by (cases e) (simp_all add: fwd_env_def)

lemma fwd_env_idem: "fwd_env (fwd_env e) = fwd_env e"
  by (simp add: fwd_env_def split: wrapped_env.split)

lemma join_env_assoc: "join_env (join_env a b) c = join_env a (join_env b c)"
  by (simp add: join_env_def fun_eq_iff split: option.split)

section \<open>Fallback environments\<close>

text \<open>
  A receiver changes a world when it is called. A sender is what connecting and starting it does to the world, its signatures
  in the environment of a receiver, and its own environment.
\<close>

record ('t, 'a, 'v, 'w) sig_receiver =
  rc_call :: "'t signature \<Rightarrow> 'a \<Rightarrow> 'w \<Rightarrow> 'w"
  rc_env :: "'v environ"

record ('t, 'a, 'v, 'w) sig_sender =
  sn_start :: "('t, 'a, 'v, 'w) sig_receiver \<Rightarrow> 'w \<Rightarrow> 'w"
  sn_signatures :: "'v environ \<Rightarrow> 't signature list"
  sn_env :: "'v environ"

definition fallback_receiver :: "('t, 'a, 'v, 'w) sig_receiver \<Rightarrow> 'v environ \<Rightarrow> ('t, 'a, 'v, 'w) sig_receiver" where
  "fallback_receiver rcvr fallback = \<lparr>rc_call = rc_call rcvr, rc_env = join_env (rc_env rcvr) fallback\<rparr>"

definition append_fallback_env :: "('t, 'a, 'v, 'w) sig_sender \<Rightarrow> 'v environ \<Rightarrow> ('t, 'a, 'v, 'w) sig_sender" where
  "append_fallback_env child fallback =
     \<lparr>sn_start = (\<lambda>rcvr. sn_start child (fallback_receiver rcvr fallback)),
      sn_signatures = (\<lambda>env. sn_signatures child (join_env env fallback)),
      sn_env = sn_env child\<rparr>"

text \<open>Fallbacks nest: the receiver is asked first, then the fallback that was appended last.\<close>

lemma append_fallback_twice:
  "append_fallback_env (append_fallback_env child inner) outer = append_fallback_env child (join_env outer inner)"
  by (simp add: append_fallback_env_def fallback_receiver_def join_env_assoc)

lemma append_fallback_query:
  "rc_env (fallback_receiver rcvr fallback) q = (case rc_env rcvr q of Some v \<Rightarrow> Some v | None \<Rightarrow> fallback q)"
  by (simp add: fallback_receiver_def join_env_def)

section \<open>Schedulers that cannot fail\<close>

text \<open>\<open>sigs\<close> are the signatures of the \<open>schedule\<close> sender; \<open>unstoppable\<close> is what the stop token of the environment is.\<close>

definition infallible_scheduler :: "'t signature list \<Rightarrow> bool \<Rightarrow> bool" where
  "infallible_scheduler sigs unstoppable \<longleftrightarrow>
     sigs = [SetValueSig []] \<or>
     \<not> unstoppable \<and> (sigs = [SetValueSig [], SetStoppedSig] \<or> sigs = [SetStoppedSig, SetValueSig []])"

lemma infallible_no_error: "infallible_scheduler sigs unstoppable \<Longrightarrow> set_error_types sigs = []"
  by (auto simp: infallible_scheduler_def set_error_types_def tl_members is_set_error_def)

lemma infallible_unstoppable: "infallible_scheduler sigs True \<longleftrightarrow> sigs = [SetValueSig []]"
  by (simp add: infallible_scheduler_def)

section \<open>Variants of senders\<close>

text \<open>\<open>variant_sender\<close> is the index of the alternative that it holds and that sender.\<close>

type_synonym ('t, 'a, 'v, 'w) variant_sender = "nat \<times> ('t, 'a, 'v, 'w) sig_sender"

definition variant_start :: "('t, 'a, 'v, 'w) variant_sender \<Rightarrow> ('t, 'a, 'v, 'w) sig_receiver \<Rightarrow> 'w \<Rightarrow> 'w" where
  "variant_start v rcvr = sn_start (snd v) rcvr"

definition variant_signatures :: "('t, 'a, 'v, 'w) sig_sender list \<Rightarrow> 'v environ \<Rightarrow> 't signature list" where
  "variant_signatures alts env = merge_completion_signatures (map (\<lambda>s. sn_signatures s env) alts)"

text \<open>A sender completes as it declares, when its receiver sees only calls with signatures of the list.\<close>

definition completes_declared :: "('t, 'a, 'v, 'w) sig_sender \<Rightarrow> bool" where
  "completes_declared s \<longleftrightarrow>
     (\<forall>call call' env w. (\<forall>sig \<in> set (sn_signatures s env). call sig = call' sig) \<longrightarrow>
        sn_start s \<lparr>rc_call = call, rc_env = env\<rparr> w = sn_start s \<lparr>rc_call = call', rc_env = env\<rparr> w)"

lemma append_fallback_declared: "completes_declared child \<Longrightarrow> completes_declared (append_fallback_env child fallback)"
  by (simp add: completes_declared_def append_fallback_env_def fallback_receiver_def)

text \<open>The declared signatures of a variant are each named once, are those of its alternatives, and whatever alternative is held,
  the receiver is called with no other.\<close>

lemma variant_declares:
  assumes "i < length alts" and "completes_declared (alts ! i)"
  shows "distinct (variant_signatures alts env)"
    and "set (variant_signatures alts env) = (\<Union>s\<in>set alts. set (sn_signatures s env))"
    and "(\<forall>sig \<in> set (variant_signatures alts env). call sig = call' sig) \<Longrightarrow>
      variant_start (i, alts ! i) \<lparr>rc_call = call, rc_env = env\<rparr> w =
      variant_start (i, alts ! i) \<lparr>rc_call = call', rc_env = env\<rparr> w"
proof -
  show "distinct (variant_signatures alts env)" by (simp add: variant_signatures_def merge_eq)
  show s: "set (variant_signatures alts env) = (\<Union>s\<in>set alts. set (sn_signatures s env))"
    by (auto simp: variant_signatures_def merge_eq)
  have "set (sn_signatures (alts ! i) env) \<subseteq> set (variant_signatures alts env)" using nth_mem [OF assms(1)] by (auto simp: s)
  then show "(\<forall>sig \<in> set (variant_signatures alts env). call sig = call' sig) \<Longrightarrow>
      variant_start (i, alts ! i) \<lparr>rc_call = call, rc_env = env\<rparr> w =
      variant_start (i, alts ! i) \<lparr>rc_call = call', rc_env = env\<rparr> w"
    using assms(2) unfolding completes_declared_def variant_start_def snd_conv by blast
qed

end
