(* ===== verification/One_Shot.thy ===== *)
theory One_Shot
  imports Sender_Env "HOL-Library.Multiset"
begin

text \<open>
  The senders that can be connected once: those of \<open>async_mutex\<close>, \<open>async_semaphore\<close> and \<open>async_latch\<close>
  (\<open>include/coio/sync_primitives.h\<close>), \<open>sleep_sender\<close> of the event loops (\<open>include/coio/execution_context.h\<close>),
  \<open>signal_wait_sender\<close> (\<open>include/coio/utils/signal_wait.h\<close>) and \<open>task\<close> (\<open>include/coio/task.h\<close>). Each holds what it needs (a mutex, a
  deadline, a coroutine), gives it away when it is moved from, and loses it to the operation that connecting makes.

  The members of such a class are collected in \<open>sender_class\<close>; a program constructs, moves, assigns, connects and destroys
  objects of it, which live in slots. What an object holds when it is overwritten or destroyed is let go; a task destroys its
  coroutine.
\<close>

record ('s, 'r) sender_class =
  sc_new :: "'r \<Rightarrow> 's"
  sc_move :: "'s \<Rightarrow> 's \<times> 's"
  sc_assign :: "'s \<Rightarrow> 's \<Rightarrow> 's \<times> 's"
  sc_connect :: "'s \<Rightarrow> error + ('r \<times> 's)"
  sc_holds :: "'s \<Rightarrow> 'r option"

text \<open>\<open>sc_move\<close> gives the new object and the other, \<open>sc_assign\<close> the assigned object and the other.\<close>

section \<open>The classes\<close>

subsection \<open>\<open>async_mutex::lock_sender\<close>\<close>

record lock_sender =
  lk_mtx :: ptr

definition lock_sender_new :: "addr \<Rightarrow> lock_sender" where
  "lock_sender_new m = \<lparr>lk_mtx = Some m\<rparr>"

definition lock_sender_move :: "lock_sender \<Rightarrow> lock_sender \<times> lock_sender" where
  "lock_sender_move other = (\<lparr>lk_mtx = lk_mtx other\<rparr>, other\<lparr>lk_mtx := None\<rparr>)"

definition lock_sender_assign :: "lock_sender \<Rightarrow> lock_sender \<Rightarrow> lock_sender \<times> lock_sender" where
  "lock_sender_assign s other = (s\<lparr>lk_mtx := lk_mtx other\<rparr>, other\<lparr>lk_mtx := None\<rparr>)"

definition lock_sender_connect :: "lock_sender \<Rightarrow> error + (addr \<times> lock_sender)" where
  "lock_sender_connect s = (case lk_mtx s of None \<Rightarrow> Inl AssertFailed | Some m \<Rightarrow> Inr (m, s\<lparr>lk_mtx := None\<rparr>))"

definition lock_class :: "(lock_sender, addr) sender_class" where
  "lock_class = \<lparr>sc_new = lock_sender_new, sc_move = lock_sender_move, sc_assign = lock_sender_assign,
     sc_connect = lock_sender_connect, sc_holds = lk_mtx\<rparr>"

subsection \<open>\<open>async_semaphore::acquire_sender\<close>\<close>

record acquire_sender =
  aq_sema :: ptr

definition acquire_sender_new :: "addr \<Rightarrow> acquire_sender" where
  "acquire_sender_new m = \<lparr>aq_sema = Some m\<rparr>"

definition acquire_sender_move :: "acquire_sender \<Rightarrow> acquire_sender \<times> acquire_sender" where
  "acquire_sender_move other = (\<lparr>aq_sema = aq_sema other\<rparr>, other\<lparr>aq_sema := None\<rparr>)"

text \<open>The parameter is moved from the other object and swapped.\<close>

definition acquire_sender_assign :: "acquire_sender \<Rightarrow> acquire_sender \<Rightarrow> acquire_sender \<times> acquire_sender" where
  "acquire_sender_assign s other =
     (case acquire_sender_move other of (param, other) \<Rightarrow> (s\<lparr>aq_sema := aq_sema param\<rparr>, other))"

definition acquire_sender_connect :: "acquire_sender \<Rightarrow> error + (addr \<times> acquire_sender)" where
  "acquire_sender_connect s = (case aq_sema s of None \<Rightarrow> Inl AssertFailed | Some m \<Rightarrow> Inr (m, s\<lparr>aq_sema := None\<rparr>))"

definition acquire_class :: "(acquire_sender, addr) sender_class" where
  "acquire_class = \<lparr>sc_new = acquire_sender_new, sc_move = acquire_sender_move, sc_assign = acquire_sender_assign,
     sc_connect = acquire_sender_connect, sc_holds = aq_sema\<rparr>"

subsection \<open>\<open>async_latch::wait_sender\<close>\<close>

record wait_sender =
  wt_latch :: ptr
  wt_n :: int

definition wait_sender_new :: "addr \<times> int \<Rightarrow> wait_sender" where
  "wait_sender_new r = \<lparr>wt_latch = Some (fst r), wt_n = snd r\<rparr>"

definition wait_sender_move :: "wait_sender \<Rightarrow> wait_sender \<times> wait_sender" where
  "wait_sender_move other = (\<lparr>wt_latch = wt_latch other, wt_n = wt_n other\<rparr>, other\<lparr>wt_latch := None, wt_n := 0\<rparr>)"

definition wait_sender_assign :: "wait_sender \<Rightarrow> wait_sender \<Rightarrow> wait_sender \<times> wait_sender" where
  "wait_sender_assign s other =
     (s\<lparr>wt_latch := wt_latch other, wt_n := wt_n other\<rparr>, other\<lparr>wt_latch := None, wt_n := 0\<rparr>)"

definition wait_sender_connect :: "wait_sender \<Rightarrow> error + ((addr \<times> int) \<times> wait_sender)" where
  "wait_sender_connect s =
     (case wt_latch s of None \<Rightarrow> Inl AssertFailed | Some l \<Rightarrow> Inr ((l, wt_n s), s\<lparr>wt_latch := None, wt_n := 0\<rparr>))"

definition wait_class :: "(wait_sender, addr \<times> int) sender_class" where
  "wait_class = \<lparr>sc_new = wait_sender_new, sc_move = wait_sender_move, sc_assign = wait_sender_assign,
     sc_connect = wait_sender_connect, sc_holds = (\<lambda>s. map_option (\<lambda>l. (l, wt_n s)) (wt_latch s))\<rparr>"

subsection \<open>\<open>loop_base::sleep_sender\<close>\<close>

text \<open>Deadlines count the ticks of the steady clock; its epoch is 0.\<close>

record sleep_sender =
  sl_ctx :: ptr
  sl_deadline :: int

definition sleep_sender_new :: "addr \<times> int \<Rightarrow> sleep_sender" where
  "sleep_sender_new r = \<lparr>sl_ctx = Some (fst r), sl_deadline = snd r\<rparr>"

definition sleep_sender_move :: "sleep_sender \<Rightarrow> sleep_sender \<times> sleep_sender" where
  "sleep_sender_move other =
     (\<lparr>sl_ctx = sl_ctx other, sl_deadline = sl_deadline other\<rparr>, other\<lparr>sl_ctx := None, sl_deadline := 0\<rparr>)"

definition sleep_sender_assign :: "sleep_sender \<Rightarrow> sleep_sender \<Rightarrow> sleep_sender \<times> sleep_sender" where
  "sleep_sender_assign s other =
     (s\<lparr>sl_ctx := sl_ctx other, sl_deadline := sl_deadline other\<rparr>, other\<lparr>sl_ctx := None, sl_deadline := 0\<rparr>)"

definition sleep_sender_connect :: "sleep_sender \<Rightarrow> error + ((addr \<times> int) \<times> sleep_sender)" where
  "sleep_sender_connect s =
     (case sl_ctx s of None \<Rightarrow> Inl AssertFailed | Some c \<Rightarrow> Inr ((c, sl_deadline s), s\<lparr>sl_ctx := None, sl_deadline := 0\<rparr>))"

definition sleep_class :: "(sleep_sender, addr \<times> int) sender_class" where
  "sleep_class = \<lparr>sc_new = sleep_sender_new, sc_move = sleep_sender_move, sc_assign = sleep_sender_assign,
     sc_connect = sleep_sender_connect, sc_holds = (\<lambda>s. map_option (\<lambda>c. (c, sl_deadline s)) (sl_ctx s))\<rparr>"

text \<open>\<open>schedule_at\<close> and \<open>schedule_after\<close> of the scheduler \<open>ctx\<close>; the duration is \<open>n\<close> periods of \<open>p\<close> units, a tick is \<open>q\<close> units.\<close>

definition loop_schedule_at :: "ptr \<Rightarrow> int \<Rightarrow> error + sleep_sender" where
  "loop_schedule_at ctx deadline = (case ctx of None \<Rightarrow> Inl NullDeref | Some c \<Rightarrow> Inr (sleep_sender_new (c, deadline)))"

definition loop_schedule_after :: "ptr \<Rightarrow> int \<Rightarrow> int \<Rightarrow> int \<Rightarrow> int \<Rightarrow> error + sleep_sender" where
  "loop_schedule_after ctx now n p q = loop_schedule_at ctx (now + - ((- (n * p)) div q))"

text \<open>\<open>schedule\<close> makes a \<open>schedule_sender\<close>, which also loses its context when it is connected, but is a copy of another when it is
  moved. It declares the stopped signal only where the token of the receiver can stop it.\<close>

record loop_schedule_sender =
  ls_ctx :: ptr

definition loop_schedule :: "ptr \<Rightarrow> error + loop_schedule_sender" where
  "loop_schedule ctx = (case ctx of None \<Rightarrow> Inl NullDeref | Some c \<Rightarrow> Inr \<lparr>ls_ctx = Some c\<rparr>)"

definition loop_schedule_connect :: "loop_schedule_sender \<Rightarrow> error + (addr \<times> loop_schedule_sender)" where
  "loop_schedule_connect s = (case ls_ctx s of None \<Rightarrow> Inl AssertFailed | Some c \<Rightarrow> Inr (c, s\<lparr>ls_ctx := None\<rparr>))"

definition loop_schedule_signatures :: "bool \<Rightarrow> 't signature list" where
  "loop_schedule_signatures unstoppable = (if unstoppable then [SetValueSig []] else [SetValueSig [], SetStoppedSig])"

text \<open>The schedulers of the event loops cannot fail, so that tasks and polymorphic schedulers accept them.\<close>

lemma loop_scheduler_infallible: "infallible_scheduler (loop_schedule_signatures unstoppable) unstoppable"
  by (simp add: infallible_scheduler_def loop_schedule_signatures_def)

subsection \<open>\<open>signal_wait_sender\<close>\<close>

record signal_sender =
  sw_signum :: int

definition signal_sender_new :: "int \<Rightarrow> signal_sender" where
  "signal_sender_new n = \<lparr>sw_signum = n\<rparr>"

definition signal_sender_move :: "signal_sender \<Rightarrow> signal_sender \<times> signal_sender" where
  "signal_sender_move other = (\<lparr>sw_signum = sw_signum other\<rparr>, other\<lparr>sw_signum := 0\<rparr>)"

definition signal_sender_assign :: "signal_sender \<Rightarrow> signal_sender \<Rightarrow> signal_sender \<times> signal_sender" where
  "signal_sender_assign s other =
     (case signal_sender_move other of (param, other) \<Rightarrow> (s\<lparr>sw_signum := sw_signum param\<rparr>, other))"

definition signal_sender_connect :: "signal_sender \<Rightarrow> error + (int \<times> signal_sender)" where
  "signal_sender_connect s = (if sw_signum s = 0 then Inl AssertFailed else Inr (sw_signum s, s\<lparr>sw_signum := 0\<rparr>))"

definition signal_class :: "(signal_sender, int) sender_class" where
  "signal_class = \<lparr>sc_new = signal_sender_new, sc_move = signal_sender_move, sc_assign = signal_sender_assign,
     sc_connect = signal_sender_connect, sc_holds = (\<lambda>s. if sw_signum s = 0 then None else Some (sw_signum s))\<rparr>"

subsection \<open>\<open>task\<close>\<close>

text \<open>The assertion is that of \<open>task_state_base\<close>. What a \<open>task\<close> lets go is a coroutine that it destroys.\<close>

record task_object =
  tk_coro :: ptr

definition task_new :: "addr \<Rightarrow> task_object" where
  "task_new h = \<lparr>tk_coro = Some h\<rparr>"

definition task_move :: "task_object \<Rightarrow> task_object \<times> task_object" where
  "task_move other = (\<lparr>tk_coro = tk_coro other\<rparr>, other\<lparr>tk_coro := None\<rparr>)"

definition task_swap :: "task_object \<Rightarrow> task_object \<Rightarrow> task_object \<times> task_object" where
  "task_swap s other = (s\<lparr>tk_coro := tk_coro other\<rparr>, other\<lparr>tk_coro := tk_coro s\<rparr>)"

definition task_assign :: "task_object \<Rightarrow> task_object \<Rightarrow> task_object \<times> task_object" where
  "task_assign s other =
     (case task_move other of (tmp, other) \<Rightarrow> (case task_swap tmp s of (tmp, s) \<Rightarrow> (s, other)))"

definition task_connect :: "task_object \<Rightarrow> error + (addr \<times> task_object)" where
  "task_connect s = (case tk_coro s of None \<Rightarrow> Inl AssertFailed | Some h \<Rightarrow> Inr (h, s\<lparr>tk_coro := None\<rparr>))"

definition task_class :: "(task_object, addr) sender_class" where
  "task_class = \<lparr>sc_new = task_new, sc_move = task_move, sc_assign = task_assign, sc_connect = task_connect, sc_holds = tk_coro\<rparr>"

section \<open>Programs\<close>

text \<open>\<open>os_made\<close>, \<open>os_connected\<close> and \<open>os_let_go\<close> record what was put into senders, what operations got, and what was overwritten
  or destroyed with a sender. An object that is assigned to itself is moved from and assigned in one.\<close>

record ('s, 'r) one_shots =
  os_slots :: "'s option list"
  os_made :: "'r multiset"
  os_connected :: "'r multiset"
  os_let_go :: "'r multiset"

datatype 'r os_op = OsNew nat 'r | OsMove nat nat | OsAssign nat nat | OsConnect nat | OsDestroy nat

definition os_start :: "nat \<Rightarrow> ('s, 'r) one_shots" where
  "os_start n = \<lparr>os_slots = replicate n None, os_made = {#}, os_connected = {#}, os_let_go = {#}\<rparr>"

definition os_at :: "nat \<Rightarrow> ('s, 'r) one_shots \<Rightarrow> 's option" where
  "os_at v s = (if v < length (os_slots s) then os_slots s ! v else None)"

definition os_set :: "nat \<Rightarrow> 's option \<Rightarrow> ('s, 'r) one_shots \<Rightarrow> ('s, 'r) one_shots" where
  "os_set v x s = s\<lparr>os_slots := (os_slots s)[v := x]\<rparr>"

definition os_vacant :: "nat \<Rightarrow> ('s, 'r) one_shots \<Rightarrow> bool" where
  "os_vacant v s \<longleftrightarrow> v < length (os_slots s) \<and> os_slots s ! v = None"

definition held :: "'r option \<Rightarrow> 'r multiset" where
  "held x = (case x of None \<Rightarrow> {#} | Some r \<Rightarrow> {#r#})"

fun os_exec :: "('s, 'r) sender_class \<Rightarrow> 'r os_op \<Rightarrow> ('s, 'r) one_shots \<Rightarrow> error + ('s, 'r) one_shots" where
  "os_exec C (OsNew v r) s =
     (if os_vacant v s
      then Inr (os_set v (Some (sc_new C r)) (s\<lparr>os_made := os_made s + held (sc_holds C (sc_new C r))\<rparr>))
      else Inl InvalidArgument)"
| "os_exec C (OsMove v w) s =
     (case os_at w s of
        None \<Rightarrow> Inl InvalidArgument
      | Some y \<Rightarrow>
          if os_vacant v s then (case sc_move C y of (x, y) \<Rightarrow> Inr (os_set v (Some x) (os_set w (Some y) s)))
          else Inl InvalidArgument)"
| "os_exec C (OsAssign v w) s =
     (case (os_at v s, os_at w s) of
        (Some x, Some y) \<Rightarrow>
          if v = w then (case sc_move C y of (x, y) \<Rightarrow> Inr (os_set v (Some (fst (sc_assign C y x))) s))
          else
            (case sc_assign C x y of
               (x', y) \<Rightarrow>
                 Inr (os_set v (Some x') (os_set w (Some y) (s\<lparr>os_let_go := os_let_go s + held (sc_holds C x)\<rparr>))))
      | _ \<Rightarrow> Inl InvalidArgument)"
| "os_exec C (OsConnect v) s =
     (case os_at v s of
        None \<Rightarrow> Inl InvalidArgument
      | Some x \<Rightarrow>
          (case sc_connect C x of
             Inl e \<Rightarrow> Inl e
           | Inr (r, x) \<Rightarrow> Inr (os_set v (Some x) (s\<lparr>os_connected := add_mset r (os_connected s)\<rparr>))))"
| "os_exec C (OsDestroy v) s =
     (case os_at v s of
        None \<Rightarrow> Inl InvalidArgument
      | Some x \<Rightarrow> Inr (os_set v None (s\<lparr>os_let_go := os_let_go s + held (sc_holds C x)\<rparr>)))"

fun os_run :: "('s, 'r) sender_class \<Rightarrow> 'r os_op list \<Rightarrow> ('s, 'r) one_shots \<Rightarrow> error + ('s, 'r) one_shots" where
  "os_run C [] s = Inr s"
| "os_run C (x # xs) s = (case os_exec C x s of Inl e \<Rightarrow> Inl e | Inr s \<Rightarrow> os_run C xs s)"

definition slot_holds :: "('s, 'r) sender_class \<Rightarrow> 's option \<Rightarrow> 'r multiset" where
  "slot_holds C x = (case x of None \<Rightarrow> {#} | Some s \<Rightarrow> held (sc_holds C s))"

definition os_held :: "('s, 'r) sender_class \<Rightarrow> ('s, 'r) one_shots \<Rightarrow> 'r multiset" where
  "os_held C s = (\<Sum>x\<in>#mset (os_slots s). slot_holds C x)"

lemma os_held_set:
  assumes "v < length (os_slots s)"
  shows "os_held C (os_set v x s) + slot_holds C (os_slots s ! v) = os_held C s + slot_holds C x"
proof -
  let ?rest = "\<Sum>x\<in>#mset (os_slots s) - {#os_slots s ! v#}. slot_holds C x"
  have "mset (os_slots s) = add_mset (os_slots s ! v) (mset (os_slots s) - {#os_slots s ! v#})"
    using assms by simp
  then have "os_held C s = slot_holds C (os_slots s ! v) + ?rest"
    unfolding os_held_def by (metis image_mset_add_mset sum_mset.insert)
  moreover have "os_held C (os_set v x s) = slot_holds C x + ?rest"
    using assms by (simp add: os_held_def os_set_def mset_update)
  ultimately show ?thesis by simp
qed

lemma os_held_upd [simp]:
  "os_held C (s\<lparr>os_made := m\<rparr>) = os_held C s" "os_held C (s\<lparr>os_connected := m\<rparr>) = os_held C s"
  "os_held C (s\<lparr>os_let_go := m\<rparr>) = os_held C s"
  by (simp_all add: os_held_def)

lemma os_set_simps [simp]:
  "os_made (os_set v x s) = os_made s" "os_connected (os_set v x s) = os_connected s" "os_let_go (os_set v x s) = os_let_go s"
  "length (os_slots (os_set v x s)) = length (os_slots s)"
  by (simp_all add: os_set_def)

lemma os_upd_simps [simp]:
  "os_at v (s\<lparr>os_made := m\<rparr>) = os_at v s" "os_at v (s\<lparr>os_connected := m\<rparr>) = os_at v s" "os_at v (s\<lparr>os_let_go := m\<rparr>) = os_at v s"
  "os_vacant v (s\<lparr>os_made := m\<rparr>) = os_vacant v s"
  by (simp_all add: os_at_def os_vacant_def)

lemma slot_holds_simps [simp]: "slot_holds C None = {#}" "slot_holds C (Some x) = held (sc_holds C x)"
  by (simp_all add: slot_holds_def)

lemma held_simps [simp]: "held None = {#}" "held (Some r) = {#r#}"
  by (simp_all add: held_def)

lemma os_held_vacant: "os_vacant v s \<Longrightarrow> os_held C (os_set v x s) = os_held C s + slot_holds C x"
  using os_held_set [of v s C x] by (simp add: os_vacant_def)

lemma os_held_at: "os_at v s = Some y \<Longrightarrow> os_held C (os_set v x s) + held (sc_holds C y) = os_held C s + slot_holds C x"
  using os_held_set [of v s C x] by (simp add: os_at_def split: if_splits)

text \<open>What was put into senders is held, connected, or let go.\<close>

definition os_balanced :: "('s, 'r) sender_class \<Rightarrow> ('s, 'r) one_shots \<Rightarrow> bool" where
  "os_balanced C s \<longleftrightarrow> os_held C s + os_connected s + os_let_go s = os_made s"

text \<open>So it is after every program, and connecting one object twice in a row fails.\<close>

definition os_linear :: "('s, 'r) sender_class \<Rightarrow> 'r os_op list \<Rightarrow> nat \<Rightarrow> nat \<Rightarrow> bool" where
  "os_linear C xs n v \<longleftrightarrow>
     (case os_run C xs (os_start n) of Inl e \<Rightarrow> e \<in> {AssertFailed, InvalidArgument} | Inr s \<Rightarrow> os_balanced C s) \<and>
     (case os_run C (xs @ [OsConnect v, OsConnect v]) (os_start n) of
        Inl e \<Rightarrow> e \<in> {AssertFailed, InvalidArgument}
      | Inr s \<Rightarrow> False)"

lemma os_run_append: "os_run C (xs @ ys) s = (case os_run C xs s of Inl e \<Rightarrow> Inl e | Inr s \<Rightarrow> os_run C ys s)"
  by (induction xs arbitrary: s) (auto split: sum.split)

section \<open>The interface\<close>

locale one_shot =
  fixes C :: "('s, 'r) sender_class"
  assumes move: "sc_move C y = (x, y') \<Longrightarrow> sc_holds C x = sc_holds C y \<and> sc_holds C y' = None"
    and assign: "sc_assign C x y = (x', y') \<Longrightarrow> sc_holds C x' = sc_holds C y \<and> sc_holds C y' = None"
    and connect: "sc_connect C x = Inr (r, x') \<Longrightarrow> sc_holds C x = Some r \<and> sc_holds C x' = None"
    and connect_error: "sc_connect C x = Inl e \<Longrightarrow> e = AssertFailed \<and> sc_holds C x = None"
begin

lemma exec_balanced:
  assumes bal: "os_balanced C s" and x: "os_exec C x s = Inr s'"
  shows "os_balanced C s'"
proof (cases x)
  case (OsNew v r)
  then have "os_vacant v s" using x by (simp split: if_splits)
  then show ?thesis using OsNew x bal os_held_vacant [of v "s\<lparr>os_made := m\<rparr>" C for m]
    by (auto simp: os_balanced_def add.assoc)
next
  case (OsMove v w)
  then obtain y x' y' where m: "os_at w s = Some y" "os_vacant v s" "sc_move C y = (x', y')"
    and s': "s' = os_set v (Some x') (os_set w (Some y') s)"
    using x by (auto split: option.splits if_splits prod.splits)
  have "v \<noteq> w" using m(1,2) by (auto simp: os_at_def os_vacant_def)
  then have "os_vacant v (os_set w (Some y') s)" using m(2) by (simp add: os_vacant_def os_set_def)
  then show ?thesis
    using bal move [OF m(3)] os_held_at [OF m(1), of C "Some y'"] by (simp add: s' os_balanced_def os_held_vacant)
next
  case (OsAssign v w)
  then obtain a b where ab: "os_at v s = Some a" "os_at w s = Some b" using x by (auto split: option.splits)
  show ?thesis
  proof (cases "v = w")
    case True
    obtain x1 y1 where m: "sc_move C b = (x1, y1)" by fastforce
    have "sc_holds C (fst (sc_assign C y1 x1)) = sc_holds C b"
      using move [OF m] assign [of y1 x1] by (metis prod.collapse)
    then show ?thesis
      using OsAssign x True m bal ab os_held_at [OF ab(1), of C "Some (fst (sc_assign C y1 x1))"]
      by (auto simp: os_balanced_def)
  next
    case False
    obtain a' b' where m: "sc_assign C a b = (a', b')" by fastforce
    have s': "s' = os_set v (Some a') (os_set w (Some b') (s\<lparr>os_let_go := os_let_go s + held (sc_holds C a)\<rparr>))"
      using OsAssign x False m ab by simp
    let ?t = "s\<lparr>os_let_go := os_let_go s + held (sc_holds C a)\<rparr>"
    have "os_at w ?t = Some b" using ab(2) by simp
    from os_held_at [OF this, of C "Some b'"] have w: "os_held C (os_set w (Some b') ?t) + held (sc_holds C b) = os_held C s"
      using assign [OF m] by simp
    have "os_at v (os_set w (Some b') ?t) = Some a" using False ab(1) by (simp add: os_at_def os_set_def split: if_splits)
    from os_held_at [OF this, of C "Some a'"]
    have "os_held C s' + held (sc_holds C a) = os_held C s" using w assign [OF m] by (simp add: s')
    then show ?thesis using bal by (simp add: os_balanced_def s' ac_simps)
  qed
next
  case (OsConnect v)
  then obtain a r a' where a: "os_at v s = Some a" "sc_connect C a = Inr (r, a')"
    and s': "s' = os_set v (Some a') (s\<lparr>os_connected := add_mset r (os_connected s)\<rparr>)"
    using x by (auto split: option.splits sum.splits)
  then show ?thesis
    using bal connect [OF a(2)] os_held_at [of v "s\<lparr>os_connected := add_mset r (os_connected s)\<rparr>" a C "Some a'", symmetric]
    by (simp add: os_balanced_def)
next
  case (OsDestroy v)
  then obtain a where a: "os_at v s = Some a" and s': "s' = os_set v None (s\<lparr>os_let_go := os_let_go s + held (sc_holds C a)\<rparr>)"
    using x by (auto split: option.splits)
  then show ?thesis
    using bal os_held_at [of v "s\<lparr>os_let_go := os_let_go s + held (sc_holds C a)\<rparr>" a C None]
    by (simp add: os_balanced_def ac_simps)
qed

lemma exec_error: "os_exec C x s = Inl e \<Longrightarrow> e = AssertFailed \<or> e = InvalidArgument"
  by (cases x) (auto split: option.splits if_splits prod.splits sum.splits dest: connect_error)

lemma run_balanced:
  "os_balanced C s \<Longrightarrow> (case os_run C xs s of Inl e \<Rightarrow> e \<in> {AssertFailed, InvalidArgument} | Inr s \<Rightarrow> os_balanced C s)"
proof (induction xs arbitrary: s)
  case (Cons x xs)
  show ?case
  proof (cases "os_exec C x s")
    case (Inl e)
    then show ?thesis using exec_error by auto
  next
    case (Inr t)
    then show ?thesis using Cons.IH [OF exec_balanced [OF Cons.prems Inr]] by simp
  qed
qed simp

lemma balanced_start: "os_balanced C (os_start n)"
  by (simp add: os_balanced_def os_start_def os_held_def)

text \<open>An object that was connected, or moved from, cannot be connected.\<close>

lemma empty_not_connected: "sc_holds C x = None \<Longrightarrow> sc_connect C x = Inl AssertFailed"
  using connect [of x] connect_error [of x] by (cases "sc_connect C x") fastforce+

lemma connect_once: "sc_connect C x = Inr (r, x') \<Longrightarrow> sc_connect C x' = Inl AssertFailed"
  using connect [of x r x'] empty_not_connected by blast

lemma moved_from: "sc_move C y = (x, y') \<Longrightarrow> sc_connect C y' = Inl AssertFailed"
  using move [of y x y'] empty_not_connected by blast

lemma exec_connect_once:
  assumes "os_exec C (OsConnect v) s = Inr s'"
  shows "os_exec C (OsConnect v) s' = Inl AssertFailed"
proof -
  obtain a r a' where a: "os_at v s = Some a" "sc_connect C a = Inr (r, a')"
    and s': "s' = os_set v (Some a') (s\<lparr>os_connected := add_mset r (os_connected s)\<rparr>)"
    using assms by (auto split: option.splits sum.splits)
  then have "os_at v s' = Some a'" by (auto simp: os_at_def os_set_def split: if_splits)
  then show ?thesis using connect_once [OF a(2)] by simp
qed

lemma program_linear: "os_linear C xs n v"
proof -
  have run: "case os_run C ys (os_start n) of Inl e \<Rightarrow> e \<in> {AssertFailed, InvalidArgument} | Inr s \<Rightarrow> os_balanced C s" for ys
    by (rule run_balanced [OF balanced_start])
  have twice: "os_run C [OsConnect v, OsConnect v] s \<noteq> Inr t" for s t
  proof (cases "os_exec C (OsConnect v) s")
    case (Inr u)
    then show ?thesis using exec_connect_once [OF Inr] by (simp del: os_exec.simps)
  qed (simp del: os_exec.simps)
  then have none: "os_run C (xs @ [OsConnect v, OsConnect v]) (os_start n) \<noteq> Inr s" for s
    unfolding os_run_append by (cases "os_run C xs (os_start n)") (simp_all del: os_run.simps)
  obtain e where "os_run C (xs @ [OsConnect v, OsConnect v]) (os_start n) = Inl e"
    using none by (cases "os_run C (xs @ [OsConnect v, OsConnect v]) (os_start n)") blast+
  then show ?thesis using run [of xs] run [of "xs @ [OsConnect v, OsConnect v]"] by (simp add: os_linear_def)
qed

end

interpretation lock_senders: one_shot lock_class
  by unfold_locales (auto simp: lock_class_def lock_sender_move_def lock_sender_assign_def lock_sender_connect_def split: option.splits)

interpretation acquire_senders: one_shot acquire_class
  by unfold_locales
    (auto simp: acquire_class_def acquire_sender_move_def acquire_sender_assign_def acquire_sender_connect_def split: option.splits)

interpretation wait_senders: one_shot wait_class
  by unfold_locales (auto simp: wait_class_def wait_sender_move_def wait_sender_assign_def wait_sender_connect_def split: option.splits)

interpretation sleep_senders: one_shot sleep_class
  by unfold_locales
    (auto simp: sleep_class_def sleep_sender_move_def sleep_sender_assign_def sleep_sender_connect_def split: option.splits)

interpretation signal_senders: one_shot signal_class
  by unfold_locales
    (auto simp: signal_class_def signal_sender_move_def signal_sender_assign_def signal_sender_connect_def split: if_splits)

interpretation tasks: one_shot task_class
  by unfold_locales
    (auto simp: task_class_def task_move_def task_assign_def task_swap_def task_connect_def split: option.splits)

section \<open>Properties\<close>

text \<open>A sleep is never shorter than the duration.\<close>

lemma schedule_after_not_early:
  assumes "loop_schedule_after ctx now n p q = Inr s" and "0 < q"
  shows "n * p \<le> (sl_deadline s - now) * q"
proof -
  define d m where "d = (- (n * p)) div q" and "m = (- (n * p)) mod q"
  then have "- (n * p) = d * q + m" by simp
  moreover have "0 \<le> m" using assms(2) by (simp add: m_def)
  moreover have "sl_deadline s - now = - d"
    using assms(1) by (auto simp: loop_schedule_after_def loop_schedule_at_def sleep_sender_new_def d_def split: option.splits)
  ultimately show ?thesis by simp
qed

text \<open>C40. The senders that can be connected once are linear: in every program that constructs, moves, assigns (also to itself),
  connects and destroys them, each mutex, semaphore, latch, deadline, signal or coroutine that was put into a sender is held by
  one sender, was given to one operation, or was let go with the sender that held it, and nothing is in two places. Connecting
  a sender twice, or after it was moved from, is a failed assertion.
\<close>

theorem one_shot_senders_linear:
  "os_linear lock_class xs n v \<and> os_linear acquire_class xs n v \<and> os_linear wait_class ys n v \<and>
   os_linear sleep_class ys n v \<and> os_linear signal_class zs n v \<and> os_linear task_class xs n v"
  by (intro conjI lock_senders.program_linear acquire_senders.program_linear wait_senders.program_linear
      sleep_senders.program_linear signal_senders.program_linear tasks.program_linear)

end
