(* ===== verification/Sender_Stop.thy ===== *)
theory Sender_Stop
  imports One_Shot
begin

text \<open>
  The environments and signatures of the algorithms that give a child another stop token: \<open>stop_when\<close>
  (\<open>include/coio/utils/stop_token.h\<close>) and \<open>when_any\<close> (\<open>include/coio/utils/when_any.h\<close>). How they complete is in \<open>Stop_Token\<close> and
  \<open>When_Any\<close>; here is what they declare.

  A token is the list of the sources that it watches. A token of the type \<open>never_stop_token\<close>, which is also what an environment
  without a token has, watches none; a combined token watches those of its parts.
\<close>

type_synonym token = "nat list"

datatype env_value = TokenValue token | OtherValue nat

definition get_stop_token :: "env_value environ \<Rightarrow> token" where
  "get_stop_token env = (case env GetStopToken of Some (TokenValue t) \<Rightarrow> t | _ \<Rightarrow> [])"

definition unstoppable :: "token \<Rightarrow> bool" where
  "unstoppable t \<longleftrightarrow> t = []"

section \<open>\<open>stop_when\<close>\<close>

text \<open>\<open>stop_combiner\<close> of the token of the algorithm and that of the receiver.\<close>

definition stop_when_env :: "(query \<Rightarrow> bool) \<Rightarrow> token \<Rightarrow> env_value environ \<Rightarrow> env_value environ" where
  "stop_when_env fwd tok env q =
     (if q = GetStopToken then Some (TokenValue (tok @ get_stop_token env)) else if fwd q then env q else None)"

definition stop_when_receiver ::
  "(query \<Rightarrow> bool) \<Rightarrow> token \<Rightarrow> ('t, 'a, env_value, 'w) sig_receiver \<Rightarrow> ('t, 'a, env_value, 'w) sig_receiver" where
  "stop_when_receiver fwd tok rcvr = \<lparr>rc_call = rc_call rcvr, rc_env = stop_when_env fwd tok (rc_env rcvr)\<rparr>"

definition stop_when_sender ::
  "(query \<Rightarrow> bool) \<Rightarrow> ('t, 'a, env_value, 'w) sig_sender \<Rightarrow> token \<Rightarrow> ('t, 'a, env_value, 'w) sig_sender" where
  "stop_when_sender fwd child tok =
     (if unstoppable tok then child
      else
        \<lparr>sn_start = (\<lambda>rcvr. sn_start child (stop_when_receiver fwd tok rcvr)),
         sn_signatures = sn_signatures child,
         sn_env = env_query fwd (fwd_env (Plain_Env (sn_env child)))\<rparr>)"

section \<open>\<open>when_any\<close>\<close>

text \<open>\<open>src\<close> is the source of the operation.\<close>

definition when_any_env :: "(query \<Rightarrow> bool) \<Rightarrow> nat \<Rightarrow> env_value environ \<Rightarrow> env_value environ" where
  "when_any_env fwd src env q =
     (if q = GetStopToken then Some (TokenValue [src]) else if fwd q then env q else None)"

definition when_any_signatures :: "('t, 'a, env_value, 'w) sig_sender list \<Rightarrow> env_value environ \<Rightarrow> 't signature list" where
  "when_any_signatures senders env = merge_completion_signatures (map (\<lambda>s. sn_signatures s env) senders)"

lemma when_any_declares: "distinct (when_any_signatures senders env)"
  "set (when_any_signatures senders env) = (\<Union>s\<in>set senders. set (sn_signatures s env))"
  by (auto simp: when_any_signatures_def merge_eq)

section \<open>Senders that do not look at the token\<close>

text \<open>
  \<open>stop_when\<close> takes the signatures of its child in the environment of its own receiver, which has another token than the
  child sees. That is right for the children whose signatures do not depend on the token, such as the sleeps and the
  operations on sockets and files.
\<close>

definition ignores_token :: "('t, 'a, env_value, 'w) sig_sender \<Rightarrow> bool" where
  "ignores_token s \<longleftrightarrow> (\<forall>env env'. sn_signatures s env = sn_signatures s env')"

lemma completes_declaredD:
  "completes_declared s \<Longrightarrow> (\<And>sig. sig \<in> set (sn_signatures s env) \<Longrightarrow> call sig = call' sig) \<Longrightarrow>
   sn_start s \<lparr>rc_call = call, rc_env = env\<rparr> w = sn_start s \<lparr>rc_call = call', rc_env = env\<rparr> w"
  unfolding completes_declared_def by blast

lemma stop_when_declared:
  fixes child :: "('t, 'a, env_value, 'w) sig_sender"
  assumes child: "completes_declared child" and ignores: "ignores_token child"
  shows "completes_declared (stop_when_sender fwd child tok)"
proof (cases "unstoppable tok")
  case True
  then show ?thesis using child by (simp add: stop_when_sender_def)
next
  case False
  show ?thesis
    unfolding completes_declared_def
  proof (intro allI impI)
    fix call call' :: "'t signature \<Rightarrow> 'a \<Rightarrow> 'w \<Rightarrow> 'w" and env w
    assume "\<forall>sig\<in>set (sn_signatures (stop_when_sender fwd child tok) env). call sig = call' sig"
    moreover have "sn_signatures child (stop_when_env fwd tok env) = sn_signatures child env"
      using ignores unfolding ignores_token_def by blast
    ultimately have "\<forall>sig\<in>set (sn_signatures child (stop_when_env fwd tok env)). call sig = call' sig"
      using False by (simp add: stop_when_sender_def)
    then show "sn_start (stop_when_sender fwd child tok) \<lparr>rc_call = call, rc_env = env\<rparr> w =
        sn_start (stop_when_sender fwd child tok) \<lparr>rc_call = call', rc_env = env\<rparr> w"
      using child False by (simp add: stop_when_sender_def completes_declared_def stop_when_receiver_def)
  qed
qed

section \<open>The schedule sender of the loops\<close>

text \<open>Its \<open>finish\<close>: \<open>requested w s\<close> tells whether the source \<open>s\<close> has requested a stop. No arguments are passed: \<open>()\<close>.\<close>

definition loop_schedule_sender_of ::
  "('w \<Rightarrow> nat \<Rightarrow> bool) \<Rightarrow> env_value environ \<Rightarrow> ('t, unit, env_value, 'w) sig_sender" where
  "loop_schedule_sender_of requested env =
     \<lparr>sn_start = (\<lambda>rcvr w.
        let tok = get_stop_token (rc_env rcvr)
        in if \<not> unstoppable tok \<and> (\<exists>s\<in>set tok. requested w s) then rc_call rcvr SetStoppedSig () w
           else rc_call rcvr (SetValueSig []) () w),
      sn_signatures = (\<lambda>env. loop_schedule_signatures (unstoppable (get_stop_token env))),
      sn_env = env\<rparr>"

lemma loop_schedule_declared: "completes_declared (loop_schedule_sender_of requested env)"
  by (simp add: completes_declared_def loop_schedule_sender_of_def loop_schedule_signatures_def Let_def)

text \<open>On its own it completes as it declares, but not inside \<open>stop_when\<close>: in an environment without a token the signatures are
  those of a sender that cannot be stopped, and the receiver is called with the stopped signal.\<close>

lemma stop_when_schedule_undeclared:
  assumes "tok \<noteq> []" and "s \<in> set tok" and "requested w s" and "get_stop_token env = []"
  shows "sn_signatures (stop_when_sender fwd (loop_schedule_sender_of requested e) tok) env = [SetValueSig []]"
    and "sn_start (stop_when_sender fwd (loop_schedule_sender_of requested e) tok) \<lparr>rc_call = call, rc_env = env\<rparr> w =
      call SetStoppedSig () w"
proof -
  show "sn_signatures (stop_when_sender fwd (loop_schedule_sender_of requested e) tok) env = [SetValueSig []]"
    using assms(1,4) by (simp add: stop_when_sender_def unstoppable_def loop_schedule_sender_of_def loop_schedule_signatures_def)
  have "get_stop_token (stop_when_env fwd tok env) = tok"
    using assms(4) by (simp add: get_stop_token_def stop_when_env_def)
  then show "sn_start (stop_when_sender fwd (loop_schedule_sender_of requested e) tok) \<lparr>rc_call = call, rc_env = env\<rparr> w =
      call SetStoppedSig () w"
    using assms(1-3) by (auto simp: stop_when_sender_def unstoppable_def loop_schedule_sender_of_def stop_when_receiver_def Let_def)
qed

lemma stop_when_schedule_not_declared:
  "\<not> completes_declared (stop_when_sender fwd (loop_schedule_sender_of (\<lambda>(w :: nat set) s. s = 0) e) [0])"
  (is "\<not> completes_declared ?s")
proof
  assume d: "completes_declared ?s"
  let ?env = "\<lambda>_. None"
  note facts = stop_when_schedule_undeclared [of "[0]" 0 "\<lambda>(w :: nat set) s. s = 0" "{}" ?env fwd e, OF _ _ refl]
  have env: "get_stop_token ?env = []" by (simp add: get_stop_token_def)
  have "sn_start ?s \<lparr>rc_call = \<lambda>sig _ w. if sig = SetStoppedSig then insert 1 w else w, rc_env = ?env\<rparr> {} =
      sn_start ?s \<lparr>rc_call = \<lambda>sig _ w. w, rc_env = ?env\<rparr> {}"
    by (rule completes_declaredD [OF d]) (auto simp: facts(1) env)
  then show False by (simp add: facts(2) env)
qed

end
