(* ===== verification/Sock_Options.thy ===== *)
theory Sock_Options
  imports Io_Frontend Win_Io
begin

text \<open>
  The socket options of \<open>include/coio/net/socket.h\<close>: an option holds the value in the form of the kernel, as an \<open>int\<close> or as
  \<open>struct linger\<close>. \<open>Io_Frontend\<close> has the options of \<open>int\<close> and \<open>bool\<close> as bytes; here is the class \<open>sock_option\<close> with what it
  stores, and the names of \<open>src/win/net/socket.cpp\<close>.
\<close>

datatype sock_value = BoolValue bool | IntValue "32 word" | LingerValue "32 word" "32 word"

datatype sock_kind = BoolKind | IntKind | LingerKind

datatype sock_storage = IntStorage "32 word" | LingerStorage "32 word" "32 word"

definition option_kind :: "sock_option \<Rightarrow> sock_kind" where
  "option_kind opt =
     (case opt of Linger \<Rightarrow> LingerKind | ReceiveBufferSize \<Rightarrow> IntKind | ReceiveLowWatermark \<Rightarrow> IntKind
      | SendBufferSize \<Rightarrow> IntKind | SendLowWatermark \<Rightarrow> IntKind | _ \<Rightarrow> BoolKind)"

definition value_kind :: "sock_value \<Rightarrow> sock_kind" where
  "value_kind v = (case v of BoolValue _ \<Rightarrow> BoolKind | IntValue _ \<Rightarrow> IntKind | LingerValue _ _ \<Rightarrow> LingerKind)"

text \<open>The traits.\<close>

definition sock_from_value :: "sock_value \<Rightarrow> sock_storage" where
  "sock_from_value v =
     (case v of
        BoolValue b \<Rightarrow> IntStorage (if b then 1 else 0)
      | IntValue n \<Rightarrow> IntStorage n
      | LingerValue onoff seconds \<Rightarrow> LingerStorage onoff seconds)"

definition sock_to_value :: "sock_kind \<Rightarrow> sock_storage \<Rightarrow> sock_value option" where
  "sock_to_value k s =
     (case (k, s) of
        (BoolKind, IntStorage n) \<Rightarrow> Some (BoolValue (n \<noteq> 0))
      | (IntKind, IntStorage n) \<Rightarrow> Some (IntValue n)
      | (LingerKind, LingerStorage onoff seconds) \<Rightarrow> Some (LingerValue onoff seconds)
      | _ \<Rightarrow> None)"

text \<open>The class. Its constructor initialises the storage with the value itself, which does not compile for \<open>struct linger\<close>.\<close>

definition sock_option_new :: "sock_value \<Rightarrow> sock_storage option" where
  "sock_option_new v =
     (case v of
        BoolValue b \<Rightarrow> Some (IntStorage (if b then 1 else 0))
      | IntValue n \<Rightarrow> Some (IntStorage n)
      | LingerValue _ _ \<Rightarrow> None)"

definition sock_option_set :: "sock_value \<Rightarrow> sock_storage" where
  "sock_option_set v = sock_from_value v"

definition sock_option_get :: "sock_kind \<Rightarrow> sock_storage \<Rightarrow> sock_value option" where
  "sock_option_get k s = sock_to_value k s"

definition sock_option_data :: "sock_storage \<Rightarrow> byte list" where
  "sock_option_data s =
     (case s of IntStorage n \<Rightarrow> mem32_le n | LingerStorage onoff seconds \<Rightarrow> mem32_le onoff @ mem32_le seconds)"

definition sock_option_length :: "sock_kind \<Rightarrow> nat" where
  "sock_option_length k = (case k of LingerKind \<Rightarrow> 8 | _ \<Rightarrow> 4)"

text \<open>What the bytes mean, when the kernel has written them.\<close>

definition sock_option_of_data :: "sock_kind \<Rightarrow> byte list \<Rightarrow> sock_storage" where
  "sock_option_of_data k bs =
     (case k of LingerKind \<Rightarrow> LingerStorage (unmem32_le (take 4 bs)) (unmem32_le (drop 4 bs)) | _ \<Rightarrow> IntStorage (unmem32_le bs))"

section \<open>Options of Windows\<close>

definition win_option_level :: "sock_option \<Rightarrow> so_level" where
  "win_option_level opt = (case opt of V6Only \<Rightarrow> IPPROTO_IPV6 | NoDelay \<Rightarrow> IPPROTO_TCP | _ \<Rightarrow> SOL_SOCKET)"

definition win_option_name :: "sock_option \<Rightarrow> so_name" where
  "win_option_name opt =
     (case opt of Debug \<Rightarrow> SO_DEBUG | DoNotRoute \<Rightarrow> SO_DONTROUTE | Broadcast \<Rightarrow> SO_BROADCAST
      | KeepAlive \<Rightarrow> SO_KEEPALIVE | Linger \<Rightarrow> SO_LINGER | OutOfBandInline \<Rightarrow> SO_OOBINLINE
      | ReceiveBufferSize \<Rightarrow> SO_RCVBUF | ReceiveLowWatermark \<Rightarrow> SO_RCVLOWAT | ReuseAddress \<Rightarrow> SO_REUSEADDR
      | SendBufferSize \<Rightarrow> SO_SNDBUF | SendLowWatermark \<Rightarrow> SO_SNDLOWAT | V6Only \<Rightarrow> IPV6_V6ONLY
      | NoDelay \<Rightarrow> TCP_NODELAY)"

section \<open>Setting and getting\<close>

text \<open>What \<open>set_option\<close> passes to the kernel and what \<open>get_option\<close> makes of the answer.\<close>

definition set_option :: "'k sys_calls \<Rightarrow> sock_option \<Rightarrow> sock_storage \<Rightarrow> (unit, 'k) object_op" where
  "set_option s opt st = basic_socket_set_option s opt (sock_option_data st)"

definition get_option :: "'k sys_calls \<Rightarrow> sock_option \<Rightarrow> (sock_storage, 'k) object_op" where
  "get_option s opt =
     ob_bind (basic_socket_get_option s opt (sock_option_length (option_kind opt)))
       (\<lambda>bs. ob_return (sock_option_of_data (option_kind opt) bs))"

lemma mem32_le_length [simp]: "length (mem32_le x) = 4"
  by (simp add: mem32_le_def)

lemma sock_option_data_roundtrip:
  "sock_option_of_data (value_kind v) (sock_option_data (sock_option_set v)) = sock_option_set v"
  "length (sock_option_data (sock_option_set v)) = sock_option_length (value_kind v)"
  "sock_option_get (value_kind v) (sock_option_set v) = Some v"
  by (cases v; simp add: sock_option_of_data_def value_kind_def sock_option_data_def sock_option_set_def sock_from_value_def
      sock_option_length_def sock_option_get_def sock_to_value_def mem32_le_inverse)+

lemma sock_option_new_set: "value_kind v \<noteq> LingerKind \<Longrightarrow> sock_option_new v = Some (sock_option_set v)"
  by (cases v) (simp_all add: sock_option_new_def sock_option_set_def sock_from_value_def value_kind_def)

lemma win_options_same: "win_option_level opt = option_level opt" "win_option_name opt = option_name opt"
  by (simp_all add: win_option_level_def option_level_def win_option_name_def option_name_def)

text \<open>An option that was set is got back from a kernel that keeps the bytes.\<close>

lemma option_roundtrip:
  assumes fd: "ob_fd ob \<noteq> - 1" and kind: "value_kind v = option_kind opt"
    and set: "sc_setsockopt s (ob_fd ob) (option_level opt) (option_name opt) bs (ec_kernel c) = (Inr (), k)"
    and bs: "bs = sock_option_data (sock_option_set v)"
    and get: "sc_getsockopt s (ob_fd ob) (option_level opt) (option_name opt) (length bs) k = (Inr bs, k')"
  shows "\<exists>c'. set_option s opt (sock_option_set v) (ob, c) = Some (Inr (), (ob, c')) \<and>
    (\<exists>st c''. get_option s opt (ob, c') = Some (Inr st, (ob, c'')) \<and> sock_option_get (option_kind opt) st = Some v)"
proof -
  have "set_option s opt (sock_option_set v) (ob, c) = Some (Inr (), (ob, c\<lparr>ec_kernel := k\<rparr>))"
    using fd set bs by (simp add: set_option_def basic_socket_set_option_def ob_native_def socket_set_sockopt_def with_fd_def
        check_fd_def io_call_def)
  moreover have "get_option s opt (ob, c\<lparr>ec_kernel := k\<rparr>) =
      Some (Inr (sock_option_set v), (ob, c\<lparr>ec_kernel := k'\<rparr>))"
    using fd get kind sock_option_data_roundtrip [of v]
    by (simp add: get_option_def basic_socket_get_option_def ob_bind_def ob_return_def ob_native_def socket_get_sockopt_def
        with_fd_def check_fd_def io_call_def io_post_def bs)
  ultimately show ?thesis using sock_option_data_roundtrip(3) [of v] kind by auto
qed

end
