(* ===== verification/Utilities.thy ===== *)
theory Utilities
  imports Prelude "HOL-Library.Multiset"
begin

text \<open>
  Small utilities: \<open>basic_fixed_string\<close> of \<open>include/coio/utils/fixed_string.h\<close>, \<open>scope_exit\<close> of \<open>scope_exit.h\<close>, the durations of
  \<open>timer.h\<close>, and the error category of \<open>include/coio/detail/error.h\<close> and \<open>src/portable/detail/error.cpp\<close>.
\<close>

section \<open>Fixed strings\<close>

text \<open>The array \<open>internal_\<close> has one more element than the size \<open>N\<close>, which is part of the type. Characters are ordered as their
  \<open>char_traits\<close> order them.\<close>

record 'c fixed_string =
  internal :: "'c list"

definition fixed_of_pointer :: "'c list \<Rightarrow> nat \<Rightarrow> 'c :: zero fixed_string" where
  "fixed_of_pointer p n = \<lparr>internal = take n p @ [0]\<rparr>"

definition fixed_of_array :: "'c list \<Rightarrow> 'c :: zero fixed_string" where
  "fixed_of_array arr = fixed_of_pointer arr (length arr - 1)"

text \<open>The constructor from characters needs at least one.\<close>

definition fixed_of_chars :: "'c list \<Rightarrow> 'c :: zero fixed_string option" where
  "fixed_of_chars cs = (case cs of [] \<Rightarrow> None | _ \<Rightarrow> Some \<lparr>internal = cs @ [0]\<rparr>)"

definition fixed_size :: "'c fixed_string \<Rightarrow> nat" where "fixed_size s = length (internal s) - 1"
definition fixed_empty :: "'c fixed_string \<Rightarrow> bool" where "fixed_empty s \<longleftrightarrow> fixed_size s = 0"

definition fixed_index :: "'c fixed_string \<Rightarrow> nat \<Rightarrow> error + 'c" where
  "fixed_index s i = (if i < fixed_size s then Inr (internal s ! i) else Inl AssertFailed)"

definition fixed_front :: "'c fixed_string \<Rightarrow> error + 'c" where
  "fixed_front s = (if \<not> fixed_empty s then Inr (internal s ! 0) else Inl AssertFailed)"

definition fixed_back :: "'c fixed_string \<Rightarrow> error + 'c" where
  "fixed_back s = (if \<not> fixed_empty s then Inr (internal s ! (fixed_size s - 1)) else Inl AssertFailed)"

definition fixed_view :: "'c fixed_string \<Rightarrow> 'c list" where
  "fixed_view s = take (fixed_size s) (internal s)"

definition fixed_concat :: "'c :: zero fixed_string \<Rightarrow> 'c fixed_string \<Rightarrow> 'c fixed_string option" where
  "fixed_concat lhs rhs = fixed_of_chars (map (\<lambda>i. internal lhs ! i) [0..<fixed_size lhs] @ map (\<lambda>i. internal rhs ! i) [0..<fixed_size rhs])"

definition fixed_eq :: "'c fixed_string \<Rightarrow> 'c fixed_string \<Rightarrow> bool" where
  "fixed_eq lhs rhs \<longleftrightarrow> fixed_view lhs = fixed_view rhs"

text \<open>\<open><=>\<close> of string views: negative, zero or positive.\<close>

fun view_compare :: "'c :: linorder list \<Rightarrow> 'c list \<Rightarrow> int" where
  "view_compare [] [] = 0"
| "view_compare [] (y # ys) = - 1"
| "view_compare (x # xs) [] = 1"
| "view_compare (x # xs) (y # ys) = (if x < y then - 1 else if y < x then 1 else view_compare xs ys)"

definition fixed_compare :: "'c :: linorder fixed_string \<Rightarrow> 'c fixed_string \<Rightarrow> int" where
  "fixed_compare lhs rhs = view_compare (fixed_view lhs) (fixed_view rhs)"

definition fixed_ok :: "'c :: zero fixed_string \<Rightarrow> bool" where
  "fixed_ok s \<longleftrightarrow> internal s \<noteq> [] \<and> last (internal s) = 0"

lemma fixed_new:
  "fixed_ok (fixed_of_pointer p n)" "fixed_view (fixed_of_pointer p n) = take n p"
  "arr \<noteq> [] \<Longrightarrow> fixed_view (fixed_of_array arr) = butlast arr"
  "fixed_of_chars cs = Some s \<Longrightarrow> fixed_ok s \<and> fixed_view s = cs"
  by (auto simp: fixed_ok_def fixed_of_pointer_def fixed_view_def fixed_size_def fixed_of_array_def butlast_conv_take
      fixed_of_chars_def min_def split: list.splits)

lemma fixed_size_view: "length (fixed_view s) = fixed_size s"
  by (simp add: fixed_view_def fixed_size_def)

lemma fixed_index_view: "fixed_index s i = (if i < length (fixed_view s) then Inr (fixed_view s ! i) else Inl AssertFailed)"
  by (simp add: fixed_index_def fixed_size_view) (simp add: fixed_view_def)

text \<open>Strings are concatenated, unless both are empty.\<close>

lemma fixed_concat_view:
  "map_option fixed_view (fixed_concat lhs rhs) =
     (if fixed_view lhs @ fixed_view rhs = [] then None else Some (fixed_view lhs @ fixed_view rhs))"
proof -
  have "map (\<lambda>i. internal s ! i) [0..<fixed_size s] = fixed_view s" for s :: "'a fixed_string"
    by (auto simp: fixed_view_def fixed_size_def intro!: nth_equalityI)
  then show ?thesis
    by (auto simp: fixed_concat_def fixed_of_chars_def fixed_view_def fixed_size_def split: list.split)
qed

lemma view_compare_zero: "view_compare xs ys = 0 \<longleftrightarrow> xs = ys"
  by (induction xs ys rule: view_compare.induct) auto

lemma view_compare_swap: "view_compare ys xs = - view_compare xs ys"
  by (induction xs ys rule: view_compare.induct) auto

lemma view_compare_less: "view_compare xs ys < 0 \<longleftrightarrow> ord_class.lexordp xs ys"
  by (induction xs ys rule: view_compare.induct) auto

text \<open>The comparison is the lexicographic one and agrees with \<open>==\<close>.\<close>

lemma fixed_compare_ok:
  "fixed_compare lhs rhs = 0 \<longleftrightarrow> fixed_eq lhs rhs" "fixed_compare rhs lhs = - fixed_compare lhs rhs"
  "fixed_compare lhs rhs < 0 \<longleftrightarrow> ord_class.lexordp (fixed_view lhs) (fixed_view rhs)"
  by (simp_all add: fixed_compare_def fixed_eq_def view_compare_zero view_compare_less view_compare_swap [of "fixed_view rhs"])

section \<open>Functions at the end of a scope\<close>

text \<open>
  The guards of a program are slots: \<open>None\<close>, or the function and the flag. \<open>se_calls\<close> are the calls that were made.
  \<open>se_made\<close> and \<open>se_released\<close> record which functions were given to a guard and which were let go while they were armed. A use of
  a slot that the language does not allow is \<^const>\<open>AssertFailed\<close>.
\<close>

record scope_exits =
  se_guards :: "(nat \<times> bool) option list"
  se_calls :: "nat list"
  se_made :: "nat multiset"
  se_released :: "nat multiset"

definition se_start :: "nat \<Rightarrow> scope_exits" where
  "se_start n = \<lparr>se_guards = replicate n None, se_calls = [], se_made = {#}, se_released = {#}\<rparr>"

definition se_set :: "nat \<Rightarrow> (nat \<times> bool) option \<Rightarrow> scope_exits \<Rightarrow> scope_exits" where
  "se_set v g s = s\<lparr>se_guards := (se_guards s)[v := g]\<rparr>"

definition se_at :: "nat \<Rightarrow> scope_exits \<Rightarrow> (nat \<times> bool) option" where
  "se_at v s = (if v < length (se_guards s) then se_guards s ! v else None)"

definition se_vacant :: "nat \<Rightarrow> scope_exits \<Rightarrow> bool" where
  "se_vacant v s \<longleftrightarrow> v < length (se_guards s) \<and> se_guards s ! v = None"

text \<open>The constructor; when the copy of the function throws, the function is called and the exception goes on.\<close>

definition se_new :: "nat \<Rightarrow> nat \<Rightarrow> bool \<Rightarrow> scope_exits \<Rightarrow> error + scope_exits" where
  "se_new v f throws s =
     (if \<not> se_vacant v s then Inl AssertFailed
      else
        let s = s\<lparr>se_made := add_mset f (se_made s)\<rparr>
        in if throws then Inr (s\<lparr>se_calls := se_calls s @ [f]\<rparr>) else Inr (se_set v (Some (f, True)) s))"

definition se_disarm :: "nat \<Rightarrow> scope_exits \<Rightarrow> scope_exits" where
  "se_disarm v s = se_set v (map_option (\<lambda>(f, flag). (f, False)) (se_at v s)) s"

definition se_release :: "nat \<Rightarrow> scope_exits \<Rightarrow> error + scope_exits" where
  "se_release v s =
     (case se_at v s of
        None \<Rightarrow> Inl AssertFailed
      | Some (f, flag) \<Rightarrow> Inr (se_disarm v (if flag then s\<lparr>se_released := add_mset f (se_released s)\<rparr> else s)))"

definition se_reset :: "nat \<Rightarrow> scope_exits \<Rightarrow> error + scope_exits" where
  "se_reset v s =
     (case se_at v s of
        None \<Rightarrow> Inl AssertFailed
      | Some (f, flag) \<Rightarrow>
          let s = se_disarm v s
          in Inr (if flag then s\<lparr>se_calls := se_calls s @ [f]\<rparr> else s))"

text \<open>The move constructor: when the move of the function throws nothing else happens.\<close>

definition se_move :: "nat \<Rightarrow> nat \<Rightarrow> bool \<Rightarrow> scope_exits \<Rightarrow> error + scope_exits" where
  "se_move v w throws s =
     (case se_at w s of
        None \<Rightarrow> Inl AssertFailed
      | Some g \<Rightarrow>
          if \<not> se_vacant v s then Inl AssertFailed
          else if throws then Inr s
          else Inr (se_disarm w (se_set v (Some g) s)))"

definition se_destroy :: "nat \<Rightarrow> scope_exits \<Rightarrow> error + scope_exits" where
  "se_destroy v s = (case se_reset v s of Inl e \<Rightarrow> Inl e | Inr s \<Rightarrow> Inr (se_set v None s))"

datatype se_op = SeNew nat nat bool | SeMove nat nat bool | SeRelease nat | SeReset nat | SeDestroy nat

fun se_exec :: "se_op \<Rightarrow> scope_exits \<Rightarrow> error + scope_exits" where
  "se_exec (SeNew v f throws) s = se_new v f throws s"
| "se_exec (SeMove v w throws) s = se_move v w throws s"
| "se_exec (SeRelease v) s = se_release v s"
| "se_exec (SeReset v) s = se_reset v s"
| "se_exec (SeDestroy v) s = se_destroy v s"

fun se_run :: "se_op list \<Rightarrow> scope_exits \<Rightarrow> error + scope_exits" where
  "se_run [] s = Inr s"
| "se_run (x # xs) s = (case se_exec x s of Inl e \<Rightarrow> Inl e | Inr s \<Rightarrow> se_run xs s)"

text \<open>The functions that a guard still has to call.\<close>

fun armed_of :: "(nat \<times> bool) option \<Rightarrow> nat multiset" where
  "armed_of (Some (f, True)) = {#f#}"
| "armed_of _ = {#}"

definition armed :: "scope_exits \<Rightarrow> nat multiset" where
  "armed s = (\<Sum>g\<in>#mset (se_guards s). armed_of g)"

lemma armed_set:
  assumes "v < length (se_guards s)"
  shows "armed (se_set v g s) + armed_of (se_guards s ! v) = armed s + armed_of g"
proof -
  have "mset (se_guards s) = add_mset (se_guards s ! v) (mset (se_guards s) - {#se_guards s ! v#})"
    using assms by simp
  then have "armed s = armed_of (se_guards s ! v) + (\<Sum>g\<in>#mset (se_guards s) - {#se_guards s ! v#}. armed_of g)"
    unfolding armed_def by (metis image_mset_add_mset sum_mset.insert)
  moreover have "armed (se_set v g s) = armed_of g + (\<Sum>g\<in>#mset (se_guards s) - {#se_guards s ! v#}. armed_of g)"
    using assms by (simp add: armed_def se_set_def mset_update)
  ultimately show ?thesis by simp
qed

definition se_inv :: "scope_exits \<Rightarrow> bool" where
  "se_inv s \<longleftrightarrow> armed s + mset (se_calls s) + se_released s = se_made s"

lemma armed_of_if: "armed_of (Some (f, flag)) = (if flag then {#f#} else {#})"
  by simp

lemma se_set_simps [simp]:
  "se_calls (se_set v g s) = se_calls s" "se_made (se_set v g s) = se_made s" "se_released (se_set v g s) = se_released s"
  "length (se_guards (se_set v g s)) = length (se_guards s)"
  by (simp_all add: se_set_def)

lemma armed_upd [simp]:
  "armed (s\<lparr>se_calls := c\<rparr>) = armed s" "armed (s\<lparr>se_made := m\<rparr>) = armed s" "armed (s\<lparr>se_released := m\<rparr>) = armed s"
  by (simp_all add: armed_def)

lemma se_at_Some: "se_at v s = Some g \<longleftrightarrow> v < length (se_guards s) \<and> se_guards s ! v = Some g"
  by (simp add: se_at_def)

lemma se_disarm_keeps [simp]:
  "se_calls (se_disarm v s) = se_calls s" "se_made (se_disarm v s) = se_made s" "se_released (se_disarm v s) = se_released s"
  by (simp_all add: se_disarm_def)

lemma armed_disarm:
  "se_at v s = Some (f, flag) \<Longrightarrow> armed s = armed (se_disarm v s) + (if flag then {#f#} else {#})"
  using armed_set [of v s "Some (f, False)"] by (auto simp: se_disarm_def se_at_def armed_of_if split: if_splits)

lemma armed_vacant: "se_vacant v s \<Longrightarrow> armed (se_set v g s) = armed s + armed_of g"
  using armed_set [of v s g] by (simp add: se_vacant_def)

lemma se_reset_inv: "se_inv s \<Longrightarrow> se_reset v s = Inr s' \<Longrightarrow> se_inv s' \<and> se_at v s' \<noteq> None \<and> armed_of (se_at v s') = {#}"
  using armed_disarm [of v s]
  by (auto simp: se_inv_def se_reset_def Let_def se_at_def se_disarm_def se_set_def armed_of_if nth_list_update
      split: option.splits if_splits)

lemma se_exec_inv:
  assumes inv: "se_inv s" and x: "se_exec x s = Inr s'"
  shows "se_inv s'"
proof (cases x)
  case (SeNew v f throws)
  have "armed (se_set v (Some (f, True)) (s\<lparr>se_made := m\<rparr>)) = add_mset f (armed s)" if "se_vacant v s" for m
    using armed_vacant [of v "s\<lparr>se_made := m\<rparr>" "Some (f, True)"] that by (simp add: se_vacant_def)
  then show ?thesis using SeNew x inv by (auto simp: se_new_def se_inv_def Let_def split: if_splits)
next
  case (SeMove v w throws)
  then obtain f flag where g: "se_at w s = Some (f, flag)" "se_vacant v s"
    using x by (auto simp: se_move_def split: option.splits if_splits)
  then have "se_at w (se_set v (Some (f, flag)) s) = Some (f, flag)"
    by (auto simp: se_at_def se_set_def se_vacant_def nth_list_update split: if_splits)
  from armed_disarm [OF this]
  have "armed (se_disarm w (se_set v (Some (f, flag)) s)) = armed s" by (simp add: armed_vacant [OF g(2)] armed_of_if split: if_splits)
  then show ?thesis using x inv g SeMove by (auto simp: se_move_def se_inv_def split: if_splits)
next
  case (SeRelease v)
  then obtain f flag where g: "se_at v s = Some (f, flag)"
    using x by (auto simp: se_release_def split: option.splits)
  have "se_disarm v (s\<lparr>se_released := m\<rparr>) = (se_disarm v s)\<lparr>se_released := m\<rparr>" for m
    by (simp add: se_disarm_def se_set_def se_at_def)
  then show ?thesis using x inv g armed_disarm [OF g] SeRelease by (auto simp: se_release_def se_inv_def split: if_splits)
next
  case (SeReset v)
  then show ?thesis using se_reset_inv [OF inv] x by auto
next
  case (SeDestroy v)
  then obtain t where t: "se_reset v s = Inr t" "s' = se_set v None t"
    using x by (auto simp: se_destroy_def split: sum.splits)
  have r: "se_inv t" "se_at v t \<noteq> None" "armed_of (se_at v t) = {#}" using se_reset_inv [OF inv t(1)] by simp_all
  then have "v < length (se_guards t)" "armed_of (se_guards t ! v) = {#}" by (auto simp: se_at_def split: if_splits)
  then have "armed (se_set v None t) = armed t" using armed_set [of v t None] by simp
  then show ?thesis using r(1) t(2) by (simp add: se_inv_def)
qed

lemma se_run_inv: "se_inv s \<Longrightarrow> se_run xs s = Inr s' \<Longrightarrow> se_inv s'"
  by (induction xs arbitrary: s) (auto intro: se_exec_inv split: sum.splits)

lemma se_inv_start: "se_inv (se_start n)"
  by (simp add: se_inv_def se_start_def armed_def)

lemma armed_none: "\<forall>g\<in>set (se_guards s). g = None \<Longrightarrow> armed s = {#}"
  unfolding armed_def by (rule sum_mset.neutral) auto

text \<open>Every function that was given to a guard is called once, unless the guard was released while it held it; when guards are
  left, the armed ones still hold theirs.\<close>

lemma scope_exit_calls_once:
  assumes "se_run xs (se_start n) = Inr s"
  shows "mset (se_calls s) + se_released s + armed s = se_made s"
    and "(\<forall>g\<in>set (se_guards s). g = None) \<Longrightarrow> mset (se_calls s) + se_released s = se_made s"
proof -
  have "se_inv s" by (rule se_run_inv [OF se_inv_start assms])
  then show a: "mset (se_calls s) + se_released s + armed s = se_made s" by (simp add: se_inv_def add_ac)
  show "mset (se_calls s) + se_released s = se_made s" if "\<forall>g\<in>set (se_guards s). g = None"
    using a armed_none [OF that] by simp
qed

section \<open>Durations of timers\<close>

text \<open>\<open>async_wait\<close> rounds the duration, \<open>n\<close> periods of \<open>p\<close> units, up to the period \<open>q\<close> of the clock of the scheduler.\<close>

definition timer_wait_ticks :: "int \<Rightarrow> int \<Rightarrow> int \<Rightarrow> int" where
  "timer_wait_ticks n p q = - ((- (n * p)) div q)"

lemma timer_never_early:
  assumes "0 < q"
  shows "n * p \<le> timer_wait_ticks n p q * q" "(timer_wait_ticks n p q - 1) * q < n * p"
proof -
  define d m where "d = (- (n * p)) div q" and "m = (- (n * p)) mod q"
  then have "- (n * p) = d * q + m" by simp
  moreover have "0 \<le> m" "m < q" using assms by (simp_all add: m_def)
  ultimately show "n * p \<le> timer_wait_ticks n p q * q" "(timer_wait_ticks n p q - 1) * q < n * p"
    by (simp_all add: timer_wait_ticks_def d_def [symmetric] left_diff_distrib)
qed

section \<open>Error codes\<close>

datatype misc_errc = Eof | Already_Open | Not_Found | Overflow

definition misc_code :: "misc_errc \<Rightarrow> int" where
  "misc_code e = (case e of Eof \<Rightarrow> 1 | Already_Open \<Rightarrow> 2 | Not_Found \<Rightarrow> 3 | Overflow \<Rightarrow> 4)"

definition misc_message :: "int \<Rightarrow> string option" where
  "misc_message ec =
     (if ec = 1 then Some ''end of file'' else if ec = 2 then Some ''already open'' else if ec = 3 then Some ''not found''
      else if ec = 4 then Some ''overflow'' else None)"

lemma misc_message_code: "misc_message (misc_code e) \<noteq> None" "misc_code e = misc_code f \<longleftrightarrow> e = f" "misc_code e \<noteq> 0"
  by (cases e; cases f; simp add: misc_message_def misc_code_def)+

lemma misc_message_inj: "misc_message (misc_code e) = misc_message (misc_code f) \<Longrightarrow> e = f"
  by (cases e; cases f; simp add: misc_message_def misc_code_def)

end
