(* ===== verification/Win_Net.thy ===== *)
theory Win_Net
  imports Resolver
begin

text \<open>
  Addresses, protocols and name resolution of Windows: \<open>src/win/net/basic.cpp\<close>, \<open>tcp.cpp\<close>, \<open>udp.cpp\<close> and \<open>resolver.cpp\<close>. The
  types are those of \<open>Net_Basic\<close> and \<open>Resolver\<close>; the numbers of the families and flags are those of Windows, and so is the
  length of an address, an \<open>int\<close>. The lemmas at the end say what of it is the same on Linux, so that \<open>Win_Io\<close> and \<open>Iocp_Io\<close> may
  use the functions of \<open>Net_Basic\<close>.
\<close>

section \<open>Addresses\<close>

definition win_ipv4_of_host :: "bool \<Rightarrow> 32 word \<Rightarrow> ipv4_address" where
  "win_ipv4_of_host le host_u32 = Ipv4 (htonl le host_u32)"

definition win_ipv4_of_string :: "bool \<Rightarrow> (string \<Rightarrow> byte list option) \<Rightarrow> string \<Rightarrow> error + ipv4_address" where
  "win_ipv4_of_string le pton s =
     (case pton s of None \<Rightarrow> Inl InvalidArgument | Some bs \<Rightarrow> Inr (Ipv4 (unmem32 le bs)))"

definition win_ipv4_to_string :: "bool \<Rightarrow> (byte list \<Rightarrow> string) \<Rightarrow> ipv4_address \<Rightarrow> string" where
  "win_ipv4_to_string le ntop a = ntop (mem32 le (net_u32 a))"

definition win_ipv4_eq :: "bool \<Rightarrow> ipv4_address \<Rightarrow> ipv4_address \<Rightarrow> bool" where
  "win_ipv4_eq le a b \<longleftrightarrow> ntohl le (net_u32 a) = ntohl le (net_u32 b)"

definition win_ipv4_cmp :: "bool \<Rightarrow> ipv4_address \<Rightarrow> ipv4_address \<Rightarrow> int" where
  "win_ipv4_cmp le a b = cmp (ntohl le (net_u32 a)) (ntohl le (net_u32 b))"

definition win_ipv6_of_string :: "(string \<Rightarrow> byte list option) \<Rightarrow> string \<Rightarrow> error + ipv6_address" where
  "win_ipv6_of_string pton s = (case pton s of None \<Rightarrow> Inl InvalidArgument | Some bs \<Rightarrow> Inr (Ipv6 bs))"

definition win_ipv6_to_string :: "(byte list \<Rightarrow> string) \<Rightarrow> ipv6_address \<Rightarrow> string" where
  "win_ipv6_to_string ntop a = ntop (v6_val a)"

definition win_endpoint_to_sockaddr_in :: "bool \<Rightarrow> endpoint \<Rightarrow> sockaddr" where
  "win_endpoint_to_sockaddr_in le addr =
     (case ep_ip addr of
        V4 a \<Rightarrow> SockIn (htons le (ep_port addr)) (net_u32 a)
      | V6 a \<Rightarrow> SockIn6 (htons le (ep_port addr)) 0 (v6_val a) 0)"

definition win_sockaddr_to_endpoint :: "bool \<Rightarrow> sockaddr \<Rightarrow> error + endpoint" where
  "win_sockaddr_to_endpoint le sa =
     (case sa of
        SockIn p a \<Rightarrow> Inr (Endpoint (V4 (Ipv4 a)) (ntohs le p))
      | SockIn6 p f a s \<Rightarrow> Inr (Endpoint (V6 (Ipv6 a)) (ntohs le p))
      | SockOther f \<Rightarrow> Inl Terminate)"

text \<open>The address is copied out of the storage first.\<close>

definition win_sockaddr_storage_to_endpoint :: "bool \<Rightarrow> sockaddr \<Rightarrow> error + endpoint" where
  "win_sockaddr_storage_to_endpoint le addr =
     (case addr of
        SockIn p a \<Rightarrow> let ipv4 = SockIn p a in Inr (Endpoint (V4 (Ipv4 (sin_addr ipv4))) (ntohs le (sin_port ipv4)))
      | SockIn6 p f a s \<Rightarrow>
          let ipv6 = SockIn6 p f a s in Inr (Endpoint (V6 (Ipv6 (sin6_addr ipv6))) (ntohs le (sin6_port ipv6)))
      | SockOther f \<Rightarrow> Inl Terminate)"

definition win_to_sockaddr :: "sockaddr \<Rightarrow> sockaddr \<times> int" where
  "win_to_sockaddr sa = (sa, case sa of SockIn _ _ \<Rightarrow> 16 | SockIn6 _ _ _ _ \<Rightarrow> 28 | SockOther _ \<Rightarrow> 0)"

section \<open>Protocols\<close>

text \<open>\<open>AF_INET\<close> is 2 and \<open>AF_INET6\<close> 23.\<close>

definition win_tcp_new :: protocol where "win_tcp_new = Tcp 2"
definition win_tcp_v4 :: protocol where "win_tcp_v4 = Tcp 2"
definition win_tcp_v6 :: protocol where "win_tcp_v6 = Tcp 23"
definition win_udp_new :: protocol where "win_udp_new = Udp 2"
definition win_udp_v4 :: protocol where "win_udp_v4 = Udp 2"
definition win_udp_v6 :: protocol where "win_udp_v6 = Udp 23"

text \<open>\<open>SOCK_STREAM\<close> is 1, \<open>SOCK_DGRAM\<close> 2, \<open>IPPROTO_TCP\<close> 6 and \<open>IPPROTO_UDP\<close> 17.\<close>

definition win_tcp_type :: int where "win_tcp_type = 1"
definition win_tcp_protocol_id :: int where "win_tcp_protocol_id = 6"
definition win_udp_type :: int where "win_udp_type = 2"
definition win_udp_protocol_id :: int where "win_udp_protocol_id = 17"

section \<open>Name resolution\<close>

definition win_ai_passive_v :: c_int where "win_ai_passive_v = 0x01"
definition win_ai_canonname_v :: c_int where "win_ai_canonname_v = 0x02"
definition win_ai_numerichost_v :: c_int where "win_ai_numerichost_v = 0x04"
definition win_ai_numericserv_v :: c_int where "win_ai_numericserv_v = 0x08"
definition win_ai_all_v :: c_int where "win_ai_all_v = 0x100"
definition win_ai_addrconfig_v :: c_int where "win_ai_addrconfig_v = 0x400"
definition win_ai_v4mapped_v :: c_int where "win_ai_v4mapped_v = 0x800"

definition win_resolve_entry :: "bool \<Rightarrow> addrinfo \<Rightarrow> error + resolve_result" where
  "win_resolve_entry le ai =
     (case win_sockaddr_to_endpoint le (ai_addr ai) of
        Inl e \<Rightarrow> Inl e
      | Inr ep \<Rightarrow> Inr \<lparr>res_endpoint = ep,
          res_canonical_name = (case ai_canonname ai of Some s \<Rightarrow> s | None \<Rightarrow> [])\<rparr>)"

fun win_foreach_addrinfo :: "bool \<Rightarrow> addrinfo list \<Rightarrow> (error + resolve_result) action list" where
  "win_foreach_addrinfo le [] = []"
| "win_foreach_addrinfo le (ai # rest) = Yield (win_resolve_entry le ai) # win_foreach_addrinfo le rest"

definition win_resolve_impl ::
    "bool \<Rightarrow> getaddrinfo \<Rightarrow> resolve_query \<Rightarrow> int \<Rightarrow> int \<Rightarrow> int \<Rightarrow> error + (error + resolve_result) action list" where
  "win_resolve_impl le gai q family socktype proto =
     (case gai (c_str_or_null (host_name q)) (c_str_or_null (service_name q))
        \<lparr>ai_flags = query_flags q, ai_family = family, ai_socktype = socktype, ai_protocol = proto\<rparr> of
        Inl ec \<Rightarrow> Inl (GaiError ec)
      | Inr ai_head \<Rightarrow> Inr (win_foreach_addrinfo le ai_head))"

definition win_resolve_unspec_impl ::
    "bool \<Rightarrow> getaddrinfo \<Rightarrow> resolve_query \<Rightarrow> int \<Rightarrow> int \<Rightarrow> error + (error + resolve_result) action list" where
  "win_resolve_unspec_impl le gai q socktype proto = win_resolve_impl le gai q 0 socktype proto"

section \<open>The platforms agree\<close>

lemma win_addresses_same:
  "win_ipv4_of_host = ipv4_of_host" "win_ipv4_of_string = ipv4_of_string" "win_ipv4_to_string = ipv4_to_string"
  "win_ipv4_eq = ipv4_eq" "win_ipv4_cmp = ipv4_cmp" "win_ipv6_of_string = ipv6_of_string" "win_ipv6_to_string = ipv6_to_string"
  by (simp_all add: fun_eq_iff win_ipv4_of_host_def ipv4_of_host_def win_ipv4_of_string_def ipv4_of_string_def
      win_ipv4_to_string_def ipv4_to_string_def win_ipv4_eq_def ipv4_eq_def win_ipv4_cmp_def ipv4_cmp_def
      win_ipv6_of_string_def ipv6_of_string_def win_ipv6_to_string_def ipv6_to_string_def)

lemma win_sockaddr_same:
  "win_endpoint_to_sockaddr_in = endpoint_to_sockaddr_in" "win_sockaddr_to_endpoint = sockaddr_to_endpoint"
  "win_sockaddr_storage_to_endpoint = sockaddr_storage_to_endpoint"
  "fst (win_to_sockaddr sa) = fst (to_sockaddr sa)" "snd (win_to_sockaddr sa) = int (snd (to_sockaddr sa))"
proof -
  show "win_endpoint_to_sockaddr_in = endpoint_to_sockaddr_in"
    by (simp add: fun_eq_iff win_endpoint_to_sockaddr_in_def endpoint_to_sockaddr_in_def)
  show s: "win_sockaddr_to_endpoint = sockaddr_to_endpoint"
    by (simp add: fun_eq_iff win_sockaddr_to_endpoint_def sockaddr_to_endpoint_def)
  show "win_sockaddr_storage_to_endpoint = sockaddr_storage_to_endpoint"
    by (simp add: fun_eq_iff win_sockaddr_storage_to_endpoint_def sockaddr_storage_to_endpoint_def sockaddr_to_endpoint_def
        split: sockaddr.split)
  show "fst (win_to_sockaddr sa) = fst (to_sockaddr sa)" "snd (win_to_sockaddr sa) = int (snd (to_sockaddr sa))"
    by (simp_all add: win_to_sockaddr_def to_sockaddr_def split: sockaddr.split)
qed

lemma win_foreach_same: "win_foreach_addrinfo le ais = foreach_addrinfo le ais"
  by (induction ais) (simp_all add: win_resolve_entry_def resolve_entry_def win_sockaddr_same)

text \<open>A query with the same flags gives the same generator; the flags themselves differ.\<close>

lemma win_resolve_same: "win_resolve_impl le gai q family socktype proto = resolve_impl le gai q family socktype proto"
  by (simp add: win_resolve_impl_def resolve_impl_def win_foreach_same split: sum.split)

text \<open>The flags can be told apart on both platforms.\<close>

lemma ai_flags_disjoint:
  "distinct [win_ai_passive_v, win_ai_canonname_v, win_ai_numerichost_v, win_ai_numericserv_v, win_ai_all_v,
     win_ai_addrconfig_v, win_ai_v4mapped_v]"
  "distinct [ai_passive_v, ai_canonname_v, ai_numerichost_v, ai_numericserv_v, ai_all_v, ai_addrconfig_v, ai_v4mapped_v]"
  by (simp_all add: win_ai_passive_v_def win_ai_canonname_v_def win_ai_numerichost_v_def win_ai_numericserv_v_def
      win_ai_all_v_def win_ai_addrconfig_v_def win_ai_v4mapped_v_def ai_passive_v_def ai_canonname_v_def ai_numerichost_v_def
      ai_numericserv_v_def ai_all_v_def ai_addrconfig_v_def ai_v4mapped_v_def)

end
