(* ===== verification/Spec2Isabelle.thy ===== *)
theory Spec2Isabelle
  imports Op_Queue_Mpsc Epoll_Reactor Io_Frontend Uring_Context Event_Loop Loop_Wakeup Async_Mutex Async_Semaphore Async_Latch Io_Algorithms Inplace_Vector When_Any Signal_Wait Fifo
    Resolver Co_Memory Task Stop_Token Retain_Ptr Iocp_Context Atomutex Lock_Guards Win_Signal Io_Types
    Polymorphic_Scheduler Sender_Stop Sock_Options Utilities Win_Net
begin

text \<open>
  \<^bold>\<open>coio\<close> is a C++20 library for asynchronous I/O with senders and receivers: event loops over epoll, io_uring and
  IOCP, sockets, files and pipes, transfer algorithms over buffers, synchronisation primitives that suspend
  instead of blocking, coroutines, and a few containers. This development models it on Linux and on Windows and proves
  what makes its components correct. Paths below are relative to \<open>src/\<close>.

  \<^bold>\<open>How the program is put together.\<close> An operation (a read, a sleep, a \<open>schedule\<close>) is an object with intrusive links.
  Starting it registers it with a backend; the backend or a cancellation takes it out again and publishes it to the
  queue of its loop; the thread that runs the loop takes it from the queue and calls its receiver. The pieces and
  their theories, from the bottom up:

    \<^item> \<open>Prelude\<close>: the types (addresses, links, 64-bit sizes), the errors as values, chains of links and sizes that do
      not wrap. An exception, a failed assertion, \<open>std::terminate\<close> and undefined behaviour that matters are values
      of \<open>error\<close>; a loop that may not return is a partial function with the result \<open>None\<close>.
    \<^item> \<open>Intrusive_List\<close>, \<open>Op_Queue\<close>, \<open>Op_Queue_Mpsc\<close> (\<open>detail/intrusive_list.h\<close>, \<open>detail/op_queue.h\<close>): the lists of
      operations and the lock-free queue of a loop, the latter with its compare-and-swap loop interleaved. Both
      provide the interface of \<open>Node_Queue\<close>.
    \<^item> \<open>Timer_Heap\<close>, \<open>Timer_Queue\<close> (\<open>detail/op_queue.h\<close>): the pairing heap of timers on its pointers, and the trees it
      refines.
    \<^item> \<open>Op_Phase\<close> (\<open>operation_state\<close> of \<open>execution_context.h\<close>): the protocol by which the starter, a canceller and the
      backend agree on who completes an operation.
    \<^item> \<open>Event_Loop\<close>, \<open>Loop_Wakeup\<close> (\<open>execution_context.h\<close>): the loop, its work count, \<open>schedule\<close> and sleeps, the run
      functions, and how the sleeping consumer is woken.
    \<^item> \<open>Object_Pool\<close>, \<open>Epoll_Entry\<close>, \<open>Epoll_Context\<close>, \<open>Epoll_Reactor\<close>, \<open>Epoll_Io\<close> (\<open>asyncio/epoll_context.h\<close>,
      \<open>linux/asyncio/epoll_context.cpp\<close>): the entry of a descriptor with its readiness, \<open>io_object\<close> and \<open>do_one\<close>, the
      interleaving of the kernel's edges with registration, and the eight operations.
    \<^item> \<open>Uring_Context\<close> (\<open>asyncio/uring_context.h\<close>, \<open>linux/asyncio/uring_context.cpp\<close>): submission, completion and
      \<open>do_one\<close> of the io_uring backend, with its starters interleaved.
    \<^item> \<open>Win_Io\<close>, \<open>Iocp_Io\<close>, \<open>Iocp_Context\<close> (\<open>win/common.h\<close>, \<open>win/net/socket.cpp\<close>, \<open>win/asyncio/\<close>,
      \<open>asyncio/iocp_context.h\<close>): the blocking calls of Windows, the eight operations of the completion port, its objects
      and \<open>do_one\<close>.
    \<^item> \<open>Linux_Common\<close>, \<open>Linux_Io\<close>, \<open>Net_Basic\<close>, \<open>Async_Result\<close> (\<open>linux/common.h\<close>, \<open>linux/net/\<close>, \<open>linux/asyncio/file.cpp\<close>,
      \<open>pipe.cpp\<close>, \<open>net/basic.h\<close>, \<open>utils/async_result.h\<close>): the blocking calls, addresses, results.
    \<^item> \<open>Io_Frontend\<close> (\<open>net/socket.h\<close>, \<open>asyncio/file.h\<close>, \<open>asyncio/pipe.h\<close>): the objects a program uses. \<open>Io_Senders\<close>: their
      asynchronous members and the senders of both Linux backends, and \<open>Io_Types\<close> (\<open>detail/io_descriptions.h\<close>) the types of
      what these complete with.
    \<^item> \<open>Dynamic_Buffer\<close>, \<open>Flat_Buffer\<close>, \<open>Streambuf\<close>, \<open>Io_Algorithms\<close> (\<open>utils/flat_buffer.h\<close>, \<open>utils/streambuf.h\<close>,
      \<open>asyncio/io.h\<close>): the buffers behind one interface, and reading and writing whole buffers or up to a delimiter.
    \<^item> \<open>Async_Mutex\<close>, \<open>Waiter_List\<close>, \<open>Async_Semaphore\<close>, \<open>Async_Latch\<close> (\<open>sync_primitives.h\<close>) and \<open>Fifo\<close> (\<open>utils/fifo.h\<close>),
      which is built from two semaphores; all with any number of threads interleaved. \<open>Lock_Guards\<close> runs programs over
      \<open>async_unique_lock\<close>, and \<open>Atomutex\<close> (\<open>utils/atomutex.h\<close>) is the lock behind the critical sections.
    \<^item> \<open>Signal_Wait\<close> (\<open>utils/signal_wait.h\<close>, \<open>linux/utils/signal_wait.cpp\<close>), \<open>Win_Signal\<close> (\<open>win/utils/signal_wait.cpp\<close>),
      \<open>When_Any\<close> (\<open>utils/when_any.h\<close>).
    \<^item> \<open>Polymorphic_Scheduler\<close> (\<open>utils/polymorphic_scheduler.h\<close>): schedulers of any type behind counted backends.
      \<open>One_Shot\<close>: the senders of the loops, of the synchronisation primitives and of signals, and tasks, as objects that are
      connected once.
    \<^item> \<open>Type_Lists\<close>, \<open>Sender_Env\<close>, \<open>Sender_Stop\<close> (\<open>utils/type_traits.h\<close>, \<open>detail/execution.h\<close>,
      \<open>utils/variant_sender.h\<close>, the senders of \<open>stop_when\<close> and \<open>when_any\<close>): what the compiler computes, lists of types, completion
      signatures and environments, as functions.
    \<^item> \<open>Sock_Options\<close> (\<open>net/socket.h\<close>), \<open>Utilities\<close> (\<open>utils/fixed_string.h\<close>, \<open>scope_exit.h\<close>, \<open>timer.h\<close>, \<open>detail/error.h\<close>):
      socket options, strings of a fixed size, guards, durations, error codes.
    \<^item> \<open>Inplace_Vector\<close> (\<open>utils/inplace_vector.h\<close>), \<open>Retain_Ptr\<close> (\<open>utils/retain_ptr.h\<close>), \<open>Stop_Token\<close>
      (\<open>utils/stop_token.h\<close>), \<open>Pmr_Resource\<close> (\<open>utils/allocator_resource.h\<close>, \<open>utils/new_object.h\<close>): a container, intrusive
      reference counts, combined and propagated stop tokens, and memory through an allocator of any type.
    \<^item> \<open>Generator\<close> (\<open>generator.h\<close>), \<open>Task\<close> (\<open>task.h\<close>), \<open>Co_Memory\<close> (\<open>detail/co_memory.h\<close>): coroutines as nodes of a store,
      each with the rest of its body; a symmetric transfer is a step of a machine, and the memory of a coroutine is laid
      out in 64-bit addresses.
    \<^item> \<open>Resolver\<close> (\<open>net/resolver.h\<close>, \<open>linux/net/resolver.cpp\<close>): name resolution, which delivers a generator. \<open>Win_Net\<close>
      (\<open>win/net/\<close>): it and the addresses on Windows.

  \<^bold>\<open>How code becomes definitions.\<close> An operation of the code is one definition with the code's guards and early
  returns in their order; its state is a record with the data members, its pointers are optional addresses into
  functions for the links, so aliasing is that of the code. Where threads meet, the atomic actions and the critical
  sections of the code are the transitions of an \<open>inductive\<close> relation; labels (\<open>\<dots>_pc\<close>) name the action that an
  operation performs next, and invariants hold of all reachable states. Memory orders are not modelled: atomics are
  sequentially consistent. Sizes are 64-bit words that wrap (\<open>size_t\<close>), times and counts of a type parameter are
  integers. The kernel, liburing, the allocator, the devices and \<open>inet_pton\<close> are parameters; what is assumed of them
  (\<open>reader_ok\<close>, \<open>uring_lib_ok\<close>, \<open>io_ip_peers\<close>, \<dots>) is named where it is used.

  \<^bold>\<open>Interfaces.\<close> \<open>node_queue\<close> (first in, first out; interpreted by the intrusive list and by the queue of a loop),
  \<open>timer_set\<close> (interpreted by the pairing heap), \<open>dynamic_buffer\<close> with \<open>flat_allocator\<close> (interpreted by the flat buffer
  and the stream buffer), \<open>one_shot\<close> (a sender that can be connected once; interpreted by six classes).

  \<^bold>\<open>What is proved.\<close> Of the queues: linearizability, order, no lost operation. Of the heap: it refines a set with
  a minimum. Of an operation: it is posted at most once and never lost, whatever the interleaving. Of the loop: \<open>run\<close>
  returns when all operations are completed, and the consumer never sleeps while there is something to do. Of the I/O
  senders: they complete as they declare, and an accepted descriptor is never leaked. Of
  epoll: no edge is lost, operations complete once, every start returns, blocking and asynchronous forms report the
  same. Of io_uring: no entry stays unsubmitted while the consumer waits, and its results are those of epoll. Of the
  completion port: every start gives a result or owes one packet, rounds publish completions in order, and the results are
  those of the blocking calls. Of coroutines: a generator yields the flat sequence that its nested bodies denote, a task
  calls its receiver with what its body denotes, and the machines return, leave no coroutine behind and give the memory
  back. Of reference counts: they are exact, and a backend of a scheduler lives as long as its references. Of a combined
  stop token: its callback runs once. Of senders as objects: each is connected at most once. Of the
  mutex, semaphore, latch, fifo, signals and \<open>when_any\<close>: exclusion, conservation, order, one completion each, nobody
  forgotten. Of the buffers and algorithms: they are byte queues, whole transfers are whole, the first delimiter is
  found. Of the vector: it is a list, and a failed append changes nothing. And of the constructors of I/O objects:
  descriptors are not leaked, but for \<open>make_pipe\<close>. Where the code falls short, a theorem shows it:
  \<open>flat_buffer_small_limit_overflow\<close>, \<open>inplace_vector_shrinking_bugs\<close>, \<open>make_pipe_leaks_writer\<close>,
  \<open>fifo_initial_elements_overflow\<close>, \<open>stopped_task_of_other_type\<close>,
  \<open>iocp_async_read_skips_after_short_read\<close>, \<open>async_connect_open_failure\<close>,
  \<open>stop_when_schedule_not_declared\<close>, \<open>tl_transform_size_empty\<close>.

  \<^bold>\<open>Bounds and fuel.\<close> Loops are structural or partial functions, and that they return is proved where it is claimed;
  the only fuel is the code's own (the three retries of \<open>allocate_sqe\<close>). Theorems about counters assume nothing
  about wrap-around beyond the size of the objects counted.

  \<^bold>\<open>Not modelled.\<close> \<open>utils/async_scope.h\<close>
  forwards to the counting scope of \<open>std::execution\<close>, whose implementation is chosen at build time, and \<open>detail/execution.h\<close>
  re-exports its names. Small wrappers without state of their own (\<open>zstring_view.h\<close>, \<open>format.h\<close>). Concepts and
  configuration have nothing to execute.
\<close>

end
